(* ===== verification/Prelude.thy ===== *)
theory Prelude
  imports Main "HOL-Library.Word"
begin

text \<open>
  Shared vocabulary of the development: the C integer types of \<open>os_common.h\<close>, C arrays as
  index functions, byte-buffer primitives (\<open>memcpy\<close>, \<open>memmove\<close>) on lists, and the
  simp collections the component theories extend. \<open>lens\<close> collects length facts,
  \<open>codec\<close> collects encode/decode facts.
\<close>

unbundle bit_operations_syntax

section \<open>C types\<close>

type_synonym u8 = "8 word"
type_synonym u16 = "16 word"
type_synonym u32 = "32 word"
type_synonym u64 = "64 word"
type_synonym bytes = "u8 list"

text \<open>A fixed-size C array is a function from its index; bounds are stated as invariants.\<close>

type_synonym 'a carray = "nat \<Rightarrow> 'a"

text \<open>C's conversion of an unsigned 64-bit value to \<open>int\<close>: the low 32 bits in two's complement.\<close>

definition int_of_u64 :: "u64 \<Rightarrow> int" where
  "int_of_u64 x = sint (ucast x :: u32)"

text \<open>The conversion of an unsigned 64-bit value to \<open>s64\<close>.\<close>

definition s64_of_u64 :: "u64 \<Rightarrow> int" where
  "s64_of_u64 x = sint x"

section \<open>Byte buffers\<close>

text \<open>\<open>memcpy(&buf[off], data, length data)\<close>.\<close>

definition mem_put :: "nat \<Rightarrow> 'a list \<Rightarrow> 'a list \<Rightarrow> 'a list" where
  "mem_put off data buf = take off buf @ data @ drop (off + length data) buf"

text \<open>\<open>memmove(buf, &buf[src], n)\<close>.\<close>

definition mem_down :: "nat \<Rightarrow> nat \<Rightarrow> 'a list \<Rightarrow> 'a list" where
  "mem_down src n buf = mem_put 0 (take n (drop src buf)) buf"

text \<open>Little-endian serialisation of machine words.\<close>

definition le16 :: "u16 \<Rightarrow> bytes" where
  "le16 v = [ucast v, ucast (drop_bit 8 v)]"

definition le32 :: "u32 \<Rightarrow> bytes" where
  "le32 v = [ucast v, ucast (drop_bit 8 v), ucast (drop_bit 16 v), ucast (drop_bit 24 v)]"

definition of_le32 :: "bytes \<Rightarrow> u32" where
  "of_le32 p = ucast (p ! 0) OR push_bit 8 (ucast (p ! 1)) OR push_bit 16 (ucast (p ! 2))
     OR push_bit 24 (ucast (p ! 3))"

text \<open>The bytes of a C string (without its terminating NUL).\<close>

definition ascii :: "string \<Rightarrow> bytes" where
  "ascii s = map of_char s"

text \<open>The conversions \<open>%d\<close> and \<open>%02x\<close> of \<open>printf\<close>.\<close>

definition dec_digit :: "int \<Rightarrow> char" where
  "dec_digit d = char_of (48 + d)"

function dec_digits :: "int \<Rightarrow> string" where
  "dec_digits n = (if n < 10 then [dec_digit n] else dec_digits (n div 10) @ [dec_digit (n mod 10)])"
  by pat_completeness auto
termination by (relation "measure nat") auto

declare dec_digits.simps [simp del]

definition dec_int :: "int \<Rightarrow> string" where
  "dec_int n = (if n < 0 then ''-'' @ dec_digits (- n) else dec_digits n)"

definition dec_nat :: "nat \<Rightarrow> string" where
  "dec_nat n = dec_int (int n)"

definition hex_digit :: "int \<Rightarrow> char" where
  "hex_digit d = char_of (if d < 10 then 48 + d else 87 + d)"

definition hex_byte :: "u8 \<Rightarrow> string" where
  "hex_byte b = [hex_digit (uint b div 16), hex_digit (uint b mod 16)]"

section \<open>Shared facts\<close>

named_theorems lens
named_theorems codec

lemma length_le16 [simp, lens]: "length (le16 v) = 2"
  by (simp add: le16_def)

lemma length_le32 [simp, lens]: "length (le32 v) = 4"
  by (simp add: le32_def)

lemma le32_not_Nil: "le32 v \<noteq> []"
  by (simp add: le32_def)

lemma length_ascii [simp, lens]: "length (ascii s) = length s"
  by (simp add: ascii_def)

lemma length_mem_put [simp, lens]:
  "off + length data \<le> length buf \<Longrightarrow> length (mem_put off data buf) = length buf"
  by (simp add: mem_put_def)

lemma length_mem_down [simp, lens]:
  "src + n \<le> length buf \<Longrightarrow> length (mem_down src n buf) = length buf"
  by (simp add: mem_down_def)

lemma take_mem_down: "src + n \<le> length buf \<Longrightarrow> take n (mem_down src n buf) = take n (drop src buf)"
  by (simp add: mem_down_def mem_put_def)

lemma mem_put_window:
  assumes "off + length data \<le> length buf" and "h \<le> off"
  shows "take (off - h + length data) (drop h (mem_put off data buf)) = take (off - h) (drop h buf) @ data"
  using assms by (simp add: mem_put_def drop_take min_absorb2)

lemma unat_of_nat_u32: "n < 2 ^ 32 \<Longrightarrow> unat (of_nat n :: u32) = n"
  by (simp add: unat_of_nat take_bit_eq_mod)

lemma word_bit_eqI:
  fixes a b :: "'a::len word"
  assumes "\<And>n. n < LENGTH('a) \<Longrightarrow> bit a n = bit b n"
  shows "a = b"
  by (rule bit_word_eqI) (simp add: assms)

lemma of_le32_le32 [simp, codec]: "of_le32 (le32 v @ rest) = v"
proof (rule word_bit_eqI)
  fix n
  assume "n < LENGTH(32)"
  then have "n < 32" by simp
  consider "n < 8" | "8 \<le> n" "n < 16" | "16 \<le> n" "n < 24" | "24 \<le> n" "n < 32"
    using \<open>n < 32\<close> by linarith
  then show "bit (of_le32 (le32 v @ rest)) n = bit v n"
    by cases (auto simp: of_le32_def le32_def bit_simps)
qed

lemma of_le32_le32' [simp, codec]: "of_le32 (le32 v) = v"
  using of_le32_le32 [of v "[]"] by simp

lemma of_le32_take: "4 \<le> n \<Longrightarrow> 4 \<le> length p \<Longrightarrow> of_le32 (take n p) = of_le32 p"
  by (simp add: of_le32_def)

lemma of_le32_append: "4 \<le> length p \<Longrightarrow> of_le32 (p @ q) = of_le32 p"
  by (cases p) (auto simp: of_le32_def nth_append)

end
