(* ===== verification/Uhsif.thy ===== *)
theory Uhsif
  imports Prelude
begin

text \<open>
  The UHSIF block protocol constants and inline functions of \<open>src/uhsif.h\<close>: the header CRC,
  header validity, little-endian access and the header fields. The lemmas give the CRC's
  linearity, its parity and burst error detection, and the decoding of an encoded header.
\<close>

section \<open>Definitions\<close>

definition UHSIF_CMD_MAGIC16 :: u16 where "UHSIF_CMD_MAGIC16 = 0xC7F3"
definition UHSIF_BLK_MAGIC16 :: u16 where "UHSIF_BLK_MAGIC16 = 0x6CC6"

definition UHSIF_CMD_RESET :: nat where "UHSIF_CMD_RESET = 0x01"
definition UHSIF_CMD_ENABLE :: nat where "UHSIF_CMD_ENABLE = 0x02"
definition UHSIF_CMD_SPEED :: nat where "UHSIF_CMD_SPEED = 0x03"
definition UHSIF_CMD_TEST :: nat where "UHSIF_CMD_TEST = 0x04"
definition UHSIF_CMD_UPLOAD_PARAMS :: nat where "UHSIF_CMD_UPLOAD_PARAMS = 0x20"

definition UHSIF_ACK_SIZE :: nat where "UHSIF_ACK_SIZE = 16"
definition UHSIF_MIN_PAYLOAD_WORDS :: u32 where "UHSIF_MIN_PAYLOAD_WORDS = 1"
definition UHSIF_MAX_PAYLOAD_WORDS :: u32 where "UHSIF_MAX_PAYLOAD_WORDS = 4092"
definition UHSIF_BLK_MAX_SIZE :: nat where "UHSIF_BLK_MAX_SIZE = 4 * (4 + 4092)"
definition UHSIF_CMD_SIZE :: nat where "UHSIF_CMD_SIZE = 16"
definition UHSIF_CMD_TIMEOUT_MS :: int where "UHSIF_CMD_TIMEOUT_MS = 200"
definition UHSIF_CMD_RETRIES :: nat where "UHSIF_CMD_RETRIES = 3"

text \<open>One iteration of the inner bit loop of \<open>uhsif_hdr_crc16\<close>.\<close>

definition crc_bit :: "u16 \<Rightarrow> u16" where
  "crc_bit crc = (if crc AND 0x8000 \<noteq> 0 then push_bit 1 crc XOR 0x1021 else push_bit 1 crc)"

text \<open>One iteration of the outer loop, for the byte \<open>b\<close>.\<close>

definition crc_byte :: "u8 \<Rightarrow> u16 \<Rightarrow> u16" where
  "crc_byte b crc = (crc_bit ^^ 8) (crc XOR push_bit 8 (ucast b))"

definition hdr_byte :: "u32 \<Rightarrow> u32 \<Rightarrow> u32 \<Rightarrow> nat \<Rightarrow> u8" where
  "hdr_byte w1 w2 w3 i =
     (let w = (if i < 4 then w1 else if i < 8 then w2 else w3)
      in ucast (drop_bit ((i mod 4) * 8) w AND 0xff))"

definition uhsif_hdr_crc16 :: "u32 \<Rightarrow> u32 \<Rightarrow> u32 \<Rightarrow> u16" where
  "uhsif_hdr_crc16 w1 w2 w3 = fold (\<lambda>i. crc_byte (hdr_byte w1 w2 w3 i)) [0..<12] 0xFFFF"

definition uhsif_blk_hdr_ok :: "u32 \<Rightarrow> u32 \<Rightarrow> u32 \<Rightarrow> u32 \<Rightarrow> bool" where
  "uhsif_blk_hdr_ok w0 w1 w2 w3 \<longleftrightarrow>
     (ucast w0 :: u16) = UHSIF_BLK_MAGIC16 \<and> drop_bit 16 w0 = ucast (uhsif_hdr_crc16 w1 w2 w3)"

abbreviation uhsif_le32 :: "bytes \<Rightarrow> u32" where "uhsif_le32 \<equiv> of_le32"

abbreviation uhsif_put_le32 :: "u32 \<Rightarrow> bytes" where "uhsif_put_le32 \<equiv> le32"

definition uhsif_blk_payload_len :: "bytes \<Rightarrow> u32" where
  "uhsif_blk_payload_len hdr = drop_bit 12 (uhsif_le32 (drop 12 hdr)) AND 0xfff"

definition uhsif_blk_seq :: "bytes \<Rightarrow> u8" where
  "uhsif_blk_seq hdr = ucast (drop_bit 24 (uhsif_le32 (drop 12 hdr)))"

definition uhsif_blk_is_ack :: "bytes \<Rightarrow> bool" where
  "uhsif_blk_is_ack hdr \<longleftrightarrow> uhsif_blk_payload_len hdr = 0"

definition uhsif_blk_size :: "bytes \<Rightarrow> nat" where
  "uhsif_blk_size hdr = UHSIF_ACK_SIZE + 4 * unat (uhsif_blk_payload_len hdr)"

text \<open>
  The peer's side of the protocol, written from the layout comments of \<open>uhsif.h\<close>: the header
  the FPGA puts before \<open>n\<close> payload words. It is a specification for the round trips below.
\<close>

definition blk_w3 :: "u8 \<Rightarrow> nat \<Rightarrow> u32" where
  "blk_w3 seq n = push_bit 24 (ucast seq) OR push_bit 12 (of_nat n)"

definition blk_header :: "u32 \<Rightarrow> u32 \<Rightarrow> u8 \<Rightarrow> nat \<Rightarrow> bytes" where
  "blk_header w1 w2 seq n =
     (let w3 = blk_w3 seq n;
          w0 = push_bit 16 (ucast (uhsif_hdr_crc16 w1 w2 w3)) OR ucast UHSIF_BLK_MAGIC16
      in le32 w0 @ le32 w1 @ le32 w2 @ le32 w3)"

text \<open>The CRC fed one message bit at a time, most significant bit of each byte first.\<close>

definition crc_in :: "bool \<Rightarrow> u16 \<Rightarrow> u16" where
  "crc_in b crc = crc_bit (crc XOR (if b then 0x8000 else 0))"

definition byte_bits :: "u8 \<Rightarrow> bool list" where
  "byte_bits b = map (bit b) (rev [0..<8])"

definition hdr_bits :: "u32 \<Rightarrow> u32 \<Rightarrow> u32 \<Rightarrow> bool list" where
  "hdr_bits w1 w2 w3 = concat (map byte_bits (le32 w1 @ le32 w2 @ le32 w3))"

text \<open>The bits of \<open>bs\<close> at the top of a 16-bit register.\<close>

fun top_bits :: "bool list \<Rightarrow> u16" where
  "top_bits [] = 0"
| "top_bits (b # bs) = (if b then 0x8000 else 0) XOR drop_bit 1 (top_bits bs)"

definition weight :: "'a::len word \<Rightarrow> nat" where
  "weight w = length (filter (bit w) [0..<LENGTH('a)])"

lemmas uhsif_consts =
  UHSIF_CMD_MAGIC16_def UHSIF_BLK_MAGIC16_def UHSIF_CMD_RESET_def UHSIF_CMD_ENABLE_def
  UHSIF_CMD_SPEED_def UHSIF_CMD_TEST_def UHSIF_CMD_UPLOAD_PARAMS_def UHSIF_ACK_SIZE_def
  UHSIF_MIN_PAYLOAD_WORDS_def UHSIF_MAX_PAYLOAD_WORDS_def UHSIF_BLK_MAX_SIZE_def
  UHSIF_CMD_SIZE_def UHSIF_CMD_TIMEOUT_MS_def UHSIF_CMD_RETRIES_def

section \<open>The CRC as a linear register\<close>

lemma crc_msb: "(x :: u16) AND 0x8000 \<noteq> 0 \<longleftrightarrow> bit x 15"
  using bit_iff_and_push_bit_not_eq_0 [of x 15] by simp

lemma crc_bit_alt: "crc_bit x = push_bit 1 x XOR (if bit x 15 then 0x1021 else 0)"
  by (simp add: crc_bit_def crc_msb)

lemma crc_bit_xor: "crc_bit (a XOR b) = crc_bit a XOR crc_bit b"
  by (auto simp: crc_bit_alt bit_simps push_bit_xor intro!: bit_word_eqI)

lemma crc_bit_0 [simp]: "crc_bit 0 = 0"
  by (simp add: crc_bit_alt)

lemma word_xor_eq_0: "(a :: 'a::len word) XOR b = 0 \<longleftrightarrow> a = b"
  by (auto simp: bit_eq_iff bit_simps)

lemma word_xor_left_cancel: "(c :: 'a::len word) XOR a = c XOR b \<longleftrightarrow> a = b"
  by (auto simp: bit_eq_iff bit_simps)

lemma bit_shl1: "bit (push_bit 1 (x :: u16)) m \<longleftrightarrow> 0 < m \<and> m < 16 \<and> bit x (m - 1)"
  unfolding bit_push_bit_iff by auto

lemma bit_crc_bit: "bit (crc_bit x) n \<longleftrightarrow>
    (0 < n \<and> n < 16 \<and> bit x (n - 1)) \<noteq> (bit x 15 \<and> (n = 0 \<or> n = 5 \<or> n = 12))"
proof -
  have poly: "bit (0x1021 :: u16) m \<longleftrightarrow> m = 0 \<or> m = 5 \<or> m = 12" for m
  proof -
    have "(0x1021 :: u16) = set_bit 0 (set_bit 5 (set_bit 12 0))" by simp
    then show ?thesis by (simp only: bit_simps) auto
  qed
  show ?thesis
    unfolding crc_bit_alt bit_xor_iff bit_shl1
    by (cases "bit x 15") (simp_all only: if_True if_False poly bit_0_eq bot_apply bot_bool_def simp_thms)
qed

lemma crc_bit_eq_0:
  assumes "crc_bit x = 0" shows "x = 0"
proof (rule word_bit_eqI)
  fix n assume n: "n < LENGTH(16)"
  have k: "\<not> bit (crc_bit x) m" for m using assms by simp
  have msb: "\<not> bit x 15" using k [of 0] by (simp add: bit_crc_bit)
  with k [of "Suc n"] n show "bit x n = bit 0 n"
    by (cases "n = 15") (auto simp: bit_crc_bit)
qed

lemma crc_bit_inject [simp]: "crc_bit a = crc_bit b \<longleftrightarrow> a = b"
proof
  assume "crc_bit a = crc_bit b"
  then have "crc_bit (a XOR b) = 0" by (simp add: crc_bit_xor)
  then show "a = b" by (auto dest: crc_bit_eq_0 simp: word_xor_eq_0)
qed simp

lemma crc_pow_xor: "(crc_bit ^^ n) (a XOR b) = (crc_bit ^^ n) a XOR (crc_bit ^^ n) b"
  by (induction n) (simp_all add: crc_bit_xor)

lemma crc_pow_inject: "(crc_bit ^^ n) a = (crc_bit ^^ n) b \<longleftrightarrow> a = b"
  by (induction n) simp_all

lemma crc_in_inject: "crc_in b x = crc_in b y \<longleftrightarrow> x = y"
proof -
  have "x XOR c = y XOR c \<longleftrightarrow> x = y" for c :: u16
    by (metis xor.assoc xor_self_eq xor.right_neutral)
  then show ?thesis by (simp add: crc_in_def)
qed

lemma fold_crc_in_inject: "fold crc_in s x = fold crc_in s y \<longleftrightarrow> x = y"
  by (induction s arbitrary: x y) (simp_all add: crc_in_inject)

section \<open>Serial form and burst detection\<close>

lemma bit_0x8000: "bit (0x8000 :: u16) n \<longleftrightarrow> n = 15"
proof -
  have "(0x8000 :: u16) = set_bit 15 0" by simp
  then show ?thesis by (simp only: bit_simps) auto
qed

lemma bit_top_bits: "bit (top_bits d) n \<longleftrightarrow> n < 16 \<and> 15 - n < length d \<and> d ! (15 - n)"
proof (induction d arbitrary: n)
  case Nil
  then show ?case by simp
next
  case (Cons b d)
  have msb: "bit (if b then 0x8000 else 0 :: u16) n \<longleftrightarrow> b \<and> n = 15"
    by (cases b) (simp_all only: if_True if_False bit_0x8000 bit_0_eq bot_apply bot_bool_def simp_thms)
  show ?case
    unfolding top_bits.simps bit_xor_iff msb bit_drop_bit_eq comp_apply Cons.IH
    by (cases "n = 15") (auto simp: nth_Cons' less_diff_conv Suc_diff_le)
qed

lemma crc_bit_drop:
  assumes "\<not> bit t 0" shows "crc_bit (drop_bit 1 t) = t"
proof (rule word_bit_eqI)
  fix n assume "n < LENGTH(16)"
  moreover have "\<not> bit t 16" using bit_imp_le_length [of t 16] by auto
  ultimately show "bit (crc_bit (drop_bit 1 t)) n = bit t n"
    using assms by (cases n) (auto simp: bit_crc_bit bit_drop_bit_eq)
qed

lemma fold_crc_in:
  "length d \<le> 16 \<Longrightarrow> fold crc_in d c = (crc_bit ^^ length d) (c XOR top_bits d)"
proof (induction d arbitrary: c)
  case Nil
  then show ?case by simp
next
  case (Cons b d)
  let ?b = "if b then 0x8000 else 0 :: u16"
  have "\<not> bit (top_bits d) 0" using Cons.prems by (simp add: bit_top_bits)
  then have "crc_bit (c XOR ?b) XOR top_bits d = crc_bit (c XOR ?b XOR drop_bit 1 (top_bits d))"
    by (simp only: crc_bit_xor crc_bit_drop xor.assoc simp_thms)
  with Cons show ?case
    by (simp only: fold_Cons comp_apply crc_in_def list.size funpow_Suc_right add_Suc_right
        add_0_right top_bits.simps Suc_le_mono)
qed

lemma top_bits_byte: "top_bits (byte_bits b) = push_bit 8 (ucast b)"
proof (rule word_bit_eqI)
  fix n assume n: "n < LENGTH(16)"
  show "bit (top_bits (byte_bits b)) n = bit (push_bit 8 (ucast b) :: u16) n"
    unfolding bit_top_bits bit_push_bit_iff bit_ucast_iff
    using n by (auto simp: byte_bits_def rev_nth bit_imp_le_length Suc_diff_Suc)
qed

lemma length_byte_bits [simp, lens]: "length (byte_bits b) = 8"
  by (simp add: byte_bits_def)

lemma crc_byte_serial: "crc_byte b c = fold crc_in (byte_bits b) c"
  by (simp add: fold_crc_in crc_byte_def top_bits_byte)

lemma ucast_and_ff: "(ucast ((w :: u32) AND 0xff) :: u8) = ucast w"
proof -
  have "(ucast (w AND mask 8) :: u8) = ucast w"
    by (auto intro!: word_bit_eqI simp: bit_ucast_iff bit_and_iff bit_mask_iff simp del: mask_numeral)
  then show ?thesis by (simp add: mask_eq_exp_minus_1)
qed

lemma hdr_bytes: "map (hdr_byte w1 w2 w3) [0..<12] = le32 w1 @ le32 w2 @ le32 w3"
  by (simp add: upt_rec hdr_byte_def ucast_and_ff le32_def)

lemma hdr_crc_bytes: "uhsif_hdr_crc16 w1 w2 w3 = fold crc_byte (le32 w1 @ le32 w2 @ le32 w3) 0xFFFF"
  unfolding uhsif_hdr_crc16_def hdr_bytes [symmetric] fold_map comp_def ..

lemma fold_crc_byte: "fold crc_byte bs c = fold crc_in (concat (map byte_bits bs)) c"
  by (induction bs arbitrary: c) (simp_all add: crc_byte_serial)

lemma hdr_crc_serial: "uhsif_hdr_crc16 w1 w2 w3 = fold crc_in (hdr_bits w1 w2 w3) 0xFFFF"
  by (simp only: hdr_crc_bytes fold_crc_byte hdr_bits_def)

lemma top_bits_inject:
  assumes "top_bits x = top_bits y" and "length x = length y" and "length x \<le> 16"
  shows "x = y"
proof (rule nth_equalityI [OF assms(2)])
  fix i assume "i < length x"
  moreover have "15 - i < 16" by simp
  ultimately show "x ! i = y ! i"
    using assms bit_top_bits [of x "15 - i"] bit_top_bits [of y "15 - i"] by simp
qed

lemma crc_burst:
  assumes "length x = length y" and "length x \<le> 16"
    and "fold crc_in (p @ x @ s) c = fold crc_in (p @ y @ s) c"
  shows "x = y"
proof -
  let ?c = "fold crc_in p c"
  from assms(3) have "fold crc_in x ?c = fold crc_in y ?c"
    by (simp add: fold_crc_in_inject)
  then have "?c XOR top_bits x = ?c XOR top_bits y"
    using assms(1,2) by (simp add: fold_crc_in crc_pow_inject)
  then have "top_bits x = top_bits y" by (simp only: word_xor_left_cancel)
  then show ?thesis using assms(1,2) by (rule top_bits_inject)
qed

section \<open>Parity and odd-weight errors\<close>

lemma odd_filter_xor:
  "odd (length (filter (\<lambda>n. P n \<noteq> Q n) xs)) \<longleftrightarrow>
     odd (length (filter P xs)) \<noteq> odd (length (filter Q xs))"
  by (induction xs) auto

lemma odd_weight_xor:
  fixes a b :: "'a::len word"
  shows "odd (weight (a XOR b)) \<longleftrightarrow> odd (weight a) \<noteq> odd (weight b)"
proof -
  have "bit (a XOR b) = (\<lambda>n. bit a n \<noteq> bit b n)" by (simp add: fun_eq_iff bit_xor_iff)
  then show ?thesis by (simp only: weight_def odd_filter_xor)
qed

lemma weight_crc_in: "odd (weight (crc_bit x)) = odd (weight x)"
proof -
  have shift: "weight (push_bit 1 x) + of_bool (bit x 15) = weight x"
  proof -
    have a: "[0..<16] = 0 # map Suc [0..<15]" and b: "[0..<16] = [0..<15] @ [15::nat]"
      by (simp_all add: upt_rec)
    have "bit (push_bit 1 x) = (\<lambda>m. 0 < m \<and> m < 16 \<and> bit x (m - 1))"
      by (simp only: fun_eq_iff bit_shl1) simp
    then have "weight (push_bit 1 x) = length (filter (\<lambda>m. 0 < m \<and> m < 16 \<and> bit x (m - 1)) [0..<16])"
      by (simp only: weight_def) simp
    also have "\<dots> = length (filter (\<lambda>n. n < 15 \<and> bit x n) [0..<15])"
      by (simp only: a) (simp add: filter_map comp_def)
    also have "filter (\<lambda>n. n < 15 \<and> bit x n) [0..<15] = filter (bit x) [0..<15]"
      by (rule filter_cong) simp_all
    finally have "weight (push_bit 1 x) = length (filter (bit x) [0..<15])" .
    then show ?thesis by (simp add: weight_def b)
  qed
  have "odd (weight (push_bit 1 x)) \<longleftrightarrow> odd (weight x) \<noteq> bit x 15"
    by (cases "bit x 15") (simp_all add: shift [symmetric])
  moreover have "odd (weight (0x1021 :: u16))"
    by (simp add: weight_def upt_rec)
  ultimately show ?thesis
    unfolding crc_bit_alt odd_weight_xor by (cases "bit x 15") (simp_all add: weight_def)
qed

lemma weight_msb: "odd (weight (if b then 0x8000 else 0 :: u16)) = b"
  by (cases b) (simp_all add: weight_def upt_rec)

lemma odd_weight_fold: "odd (weight (fold crc_in bs c)) \<longleftrightarrow> odd (weight c) \<noteq> odd (length (filter id bs))"
proof (induction bs arbitrary: c)
  case Nil
  then show ?case by simp
next
  case (Cons b bs)
  have "odd (weight (crc_in b c)) \<longleftrightarrow> odd (weight c) \<noteq> b"
    by (simp only: crc_in_def weight_crc_in odd_weight_xor weight_msb)
  then show ?case by (simp add: Cons.IH) blast
qed

lemma filter_byte_bits: "length (filter id (byte_bits b)) = weight b"
  by (simp add: byte_bits_def weight_def filter_map rev_filter [symmetric] flip: rev_map)

lemma window_weight:
  "length (filter (\<lambda>n. bit (w :: u32) (k + n)) [0..<LENGTH('a::len)]) = weight (ucast (drop_bit k w) :: 'a word)"
  unfolding weight_def
  by (rule arg_cong [of _ _ length], rule filter_cong) (simp_all add: bit_simps)

lemma ucast_up_down16: "(ucast (ucast (x :: u16) :: u32) :: u16) = x"
  by (rule word_bit_eqI) (simp add: bit_simps)

lemma weight_split32:
  "weight (w :: u32) = weight (ucast w :: u8) + weight (ucast (drop_bit 8 w) :: u8)
     + weight (ucast (drop_bit 16 w) :: u8) + weight (ucast (drop_bit 24 w) :: u8)"
proof -
  have l: "[0..<32] = [0..<8] @ map ((+) 8) [0..<8] @ map ((+) 16) [0..<8] @ map ((+) 24) [0..<8]"
    by (simp add: upt_rec)
  note f = window_weight [of w, where 'a = 8]
  show ?thesis
    using f [of 0] f [of 8] f [of 16] f [of 24]
    by (simp add: weight_def [of w] l filter_map comp_def)
qed

lemma weight_le32: "length (filter id (concat (map byte_bits (le32 w)))) = weight w"
  by (simp add: le32_def filter_byte_bits weight_split32 [of w])

lemma odd_weight_crc:
  "odd (weight (uhsif_hdr_crc16 w1 w2 w3)) = odd (weight w1 + weight w2 + weight w3)"
proof -
  have "length (filter id (hdr_bits w1 w2 w3)) = weight w1 + weight w2 + weight w3"
    by (simp add: hdr_bits_def weight_le32)
  moreover have "even (weight (0xFFFF :: u16))" by (simp add: weight_def upt_rec)
  ultimately show ?thesis by (simp add: hdr_crc_serial odd_weight_fold)
qed

lemma weight_halves: "weight (w :: u32) = weight (ucast w :: u16) + weight (ucast (drop_bit 16 w) :: u16)"
proof -
  have l: "[0..<32] = [0..<16] @ map ((+) 16) [0..<16]" by (simp add: upt_rec)
  note f = window_weight [of w, where 'a = 16]
  show ?thesis
    using f [of 0] f [of 16] by (simp add: weight_def [of w] l filter_map comp_def)
qed

lemma hdr_ok_even_weight:
  assumes "uhsif_blk_hdr_ok w0 w1 w2 w3"
  shows "even (weight w0 + weight w1 + weight w2 + weight w3)"
proof -
  from assms have "(ucast (drop_bit 16 w0) :: u16) = uhsif_hdr_crc16 w1 w2 w3"
    by (simp add: uhsif_blk_hdr_ok_def ucast_up_down16)
  moreover have "even (weight UHSIF_BLK_MAGIC16)"
    by (simp add: weight_def UHSIF_BLK_MAGIC16_def upt_rec)
  ultimately show ?thesis
    using assms odd_weight_crc [of w1 w2 w3]
    by (simp add: weight_halves [of w0] uhsif_blk_hdr_ok_def) blast
qed

section \<open>Encoded headers decode\<close>

lemma length_blk_header [simp, lens]: "length (blk_header w1 w2 seq n) = 16"
  by (simp add: blk_header_def Let_def)

lemma blk_w3_fields:
  assumes "n < 4096"
  shows "drop_bit 12 (blk_w3 seq n) AND 0xfff = of_nat n"
    and "ucast (drop_bit 24 (blk_w3 seq n)) = seq"
proof -
  have m: "(0xfff :: u32) = mask 12" by (simp add: mask_eq_exp_minus_1)
  have small: "k < 12" if "bit n k" for k
  proof (rule ccontr)
    assume "\<not> k < 12"
    then have "n < 2 ^ k" using assms power_increasing [of 12 k "2 :: nat"] by simp
    with that show False by (simp add: bit_iff_odd)
  qed
  have bn: "bit (of_nat n :: u32) k \<longleftrightarrow> k < 32 \<and> bit n k" for k
    by transfer (auto simp: bit_take_bit_iff bit_of_nat_iff)
  show "drop_bit 12 (blk_w3 seq n) AND 0xfff = of_nat n"
    unfolding m blk_w3_def
    by (rule word_bit_eqI) (auto simp: bit_simps bn simp del: mask_numeral dest: bit_imp_le_length small)
  show "ucast (drop_bit 24 (blk_w3 seq n)) = seq"
    unfolding blk_w3_def
    by (rule word_bit_eqI) (auto simp: bit_simps bn dest: small)
qed

lemma blk_header_words:
  "uhsif_le32 (drop 4 (blk_header w1 w2 seq n) @ r) = w1"
  "uhsif_le32 (drop 8 (blk_header w1 w2 seq n) @ r) = w2"
  "uhsif_le32 (drop 12 (blk_header w1 w2 seq n) @ r) = blk_w3 seq n"
  by (simp_all add: blk_header_def Let_def)

lemma blk_w0_fields:
  "(ucast (push_bit 16 (ucast c) OR ucast m :: u32) :: u16) = m"
  "drop_bit 16 (push_bit 16 (ucast (c :: u16)) OR ucast (m :: u16) :: u32) = ucast c"
  by (rule word_bit_eqI; auto simp: bit_simps dest: bit_imp_le_length)+

lemma blk_header_ok:
  "uhsif_blk_hdr_ok (uhsif_le32 (blk_header w1 w2 seq n @ r)) w1 w2 (blk_w3 seq n)"
  by (simp add: blk_header_def Let_def uhsif_blk_hdr_ok_def blk_w0_fields del: drop_bit_or)

lemma blk_header_magic: "(ucast (uhsif_le32 (blk_header w1 w2 seq n @ r)) :: u16) = UHSIF_BLK_MAGIC16"
  by (simp add: blk_header_def Let_def blk_w0_fields)

lemma blk_header_accessors:
  assumes "n < 4096"
  shows "uhsif_blk_payload_len (blk_header w1 w2 seq n @ r) = of_nat n"
    and "uhsif_blk_seq (blk_header w1 w2 seq n @ r) = seq"
  using assms by (simp_all add: uhsif_blk_payload_len_def uhsif_blk_seq_def blk_header_words blk_w3_fields)

section \<open>Error detection of the header checksum\<close>

text \<open>
  Odd-weight errors: a header at an odd Hamming distance (over all four words) from a valid
  header never passes the check, so corrupting an odd number of the 128 header bits is always
  detected.
\<close>

lemma hdr_odd_errors_detected:
  assumes "uhsif_blk_hdr_ok w0 w1 w2 w3"
    and "odd (weight (w0 XOR v0) + weight (w1 XOR v1) + weight (w2 XOR v2) + weight (w3 XOR v3))"
  shows "\<not> uhsif_blk_hdr_ok v0 v1 v2 v3"
proof
  assume "uhsif_blk_hdr_ok v0 v1 v2 v3"
  have x: "even (weight (a XOR b) + (weight a + weight b))" for a b :: u32
    using odd_weight_xor [of a b] by auto
  show False
    using x [of w0 v0] x [of w1 v1] x [of w2 v2] x [of w3 v3] assms(2)
      hdr_ok_even_weight [OF assms(1)] hdr_ok_even_weight [OF \<open>uhsif_blk_hdr_ok v0 v1 v2 v3\<close>]
    by presburger
qed

text \<open>
  Burst errors: if the 96 bits of \<open>w1\<close>, \<open>w2\<close>, \<open>w3\<close> of a valid header, in the
  order the CRC consumes them, are corrupted inside a window of at most 16 consecutive bits
  (a prefix \<open>p\<close> and a suffix \<open>s\<close> arrive unchanged, the window \<open>x\<close> arrives as
  \<open>y \<noteq> x\<close>), then the received header fails the check.
\<close>

lemma hdr_burst_errors_detected:
  assumes "uhsif_blk_hdr_ok w0 w1 w2 w3"
    and "hdr_bits w1 w2 w3 = p @ x @ s" and "hdr_bits v1 v2 v3 = p @ y @ s"
    and "length x = length y" and "length x \<le> 16" and "x \<noteq> y"
  shows "\<not> uhsif_blk_hdr_ok w0 v1 v2 v3"
proof
  assume "uhsif_blk_hdr_ok w0 v1 v2 v3"
  with assms(1) have "(ucast (uhsif_hdr_crc16 w1 w2 w3) :: u32) = ucast (uhsif_hdr_crc16 v1 v2 v3)"
    by (simp add: uhsif_blk_hdr_ok_def)
  then have "uhsif_hdr_crc16 w1 w2 w3 = uhsif_hdr_crc16 v1 v2 v3"
    by (metis ucast_up_down16)
  then have "x = y" using assms(2-5) by (auto simp only: hdr_crc_serial intro: crc_burst)
  with assms(6) show False by simp
qed

text \<open>
  C7. The header check detects errors: a header at an odd Hamming distance, over all four words, from
  a valid header is rejected; and so is one whose checked 96 bits, in the order the CRC consumes them,
  differ from those of a valid header inside a window of at most 16 bits (a prefix \<open>p\<close> and a suffix \<open>s\<close>
  arrive unchanged, the window \<open>x\<close> arrives as \<open>y \<noteq> x\<close>).
\<close>

theorem hdr_errors_detected:
  assumes "uhsif_blk_hdr_ok w0 w1 w2 w3"
  shows "(odd (weight (w0 XOR v0) + weight (w1 XOR v1) + weight (w2 XOR v2) + weight (w3 XOR v3)) \<longrightarrow> \<not> uhsif_blk_hdr_ok v0 v1 v2 v3)
    \<and> (hdr_bits w1 w2 w3 = p @ x @ s \<and> hdr_bits v1 v2 v3 = p @ y @ s \<and> length x = length y \<and> length x \<le> 16 \<and> x \<noteq> y \<longrightarrow>
         \<not> uhsif_blk_hdr_ok w0 v1 v2 v3)"
  using hdr_odd_errors_detected [OF assms, of v0 v1 v2 v3] hdr_burst_errors_detected [OF assms, of p x s v1 v2 v3 y] by blast

theorem hdr_errors_detected_witness:
  "uhsif_blk_hdr_ok 0x84f96CC6 0 0 0 \<and> \<not> uhsif_blk_hdr_ok 0x84f96CC6 7 0 0 \<and> \<not> uhsif_blk_hdr_ok 0x84f96CC6 0xA401 0 0"
proof -
  have ok: "uhsif_blk_hdr_ok 0x84f96CC6 0 0 0" by code_simp
  have odd: "odd (weight (0x84f96CC6 XOR 0x84f96CC6 :: u32) + weight (0 XOR 7 :: u32) + weight (0 XOR 0 :: u32) + weight (0 XOR 0 :: u32))"
    by code_simp
  let ?x = "take 16 (hdr_bits 0 0 0)" and ?y = "take 16 (hdr_bits 0xA401 0 0)" and ?s = "replicate 80 False"
  have "hdr_bits 0 0 0 = [] @ ?x @ ?s" by code_simp
  moreover have "hdr_bits 0xA401 0 0 = [] @ ?y @ ?s" by code_simp
  moreover have "length ?x = length ?y" by code_simp
  moreover have "length ?x \<le> 16" by code_simp
  moreover have "?x \<noteq> ?y" by code_simp
  ultimately show ?thesis
    using ok odd hdr_errors_detected [OF ok, of "0x84f96CC6" 7 0 0 "[]" ?x ?s ?y] hdr_errors_detected [OF ok, of "0x84f96CC6" "0xA401" 0 0 "[]" ?x ?s ?y] by blast
qed

end
