(* ===== verification/Chunking.thy ===== *)
theory Chunking
  imports Main
begin

text \<open>
  The contract shared by every layer that consumes a byte stream in arbitrary pieces: what a
  client can observe of the consumer depends on the bytes fed, never on where the pieces were
  cut. The block carver, the frame parser and the gen1 parser are interpretations of it.
\<close>

locale chunk_consumer =
  fixes inv :: "'s \<Rightarrow> bool"
    and feed :: "'s \<Rightarrow> 'b list \<Rightarrow> 's"
    and view :: "'s \<Rightarrow> 'v"
  assumes inv_feed: "inv s \<Longrightarrow> inv (feed s d)"
    and view_nil: "inv s \<Longrightarrow> view (feed s []) = view s"
    and view_cong: "inv s \<Longrightarrow> inv t \<Longrightarrow> view s = view t \<Longrightarrow> view (feed s d) = view (feed t d)"
    and view_append: "inv s \<Longrightarrow> view (feed (feed s a) b) = view (feed s (a @ b))"
begin

lemma inv_chunks: "inv s \<Longrightarrow> inv (foldl feed s ds)"
  by (induction ds arbitrary: s) (simp_all add: inv_feed)

lemma chunks_concat: "inv s \<Longrightarrow> view (foldl feed s ds) = view (feed s (concat ds))"
proof (induction ds arbitrary: s)
  case Nil
  then show ?case by (simp add: view_nil)
next
  case (Cons d ds)
  then show ?case by (simp add: inv_feed view_append)
qed

lemma chunks_independent:
  assumes "inv s" and "inv t" and "view s = view t" and "concat ds = concat es"
  shows "view (foldl feed s ds) = view (foldl feed t es)"
proof -
  have "view (foldl feed s ds) = view (feed s (concat ds))" using assms(1) by (rule chunks_concat)
  also have "\<dots> = view (feed t (concat ds))" using assms(1-3) by (rule view_cong)
  also have "\<dots> = view (foldl feed t es)" using assms(2,4) by (simp add: chunks_concat)
  finally show ?thesis .
qed

end

end
