(* ===== verification/Block_Stream.thy ===== *)
theory Block_Stream
  imports Uhsif Chunking
begin

text \<open>
  The stream layer of \<open>src/stream.c\<close>: carving the EP1 IN byte stream into UHSIF blocks. The
  concrete state keeps the linear staging buffer with its head and length; \<open>carver\<close> is the
  abstract machine over the pending bytes, and \<open>abs_stream\<close> relates the two. The user pointer of
  the C callbacks is a state \<open>'u\<close> that the callbacks transform. \<open>log_print\<close> lines are not
  modelled.
\<close>

section \<open>Definitions\<close>

definition STREAM_BUF_SIZE :: nat where "STREAM_BUF_SIZE = 1048576"
definition SCAN_KEEP_TAIL :: nat where "SCAN_KEEP_TAIL = 3"

datatype stream_state = STREAM_SCAN | STREAM_BLOCK

record 'u stream_callbacks =
  data_cb :: "'u \<Rightarrow> bytes \<Rightarrow> 'u"
  ack_cb :: "'u \<Rightarrow> 'u"
  rsync_cb :: "'u \<Rightarrow> 'u"

record 'u stream =
  s_cb :: "'u stream_callbacks"
  s_user :: 'u
  s_buf :: bytes
  s_cap :: nat
  s_head :: nat
  s_len :: nat
  s_state :: stream_state
  s_last_seq :: u8
  s_have_seq :: bool
  s_good :: nat

definition stream_new :: "'u stream_callbacks \<Rightarrow> 'u \<Rightarrow> 'u stream" where
  "stream_new cb u =
     \<lparr>s_cb = cb, s_user = u, s_buf = replicate STREAM_BUF_SIZE 0, s_cap = STREAM_BUF_SIZE,
      s_head = 0, s_len = 0, s_state = STREAM_SCAN, s_last_seq = 0, s_have_seq = False, s_good = 0\<rparr>"

definition compact :: "'u stream \<Rightarrow> 'u stream" where
  "compact s =
     (if s_head s > 0 then s\<lparr>s_buf := mem_down (s_head s) (s_len s) (s_buf s), s_head := 0\<rparr> else s)"

definition buf_at :: "'u stream \<Rightarrow> nat \<Rightarrow> bytes" where
  "buf_at s off = drop (s_head s + off) (s_buf s)"

text \<open>\<open>header_valid\<close> returns the payload length through its out parameter when it succeeds.\<close>

definition header_valid :: "bytes \<Rightarrow> u32 option" where
  "header_valid hdr =
     (let w0 = uhsif_le32 hdr; w1 = uhsif_le32 (drop 4 hdr); w2 = uhsif_le32 (drop 8 hdr);
          w3 = uhsif_le32 (drop 12 hdr); len = drop_bit 12 w3 AND 0xfff
      in if \<not> uhsif_blk_hdr_ok w0 w1 w2 w3 then None
         else if w1 AND 0xfffff000 \<noteq> 0 then None
         else if len \<noteq> 0 \<and> \<not> (UHSIF_MIN_PAYLOAD_WORDS \<le> len \<and> len \<le> UHSIF_MAX_PAYLOAD_WORDS) then None
         else Some len)"

definition accept_block :: "'u stream \<Rightarrow> u32 \<Rightarrow> 'u stream" where
  "accept_block s payload_len =
     (let hdr = buf_at s 0; seq = uhsif_blk_seq hdr; n = 4 * unat payload_len;
          span = UHSIF_ACK_SIZE + n; cb = s_cb s;
          s1 = (if s_have_seq s \<and> seq \<noteq> s_last_seq s + 1
                then s\<lparr>s_user := rsync_cb cb (s_user s), s_have_seq := False, s_good := 0\<rparr> else s);
          s2 = s1\<lparr>s_last_seq := seq, s_have_seq := True,
                  s_good := (if s_good s1 = 0 then 1 else if s_good s1 < 2 then s_good s1 + 1 else s_good s1)\<rparr>;
          s3 = s2\<lparr>s_user := (if payload_len = 0 then ack_cb cb (s_user s2)
                  else data_cb cb (s_user s2) (take n (drop UHSIF_ACK_SIZE hdr)))\<rparr>
      in s3\<lparr>s_head := s_head s + span, s_len := s_len s - span, s_state := STREAM_BLOCK\<rparr>)"

text \<open>Report a framing loss and go back to scanning (both error exits of the aligned state).\<close>

definition lose_sync :: "'u stream \<Rightarrow> 'u stream" where
  "lose_sync s =
     s\<lparr>s_user := rsync_cb (s_cb s) (s_user s), s_have_seq := False, s_good := 0, s_state := STREAM_SCAN\<rparr>"

text \<open>
  One iteration of the loop of \<open>process_available\<close>: the flag says \<open>continue\<close> (or the end of
  the body) against \<open>return\<close>.
\<close>

definition block_step :: "'u stream \<Rightarrow> bool \<times> 'u stream" where
  "block_step s =
     (case header_valid (buf_at s 0) of
        None \<Rightarrow> (True, lose_sync s)
      | Some payload_len \<Rightarrow>
          (let full_size = UHSIF_ACK_SIZE + 4 * unat payload_len
           in if s_len s < full_size
              then (if full_size \<le> s_cap s then (False, s) else (True, lose_sync s))
              else (True, accept_block s payload_len)))"

definition is_magic :: "bytes \<Rightarrow> bool" where
  "is_magic p \<longleftrightarrow> (ucast (uhsif_le32 p) :: u16) = UHSIF_BLK_MAGIC16"

definition find_magic :: "'u stream \<Rightarrow> nat option" where
  "find_magic s = find (\<lambda>i. is_magic (buf_at s i)) [0..<s_len s - 3]"

definition hold_at :: "'u stream \<Rightarrow> nat \<Rightarrow> 'u stream" where
  "hold_at s i =
     s\<lparr>s_buf := mem_down (s_head s + i) (s_len s - i) (s_buf s), s_head := 0, s_len := s_len s - i\<rparr>"

definition scan_step :: "'u stream \<Rightarrow> bool \<times> 'u stream" where
  "scan_step s =
     (case find_magic s of
        None \<Rightarrow>
          (let keep = min (s_len s) SCAN_KEEP_TAIL
           in if s_head s + s_len s > 0 \<and> keep + UHSIF_ACK_SIZE \<le> s_cap s
              then (False, hold_at s (s_len s - keep)) else (False, s))
      | Some found \<Rightarrow>
          if s_len s - found < UHSIF_ACK_SIZE then (False, hold_at s found)
          else case header_valid (buf_at s found) of
            None \<Rightarrow> (True, s\<lparr>s_head := s_head s + (found + 1), s_len := s_len s - (found + 1)\<rparr>)
          | Some payload_len \<Rightarrow>
              if s_len s - found < UHSIF_ACK_SIZE + 4 * unat payload_len then (False, hold_at s found)
              else (True, accept_block (s\<lparr>s_head := s_head s + found, s_len := s_len s - found\<rparr>) payload_len))"

definition process_step :: "'u stream \<Rightarrow> bool \<times> 'u stream" where
  "process_step s = (if s_state s = STREAM_BLOCK then block_step s else scan_step s)"

definition process_measure :: "'u stream \<Rightarrow> nat" where
  "process_measure s = 2 * s_len s + (if s_state s = STREAM_BLOCK then 1 else 0)"

lemma accept_block_len: "s_len (accept_block s pl) = s_len s - (16 + 4 * unat pl)"
  by (simp add: accept_block_def Let_def UHSIF_ACK_SIZE_def)

lemma process_step_measure:
  "16 \<le> s_len s \<Longrightarrow> process_step s = (True, s') \<Longrightarrow> process_measure s' < process_measure s"
  by (auto simp: process_step_def block_step_def scan_step_def lose_sync_def Let_def process_measure_def
      accept_block_len UHSIF_ACK_SIZE_def split: option.splits if_splits)

function process_available :: "'u stream \<Rightarrow> 'u stream" where
  "process_available s =
     (if UHSIF_ACK_SIZE \<le> s_len s
      then (case process_step s of (True, s') \<Rightarrow> process_available s' | (False, s') \<Rightarrow> s')
      else s)"
  by pat_completeness auto
termination
  by (relation "measure process_measure") (auto simp: UHSIF_ACK_SIZE_def dest: process_step_measure [OF _ sym])

declare process_available.simps [simp del]

definition append_bytes :: "'u stream \<Rightarrow> bytes \<Rightarrow> 'u stream" where
  "append_bytes s data =
     s\<lparr>s_buf := mem_put (s_head s + s_len s) data (s_buf s), s_len := s_len s + length data\<rparr>"

text \<open>The lazy compaction at the top of the loop of \<open>stream_feed\<close>.\<close>

definition lazy_compact :: "'u stream \<Rightarrow> nat \<Rightarrow> 'u stream" where
  "lazy_compact s n =
     (if s_head s \<noteq> 0 \<and> s_len s + n > s_cap s - s_head s then compact s else s)"

partial_function (option) stream_feed :: "'u stream \<Rightarrow> bytes \<Rightarrow> 'u stream option" where
  "stream_feed s data =
     (if data = [] then Some (process_available s)
      else let s0 = lazy_compact s (length data)
      in if s_len s0 + length data \<le> s_cap s0 - s_head s0
         then Some (process_available (append_bytes s0 data))
         else let s1 = compact s0; room = s_cap s1 - s_len s1; part = min (length data) room;
                  s2 = append_bytes s1 (take part data); rest = drop part data
         in if rest = [] then Some (process_available s2)
            else stream_feed (compact (process_available s2)) rest)"

text \<open>The abstract carver: pending bytes as a list, and no buffer management.\<close>

record 'u carver =
  c_cb :: "'u stream_callbacks"
  c_user :: 'u
  c_state :: stream_state
  c_last_seq :: u8
  c_have_seq :: bool
  c_good :: nat
  c_pend :: bytes

fun skip_garbage :: "bytes \<Rightarrow> bytes" where
  "skip_garbage [] = []"
| "skip_garbage (x # xs) = (if 3 \<le> length xs \<and> \<not> is_magic (x # xs) then skip_garbage xs else x # xs)"

definition set_pend :: "bytes \<Rightarrow> 'u carver \<Rightarrow> 'u carver" where
  "set_pend p c = c\<lparr>c_pend := (if c_state c = STREAM_SCAN then skip_garbage p else p)\<rparr>"

definition carve_lose :: "'u carver \<Rightarrow> 'u carver" where
  "carve_lose c =
     set_pend (c_pend c)
       (c\<lparr>c_user := rsync_cb (c_cb c) (c_user c), c_have_seq := False, c_good := 0, c_state := STREAM_SCAN\<rparr>)"

definition carve_accept :: "'u carver \<Rightarrow> nat \<Rightarrow> 'u carver" where
  "carve_accept c n =
     (let seq = uhsif_blk_seq (c_pend c); jump = c_have_seq c \<and> seq \<noteq> c_last_seq c + 1;
          u = (if jump then rsync_cb (c_cb c) (c_user c) else c_user c);
          g = (if jump then 0 else c_good c)
      in c\<lparr>c_user := (if n = 0 then ack_cb (c_cb c) u
                      else data_cb (c_cb c) u (take (4 * n) (drop 16 (c_pend c)))),
           c_state := STREAM_BLOCK, c_last_seq := seq, c_have_seq := True,
           c_good := (if g = 0 then 1 else if g < 2 then g + 1 else g),
           c_pend := drop (16 + 4 * n) (c_pend c)\<rparr>)"

definition carve_measure :: "'u carver \<Rightarrow> nat" where
  "carve_measure c = 2 * length (c_pend c) + (if c_state c = STREAM_BLOCK then 1 else 0)"

lemma length_skip_garbage: "length (skip_garbage p) \<le> length p"
  by (induction p) auto

function carve :: "'u carver \<Rightarrow> 'u carver" where
  "carve c =
     (if length (c_pend c) < 16 then c
      else case header_valid (c_pend c) of
        None \<Rightarrow> carve (if c_state c = STREAM_BLOCK then carve_lose c else set_pend (tl (c_pend c)) c)
      | Some n \<Rightarrow> if length (c_pend c) < 16 + 4 * unat n then c else carve (carve_accept c (unat n)))"
  by pat_completeness auto
termination
proof (relation "measure carve_measure", goal_cases)
  case (2 c)
  have "length (skip_garbage (c_pend c)) \<le> length (c_pend c)" by (rule length_skip_garbage)
  moreover have "length (skip_garbage (tl (c_pend c))) \<le> length (c_pend c) - 1"
    using length_skip_garbage [of "tl (c_pend c)"] by simp
  ultimately show ?case using 2
    by (cases "c_state c") (auto simp: carve_measure_def carve_lose_def set_pend_def)
next
  case (3 c n)
  then show ?case by (auto simp: carve_measure_def carve_accept_def Let_def)
qed simp

declare carve.simps [simp del]

definition carve_feed :: "'u carver \<Rightarrow> bytes \<Rightarrow> 'u carver" where
  "carve_feed c d = carve (set_pend (c_pend c @ d) c)"

definition pending :: "'u stream \<Rightarrow> bytes" where
  "pending s = take (s_len s) (drop (s_head s) (s_buf s))"

definition abs_stream :: "'u stream \<Rightarrow> 'u carver" where
  "abs_stream s =
     set_pend (pending s)
       \<lparr>c_cb = s_cb s, c_user = s_user s, c_state = s_state s, c_last_seq = s_last_seq s,
        c_have_seq = s_have_seq s, c_good = s_good s, c_pend = []\<rparr>"

text \<open>
  The buffer discipline (every access stays inside the staging buffer), and what holds between
  two calls of \<open>stream_feed\<close>: besides, less than one maximal block is retained.
\<close>

definition stream_ok :: "'u stream \<Rightarrow> bool" where
  "stream_ok s \<longleftrightarrow> s_cap s = STREAM_BUF_SIZE \<and> length (s_buf s) = s_cap s \<and> s_head s + s_len s \<le> s_cap s"

definition stream_wf :: "'u stream \<Rightarrow> bool" where
  "stream_wf s \<longleftrightarrow> stream_ok s \<and> s_len s < UHSIF_BLK_MAX_SIZE"

section \<open>Reading a prefix of the stream\<close>

lemma is_magic_append: "4 \<le> length p \<Longrightarrow> is_magic (p @ q) = is_magic p"
  by (simp add: is_magic_def of_le32_append)

lemma header_valid_append: "16 \<le> length p \<Longrightarrow> header_valid (p @ q) = header_valid p"
  by (simp add: header_valid_def of_le32_append)

lemma blk_seq_append: "16 \<le> length p \<Longrightarrow> uhsif_blk_seq (p @ q) = uhsif_blk_seq p"
  by (simp add: uhsif_blk_seq_def of_le32_append)

lemma is_magic_take: "4 \<le> n \<Longrightarrow> 4 \<le> length p \<Longrightarrow> is_magic (take n p) = is_magic p"
  using is_magic_append [of "take n p" "drop n p"] by simp

lemma header_valid_take: "16 \<le> n \<Longrightarrow> 16 \<le> length p \<Longrightarrow> header_valid (take n p) = header_valid p"
  using header_valid_append [of "take n p" "drop n p"] by simp

lemma blk_seq_take: "16 \<le> n \<Longrightarrow> 16 \<le> length p \<Longrightarrow> uhsif_blk_seq (take n p) = uhsif_blk_seq p"
  using blk_seq_append [of "take n p" "drop n p"] by simp

lemma header_valid_bound: "header_valid p = Some n \<Longrightarrow> unat n \<le> 4092"
  by (auto simp: header_valid_def Let_def UHSIF_MAX_PAYLOAD_WORDS_def word_le_nat_alt split: if_splits)

lemma header_valid_magic: "header_valid p = Some n \<Longrightarrow> is_magic p"
  by (auto simp: header_valid_def Let_def is_magic_def uhsif_blk_hdr_ok_def split: if_splits)

lemma skip_garbage_append: "skip_garbage (skip_garbage p @ d) = skip_garbage (p @ d)"
proof (induction p)
  case (Cons x p)
  then show ?case using is_magic_append [of "x # p" d] by auto
qed simp

lemma skip_garbage_idem [simp]: "skip_garbage (skip_garbage p) = skip_garbage p"
  using skip_garbage_append [of p "[]"] by simp

lemma skip_garbage_magic: "is_magic p \<Longrightarrow> skip_garbage p = p"
  by (cases p) auto

lemma skip_garbage_norm: "skip_garbage p = p \<Longrightarrow> 4 \<le> length p \<Longrightarrow> is_magic p"
proof (cases p)
  case (Cons x q)
  assume a: "skip_garbage p = p" "4 \<le> length p"
  have "skip_garbage q \<noteq> x # q" using length_skip_garbage [of q] by auto
  with a Cons show ?thesis by (auto split: if_splits)
qed simp

lemma skip_garbage_Some:
  "is_magic (drop i p) \<Longrightarrow> i + 4 \<le> length p \<Longrightarrow> \<forall>j<i. \<not> is_magic (drop j p) \<Longrightarrow> skip_garbage p = drop i p"
proof (induction i arbitrary: p)
  case 0
  then show ?case by (simp add: skip_garbage_magic)
next
  case (Suc i)
  then obtain x q where p: "p = x # q" by (cases p) auto
  have "\<forall>j<i. \<not> is_magic (drop j q)" using Suc.prems(3) p by fastforce
  with Suc p show ?case by auto
qed

lemma skip_garbage_None:
  "3 \<le> length p \<Longrightarrow> \<forall>j < length p - 3. \<not> is_magic (drop j p) \<Longrightarrow> skip_garbage p = drop (length p - 3) p"
proof (induction p)
  case (Cons x p)
  show ?case
  proof (cases "3 \<le> length p")
    case True
    then have "\<not> is_magic (x # p)" using Cons.prems(2) [rule_format, of 0] by simp
    moreover have "\<not> is_magic (drop j p)" if "j < length p - 3" for j
      using Cons.prems(2) [rule_format, of "Suc j"] that by simp
    ultimately have "\<not> is_magic (x # p)" and "\<forall>j < length p - 3. \<not> is_magic (drop j p)"
      by blast+
    moreover have "length (x # p) - 3 = Suc (length p - 3)" using True by simp
    ultimately show ?thesis using True Cons.IH by (simp del: length_Cons)
  next
    case False
    with Cons.prems(1) show ?thesis by simp
  qed
qed simp

section \<open>The pending window\<close>

lemma length_pending [simp]: "stream_ok s \<Longrightarrow> length (pending s) = s_len s"
  by (auto simp: pending_def stream_ok_def)

lemma window_at: "i \<le> s_len s \<Longrightarrow> drop i (pending s) = take (s_len s - i) (buf_at s i)"
  by (simp add: pending_def buf_at_def drop_take add.commute)

lemma length_buf_at: "stream_ok s \<Longrightarrow> s_len s - i \<le> length (buf_at s i)"
  by (auto simp: stream_ok_def buf_at_def)

lemma buf_at_magic:
  assumes "stream_ok s" and "i + 4 \<le> s_len s"
  shows "is_magic (buf_at s i) = is_magic (drop i (pending s))"
  using assms length_buf_at [of s i] by (simp add: window_at is_magic_take)

lemma buf_at_header:
  assumes "stream_ok s" and "i + 16 \<le> s_len s"
  shows "header_valid (buf_at s i) = header_valid (drop i (pending s))"
  using assms length_buf_at [of s i] by (simp add: window_at header_valid_take)

lemma pending_advance:
  "pending (s\<lparr>s_head := s_head s + k, s_len := s_len s - k\<rparr>) = drop k (pending s)"
  by (simp add: pending_def drop_take add.commute)

lemma pending_hold: "stream_ok s \<Longrightarrow> i \<le> s_len s \<Longrightarrow> pending (hold_at s i) = drop i (pending s)"
  by (simp add: pending_def hold_at_def take_mem_down stream_ok_def drop_take add.commute)

lemma ok_hold: "stream_ok s \<Longrightarrow> i \<le> s_len s \<Longrightarrow> stream_ok (hold_at s i)"
  by (auto simp: stream_ok_def hold_at_def)

lemma pending_compact [simp]: "stream_ok s \<Longrightarrow> pending (compact s) = pending s"
  by (simp add: pending_def compact_def take_mem_down stream_ok_def)

lemma ok_compact: "stream_ok s \<Longrightarrow> stream_ok (compact s)"
  by (simp add: stream_ok_def compact_def)

lemma pending_append:
  "stream_ok s \<Longrightarrow> s_head s + s_len s + length d \<le> s_cap s \<Longrightarrow> pending (append_bytes s d) = pending s @ d"
  using mem_put_window [of "s_head s + s_len s" d "s_buf s" "s_head s"]
  by (simp add: pending_def append_bytes_def stream_ok_def)

lemma ok_append:
  "stream_ok s \<Longrightarrow> s_head s + s_len s + length d \<le> s_cap s \<Longrightarrow> stream_ok (append_bytes s d)"
  by (simp add: stream_ok_def append_bytes_def)

lemma ok_advance:
  "stream_ok s \<Longrightarrow> k \<le> s_len s \<Longrightarrow> stream_ok (s\<lparr>s_head := s_head s + k, s_len := s_len s - k\<rparr>)"
  by (auto simp: stream_ok_def)

section \<open>Refinement of one iteration\<close>

definition carve_norm :: "'u carver \<Rightarrow> bool" where
  "carve_norm c \<longleftrightarrow> (c_state c = STREAM_SCAN \<longrightarrow> skip_garbage (c_pend c) = c_pend c)"

lemma abs_norm [simp]: "carve_norm (abs_stream s)"
  by (simp add: carve_norm_def abs_stream_def set_pend_def)

lemma abs_fields [simp]:
  "c_state (abs_stream s) = s_state s" "c_cb (abs_stream s) = s_cb s" "c_user (abs_stream s) = s_user s"
  by (simp_all add: abs_stream_def set_pend_def)

lemma pend_abs: "c_pend (abs_stream s) = (if s_state s = STREAM_SCAN then skip_garbage (pending s) else pending s)"
  by (simp add: abs_stream_def set_pend_def)

lemma abs_cong:
  assumes "skip_garbage (pending s) = skip_garbage (pending t)" and "pending s = pending t \<or> s_state s = STREAM_SCAN"
    and "s_cb s = s_cb t" "s_user s = s_user t" "s_state s = s_state t" "s_last_seq s = s_last_seq t"
    and "s_have_seq s = s_have_seq t" "s_good s = s_good t"
  shows "abs_stream s = abs_stream t"
  using assms by (auto simp: abs_stream_def set_pend_def)

lemma abs_lose: "abs_stream (lose_sync s) = carve_lose (abs_stream s)"
  by (cases "s_state s") (simp_all add: abs_stream_def lose_sync_def carve_lose_def set_pend_def pending_def)

lemma accept_block_pending:
  assumes "stream_ok s" and "16 + 4 * unat n \<le> s_len s"
  shows "stream_ok (accept_block s n)" and "pending (accept_block s n) = drop (16 + 4 * unat n) (pending s)"
  using ok_advance [OF assms] pending_advance [of s "16 + 4 * unat n"]
  by (simp_all add: accept_block_def Let_def UHSIF_ACK_SIZE_def stream_ok_def pending_def)

lemma abs_accept:
  assumes ok: "stream_ok s" and fits: "16 + 4 * unat n \<le> s_len s" and id: "c_pend (abs_stream s) = pending s"
  shows "abs_stream (accept_block s n) = carve_accept (abs_stream s) (unat n)"
proof -
  have w: "pending s = take (s_len s) (buf_at s 0)" using window_at [of 0 s] by simp
  have l: "s_len s \<le> length (buf_at s 0)" using length_buf_at [OF ok, of 0] by simp
  have seq: "uhsif_blk_seq (pending s) = uhsif_blk_seq (buf_at s 0)"
    using fits l unfolding w by (simp add: blk_seq_take)
  have payload: "take (4 * unat n) (drop 16 (pending s)) = take (4 * unat n) (drop 16 (buf_at s 0))"
    using fits l unfolding w by (simp add: drop_take min_def)
  have z: "n = 0 \<longleftrightarrow> unat n = 0" by (simp add: unat_eq_0)
  show ?thesis
    using accept_block_pending [OF ok fits] id
    by (simp add: abs_stream_def set_pend_def carve_accept_def accept_block_def Let_def seq payload z
        UHSIF_ACK_SIZE_def split: if_splits)
qed

lemma find_magic_None:
  assumes "stream_ok s" and "16 \<le> s_len s" and "find_magic s = None"
  shows "skip_garbage (pending s) = drop (s_len s - 3) (pending s)"
proof -
  have "\<forall>j < length (pending s) - 3. \<not> is_magic (drop j (pending s))"
    using assms buf_at_magic [OF assms(1)] by (auto simp: find_magic_def find_None_iff)
  then show ?thesis using skip_garbage_None [of "pending s"] assms(1,2) by simp
qed

lemma find_magic_Some:
  assumes "stream_ok s" and "find_magic s = Some i"
  shows "i + 4 \<le> s_len s" and "skip_garbage (pending s) = drop i (pending s)"
proof -
  from assms(2) have i: "i < s_len s - 3" and m: "is_magic (buf_at s i)"
    and n: "\<forall>j<i. \<not> is_magic (buf_at s j)"
    by (auto simp: find_magic_def find_Some_iff)
  show le: "i + 4 \<le> s_len s" using i by simp
  show "skip_garbage (pending s) = drop i (pending s)"
  proof (rule skip_garbage_Some)
    show "is_magic (drop i (pending s))" using m buf_at_magic [OF assms(1) le] by simp
    show "i + 4 \<le> length (pending s)" using le assms(1) by simp
    show "\<forall>j<i. \<not> is_magic (drop j (pending s))"
      using n le buf_at_magic [OF assms(1)] by simp
  qed
qed

lemma abs_hold:
  assumes "stream_ok s" and "i \<le> s_len s" and "s_state s = STREAM_SCAN"
    and "skip_garbage (pending s) = drop i (pending s)"
  shows "abs_stream (hold_at s i) = abs_stream s"
  by (rule abs_cong) (use assms in \<open>simp_all add: pending_hold\<close>, simp_all add: hold_at_def
      flip: assms(4))

definition step_refines :: "'u stream \<Rightarrow> bool \<times> 'u stream \<Rightarrow> bool" where
  "step_refines s r \<longleftrightarrow> stream_ok (snd r) \<and>
     (if fst r then carve (abs_stream s) = carve (abs_stream (snd r))
      else carve (abs_stream s) = abs_stream (snd r) \<and> s_len (snd r) < UHSIF_BLK_MAX_SIZE)"

lemma block_step_refines:
  assumes ok: "stream_ok s" and len: "16 \<le> s_len s" and st: "s_state s = STREAM_BLOCK"
  shows "step_refines s (block_step s)"
proof -
  have p: "c_pend (abs_stream s) = pending s" using st by (simp add: pend_abs)
  have hv: "header_valid (buf_at s 0) = header_valid (pending s)"
    using buf_at_header [OF ok, of 0] len by simp
  note unf = carve.simps [of "abs_stream s"]
  show ?thesis
  proof (cases "header_valid (pending s)")
    case None
    moreover have "stream_ok (lose_sync s)" using ok by (simp add: lose_sync_def stream_ok_def)
    ultimately show ?thesis using p len ok st unf hv by (simp add: step_refines_def block_step_def abs_lose)
  next
    case (Some n)
    have b: "unat n \<le> 4092" using Some by (rule header_valid_bound)
    then have cap: "16 + 4 * unat n \<le> s_cap s" using ok by (simp add: stream_ok_def STREAM_BUF_SIZE_def)
    show ?thesis
      using Some p len ok unf b cap hv abs_accept [OF ok _ p, of n] accept_block_pending(1) [OF ok, of n]
      by (cases "s_len s < 16 + 4 * unat n")
        (simp_all add: step_refines_def block_step_def UHSIF_ACK_SIZE_def UHSIF_BLK_MAX_SIZE_def)
  qed
qed

lemma scan_found_refines:
  assumes ok: "stream_ok s" and st: "s_state s = STREAM_SCAN" and fd: "find_magic s = Some i"
    and len: "i + 16 \<le> s_len s"
  shows "c_pend (abs_stream s) = drop i (pending s)"
    and "header_valid (buf_at s i) = header_valid (c_pend (abs_stream s))"
    and "abs_stream (s\<lparr>s_head := s_head s + i, s_len := s_len s - i\<rparr>) = abs_stream s"
proof -
  note sk = find_magic_Some [OF ok fd]
  show p: "c_pend (abs_stream s) = drop i (pending s)" using st sk(2) by (simp add: pend_abs)
  show "header_valid (buf_at s i) = header_valid (c_pend (abs_stream s))"
    unfolding p by (rule buf_at_header [OF ok len])
  have "skip_garbage (drop i (pending s)) = skip_garbage (pending s)" using sk(2) skip_garbage_idem by metis
  then show "abs_stream (s\<lparr>s_head := s_head s + i, s_len := s_len s - i\<rparr>) = abs_stream s"
    by (intro abs_cong) (simp_all add: pending_advance st)
qed

lemma hold_refines:
  assumes "stream_ok s" and "s_state s = STREAM_SCAN" and "i \<le> s_len s"
    and "skip_garbage (pending s) = drop i (pending s)" and "carve (abs_stream s) = abs_stream s"
    and "s_len s - i < UHSIF_BLK_MAX_SIZE"
  shows "step_refines s (False, hold_at s i)"
  using assms ok_hold [of s i] abs_hold [of s i] by (simp add: step_refines_def) (simp add: hold_at_def)

lemma scan_reject_refines:
  assumes ok: "stream_ok s" and st: "s_state s = STREAM_SCAN" and len: "i + 16 \<le> s_len s"
    and p: "c_pend (abs_stream s) = drop i (pending s)" and inv: "header_valid (c_pend (abs_stream s)) = None"
  shows "step_refines s (True, s\<lparr>s_head := s_head s + (i + 1), s_len := s_len s - (i + 1)\<rparr>)"
proof -
  let ?t = "s\<lparr>s_head := s_head s + (i + 1), s_len := s_len s - (i + 1)\<rparr>"
  have "tl (c_pend (abs_stream s)) = pending ?t"
    unfolding pending_advance by (simp add: p tl_drop drop_Suc)
  then have "abs_stream ?t = set_pend (tl (c_pend (abs_stream s))) (abs_stream s)"
    by (simp only:) (simp add: abs_stream_def set_pend_def)
  moreover have "stream_ok ?t" using ok len by (intro ok_advance) auto
  moreover have "length (c_pend (abs_stream s)) = s_len s - i" using ok by (simp add: p)
  ultimately show ?thesis using inv len st carve.simps [of "abs_stream s"] by (simp add: step_refines_def)
qed

lemma scan_accept_refines:
  assumes ok: "stream_ok s" and st: "s_state s = STREAM_SCAN" and fd: "find_magic s = Some i"
    and hv: "header_valid (c_pend (abs_stream s)) = Some n" and fits: "i + (16 + 4 * unat n) \<le> s_len s"
  shows "step_refines s (True, accept_block (s\<lparr>s_head := s_head s + i, s_len := s_len s - i\<rparr>) n)"
proof -
  let ?s = "s\<lparr>s_head := s_head s + i, s_len := s_len s - i\<rparr>"
  have len: "i + 16 \<le> s_len s" using fits by simp
  note fr = scan_found_refines [OF ok st fd len]
  have ok': "stream_ok ?s" using ok len by (intro ok_advance) auto
  have "c_pend (abs_stream ?s) = pending ?s" unfolding fr(3) fr(1) pending_advance ..
  with fits abs_accept [OF ok', of n]
  have "abs_stream (accept_block ?s n) = carve_accept (abs_stream s) (unat n)" by (simp add: fr(3))
  moreover have "stream_ok (accept_block ?s n)" using accept_block_pending(1) [OF ok', of n] fits by simp
  moreover have "length (c_pend (abs_stream s)) = s_len s - i" using ok by (simp add: fr(1))
  ultimately show ?thesis using hv fits carve.simps [of "abs_stream s"] by (simp add: step_refines_def)
qed

lemma scan_step_refines:
  assumes ok: "stream_ok s" and len: "16 \<le> s_len s" and st: "s_state s = STREAM_SCAN"
  shows "step_refines s (scan_step s)"
proof (cases "find_magic s")
  case None
  have sk: "skip_garbage (pending s) = drop (s_len s - 3) (pending s)"
    using ok len None by (rule find_magic_None)
  have "length (c_pend (abs_stream s)) = 3" using sk st ok len by (simp add: pend_abs)
  then have "step_refines s (False, hold_at s (s_len s - 3))"
    using ok st sk carve.simps [of "abs_stream s"]
    by (intro hold_refines) (simp_all add: UHSIF_BLK_MAX_SIZE_def)
  moreover have "3 + 16 \<le> s_cap s" using ok by (simp add: stream_ok_def STREAM_BUF_SIZE_def)
  ultimately show ?thesis
    using None len by (simp add: scan_step_def SCAN_KEEP_TAIL_def UHSIF_ACK_SIZE_def min_def)
next
  case (Some i)
  note sk = find_magic_Some [OF ok Some]
  have p: "c_pend (abs_stream s) = drop i (pending s)" using st sk(2) by (simp add: pend_abs)
  have lp: "length (c_pend (abs_stream s)) = s_len s - i" using ok by (simp add: p)
  have hold: "step_refines s (False, hold_at s i)"
    if "s_len s - i < UHSIF_BLK_MAX_SIZE" "carve (abs_stream s) = abs_stream s"
    using that ok st sk by (intro hold_refines) simp_all
  show ?thesis
  proof (cases "s_len s - i < 16")
    case True
    then have "step_refines s (False, hold_at s i)"
      using lp carve.simps [of "abs_stream s"] by (intro hold) (simp_all add: UHSIF_BLK_MAX_SIZE_def)
    with True Some show ?thesis by (simp add: scan_step_def UHSIF_ACK_SIZE_def)
  next
    case False
    then have len': "i + 16 \<le> s_len s" by simp
    note fr = scan_found_refines [OF ok st Some len']
    show ?thesis
    proof (cases "header_valid (c_pend (abs_stream s))")
      case None
      with scan_reject_refines [OF ok st len' p] False Some fr(2) show ?thesis
        by (simp add: scan_step_def UHSIF_ACK_SIZE_def)
    next
      case hv: (Some n)
      have b: "unat n \<le> 4092" using hv by (rule header_valid_bound)
      show ?thesis
      proof (cases "s_len s - i < 16 + 4 * unat n")
        case True
        with hv lp b False have "step_refines s (False, hold_at s i)"
          using carve.simps [of "abs_stream s"] by (intro hold) (simp_all add: UHSIF_BLK_MAX_SIZE_def)
        with True Some False hv fr(2) show ?thesis by (simp add: scan_step_def UHSIF_ACK_SIZE_def)
      next
        case f: False
        with scan_accept_refines [OF ok st Some hv] Some False hv fr(2) show ?thesis
          by (simp add: scan_step_def UHSIF_ACK_SIZE_def)
      qed
    qed
  qed
qed

lemma process_step_refines: "stream_ok s \<Longrightarrow> 16 \<le> s_len s \<Longrightarrow> step_refines s (process_step s)"
  by (cases "s_state s") (simp_all add: process_step_def block_step_refines scan_step_refines)

lemma process_available_refines:
  "stream_ok s \<Longrightarrow> stream_wf (process_available s) \<and> abs_stream (process_available s) = carve (abs_stream s)"
proof (induction s rule: process_available.induct)
  case (1 s)
  show ?case
  proof (cases "16 \<le> s_len s")
    case True
    obtain go s' where st: "process_step s = (go, s')" by force
    note r = process_step_refines [OF "1.prems" True, unfolded st step_refines_def, simplified]
    show ?thesis
    proof (cases go)
      case t: True
      with "1.IH" [OF _ st [symmetric]] True r have "stream_wf (process_available s') \<and>
          abs_stream (process_available s') = carve (abs_stream s')"
        by (simp add: UHSIF_ACK_SIZE_def)
      with r st t True show ?thesis
        by (simp add: process_available.simps [of s] UHSIF_ACK_SIZE_def)
    next
      case False
      with r st True show ?thesis
        by (simp add: process_available.simps [of s] UHSIF_ACK_SIZE_def stream_wf_def)
    qed
  next
    case False
    have "length (c_pend (abs_stream s)) \<le> s_len s"
      using "1.prems" length_skip_garbage [of "pending s"] by (simp add: pend_abs)
    with False "1.prems" show ?thesis
      by (simp add: process_available.simps [of s] carve.simps [of "abs_stream s"] UHSIF_ACK_SIZE_def
          stream_wf_def UHSIF_BLK_MAX_SIZE_def)
  qed
qed

section \<open>Chunk independence of the carver\<close>

definition carve_push :: "'u carver \<Rightarrow> bytes \<Rightarrow> 'u carver" where
  "carve_push c d = set_pend (c_pend c @ d) c"

lemma carve_push_nil: "carve_norm c \<Longrightarrow> carve_push c [] = c"
  by (simp add: carve_push_def set_pend_def carve_norm_def)

lemma carve_push_push: "carve_push (carve_push c a) b = carve_push c (a @ b)"
  using skip_garbage_append [of "c_pend c @ a" b]
  by (simp add: carve_push_def set_pend_def)

lemma carve_push_pend: "carve_norm c \<Longrightarrow> 4 \<le> length (c_pend c) \<Longrightarrow> c_pend (carve_push c d) = c_pend c @ d"
  using is_magic_append [of "c_pend c" d]
  by (auto simp: carve_push_def set_pend_def carve_norm_def intro!: skip_garbage_magic dest: skip_garbage_norm)

lemma norm_lose: "carve_norm (carve_lose c)"
  by (simp add: carve_norm_def carve_lose_def set_pend_def)

lemma norm_set_pend: "carve_norm (set_pend p c)"
  by (simp add: carve_norm_def set_pend_def)

lemma norm_accept: "carve_norm (carve_accept c n)"
  by (simp add: carve_norm_def carve_accept_def Let_def)

lemma push_lose: "carve_norm c \<Longrightarrow> 4 \<le> length (c_pend c) \<Longrightarrow>
    carve_lose (carve_push c d) = carve_push (carve_lose c) d"
  using carve_push_pend [of c d] skip_garbage_append [of "c_pend c" d]
  by (simp add: carve_lose_def set_pend_def carve_push_def)

lemma push_skip:
  assumes "c_state c = STREAM_SCAN" and "carve_norm c" and "4 \<le> length (c_pend c)"
  shows "set_pend (tl (c_pend (carve_push c d))) (carve_push c d) = carve_push (set_pend (tl (c_pend c)) c) d"
  using carve_push_pend [OF assms(2,3), of d] skip_garbage_append [of "tl (c_pend c)" d] assms
  by (cases "c_pend c") (simp_all add: set_pend_def carve_push_def)

lemma push_accept:
  assumes "carve_norm c" and "16 + 4 * n \<le> length (c_pend c)"
  shows "carve_accept (carve_push c d) n = carve_push (carve_accept c n) d"
  using carve_push_pend [OF assms(1), of d] assms(2)
  by (simp add: carve_accept_def carve_push_def set_pend_def Let_def blk_seq_append min_def)

lemma carve_push_carve: "carve_norm c \<Longrightarrow> carve_norm (carve c) \<and> carve (carve_push (carve c) d) = carve (carve_push c d)"
proof (induction c rule: carve.induct)
  case (1 c)
  show ?case
  proof (cases "length (c_pend c) < 16")
    case True
    with "1.prems" show ?thesis by (simp add: carve.simps [of c])
  next
    case False
    then have pp: "c_pend (carve_push c d) = c_pend c @ d" using "1.prems" by (simp add: carve_push_pend)
    have st: "c_state (carve_push c d) = c_state c" by (simp add: carve_push_def set_pend_def)
    note unf = carve.simps [of "carve_push c d"] carve.simps [of c]
    show ?thesis
    proof (cases "header_valid (c_pend c)")
      case None
      let ?c = "if c_state c = STREAM_BLOCK then carve_lose c else set_pend (tl (c_pend c)) c"
      have "carve_norm ?c" by (simp add: norm_lose norm_set_pend)
      with "1.IH"(1) None False have "carve_norm (carve ?c) \<and> carve (carve_push (carve ?c) d) = carve (carve_push ?c d)"
        by simp
      moreover have "carve (carve_push c d) = carve (carve_push ?c d)"
        using None False pp st "1.prems" unf(1) push_lose [of c d] push_skip [of c d]
        by (cases "c_state c") (simp_all add: header_valid_append)
      ultimately show ?thesis using None False unf(2) by simp
    next
      case (Some n)
      show ?thesis
      proof (cases "length (c_pend c) < 16 + 4 * unat n")
        case True
        with Some False "1.prems" show ?thesis by (simp add: carve.simps [of c])
      next
        case fits: False
        with "1.IH"(2) Some False norm_accept [of c "unat n"]
        have "carve_norm (carve (carve_accept c (unat n))) \<and>
            carve (carve_push (carve (carve_accept c (unat n))) d) = carve (carve_push (carve_accept c (unat n)) d)"
          by simp
        with Some False fits pp "1.prems" unf push_accept [of c "unat n" d] show ?thesis
          by (simp add: header_valid_append)
      qed
    qed
  qed
qed

lemma carve_idem: "carve_norm c \<Longrightarrow> carve (carve c) = carve c"
  using carve_push_carve [of c "[]"] carve_push_nil [of "carve c"] carve_push_nil [of c] by simp

lemma carve_feed_append: "carve_norm c \<Longrightarrow> carve_feed (carve_feed c a) b = carve_feed c (a @ b)"
  using carve_push_carve [of "carve_push c a" b] carve_push_push [of c a b] norm_set_pend [of _ c]
  by (simp add: carve_feed_def flip: carve_push_def) (simp add: carve_push_def norm_set_pend)

lemma norm_feed: "carve_norm c \<Longrightarrow> carve_norm (carve_feed c d)"
  using carve_push_carve [of "set_pend (c_pend c @ d) c"] by (simp add: carve_feed_def norm_set_pend)

section \<open>Refinement of the feed loop\<close>

lemma abs_compact [simp]: "stream_ok s \<Longrightarrow> abs_stream (compact s) = abs_stream s"
  by (rule abs_cong) (simp_all, simp_all add: compact_def)

lemma abs_append:
  assumes "stream_ok s" and "s_head s + s_len s + length d \<le> s_cap s"
  shows "abs_stream (append_bytes s d) = carve_push (abs_stream s) d"
  using pending_append [OF assms] skip_garbage_append [of "pending s" d]
  by (simp add: abs_stream_def carve_push_def set_pend_def append_bytes_def)

lemma compact_fields [simp]:
  "s_len (compact s) = s_len s" "s_cap (compact s) = s_cap s" "s_head (compact s) = 0"
  by (simp_all add: compact_def)

lemma wf_compact: "stream_wf s \<Longrightarrow> stream_wf (compact s)"
  by (simp add: stream_wf_def ok_compact)

lemma feed_tail_refines:
  assumes "stream_ok s" and "s_head s + s_len s + length d \<le> s_cap s"
  shows "stream_wf (process_available (append_bytes s d))"
    and "abs_stream (process_available (append_bytes s d)) = carve_feed (abs_stream s) d"
  using process_available_refines [OF ok_append [OF assms]] abs_append [OF assms]
  by (simp_all add: carve_feed_def carve_push_def)

lemma lazy_compact_ok:
  assumes "stream_ok s"
  shows "stream_ok (lazy_compact s n)" and "abs_stream (lazy_compact s n) = abs_stream s"
    and "s_len (lazy_compact s n) = s_len s" and "s_cap (lazy_compact s n) = s_cap s"
  using assms by (simp_all add: lazy_compact_def ok_compact)

lemma fits_room:
  assumes "stream_ok s" and "s_len s + n \<le> s_cap s - s_head s"
  shows "s_head s + s_len s + n \<le> s_cap s"
  using assms unfolding stream_ok_def by linarith

definition feed_part :: "'u stream \<Rightarrow> bytes \<Rightarrow> nat" where
  "feed_part s d = min (length d) (s_cap s - s_len s)"

lemma stream_feed_nil: "stream_feed s [] = Some (process_available s)"
  by (simp add: stream_feed.simps)

lemma stream_feed_fits:
  "d \<noteq> [] \<Longrightarrow> s_len s + length d \<le> s_cap (lazy_compact s (length d)) - s_head (lazy_compact s (length d)) \<Longrightarrow>
    s_len (lazy_compact s (length d)) = s_len s \<Longrightarrow>
    stream_feed s d = Some (process_available (append_bytes (lazy_compact s (length d)) d))"
  by (simp add: stream_feed.simps [of s d] Let_def)

lemma stream_feed_full:
  assumes "d \<noteq> []" and "\<not> s_len s + length d \<le> s_cap (lazy_compact s (length d)) - s_head (lazy_compact s (length d))"
    and "s_len (lazy_compact s (length d)) = s_len s" and "s_cap (lazy_compact s (length d)) = s_cap s"
  defines "s2 \<equiv> append_bytes (compact (lazy_compact s (length d))) (take (feed_part s d) d)"
  shows "stream_feed s d =
    (if drop (feed_part s d) d = [] then Some (process_available s2)
     else stream_feed (compact (process_available s2)) (drop (feed_part s d) d))"
  unfolding s2_def feed_part_def using assms(1-4) by (simp add: stream_feed.simps [of s d] Let_def)

text \<open>The part copied in the full case is processed and, unless it was everything, compacted.\<close>

lemma feed_part_refines:
  assumes "stream_wf s" and "d \<noteq> []"
  defines "s2 \<equiv> append_bytes (compact (lazy_compact s (length d))) (take (feed_part s d) d)"
  shows "stream_wf (process_available s2)"
    and "abs_stream (process_available s2) = carve_feed (abs_stream s) (take (feed_part s d) d)"
    and "0 < feed_part s d"
proof -
  let ?s1 = "compact (lazy_compact s (length d))"
  have ok: "stream_ok s" using assms(1) by (simp add: stream_wf_def)
  have ok1: "stream_ok ?s1" using lazy_compact_ok(1) [OF ok] by (rule ok_compact)
  have room: "s_head ?s1 + s_len ?s1 + length (take (feed_part s d) d) \<le> s_cap ?s1"
  proof -
    have "length (take (feed_part s d) d) = feed_part s d" by (simp add: feed_part_def)
    moreover have "s_len s + feed_part s d \<le> s_cap s"
      using ok unfolding stream_ok_def feed_part_def by linarith
    ultimately show ?thesis using lazy_compact_ok(3,4) [OF ok] by simp
  qed
  note r = feed_tail_refines [OF ok1 room]
  show "stream_wf (process_available s2)" unfolding s2_def by (rule r(1))
  show "abs_stream (process_available s2) = carve_feed (abs_stream s) (take (feed_part s d) d)"
    unfolding s2_def r(2) using lazy_compact_ok [OF ok] by simp
  show "0 < feed_part s d" using assms(1,2)
    by (simp add: stream_wf_def stream_ok_def STREAM_BUF_SIZE_def UHSIF_BLK_MAX_SIZE_def feed_part_def)
qed

lemma stream_feed_refines:
  "stream_wf s \<Longrightarrow> \<exists>s'. stream_feed s d = Some s' \<and> stream_wf s' \<and> abs_stream s' = carve_feed (abs_stream s) d"
proof (induction d arbitrary: s rule: length_induct)
  case (1 d)
  have ok: "stream_ok s" using "1.prems" by (simp add: stream_wf_def)
  note lc = lazy_compact_ok [OF ok, of "length d"]
  let ?s0 = "lazy_compact s (length d)"
  consider "d = []" | "d \<noteq> []" "s_len s + length d \<le> s_cap ?s0 - s_head ?s0"
    | "d \<noteq> []" "\<not> s_len s + length d \<le> s_cap ?s0 - s_head ?s0" by blast
  then show ?case
  proof cases
    case 1
    have "carve_feed (abs_stream s) [] = carve (abs_stream s)"
      using carve_push_nil [OF abs_norm, of s] by (simp add: carve_feed_def carve_push_def)
    with 1 show ?thesis using process_available_refines [OF ok] by (simp add: stream_feed_nil)
  next
    case 2
    have "s_head ?s0 + s_len ?s0 + length d \<le> s_cap ?s0"
      using 2(2) lc by (intro fits_room) simp_all
    from feed_tail_refines [OF lc(1) this] show ?thesis
      unfolding stream_feed_fits [OF 2 lc(3)] lc(2) by blast
  next
    case 3
    note r = feed_part_refines [OF "1.prems" 3(1)] and unf = stream_feed_full [OF 3 lc(3,4)]
    let ?p = "feed_part s d" and ?s3 = "process_available (append_bytes (compact ?s0) (take (feed_part s d) d))"
    show ?thesis
    proof (cases "drop ?p d = []")
      case True
      then have "take ?p d = d" by simp
      with True r unf show ?thesis by auto
    next
      case False
      have "length (drop ?p d) < length d" using r(3) 3(1) by simp
      with "1.IH" wf_compact [OF r(1)] obtain s' where s': "stream_feed (compact ?s3) (drop ?p d) = Some s'"
        "stream_wf s'" "abs_stream s' = carve_feed (abs_stream (compact ?s3)) (drop ?p d)" by blast
      have "abs_stream (compact ?s3) = carve_feed (abs_stream s) (take ?p d)"
        using r(1,2) by (simp add: stream_wf_def)
      then have "abs_stream s' = carve_feed (abs_stream s) d"
        unfolding s'(3) by (simp add: carve_feed_append)
      with unf False s'(1,2) show ?thesis by auto
    qed
  qed
qed

end
