(* ===== verification/Stream_Delivery.thy ===== *)
theory Stream_Delivery
  imports Block_Stream
begin

text \<open>
  What the stream layer promises its clients: totality and the buffer invariant of
  \<open>stream_feed\<close>, independence of the USB chunking (an interpretation of \<open>chunk_consumer\<close>), and
  delivery of every block of an encoded block sequence, after any amount of line noise in front.
\<close>

section \<open>Definitions\<close>

definition stream_inv :: "'u stream \<Rightarrow> bool" where
  "stream_inv s \<longleftrightarrow> stream_wf s \<and> carve (abs_stream s) = abs_stream s"

definition feed_opt :: "'u stream option \<Rightarrow> bytes \<Rightarrow> 'u stream option" where
  "feed_opt so d = Option.bind so (\<lambda>s. stream_feed s d)"

text \<open>Feeding a list of USB chunks, one \<open>stream_feed\<close> call per chunk.\<close>

definition feed_chunks :: "'u stream \<Rightarrow> bytes list \<Rightarrow> 'u stream option" where
  "feed_chunks s ds = foldl feed_opt (Some s) ds"

text \<open>A block as the peer sends it: sequence number, \<open>w1\<close>, \<open>w2\<close> and payload bytes.\<close>

type_synonym blk = "u8 \<times> u32 \<times> u32 \<times> bytes"

fun blk_ok :: "blk \<Rightarrow> bool" where
  "blk_ok (seq, w1, w2, p) \<longleftrightarrow> w1 AND 0xfffff000 = 0 \<and> 4 dvd length p \<and> length p \<le> 4 * 4092"

fun blk_encode :: "blk \<Rightarrow> bytes" where
  "blk_encode (seq, w1, w2, p) = blk_header w1 w2 seq (length p div 4) @ p"

text \<open>
  The block-level meaning of a block sequence: one \<open>rsync_cb\<close> per break of the sequence numbers,
  \<open>ack_cb\<close> per empty block, \<open>data_cb\<close> with exactly the payload otherwise.
\<close>

fun deliver :: "'u stream_callbacks \<Rightarrow> u8 option \<Rightarrow> 'u \<Rightarrow> blk list \<Rightarrow> 'u" where
  "deliver cb prev u [] = u"
| "deliver cb prev u ((seq, w1, w2, p) # bs) =
     (let u1 = (case prev of None \<Rightarrow> u | Some l \<Rightarrow> if seq = l + 1 then u else rsync_cb cb u)
      in deliver cb (Some seq) (if p = [] then ack_cb cb u1 else data_cb cb u1 p) bs)"

section \<open>Totality, invariant and chunk independence\<close>

lemma norm_carve_feed: "carve_norm c \<Longrightarrow> carve (carve_feed c d) = carve_feed c d"
  by (simp add: carve_feed_def carve_idem norm_set_pend)

lemma stream_feed_inv:
  assumes "stream_wf s"
  obtains s' where "stream_feed s d = Some s'" "stream_inv s'" "abs_stream s' = carve_feed (abs_stream s) d"
  using stream_feed_refines [OF assms, of d] by (auto simp: stream_inv_def norm_carve_feed)

lemma carve_feed_nil: "carve_norm c \<Longrightarrow> carve_feed c [] = carve c"
  using carve_push_nil [of c] by (simp add: carve_feed_def carve_push_def)

abbreviation settled :: "'u stream option \<Rightarrow> bool" where
  "settled so \<equiv> (\<exists>s. so = Some s \<and> stream_inv s)"

lemma feed_opt_settled:
  "stream_inv s \<Longrightarrow> settled (feed_opt (Some s) d) \<and>
     map_option abs_stream (feed_opt (Some s) d) = Some (carve_feed (abs_stream s) d)"
  by (rule stream_feed_inv [of s d]) (auto simp: stream_inv_def feed_opt_def)

interpretation stream_chunks: chunk_consumer settled feed_opt "map_option abs_stream"
proof
  fix so :: "'a stream option" and d a b :: bytes
  assume s: "settled so"
  then obtain s where so: "so = Some s" and inv: "stream_inv s" by blast
  show "settled (feed_opt so d)" using feed_opt_settled [OF inv] so by blast
  show "map_option abs_stream (feed_opt so []) = map_option abs_stream so"
    using feed_opt_settled [OF inv, of "[]"] inv so by (simp add: carve_feed_nil stream_inv_def)
  show "map_option abs_stream (feed_opt (feed_opt so a) b) = map_option abs_stream (feed_opt so (a @ b))"
  proof -
    obtain s1 where s1: "feed_opt so a = Some s1" "stream_inv s1"
      and a1: "abs_stream s1 = carve_feed (abs_stream s) a"
      using feed_opt_settled [OF inv, of a] so by auto
    have "map_option abs_stream (feed_opt (Some s1) b) = map_option abs_stream (feed_opt (Some s) (a @ b))"
      using feed_opt_settled [OF s1(2), of b] feed_opt_settled [OF inv, of "a @ b"]
      by (simp only: a1 carve_feed_append [OF abs_norm])
    then show ?thesis unfolding s1(1) by (simp only: so)
  qed
next
  fix so to :: "'a stream option" and d
  assume "settled so" "settled to" and eq: "map_option abs_stream so = map_option abs_stream to"
  then obtain s t where "so = Some s" "to = Some t" and i: "stream_inv s" "stream_inv t" by blast
  moreover have "abs_stream s = abs_stream t" using eq calculation by simp
  ultimately show "map_option abs_stream (feed_opt so d) = map_option abs_stream (feed_opt to d)"
    using feed_opt_settled [OF i(1), of d, THEN conjunct2] feed_opt_settled [OF i(2), of d, THEN conjunct2]
    by (simp only:)
qed

lemma stream_new_inv: "stream_inv (stream_new cb u)"
proof -
  have "pending (stream_new cb u) = []" by (simp add: pending_def stream_new_def)
  then have "c_pend (abs_stream (stream_new cb u)) = []" by (simp add: pend_abs)
  then show ?thesis
    by (simp add: stream_inv_def carve.simps stream_wf_def stream_ok_def)
      (simp add: stream_new_def UHSIF_BLK_MAX_SIZE_def)
qed

section \<open>Delivery of encoded blocks\<close>

lemma unat_of_nat_small: "n < 4096 \<Longrightarrow> unat (of_nat n :: u32) = n"
  by (simp add: unat_of_nat take_bit_eq_mod)

lemma blk_ok_words: "blk_ok (seq, w1, w2, p) \<Longrightarrow> length p div 4 < 4096"
proof -
  assume "blk_ok (seq, w1, w2, p)"
  then have "length p \<le> 16368" by simp
  then show ?thesis by arith
qed

lemma header_valid_encode:
  assumes "blk_ok (seq, w1, w2, p)"
  shows "header_valid (blk_header w1 w2 seq (length p div 4) @ r) = Some (of_nat (length p div 4))"
proof -
  have n: "length p div 4 < 4096" using assms by (rule blk_ok_words)
  have "of_nat (length p div 4) \<le> (4092 :: u32)"
    using assms n by (simp add: word_le_nat_alt unat_of_nat_small) arith
  moreover have "(of_nat (length p div 4) :: u32) = 0 \<or> (1 :: u32) \<le> of_nat (length p div 4)"
    by (auto simp: word_le_nat_alt Suc_le_eq unat_gt_0)
  ultimately show ?thesis
    using assms blk_header_words [of w1 w2 seq _ r] blk_header_ok [of w1 w2 seq _ r]
    by (simp add: header_valid_def Let_def blk_w3_fields [OF n] UHSIF_MIN_PAYLOAD_WORDS_def
        UHSIF_MAX_PAYLOAD_WORDS_def)
qed

lemma carve_accept_encoded:
  assumes ok: "blk_ok (seq, w1, w2, p)" and pend: "c_pend c = blk_encode (seq, w1, w2, p) @ r"
  shows "carve c = carve (carve_accept c (length p div 4))"
    and "c_pend (carve_accept c (length p div 4)) = r"
    and "deliver (c_cb c) (if c_have_seq c then Some (c_last_seq c) else None) (c_user c) [(seq, w1, w2, p)]
           = c_user (carve_accept c (length p div 4))"
    and "c_last_seq (carve_accept c (length p div 4)) = seq" "c_have_seq (carve_accept c (length p div 4))"
    and "c_cb (carve_accept c (length p div 4)) = c_cb c"
proof -
  have n: "length p div 4 < 4096" using ok by (rule blk_ok_words)
  have len: "4 * (length p div 4) = length p" using ok by auto
  have seq: "uhsif_blk_seq (c_pend c) = seq" using blk_header_accessors(2) [OF n] by (simp add: pend)
  have z: "length p div 4 = 0 \<longleftrightarrow> p = []" using len by auto
  have hv: "header_valid (c_pend c) = Some (of_nat (length p div 4))"
    using header_valid_encode [OF ok, of "p @ r"] by (simp add: pend)
  show "carve c = carve (carve_accept c (length p div 4))"
    using hv n len by (subst carve.simps) (simp add: pend unat_of_nat_small)
  show "c_pend (carve_accept c (length p div 4)) = r"
    using len by (simp add: carve_accept_def Let_def pend)
  show "c_last_seq (carve_accept c (length p div 4)) = seq" "c_have_seq (carve_accept c (length p div 4))"
    "c_cb (carve_accept c (length p div 4)) = c_cb c"
    by (simp_all add: carve_accept_def Let_def seq)
  show "deliver (c_cb c) (if c_have_seq c then Some (c_last_seq c) else None) (c_user c) [(seq, w1, w2, p)]
           = c_user (carve_accept c (length p div 4))"
    unfolding carve_accept_def Let_def seq z using len by (simp add: pend Let_def)
qed

lemma deliver_Cons:
  "deliver cb l u (b # bs) = deliver cb (Some (fst b)) (deliver cb l u [b]) bs"
  by (cases b) (simp add: Let_def)

lemma carve_blocks:
  "c_pend c = concat (map blk_encode bs) \<Longrightarrow> \<forall>b \<in> set bs. blk_ok b \<Longrightarrow>
     c_user (carve c) = deliver (c_cb c) (if c_have_seq c then Some (c_last_seq c) else None) (c_user c) bs
     \<and> c_pend (carve c) = []"
proof (induction bs arbitrary: c)
  case Nil
  then show ?case by (simp add: carve.simps [of c])
next
  case (Cons b bs)
  obtain seq w1 w2 p where b: "b = (seq, w1, w2, p)" by (cases b)
  have "blk_ok (seq, w1, w2, p)" and "c_pend c = blk_encode (seq, w1, w2, p) @ concat (map blk_encode bs)"
    using Cons.prems by (simp_all add: b)
  note acc = carve_accept_encoded [OF this]
  let ?c = "carve_accept c (length p div 4)"
  have "c_user (carve ?c) = deliver (c_cb c) (Some seq) (c_user ?c) bs \<and> c_pend (carve ?c) = []"
    using Cons.IH [of ?c] acc(2,4-) Cons.prems(2) by simp
  moreover have "deliver (c_cb c) (if c_have_seq c then Some (c_last_seq c) else None) (c_user c) (b # bs)
      = deliver (c_cb c) (Some seq) (c_user ?c) bs"
    by (subst deliver_Cons) (simp only: b acc(3) fst_conv)
  ultimately show ?case by (simp only: acc(1) [symmetric])
qed

lemma skip_noise:
  "\<forall>i < length g. \<not> is_magic (drop i (g @ r)) \<Longrightarrow> 3 \<le> length r \<Longrightarrow> skip_garbage (g @ r) = skip_garbage r"
proof (induction g)
  case (Cons x g)
  have "\<forall>i < length g. \<not> is_magic (drop i (g @ r))" using Cons.prems(1) by (auto dest: spec [of _ "Suc _"])
  moreover have "\<not> is_magic (x # g @ r)" using Cons.prems(1) by auto
  ultimately show ?case using Cons by simp
qed simp

lemma skip_garbage_empty: "skip_garbage p = [] \<longleftrightarrow> p = []"
  by (induction p) auto

lemma pending_empty: "c_pend (abs_stream s) = [] \<longleftrightarrow> pending s = []"
  by (cases "s_state s") (simp_all add: pend_abs skip_garbage_empty)

lemma is_magic_low: "is_magic (x # p) \<Longrightarrow> x = 0xC6"
proof -
  assume "is_magic (x # p)"
  then have "ucast (ucast (uhsif_le32 (x # p)) :: u16) = (ucast UHSIF_BLK_MAGIC16 :: u8)" by (simp add: is_magic_def)
  moreover have "ucast (ucast (uhsif_le32 (x # p)) :: u16) = x"
    by (rule word_bit_eqI) (simp add: of_le32_def bit_simps)
  ultimately show ?thesis by (simp add: UHSIF_BLK_MAGIC16_def)
qed

lemma feed_chunks_feed:
  assumes "stream_inv s"
  obtains s' where "feed_chunks s ds = Some s'" "stream_inv s'"
    "abs_stream s' = carve_feed (abs_stream s) (concat ds)"
proof -
  have st: "settled (Some s)" using assms by simp
  from stream_chunks.inv_chunks [OF st, of ds] obtain s' where s': "feed_chunks s ds = Some s'" "stream_inv s'"
    by (auto simp: feed_chunks_def)
  have "map_option abs_stream (feed_chunks s ds) = Some (carve_feed (abs_stream s) (concat ds))"
    using stream_chunks.chunks_concat [OF st, of ds] feed_opt_settled [OF assms, of "concat ds"]
    by (simp add: feed_chunks_def)
  with s' that show thesis by simp
qed

lemma carve_noise_blocks:
  assumes pend: "c_pend c = []" and ok: "\<forall>b \<in> set bs. blk_ok b" and ne: "bs \<noteq> []"
    and noise: "\<forall>i < length g. \<not> is_magic (drop i (g @ concat (map blk_encode bs)))"
    and lost: "lost = (c_state c = STREAM_BLOCK \<and> g \<noteq> [])"
  shows "c_user (carve_feed c (g @ concat (map blk_encode bs))) =
      deliver (c_cb c) (if c_have_seq c \<and> \<not> lost then Some (c_last_seq c) else None)
        (if lost then rsync_cb (c_cb c) (c_user c) else c_user c) bs"
    and "c_pend (carve_feed c (g @ concat (map blk_encode bs))) = []"
proof -
  let ?e = "concat (map blk_encode bs)"
  obtain b bs' where bs: "bs = b # bs'" using ne by (cases bs) auto
  obtain seq w1 w2 p where b: "b = (seq, w1, w2, p)" by (cases b)
  have long: "16 \<le> length ?e" by (simp add: bs b)
  have "is_magic ?e" by (simp add: bs b is_magic_def blk_header_magic)
  with skip_noise [OF noise] long have sk: "skip_garbage (g @ ?e) = ?e" by (simp add: skip_garbage_magic)
  let ?d = "(set_pend (g @ ?e) c)"
  have "carve_feed c (g @ ?e) = carve (if lost then carve_lose ?d else ?d)"
  proof (cases lost)
    case True
    then have "\<not> is_magic (g @ ?e)" using noise lost by (auto dest: spec [of _ 0])
    then have "header_valid (g @ ?e) = None" using header_valid_magic by fastforce
    moreover have "c_pend ?d = g @ ?e" "c_state ?d = STREAM_BLOCK"
      using True lost by (simp_all add: set_pend_def)
    ultimately show ?thesis
      using True long unfolding carve_feed_def pend by (subst carve.simps) simp
  qed (simp add: carve_feed_def pend)
  moreover have "c_pend (if lost then carve_lose ?d else ?d) = ?e"
    using lost sk by (cases "c_state c") (auto simp: carve_lose_def set_pend_def)
  ultimately show "c_user (carve_feed c (g @ ?e)) =
      deliver (c_cb c) (if c_have_seq c \<and> \<not> lost then Some (c_last_seq c) else None)
        (if lost then rsync_cb (c_cb c) (c_user c) else c_user c) bs"
    and "c_pend (carve_feed c (g @ ?e)) = []"
    using carve_blocks [OF _ ok, of "if lost then carve_lose ?d else ?d"]
    by (cases lost; simp add: carve_lose_def set_pend_def)+
qed

section \<open>Properties\<close>

text \<open>
  C2. Termination and memory safety of \<open>stream_feed\<close>: from every state between two calls
  and for every chunk of bytes, the loop returns, the staging buffer keeps its size, every retained
  byte lies inside it, and less than one maximal block (16384 bytes) is retained.
\<close>

theorem stream_feed_total:
  assumes "stream_inv s"
  shows "\<exists>s'. stream_feed s d = Some s' \<and> stream_inv s' \<and> length (s_buf s') = STREAM_BUF_SIZE
    \<and> s_head s' + s_len s' \<le> STREAM_BUF_SIZE \<and> s_len s' < UHSIF_BLK_MAX_SIZE"
proof -
  have wf: "stream_wf s" using assms by (simp add: stream_inv_def)
  obtain s' where "stream_feed s d = Some s'" and i: "stream_inv s'"
    using wf by (rule stream_feed_inv)
  moreover from i have "length (s_buf s') = STREAM_BUF_SIZE" "s_head s' + s_len s' \<le> STREAM_BUF_SIZE"
    "s_len s' < UHSIF_BLK_MAX_SIZE"
    by (simp_all add: stream_inv_def stream_wf_def stream_ok_def)
  ultimately show ?thesis by blast
qed

theorem stream_feed_total_witness:
  "\<exists>s'. stream_feed (stream_new \<lparr>data_cb = (\<lambda>u d. u @ [d]), ack_cb = id, rsync_cb = id\<rparr> []) [1, 2, 3] = Some s'
    \<and> stream_inv s' \<and> length (s_buf s') = STREAM_BUF_SIZE
    \<and> s_head s' + s_len s' \<le> STREAM_BUF_SIZE \<and> s_len s' < UHSIF_BLK_MAX_SIZE"
  by (rule stream_feed_total) (rule stream_new_inv)

text \<open>
  C3. The staging-buffer implementation refines the abstract carver: feeding chunks through
  \<open>stream_feed\<close> gives the state, callbacks included, that the abstract machine reaches on the
  concatenated bytes. So neither the USB transfer boundaries nor the buffer compactions can be
  observed.
\<close>

theorem stream_feed_chunking:
  assumes "stream_inv s" and "concat ds = concat es"
  shows "map_option abs_stream (feed_chunks s ds) = Some (carve_feed (abs_stream s) (concat ds))
    \<and> map_option abs_stream (feed_chunks s es) = map_option abs_stream (feed_chunks s ds)
    \<and> map_option s_user (feed_chunks s es) = map_option s_user (feed_chunks s ds)"
proof -
  obtain s1 where s1: "feed_chunks s ds = Some s1" "abs_stream s1 = carve_feed (abs_stream s) (concat ds)"
    using assms(1) by (rule feed_chunks_feed)
  obtain s2 where s2: "feed_chunks s es = Some s2" "abs_stream s2 = carve_feed (abs_stream s) (concat es)"
    using assms(1) by (rule feed_chunks_feed)
  have "s_user s1 = s_user s2" using s1(2) s2(2) assms(2) by (metis abs_fields(3))
  with s1 s2 assms(2) show ?thesis by simp
qed

theorem stream_feed_chunking_witness:
  "map_option s_user (feed_chunks (stream_new \<lparr>data_cb = (\<lambda>u d. u @ [d]), ack_cb = id, rsync_cb = id\<rparr> []) [[1], [2, 3]])
   = map_option s_user (feed_chunks (stream_new \<lparr>data_cb = (\<lambda>u d. u @ [d]), ack_cb = id, rsync_cb = id\<rparr> []) [[1, 2], [3]])"
  using stream_feed_chunking [OF stream_new_inv
      [of "\<lparr>data_cb = (\<lambda>u d. u @ [d]), ack_cb = id, rsync_cb = id\<rparr>" "[]"], of "[[1, 2], [3]]" "[[1], [2, 3]]"] by simp

text \<open>
  C1. Block delivery: a stream that holds no pending bytes and receives line noise \<open>g\<close> that
  contains no candidate magic, followed by a sequence of encoded blocks, cut into USB chunks in any
  way, hands every block to its callback, in order and with exactly the payload sent; \<open>rsync_cb\<close> is
  called once for noise at an aligned position and once per break of the sequence numbers, and
  nothing stays pending.
\<close>

theorem stream_delivers_blocks:
  assumes "stream_inv s" and "pending s = []" and "\<forall>b \<in> set bs. blk_ok b" and "bs \<noteq> []"
    and "\<forall>i < length g. \<not> is_magic (drop i (g @ concat (map blk_encode bs)))"
    and "concat ds = g @ concat (map blk_encode bs)"
    and "lost = (s_state s = STREAM_BLOCK \<and> g \<noteq> [])"
  shows "\<exists>s'. feed_chunks s ds = Some s' \<and> pending s' = [] \<and>
    s_user s' = deliver (s_cb s) (if s_have_seq s \<and> \<not> lost then Some (s_last_seq s) else None)
      (if lost then rsync_cb (s_cb s) (s_user s) else s_user s) bs"
proof -
  obtain s' where s': "feed_chunks s ds = Some s'" "abs_stream s' = carve_feed (abs_stream s) (concat ds)"
    "stream_inv s'"
    using assms(1) by (rule feed_chunks_feed)
  have p: "c_pend (abs_stream s) = []" using assms(2) by (simp add: pend_abs)
  have hs: "c_have_seq (abs_stream s) = s_have_seq s" "c_last_seq (abs_stream s) = s_last_seq s"
    by (simp_all add: abs_stream_def set_pend_def)
  have lost: "lost = (c_state (abs_stream s) = STREAM_BLOCK \<and> g \<noteq> [])" by (simp add: assms(7))
  note r = carve_noise_blocks [OF p assms(3-5) lost]
  have "pending s' = []" using r(2) by (simp add: s'(2) assms(6) flip: pending_empty)
  moreover have "s_user s' = c_user (carve_feed (abs_stream s) (g @ concat (map blk_encode bs)))"
    using s'(2) assms(6) by (metis abs_fields(3))
  ultimately show ?thesis using s'(1) r(1) by (simp add: hs)
qed

theorem stream_delivers_blocks_witness:
  "\<exists>s'. feed_chunks (stream_new \<lparr>data_cb = (\<lambda>u d. u @ [d]), ack_cb = id, rsync_cb = (\<lambda>u. u @ [[]])\<rparr> [])
      [[1, 0x49, 2] @ blk_encode (5, 0, 0, [1, 2, 3, 4]), blk_encode (6, 0, 0, []) @ blk_encode (9, 0, 0, [7, 7, 7, 7])]
    = Some s' \<and> pending s' = [] \<and> s_user s' = [[1, 2, 3, 4], [], [7, 7, 7, 7]]"
proof -
  let ?cb = "\<lparr>data_cb = (\<lambda>u d. u @ [d]), ack_cb = id, rsync_cb = (\<lambda>u. u @ [[]])\<rparr> :: bytes list stream_callbacks"
  let ?bs = "[(5, 0, 0, [1, 2, 3, 4]), (6, 0, 0, []), (9, 0, 0, [7, 7, 7, 7])] :: blk list"
  let ?s = "stream_new ?cb []"
  have noise: "\<forall>i < length [1, 0x49, 2 :: u8]. \<not> is_magic (drop i ([1, 0x49, 2] @ concat (map blk_encode ?bs)))"
    by (auto simp: less_Suc_eq dest: is_magic_low)
  have new: "pending ?s = []" "s_cb ?s = ?cb" "s_have_seq ?s = False" "s_state ?s = STREAM_SCAN" "s_user ?s = []"
    by (simp_all add: pending_def stream_new_def)
  have ok: "\<forall>b \<in> set ?bs. blk_ok b" by simp presburger
  have ds: "concat [[1, 0x49, 2] @ blk_encode (5, 0, 0, [1, 2, 3, 4]), blk_encode (6, 0, 0, []) @
      blk_encode (9, 0, 0, [7, 7, 7, 7])] = [1, 0x49, 2 :: u8] @ concat (map blk_encode ?bs)"
    by (simp only: concat.simps list.map append_assoc append_Nil2)
  have lost: "False = (s_state ?s = STREAM_BLOCK \<and> [1, 0x49, 2 :: u8] \<noteq> [])" by (simp add: new(4))
  have "deliver ?cb None [] ?bs = [[1, 2, 3, 4], [], [7, 7, 7, 7]]" by simp
  with stream_delivers_blocks [OF stream_new_inv new(1) ok _ noise ds lost] show ?thesis
    by (simp only: new if_False not_False_eq_True HOL.simp_thms list.distinct)
qed

end
