(* ===== verification/Pcapng_Format.thy ===== *)
theory Pcapng_Format
  imports Prelude
begin

text \<open>
  The block assembly half of \<open>src/pcapng.c\<close>: the pcapng section header, interface
  description and enhanced packet blocks, the pre-session staging of blocks and the order in which
  bytes are handed to the writer. What \<open>send_buffer\<close>, \<open>chunk_flush\<close> and \<open>pcapng_flush\<close> ask of the
  asynchronous writer is recorded, in order, in \<open>pg_sink\<close>; the writer itself is the theory
  \<open>Pcapng_Writer\<close>. The assembly buffer \<open>block[0..ptr)\<close> is the list \<open>pg_block\<close>, so that \<open>ptr\<close> is
  its length. A reader of pcapng files (\<open>pcap_blocks\<close>, \<open>epb_decode\<close>) gives the round trip.
\<close>

section \<open>Definitions\<close>

definition PCAPNG_BLOCK_BUF_SIZE :: nat where "PCAPNG_BLOCK_BUF_SIZE = 4096"
definition LINKTYPE_WIRESHARK_UPPER_PDU :: nat where "LINKTYPE_WIRESHARK_UPPER_PDU = 252"

text \<open>Requests to the writer: bytes of \<open>sink_write\<close>, a \<open>chunk_flush\<close>, the drain of \<open>pcapng_flush\<close>.\<close>

datatype sink_op = SinkWrite bytes | ChunkFlush | SinkFlush

record pcapng =
  pg_begun :: bool
  pg_block :: bytes
  pg_pend :: bytes
  pg_pend_cap :: nat
  pg_sink :: "sink_op list"

definition pcapng_open :: pcapng where
  "pcapng_open = \<lparr>pg_begun = False, pg_block = [], pg_pend = [], pg_pend_cap = 0, pg_sink = []\<rparr>"

function pad4 :: "bytes \<Rightarrow> bytes" where
  "pad4 b = (if length b mod 4 \<noteq> 0 then pad4 (b @ [0]) else b)"
  by pat_completeness auto
termination
proof (relation "measure (\<lambda>b. (4 - length b mod 4) mod 4)")
  fix b :: bytes
  assume nz: "length b mod 4 \<noteq> 0"
  obtain r where r: "r = length b mod 4" "r < 4" by simp
  with nz have "r = 1 \<or> r = 2 \<or> r = 3" by linarith
  then show "(b @ [0], b) \<in> measure (\<lambda>b. (4 - length b mod 4) mod 4)"
    using r(1) [symmetric] by (auto simp: mod_Suc)
qed simp

declare pad4.simps [simp del]

definition put_pad :: "pcapng \<Rightarrow> pcapng" where
  "put_pad p = p\<lparr>pg_block := pad4 (pg_block p)\<rparr>"

definition put_half :: "pcapng \<Rightarrow> u16 \<Rightarrow> pcapng" where
  "put_half p v = p\<lparr>pg_block := pg_block p @ le16 v\<rparr>"

definition put_word :: "pcapng \<Rightarrow> u32 \<Rightarrow> pcapng" where
  "put_word p v = p\<lparr>pg_block := pg_block p @ le32 v\<rparr>"

definition put_data :: "pcapng \<Rightarrow> bytes \<Rightarrow> pcapng" where
  "put_data p d = p\<lparr>pg_block := pg_block p @ d\<rparr>"

definition put_option :: "pcapng \<Rightarrow> u16 \<Rightarrow> string \<Rightarrow> pcapng" where
  "put_option p index str =
     put_pad (put_data (put_half (put_half p index) (of_nat (length str))) (ascii str))"

definition sink_op :: "pcapng \<Rightarrow> sink_op \<Rightarrow> pcapng" where
  "sink_op p r = p\<lparr>pg_sink := pg_sink p @ [r]\<rparr>"

definition stage_block :: "pcapng \<Rightarrow> pcapng" where
  "stage_block p =
     (let cap = (if length (pg_pend p) + length (pg_block p) > pg_pend_cap p
                 then (if pg_pend_cap p \<noteq> 0 then pg_pend_cap p * 2 else 65536) else pg_pend_cap p)
      in p\<lparr>pg_pend_cap := cap, pg_pend := pg_pend p @ pg_block p\<rparr>)"

definition send_buffer :: "pcapng \<Rightarrow> pcapng" where
  "send_buffer p =
     (let size = of_nat (length (pg_block p) + 4) :: u32;
          p1 = put_word p size;
          p2 = p1\<lparr>pg_block := mem_put 4 (le32 size) (pg_block p1)\<rparr>;
          p3 = (if pg_begun p2 then sink_op p2 (SinkWrite (pg_block p2)) else stage_block p2)
      in p3\<lparr>pg_block := []\<rparr>)"

definition write_block_type :: "pcapng \<Rightarrow> u32 \<Rightarrow> pcapng" where
  "write_block_type p ty = put_word (put_word p ty) 0"

definition write_file_header :: "pcapng \<Rightarrow> pcapng" where
  "write_file_header p =
     (let p = write_block_type p 0x0a0d0d0a;
          p = put_word p 0x1a2b3c4d;
          p = put_half p 1;
          p = put_half p 0;
          p = put_word p 0xffffffff;
          p = put_word p 0xffffffff;
          p = put_option p 2 ''USB Sniffer 2'';
          p = put_option p 0 ''''
      in send_buffer p)"

definition write_usb_header :: "pcapng \<Rightarrow> nat \<Rightarrow> pcapng" where
  "write_usb_header p link_type =
     (let p = write_block_type p 1;
          p = put_half p (of_nat link_type);
          p = put_half p 0;
          p = put_word p 0xffff;
          p = put_option p 2 ''usb'';
          p = put_option p 3 ''Hardware USB interface'';
          p = put_half p 9;
          p = put_half p 1;
          p = put_word p 9;
          p = put_option p 0 ''''
      in send_buffer p)"

definition write_info_header :: "pcapng \<Rightarrow> pcapng" where
  "write_info_header p =
     (let p = write_block_type p 1;
          p = put_half p (of_nat LINKTYPE_WIRESHARK_UPPER_PDU);
          p = put_half p 0;
          p = put_word p 0xffff;
          p = put_option p 2 ''info'';
          p = put_option p 3 ''Out of band information'';
          p = put_half p 9;
          p = put_half p 1;
          p = put_word p 9;
          p = put_option p 0 ''''
      in send_buffer p)"

text \<open>\<open>os_assert(!p->begun)\<close> ends the program: \<open>None\<close>.\<close>

definition pcapng_begin :: "pcapng \<Rightarrow> nat \<Rightarrow> pcapng option" where
  "pcapng_begin p usb_link_type =
     (if pg_begun p then None
      else let p = p\<lparr>pg_begun := True\<rparr>;
               p = write_file_header p;
               p = write_usb_header p usb_link_type;
               p = write_info_header p
           in Some (if pg_pend p \<noteq> [] then sink_op p (SinkWrite (pg_pend p)) else p))"

definition pcapng_write_epb :: "pcapng \<Rightarrow> u64 \<Rightarrow> bytes \<Rightarrow> pcapng" where
  "pcapng_write_epb p ts d =
     (let size = of_nat (length d);
          p = write_block_type p 6;
          p = put_word p 0;
          p = put_word p (ucast (drop_bit 32 ts));
          p = put_word p (ucast ts);
          p = put_word p size;
          p = put_word p size;
          p = put_data p d;
          p = put_pad p;
          p = put_option p 0 ''''
      in send_buffer p)"

definition info_hdr :: bytes where
  "info_hdr = [0, 12, 0, 6] @ ascii ''syslog'' @ [0, 0, 0, 0]"

definition pcapng_write_info :: "pcapng \<Rightarrow> u64 \<Rightarrow> string \<Rightarrow> pcapng" where
  "pcapng_write_info p ts str =
     (let size = of_nat (length info_hdr + length str);
          p = write_block_type p 6;
          p = put_word p 1;
          p = put_word p (ucast (drop_bit 32 ts));
          p = put_word p (ucast ts);
          p = put_word p size;
          p = put_word p size;
          p = put_data p info_hdr;
          p = put_data p (ascii str);
          p = put_pad p;
          p = send_buffer p
      in sink_op p ChunkFlush)"

definition pcapng_flush :: "pcapng \<Rightarrow> pcapng" where
  "pcapng_flush p = (if \<not> pg_begun p then p else sink_op p SinkFlush)"

text \<open>The calls the frame layer makes, and their execution.\<close>

datatype pcap_call = WriteEpb u64 bytes | WriteInfo u64 string | FlushCall

fun pcap_exec :: "pcapng \<Rightarrow> pcap_call \<Rightarrow> pcapng" where
  "pcap_exec p (WriteEpb ts d) = pcapng_write_epb p ts d"
| "pcap_exec p (WriteInfo ts s) = pcapng_write_info p ts s"
| "pcap_exec p FlushCall = pcapng_flush p"

text \<open>The bytes handed to \<open>sink_write\<close> so far.\<close>

fun op_bytes :: "sink_op \<Rightarrow> bytes" where
  "op_bytes (SinkWrite d) = d"
| "op_bytes ChunkFlush = []"
| "op_bytes SinkFlush = []"

definition sunk :: "pcapng \<Rightarrow> bytes" where
  "sunk p = concat (map op_bytes (pg_sink p))"

text \<open>A reader: split a file into blocks (type and body), checking both length words.\<close>

function pcap_blocks :: "bytes \<Rightarrow> (u32 \<times> bytes) list option" where
  "pcap_blocks f =
     (if f = [] then Some []
      else let n = unat (of_le32 (drop 4 f)) in
        if length f < 12 \<or> n < 12 \<or> n mod 4 \<noteq> 0 \<or> length f < n
           \<or> of_le32 (drop (n - 4) f) \<noteq> of_le32 (drop 4 f) then None
        else map_option (\<lambda>bs. (of_le32 f, take (n - 12) (drop 8 f)) # bs) (pcap_blocks (drop n f)))"
  by pat_completeness auto
termination by (relation "measure length") auto

declare pcap_blocks.simps [simp del]

text \<open>The enhanced packet block body: interface, timestamp, captured bytes.\<close>

definition epb_decode :: "u32 \<times> bytes \<Rightarrow> (u32 \<times> u64 \<times> bytes) option" where
  "epb_decode b =
     (if fst b \<noteq> 6 then None
      else let d = snd b; ts = push_bit 32 (ucast (of_le32 (drop 4 d))) OR ucast (of_le32 (drop 8 d))
           in Some (of_le32 d, ts, take (unat (of_le32 (drop 12 d))) (drop 20 d)))"

text \<open>One finished block: type and body framed by the two total-length words.\<close>

definition pcap_block :: "u32 \<Rightarrow> bytes \<Rightarrow> bytes" where
  "pcap_block ty body = le32 ty @ le32 (of_nat (length body + 12)) @ body @ le32 (of_nat (length body + 12))"

definition pad_len :: "nat \<Rightarrow> nat" where "pad_len n = (4 - n mod 4) mod 4"

definition epb_body :: "u32 \<Rightarrow> u64 \<Rightarrow> bytes \<Rightarrow> bytes" where
  "epb_body ifc ts d =
     le32 ifc @ le32 (ucast (drop_bit 32 ts)) @ le32 (ucast ts) @ le32 (of_nat (length d)) @
     le32 (of_nat (length d)) @ d @ replicate (pad_len (length d)) 0"

fun call_ok :: "pcap_call \<Rightarrow> bool" where
  "call_ok (WriteEpb ts d) \<longleftrightarrow> length d \<le> 1280"
| "call_ok (WriteInfo ts s) \<longleftrightarrow> length s \<le> 511"
| "call_ok FlushCall \<longleftrightarrow> True"

fun call_blocks :: "pcap_call \<Rightarrow> (u32 \<times> bytes) list" where
  "call_blocks (WriteEpb ts d) = [(6, epb_body 0 ts d @ [0, 0, 0, 0])]"
| "call_blocks (WriteInfo ts s) = [(6, epb_body 1 ts (info_hdr @ ascii s))]"
| "call_blocks FlushCall = []"

definition frame_blocks :: "(u32 \<times> bytes) list \<Rightarrow> bytes" where
  "frame_blocks bs = concat (map (\<lambda>(ty, body). pcap_block ty body) bs)"

section \<open>Block assembly\<close>

lemma pad_len_Suc:
  assumes "n mod 4 \<noteq> 0"
  shows "pad_len n = Suc (pad_len (Suc n))"
proof -
  obtain r where r: "n mod 4 = r" "r < 4" by simp
  with assms have "r = 1 \<or> r = 2 \<or> r = 3" by linarith
  with r(1) show ?thesis by (auto simp: pad_len_def mod_Suc)
qed

lemma pad4_closed: "pad4 b = b @ replicate (pad_len (length b)) 0"
proof (induction b rule: pad4.induct)
  case (1 b)
  show ?case
  proof (cases "length b mod 4 = 0")
    case True
    then show ?thesis by (simp add: pad4.simps [of b] pad_len_def)
  next
    case False
    with 1 show ?thesis by (simp add: pad4.simps [of b] pad_len_Suc)
  qed
qed

lemma length_pad4 [lens]: "length (pad4 b) mod 4 = 0"
  by (induction b rule: pad4.induct) (subst pad4.simps, simp)

lemma pad_len_less: "pad_len n < 4"
  by (simp add: pad_len_def)

lemma pad_len_add4: "pad_len (4 * k + n) = pad_len n"
  by (simp add: pad_len_def)

lemmas put_defs = put_pad_def put_half_def put_word_def put_data_def put_option_def write_block_type_def Let_def

text \<open>\<open>emit\<close> is the second half of \<open>send_buffer\<close>: hand a finished block to the writer or stage it.\<close>

definition emit :: "pcapng \<Rightarrow> bytes \<Rightarrow> pcapng" where
  "emit p blk = (let q = p\<lparr>pg_block := blk\<rparr>
     in (if pg_begun q then sink_op q (SinkWrite blk) else stage_block q)\<lparr>pg_block := []\<rparr>)"

lemma send_buffer_emit:
  assumes "pg_block p = le32 ty @ le32 x @ body"
  shows "send_buffer p = emit p (pcap_block ty body)"
  by (simp add: send_buffer_def emit_def put_word_def assms pcap_block_def mem_put_def Let_def add.commute)

lemma emit_block_irrelevant [simp]: "emit (p\<lparr>pg_block := b\<rparr>) blk = emit p blk"
  by (simp add: emit_def)

lemma emit_fields [simp]:
  "pg_begun (emit p blk) = pg_begun p" "pg_block (emit p blk) = []"
  by (simp_all add: emit_def sink_op_def stage_block_def Let_def)

lemma pad4_aligned: "length b mod 4 = 0 \<Longrightarrow> pad4 b = b"
  by (simp add: pad4_closed pad_len_def)

lemma pad_len_aligned: "(n + pad_len n) mod 4 = 0"
  using length_pad4 [of "replicate n 0"] by (simp add: pad4_closed)

lemma mod4_add: "a mod 4 = 0 \<Longrightarrow> b mod 4 = 0 \<Longrightarrow> (a + b) mod 4 = (0 :: nat)"
  by presburger

lemma pad4_append:
  "length a mod 4 = 0 \<Longrightarrow> pad4 (a @ d) = a @ d @ replicate (pad_len (length d)) 0"
proof -
  assume "length a mod 4 = 0"
  then have "length a = 4 * (length a div 4)" by presburger
  then have "pad_len (length a + length d) = pad_len (length d)"
    using pad_len_add4 [of "length a div 4" "length d"] by simp
  then show ?thesis by (simp add: pad4_closed)
qed

lemma length_epb_body: "length (epb_body ifc ts d) = 20 + (length d + pad_len (length d))"
  by (simp add: epb_body_def)

lemma epb_body_aligned: "length (epb_body ifc ts d) mod 4 = 0"
  unfolding length_epb_body by (intro mod4_add pad_len_aligned) simp

lemma pcapng_write_epb_emit:
  assumes "pg_block p = []"
  shows "pcapng_write_epb p ts d = emit p (pcap_block 6 (epb_body 0 ts d @ [0, 0, 0, 0]))"
proof -
  let ?h = "le32 6 @ le32 0 @ le32 0 @ le32 (ucast (drop_bit 32 ts)) @ le32 (ucast ts) @
    le32 (of_nat (length d)) @ le32 (of_nat (length d))"
  have pad: "pad4 (?h @ d) = le32 6 @ le32 0 @ epb_body 0 ts d"
    by (subst pad4_append) (simp_all add: epb_body_def)
  have "length (le32 6 @ le32 0 @ epb_body 0 ts d @ [0, 0, 0, 0]) mod 4 = 0"
    using mod4_add [OF _ epb_body_aligned [of 0 ts d], of 12] by simp
  then have "pad4 (le32 6 @ le32 0 @ epb_body 0 ts d @ [0, 0, 0, 0]) = le32 6 @ le32 0 @ epb_body 0 ts d @ [0, 0, 0, 0]"
    by (rule pad4_aligned)
  with pad show ?thesis
    unfolding pcapng_write_epb_def
    by (simp add: put_defs assms le16_def ascii_def send_buffer_emit [of _ 6 0 "epb_body 0 ts d @ [0, 0, 0, 0]"])
qed

lemma pcapng_write_info_emit:
  assumes "pg_block p = []"
  shows "pcapng_write_info p ts s = sink_op (emit p (pcap_block 6 (epb_body 1 ts (info_hdr @ ascii s)))) ChunkFlush"
proof -
  let ?d = "info_hdr @ ascii s"
  let ?h = "le32 6 @ le32 0 @ le32 1 @ le32 (ucast (drop_bit 32 ts)) @ le32 (ucast ts) @
    le32 (of_nat (length ?d)) @ le32 (of_nat (length ?d))"
  have "pad4 (?h @ ?d) = le32 6 @ le32 0 @ epb_body 1 ts ?d"
    by (subst pad4_append) (simp_all add: epb_body_def)
  then show ?thesis
    unfolding pcapng_write_info_def
    by (simp add: put_defs assms send_buffer_emit [of _ 6 0 "epb_body 1 ts ?d"])
qed

text \<open>Options, and the bodies of the three header blocks.\<close>

definition opt_bytes :: "u16 \<Rightarrow> string \<Rightarrow> bytes" where
  "opt_bytes index s = le16 index @ le16 (of_nat (length s)) @ ascii s @ replicate (pad_len (length s)) 0"

definition shb_body :: bytes where
  "shb_body = le32 0x1a2b3c4d @ le16 1 @ le16 0 @ le32 0xffffffff @ le32 0xffffffff @
     opt_bytes 2 ''USB Sniffer 2'' @ opt_bytes 0 ''''"

definition idb_body :: "nat \<Rightarrow> string \<Rightarrow> string \<Rightarrow> bytes" where
  "idb_body link_type name desc = le16 (of_nat link_type) @ le16 0 @ le32 0xffff @
     opt_bytes 2 name @ opt_bytes 3 desc @ le16 9 @ le16 1 @ le32 9 @ opt_bytes 0 ''''"

definition header_blocks :: "nat \<Rightarrow> (u32 \<times> bytes) list" where
  "header_blocks link_type =
     [(0x0a0d0d0a, shb_body), (1, idb_body link_type ''usb'' ''Hardware USB interface''),
      (1, idb_body LINKTYPE_WIRESHARK_UPPER_PDU ''info'' ''Out of band information'')]"

lemma length_opt_bytes: "length (opt_bytes i s) mod 4 = 0"
  using mod4_add [OF _ pad_len_aligned [of "length s"], of 4] by (simp add: opt_bytes_def)

lemma put_option_block:
  assumes "length (pg_block p) mod 4 = 0"
  shows "put_option p i s = p\<lparr>pg_block := pg_block p @ opt_bytes i s\<rparr>"
proof -
  have "length (pg_block p @ le16 i @ le16 (of_nat (length s))) mod 4 = 0"
    using mod4_add [OF assms, of 4] by simp
  then have "pad4 ((pg_block p @ le16 i @ le16 (of_nat (length s))) @ ascii s) = pg_block p @ opt_bytes i s"
    by (subst pad4_append) (simp_all add: opt_bytes_def)
  then show ?thesis by (simp add: put_defs)
qed

lemma opt_lengths [simp]:
  "length (opt_bytes 0 '''') = 4" "length (opt_bytes 2 ''USB Sniffer 2'') = 20"
  "length (opt_bytes 2 ''usb'') = 8" "length (opt_bytes 3 ''Hardware USB interface'') = 28"
  "length (opt_bytes 2 ''info'') = 8" "length (opt_bytes 3 ''Out of band information'') = 28"
  by (simp_all add: opt_bytes_def pad_len_def)

lemma write_file_header_emit:
  "pg_block p = [] \<Longrightarrow> write_file_header p = emit p (pcap_block 0x0a0d0d0a shb_body)"
  unfolding write_file_header_def Let_def write_block_type_def put_word_def put_half_def
  by (simp add: put_option_block send_buffer_emit [of _ _ 0 shb_body] shb_body_def)

lemma write_usb_header_emit:
  "pg_block p = [] \<Longrightarrow>
     write_usb_header p lt = emit p (pcap_block 1 (idb_body lt ''usb'' ''Hardware USB interface''))"
  unfolding write_usb_header_def Let_def write_block_type_def put_word_def put_half_def
  by (simp add: put_option_block send_buffer_emit [of _ _ 0 "idb_body lt ''usb'' ''Hardware USB interface''"] idb_body_def)

lemma write_info_header_emit:
  "pg_block p = [] \<Longrightarrow> write_info_header p = emit p
     (pcap_block 1 (idb_body LINKTYPE_WIRESHARK_UPPER_PDU ''info'' ''Out of band information''))"
  unfolding write_info_header_def Let_def write_block_type_def put_word_def put_half_def
  by (simp add: put_option_block idb_body_def
      send_buffer_emit [of _ _ 0 "idb_body LINKTYPE_WIRESHARK_UPPER_PDU ''info'' ''Out of band information''"])

section \<open>The produced byte sequence\<close>

lemma sunk_sink_op [simp]: "sunk (sink_op p r) = sunk p @ op_bytes r"
  by (simp add: sunk_def sink_op_def)

lemma sink_op_fields [simp]:
  "pg_begun (sink_op p r) = pg_begun p" "pg_block (sink_op p r) = pg_block p" "pg_pend (sink_op p r) = pg_pend p"
  "pg_pend_cap (sink_op p r) = pg_pend_cap p"
  by (simp_all add: sink_op_def)

lemma emit_begun:
  "pg_begun p \<Longrightarrow> sunk (emit p b) = sunk p @ b" "pg_begun p \<Longrightarrow> pg_pend (emit p b) = pg_pend p"
  by (simp_all add: emit_def sunk_def sink_op_def Let_def)

lemma emit_staged:
  "\<not> pg_begun p \<Longrightarrow> pg_pend (emit p b) = pg_pend p @ b" "\<not> pg_begun p \<Longrightarrow> pg_sink (emit p b) = pg_sink p"
  by (simp_all add: emit_def stage_block_def Let_def)

text \<open>Between two calls: the assembly buffer is empty and the staged bytes fit their allocation.\<close>

definition pcapng_inv :: "pcapng \<Rightarrow> bool" where
  "pcapng_inv p \<longleftrightarrow> pg_block p = [] \<and> length (pg_pend p) \<le> pg_pend_cap p
     \<and> (pg_pend_cap p = 0 \<or> 65536 \<le> pg_pend_cap p)"

lemma emit_inv:
  assumes "pcapng_inv p" and "length b \<le> 65536"
  shows "pcapng_inv (emit p b)"
  using assms by (auto simp: pcapng_inv_def emit_def stage_block_def sink_op_def Let_def)

lemma length_pcap_block: "length (pcap_block ty body) = length body + 12"
  by (simp add: pcap_block_def)

lemma length_info_hdr [simp]: "length info_hdr = 14"
  by (simp add: info_hdr_def)

lemma frame_blocks_simps [simp]:
  "frame_blocks [] = []" "frame_blocks ((ty, b) # bs) = pcap_block ty b @ frame_blocks bs"
  "frame_blocks (as @ bs) = frame_blocks as @ frame_blocks bs"
  by (simp_all add: frame_blocks_def)

lemma pcap_exec_bytes:
  assumes "pg_block p = []"
  shows "pg_begun p \<Longrightarrow> sunk (pcap_exec p c) = sunk p @ frame_blocks (call_blocks c)"
    and "\<not> pg_begun p \<Longrightarrow> pg_pend (pcap_exec p c) = pg_pend p @ frame_blocks (call_blocks c)"
    and "\<not> pg_begun p \<Longrightarrow> sunk (pcap_exec p c) = sunk p"
    and "pg_begun (pcap_exec p c) = pg_begun p" and "pg_block (pcap_exec p c) = []"
  using assms
  by (cases c; simp add: pcapng_write_epb_emit pcapng_write_info_emit emit_begun emit_staged pcapng_flush_def;
      simp add: sunk_def emit_staged)+

lemma pcap_execs_bytes:
  assumes "pg_block p = []"
  shows "pg_begun p \<Longrightarrow> sunk (foldl pcap_exec p cs) = sunk p @ frame_blocks (concat (map call_blocks cs))"
    and "\<not> pg_begun p \<Longrightarrow> pg_pend (foldl pcap_exec p cs) = pg_pend p @ frame_blocks (concat (map call_blocks cs))"
    and "\<not> pg_begun p \<Longrightarrow> sunk (foldl pcap_exec p cs) = sunk p"
    and "pg_begun (foldl pcap_exec p cs) = pg_begun p" and "pg_block (foldl pcap_exec p cs) = []"
  using assms by (induction cs arbitrary: p) (simp_all add: pcap_exec_bytes)

lemma pcapng_begin_bytes:
  assumes "pg_block p = []" and "\<not> pg_begun p"
  obtains q where "pcapng_begin p lt = Some q" "pg_begun q" "pg_block q = []"
    "sunk q = sunk p @ frame_blocks (header_blocks lt) @ pg_pend p"
proof (rule that)
  let ?q = "emit (emit (emit (p\<lparr>pg_begun := True\<rparr>) (pcap_block 0x0a0d0d0a shb_body))
      (pcap_block 1 (idb_body lt ''usb'' ''Hardware USB interface'')))
      (pcap_block 1 (idb_body LINKTYPE_WIRESHARK_UPPER_PDU ''info'' ''Out of band information''))"
  have s: "sunk ?q = sunk p @ frame_blocks (header_blocks lt)"
    by (simp add: emit_begun header_blocks_def) (simp add: sunk_def)
  have pd: "pg_pend ?q = pg_pend p" by (simp add: emit_begun)
  show b: "pcapng_begin p lt = Some (if pg_pend p \<noteq> [] then sink_op ?q (SinkWrite (pg_pend p)) else ?q)"
    using assms pd by (simp add: pcapng_begin_def Let_def write_file_header_emit write_usb_header_emit write_info_header_emit)
  show "pg_begun (if pg_pend p \<noteq> [] then sink_op ?q (SinkWrite (pg_pend p)) else ?q)" by simp
  show "pg_block (if pg_pend p \<noteq> [] then sink_op ?q (SinkWrite (pg_pend p)) else ?q) = []" by simp
  show "sunk (if pg_pend p \<noteq> [] then sink_op ?q (SinkWrite (pg_pend p)) else ?q)
      = sunk p @ frame_blocks (header_blocks lt) @ pg_pend p"
    using s by simp
qed

lemma pcap_session_bytes:
  obtains q where "pcapng_begin (foldl pcap_exec pcapng_open pre) lt = Some q"
    "sunk (foldl pcap_exec q post) = frame_blocks (header_blocks lt @ concat (map call_blocks (pre @ post)))"
proof -
  have o: "pg_block pcapng_open = []" "\<not> pg_begun pcapng_open" "sunk pcapng_open = []" "pg_pend pcapng_open = []"
    by (simp_all add: pcapng_open_def sunk_def)
  note pre = pcap_execs_bytes [OF o(1), of pre]
  obtain q where q: "pcapng_begin (foldl pcap_exec pcapng_open pre) lt = Some q" "pg_begun q" "pg_block q = []"
    "sunk q = sunk (foldl pcap_exec pcapng_open pre) @ frame_blocks (header_blocks lt) @ pg_pend (foldl pcap_exec pcapng_open pre)"
    by (rule pcapng_begin_bytes [of "foldl pcap_exec pcapng_open pre" lt]) (simp_all add: pre o)
  show thesis
    by (rule that [OF q(1)]) (simp add: pcap_execs_bytes [OF q(3)] q(2,4) pre(2,3) o)
qed

section \<open>Reading the file back\<close>

definition body_ok :: "bytes \<Rightarrow> bool" where
  "body_ok b \<longleftrightarrow> length b mod 4 = 0 \<and> length b + 12 < 2 ^ 32"

lemma pcap_blocks_Cons:
  assumes "body_ok body"
  shows "pcap_blocks (pcap_block ty body @ f) = map_option (\<lambda>bs. (ty, body) # bs) (pcap_blocks f)"
proof -
  let ?n = "length body + 12" and ?w = "of_nat (length body + 12) :: u32"
  have n: "unat ?w = ?n" using assms by (intro unat_of_nat_u32) (simp add: body_ok_def)
  have f: "pcap_block ty body @ f = le32 ty @ le32 ?w @ body @ le32 ?w @ f" by (simp add: pcap_block_def)
  have m: "?n mod 4 = 0" using assms by (intro mod4_add) (simp_all add: body_ok_def)
  show ?thesis
    unfolding f by (subst pcap_blocks.simps) (simp add: n [simplified] m [simplified] le32_not_Nil)
qed

lemma pcap_blocks_frame: "\<forall>b \<in> set bs. body_ok (snd b) \<Longrightarrow> pcap_blocks (frame_blocks bs) = Some bs"
proof (induction bs)
  case Nil
  then show ?case by (simp add: pcap_blocks.simps)
next
  case (Cons b bs)
  then show ?case by (cases b) (simp add: pcap_blocks_Cons)
qed

lemma call_blocks_ok: "call_ok c \<Longrightarrow> \<forall>b \<in> set (call_blocks c). body_ok (snd b) \<and> length (snd b) + 12 \<le> 1319"
proof (cases c)
  case (WriteEpb ts d)
  assume "call_ok c"
  with WriteEpb show ?thesis
    using mod4_add [OF epb_body_aligned [of 0 ts d], of 4] pad_len_less [of "length d"]
    by (simp add: body_ok_def length_epb_body)
next
  case (WriteInfo ts s)
  assume "call_ok c"
  with WriteInfo show ?thesis
    using epb_body_aligned [of 1 ts "info_hdr @ ascii s"] pad_len_less [of "14 + length s"]
    by (simp add: body_ok_def length_epb_body)
qed simp

lemma header_blocks_ok: "\<forall>b \<in> set (header_blocks lt). body_ok (snd b)"
  by (simp add: header_blocks_def body_ok_def shb_body_def idb_body_def)

lemma epb_decode_body:
  assumes "length d < 2 ^ 32"
  shows "epb_decode (6, epb_body ifc ts d @ r) = Some (ifc, ts, d)"
proof -
  have "unat (of_nat (length d) :: u32) = length d" using assms by (rule unat_of_nat_u32)
  moreover have "push_bit 32 (ucast (ucast (drop_bit 32 ts) :: u32)) OR ucast (ucast ts :: u32) = ts"
    by (rule word_bit_eqI) (auto simp: bit_simps)
  ultimately show ?thesis by (simp add: epb_decode_def epb_body_def Let_def)
qed

text \<open>What a reader of the file sees of each call: interface, timestamp and captured bytes.\<close>

fun call_records :: "pcap_call \<Rightarrow> (u32 \<times> u64 \<times> bytes) list" where
  "call_records (WriteEpb ts d) = [(0, ts, d)]"
| "call_records (WriteInfo ts s) = [(1, ts, info_hdr @ ascii s)]"
| "call_records FlushCall = []"

lemma call_blocks_decode: "call_ok c \<Longrightarrow> List.map_filter epb_decode (call_blocks c) = call_records c"
  using epb_decode_body [where r = "[]"]
  by (cases c) (simp_all add: List.map_filter_def epb_decode_body)

lemma map_filter_concat: "List.map_filter f (concat xss) = concat (map (List.map_filter f) xss)"
  by (induction xss) (simp_all add: List.map_filter_def)

lemma calls_decode:
  "\<forall>c \<in> set cs. call_ok c \<Longrightarrow>
     List.map_filter epb_decode (header_blocks lt @ concat (map call_blocks cs)) = concat (map call_records cs)"
  by (simp add: map_filter_concat List.map_filter_def header_blocks_def epb_decode_def comp_def call_blocks_decode
      cong: map_cong flip: List.map_filter_def)

section \<open>Properties\<close>

text \<open>
  C9. The file is a well-formed pcapng file that reads back what was written: for any calls
  before and after \<open>pcapng_begin\<close>, the bytes handed to the writer split into blocks whose two length
  words agree, the section header comes first, followed by the two interface descriptions, then one
  enhanced packet block per call, the blocks staged before the session start included and in call
  order; decoding them gives back the interface, timestamp and captured bytes of every call.
\<close>

theorem pcapng_file_roundtrip:
  assumes "\<forall>c \<in> set (pre @ post). call_ok c"
  shows "\<exists>q. pcapng_begin (foldl pcap_exec pcapng_open pre) lt = Some q \<and>
    (\<exists>blocks. pcap_blocks (sunk (foldl pcap_exec q post)) = Some (header_blocks lt @ blocks) \<and>
       List.map_filter epb_decode blocks = concat (map call_records (pre @ post)))"
proof -
  obtain q where q: "pcapng_begin (foldl pcap_exec pcapng_open pre) lt = Some q"
    "sunk (foldl pcap_exec q post) = frame_blocks (header_blocks lt @ concat (map call_blocks (pre @ post)))"
    by (rule pcap_session_bytes)
  have "pcap_blocks (sunk (foldl pcap_exec q post)) = Some (header_blocks lt @ concat (map call_blocks (pre @ post)))"
    unfolding q(2) using assms header_blocks_ok [of lt] call_blocks_ok by (intro pcap_blocks_frame) fastforce
  moreover have "List.map_filter epb_decode (concat (map call_blocks (pre @ post))) = concat (map call_records (pre @ post))"
    using calls_decode [OF assms, of lt] by (simp add: List.map_filter_def header_blocks_def epb_decode_def)
  ultimately show ?thesis using q(1) by blast
qed

theorem pcapng_file_roundtrip_witness:
  "\<exists>q. pcapng_begin (foldl pcap_exec pcapng_open [WriteEpb 7 [0xa5, 1, 2]]) 288 = Some q \<and>
    (\<exists>blocks. pcap_blocks (sunk (foldl pcap_exec q [WriteInfo 9 ''Keep-alive'', FlushCall])) = Some (header_blocks 288 @ blocks) \<and>
       List.map_filter epb_decode blocks = [(0, 7, [0xa5, 1, 2]), (1, 9, info_hdr @ ascii ''Keep-alive'')])"
  using pcapng_file_roundtrip [of "[WriteEpb 7 [0xa5, 1, 2]]" "[WriteInfo 9 ''Keep-alive'', FlushCall]" 288] by simp



end
