(* ===== verification/Packet.thy ===== *)
theory Packet
  imports Pcapng_Format Chunking
begin

text \<open>
  The frame layer of \<open>src/packet.c\<close>: slicing of the capture byte stream into data and status
  frames, timestamps, event synthesis, folding of empty frames, trigger gating and the capture
  limit. \<open>packet\<close> is the C struct; its arrays are index functions, and \<open>p_out\<close> is the sequence of
  calls made on the pcapng writer. \<open>capture_info\<close> takes its message already formatted;
  \<open>vsnprintf\<close> truncates it to the 511 characters that fit \<open>str[512]\<close>. This theory holds the
  definitions; the theories \<open>Packet_Bounds\<close>, \<open>Packet_Time\<close> and \<open>Packet_Frames\<close> hold the theorems.
\<close>

section \<open>Constants\<close>

definition UPDATE_INTERVAL :: int where "UPDATE_INTERVAL = 2000000000"
definition DATA_HEADER_SIZE :: nat where "DATA_HEADER_SIZE = 7"
definition STATUS_HEADER_SIZE :: nat where "STATUS_HEADER_SIZE = 4"
definition DATA_BUF_SIZE :: nat where "DATA_BUF_SIZE = 2048"
definition FOLD_BUF_SIZE :: nat where "FOLD_BUF_SIZE = 256"
definition MAX_DATA_SIZE :: nat where "MAX_DATA_SIZE = 1280"
definition PID_SOF :: u8 where "PID_SOF = 0xa5"
definition PID_IN :: u8 where "PID_IN = 0x69"
definition PID_NAK :: u8 where "PID_NAK = 0x5a"
definition FOLD_LIMIT_LS_FS :: nat where "FOLD_LIMIT_LS_FS = 1000"
definition FOLD_LIMIT_HS :: nat where "FOLD_LIMIT_HS = 8000"
definition MIN_KEEPALIVE_DURATION :: int where "MIN_KEEPALIVE_DURATION = 1000"
definition MAX_KEEPALIVE_DURATION :: int where "MAX_KEEPALIVE_DURATION = 2000"
definition LS_INVALID :: int where "LS_INVALID = - 1"
definition LS_SE0 :: int where "LS_SE0 = 0"
definition LS_J3 :: int where "LS_J3 = 12"
definition TIME_US :: int where "TIME_US = 1000"
definition TIME_MS :: int where "TIME_MS = 1000000"
definition LS_DELTA_THRESHOLD :: int where "LS_DELTA_THRESHOLD = 10000000"

definition CaptureSpeed_LS :: int where "CaptureSpeed_LS = 0"
definition CaptureSpeed_FS :: int where "CaptureSpeed_FS = 1"
definition CaptureSpeed_HS :: int where "CaptureSpeed_HS = 2"
definition CaptureSpeed_Reset :: int where "CaptureSpeed_Reset = 3"

datatype capture_trigger = CaptureTrigger_Disabled | CaptureTrigger_Low | CaptureTrigger_High
  | CaptureTrigger_Falling | CaptureTrigger_Rising

lemmas packet_consts = UPDATE_INTERVAL_def DATA_HEADER_SIZE_def STATUS_HEADER_SIZE_def DATA_BUF_SIZE_def
  FOLD_BUF_SIZE_def MAX_DATA_SIZE_def PID_SOF_def PID_IN_def PID_NAK_def FOLD_LIMIT_LS_FS_def FOLD_LIMIT_HS_def
  MIN_KEEPALIVE_DURATION_def MAX_KEEPALIVE_DURATION_def LS_INVALID_def LS_SE0_def LS_J3_def TIME_US_def
  TIME_MS_def LS_DELTA_THRESHOLD_def CaptureSpeed_LS_def CaptureSpeed_FS_def CaptureSpeed_HS_def
  CaptureSpeed_Reset_def

section \<open>State\<close>

record packet_opts =
  fold_empty :: bool
  exclude_line_state :: bool
  capture_speed :: int
  capture_trigger_mode :: capture_trigger
  capture_limit :: int

text \<open>\<open>fr_size\<close> is the negated duration for a keep-alive.\<close>

record CaptureFrame =
  fr_ts :: u64
  fr_size :: int
  fr_data :: "u8 carray"

record packet =
  p_opts :: packet_opts
  p_out :: "pcap_call list"
  p_done :: bool
  capture_data :: "u8 carray"
  capture_data_ptr :: nat
  capture_size :: nat
  capture_header :: bool
  capture_status :: bool
  capture_toggle :: int
  capture_ls :: int
  capture_vbus :: int
  capture_trigger_input :: int
  capture_speed_in :: int
  capture_enabled :: bool
  capture_ts_int :: u64
  capture_ts :: u64
  capture_last_ts :: u64
  capture_overflow :: bool
  capture_crc_error :: bool
  capture_data_error :: bool
  capture_duration :: nat
  capture_fold_buf :: "CaptureFrame carray"
  capture_fold_buf_ptr :: nat
  capture_fold_count :: nat
  capture_saved_ls :: int
  capture_saved_ts :: u64

section \<open>Messages\<close>

text \<open>
  \<open>"%.2f"\<close> of a C \<open>float\<close>: the quotient is rounded to a 24-bit significand (to nearest,
  ties to even), then printed with two decimals, again to nearest with ties to even.
\<close>

definition round_even :: "int \<Rightarrow> int \<Rightarrow> int" where
  "round_even a b =
     (let q = a div b; r = a mod b
      in if 2 * r < b then q else if b < 2 * r then q + 1 else if even q then q else q + 1)"

function log2_int :: "int \<Rightarrow> nat" where
  "log2_int n = (if n \<le> 1 then 0 else Suc (log2_int (n div 2)))"
  by pat_completeness auto
termination by (relation "measure nat") auto

declare log2_int.simps [simp del]

definition float_cents :: "int \<Rightarrow> int \<Rightarrow> int" where
  "float_cents a b =
     (let k = log2_int (a div b);
          m = (if k \<le> 23 then round_even (a * 2 ^ (23 - k)) b else round_even a (b * 2 ^ (k - 23)))
      in round_even (100 * m * 2 ^ k) (2 ^ 23))"

definition fmt_float2 :: "int \<Rightarrow> int \<Rightarrow> string" where
  "fmt_float2 a b =
     (let c = float_cents \<bar>a\<bar> b
      in (if a < 0 then ''-'' else [])
         @ dec_int (c div 100) @ ''.'' @ [dec_digit (c div 10 mod 10), dec_digit (c mod 10)])"

definition effective_speed :: "packet \<Rightarrow> int" where
  "effective_speed p =
     (if CaptureSpeed_LS = capture_speed_in p \<and> CaptureSpeed_Reset \<noteq> capture_speed (p_opts p)
         \<and> CaptureSpeed_LS \<noteq> capture_speed (p_opts p)
      then capture_speed (p_opts p) else capture_speed_in p)"

text \<open>The message assembled by \<open>line_state_event\<close>.\<close>

definition line_state_name :: "packet \<Rightarrow> string" where
  "line_state_name p =
     (let dp = capture_saved_ls p AND 3; dm = drop_bit 2 (capture_saved_ls p) AND 3
      in if dp = 0 \<and> dm = 0 then ''SE0''
         else if dp = 0 then (if CaptureSpeed_LS = effective_speed p then ''J'' else ''K'')
         else if dm = 0 then (if CaptureSpeed_LS = effective_speed p then ''K'' else ''J'')
         else ''Undefined (DP='' @ dec_int dp @ '' / DM='' @ dec_int dm @ '')'')"

definition delta_text :: "int \<Rightarrow> string" where
  "delta_text delta =
     (if delta < LS_DELTA_THRESHOLD
      then (if delta < TIME_US then '' ('' @ fmt_float2 delta 1 @ '' ns)''
            else if delta < TIME_MS then '' ('' @ fmt_float2 delta TIME_US @ '' us)''
            else '' ('' @ fmt_float2 delta TIME_MS @ '' ms)'')
      else '''')"

definition line_state_text :: "packet \<Rightarrow> string" where
  "line_state_text p =
     ''Line state: '' @ line_state_name p @ delta_text (int_of_u64 (capture_ts p - capture_saved_ts p))"

section \<open>Writing records\<close>

definition put_call :: "packet \<Rightarrow> pcap_call \<Rightarrow> packet" where
  "put_call p c = p\<lparr>p_out := p_out p @ [c]\<rparr>"

function capture_info :: "packet \<Rightarrow> u64 \<Rightarrow> string \<Rightarrow> packet"
  and line_state_event :: "packet \<Rightarrow> packet" where
  "capture_info p ts str =
     (let p = line_state_event p
      in (put_call p (WriteInfo ts (take 511 str)))\<lparr>capture_last_ts := ts\<rparr>)"
| "line_state_event p =
     (if LS_INVALID = capture_saved_ls p then p
      else let q = p\<lparr>capture_saved_ls := LS_INVALID\<rparr>
           in if exclude_line_state (p_opts q) then q
              else capture_info q (capture_saved_ts q) (line_state_text p))"
  by pat_completeness auto
termination
  by (relation "measure (case_sum (\<lambda>(p, ts, str). if LS_INVALID = capture_saved_ls p then 1 else 3)
    (\<lambda>p. if LS_INVALID = capture_saved_ls p then 0 else 2))") auto

declare capture_info.simps [simp del] line_state_event.simps [simp del]

definition write_packet :: "packet \<Rightarrow> u64 \<Rightarrow> u8 carray \<Rightarrow> nat \<Rightarrow> packet" where
  "write_packet p ts data n = (put_call p (WriteEpb ts (map data [0..<n])))\<lparr>capture_last_ts := ts\<rparr>"

definition write_keepalive :: "packet \<Rightarrow> u64 \<Rightarrow> packet" where
  "write_keepalive p ts = capture_info p ts ''Keep-alive''"

definition timeout_event :: "packet \<Rightarrow> packet" where
  "timeout_event p = (if capture_enabled p then capture_info p (capture_ts p) ''Periodic update'' else p)"

section \<open>Folding\<close>

text \<open>The body of the loop of \<open>stop_folding\<close>.\<close>

definition unfold_frame :: "packet \<Rightarrow> nat \<Rightarrow> packet" where
  "unfold_frame p i =
     (let f = capture_fold_buf p i;
          ts = (if fr_ts f < capture_last_ts p then capture_last_ts p else fr_ts f)
      in if fr_size f < 0 then write_keepalive p ts else write_packet p ts (fr_data f) (nat (fr_size f)))"

definition stop_folding :: "packet \<Rightarrow> packet" where
  "stop_folding p =
     (let count = capture_fold_count p; ptr = capture_fold_buf_ptr p
      in if 0 = count \<and> 0 = ptr then p
         else let p = p\<lparr>capture_fold_count := 0, capture_fold_buf_ptr := 0\<rparr>;
                  p = foldl unfold_frame p [0..<ptr]
              in if count = 1 then capture_info p (capture_ts p) ''Folded empty frame''
                 else if count > 1 then capture_info p (capture_ts p) (''Folded '' @ dec_nat count @ '' empty frames'')
                 else p)"

definition fold_packet :: "packet \<Rightarrow> u64 \<Rightarrow> u8 carray \<Rightarrow> nat \<Rightarrow> packet" where
  "fold_packet p ts data n =
     (let i = capture_fold_buf_ptr p; old = capture_fold_buf p i;
          f = \<lparr>fr_ts = ts, fr_size = int n, fr_data = (\<lambda>j. if j < n then data j else fr_data old j)\<rparr>
      in p\<lparr>capture_fold_buf := (capture_fold_buf p)(i := f), capture_fold_buf_ptr := i + 1\<rparr>)"

definition fold_keepalive :: "packet \<Rightarrow> u64 \<Rightarrow> int \<Rightarrow> packet" where
  "fold_keepalive p ts delta =
     (let i = capture_fold_buf_ptr p; old = capture_fold_buf p i
      in p\<lparr>capture_fold_buf := (capture_fold_buf p)(i := old\<lparr>fr_ts := ts, fr_size := - delta\<rparr>),
           capture_fold_buf_ptr := i + 1\<rparr>)"

definition check_capture_limit :: "packet \<Rightarrow> packet" where
  "check_capture_limit p =
     (let p = p\<lparr>p_opts := (p_opts p)\<lparr>capture_limit := capture_limit (p_opts p) - 1\<rparr>\<rparr>
      in if capture_limit (p_opts p) = 0
         then (capture_info p (capture_ts p) ''Capture limit reached'')\<lparr>p_done := True\<rparr> else p)"

text \<open>Count the frame being replaced, flush a full batch (shared by keep-alives and SOFs).\<close>

definition next_empty_frame :: "packet \<Rightarrow> nat \<Rightarrow> packet" where
  "next_empty_frame p limit =
     (let p = p\<lparr>capture_fold_count := capture_fold_count p + 1, capture_fold_buf_ptr := 0\<rparr>
      in if capture_fold_count p = limit then stop_folding p else p)"

definition keepalive_event :: "packet \<Rightarrow> u64 \<Rightarrow> int \<Rightarrow> packet" where
  "keepalive_event p ts delta =
     (if \<not> capture_enabled p then p
      else check_capture_limit
        (if \<not> fold_empty (p_opts p) then write_keepalive p ts
         else if capture_fold_buf_ptr p \<noteq> 0 then fold_keepalive (next_empty_frame p FOLD_LIMIT_LS_FS) ts delta
         else fold_keepalive p ts delta))"

section \<open>Events\<close>

definition trigger_enables :: "capture_trigger \<Rightarrow> bool \<Rightarrow> int \<Rightarrow> int \<Rightarrow> bool" where
  "trigger_enables mode enabled old trigger =
     (case mode of
        CaptureTrigger_Disabled \<Rightarrow> True
      | CaptureTrigger_Low \<Rightarrow> trigger = 0
      | CaptureTrigger_High \<Rightarrow> trigger = 1
      | CaptureTrigger_Falling \<Rightarrow> enabled \<or> (trigger = 0 \<and> old = 1)
      | CaptureTrigger_Rising \<Rightarrow> enabled \<or> (trigger = 1 \<and> old = 0))"

definition trigger_change :: "packet \<Rightarrow> int \<Rightarrow> packet" where
  "trigger_change p trigger =
     (if capture_trigger_input p = trigger then p
      else let was_enabled = capture_enabled p;
               p = p\<lparr>capture_enabled := trigger_enables (capture_trigger_mode (p_opts p)) was_enabled
                       (capture_trigger_input p) trigger,
                     capture_trigger_input := trigger\<rparr>;
               p = capture_info p (capture_ts p) (''Trigger input = '' @ dec_int trigger)
           in if capture_enabled p \<and> \<not> was_enabled then capture_info p (capture_ts p) ''Starting capture''
              else if was_enabled \<and> \<not> capture_enabled p then capture_info p (capture_ts p) ''Waiting for a trigger''
              else p)"

definition vbus_change :: "packet \<Rightarrow> int \<Rightarrow> packet" where
  "vbus_change p vbus =
     (if capture_vbus p = vbus then p
      else let p = p\<lparr>capture_vbus := vbus\<rparr>
           in capture_info p (capture_ts p) (''VBUS '' @ (if vbus \<noteq> 0 then ''ON'' else ''OFF'')))"

definition speed_name :: "int \<Rightarrow> string" where
  "speed_name s = (if s = 0 then ''Low-Speed'' else if s = 1 then ''Full-Speed''
     else if s = 2 then ''High-Speed'' else '''')"

definition speed_change :: "packet \<Rightarrow> int \<Rightarrow> packet" where
  "speed_change p speed =
     (if capture_speed_in p = speed then p
      else let p = p\<lparr>capture_speed_in := speed\<rparr>
           in if \<not> capture_enabled p then p
              else if CaptureSpeed_Reset = speed then capture_info p (capture_ts p) ''--- Bus Reset ---''
              else capture_info p (capture_ts p) (''Detected speed: '' @ speed_name speed))"

definition ls_change :: "packet \<Rightarrow> int \<Rightarrow> packet" where
  "ls_change p ls =
     (if capture_ls p = ls then p
      else let delta = int_of_u64 (capture_ts p - capture_saved_ts p);
               p = p\<lparr>capture_ls := ls\<rparr>
           in if CaptureSpeed_LS = effective_speed p \<and> LS_SE0 = capture_saved_ls p \<and> LS_J3 = ls
                 \<and> MIN_KEEPALIVE_DURATION < delta \<and> delta < MAX_KEEPALIVE_DURATION
              then keepalive_event (p\<lparr>capture_saved_ls := LS_INVALID\<rparr>) (capture_saved_ts p) delta
              else (line_state_event p)\<lparr>capture_saved_ls := ls, capture_saved_ts := capture_ts p\<rparr>)"

definition status_event :: "packet \<Rightarrow> int \<Rightarrow> int \<Rightarrow> int \<Rightarrow> int \<Rightarrow> packet" where
  "status_event p ls vbus trigger speed =
     ls_change (speed_change (vbus_change (trigger_change p trigger) vbus) speed) ls"

text \<open>The choice between writing and folding a frame in \<open>data_event\<close>.\<close>

definition data_store :: "packet \<Rightarrow> packet" where
  "data_store p =
     (let data_error = capture_crc_error p \<or> capture_data_error p;
          allow_sof = (CaptureSpeed_LS \<noteq> effective_speed p);
          pid = capture_data p 0;
          wr = (\<lambda>p. write_packet p (capture_ts p) (capture_data p) (capture_size p));
          fo = (\<lambda>p. fold_packet p (capture_ts p) (capture_data p) (capture_size p))
      in if data_error \<or> \<not> fold_empty (p_opts p) then wr p
         else if capture_fold_buf_ptr p \<noteq> 0 then
           (if PID_IN = pid \<or> PID_NAK = pid then fo p
            else if PID_SOF = pid \<and> allow_sof
            then fo (next_empty_frame p
              (if CaptureSpeed_HS = effective_speed p then FOLD_LIMIT_HS else FOLD_LIMIT_LS_FS))
            else wr (stop_folding p))
         else if PID_SOF = pid \<and> allow_sof then fo p else wr p)"

text \<open>The records written before the frame itself, and the forced end of a fold batch.\<close>

definition data_reports :: "packet \<Rightarrow> packet" where
  "data_reports p =
     (let data_error = capture_crc_error p \<or> capture_data_error p;
          p = line_state_event p;
          p = (if capture_overflow p \<or> data_error \<or> FOLD_BUF_SIZE = capture_fold_buf_ptr p
               then stop_folding p else p);
          p = (if capture_overflow p then capture_info p (capture_ts p) ''Hardware buffer overflow'' else p)
      in if capture_data_error p then capture_info p (capture_ts p) ''USB PHY error'' else p)"

definition data_event :: "packet \<Rightarrow> packet" where
  "data_event p =
     (if \<not> capture_enabled p then p else check_capture_limit (data_store (data_reports p)))"

section \<open>The frame state machine\<close>

definition header_dump :: "packet \<Rightarrow> string" where
  "header_dump p = concat (map (\<lambda>i. hex_byte (capture_data p i) @ '' '') [0..<min (capture_size p) 84])"

definition desync_error :: "packet \<Rightarrow> packet" where
  "desync_error p =
     (let p = capture_info p (capture_ts p) ''Error: frame desynchronization, resynchronizing'';
          p = capture_info p (capture_ts p) (''Packet header: '' @ header_dump p)
      in p\<lparr>capture_size := 0, capture_data_ptr := 0, capture_header := True, capture_status := False\<rparr>)"

definition check_header :: "packet \<Rightarrow> int \<Rightarrow> int \<Rightarrow> packet" where
  "check_header p toggle zero =
     (if toggle = capture_toggle p \<and> 0 = zero then p
      else let p = (if toggle \<noteq> capture_toggle p
                    then capture_info p (capture_ts p)
                      (''Error: received toggle value '' @ dec_int toggle @ '', expected '' @ dec_int (capture_toggle p))
                    else p);
               p = (if zero \<noteq> 0 then capture_info p (capture_ts p) ''Error: zero bit in the header is not zero'' else p)
           in desync_error p)"

definition check_data_size :: "packet \<Rightarrow> nat \<Rightarrow> packet" where
  "check_data_size p n =
     (if DATA_HEADER_SIZE \<le> n \<and> n \<le> MAX_DATA_SIZE then p
      else desync_error (capture_info p (capture_ts p) (''Error: invalid data size ('' @ dec_nat n @ '')'')))"

definition flag :: "u8 \<Rightarrow> u8 \<Rightarrow> int" where
  "flag b m = (if b AND m \<noteq> 0 then 1 else 0)"

definition header_ts :: "u8 carray \<Rightarrow> u64" where
  "header_ts d = push_bit 16 (ucast (d 0 AND 0xf)) OR push_bit 8 (ucast (d 1)) OR ucast (d 2)"

definition header_size :: "u8 carray \<Rightarrow> nat" where
  "header_size d = unat (push_bit 8 (ucast (d 3 AND 0x7)) OR ucast (d 4) :: u32)"

text \<open>The part of the header handling common to both frame kinds.\<close>

definition header_common :: "packet \<Rightarrow> packet" where
  "header_common p =
     (let d = capture_data p; ts = header_ts d; toggle = flag (d 0) 0x40; zero = flag (d 0) 0x20;
          p = check_header p toggle zero;
          p = (if d 0 AND 0x10 \<noteq> 0 then p\<lparr>capture_ts_int := capture_ts_int p + 0x100000\<rparr> else p);
          p = p\<lparr>capture_ts := ((capture_ts_int p OR ts) * 100) div 6, capture_toggle := 1 - toggle\<rparr>
      in if sint (capture_ts p - capture_last_ts p) > UPDATE_INTERVAL then timeout_event p else p)"

text \<open>An invalid size is the early return: the state is the one \<open>check_data_size\<close> leaves.\<close>

definition header_done :: "packet \<Rightarrow> packet" where
  "header_done p =
     (let p = header_common p; d = capture_data p
      in if capture_status p
         then (status_event p (uint (d 3 AND 0x0f)) (flag (d 3) 0x10) (flag (d 3) 0x20) (uint (drop_bit 6 (d 3) AND 3)))
                \<lparr>capture_data_ptr := 0\<rparr>
         else let size = header_size d
              in if size < DATA_HEADER_SIZE \<or> MAX_DATA_SIZE < size then check_data_size p size
                 else p\<lparr>capture_size := size - DATA_HEADER_SIZE,
                        capture_overflow := (d 3 AND 0x08 \<noteq> 0),
                        capture_crc_error := (d 3 AND 0x10 \<noteq> 0),
                        capture_data_error := (d 3 AND 0x20 \<noteq> 0),
                        capture_duration := unat (push_bit 8 (ucast (d 5)) OR ucast (d 6) :: u32),
                        capture_header := (size - DATA_HEADER_SIZE = 0),
                        capture_data_ptr := 0\<rparr>)"

text \<open>The first half of \<open>capture_sm\<close>: classify the frame at its first byte and store the byte.\<close>

definition store_byte :: "packet \<Rightarrow> u8 \<Rightarrow> packet" where
  "store_byte p byte =
     (let p = (if capture_header p \<and> 0 = capture_data_ptr p
               then (let st = (0 = byte AND 0x80)
                     in p\<lparr>capture_status := st, capture_size := (if st then STATUS_HEADER_SIZE else DATA_HEADER_SIZE)\<rparr>)
               else p)
      in p\<lparr>capture_data := (capture_data p)(capture_data_ptr p := byte), capture_data_ptr := capture_data_ptr p + 1\<rparr>)"

definition capture_sm :: "packet \<Rightarrow> u8 \<Rightarrow> packet" where
  "capture_sm p byte =
     (let p = store_byte p byte
      in if capture_data_ptr p < capture_size p then p
         else if capture_header p then header_done p
         else (data_event (p\<lparr>capture_header := True\<rparr>))\<lparr>capture_data_ptr := 0\<rparr>)"

section \<open>The interface\<close>

definition packet_start :: "packet \<Rightarrow> packet" where
  "packet_start p = p\<lparr>p_done := False, capture_data_ptr := 0, capture_size := 0, capture_header := True,
     capture_status := False, capture_toggle := 0, capture_ls := -1, capture_vbus := -1,
     capture_trigger_input := -1, capture_speed_in := -1, capture_enabled := False, capture_ts_int := 0,
     capture_ts := 0, capture_last_ts := 0, capture_overflow := False, capture_crc_error := False,
     capture_data_error := False, capture_duration := 0, capture_fold_buf_ptr := 0, capture_fold_count := 0,
     capture_saved_ls := LS_INVALID, capture_saved_ts := 0\<rparr>"

text \<open>\<open>os_alloc\<close> returns zeroed memory.\<close>

definition packet_zero :: "packet_opts \<Rightarrow> pcap_call list \<Rightarrow> packet" where
  "packet_zero opts out = \<lparr>p_opts = opts, p_out = out, p_done = False, capture_data = (\<lambda>_. 0), capture_data_ptr = 0,
     capture_size = 0, capture_header = False, capture_status = False, capture_toggle = 0, capture_ls = 0,
     capture_vbus = 0, capture_trigger_input = 0, capture_speed_in = 0, capture_enabled = False,
     capture_ts_int = 0, capture_ts = 0, capture_last_ts = 0, capture_overflow = False, capture_crc_error = False,
     capture_data_error = False, capture_duration = 0,
     capture_fold_buf = (\<lambda>_. \<lparr>fr_ts = 0, fr_size = 0, fr_data = (\<lambda>_. 0)\<rparr>),
     capture_fold_buf_ptr = 0, capture_fold_count = 0, capture_saved_ls = 0, capture_saved_ts = 0\<rparr>"

definition packet_new :: "packet_opts \<Rightarrow> pcap_call list \<Rightarrow> packet" where
  "packet_new opts out = packet_start (packet_zero opts out)"

definition packet_announce :: "packet \<Rightarrow> packet" where
  "packet_announce p =
     (let p = p\<lparr>p_done := False\<rparr>;
          p = (if capture_trigger_mode (p_opts p) = CaptureTrigger_Disabled
               then (capture_info p 0 ''Starting capture'')\<lparr>capture_enabled := True\<rparr>
               else capture_info p (capture_ts p) ''Waiting for a trigger'')
      in put_call p FlushCall)"

fun feed_loop :: "packet \<Rightarrow> bytes \<Rightarrow> packet" where
  "feed_loop p [] = p"
| "feed_loop p (b # bs) = (let q = capture_sm p b in if p_done q then q else feed_loop q bs)"

definition packet_feed :: "packet \<Rightarrow> bytes \<Rightarrow> packet" where
  "packet_feed p data = (if p_done p then p else feed_loop p data)"

definition packet_rsync :: "packet \<Rightarrow> packet" where
  "packet_rsync p = capture_info p (capture_ts p) ''Error: USB link packet loss, resynchronized''"

definition packet_info :: "packet \<Rightarrow> string \<Rightarrow> packet" where
  "packet_info p msg = capture_info p (capture_ts p) msg"

definition packet_stop_info :: "packet \<Rightarrow> string \<Rightarrow> packet" where
  "packet_stop_info p reason = capture_info p (capture_ts p) (''Capture stopped: '' @ reason)"

definition packet_finished :: "packet \<Rightarrow> bool" where
  "packet_finished p = p_done p"

end
