(* ===== verification/Packet_Bounds.thy ===== *)
theory Packet_Bounds
  imports Packet
begin

text \<open>
  Closed forms of the record-writing operations of the frame layer, the fields every operation
  leaves alone, and the bounds invariant: no array of \<open>struct packet\<close> is indexed out of range and
  every call made on the pcapng writer has a size that writer can take.
\<close>

section \<open>Closed forms\<close>

definition ls_calls :: "packet \<Rightarrow> pcap_call list" where
  "ls_calls p =
     (if LS_INVALID = capture_saved_ls p \<or> exclude_line_state (p_opts p) then []
      else [WriteInfo (capture_saved_ts p) (take 511 (line_state_text p))])"

lemma saved_ls_upd_id: "LS_INVALID = capture_saved_ls p \<Longrightarrow> p\<lparr>capture_saved_ls := LS_INVALID\<rparr> = p"
  by simp

lemma capture_info_valid:
  "LS_INVALID = capture_saved_ls p \<Longrightarrow>
     capture_info p ts s = p\<lparr>p_out := p_out p @ [WriteInfo ts (take 511 s)], capture_last_ts := ts\<rparr>"
  by (simp add: capture_info.simps line_state_event.simps put_call_def Let_def)

lemma line_state_event_closed:
  "line_state_event p =
     p\<lparr>capture_saved_ls := LS_INVALID, p_out := p_out p @ ls_calls p,
       capture_last_ts := (if ls_calls p = [] then capture_last_ts p else capture_saved_ts p)\<rparr>"
proof (cases "LS_INVALID = capture_saved_ls p \<or> exclude_line_state (p_opts p)")
  case True
  then show ?thesis by (auto simp: line_state_event.simps ls_calls_def Let_def)
next
  case False
  then show ?thesis
    by (simp add: line_state_event.simps [of p] ls_calls_def Let_def capture_info_valid)
qed

lemma capture_info_closed:
  "capture_info p ts s =
     p\<lparr>capture_saved_ls := LS_INVALID, p_out := p_out p @ ls_calls p @ [WriteInfo ts (take 511 s)],
       capture_last_ts := ts\<rparr>"
  by (simp add: capture_info.simps line_state_event_closed put_call_def Let_def)

lemmas info_closed = line_state_event_closed capture_info_closed write_packet_def write_keepalive_def put_call_def

section \<open>Fields the record-writing operations leave alone\<close>

text \<open>\<open>quiet\<close> masks the fields that writing a record changes.\<close>

definition quiet :: "packet \<Rightarrow> packet" where
  "quiet p = p\<lparr>p_out := [], capture_saved_ls := 0, capture_last_ts := 0\<rparr>"

lemma quiet_fields [simp]:
  "p_opts (quiet p) = p_opts p" "p_done (quiet p) = p_done p" "capture_data (quiet p) = capture_data p"
  "capture_data_ptr (quiet p) = capture_data_ptr p" "capture_size (quiet p) = capture_size p"
  "capture_header (quiet p) = capture_header p" "capture_status (quiet p) = capture_status p"
  "capture_toggle (quiet p) = capture_toggle p" "capture_ls (quiet p) = capture_ls p"
  "capture_vbus (quiet p) = capture_vbus p" "capture_trigger_input (quiet p) = capture_trigger_input p"
  "capture_speed_in (quiet p) = capture_speed_in p" "capture_enabled (quiet p) = capture_enabled p"
  "capture_ts_int (quiet p) = capture_ts_int p" "capture_ts (quiet p) = capture_ts p"
  "capture_overflow (quiet p) = capture_overflow p" "capture_crc_error (quiet p) = capture_crc_error p"
  "capture_data_error (quiet p) = capture_data_error p" "capture_duration (quiet p) = capture_duration p"
  "capture_fold_buf (quiet p) = capture_fold_buf p"
  "capture_fold_buf_ptr (quiet p) = capture_fold_buf_ptr p"
  "capture_fold_count (quiet p) = capture_fold_count p" "capture_saved_ts (quiet p) = capture_saved_ts p"
  by (simp_all add: quiet_def)

lemma capture_info_fields [simp]:
  "p_opts (capture_info p ts s) = p_opts p" "p_done (capture_info p ts s) = p_done p"
  "capture_data (capture_info p ts s) = capture_data p"
  "capture_data_ptr (capture_info p ts s) = capture_data_ptr p"
  "capture_size (capture_info p ts s) = capture_size p"
  "capture_header (capture_info p ts s) = capture_header p"
  "capture_status (capture_info p ts s) = capture_status p"
  "capture_toggle (capture_info p ts s) = capture_toggle p"
  "capture_ls (capture_info p ts s) = capture_ls p" "capture_vbus (capture_info p ts s) = capture_vbus p"
  "capture_trigger_input (capture_info p ts s) = capture_trigger_input p"
  "capture_speed_in (capture_info p ts s) = capture_speed_in p"
  "capture_enabled (capture_info p ts s) = capture_enabled p"
  "capture_ts_int (capture_info p ts s) = capture_ts_int p"
  "capture_ts (capture_info p ts s) = capture_ts p"
  "capture_overflow (capture_info p ts s) = capture_overflow p"
  "capture_crc_error (capture_info p ts s) = capture_crc_error p"
  "capture_data_error (capture_info p ts s) = capture_data_error p"
  "capture_duration (capture_info p ts s) = capture_duration p"
  "capture_fold_buf (capture_info p ts s) = capture_fold_buf p"
  "capture_fold_buf_ptr (capture_info p ts s) = capture_fold_buf_ptr p"
  "capture_fold_count (capture_info p ts s) = capture_fold_count p"
  "capture_saved_ts (capture_info p ts s) = capture_saved_ts p"
  by (simp_all add: capture_info_closed)

lemma line_state_event_fields [simp]:
  "p_opts (line_state_event p) = p_opts p" "p_done (line_state_event p) = p_done p"
  "capture_data (line_state_event p) = capture_data p"
  "capture_data_ptr (line_state_event p) = capture_data_ptr p"
  "capture_size (line_state_event p) = capture_size p"
  "capture_header (line_state_event p) = capture_header p"
  "capture_status (line_state_event p) = capture_status p"
  "capture_toggle (line_state_event p) = capture_toggle p" "capture_ls (line_state_event p) = capture_ls p"
  "capture_vbus (line_state_event p) = capture_vbus p"
  "capture_trigger_input (line_state_event p) = capture_trigger_input p"
  "capture_speed_in (line_state_event p) = capture_speed_in p"
  "capture_enabled (line_state_event p) = capture_enabled p"
  "capture_ts_int (line_state_event p) = capture_ts_int p" "capture_ts (line_state_event p) = capture_ts p"
  "capture_overflow (line_state_event p) = capture_overflow p"
  "capture_crc_error (line_state_event p) = capture_crc_error p"
  "capture_data_error (line_state_event p) = capture_data_error p"
  "capture_duration (line_state_event p) = capture_duration p"
  "capture_fold_buf (line_state_event p) = capture_fold_buf p"
  "capture_fold_buf_ptr (line_state_event p) = capture_fold_buf_ptr p"
  "capture_fold_count (line_state_event p) = capture_fold_count p"
  "capture_saved_ts (line_state_event p) = capture_saved_ts p"
  by (simp_all add: line_state_event_closed)

lemma write_packet_fields [simp]:
  "p_opts (write_packet p ts d n) = p_opts p" "p_done (write_packet p ts d n) = p_done p"
  "capture_data (write_packet p ts d n) = capture_data p"
  "capture_data_ptr (write_packet p ts d n) = capture_data_ptr p"
  "capture_size (write_packet p ts d n) = capture_size p"
  "capture_header (write_packet p ts d n) = capture_header p"
  "capture_status (write_packet p ts d n) = capture_status p"
  "capture_toggle (write_packet p ts d n) = capture_toggle p"
  "capture_ls (write_packet p ts d n) = capture_ls p"
  "capture_vbus (write_packet p ts d n) = capture_vbus p"
  "capture_trigger_input (write_packet p ts d n) = capture_trigger_input p"
  "capture_speed_in (write_packet p ts d n) = capture_speed_in p"
  "capture_enabled (write_packet p ts d n) = capture_enabled p"
  "capture_ts_int (write_packet p ts d n) = capture_ts_int p"
  "capture_ts (write_packet p ts d n) = capture_ts p"
  "capture_overflow (write_packet p ts d n) = capture_overflow p"
  "capture_crc_error (write_packet p ts d n) = capture_crc_error p"
  "capture_data_error (write_packet p ts d n) = capture_data_error p"
  "capture_duration (write_packet p ts d n) = capture_duration p"
  "capture_fold_buf (write_packet p ts d n) = capture_fold_buf p"
  "capture_fold_buf_ptr (write_packet p ts d n) = capture_fold_buf_ptr p"
  "capture_fold_count (write_packet p ts d n) = capture_fold_count p"
  "capture_saved_ts (write_packet p ts d n) = capture_saved_ts p"
  by (simp_all add: write_packet_def put_call_def)

lemma quiet_unfold_frame: "quiet (unfold_frame p i) = quiet p"
  by (simp add: unfold_frame_def Let_def info_closed quiet_def)

lemma quiet_unfolds: "quiet (foldl unfold_frame p is) = quiet p"
  by (induction "is" arbitrary: p) (simp_all add: quiet_unfold_frame)

lemma quiet_stop_folding: "quiet (stop_folding p) = quiet (p\<lparr>capture_fold_count := 0, capture_fold_buf_ptr := 0\<rparr>)"
proof -
  have info: "quiet (capture_info q ts s) = quiet q" for q ts s by (simp add: capture_info_closed quiet_def)
  show ?thesis by (auto simp: stop_folding_def Let_def info quiet_unfolds) (simp add: quiet_def)
qed

lemma stop_folding_empty [simp]: "capture_fold_buf_ptr (stop_folding p) = 0" "capture_fold_count (stop_folding p) = 0"
  using quiet_stop_folding [of p, THEN arg_cong, of capture_fold_buf_ptr]
    quiet_stop_folding [of p, THEN arg_cong, of capture_fold_count] by simp_all

lemma stop_folding_fields [simp]:
  "p_opts (stop_folding p) = p_opts p" "p_done (stop_folding p) = p_done p"
  "capture_data (stop_folding p) = capture_data p" "capture_data_ptr (stop_folding p) = capture_data_ptr p"
  "capture_size (stop_folding p) = capture_size p" "capture_header (stop_folding p) = capture_header p"
  "capture_status (stop_folding p) = capture_status p" "capture_toggle (stop_folding p) = capture_toggle p"
  "capture_ls (stop_folding p) = capture_ls p" "capture_vbus (stop_folding p) = capture_vbus p"
  "capture_trigger_input (stop_folding p) = capture_trigger_input p"
  "capture_speed_in (stop_folding p) = capture_speed_in p"
  "capture_enabled (stop_folding p) = capture_enabled p"
  "capture_ts_int (stop_folding p) = capture_ts_int p" "capture_ts (stop_folding p) = capture_ts p"
  "capture_overflow (stop_folding p) = capture_overflow p"
  "capture_crc_error (stop_folding p) = capture_crc_error p"
  "capture_data_error (stop_folding p) = capture_data_error p"
  "capture_duration (stop_folding p) = capture_duration p"
  "capture_fold_buf (stop_folding p) = capture_fold_buf p"
  "capture_saved_ts (stop_folding p) = capture_saved_ts p"
  using quiet_stop_folding [of p, THEN arg_cong, of p_opts]
    quiet_stop_folding [of p, THEN arg_cong, of p_done]
    quiet_stop_folding [of p, THEN arg_cong, of capture_data]
    quiet_stop_folding [of p, THEN arg_cong, of capture_data_ptr]
    quiet_stop_folding [of p, THEN arg_cong, of capture_size]
    quiet_stop_folding [of p, THEN arg_cong, of capture_header]
    quiet_stop_folding [of p, THEN arg_cong, of capture_status]
    quiet_stop_folding [of p, THEN arg_cong, of capture_toggle]
    quiet_stop_folding [of p, THEN arg_cong, of capture_ls]
    quiet_stop_folding [of p, THEN arg_cong, of capture_vbus]
    quiet_stop_folding [of p, THEN arg_cong, of capture_trigger_input]
    quiet_stop_folding [of p, THEN arg_cong, of capture_speed_in]
    quiet_stop_folding [of p, THEN arg_cong, of capture_enabled]
    quiet_stop_folding [of p, THEN arg_cong, of capture_ts_int]
    quiet_stop_folding [of p, THEN arg_cong, of capture_ts]
    quiet_stop_folding [of p, THEN arg_cong, of capture_overflow]
    quiet_stop_folding [of p, THEN arg_cong, of capture_crc_error]
    quiet_stop_folding [of p, THEN arg_cong, of capture_data_error]
    quiet_stop_folding [of p, THEN arg_cong, of capture_duration]
    quiet_stop_folding [of p, THEN arg_cong, of capture_fold_buf]
    quiet_stop_folding [of p, THEN arg_cong, of capture_saved_ts]
  by simp_all

lemma fold_packet_fields [simp]:
  "p_opts (fold_packet p ts d n) = p_opts p" "p_done (fold_packet p ts d n) = p_done p"
  "capture_data (fold_packet p ts d n) = capture_data p"
  "capture_data_ptr (fold_packet p ts d n) = capture_data_ptr p"
  "capture_size (fold_packet p ts d n) = capture_size p"
  "capture_header (fold_packet p ts d n) = capture_header p"
  "capture_status (fold_packet p ts d n) = capture_status p"
  "capture_toggle (fold_packet p ts d n) = capture_toggle p"
  "capture_ls (fold_packet p ts d n) = capture_ls p" "capture_vbus (fold_packet p ts d n) = capture_vbus p"
  "capture_trigger_input (fold_packet p ts d n) = capture_trigger_input p"
  "capture_speed_in (fold_packet p ts d n) = capture_speed_in p"
  "capture_enabled (fold_packet p ts d n) = capture_enabled p"
  "capture_ts_int (fold_packet p ts d n) = capture_ts_int p"
  "capture_ts (fold_packet p ts d n) = capture_ts p"
  "capture_overflow (fold_packet p ts d n) = capture_overflow p"
  "capture_crc_error (fold_packet p ts d n) = capture_crc_error p"
  "capture_data_error (fold_packet p ts d n) = capture_data_error p"
  "capture_duration (fold_packet p ts d n) = capture_duration p"
  "capture_fold_count (fold_packet p ts d n) = capture_fold_count p"
  "capture_saved_ts (fold_packet p ts d n) = capture_saved_ts p"
  by (simp_all add: fold_packet_def Let_def)

lemma fold_keepalive_fields [simp]:
  "p_opts (fold_keepalive p ts delta) = p_opts p" "p_done (fold_keepalive p ts delta) = p_done p"
  "capture_data (fold_keepalive p ts delta) = capture_data p"
  "capture_data_ptr (fold_keepalive p ts delta) = capture_data_ptr p"
  "capture_size (fold_keepalive p ts delta) = capture_size p"
  "capture_header (fold_keepalive p ts delta) = capture_header p"
  "capture_status (fold_keepalive p ts delta) = capture_status p"
  "capture_toggle (fold_keepalive p ts delta) = capture_toggle p"
  "capture_ls (fold_keepalive p ts delta) = capture_ls p"
  "capture_vbus (fold_keepalive p ts delta) = capture_vbus p"
  "capture_trigger_input (fold_keepalive p ts delta) = capture_trigger_input p"
  "capture_speed_in (fold_keepalive p ts delta) = capture_speed_in p"
  "capture_enabled (fold_keepalive p ts delta) = capture_enabled p"
  "capture_ts_int (fold_keepalive p ts delta) = capture_ts_int p"
  "capture_ts (fold_keepalive p ts delta) = capture_ts p"
  "capture_overflow (fold_keepalive p ts delta) = capture_overflow p"
  "capture_crc_error (fold_keepalive p ts delta) = capture_crc_error p"
  "capture_data_error (fold_keepalive p ts delta) = capture_data_error p"
  "capture_duration (fold_keepalive p ts delta) = capture_duration p"
  "capture_fold_count (fold_keepalive p ts delta) = capture_fold_count p"
  "capture_saved_ts (fold_keepalive p ts delta) = capture_saved_ts p"
  by (simp_all add: fold_keepalive_def Let_def)

lemma check_capture_limit_fields [simp]:
  "capture_data (check_capture_limit p) = capture_data p"
  "capture_data_ptr (check_capture_limit p) = capture_data_ptr p"
  "capture_size (check_capture_limit p) = capture_size p"
  "capture_header (check_capture_limit p) = capture_header p"
  "capture_status (check_capture_limit p) = capture_status p"
  "capture_toggle (check_capture_limit p) = capture_toggle p"
  "capture_ls (check_capture_limit p) = capture_ls p"
  "capture_vbus (check_capture_limit p) = capture_vbus p"
  "capture_trigger_input (check_capture_limit p) = capture_trigger_input p"
  "capture_speed_in (check_capture_limit p) = capture_speed_in p"
  "capture_enabled (check_capture_limit p) = capture_enabled p"
  "capture_ts_int (check_capture_limit p) = capture_ts_int p"
  "capture_ts (check_capture_limit p) = capture_ts p"
  "capture_overflow (check_capture_limit p) = capture_overflow p"
  "capture_crc_error (check_capture_limit p) = capture_crc_error p"
  "capture_data_error (check_capture_limit p) = capture_data_error p"
  "capture_duration (check_capture_limit p) = capture_duration p"
  "capture_fold_buf (check_capture_limit p) = capture_fold_buf p"
  "capture_fold_buf_ptr (check_capture_limit p) = capture_fold_buf_ptr p"
  "capture_fold_count (check_capture_limit p) = capture_fold_count p"
  "capture_saved_ts (check_capture_limit p) = capture_saved_ts p"
  by (simp_all add: check_capture_limit_def Let_def)

lemma next_empty_frame_fields [simp]:
  "p_opts (next_empty_frame p limit) = p_opts p" "p_done (next_empty_frame p limit) = p_done p"
  "capture_data (next_empty_frame p limit) = capture_data p"
  "capture_data_ptr (next_empty_frame p limit) = capture_data_ptr p"
  "capture_size (next_empty_frame p limit) = capture_size p"
  "capture_header (next_empty_frame p limit) = capture_header p"
  "capture_status (next_empty_frame p limit) = capture_status p"
  "capture_toggle (next_empty_frame p limit) = capture_toggle p"
  "capture_ls (next_empty_frame p limit) = capture_ls p"
  "capture_vbus (next_empty_frame p limit) = capture_vbus p"
  "capture_trigger_input (next_empty_frame p limit) = capture_trigger_input p"
  "capture_speed_in (next_empty_frame p limit) = capture_speed_in p"
  "capture_enabled (next_empty_frame p limit) = capture_enabled p"
  "capture_ts_int (next_empty_frame p limit) = capture_ts_int p"
  "capture_ts (next_empty_frame p limit) = capture_ts p"
  "capture_overflow (next_empty_frame p limit) = capture_overflow p"
  "capture_crc_error (next_empty_frame p limit) = capture_crc_error p"
  "capture_data_error (next_empty_frame p limit) = capture_data_error p"
  "capture_duration (next_empty_frame p limit) = capture_duration p"
  "capture_fold_buf (next_empty_frame p limit) = capture_fold_buf p"
  "capture_saved_ts (next_empty_frame p limit) = capture_saved_ts p"
  by (simp_all add: next_empty_frame_def Let_def)

lemma keepalive_event_fields [simp]:
  "capture_data (keepalive_event p ts delta) = capture_data p"
  "capture_data_ptr (keepalive_event p ts delta) = capture_data_ptr p"
  "capture_size (keepalive_event p ts delta) = capture_size p"
  "capture_header (keepalive_event p ts delta) = capture_header p"
  "capture_status (keepalive_event p ts delta) = capture_status p"
  "capture_toggle (keepalive_event p ts delta) = capture_toggle p"
  "capture_ls (keepalive_event p ts delta) = capture_ls p"
  "capture_vbus (keepalive_event p ts delta) = capture_vbus p"
  "capture_trigger_input (keepalive_event p ts delta) = capture_trigger_input p"
  "capture_speed_in (keepalive_event p ts delta) = capture_speed_in p"
  "capture_enabled (keepalive_event p ts delta) = capture_enabled p"
  "capture_ts_int (keepalive_event p ts delta) = capture_ts_int p"
  "capture_ts (keepalive_event p ts delta) = capture_ts p"
  "capture_overflow (keepalive_event p ts delta) = capture_overflow p"
  "capture_crc_error (keepalive_event p ts delta) = capture_crc_error p"
  "capture_data_error (keepalive_event p ts delta) = capture_data_error p"
  "capture_duration (keepalive_event p ts delta) = capture_duration p"
  "capture_saved_ts (keepalive_event p ts delta) = capture_saved_ts p"
  by (simp_all add: keepalive_event_def write_keepalive_def)

lemma data_store_fields [simp]:
  "p_opts (data_store p) = p_opts p" "p_done (data_store p) = p_done p"
  "capture_data (data_store p) = capture_data p" "capture_data_ptr (data_store p) = capture_data_ptr p"
  "capture_size (data_store p) = capture_size p" "capture_header (data_store p) = capture_header p"
  "capture_status (data_store p) = capture_status p" "capture_toggle (data_store p) = capture_toggle p"
  "capture_ls (data_store p) = capture_ls p" "capture_vbus (data_store p) = capture_vbus p"
  "capture_trigger_input (data_store p) = capture_trigger_input p"
  "capture_speed_in (data_store p) = capture_speed_in p"
  "capture_enabled (data_store p) = capture_enabled p" "capture_ts_int (data_store p) = capture_ts_int p"
  "capture_ts (data_store p) = capture_ts p" "capture_overflow (data_store p) = capture_overflow p"
  "capture_crc_error (data_store p) = capture_crc_error p"
  "capture_data_error (data_store p) = capture_data_error p"
  "capture_duration (data_store p) = capture_duration p"
  "capture_saved_ts (data_store p) = capture_saved_ts p"
  by (simp_all add: data_store_def Let_def)

lemma data_reports_fields [simp]:
  "p_opts (data_reports p) = p_opts p" "p_done (data_reports p) = p_done p"
  "capture_data (data_reports p) = capture_data p" "capture_data_ptr (data_reports p) = capture_data_ptr p"
  "capture_size (data_reports p) = capture_size p" "capture_header (data_reports p) = capture_header p"
  "capture_status (data_reports p) = capture_status p" "capture_toggle (data_reports p) = capture_toggle p"
  "capture_ls (data_reports p) = capture_ls p" "capture_vbus (data_reports p) = capture_vbus p"
  "capture_trigger_input (data_reports p) = capture_trigger_input p"
  "capture_speed_in (data_reports p) = capture_speed_in p"
  "capture_enabled (data_reports p) = capture_enabled p"
  "capture_ts_int (data_reports p) = capture_ts_int p" "capture_ts (data_reports p) = capture_ts p"
  "capture_overflow (data_reports p) = capture_overflow p"
  "capture_crc_error (data_reports p) = capture_crc_error p"
  "capture_data_error (data_reports p) = capture_data_error p"
  "capture_duration (data_reports p) = capture_duration p"
  "capture_fold_buf (data_reports p) = capture_fold_buf p"
  "capture_saved_ts (data_reports p) = capture_saved_ts p"
  by (simp_all add: data_reports_def Let_def)

lemma data_event_fields [simp]:
  "capture_data (data_event p) = capture_data p" "capture_data_ptr (data_event p) = capture_data_ptr p"
  "capture_size (data_event p) = capture_size p" "capture_header (data_event p) = capture_header p"
  "capture_status (data_event p) = capture_status p" "capture_toggle (data_event p) = capture_toggle p"
  "capture_ls (data_event p) = capture_ls p" "capture_vbus (data_event p) = capture_vbus p"
  "capture_trigger_input (data_event p) = capture_trigger_input p"
  "capture_speed_in (data_event p) = capture_speed_in p"
  "capture_enabled (data_event p) = capture_enabled p" "capture_ts_int (data_event p) = capture_ts_int p"
  "capture_ts (data_event p) = capture_ts p" "capture_overflow (data_event p) = capture_overflow p"
  "capture_crc_error (data_event p) = capture_crc_error p"
  "capture_data_error (data_event p) = capture_data_error p"
  "capture_duration (data_event p) = capture_duration p"
  "capture_saved_ts (data_event p) = capture_saved_ts p"
  by (simp_all add: data_event_def Let_def)

lemma desync_error_fields [simp]:
  "p_opts (desync_error p) = p_opts p" "p_done (desync_error p) = p_done p"
  "capture_data (desync_error p) = capture_data p" "capture_toggle (desync_error p) = capture_toggle p"
  "capture_ls (desync_error p) = capture_ls p" "capture_vbus (desync_error p) = capture_vbus p"
  "capture_trigger_input (desync_error p) = capture_trigger_input p"
  "capture_speed_in (desync_error p) = capture_speed_in p"
  "capture_enabled (desync_error p) = capture_enabled p"
  "capture_ts_int (desync_error p) = capture_ts_int p" "capture_ts (desync_error p) = capture_ts p"
  "capture_overflow (desync_error p) = capture_overflow p"
  "capture_crc_error (desync_error p) = capture_crc_error p"
  "capture_data_error (desync_error p) = capture_data_error p"
  "capture_duration (desync_error p) = capture_duration p"
  "capture_fold_buf (desync_error p) = capture_fold_buf p"
  "capture_fold_buf_ptr (desync_error p) = capture_fold_buf_ptr p"
  "capture_fold_count (desync_error p) = capture_fold_count p"
  "capture_saved_ts (desync_error p) = capture_saved_ts p"
  by (simp_all add: desync_error_def Let_def)

lemma check_header_fields [simp]:
  "p_opts (check_header p t z) = p_opts p" "p_done (check_header p t z) = p_done p"
  "capture_data (check_header p t z) = capture_data p"
  "capture_toggle (check_header p t z) = capture_toggle p" "capture_ls (check_header p t z) = capture_ls p"
  "capture_vbus (check_header p t z) = capture_vbus p"
  "capture_trigger_input (check_header p t z) = capture_trigger_input p"
  "capture_speed_in (check_header p t z) = capture_speed_in p"
  "capture_enabled (check_header p t z) = capture_enabled p"
  "capture_ts_int (check_header p t z) = capture_ts_int p" "capture_ts (check_header p t z) = capture_ts p"
  "capture_overflow (check_header p t z) = capture_overflow p"
  "capture_crc_error (check_header p t z) = capture_crc_error p"
  "capture_data_error (check_header p t z) = capture_data_error p"
  "capture_duration (check_header p t z) = capture_duration p"
  "capture_fold_buf (check_header p t z) = capture_fold_buf p"
  "capture_fold_buf_ptr (check_header p t z) = capture_fold_buf_ptr p"
  "capture_fold_count (check_header p t z) = capture_fold_count p"
  "capture_saved_ts (check_header p t z) = capture_saved_ts p"
  by (simp_all add: check_header_def Let_def)

lemma header_common_fields [simp]:
  "p_opts (header_common p) = p_opts p" "p_done (header_common p) = p_done p"
  "capture_data (header_common p) = capture_data p" "capture_ls (header_common p) = capture_ls p"
  "capture_vbus (header_common p) = capture_vbus p"
  "capture_trigger_input (header_common p) = capture_trigger_input p"
  "capture_speed_in (header_common p) = capture_speed_in p"
  "capture_enabled (header_common p) = capture_enabled p"
  "capture_overflow (header_common p) = capture_overflow p"
  "capture_crc_error (header_common p) = capture_crc_error p"
  "capture_data_error (header_common p) = capture_data_error p"
  "capture_duration (header_common p) = capture_duration p"
  "capture_fold_buf (header_common p) = capture_fold_buf p"
  "capture_fold_buf_ptr (header_common p) = capture_fold_buf_ptr p"
  "capture_fold_count (header_common p) = capture_fold_count p"
  "capture_saved_ts (header_common p) = capture_saved_ts p"
  by (simp_all add: header_common_def Let_def timeout_event_def)

lemma trigger_change_fields [simp]:
  "p_opts (trigger_change p t) = p_opts p" "p_done (trigger_change p t) = p_done p"
  "capture_data (trigger_change p t) = capture_data p"
  "capture_data_ptr (trigger_change p t) = capture_data_ptr p"
  "capture_size (trigger_change p t) = capture_size p"
  "capture_header (trigger_change p t) = capture_header p"
  "capture_status (trigger_change p t) = capture_status p"
  "capture_toggle (trigger_change p t) = capture_toggle p" "capture_ls (trigger_change p t) = capture_ls p"
  "capture_vbus (trigger_change p t) = capture_vbus p"
  "capture_speed_in (trigger_change p t) = capture_speed_in p"
  "capture_ts_int (trigger_change p t) = capture_ts_int p" "capture_ts (trigger_change p t) = capture_ts p"
  "capture_overflow (trigger_change p t) = capture_overflow p"
  "capture_crc_error (trigger_change p t) = capture_crc_error p"
  "capture_data_error (trigger_change p t) = capture_data_error p"
  "capture_duration (trigger_change p t) = capture_duration p"
  "capture_fold_buf (trigger_change p t) = capture_fold_buf p"
  "capture_fold_buf_ptr (trigger_change p t) = capture_fold_buf_ptr p"
  "capture_fold_count (trigger_change p t) = capture_fold_count p"
  "capture_saved_ts (trigger_change p t) = capture_saved_ts p"
  by (simp_all add: trigger_change_def Let_def)

lemma vbus_change_fields [simp]:
  "p_opts (vbus_change p v) = p_opts p" "p_done (vbus_change p v) = p_done p"
  "capture_data (vbus_change p v) = capture_data p"
  "capture_data_ptr (vbus_change p v) = capture_data_ptr p"
  "capture_size (vbus_change p v) = capture_size p" "capture_header (vbus_change p v) = capture_header p"
  "capture_status (vbus_change p v) = capture_status p"
  "capture_toggle (vbus_change p v) = capture_toggle p" "capture_ls (vbus_change p v) = capture_ls p"
  "capture_trigger_input (vbus_change p v) = capture_trigger_input p"
  "capture_speed_in (vbus_change p v) = capture_speed_in p"
  "capture_enabled (vbus_change p v) = capture_enabled p"
  "capture_ts_int (vbus_change p v) = capture_ts_int p" "capture_ts (vbus_change p v) = capture_ts p"
  "capture_overflow (vbus_change p v) = capture_overflow p"
  "capture_crc_error (vbus_change p v) = capture_crc_error p"
  "capture_data_error (vbus_change p v) = capture_data_error p"
  "capture_duration (vbus_change p v) = capture_duration p"
  "capture_fold_buf (vbus_change p v) = capture_fold_buf p"
  "capture_fold_buf_ptr (vbus_change p v) = capture_fold_buf_ptr p"
  "capture_fold_count (vbus_change p v) = capture_fold_count p"
  "capture_saved_ts (vbus_change p v) = capture_saved_ts p"
  by (simp_all add: vbus_change_def Let_def)

lemma speed_change_fields [simp]:
  "p_opts (speed_change p s) = p_opts p" "p_done (speed_change p s) = p_done p"
  "capture_data (speed_change p s) = capture_data p"
  "capture_data_ptr (speed_change p s) = capture_data_ptr p"
  "capture_size (speed_change p s) = capture_size p" "capture_header (speed_change p s) = capture_header p"
  "capture_status (speed_change p s) = capture_status p"
  "capture_toggle (speed_change p s) = capture_toggle p" "capture_ls (speed_change p s) = capture_ls p"
  "capture_vbus (speed_change p s) = capture_vbus p"
  "capture_trigger_input (speed_change p s) = capture_trigger_input p"
  "capture_enabled (speed_change p s) = capture_enabled p"
  "capture_ts_int (speed_change p s) = capture_ts_int p" "capture_ts (speed_change p s) = capture_ts p"
  "capture_overflow (speed_change p s) = capture_overflow p"
  "capture_crc_error (speed_change p s) = capture_crc_error p"
  "capture_data_error (speed_change p s) = capture_data_error p"
  "capture_duration (speed_change p s) = capture_duration p"
  "capture_fold_buf (speed_change p s) = capture_fold_buf p"
  "capture_fold_buf_ptr (speed_change p s) = capture_fold_buf_ptr p"
  "capture_fold_count (speed_change p s) = capture_fold_count p"
  "capture_saved_ts (speed_change p s) = capture_saved_ts p"
  by (simp_all add: speed_change_def Let_def)

lemma ls_change_fields [simp]:
  "capture_data (ls_change p s) = capture_data p" "capture_data_ptr (ls_change p s) = capture_data_ptr p"
  "capture_size (ls_change p s) = capture_size p" "capture_header (ls_change p s) = capture_header p"
  "capture_status (ls_change p s) = capture_status p" "capture_toggle (ls_change p s) = capture_toggle p"
  "capture_vbus (ls_change p s) = capture_vbus p"
  "capture_trigger_input (ls_change p s) = capture_trigger_input p"
  "capture_speed_in (ls_change p s) = capture_speed_in p"
  "capture_enabled (ls_change p s) = capture_enabled p" "capture_ts_int (ls_change p s) = capture_ts_int p"
  "capture_ts (ls_change p s) = capture_ts p" "capture_overflow (ls_change p s) = capture_overflow p"
  "capture_crc_error (ls_change p s) = capture_crc_error p"
  "capture_data_error (ls_change p s) = capture_data_error p"
  "capture_duration (ls_change p s) = capture_duration p"
  by (simp_all add: ls_change_def Let_def)

lemma store_byte_fields [simp]:
  "p_opts (store_byte p b) = p_opts p" "p_done (store_byte p b) = p_done p"
  "capture_header (store_byte p b) = capture_header p" "capture_toggle (store_byte p b) = capture_toggle p"
  "capture_ls (store_byte p b) = capture_ls p" "capture_vbus (store_byte p b) = capture_vbus p"
  "capture_trigger_input (store_byte p b) = capture_trigger_input p"
  "capture_speed_in (store_byte p b) = capture_speed_in p"
  "capture_enabled (store_byte p b) = capture_enabled p"
  "capture_ts_int (store_byte p b) = capture_ts_int p" "capture_ts (store_byte p b) = capture_ts p"
  "capture_overflow (store_byte p b) = capture_overflow p"
  "capture_crc_error (store_byte p b) = capture_crc_error p"
  "capture_data_error (store_byte p b) = capture_data_error p"
  "capture_duration (store_byte p b) = capture_duration p"
  "capture_fold_buf (store_byte p b) = capture_fold_buf p"
  "capture_fold_buf_ptr (store_byte p b) = capture_fold_buf_ptr p"
  "capture_fold_count (store_byte p b) = capture_fold_count p"
  "capture_saved_ts (store_byte p b) = capture_saved_ts p"
  "p_out (store_byte p b) = p_out p" "capture_saved_ls (store_byte p b) = capture_saved_ls p"
  "capture_last_ts (store_byte p b) = capture_last_ts p"
  by (simp_all add: store_byte_def Let_def)

section \<open>The bounds invariant\<close>

text \<open>The fold buffer is used within its 256 entries and holds frames that fit the writer.\<close>

definition fold_inv :: "packet \<Rightarrow> bool" where
  "fold_inv p \<longleftrightarrow> capture_fold_buf_ptr p \<le> FOLD_BUF_SIZE
     \<and> (\<forall>i < capture_fold_buf_ptr p. fr_size (capture_fold_buf p i) \<le> 1273)
     \<and> (\<forall>c \<in> set (p_out p). call_ok c)"

text \<open>The frame assembler between two bytes: at a frame start, inside a header or inside a payload.\<close>

definition asm_inv :: "packet \<Rightarrow> bool" where
  "asm_inv p \<longleftrightarrow>
     (if capture_header p then capture_data_ptr p = 0 \<or> (capture_data_ptr p < capture_size p \<and> capture_size p \<le> 7)
      else capture_data_ptr p < capture_size p \<and> capture_size p \<le> 1273)"

definition packet_inv :: "packet \<Rightarrow> bool" where
  "packet_inv p \<longleftrightarrow> fold_inv p \<and> asm_inv p"

named_theorems fold_inv_intros

lemma ls_calls_ok: "c \<in> set (ls_calls p) \<Longrightarrow> call_ok c"
  by (auto simp: ls_calls_def split: if_splits)

lemma fold_inv_info [fold_inv_intros]: "fold_inv p \<Longrightarrow> fold_inv (capture_info p ts s)"
  by (auto simp: fold_inv_def capture_info_closed dest: ls_calls_ok)

lemma fold_inv_line_state [fold_inv_intros]: "fold_inv p \<Longrightarrow> fold_inv (line_state_event p)"
  by (auto simp: fold_inv_def line_state_event_closed dest: ls_calls_ok)

lemma fold_inv_write [fold_inv_intros]: "fold_inv p \<Longrightarrow> n \<le> 1280 \<Longrightarrow> fold_inv (write_packet p ts d n)"
  by (auto simp: fold_inv_def write_packet_def put_call_def)

lemma fold_inv_cong:
  "fold_inv p \<Longrightarrow> capture_fold_buf_ptr q \<le> capture_fold_buf_ptr p \<Longrightarrow> capture_fold_buf q = capture_fold_buf p \<Longrightarrow>
     p_out q = p_out p \<Longrightarrow> fold_inv q"
  by (auto simp: fold_inv_def)

text \<open>While \<open>stop_folding\<close> replays the buffer its pointer is 0 already; the sizes are kept aside.\<close>

lemma fold_inv_unfolds:
  "fold_inv p \<Longrightarrow> \<forall>i \<in> set is. fr_size (capture_fold_buf p i) \<le> 1273 \<Longrightarrow> fold_inv (foldl unfold_frame p is)"
proof (induction "is" arbitrary: p)
  case (Cons i "is")
  have "capture_fold_buf (unfold_frame p i) = capture_fold_buf p"
    using quiet_unfold_frame [of p i, THEN arg_cong, of capture_fold_buf] by simp
  moreover have "fold_inv (unfold_frame p i)"
    using Cons.prems by (auto simp: unfold_frame_def Let_def write_keepalive_def intro!: fold_inv_intros)
  ultimately show ?case using Cons by simp
qed simp

lemma fold_inv_stop [fold_inv_intros]: "fold_inv p \<Longrightarrow> fold_inv (stop_folding p)"
proof -
  assume p: "fold_inv p"
  let ?q = "p\<lparr>capture_fold_count := 0, capture_fold_buf_ptr := 0\<rparr>"
  have "fold_inv (foldl unfold_frame ?q [0..<capture_fold_buf_ptr p])"
    using p by (intro fold_inv_unfolds) (auto simp: fold_inv_def)
  with p show ?thesis by (auto simp: stop_folding_def Let_def intro: fold_inv_intros)
qed

lemma fold_inv_fold_packet [fold_inv_intros]:
  "fold_inv p \<Longrightarrow> capture_fold_buf_ptr p < FOLD_BUF_SIZE \<Longrightarrow> n \<le> 1273 \<Longrightarrow> fold_inv (fold_packet p ts d n)"
  by (auto simp: fold_inv_def fold_packet_def Let_def)

lemma fold_inv_fold_keepalive [fold_inv_intros]:
  "fold_inv p \<Longrightarrow> capture_fold_buf_ptr p < FOLD_BUF_SIZE \<Longrightarrow> 0 \<le> delta \<Longrightarrow> fold_inv (fold_keepalive p ts delta)"
  by (auto simp: fold_inv_def fold_keepalive_def Let_def)

lemma next_empty_frame_ptr [simp]: "capture_fold_buf_ptr (next_empty_frame p limit) = 0"
  by (simp add: next_empty_frame_def Let_def)

lemma fold_inv_next [fold_inv_intros]: "fold_inv p \<Longrightarrow> fold_inv (next_empty_frame p limit)"
proof -
  assume "fold_inv p"
  then have "fold_inv (p\<lparr>capture_fold_count := capture_fold_count p + 1, capture_fold_buf_ptr := 0\<rparr>)"
    by (rule fold_inv_cong) simp_all
  then show ?thesis by (auto simp: next_empty_frame_def Let_def intro: fold_inv_intros)
qed

lemma fold_inv_limit [fold_inv_intros]: "fold_inv p \<Longrightarrow> fold_inv (check_capture_limit p)"
proof -
  assume "fold_inv p"
  then have "fold_inv (p\<lparr>p_opts := (p_opts p)\<lparr>capture_limit := l\<rparr>\<rparr>)" for l
    by (rule fold_inv_cong) simp_all
  moreover have "fold_inv q \<Longrightarrow> fold_inv (q\<lparr>p_done := b\<rparr>)" for q b
    by (erule fold_inv_cong) simp_all
  ultimately show ?thesis by (simp add: check_capture_limit_def Let_def fold_inv_intros)
qed

lemma fold_inv_keepalive [fold_inv_intros]:
  "fold_inv p \<Longrightarrow> 0 \<le> delta \<Longrightarrow> fold_inv (keepalive_event p ts delta)"
  by (auto simp: keepalive_event_def write_keepalive_def FOLD_BUF_SIZE_def intro!: fold_inv_intros)

lemma fold_inv_data_store [fold_inv_intros]:
  assumes "fold_inv p" and "capture_fold_buf_ptr p < FOLD_BUF_SIZE" and "capture_size p \<le> 1273"
  shows "fold_inv (data_store p)"
  using assms by (auto simp: data_store_def Let_def FOLD_BUF_SIZE_def intro!: fold_inv_intros)

lemma fold_inv_data_reports:
  assumes "fold_inv p"
  shows "fold_inv (data_reports p)" and "capture_fold_buf_ptr (data_reports p) < FOLD_BUF_SIZE"
proof -
  have "capture_fold_buf_ptr p \<noteq> FOLD_BUF_SIZE \<Longrightarrow> capture_fold_buf_ptr p < FOLD_BUF_SIZE"
    using assms by (simp add: fold_inv_def)
  then show "capture_fold_buf_ptr (data_reports p) < FOLD_BUF_SIZE"
    by (simp add: data_reports_def Let_def FOLD_BUF_SIZE_def)
  show "fold_inv (data_reports p)"
    using assms by (simp add: data_reports_def Let_def fold_inv_intros)
qed

lemma fold_inv_data_event [fold_inv_intros]:
  assumes "fold_inv p" and "capture_size p \<le> 1273"
  shows "fold_inv (data_event p)"
  using assms fold_inv_data_reports [of p] by (simp add: data_event_def fold_inv_limit fold_inv_data_store)

lemma fold_inv_status [fold_inv_intros]: "fold_inv p \<Longrightarrow> fold_inv (status_event p ls vbus trigger speed)"
proof -
  assume p: "fold_inv p"
  have cong: "fold_inv q \<Longrightarrow> fold_inv (q\<lparr>capture_enabled := e, capture_trigger_input := t\<rparr>)"
    "fold_inv q \<Longrightarrow> fold_inv (q\<lparr>capture_vbus := v\<rparr>)" "fold_inv q \<Longrightarrow> fold_inv (q\<lparr>capture_speed_in := s\<rparr>)"
    "fold_inv q \<Longrightarrow> fold_inv (q\<lparr>capture_ls := s\<rparr>)" "fold_inv q \<Longrightarrow> fold_inv (q\<lparr>capture_ls := s, capture_saved_ls := v\<rparr>)"
    "fold_inv q \<Longrightarrow> fold_inv (q\<lparr>capture_saved_ls := s, capture_saved_ts := u\<rparr>)" for q e t v s u
    by (erule fold_inv_cong; simp)+
  have "fold_inv (trigger_change p trigger)"
    using p by (auto simp: trigger_change_def Let_def intro!: fold_inv_intros cong)
  then have "fold_inv (vbus_change (trigger_change p trigger) vbus)"
    by (auto simp: vbus_change_def Let_def intro!: fold_inv_intros cong)
  then have "fold_inv (speed_change (vbus_change (trigger_change p trigger) vbus) speed)"
    by (auto simp: speed_change_def Let_def intro!: fold_inv_intros cong)
  then show ?thesis
    by (auto simp: status_event_def ls_change_def Let_def MIN_KEEPALIVE_DURATION_def intro!: fold_inv_intros cong)
qed

lemma fold_inv_desync [fold_inv_intros]: "fold_inv p \<Longrightarrow> fold_inv (desync_error p)"
proof -
  assume "fold_inv p"
  then have "fold_inv (capture_info (capture_info p ts s) ts' s')" for ts s ts' s' by (intro fold_inv_info)
  then show ?thesis unfolding desync_error_def Let_def by (rule fold_inv_cong) simp_all
qed

lemma fold_inv_header_common [fold_inv_intros]: "fold_inv p \<Longrightarrow> fold_inv (header_common p)"
proof -
  assume p: "fold_inv p"
  have c: "fold_inv (check_header p t z)" for t z
    using p by (auto simp: check_header_def Let_def intro!: fold_inv_intros)
  have cong: "fold_inv q \<Longrightarrow> fold_inv (q\<lparr>capture_ts := t, capture_toggle := g\<rparr>)"
    "fold_inv q \<Longrightarrow> fold_inv (q\<lparr>capture_ts_int := i, capture_ts := t, capture_toggle := g\<rparr>)" for q i t g
    by (erule fold_inv_cong; simp)+
  show ?thesis
    using c by (auto simp: header_common_def Let_def timeout_event_def intro!: fold_inv_intros cong)
qed

lemma header_common_header [simp]: "capture_header p \<Longrightarrow> capture_header (header_common p)"
  by (simp add: header_common_def Let_def timeout_event_def check_header_def desync_error_def)

lemma status_event_fields [simp]:
  "capture_header (status_event p ls vbus trigger speed) = capture_header p"
  "capture_data_ptr (status_event p ls vbus trigger speed) = capture_data_ptr p"
  by (simp_all add: status_event_def)

lemma header_done_inv:
  assumes "fold_inv p" and "capture_header p"
  shows "packet_inv (header_done p)"
proof -
  let ?p = "header_common p" and ?n = "header_size (capture_data (header_common p))"
  have q: "fold_inv ?p" using assms(1) by (rule fold_inv_header_common)
  have ptr: "fold_inv r \<Longrightarrow> fold_inv (r\<lparr>capture_data_ptr := n\<rparr>)" for r n
    by (erule fold_inv_cong) simp_all
  have st: "fold_inv (status_event ?p a b c d)" for a b c d using q by (rule fold_inv_status)
  show ?thesis
  proof (cases "capture_status ?p")
    case True
    then show ?thesis
      using ptr [OF st] assms(2) by (simp add: header_done_def Let_def packet_inv_def asm_inv_def)
  next
    case data: False
    show ?thesis
    proof (cases "?n < DATA_HEADER_SIZE \<or> MAX_DATA_SIZE < ?n")
      case True
      then have "header_done p = desync_error (capture_info ?p (capture_ts ?p)
          (''Error: invalid data size ('' @ dec_nat ?n @ '')''))"
        using data by (auto simp: header_done_def Let_def check_data_size_def)
      moreover have "fold_inv \<dots>" using q by (intro fold_inv_desync fold_inv_info)
      ultimately show ?thesis by (simp add: packet_inv_def asm_inv_def desync_error_def Let_def)
    next
      case False
      have "fold_inv (header_done p)"
        using q by (rule fold_inv_cong) (use data False in \<open>simp_all add: header_done_def Let_def\<close>)
      with data False show ?thesis
        by (auto simp: header_done_def Let_def packet_inv_def asm_inv_def DATA_HEADER_SIZE_def MAX_DATA_SIZE_def)
    qed
  qed
qed

lemma store_byte_inv:
  assumes "packet_inv p"
  shows "fold_inv (store_byte p b)"
    and "capture_size (store_byte p b) \<le> (if capture_header (store_byte p b) then 7 else 1273)"
proof -
  show "fold_inv (store_byte p b)" using assms unfolding packet_inv_def store_byte_def Let_def
    by (elim conjE fold_inv_cong) simp_all
  show "capture_size (store_byte p b) \<le> (if capture_header (store_byte p b) then 7 else 1273)"
    using assms by (auto simp: store_byte_def Let_def packet_inv_def asm_inv_def DATA_HEADER_SIZE_def STATUS_HEADER_SIZE_def
        split: if_splits)
qed

lemma capture_sm_inv:
  assumes "packet_inv p"
  shows "packet_inv (capture_sm p b)"
proof -
  let ?q = "store_byte p b"
  note fq = store_byte_inv(1) [OF assms, of b] and sz = store_byte_inv(2) [OF assms, of b]
  have "fold_inv (data_event (?q\<lparr>capture_header := True\<rparr>))" if "\<not> capture_header ?q"
    using sz that fq by (intro fold_inv_data_event) (auto intro: fold_inv_cong)
  then have "\<not> capture_header ?q \<Longrightarrow> packet_inv ((data_event (?q\<lparr>capture_header := True\<rparr>))\<lparr>capture_data_ptr := 0\<rparr>)"
    by (auto simp: packet_inv_def asm_inv_def intro: fold_inv_cong)
  moreover have "capture_data_ptr ?q < capture_size ?q \<Longrightarrow> packet_inv ?q"
    using fq sz by (auto simp: packet_inv_def asm_inv_def split: if_splits)
  moreover have "capture_header ?q \<Longrightarrow> packet_inv (header_done ?q)" using fq by (rule header_done_inv)
  ultimately show ?thesis by (simp add: capture_sm_def Let_def)
qed

lemma feed_loop_inv: "packet_inv p \<Longrightarrow> packet_inv (feed_loop p bs)"
  by (induction p bs rule: feed_loop.induct) (simp_all add: Let_def capture_sm_inv)

lemma packet_new_inv: "(\<forall>c \<in> set out. call_ok c) \<Longrightarrow> packet_inv (packet_new opts out)"
  by (simp add: packet_new_def packet_start_def packet_zero_def packet_inv_def fold_inv_def asm_inv_def)

lemma packet_inv_info: "packet_inv p \<Longrightarrow> packet_inv (capture_info p ts s)"
  by (simp add: packet_inv_def fold_inv_info asm_inv_def)

lemma packet_inv_announce: "packet_inv p \<Longrightarrow> packet_inv (packet_announce p)"
  by (auto simp: packet_announce_def Let_def capture_info_closed put_call_def packet_inv_def fold_inv_def asm_inv_def dest: ls_calls_ok)

section \<open>Properties\<close>

text \<open>
  C11. Memory safety of the frame parser: whatever bytes the device sends, between two bytes
  the assembly index lies inside \<open>capture_data[2048]\<close>, the fold buffer index inside
  \<open>capture_fold_buf[256]\<close>, and every call on the pcapng writer so far has a size for which its
  4096-byte block buffer suffices. Session messages keep this too.
\<close>

theorem packet_feed_safe:
  assumes "packet_inv p"
  shows "packet_inv (packet_feed p data) \<and> packet_inv (packet_rsync p) \<and> packet_inv (packet_info p msg)
    \<and> packet_inv (packet_stop_info p msg) \<and> packet_inv (packet_announce p)
    \<and> capture_data_ptr (packet_feed p data) < DATA_BUF_SIZE
    \<and> capture_fold_buf_ptr (packet_feed p data) \<le> FOLD_BUF_SIZE
    \<and> (\<forall>c \<in> set (p_out (packet_feed p data)). call_ok c)"
proof -
  have f: "packet_inv (packet_feed p data)" using assms by (simp add: packet_feed_def feed_loop_inv)
  then have "capture_data_ptr (packet_feed p data) < DATA_BUF_SIZE"
    by (auto simp: packet_inv_def asm_inv_def DATA_BUF_SIZE_def split: if_splits)
  moreover have "packet_inv (packet_announce p)" using assms by (rule packet_inv_announce)
  ultimately show ?thesis using assms f
    by (simp add: packet_rsync_def packet_info_def packet_stop_info_def packet_inv_info)
      (simp add: packet_inv_def fold_inv_def)
qed

theorem packet_feed_safe_witness:
  "capture_data_ptr (packet_feed (packet_new \<lparr>fold_empty = True, exclude_line_state = False, capture_speed = 3,
      capture_trigger_mode = CaptureTrigger_Disabled, capture_limit = -1\<rparr> []) [0x80, 1, 2]) < DATA_BUF_SIZE"
  using packet_feed_safe [OF packet_new_inv] by simp

end
