(* ===== verification/Packet_Time.thy ===== *)
theory Packet_Time
  imports Packet_Bounds
begin

text \<open>
  Order of the timestamps in the output. Frames are folded and replayed late, line states are
  reported when the next one arrives, so records are not written when they happen; \<open>time_ok\<close> is the
  invariant that nevertheless keeps the written timestamps in ascending order.
\<close>

section \<open>Definitions\<close>

fun call_ts :: "pcap_call \<Rightarrow> u64 list" where
  "call_ts (WriteEpb ts d) = [ts]"
| "call_ts (WriteInfo ts s) = [ts]"
| "call_ts FlushCall = []"

definition out_ts :: "packet \<Rightarrow> u64 list" where
  "out_ts p = concat (map call_ts (p_out p))"

definition time_ok :: "packet \<Rightarrow> bool" where
  "time_ok p \<longleftrightarrow> sorted (out_ts p) \<and> (\<forall>t \<in> set (out_ts p). t \<le> capture_last_ts p)
     \<and> capture_last_ts p \<le> capture_ts p \<and> capture_saved_ts p \<le> capture_ts p
     \<and> (capture_saved_ls p \<noteq> LS_INVALID \<longrightarrow> capture_last_ts p \<le> capture_saved_ts p)
     \<and> (\<forall>i < capture_fold_buf_ptr p. fr_ts (capture_fold_buf p i) \<le> capture_ts p)"

section \<open>Every operation keeps the order\<close>

named_theorems time_intros

lemma out_ts_simps:
  "p_out q = p_out p @ cs \<Longrightarrow> out_ts q = out_ts p @ concat (map call_ts cs)"
  by (simp add: out_ts_def)

lemma time_info:
  assumes "time_ok p" and "capture_last_ts p \<le> ts" and "ts \<le> capture_ts p"
    and "capture_saved_ls p \<noteq> LS_INVALID \<longrightarrow> capture_saved_ts p \<le> ts"
  shows "time_ok (capture_info p ts s)"
proof -
  have "out_ts (capture_info p ts s) = out_ts p @ concat (map call_ts (ls_calls p @ [WriteInfo ts (take 511 s)]))"
    by (rule out_ts_simps) (simp add: capture_info_closed)
  moreover have "capture_saved_ls (capture_info p ts s) = LS_INVALID" "capture_last_ts (capture_info p ts s) = ts"
    by (simp_all add: capture_info_closed)
  ultimately show ?thesis
    using assms by (auto simp: time_ok_def ls_calls_def sorted_append)
qed

lemma time_info_now [time_intros]: "time_ok p \<Longrightarrow> time_ok (capture_info p (capture_ts p) s)"
  by (rule time_info) (auto simp: time_ok_def)

lemma time_now: "time_ok q \<Longrightarrow> capture_ts q = t \<Longrightarrow> time_ok (capture_info q t s)"
  using time_info_now by metis

lemma time_line_state [time_intros]: "time_ok p \<Longrightarrow> time_ok (line_state_event p)"
proof -
  assume p: "time_ok p"
  have "out_ts (line_state_event p) = out_ts p @ concat (map call_ts (ls_calls p))"
    by (rule out_ts_simps) (simp add: line_state_event_closed)
  moreover have "capture_saved_ls (line_state_event p) = LS_INVALID"
    "capture_last_ts (line_state_event p) = (if ls_calls p = [] then capture_last_ts p else capture_saved_ts p)"
    by (simp_all add: line_state_event_closed)
  ultimately show ?thesis
    using p by (auto simp: time_ok_def ls_calls_def sorted_append)
qed

text \<open>Data blocks are only written after the line state was flushed.\<close>

lemma time_write:
  assumes "time_ok p" and "capture_saved_ls p = LS_INVALID" and "capture_last_ts p \<le> ts" and "ts \<le> capture_ts p"
  shows "time_ok (write_packet p ts d n)"
proof -
  have "out_ts (write_packet p ts d n) = out_ts p @ [ts]"
    by (simp add: out_ts_def write_packet_def put_call_def)
  moreover have "capture_saved_ls (write_packet p ts d n) = LS_INVALID" "capture_last_ts (write_packet p ts d n) = ts"
    using assms by (simp_all add: write_packet_def put_call_def)
  ultimately show ?thesis using assms by (auto simp: time_ok_def sorted_append)
qed

lemma time_cong:
  "time_ok p \<Longrightarrow> p_out q = p_out p \<Longrightarrow> capture_last_ts q = capture_last_ts p \<Longrightarrow> capture_ts q = capture_ts p \<Longrightarrow>
     capture_saved_ts q = capture_saved_ts p \<Longrightarrow> capture_saved_ls q = capture_saved_ls p \<or> capture_saved_ls q = LS_INVALID \<Longrightarrow>
     capture_fold_buf_ptr q \<le> capture_fold_buf_ptr p \<Longrightarrow> capture_fold_buf q = capture_fold_buf p \<Longrightarrow> time_ok q"
  by (auto simp: time_ok_def out_ts_def)

abbreviation ls_idle :: "packet \<Rightarrow> bool" where
  "ls_idle p \<equiv> capture_saved_ls p = LS_INVALID"

lemma idle_simps [simp]:
  "ls_idle (capture_info p ts s)" "ls_idle (line_state_event p)"
  "capture_saved_ls (write_packet p ts d n) = capture_saved_ls p"
  "capture_saved_ls (fold_packet p ts d n) = capture_saved_ls p"
  "capture_saved_ls (fold_keepalive p ts delta) = capture_saved_ls p"
  by (simp_all add: capture_info_closed line_state_event_closed write_packet_def put_call_def fold_packet_def
      fold_keepalive_def Let_def)

lemma time_unfolds:
  "time_ok p \<Longrightarrow> ls_idle p \<Longrightarrow> \<forall>i \<in> set is. fr_ts (capture_fold_buf p i) \<le> capture_ts p \<Longrightarrow>
     time_ok (foldl unfold_frame p is) \<and> ls_idle (foldl unfold_frame p is)"
proof (induction "is" arbitrary: p)
  case (Cons i "is")
  let ?q = "unfold_frame p i"
  have f: "capture_fold_buf ?q = capture_fold_buf p" "capture_ts ?q = capture_ts p"
    using quiet_unfold_frame [of p i, THEN arg_cong, of capture_fold_buf]
      quiet_unfold_frame [of p i, THEN arg_cong, of capture_ts] by simp_all
  have "capture_last_ts p \<le> capture_ts p" using Cons.prems(1) by (simp add: time_ok_def)
  then have "time_ok ?q" using Cons.prems
    by (auto simp: unfold_frame_def Let_def write_keepalive_def intro!: time_info time_write)
  moreover have "ls_idle ?q" using Cons.prems(2) by (simp add: unfold_frame_def Let_def write_keepalive_def)
  ultimately show ?case using Cons.IH [of ?q] Cons.prems(3) f by simp
qed simp

lemma time_stop:
  assumes "time_ok p" and "ls_idle p"
  shows "time_ok (stop_folding p)" and "ls_idle (stop_folding p)"
proof -
  let ?q = "p\<lparr>capture_fold_count := 0, capture_fold_buf_ptr := 0\<rparr>"
  let ?r = "foldl unfold_frame ?q [0..<capture_fold_buf_ptr p]"
  have "time_ok ?q" using assms(1) by (rule time_cong) simp_all
  then have "time_ok ?r \<and> ls_idle ?r"
    using assms by (intro time_unfolds) (simp_all add: time_ok_def)
  then show "time_ok (stop_folding p)" "ls_idle (stop_folding p)"
    using assms by (auto simp: stop_folding_def Let_def intro: time_intros)
qed

lemma time_next:
  assumes "time_ok p" and "ls_idle p"
  shows "time_ok (next_empty_frame p n)" and "ls_idle (next_empty_frame p n)"
proof -
  let ?q = "p\<lparr>capture_fold_count := capture_fold_count p + 1, capture_fold_buf_ptr := 0\<rparr>"
  have "time_ok ?q" "ls_idle ?q" using assms by (auto intro: time_cong)
  then show "time_ok (next_empty_frame p n)" "ls_idle (next_empty_frame p n)"
    using time_stop [of ?q] unfolding next_empty_frame_def Let_def by auto
qed

lemma time_fold:
  assumes "time_ok p" and "ts \<le> capture_ts p"
  shows "time_ok (fold_packet p ts d n)" and "time_ok (fold_keepalive p ts delta)"
  using assms by (auto simp: time_ok_def fold_packet_def fold_keepalive_def Let_def out_ts_def)

lemma time_limit [time_intros]: "time_ok p \<Longrightarrow> time_ok (check_capture_limit p)"
proof -
  assume "time_ok p"
  then have "time_ok (p\<lparr>p_opts := (p_opts p)\<lparr>capture_limit := l\<rparr>\<rparr>)" for l by (rule time_cong) simp_all
  note q = this this [THEN time_info_now]
  have "time_ok r \<Longrightarrow> time_ok (r\<lparr>p_done := b\<rparr>)" for r b by (erule time_cong) simp_all
  with q show ?thesis by (simp add: check_capture_limit_def Let_def)
qed

lemma time_keepalive:
  assumes "time_ok p" and "ls_idle p" and "capture_last_ts p \<le> ts" and "ts \<le> capture_ts p"
  shows "time_ok (keepalive_event p ts delta)"
  using assms time_next [OF assms(1,2)]
  by (auto simp: keepalive_event_def write_keepalive_def intro!: time_limit time_info time_fold)

lemma time_data_store:
  assumes "time_ok p" and "ls_idle p"
  shows "time_ok (data_store p)"
proof -
  have "time_ok q \<Longrightarrow> ls_idle q \<Longrightarrow> time_ok (write_packet q (capture_ts q) d n)" for q d n
    by (intro time_write) (auto simp: time_ok_def)
  note w = this this [OF time_stop [OF assms]] this [OF assms]
  note f = time_fold(1) [OF assms(1)] time_fold(1) [OF time_next(1) [OF assms]]
  show ?thesis using assms w f by (simp add: data_store_def Let_def)
qed

lemma time_data_reports: "time_ok p \<Longrightarrow> time_ok (data_reports p) \<and> ls_idle (data_reports p)"
  by (simp add: data_reports_def Let_def time_now time_stop time_line_state)

lemma time_data_event: "time_ok p \<Longrightarrow> time_ok (data_event p)"
  by (simp add: data_event_def time_limit time_data_store time_data_reports)

lemma time_status:
  assumes "time_ok p"
  shows "time_ok (status_event p ls vbus trigger speed)"
proof -
  have cong: "time_ok q \<Longrightarrow> time_ok (q\<lparr>capture_enabled := e, capture_trigger_input := t\<rparr>)"
    "time_ok q \<Longrightarrow> time_ok (q\<lparr>capture_vbus := v\<rparr>)" "time_ok q \<Longrightarrow> time_ok (q\<lparr>capture_speed_in := s\<rparr>)"
    "time_ok q \<Longrightarrow> time_ok (q\<lparr>capture_ls := s\<rparr>)"
    "time_ok q \<Longrightarrow> time_ok (q\<lparr>capture_ls := s, capture_saved_ls := LS_INVALID\<rparr>)" for q e t v s
    by (erule time_cong; simp)+
  have "time_ok (trigger_change p trigger)"
    using assms by (auto simp: trigger_change_def Let_def intro!: time_now cong)
  then have "time_ok (vbus_change (trigger_change p trigger) vbus)"
    by (auto simp: vbus_change_def Let_def intro!: time_now cong)
  then have q: "time_ok (speed_change (vbus_change (trigger_change p trigger) vbus) speed)" (is "time_ok ?q")
    by (auto simp: speed_change_def Let_def intro!: time_now cong)
  have save: "time_ok r \<Longrightarrow> capture_ts r = t \<Longrightarrow> time_ok (r\<lparr>capture_saved_ls := s, capture_saved_ts := t\<rparr>)" for r s t
    by (auto simp: time_ok_def out_ts_def)
  have keep: "LS_SE0 = capture_saved_ls ?q \<Longrightarrow> capture_last_ts ?q \<le> capture_saved_ts ?q \<and> capture_saved_ts ?q \<le> capture_ts ?q"
    using q by (simp add: time_ok_def LS_SE0_def LS_INVALID_def)
  show ?thesis
    unfolding status_event_def ls_change_def Let_def
    using q keep by (auto intro!: time_keepalive save time_line_state cong)
qed

lemma time_desync: "time_ok p \<Longrightarrow> time_ok (desync_error p)"
proof -
  assume "time_ok p"
  then have "time_ok (capture_info (capture_info p (capture_ts p) s) (capture_ts p) s')" for s s'
    by (intro time_now) simp_all
  then show ?thesis unfolding desync_error_def Let_def capture_info_fields by (rule time_cong) simp_all
qed

lemma time_check_header: "time_ok p \<Longrightarrow> time_ok (check_header p t z)"
proof -
  assume p: "time_ok p"
  then show ?thesis by (auto simp: check_header_def Let_def intro!: time_desync time_now)
qed

text \<open>The timestamp a header carries, given the epoch counter before it.\<close>

definition header_time :: "packet \<Rightarrow> u64" where
  "header_time p =
     (let d = capture_data p; i = (if d 0 AND 0x10 \<noteq> 0 then capture_ts_int p + 0x100000 else capture_ts_int p)
      in ((i OR header_ts d) * 100) div 6)"

lemma capture_ts_header_common: "capture_ts (header_common p) = header_time p"
  by (simp add: header_common_def header_time_def Let_def timeout_event_def)

lemma time_header_common:
  assumes "time_ok p" and "capture_ts p \<le> capture_ts (header_common p)"
  shows "time_ok (header_common p)"
proof -
  define q where "q = (let d = capture_data p; r = check_header p (flag (d 0) 0x40) (flag (d 0) 0x20);
      s = (if d 0 AND 0x10 \<noteq> 0 then r\<lparr>capture_ts_int := capture_ts_int r + 0x100000\<rparr> else r)
    in s\<lparr>capture_ts := ((capture_ts_int s OR header_ts d) * 100) div 6, capture_toggle := 1 - flag (d 0) 0x40\<rparr>)"
  have hc: "header_common p = (if sint (capture_ts q - capture_last_ts q) > UPDATE_INTERVAL then timeout_event q else q)"
    unfolding header_common_def q_def Let_def by (rule refl)
  have t: "capture_ts q = capture_ts (header_common p)" by (simp add: hc timeout_event_def)
  let ?r = "check_header p (flag (capture_data p 0) 0x40) (flag (capture_data p 0) 0x20)"
  have r: "time_ok ?r" "capture_ts ?r = capture_ts p" using assms(1) by (auto intro: time_check_header)
  have eq: "p_out q = p_out ?r" "capture_last_ts q = capture_last_ts ?r" "capture_saved_ls q = capture_saved_ls ?r"
    "capture_saved_ts q = capture_saved_ts ?r" "capture_fold_buf_ptr q = capture_fold_buf_ptr ?r"
    "capture_fold_buf q = capture_fold_buf ?r"
    by (simp_all add: q_def Let_def)
  have "capture_ts ?r \<le> capture_ts q" using assms(2) t r(2) by simp
  with r(1) have q: "time_ok q" unfolding time_ok_def out_ts_def eq by (meson order_trans)
  then show ?thesis by (auto simp: hc timeout_event_def intro: time_info_now)
qed

lemma time_header_done:
  assumes "time_ok p" and "capture_ts p \<le> capture_ts (header_done p)"
  shows "time_ok (header_done p)"
proof -
  have "capture_ts (header_done p) = capture_ts (header_common p)"
    by (simp add: header_done_def Let_def status_event_def check_data_size_def)
  with assms have q: "time_ok (header_common p)" by (intro time_header_common) simp_all
  have ptr: "time_ok r \<Longrightarrow> time_ok (r\<lparr>capture_data_ptr := n\<rparr>)" for r n
    by (erule time_cong) simp_all
  have fields: "time_ok r \<Longrightarrow> time_ok (r\<lparr>capture_size := a, capture_overflow := b, capture_crc_error := c,
      capture_data_error := d, capture_duration := e, capture_header := f, capture_data_ptr := g\<rparr>)" for r a b c d e f g
    by (erule time_cong) simp_all
  show ?thesis
    using q by (auto simp: header_done_def Let_def check_data_size_def
        intro!: ptr fields time_status time_desync time_info_now)
qed

lemma time_capture_sm:
  assumes "time_ok p" and "capture_ts p \<le> capture_ts (capture_sm p b)"
  shows "time_ok (capture_sm p b)"
proof -
  let ?q = "store_byte p b"
  have q: "time_ok ?q" using assms(1) by (rule time_cong) simp_all
  then have "time_ok (?q\<lparr>capture_header := True\<rparr>)" by (rule time_cong) simp_all
  then have "time_ok ((data_event (?q\<lparr>capture_header := True\<rparr>))\<lparr>capture_data_ptr := 0\<rparr>)"
    by (rule time_cong [OF time_data_event]) simp_all
  with q assms(2) show ?thesis by (auto simp: capture_sm_def Let_def intro: time_header_done)
qed

section \<open>Feeding in pieces\<close>

lemma feed_loop_append:
  "\<not> p_done p \<Longrightarrow> feed_loop p (a @ b) = packet_feed (feed_loop p a) b"
  by (induction a arbitrary: p) (auto simp: packet_feed_def Let_def)

lemma packet_feed_append: "packet_feed p (a @ b) = packet_feed (packet_feed p a) b"
  by (cases "p_done p") (simp_all add: packet_feed_def [of p] feed_loop_append)

lemma packet_feed_nil [simp]: "packet_feed p [] = p"
  by (simp add: packet_feed_def)

text \<open>The frame parser is a chunk consumer: payload boundaries of the blocks cannot be observed.\<close>

interpretation packet_chunks: chunk_consumer packet_inv packet_feed id
proof unfold_locales
  show "packet_inv s \<Longrightarrow> packet_inv (packet_feed s d)" for s d by (simp add: packet_feed_def feed_loop_inv)
qed (simp_all add: packet_feed_append)

text \<open>The decoded frame time before the first and after every byte.\<close>

definition frame_times :: "packet \<Rightarrow> bytes \<Rightarrow> u64 list" where
  "frame_times p bs = map (\<lambda>k. capture_ts (packet_feed p (take k bs))) [0..<Suc (length bs)]"

lemma frame_times_snoc: "frame_times p (bs @ [b]) = frame_times p bs @ [capture_ts (packet_feed p (bs @ [b]))]"
  by (simp add: frame_times_def)

lemma frame_times_last: "capture_ts (packet_feed p bs) \<in> set (frame_times p bs)"
  by (auto simp: frame_times_def)

lemma feed_time: "time_ok p \<Longrightarrow> sorted (frame_times p bs) \<Longrightarrow> time_ok (packet_feed p bs)"
proof (induction bs rule: rev_induct)
  case (snoc b bs)
  let ?q = "packet_feed p bs"
  have "time_ok ?q" using snoc by (simp add: frame_times_snoc sorted_append)
  moreover have "capture_ts ?q \<le> capture_ts (packet_feed ?q [b])"
    using snoc.prems(2) frame_times_last [of p bs] by (simp add: frame_times_snoc sorted_append packet_feed_append)
  ultimately show ?case
    by (auto simp: packet_feed_append packet_feed_def [of ?q] Let_def intro!: time_capture_sm split: if_splits)
qed simp

section \<open>Properties\<close>

text \<open>
  C12. Timestamp order of the output: if the decoded frame time never steps back while the
  bytes are fed, all records written so far carry ascending timestamps, none is later than the
  current frame time, and the invariant holds again for the next bytes. This covers replayed folded
  frames (which are clamped), late line states and keep-alives.
\<close>

theorem packet_output_sorted:
  assumes "time_ok p" and "sorted (frame_times p bs)"
  shows "time_ok (packet_feed p bs) \<and> sorted (out_ts (packet_feed p bs)) \<and>
    (\<forall>t \<in> set (out_ts (packet_feed p bs)). t \<le> capture_ts (packet_feed p bs))"
  using feed_time [OF assms] by (auto simp: time_ok_def)

lemma packet_new_time: "time_ok (packet_new opts [])"
  by (simp add: packet_new_def packet_start_def packet_zero_def time_ok_def out_ts_def)

theorem packet_output_sorted_witness:
  "out_ts (packet_feed (packet_new \<lparr>fold_empty = True, exclude_line_state = False, capture_speed = 3,
      capture_trigger_mode = CaptureTrigger_Low, capture_limit = -1\<rparr> []) [0x00, 0, 6, 0x90]) = [100, 100, 100, 100]
   \<and> sorted (out_ts (packet_feed (packet_new \<lparr>fold_empty = True, exclude_line_state = False, capture_speed = 3,
      capture_trigger_mode = CaptureTrigger_Low, capture_limit = -1\<rparr> []) [0x00, 0, 6, 0x90]))"
  (is "out_ts (packet_feed ?p ?bs) = _ \<and> _")
proof (rule conjI)
  have "frame_times ?p ?bs = [0, 0, 0, 0, 100]" by code_simp
  then have mono: "sorted (frame_times ?p ?bs)" by simp
  show "sorted (out_ts (packet_feed ?p ?bs))"
    by (rule packet_output_sorted [OF packet_new_time mono, THEN conjunct2, THEN conjunct1])
  show "out_ts (packet_feed ?p ?bs) = [100, 100, 100, 100]" by code_simp
qed

end
