(* ===== verification/Ring.thy ===== *)
theory Ring
  imports Main
begin

text \<open>
  The bounded queue that both worker threads of the program use: a fixed array with a put index, a
  get index and a count (\<open>rawq\<close> in \<open>src/main.c\<close>, the write queue of \<open>src/pcapng.c\<close>). \<open>fifo\<close> is the
  contract of such a queue; its clients only use the contract.
\<close>

section \<open>The contract\<close>

datatype 'a fifo_op = Put 'a | Get

locale fifo =
  fixes inv :: "'q \<Rightarrow> bool"
    and view :: "'q \<Rightarrow> 'a list"
    and put :: "'a \<Rightarrow> 'q \<Rightarrow> 'q"
    and front :: "'q \<Rightarrow> 'a"
    and rest :: "'q \<Rightarrow> 'q"
    and room :: nat
  assumes inv_room: "inv q \<Longrightarrow> length (view q) \<le> room"
    and inv_put: "inv q \<Longrightarrow> length (view q) < room \<Longrightarrow> inv (put x q)"
    and view_put: "inv q \<Longrightarrow> length (view q) < room \<Longrightarrow> view (put x q) = view q @ [x]"
    and inv_rest: "inv q \<Longrightarrow> view q \<noteq> [] \<Longrightarrow> inv (rest q)"
    and view_front: "inv q \<Longrightarrow> view q \<noteq> [] \<Longrightarrow> view q = front q # view (rest q)"
begin

text \<open>A history of operations, each made only when it is allowed; the outputs are collected.\<close>

primrec allowed :: "'a fifo_op \<Rightarrow> 'q \<Rightarrow> bool" where
  "allowed (Put x) q = (length (view q) < room)"
| "allowed Get q = (view q \<noteq> [])"

primrec effect :: "'a fifo_op \<Rightarrow> 'q \<times> 'a list \<Rightarrow> 'q \<times> 'a list" where
  "effect (Put x) s = (put x (fst s), snd s)"
| "effect Get s = (rest (fst s), snd s @ [front (fst s)])"

fun valid :: "'a fifo_op list \<Rightarrow> 'q \<times> 'a list \<Rightarrow> bool" where
  "valid [] s = True"
| "valid (op # ops) s = (allowed op (fst s) \<and> valid ops (effect op s))"

fun puts :: "'a fifo_op list \<Rightarrow> 'a list" where
  "puts [] = []"
| "puts (Put x # ops) = x # puts ops"
| "puts (Get # ops) = puts ops"

lemma effect_step:
  "inv (fst s) \<Longrightarrow> allowed op (fst s) \<Longrightarrow>
     inv (fst (effect op s)) \<and> snd (effect op s) @ view (fst (effect op s)) = snd s @ view (fst s) @ puts [op]"
  using view_front [of "fst s"] by (cases op) (auto simp: inv_put view_put inv_rest)

lemma puts_Cons: "puts (op # ops) = puts [op] @ puts ops"
  by (cases op) simp_all

text \<open>Nothing is lost, duplicated or reordered by any history.\<close>

lemma history:
  "inv (fst s) \<Longrightarrow> valid ops s \<Longrightarrow>
     inv (fst (fold effect ops s)) \<and>
     snd (fold effect ops s) @ view (fst (fold effect ops s)) = snd s @ view (fst s) @ puts ops"
proof (induction ops arbitrary: s)
  case (Cons op ops)
  then have "inv (fst (effect op s))" "snd (effect op s) @ view (fst (effect op s)) = snd s @ view (fst s) @ puts [op]"
    using effect_step [of s op] by auto
  with Cons show ?case by (simp add: puts_Cons [of op ops])
qed simp

end

section \<open>The ring buffer\<close>

record 'a ring =
  ring_q :: "nat \<Rightarrow> 'a"
  ring_put_at :: nat
  ring_get_at :: nat
  ring_count :: nat

definition ring_put :: "nat \<Rightarrow> 'a \<Rightarrow> 'a ring \<Rightarrow> 'a ring" where
  "ring_put n x r = r\<lparr>ring_q := (ring_q r)(ring_put_at r := x), ring_put_at := (ring_put_at r + 1) mod n,
     ring_count := ring_count r + 1\<rparr>"

definition ring_front :: "'a ring \<Rightarrow> 'a" where
  "ring_front r = ring_q r (ring_get_at r)"

definition ring_rest :: "nat \<Rightarrow> 'a ring \<Rightarrow> 'a ring" where
  "ring_rest n r = r\<lparr>ring_get_at := (ring_get_at r + 1) mod n, ring_count := ring_count r - 1\<rparr>"

definition ring_empty :: "'a \<Rightarrow> 'a ring" where
  "ring_empty z = \<lparr>ring_q = (\<lambda>_. z), ring_put_at = 0, ring_get_at = 0, ring_count = 0\<rparr>"

definition ring_view :: "nat \<Rightarrow> 'a ring \<Rightarrow> 'a list" where
  "ring_view n r = map (\<lambda>i. ring_q r ((ring_get_at r + i) mod n)) [0..<ring_count r]"

definition ring_inv :: "nat \<Rightarrow> 'a ring \<Rightarrow> bool" where
  "ring_inv n r \<longleftrightarrow> 0 < n \<and> ring_count r \<le> n \<and> ring_get_at r < n
     \<and> ring_put_at r = (ring_get_at r + ring_count r) mod n"

lemma length_ring_view [simp]: "length (ring_view n r) = ring_count r"
  by (simp add: ring_view_def)

lemma ring_put_slot:
  assumes "i < c" and "c < n"
  shows "(g + i) mod n \<noteq> (g + c) mod (n :: nat)"
proof
  assume "(g + i) mod n = (g + c) mod n"
  then have "n dvd (g + c) - (g + i)" using assms by (metis mod_eq_dvd_iff_nat add_le_cancel_left less_imp_le)
  then have "n dvd c - i" by simp
  with assms show False by (auto dest: dvd_imp_le)
qed

interpretation ring: fifo "ring_inv n" "ring_view n" "ring_put n" ring_front "ring_rest n" n
  for n :: nat
proof
  fix q :: "'a ring" and x :: 'a
  assume i: "ring_inv n q"
  show "length (ring_view n q) \<le> n" using i by (simp add: ring_inv_def)
  show "ring_inv n (ring_put n x q)" if "length (ring_view n q) < n"
    using i that by (simp add: ring_inv_def ring_put_def mod_simps)
  show "ring_view n (ring_put n x q) = ring_view n q @ [x]" if "length (ring_view n q) < n"
    using i that ring_put_slot [of _ "ring_count q" n "ring_get_at q"]
    by (auto simp: ring_view_def ring_put_def ring_inv_def)
  show "ring_inv n (ring_rest n q)" if "ring_view n q \<noteq> []"
  proof -
    have "ring_count q \<noteq> 0" using that by (auto simp: ring_view_def)
    then obtain c where "ring_count q = Suc c" by (cases "ring_count q") auto
    with i show ?thesis by (simp add: ring_inv_def ring_rest_def mod_simps)
  qed
  show "ring_view n q = ring_front q # ring_view n (ring_rest n q)" if "ring_view n q \<noteq> []"
  proof -
    have "ring_count q \<noteq> 0" using that by (auto simp: ring_view_def)
    then obtain c where c: "ring_count q = Suc c" by (cases "ring_count q") auto
    have "[0..<Suc c] = 0 # map Suc [0..<c]" by (simp add: map_Suc_upt upt_conv_Cons del: upt_Suc)
    with c i show ?thesis
      by (simp add: ring_view_def ring_rest_def ring_front_def ring_inv_def comp_def mod_simps del: upt_Suc)
  qed
qed

lemma ring_empty_facts [simp]: "ring_view n (ring_empty z) = []" "0 < n \<Longrightarrow> ring_inv n (ring_empty z)"
  by (simp_all add: ring_view_def ring_empty_def ring_inv_def)

end
