(* ===== verification/Rawq.thy ===== *)
theory Rawq
  imports Prelude Ring "HOL-Library.Multiset"
begin

text \<open>
  The raw byte queue of \<open>src/main.c\<close> that decouples the USB callback from parsing: the producer
  (\<open>rawq_push\<close>, called from the transport callback), the worker thread (\<open>rawq_thread\<close>) and
  \<open>rawq_stop\<close>. A step of a thread is one critical section or the work between two of them, and steps
  interleave freely. The 32 preallocated buffers are addresses into a memory \<open>rq_mem\<close>, so that a
  buffer used by two owners at a time would be visible. A sleeping thread continues only when it
  is signalled or, as POSIX allows, spuriously. \<open>rq_data\<close> and \<open>rq_todo\<close> are the rest of the current
  \<open>rawq_push\<close> call and the later calls; \<open>rq_fed\<close> lists the arguments of \<open>stream_feed\<close>;
  \<open>rq_lost\<close> collects what an aborted push drops.
\<close>

section \<open>Definitions\<close>

definition RAWQ_CHUNK :: nat where "RAWQ_CHUNK = 256 * 1024"
definition RAWQ_SLOTS :: nat where "RAWQ_SLOTS = 32"

datatype prod_pc = PReady | PWait | PHave nat | PCopied nat nat
datatype cons_pc = CReady | CWait | CFeed nat nat | CReturn nat | CDone

text \<open>\<open>rq_free\<close> is the stack \<open>free_bufs\<close> with its top first.\<close>

record rawq =
  rq_mem :: "nat \<Rightarrow> bytes"
  rq_q :: "(nat \<times> nat) ring"
  rq_free :: "nat list"
  rq_stop :: bool
  rq_prod :: prod_pc
  rq_cons :: cons_pc
  rq_data :: bytes
  rq_todo :: "bytes list"
  rq_fed :: "bytes list"
  rq_lost :: bytes

definition rawq_init :: "bytes list \<Rightarrow> rawq" where
  "rawq_init input =
     \<lparr>rq_mem = (\<lambda>_. replicate RAWQ_CHUNK 0), rq_q = ring_empty (0, 0), rq_free = rev [0..<RAWQ_SLOTS], rq_stop = False,
      rq_prod = PReady, rq_cons = CReady, rq_data = [], rq_todo = input, rq_fed = [], rq_lost = []\<rparr>"

text \<open>\<open>pthread_cond_signal\<close> on the two condition variables, each with one possible waiter.\<close>

definition signal_nonempty :: "rawq \<Rightarrow> rawq" where
  "signal_nonempty r = (if rq_cons r = CWait then r\<lparr>rq_cons := CReady\<rparr> else r)"

definition signal_nonfull :: "rawq \<Rightarrow> rawq" where
  "signal_nonfull r = (if rq_prod r = PWait then r\<lparr>rq_prod := PReady\<rparr> else r)"

definition rawq_thread :: "rawq \<Rightarrow> rawq option" where
  "rawq_thread r =
     (case rq_cons r of
        CReady \<Rightarrow>
          if ring_count (rq_q r) = 0 \<and> \<not> rq_stop r then Some (r\<lparr>rq_cons := CWait\<rparr>)
          else if ring_count (rq_q r) = 0 then Some (r\<lparr>rq_cons := CDone\<rparr>)
          else let it = ring_front (rq_q r)
               in Some (signal_nonfull (r\<lparr>rq_q := ring_rest RAWQ_SLOTS (rq_q r), rq_cons := CFeed (fst it) (snd it)\<rparr>))
      | CFeed b n \<Rightarrow> Some (r\<lparr>rq_fed := rq_fed r @ [take n (rq_mem r b)], rq_cons := CReturn b\<rparr>)
      | CReturn b \<Rightarrow> Some (r\<lparr>rq_free := b # rq_free r, rq_cons := CReady\<rparr>)
      | CWait \<Rightarrow> None
      | CDone \<Rightarrow> None)"

definition rawq_push :: "rawq \<Rightarrow> rawq option" where
  "rawq_push r =
     (case rq_prod r of
        PReady \<Rightarrow>
          if rq_data r = [] then (case rq_todo r of [] \<Rightarrow> None | d # ds \<Rightarrow> Some (r\<lparr>rq_data := d, rq_todo := ds\<rparr>))
          else if rq_free r = [] \<and> \<not> rq_stop r then Some (r\<lparr>rq_prod := PWait\<rparr>)
          else if rq_stop r \<or> rq_free r = [] then Some (r\<lparr>rq_lost := rq_lost r @ rq_data r, rq_data := []\<rparr>)
          else Some (r\<lparr>rq_free := tl (rq_free r), rq_prod := PHave (hd (rq_free r))\<rparr>)
      | PHave b \<Rightarrow>
          let n = min (length (rq_data r)) RAWQ_CHUNK
          in Some (r\<lparr>rq_mem := (rq_mem r)(b := mem_put 0 (take n (rq_data r)) (rq_mem r b)), rq_prod := PCopied b n\<rparr>)
      | PCopied b n \<Rightarrow>
          Some (signal_nonempty (r\<lparr>rq_q := ring_put RAWQ_SLOTS (b, n) (rq_q r), rq_data := drop n (rq_data r),
            rq_prod := PReady\<rparr>))
      | PWait \<Rightarrow> None)"

definition rawq_stop :: "rawq \<Rightarrow> rawq" where
  "rawq_stop r = signal_nonfull (signal_nonempty (r\<lparr>rq_stop := True\<rparr>))"

inductive rawq_step :: "rawq \<Rightarrow> rawq \<Rightarrow> bool" where
  worker: "rawq_thread r = Some r' \<Longrightarrow> rawq_step r r'"
| producer: "rawq_push r = Some r' \<Longrightarrow> rawq_step r r'"
| stop: "rawq_step r (rawq_stop r)"
| spurious_nonempty: "rawq_step r (signal_nonempty r)"
| spurious_nonfull: "rawq_step r (signal_nonfull r)"

inductive rawq_reach :: "bytes list \<Rightarrow> rawq \<Rightarrow> bool" for input where
  init: "rawq_reach input (rawq_init input)"
| step: "rawq_reach input r \<Longrightarrow> rawq_step r r' \<Longrightarrow> rawq_reach input r'"

inductive_cases rawq_stepE: "rawq_step r r'"

section \<open>Invariant\<close>

fun prod_bufs :: "prod_pc \<Rightarrow> nat list" where
  "prod_bufs (PHave b) = [b]"
| "prod_bufs (PCopied b n) = [b]"
| "prod_bufs _ = []"

fun cons_bufs :: "cons_pc \<Rightarrow> nat list" where
  "cons_bufs (CFeed b n) = [b]"
| "cons_bufs (CReturn b) = [b]"
| "cons_bufs _ = []"

abbreviation rq_items :: "rawq \<Rightarrow> (nat \<times> nat) list" where
  "rq_items r \<equiv> ring_view RAWQ_SLOTS (rq_q r)"

definition all_bufs :: "rawq \<Rightarrow> nat list" where
  "all_bufs r = rq_free r @ map fst (rq_items r) @ prod_bufs (rq_prod r) @ cons_bufs (rq_cons r)"

definition item_bytes :: "(nat \<Rightarrow> bytes) \<Rightarrow> nat \<times> nat \<Rightarrow> bytes" where
  "item_bytes m it = take (snd it) (m (fst it))"

fun in_flight :: "(nat \<Rightarrow> bytes) \<Rightarrow> cons_pc \<Rightarrow> bytes" where
  "in_flight m (CFeed b n) = item_bytes m (b, n)"
| "in_flight m _ = []"

text \<open>Everything pushed, in the order it was pushed, wherever it is now.\<close>

definition rq_trace :: "rawq \<Rightarrow> bytes" where
  "rq_trace r = concat (rq_fed r) @ in_flight (rq_mem r) (rq_cons r) @ concat (map (item_bytes (rq_mem r)) (rq_items r))
     @ rq_lost r @ rq_data r @ concat (rq_todo r)"

definition prod_ok :: "rawq \<Rightarrow> bool" where
  "prod_ok r \<longleftrightarrow>
     (case rq_prod r of
        PReady \<Rightarrow> True
      | PWait \<Rightarrow> RAWQ_SLOTS - 1 \<le> ring_count (rq_q r) \<and> \<not> rq_stop r \<and> rq_data r \<noteq> []
      | PHave b \<Rightarrow> rq_data r \<noteq> []
      | PCopied b n \<Rightarrow> rq_data r \<noteq> [] \<and> n = min (length (rq_data r)) RAWQ_CHUNK \<and> take n (rq_mem r b) = take n (rq_data r))
     \<and> (rq_lost r \<noteq> [] \<longrightarrow> rq_stop r \<and> rq_prod r = PReady)"

definition cons_ok :: "rawq \<Rightarrow> bool" where
  "cons_ok r \<longleftrightarrow>
     (case rq_cons r of
        CWait \<Rightarrow> ring_count (rq_q r) = 0 \<and> \<not> rq_stop r
      | CDone \<Rightarrow> rq_stop r
      | _ \<Rightarrow> True)"

text \<open>Every buffer has exactly one owner.\<close>

definition bufs_ok :: "rawq \<Rightarrow> bool" where
  "bufs_ok r \<longleftrightarrow> ring_inv RAWQ_SLOTS (rq_q r) \<and> mset (all_bufs r) = mset [0..<RAWQ_SLOTS]"

definition rawq_inv :: "bytes list \<Rightarrow> rawq \<Rightarrow> bool" where
  "rawq_inv input r \<longleftrightarrow> bufs_ok r \<and> prod_ok r \<and> cons_ok r \<and> rq_trace r = concat input"

lemma signal_fields [simp]:
  "rq_mem (signal_nonempty r) = rq_mem r" "rq_q (signal_nonempty r) = rq_q r" "rq_free (signal_nonempty r) = rq_free r"
  "rq_stop (signal_nonempty r) = rq_stop r" "rq_prod (signal_nonempty r) = rq_prod r" "rq_data (signal_nonempty r) = rq_data r"
  "rq_todo (signal_nonempty r) = rq_todo r" "rq_fed (signal_nonempty r) = rq_fed r" "rq_lost (signal_nonempty r) = rq_lost r"
  "rq_mem (signal_nonfull r) = rq_mem r" "rq_q (signal_nonfull r) = rq_q r" "rq_free (signal_nonfull r) = rq_free r"
  "rq_stop (signal_nonfull r) = rq_stop r" "rq_cons (signal_nonfull r) = rq_cons r" "rq_data (signal_nonfull r) = rq_data r"
  "rq_todo (signal_nonfull r) = rq_todo r" "rq_fed (signal_nonfull r) = rq_fed r" "rq_lost (signal_nonfull r) = rq_lost r"
  by (simp_all add: signal_nonempty_def signal_nonfull_def)

lemma signal_pcs:
  "rq_cons (signal_nonempty r) = (if rq_cons r = CWait then CReady else rq_cons r)"
  "rq_prod (signal_nonfull r) = (if rq_prod r = PWait then PReady else rq_prod r)"
  by (simp_all add: signal_nonempty_def signal_nonfull_def)

lemma signal_keeps [simp]:
  "bufs_ok (signal_nonempty r) = bufs_ok r" "bufs_ok (signal_nonfull r) = bufs_ok r"
  "rq_trace (signal_nonempty r) = rq_trace r" "rq_trace (signal_nonfull r) = rq_trace r"
  "prod_ok (signal_nonempty r) = prod_ok r" "cons_ok (signal_nonfull r) = cons_ok r"
  by (auto simp: bufs_ok_def all_bufs_def rq_trace_def prod_ok_def cons_ok_def signal_pcs
      split: prod_pc.splits cons_pc.splits)

lemma signal_ok: "prod_ok r \<Longrightarrow> prod_ok (signal_nonfull r)" "cons_ok r \<Longrightarrow> cons_ok (signal_nonempty r)"
  by (auto simp: prod_ok_def cons_ok_def signal_pcs split: prod_pc.splits cons_pc.splits)

lemma inv_signals:
  "rawq_inv input r \<Longrightarrow> rawq_inv input (signal_nonempty r)" "rawq_inv input r \<Longrightarrow> rawq_inv input (signal_nonfull r)"
  by (simp_all add: rawq_inv_def signal_ok)

lemma rawq_init_inv: "rawq_inv input (rawq_init input)"
  by (simp add: rawq_inv_def rawq_init_def bufs_ok_def all_bufs_def rq_trace_def prod_ok_def cons_ok_def RAWQ_SLOTS_def)

lemma bufs_count:
  assumes "bufs_ok r"
  shows "length (rq_free r) + ring_count (rq_q r) + length (prod_bufs (rq_prod r)) + length (cons_bufs (rq_cons r)) = RAWQ_SLOTS"
  using assms mset_eq_length [of "all_bufs r" "[0..<RAWQ_SLOTS]"] by (simp add: bufs_ok_def all_bufs_def)

lemma bufs_distinct: "bufs_ok r \<Longrightarrow> distinct (all_bufs r)"
  using mset_eq_imp_distinct_iff [of "all_bufs r" "[0..<RAWQ_SLOTS]"] by (simp add: bufs_ok_def)

lemma cons_bufs_length: "length (cons_bufs pc) \<le> 1"
  by (cases pc) simp_all

section \<open>The worker\<close>

lemma items_cons:
  assumes "ring_inv RAWQ_SLOTS (rq_q r)" and "ring_count (rq_q r) \<noteq> 0"
  shows "rq_items r = ring_front (rq_q r) # ring_view RAWQ_SLOTS (ring_rest RAWQ_SLOTS (rq_q r))"
    and "ring_inv RAWQ_SLOTS (ring_rest RAWQ_SLOTS (rq_q r))"
proof -
  have "rq_items r \<noteq> []" using assms(2) length_ring_view [of RAWQ_SLOTS "rq_q r"] by fastforce
  with assms(1) show "rq_items r = ring_front (rq_q r) # ring_view RAWQ_SLOTS (ring_rest RAWQ_SLOTS (rq_q r))"
    "ring_inv RAWQ_SLOTS (ring_rest RAWQ_SLOTS (rq_q r))"
    by (rule ring.view_front, intro ring.inv_rest)
qed

lemma inv_step:
  "rawq_inv input r \<Longrightarrow> bufs_ok s \<Longrightarrow> prod_ok s \<Longrightarrow> cons_ok s \<Longrightarrow> rq_trace s = rq_trace r \<Longrightarrow> rawq_inv input s"
  by (simp add: rawq_inv_def)

lemma invD:
  assumes "rawq_inv input r"
  shows "bufs_ok r" and "prod_ok r" and "cons_ok r" and "ring_inv RAWQ_SLOTS (rq_q r)"
  using assms by (simp_all add: rawq_inv_def bufs_ok_def)

lemma prod_ok_cong:
  "prod_ok r \<Longrightarrow> rq_prod s = rq_prod r \<Longrightarrow> ring_count (rq_q s) = ring_count (rq_q r) \<Longrightarrow> rq_stop s = rq_stop r \<Longrightarrow>
     rq_data s = rq_data r \<Longrightarrow> rq_mem s = rq_mem r \<Longrightarrow> rq_lost s = rq_lost r \<Longrightarrow> prod_ok s"
  by (simp add: prod_ok_def split: prod_pc.splits)

lemma cons_ok_cong:
  "cons_ok r \<Longrightarrow> rq_cons s = rq_cons r \<Longrightarrow> ring_count (rq_q s) = ring_count (rq_q r) \<Longrightarrow> rq_stop s = rq_stop r \<Longrightarrow> cons_ok s"
  by (simp add: cons_ok_def split: cons_pc.splits)

lemma worker_pop_inv:
  assumes inv: "rawq_inv input r" and pc: "rq_cons r = CReady" and ne: "ring_count (rq_q r) \<noteq> 0"
  shows "rawq_inv input (signal_nonfull (r\<lparr>rq_q := ring_rest RAWQ_SLOTS (rq_q r),
    rq_cons := CFeed (fst (ring_front (rq_q r))) (snd (ring_front (rq_q r)))\<rparr>))" (is "rawq_inv _ (signal_nonfull ?s)")
proof (rule inv_step [OF inv])
  note items = items_cons [OF invD(4) [OF inv] ne]
  show "bufs_ok (signal_nonfull ?s)" unfolding signal_keeps using invD(1) [OF inv] pc items by (simp add: bufs_ok_def all_bufs_def)
  show "prod_ok (signal_nonfull ?s)"
    using invD(2) [OF inv] by (cases "rq_prod r") (simp_all add: prod_ok_def signal_pcs)
  show "cons_ok (signal_nonfull ?s)" by (simp add: cons_ok_def)
  show "rq_trace (signal_nonfull ?s) = rq_trace r" unfolding signal_keeps using pc items(1) by (simp add: rq_trace_def)
qed

lemma worker_inv:
  assumes inv: "rawq_inv input r" and st: "rawq_thread r = Some r'"
  shows "rawq_inv input r'"
proof (cases "rq_cons r")
  case CReady
  show ?thesis
  proof (cases "ring_count (rq_q r) = 0")
    case True
    let ?s = "r\<lparr>rq_cons := if rq_stop r then CDone else CWait\<rparr>"
    have "rawq_inv input ?s"
    proof (rule inv_step [OF inv])
      show "prod_ok ?s" using invD(2) [OF inv] by (rule prod_ok_cong) simp_all
    qed (use invD(1) [OF inv] CReady True in \<open>simp_all add: bufs_ok_def all_bufs_def cons_ok_def rq_trace_def\<close>)
    moreover have "r' = ?s" using st CReady True by (simp add: rawq_thread_def split: if_splits)
    ultimately show ?thesis by simp
  next
    case False
    with st CReady worker_pop_inv [OF inv CReady False] show ?thesis by (simp add: rawq_thread_def Let_def)
  qed
next
  case (CFeed b n)
  let ?s = "r\<lparr>rq_fed := rq_fed r @ [take n (rq_mem r b)], rq_cons := CReturn b\<rparr>"
  have "rawq_inv input ?s"
  proof (rule inv_step [OF inv])
    show "prod_ok ?s" using invD(2) [OF inv] by (rule prod_ok_cong) simp_all
  qed (use invD(1) [OF inv] CFeed in \<open>simp_all add: bufs_ok_def all_bufs_def cons_ok_def rq_trace_def item_bytes_def\<close>)
  with st CFeed show ?thesis by (simp add: rawq_thread_def)
next
  case (CReturn b)
  let ?s = "r\<lparr>rq_free := b # rq_free r, rq_cons := CReady\<rparr>"
  have "rawq_inv input ?s"
  proof (rule inv_step [OF inv])
    show "prod_ok ?s" using invD(2) [OF inv] by (rule prod_ok_cong) simp_all
  qed (use invD(1) [OF inv] CReturn in \<open>simp_all add: bufs_ok_def all_bufs_def cons_ok_def rq_trace_def\<close>)
  with st CReturn show ?thesis by (simp add: rawq_thread_def)
qed (use st in \<open>simp_all add: rawq_thread_def\<close>)

section \<open>The producer\<close>

lemma producer_ready_inv:
  assumes inv: "rawq_inv input r" and pc: "rq_prod r = PReady" and d: "rq_data r \<noteq> []" and st: "rawq_push r = Some r'"
  shows "rawq_inv input r'"
proof -
  have "length (rq_free r) + ring_count (rq_q r) + length (cons_bufs (rq_cons r)) = RAWQ_SLOTS"
    using bufs_count [OF invD(1) [OF inv]] pc by simp
  then have full: "rq_free r = [] \<Longrightarrow> RAWQ_SLOTS - 1 \<le> ring_count (rq_q r)"
    using cons_bufs_length [of "rq_cons r"] by simp
  consider "rq_stop r" | "\<not> rq_stop r" "rq_free r = []" | b bs where "\<not> rq_stop r" "rq_free r = b # bs"
    by (cases "rq_free r") auto
  then show ?thesis
  proof cases
    case 1
    let ?s = "r\<lparr>rq_lost := rq_lost r @ rq_data r, rq_data := []\<rparr>"
    have "rawq_inv input ?s"
    proof (rule inv_step [OF inv])
      show "cons_ok ?s" using invD(3) [OF inv] by (rule cons_ok_cong) simp_all
    qed (use invD(1) [OF inv] pc 1 in \<open>simp_all add: bufs_ok_def all_bufs_def prod_ok_def rq_trace_def\<close>)
    with st pc d 1 show ?thesis by (simp add: rawq_push_def)
  next
    case 2
    let ?s = "r\<lparr>rq_prod := PWait\<rparr>"
    have "rawq_inv input ?s"
    proof (rule inv_step [OF inv])
      show "cons_ok ?s" using invD(3) [OF inv] by (rule cons_ok_cong) simp_all
      show "prod_ok ?s" using invD(2) [OF inv] full d pc 2 by (simp add: prod_ok_def)
    qed (use invD(1) [OF inv] pc 2 in \<open>simp_all add: bufs_ok_def all_bufs_def rq_trace_def\<close>)
    with st pc d 2 show ?thesis by (simp add: rawq_push_def)
  next
    case 3
    let ?s = "r\<lparr>rq_free := bs, rq_prod := PHave b\<rparr>"
    have "rawq_inv input ?s"
    proof (rule inv_step [OF inv])
      show "cons_ok ?s" using invD(3) [OF inv] by (rule cons_ok_cong) simp_all
      show "prod_ok ?s" using invD(2) [OF inv] d pc 3 by (simp add: prod_ok_def)
    qed (use invD(1) [OF inv] pc 3 in \<open>simp_all add: bufs_ok_def all_bufs_def rq_trace_def\<close>)
    with st pc d 3 show ?thesis by (simp add: rawq_push_def)
  qed
qed

lemma take_mem_put: "take (length d) (mem_put 0 d m) = d"
  by (simp add: mem_put_def)

text \<open>Copying into the buffer the producer owns changes no queued or delivered bytes.\<close>

lemma producer_copy_inv:
  assumes inv: "rawq_inv input r" and pc: "rq_prod r = PHave b" and st: "rawq_push r = Some r'"
  shows "rawq_inv input r'"
proof -
  let ?n = "min (length (rq_data r)) RAWQ_CHUNK"
  let ?m = "(rq_mem r)(b := mem_put 0 (take ?n (rq_data r)) (rq_mem r b))"
  let ?s = "r\<lparr>rq_mem := ?m, rq_prod := PCopied b ?n\<rparr>"
  have "distinct (all_bufs r)" using invD(1) [OF inv] by (rule bufs_distinct)
  then have own: "b \<notin> fst ` set (rq_items r)" "b \<notin> set (cons_bufs (rq_cons r))"
    using pc by (auto simp: all_bufs_def)
  have items: "map (item_bytes ?m) (rq_items r) = map (item_bytes (rq_mem r)) (rq_items r)"
    using own(1) by (auto simp: item_bytes_def image_iff)
  have fl: "in_flight ?m (rq_cons r) = in_flight (rq_mem r) (rq_cons r)"
    using own(2) by (cases "rq_cons r") (simp_all add: item_bytes_def)
  have "rawq_inv input ?s"
  proof (rule inv_step [OF inv])
    show "cons_ok ?s" using invD(3) [OF inv] by (rule cons_ok_cong) simp_all
    show "prod_ok ?s" using invD(2) [OF inv] pc take_mem_put [of "take ?n (rq_data r)"] by (simp add: prod_ok_def)
    show "rq_trace ?s = rq_trace r" by (simp add: rq_trace_def items fl)
  qed (use invD(1) [OF inv] pc in \<open>simp_all add: bufs_ok_def all_bufs_def\<close>)
  with st pc show ?thesis by (simp add: rawq_push_def Let_def)
qed

lemma producer_put_inv:
  assumes inv: "rawq_inv input r" and pc: "rq_prod r = PCopied b n" and st: "rawq_push r = Some r'"
  shows "rawq_inv input r'"
proof -
  let ?s = "r\<lparr>rq_q := ring_put RAWQ_SLOTS (b, n) (rq_q r), rq_data := drop n (rq_data r), rq_prod := PReady\<rparr>"
  have "length (rq_items r) < RAWQ_SLOTS" using bufs_count [OF invD(1) [OF inv]] pc by simp
  note put = ring.inv_put [OF invD(4) [OF inv] this, of "(b, n)"] ring.view_put [OF invD(4) [OF inv] this, of "(b, n)"]
  have p: "rq_lost r = []" "take n (rq_mem r b) = take n (rq_data r)"
    using invD(2) [OF inv] pc by (auto simp: prod_ok_def)
  have "rawq_inv input (signal_nonempty ?s)"
  proof (rule inv_step [OF inv])
    show "bufs_ok (signal_nonempty ?s)" unfolding signal_keeps using invD(1) [OF inv] pc put by (simp add: bufs_ok_def all_bufs_def)
    show "prod_ok (signal_nonempty ?s)" unfolding signal_keeps using p(1) by (simp add: prod_ok_def)
    show "cons_ok (signal_nonempty ?s)"
      using invD(3) [OF inv] by (cases "rq_cons r") (simp_all add: cons_ok_def signal_pcs)
    show "rq_trace (signal_nonempty ?s) = rq_trace r"
      unfolding signal_keeps using p put(2) by (simp add: rq_trace_def item_bytes_def)
  qed
  with st pc show ?thesis by (simp add: rawq_push_def)
qed

lemma producer_inv:
  assumes inv: "rawq_inv input r" and st: "rawq_push r = Some r'"
  shows "rawq_inv input r'"
proof (cases "rq_prod r")
  case PReady
  show ?thesis
  proof (cases "rq_data r = []")
    case True
    with st PReady obtain d ds where td: "rq_todo r = d # ds" and r': "r' = r\<lparr>rq_data := d, rq_todo := ds\<rparr>"
      by (auto simp: rawq_push_def split: list.splits)
    show ?thesis
    proof (rule inv_step [OF inv])
      show "cons_ok r'" using invD(3) [OF inv] by (rule cons_ok_cong) (simp_all add: r')
    qed (use invD(1,2) [OF inv] PReady True td in \<open>simp_all add: r' bufs_ok_def all_bufs_def prod_ok_def rq_trace_def\<close>)
  qed (use producer_ready_inv [OF inv PReady] st in simp)
qed (use producer_copy_inv [OF inv] producer_put_inv [OF inv] st in \<open>simp_all add: rawq_push_def\<close>)

lemma stop_inv: "rawq_inv input r \<Longrightarrow> rawq_inv input (rawq_stop r)"
proof (rule inv_step)
  assume inv: "rawq_inv input r"
  note i = invD [OF inv]
  show "bufs_ok (rawq_stop r)" using i(1) by (simp add: rawq_stop_def) (simp add: bufs_ok_def all_bufs_def)
  show "rq_trace (rawq_stop r) = rq_trace r" by (simp add: rawq_stop_def) (simp add: rq_trace_def)
  show "prod_ok (rawq_stop r)"
    using i(2) by (cases "rq_prod r") (auto simp: rawq_stop_def prod_ok_def signal_pcs)
  show "cons_ok (rawq_stop r)"
    using i(3) by (cases "rq_cons r") (auto simp: rawq_stop_def cons_ok_def signal_pcs)
qed

lemma rawq_reach_inv: "rawq_reach input r \<Longrightarrow> rawq_inv input r"
proof (induction rule: rawq_reach.induct)
  case (step r r')
  from step.hyps(2) step.IH show ?case
    by (cases rule: rawq_step.cases) (auto intro: worker_inv producer_inv stop_inv inv_signals)
qed (rule rawq_init_inv)

section \<open>Progress\<close>

text \<open>\<open>k\<close> steps of the worker alone.\<close>

primrec worker_steps :: "nat \<Rightarrow> rawq \<Rightarrow> rawq option" where
  "worker_steps 0 r = Some r"
| "worker_steps (Suc k) r = Option.bind (rawq_thread r) (worker_steps k)"

lemma worker_pop:
  "rq_cons r = CReady \<Longrightarrow> ring_count (rq_q r) \<noteq> 0 \<Longrightarrow>
     \<exists>r'. rawq_thread r = Some r' \<and> rq_prod r' \<noteq> PWait \<and> ring_count (rq_q r') = ring_count (rq_q r) - 1
       \<and> rq_stop r' = rq_stop r \<and> (\<exists>b n. rq_cons r' = CFeed b n)"
  by (auto simp: rawq_thread_def Let_def signal_pcs ring_rest_def)

lemma worker_serve:
  "rq_cons r = CFeed b n \<Longrightarrow>
     \<exists>r'. worker_steps 2 r = Some r' \<and> rq_cons r' = CReady \<and> rq_q r' = rq_q r \<and> rq_stop r' = rq_stop r \<and> rq_prod r' = rq_prod r"
  by (simp add: numeral_2_eq_2 rawq_thread_def)

lemma worker_return:
  "rq_cons r = CReturn b \<Longrightarrow>
     \<exists>r'. rawq_thread r = Some r' \<and> rq_cons r' = CReady \<and> rq_q r' = rq_q r \<and> rq_stop r' = rq_stop r \<and> rq_prod r' = rq_prod r"
  by (simp add: rawq_thread_def)

lemma worker_steps_add: "worker_steps (j + k) r = Option.bind (worker_steps j r) (worker_steps k)"
  by (induction j arbitrary: r) (simp_all, metis Option.bind_assoc)

lemma worker_one: "worker_steps 1 r = rawq_thread r"
  by (cases "rawq_thread r") simp_all

lemma worker_wakes:
  assumes "ring_count (rq_q r) \<noteq> 0" and "rq_cons r \<noteq> CWait" and "rq_cons r \<noteq> CDone"
  shows "\<exists>k \<le> 3. \<exists>r'. worker_steps k r = Some r' \<and> rq_prod r' \<noteq> PWait"
proof (cases "rq_cons r")
  case CReady
  with worker_pop [OF CReady assms(1)] show ?thesis
    by (intro exI [of _ 1]) (auto simp: worker_one)
next
  case (CFeed b n)
  then obtain s where s: "worker_steps 2 r = Some s" "rq_cons s = CReady" "rq_q s = rq_q r"
    using worker_serve by blast
  then obtain r' where "rawq_thread s = Some r'" "rq_prod r' \<noteq> PWait" using worker_pop [of s] assms(1) by auto
  with s show ?thesis using worker_steps_add [of 2 1 r] by (intro exI [of _ 3]) (simp add: worker_one)
next
  case (CReturn b)
  then obtain s where s: "rawq_thread r = Some s" "rq_cons s = CReady" "rq_q s = rq_q r"
    using worker_return by blast
  then obtain r' where "rawq_thread s = Some r'" "rq_prod r' \<noteq> PWait" using worker_pop [of s] assms(1) by auto
  with s show ?thesis by (intro exI [of _ 2]) (simp add: numeral_2_eq_2)
qed (use assms in simp_all)

lemma worker_idle_fields:
  "rawq_thread r = Some r' \<Longrightarrow> rq_data r' = rq_data r \<and> rq_todo r' = rq_todo r \<and> rq_lost r' = rq_lost r"
  by (auto simp: rawq_thread_def Let_def split: cons_pc.splits if_splits)

lemma worker_steps_fields:
  "worker_steps k r = Some r' \<Longrightarrow> rq_data r' = rq_data r \<and> rq_todo r' = rq_todo r \<and> rq_lost r' = rq_lost r"
proof (induction k arbitrary: r)
  case (Suc k)
  then obtain s where "rawq_thread r = Some s" "worker_steps k s = Some r'" by (auto simp: bind_eq_Some_conv)
  with Suc.IH [of s] worker_idle_fields [of r s] show ?case by simp
qed simp

lemma worker_steps_reach: "rawq_reach input r \<Longrightarrow> worker_steps k r = Some r' \<Longrightarrow> rawq_reach input r'"
proof (induction k arbitrary: r)
  case (Suc k)
  then obtain s where "rawq_thread r = Some s" "worker_steps k s = Some r'" by (auto simp: bind_eq_Some_conv)
  with Suc.IH [of s] Suc.prems(1) show ?case by (blast intro: rawq_reach.step rawq_step.worker)
qed simp

lemma worker_drains:
  "rq_stop r \<Longrightarrow> rq_cons r = CReady \<Longrightarrow>
     \<exists>r'. worker_steps (3 * ring_count (rq_q r) + 1) r = Some r' \<and> rq_cons r' = CDone \<and> ring_count (rq_q r') = 0"
proof (induction "ring_count (rq_q r)" arbitrary: r)
  case 0
  then show ?case by (simp add: rawq_thread_def)
next
  case (Suc c)
  then obtain s where s: "rawq_thread r = Some s" "ring_count (rq_q s) = c" "rq_stop s" "\<exists>b n. rq_cons s = CFeed b n"
    using worker_pop [of r] by auto
  then obtain t where t: "worker_steps 2 s = Some t" "rq_cons t = CReady" "rq_q t = rq_q s" "rq_stop t = rq_stop s"
    using worker_serve by blast
  have w: "worker_steps (Suc 2) r = Some t" unfolding worker_steps.simps s(1) using t(1) by simp
  obtain r' where r': "worker_steps (3 * c + 1) t = Some r'" "rq_cons r' = CDone" "ring_count (rq_q r') = 0"
    using Suc.hyps(1) [of t] s t by auto
  have "worker_steps (Suc 2 + (3 * c + 1)) r = Some r'"
    unfolding worker_steps_add [of "Suc 2" "3 * c + 1"] w using r'(1) by simp
  moreover have "3 * ring_count (rq_q r) + 1 = Suc 2 + (3 * c + 1)" using Suc.hyps(2) by simp
  ultimately show ?case using r'(2,3) by metis
qed

section \<open>Properties\<close>

text \<open>
  C5. The raw queue neither loses, duplicates, reorders nor corrupts bytes, under every
  interleaving of the USB callback, the worker and a stop: in every reachable state the chunks already
  passed to \<open>stream_feed\<close>, the one being parsed, the queued ones, whatever a push after a stop
  dropped, and what is still to be pushed are together exactly the bytes pushed, in order; bytes are
  dropped only after a stop; and each of the 32 buffers has exactly one owner.
\<close>

theorem rawq_conserves:
  assumes "rawq_reach input r"
  shows "concat (rq_fed r) @ in_flight (rq_mem r) (rq_cons r) @ concat (map (item_bytes (rq_mem r)) (rq_items r))
      @ rq_lost r @ rq_data r @ concat (rq_todo r) = concat input
    \<and> (rq_lost r \<noteq> [] \<longrightarrow> rq_stop r) \<and> mset (all_bufs r) = mset [0..<RAWQ_SLOTS]"
  using rawq_reach_inv [OF assms] by (auto simp: rawq_inv_def rq_trace_def prod_ok_def bufs_ok_def)

theorem rawq_conserves_witness:
  "concat (rq_fed (rawq_init [[1, 2], [3]])) @ concat (map (item_bytes (rq_mem (rawq_init [[1, 2], [3]]))) (rq_items (rawq_init [[1, 2], [3]])))
    @ rq_data (rawq_init [[1, 2], [3]]) @ concat (rq_todo (rawq_init [[1, 2], [3]])) = [1, 2, 3]"
  using rawq_conserves [OF rawq_reach.init, of "[[1, 2], [3]]"] by (simp add: rawq_init_def)

text \<open>
  C6. No lost wake-up: although the worker signals \<open>nonfull\<close> before it returns the buffer, a
  sleeping producer is always woken. In every reachable state with the producer asleep, at least 31
  chunks are queued, the worker is neither asleep nor finished, and at most three of its own steps
  make the producer runnable again; the worker only sleeps on an empty queue that was not stopped.
\<close>

theorem rawq_no_lost_wakeup:
  assumes "rawq_reach input r" and "rq_prod r = PWait"
  shows "RAWQ_SLOTS - 1 \<le> ring_count (rq_q r) \<and> rq_cons r \<noteq> CWait \<and> rq_cons r \<noteq> CDone
    \<and> (\<exists>k \<le> 3. \<exists>r'. worker_steps k r = Some r' \<and> rq_prod r' \<noteq> PWait)"
proof -
  have i: "prod_ok r" "cons_ok r" using rawq_reach_inv [OF assms(1)] by (simp_all add: rawq_inv_def)
  from i(1) assms(2) have c: "RAWQ_SLOTS - 1 \<le> ring_count (rq_q r)" and ns: "\<not> rq_stop r" by (simp_all add: prod_ok_def)
  then have ne: "ring_count (rq_q r) \<noteq> 0" by (simp add: RAWQ_SLOTS_def)
  have w: "rq_cons r \<noteq> CWait" "rq_cons r \<noteq> CDone" using i(2) ne ns by (auto simp: cons_ok_def)
  show ?thesis using c w worker_wakes [OF ne w] by blast
qed

text \<open>The producer alone fills the queue with one-byte transfers (used to reach a full queue).\<close>

lemma push_one:
  assumes "rawq_reach input r" and "rq_prod r = PReady" "rq_data r = []" "rq_todo r = [x] # ds" "rq_free r = b # bs"
    "\<not> rq_stop r" "rq_cons r = CReady"
  shows "\<exists>s. rawq_reach input s \<and> rq_prod s = PReady \<and> rq_data s = [] \<and> rq_todo s = ds \<and> rq_free s = bs
    \<and> \<not> rq_stop s \<and> rq_cons s = CReady"
proof -
  have st: "rawq_reach input p \<Longrightarrow> rawq_push p = Some q \<Longrightarrow> rawq_reach input q" for p q
    by (blast intro: rawq_reach.step rawq_step.producer)
  have one: "min 1 RAWQ_CHUNK = 1" "min (Suc 0) RAWQ_CHUNK = 1" by (simp_all add: RAWQ_CHUNK_def)
  let ?r1 = "r\<lparr>rq_data := [x], rq_todo := ds\<rparr>" and ?r2 = "r\<lparr>rq_data := [x], rq_todo := ds, rq_free := bs, rq_prod := PHave b\<rparr>"
  let ?r3 = "r\<lparr>rq_data := [x], rq_todo := ds, rq_free := bs,
    rq_mem := (rq_mem r)(b := mem_put 0 [x] (rq_mem r b)), rq_prod := PCopied b 1\<rparr>"
  have "rawq_reach input ?r1" by (rule st [OF assms(1)]) (simp add: rawq_push_def assms)
  from st [OF this, of ?r2] have "rawq_reach input ?r2" by (simp add: rawq_push_def assms)
  from st [OF this, of ?r3] have r3: "rawq_reach input ?r3" by (simp add: rawq_push_def Let_def one)
  obtain s where s: "rawq_push ?r3 = Some s" by (simp add: rawq_push_def)
  then have "rq_prod s = PReady \<and> rq_data s = [] \<and> rq_todo s = ds \<and> rq_free s = bs \<and> \<not> rq_stop s \<and> rq_cons s = CReady"
    using assms by (auto simp: rawq_push_def signal_pcs)
  with st [OF r3 s] show ?thesis by blast
qed

lemma push_all:
  assumes "rawq_reach input r" and "rq_prod r = PReady" "rq_data r = []" "rq_todo r = map (\<lambda>x. [x]) xs @ ds"
    "length (rq_free r) = length xs + k" "\<not> rq_stop r" "rq_cons r = CReady"
  shows "\<exists>s. rawq_reach input s \<and> rq_prod s = PReady \<and> rq_data s = [] \<and> rq_todo s = ds \<and> length (rq_free s) = k
    \<and> \<not> rq_stop s \<and> rq_cons s = CReady"
  using assms
proof (induction xs arbitrary: r)
  case (Cons x xs)
  then obtain b bs where "rq_free r = b # bs" by (cases "rq_free r") auto
  with Cons.prems push_one [of input r x "map (\<lambda>x. [x]) xs @ ds" b bs] Cons.IH show ?case by fastforce
qed auto

lemma full_queue_reachable: "\<exists>r. rawq_reach (replicate 33 [7]) r \<and> rq_prod r = PWait"
proof -
  let ?in = "replicate 33 [7] :: bytes list"
  have split: "?in = map (\<lambda>x. [x]) (replicate 32 7) @ [[7]]"
    by (simp add: map_replicate replicate_append_same flip: replicate_Suc)
  obtain s where s: "rawq_reach ?in s" "rq_prod s = PReady" "rq_data s = []" "rq_todo s = [[7]]" "length (rq_free s) = 0"
    "\<not> rq_stop s" "rq_cons s = CReady"
    using push_all [of ?in "rawq_init ?in" "replicate 32 7" "[[7]]" 0] rawq_reach.init [of ?in]
    by (auto simp: rawq_init_def RAWQ_SLOTS_def split)
  let ?t = "s\<lparr>rq_data := [7], rq_todo := []\<rparr>"
  have "rawq_reach ?in ?t" using s by (intro rawq_reach.step [OF s(1)] rawq_step.producer) (simp add: rawq_push_def)
  moreover have "rawq_push ?t = Some (?t\<lparr>rq_prod := PWait\<rparr>)" using s by (simp add: rawq_push_def)
  ultimately have "rawq_reach ?in (?t\<lparr>rq_prod := PWait\<rparr>)" by (blast intro: rawq_reach.step rawq_step.producer)
  then show ?thesis by (intro exI [of _ "?t\<lparr>rq_prod := PWait\<rparr>"]) simp
qed

theorem rawq_no_lost_wakeup_witness:
  "\<exists>r. rawq_reach (replicate 33 [7]) r \<and> rq_prod r = PWait \<and> RAWQ_SLOTS - 1 \<le> ring_count (rq_q r)
    \<and> (\<exists>k \<le> 3. \<exists>r'. worker_steps k r = Some r' \<and> rq_prod r' \<noteq> PWait)"
  using full_queue_reachable rawq_no_lost_wakeup by blast

text \<open>
  C17. Stopping drains: once the producer has finished and \<open>rawq_stop\<close> was called, the worker
  terminates by itself, within three steps per queued chunk, and by then every byte ever pushed has
  been passed to \<open>stream_feed\<close>.
\<close>

theorem rawq_stop_drains:
  assumes "rawq_reach input r" and "rq_stop r" and "rq_cons r = CReady"
    and "rq_prod r = PReady" and "rq_data r = []" and "rq_todo r = []" and "rq_lost r = []"
  shows "\<exists>k r'. k \<le> 3 * ring_count (rq_q r) + 1 \<and> worker_steps k r = Some r' \<and> rq_cons r' = CDone
    \<and> concat (rq_fed r') = concat input"
proof -
  let ?k = "3 * ring_count (rq_q r) + 1"
  obtain r' where r': "worker_steps ?k r = Some r'" "rq_cons r' = CDone" "ring_count (rq_q r') = 0"
    using worker_drains [OF assms(2,3)] by blast
  have "rq_trace r' = concat input"
    using rawq_reach_inv [OF worker_steps_reach [OF assms(1) r'(1)]] by (simp add: rawq_inv_def)
  moreover have "rq_items r' = []" using r'(3) by (simp add: ring_view_def)
  ultimately have "concat (rq_fed r') = concat input"
    using worker_steps_fields [OF r'(1)] assms(5-7) r'(2) by (simp add: rq_trace_def)
  with r' show ?thesis by blast
qed

theorem rawq_stop_drains_witness:
  "\<exists>r k r'. rawq_reach [[7]] r \<and> worker_steps k r = Some r' \<and> rq_cons r' = CDone \<and> concat (rq_fed r') = [7]"
proof -
  obtain s where s: "rawq_reach [[7]] s" "rq_prod s = PReady" "rq_data s = []" "rq_todo s = []" "\<not> rq_stop s" "rq_cons s = CReady"
    using push_all [of "[[7]]" "rawq_init [[7]]" "[7]" "[]" 31] rawq_reach.init [of "[[7]]"]
    by (auto simp: rawq_init_def RAWQ_SLOTS_def)
  let ?r = "rawq_stop s"
  have "rawq_reach [[7]] ?r" using s(1) rawq_step.stop by (rule rawq_reach.step)
  moreover have "rq_lost s = []" using rawq_reach_inv [OF s(1)] s(5) by (auto simp: rawq_inv_def prod_ok_def)
  ultimately show ?thesis
    using rawq_stop_drains [of "[[7]]" ?r] s by (auto simp: rawq_stop_def signal_pcs)
qed

end
