(* ===== verification/Pcapng_Writer.thy ===== *)
theory Pcapng_Writer
  imports Pcapng_Format Ring "HOL-Library.Multiset"
begin

text \<open>
  The asynchronous half of \<open>src/pcapng.c\<close>: the single producer (\<open>sink_write\<close>, \<open>chunk_flush\<close>,
  \<open>buf_get_free\<close>, \<open>pcapng_flush\<close>, \<open>pcapng_close\<close>) executes the requests recorded by \<open>Pcapng_Format\<close>,
  the writer thread (\<open>writer_main\<close>) moves queued chunks to the file. Steps are critical sections or
  the work between them and interleave freely; \<open>fwrite\<close> may write any part of what it is given or
  fail, the clock may or may not have passed \<open>LIVE_FLUSH_MS\<close>, and sleeping threads may wake
  spuriously. \<open>None\<close> as \<open>wq_chunk\<close> is the NULL pointer; between handing a chunk over and getting the
  next one the producer owns none.
\<close>

section \<open>Definitions\<close>

definition WQ_SLOTS :: nat where "WQ_SLOTS = 32"
definition WQ_CHUNK :: nat where "WQ_CHUNK = 256 * 1024"

text \<open>What the producer does after a \<open>chunk_flush\<close>.\<close>

datatype cont = ContWrite bytes | ContNext | ContDrain

datatype sink_pc =
    KNext | KWrite bytes | KAlloc bytes | KAllocSleep bytes
  | KFlush cont | KNonfullSleep cont | KGet cont | KGetSleep cont | KDrain | KDrainSleep | KClosed

datatype writer_pc = WReady | WWait | WWrite nat nat nat | WReturn nat | WDone

record wq =
  wq_mem :: "nat \<Rightarrow> bytes"
  wq_chunk :: "nat option"
  wq_chunk_len :: nat
  wq_q :: "(nat \<times> nat) ring"
  wq_free :: "nat list"
  wq_stop :: bool
  wq_err :: bool
  wq_file :: bytes
  wq_ops :: "sink_op list"
  wq_prod :: sink_pc
  wq_writer :: writer_pc

definition wq_open :: "sink_op list \<Rightarrow> wq" where
  "wq_open ops =
     \<lparr>wq_mem = (\<lambda>_. replicate WQ_CHUNK 0), wq_chunk = None, wq_chunk_len = 0, wq_q = ring_empty (0, 0),
      wq_free = rev [0..<WQ_SLOTS], wq_stop = False, wq_err = False, wq_file = [], wq_ops = ops,
      wq_prod = KNext, wq_writer = WReady\<rparr>"

text \<open>The condition variables \<open>nonempty\<close> (writer), \<open>nonfull\<close> and \<open>freecv\<close> (producer).\<close>

definition wake_writer :: "wq \<Rightarrow> wq" where
  "wake_writer w = (if wq_writer w = WWait then w\<lparr>wq_writer := WReady\<rparr> else w)"

definition wake_nonfull :: "wq \<Rightarrow> wq" where
  "wake_nonfull w = (case wq_prod w of KNonfullSleep k \<Rightarrow> w\<lparr>wq_prod := KFlush k\<rparr> | _ \<Rightarrow> w)"

definition wake_free :: "wq \<Rightarrow> wq" where
  "wake_free w =
     (case wq_prod w of
        KAllocSleep d \<Rightarrow> w\<lparr>wq_prod := KAlloc d\<rparr>
      | KGetSleep k \<Rightarrow> w\<lparr>wq_prod := KGet k\<rparr>
      | KDrainSleep \<Rightarrow> w\<lparr>wq_prod := KDrain\<rparr>
      | _ \<Rightarrow> w)"

text \<open>
  One step of \<open>writer_main\<close>; \<open>n\<close> is the result of \<open>fwrite\<close> where the step calls it (at most the
  bytes asked for).
\<close>

definition writer_main :: "nat \<Rightarrow> wq \<Rightarrow> wq option" where
  "writer_main n w =
     (case wq_writer w of
        WReady \<Rightarrow>
          if ring_count (wq_q w) = 0 \<and> \<not> wq_stop w then Some (w\<lparr>wq_writer := WWait\<rparr>)
          else if ring_count (wq_q w) = 0 then Some (w\<lparr>wq_writer := WDone\<rparr>)
          else let it = ring_front (wq_q w)
               in Some (wake_nonfull (w\<lparr>wq_q := ring_rest WQ_SLOTS (wq_q w), wq_writer := WWrite (fst it) (snd it) 0\<rparr>))
      | WWrite b len off \<Rightarrow>
          if off < len then
            (let k = min n (len - off)
             in if k = 0 then Some (w\<lparr>wq_err := True, wq_writer := WReturn b\<rparr>)
                else Some (w\<lparr>wq_file := wq_file w @ take k (drop off (wq_mem w b)), wq_writer := WWrite b len (off + k)\<rparr>))
          else Some (w\<lparr>wq_writer := WReturn b\<rparr>)
      | WReturn b \<Rightarrow> Some (wake_free (w\<lparr>wq_free := b # wq_free w, wq_writer := WReady\<rparr>))
      | WWait \<Rightarrow> None
      | WDone \<Rightarrow> None)"

fun resume :: "cont \<Rightarrow> sink_pc" where
  "resume (ContWrite d) = KWrite d"
| "resume ContNext = KNext"
| "resume ContDrain = KDrain"

text \<open>\<open>sink_write\<close>: the loop body and, at its end, the live-delivery flush (\<open>late\<close>: the clock).\<close>

definition sink_write :: "bool \<Rightarrow> bytes \<Rightarrow> wq \<Rightarrow> wq" where
  "sink_write late d w =
     (if d = [] then
        w\<lparr>wq_prod := (if wq_chunk w \<noteq> None \<and> 0 < wq_chunk_len w \<and> late then KFlush ContNext else KNext)\<rparr>
      else case wq_chunk w of
        None \<Rightarrow> w\<lparr>wq_prod := KAlloc d\<rparr>
      | Some b \<Rightarrow>
          (let n = min (length d) (WQ_CHUNK - wq_chunk_len w);
               w = w\<lparr>wq_mem := (wq_mem w)(b := mem_put (wq_chunk_len w) (take n d) (wq_mem w b)),
                     wq_chunk_len := wq_chunk_len w + n\<rparr>
           in w\<lparr>wq_prod := (if wq_chunk_len w = WQ_CHUNK then KFlush (ContWrite (drop n d)) else KWrite (drop n d))\<rparr>))"

definition chunk_flush :: "cont \<Rightarrow> wq \<Rightarrow> wq" where
  "chunk_flush k w =
     (case wq_chunk w of
        None \<Rightarrow> w\<lparr>wq_prod := resume k\<rparr>
      | Some b \<Rightarrow>
          if wq_chunk_len w = 0 then w\<lparr>wq_prod := resume k\<rparr>
          else if ring_count (wq_q w) = WQ_SLOTS \<and> \<not> wq_err w then w\<lparr>wq_prod := KNonfullSleep k\<rparr>
          else if wq_err w then w\<lparr>wq_chunk_len := 0, wq_prod := resume k\<rparr>
          else wake_writer (w\<lparr>wq_q := ring_put WQ_SLOTS (b, wq_chunk_len w) (wq_q w), wq_chunk := None, wq_prod := KGet k\<rparr>))"

text \<open>\<open>buf_get_free\<close> as called by \<open>sink_write\<close> and by \<open>chunk_flush\<close>.\<close>

definition get_for_write :: "bytes \<Rightarrow> wq \<Rightarrow> wq" where
  "get_for_write d w =
     (case wq_free w of
        [] \<Rightarrow> if \<not> wq_err w then w\<lparr>wq_prod := KAllocSleep d\<rparr> else w\<lparr>wq_err := True, wq_prod := KNext\<rparr>
      | b # bs \<Rightarrow> w\<lparr>wq_free := bs, wq_chunk := Some b, wq_prod := KWrite d\<rparr>)"

definition get_for_flush :: "cont \<Rightarrow> wq \<Rightarrow> wq" where
  "get_for_flush k w =
     (case wq_free w of
        [] \<Rightarrow> if \<not> wq_err w then w\<lparr>wq_prod := KGetSleep k\<rparr> else w\<lparr>wq_chunk_len := 0, wq_prod := resume k\<rparr>
      | b # bs \<Rightarrow> w\<lparr>wq_free := bs, wq_chunk := Some b, wq_chunk_len := 0, wq_prod := resume k\<rparr>)"

definition next_op :: "wq \<Rightarrow> wq option" where
  "next_op w =
     (case wq_ops w of
        [] \<Rightarrow> None
      | SinkWrite d # ops \<Rightarrow> Some (w\<lparr>wq_ops := ops, wq_prod := (if wq_err w then KNext else KWrite d)\<rparr>)
      | ChunkFlush # ops \<Rightarrow> Some (w\<lparr>wq_ops := ops, wq_prod := KFlush ContNext\<rparr>)
      | SinkFlush # ops \<Rightarrow> Some (w\<lparr>wq_ops := ops, wq_prod := KFlush ContDrain\<rparr>))"

definition sink_step :: "bool \<Rightarrow> wq \<Rightarrow> wq option" where
  "sink_step late w =
     (case wq_prod w of
        KNext \<Rightarrow> next_op w
      | KWrite d \<Rightarrow> Some (sink_write late d w)
      | KAlloc d \<Rightarrow> Some (get_for_write d w)
      | KFlush k \<Rightarrow> Some (chunk_flush k w)
      | KGet k \<Rightarrow> Some (get_for_flush k w)
      | KDrain \<Rightarrow> Some (w\<lparr>wq_prod := (if ring_count (wq_q w) \<noteq> 0 \<and> \<not> wq_err w then KDrainSleep else KNext)\<rparr>)
      | _ \<Rightarrow> None)"

text \<open>The end of \<open>pcapng_close\<close>, after its \<open>pcapng_flush\<close>: set \<open>stop\<close> and wake the writer.\<close>

definition wq_close :: "wq \<Rightarrow> wq" where
  "wq_close w = wake_writer (w\<lparr>wq_stop := True, wq_prod := KClosed\<rparr>)"

inductive wq_step :: "wq \<Rightarrow> wq \<Rightarrow> bool" where
  writer: "writer_main n w = Some w' \<Longrightarrow> wq_step w w'"
| sink: "sink_step late w = Some w' \<Longrightarrow> wq_step w w'"
| close: "wq_prod w = KNext \<Longrightarrow> wq_ops w = [] \<Longrightarrow> wq_step w (wq_close w)"
| spurious_writer: "wq_step w (wake_writer w)"
| spurious_nonfull: "wq_step w (wake_nonfull w)"
| spurious_free: "wq_step w (wake_free w)"

inductive wq_reach :: "sink_op list \<Rightarrow> wq \<Rightarrow> bool" for ops where
  init: "wq_reach ops (wq_open ops)"
| step: "wq_reach ops w \<Longrightarrow> wq_step w w' \<Longrightarrow> wq_reach ops w'"

section \<open>Invariant\<close>

fun writer_bufs :: "writer_pc \<Rightarrow> nat list" where
  "writer_bufs (WWrite b len off) = [b]"
| "writer_bufs (WReturn b) = [b]"
| "writer_bufs _ = []"

abbreviation wq_items :: "wq \<Rightarrow> (nat \<times> nat) list" where
  "wq_items w \<equiv> ring_view WQ_SLOTS (wq_q w)"

definition wq_bufs :: "wq \<Rightarrow> nat list" where
  "wq_bufs w = wq_free w @ map fst (wq_items w) @ (case wq_chunk w of None \<Rightarrow> [] | Some b \<Rightarrow> [b]) @ writer_bufs (wq_writer w)"

definition chunk_of :: "(nat \<Rightarrow> bytes) \<Rightarrow> nat \<times> nat \<Rightarrow> bytes" where
  "chunk_of m it = take (snd it) (m (fst it))"

fun being_written :: "(nat \<Rightarrow> bytes) \<Rightarrow> writer_pc \<Rightarrow> bytes" where
  "being_written m (WWrite b len off) = drop off (chunk_of m (b, len))"
| "being_written m _ = []"

fun open_chunk :: "(nat \<Rightarrow> bytes) \<Rightarrow> nat option \<Rightarrow> nat \<Rightarrow> bytes" where
  "open_chunk m None len = []"
| "open_chunk m (Some b) len = chunk_of m (b, len)"

fun cont_bytes :: "cont \<Rightarrow> bytes" where
  "cont_bytes (ContWrite d) = d"
| "cont_bytes _ = []"

fun pc_bytes :: "sink_pc \<Rightarrow> bytes" where
  "pc_bytes (KWrite d) = d"
| "pc_bytes (KAlloc d) = d"
| "pc_bytes (KAllocSleep d) = d"
| "pc_bytes (KFlush k) = cont_bytes k"
| "pc_bytes (KNonfullSleep k) = cont_bytes k"
| "pc_bytes (KGet k) = cont_bytes k"
| "pc_bytes (KGetSleep k) = cont_bytes k"
| "pc_bytes _ = []"

text \<open>Everything sunk, in order, wherever it is: file, writer, queue, open chunk, still to be copied.\<close>

definition wq_trace :: "wq \<Rightarrow> bytes" where
  "wq_trace w = wq_file w @ being_written (wq_mem w) (wq_writer w) @ concat (map (chunk_of (wq_mem w)) (wq_items w))
     @ open_chunk (wq_mem w) (wq_chunk w) (wq_chunk_len w) @ pc_bytes (wq_prod w) @ concat (map op_bytes (wq_ops w))"

definition wq_bufs_ok :: "wq \<Rightarrow> bool" where
  "wq_bufs_ok w \<longleftrightarrow> ring_inv WQ_SLOTS (wq_q w) \<and> mset (wq_bufs w) = mset [0..<WQ_SLOTS]
     \<and> (\<forall>b. length (wq_mem w b) = WQ_CHUNK) \<and> (\<forall>it \<in> set (wq_items w). 0 < snd it \<and> snd it \<le> WQ_CHUNK)"

definition sink_ok :: "wq \<Rightarrow> bool" where
  "sink_ok w \<longleftrightarrow> wq_chunk_len w \<le> WQ_CHUNK \<and>
     (wq_chunk w = None \<longrightarrow> wq_chunk_len w = 0 \<or> (\<exists>k. wq_prod w = KGet k \<or> wq_prod w = KGetSleep k)) \<and>
     (case wq_prod w of
        KWrite d \<Rightarrow> wq_chunk_len w < WQ_CHUNK
      | KAlloc d \<Rightarrow> wq_chunk w = None \<and> d \<noteq> []
      | KAllocSleep d \<Rightarrow> wq_chunk w = None \<and> wq_free w = [] \<and> d \<noteq> []
      | KNonfullSleep k \<Rightarrow> False
      | KGet k \<Rightarrow> wq_chunk w = None
      | KGetSleep k \<Rightarrow> wq_chunk w = None \<and> wq_free w = []
      | KDrain \<Rightarrow> wq_chunk_len w = 0
      | KDrainSleep \<Rightarrow> wq_chunk_len w = 0 \<and> (ring_count (wq_q w) \<noteq> 0 \<or> writer_bufs (wq_writer w) \<noteq> [])
      | KFlush k \<Rightarrow> True
      | KNext \<Rightarrow> wq_chunk_len w < WQ_CHUNK
      | KClosed \<Rightarrow> wq_stop w \<and> wq_ops w = []) \<and> (wq_stop w \<longrightarrow> wq_prod w = KClosed)"

definition writer_ok :: "wq \<Rightarrow> bool" where
  "writer_ok w \<longleftrightarrow>
     (case wq_writer w of
        WWait \<Rightarrow> ring_count (wq_q w) = 0 \<and> \<not> wq_stop w
      | WDone \<Rightarrow> wq_stop w \<and> ring_count (wq_q w) = 0
      | WWrite b len off \<Rightarrow> len \<le> WQ_CHUNK \<and> off \<le> len
      | _ \<Rightarrow> True)"

definition wq_inv :: "sink_op list \<Rightarrow> wq \<Rightarrow> bool" where
  "wq_inv ops w \<longleftrightarrow> wq_bufs_ok w \<and> sink_ok w \<and> writer_ok w \<and> (\<not> wq_err w \<longrightarrow> wq_trace w = concat (map op_bytes ops))"

lemma wq_open_inv: "wq_inv ops (wq_open ops)"
  by (simp add: wq_inv_def wq_open_def wq_bufs_ok_def wq_bufs_def sink_ok_def writer_ok_def wq_trace_def
      WQ_SLOTS_def WQ_CHUNK_def)

lemma wq_invI:
  "wq_inv ops w \<Longrightarrow> wq_bufs_ok v \<Longrightarrow> sink_ok v \<Longrightarrow> writer_ok v \<Longrightarrow> (\<not> wq_err v \<Longrightarrow> \<not> wq_err w) \<Longrightarrow>
     (\<not> wq_err v \<Longrightarrow> wq_trace v = wq_trace w) \<Longrightarrow> wq_inv ops v"
  by (auto simp: wq_inv_def)

lemma wq_invD:
  assumes "wq_inv ops w"
  shows "wq_bufs_ok w" and "sink_ok w" and "writer_ok w" and "ring_inv WQ_SLOTS (wq_q w)"
  using assms by (simp_all add: wq_inv_def wq_bufs_ok_def)

lemma wq_count:
  assumes "wq_bufs_ok w"
  shows "length (wq_free w) + ring_count (wq_q w) + (case wq_chunk w of None \<Rightarrow> 0 | Some b \<Rightarrow> 1)
    + length (writer_bufs (wq_writer w)) = WQ_SLOTS"
  using assms mset_eq_length [of "wq_bufs w" "[0..<WQ_SLOTS]"] by (auto simp: wq_bufs_ok_def wq_bufs_def split: option.splits)

lemma wq_distinct: "wq_bufs_ok w \<Longrightarrow> distinct (wq_bufs w)"
  using mset_eq_imp_distinct_iff [of "wq_bufs w" "[0..<WQ_SLOTS]"] by (simp add: wq_bufs_ok_def)

lemma writer_bufs_length: "length (writer_bufs pc) \<le> 1"
  by (cases pc) simp_all

section \<open>Waking up\<close>

lemma wake_fields [simp]:
  "wq_mem (wake_writer w) = wq_mem w" "wq_chunk (wake_writer w) = wq_chunk w" "wq_chunk_len (wake_writer w) = wq_chunk_len w"
  "wq_q (wake_writer w) = wq_q w" "wq_free (wake_writer w) = wq_free w" "wq_stop (wake_writer w) = wq_stop w"
  "wq_err (wake_writer w) = wq_err w" "wq_file (wake_writer w) = wq_file w" "wq_ops (wake_writer w) = wq_ops w"
  "wq_prod (wake_writer w) = wq_prod w" "writer_bufs (wq_writer (wake_writer w)) = writer_bufs (wq_writer w)"
  "being_written m (wq_writer (wake_writer w)) = being_written m (wq_writer w)"
  by (simp_all add: wake_writer_def)

lemma wake_free_fields [simp]:
  "wq_mem (wake_free w) = wq_mem w" "wq_chunk (wake_free w) = wq_chunk w" "wq_chunk_len (wake_free w) = wq_chunk_len w"
  "wq_q (wake_free w) = wq_q w" "wq_free (wake_free w) = wq_free w" "wq_stop (wake_free w) = wq_stop w"
  "wq_err (wake_free w) = wq_err w" "wq_file (wake_free w) = wq_file w" "wq_ops (wake_free w) = wq_ops w"
  "wq_writer (wake_free w) = wq_writer w" "pc_bytes (wq_prod (wake_free w)) = pc_bytes (wq_prod w)"
  by (simp_all add: wake_free_def split: sink_pc.splits)

lemma wake_nonfull_fields [simp]:
  "wq_mem (wake_nonfull w) = wq_mem w" "wq_chunk (wake_nonfull w) = wq_chunk w" "wq_chunk_len (wake_nonfull w) = wq_chunk_len w"
  "wq_q (wake_nonfull w) = wq_q w" "wq_free (wake_nonfull w) = wq_free w" "wq_stop (wake_nonfull w) = wq_stop w"
  "wq_err (wake_nonfull w) = wq_err w" "wq_file (wake_nonfull w) = wq_file w" "wq_ops (wake_nonfull w) = wq_ops w"
  "wq_writer (wake_nonfull w) = wq_writer w" "pc_bytes (wq_prod (wake_nonfull w)) = pc_bytes (wq_prod w)"
  by (simp_all add: wake_nonfull_def split: sink_pc.splits)

lemma wake_keeps [simp]:
  "wq_bufs_ok (wake_writer w) = wq_bufs_ok w" "wq_bufs_ok (wake_free w) = wq_bufs_ok w" "wq_bufs_ok (wake_nonfull w) = wq_bufs_ok w"
  "wq_trace (wake_writer w) = wq_trace w" "wq_trace (wake_free w) = wq_trace w" "wq_trace (wake_nonfull w) = wq_trace w"
  "writer_ok (wake_free w) = writer_ok w" "writer_ok (wake_nonfull w) = writer_ok w"
  by (simp_all add: wq_bufs_ok_def wq_bufs_def wq_trace_def writer_ok_def split: writer_pc.splits)

lemma sink_ok_nonfull: "sink_ok w \<Longrightarrow> wake_nonfull w = w"
  by (cases "wq_prod w") (simp_all add: sink_ok_def wake_nonfull_def)

lemma sink_ok_wake:
  "sink_ok w \<Longrightarrow> sink_ok (wake_writer w)" "sink_ok w \<Longrightarrow> sink_ok (wake_free w)"
  by (cases "wq_prod w"; simp add: sink_ok_def wake_free_def)+

lemma writer_ok_wake: "writer_ok w \<Longrightarrow> writer_ok (wake_writer w)"
  by (cases "wq_writer w") (simp_all add: writer_ok_def wake_writer_def)

lemma inv_wake:
  "wq_inv ops w \<Longrightarrow> wq_inv ops (wake_writer w)" "wq_inv ops w \<Longrightarrow> wq_inv ops (wake_free w)"
  "wq_inv ops w \<Longrightarrow> wq_inv ops (wake_nonfull w)"
  using sink_ok_nonfull [of w] by (auto simp: wq_inv_def sink_ok_wake writer_ok_wake)

section \<open>The writer thread\<close>

lemma wq_items_cons:
  assumes "ring_inv WQ_SLOTS (wq_q w)" and "ring_count (wq_q w) \<noteq> 0"
  shows "wq_items w = ring_front (wq_q w) # ring_view WQ_SLOTS (ring_rest WQ_SLOTS (wq_q w))"
    and "ring_inv WQ_SLOTS (ring_rest WQ_SLOTS (wq_q w))"
proof -
  have "wq_items w \<noteq> []" using assms(2) length_ring_view [of WQ_SLOTS "wq_q w"] by fastforce
  with assms(1) show "wq_items w = ring_front (wq_q w) # ring_view WQ_SLOTS (ring_rest WQ_SLOTS (wq_q w))"
    "ring_inv WQ_SLOTS (ring_rest WQ_SLOTS (wq_q w))"
    by (rule ring.view_front, intro ring.inv_rest)
qed

lemma writer_pop_inv:
  assumes inv: "wq_inv ops w" and pc: "wq_writer w = WReady" and ne: "ring_count (wq_q w) \<noteq> 0"
  shows "wq_inv ops (wake_nonfull (w\<lparr>wq_q := ring_rest WQ_SLOTS (wq_q w),
    wq_writer := WWrite (fst (ring_front (wq_q w))) (snd (ring_front (wq_q w))) 0\<rparr>))" (is "wq_inv _ (wake_nonfull ?v)")
proof -
  note items = wq_items_cons [OF wq_invD(4) [OF inv] ne]
  have b: "wq_bufs_ok ?v" using wq_invD(1) [OF inv] pc items by (simp add: wq_bufs_ok_def wq_bufs_def)
  have t: "wq_trace ?v = wq_trace w" using pc items(1) by (simp add: wq_trace_def)
  have len: "snd (ring_front (wq_q w)) \<le> WQ_CHUNK" using wq_invD(1) [OF inv] items(1) by (simp add: wq_bufs_ok_def)
  have "wq_inv ops ?v"
  proof (rule wq_invI [OF inv b])
    show "sink_ok ?v" using wq_invD(2) [OF inv] by (cases "wq_prod w") (simp_all add: sink_ok_def)
    show "writer_ok ?v" using len by (simp add: writer_ok_def)
  qed (simp_all add: t)
  then show ?thesis by (rule inv_wake)
qed

lemma write_part:
  assumes "k \<le> len - off"
  shows "take k (drop off m) @ drop (off + k) (take len m) = drop off (take len m)"
proof -
  have "take k (drop off (take len m)) = take k (drop off m)"
    using assms by (simp add: drop_take min_absorb1)
  moreover have "drop k (drop off (take len m)) = drop (off + k) (take len m)" by (simp add: add.commute)
  ultimately show ?thesis using append_take_drop_id [of k "drop off (take len m)"] by simp
qed

lemma writer_write_inv:
  assumes inv: "wq_inv ops w" and pc: "wq_writer w = WWrite b len off" and st: "writer_main n w = Some w'"
  shows "wq_inv ops w'"
proof -
  let ?k = "min n (len - off)"
  have wok: "len \<le> WQ_CHUNK" "off \<le> len" using wq_invD(3) [OF inv] pc by (simp_all add: writer_ok_def)
  have sk: "sink_ok (w\<lparr>wq_err := e, wq_writer := WReturn b\<rparr>)" "sink_ok (w\<lparr>wq_writer := WReturn b\<rparr>)"
    "sink_ok (w\<lparr>wq_file := f, wq_writer := WWrite b len m\<rparr>)" for e f m
    using wq_invD(2) [OF inv] pc by (cases "wq_prod w"; simp add: sink_ok_def)+
  have bk: "wq_bufs_ok (w\<lparr>wq_err := e, wq_writer := WReturn b\<rparr>)" "wq_bufs_ok (w\<lparr>wq_writer := WReturn b\<rparr>)"
    "wq_bufs_ok (w\<lparr>wq_file := f, wq_writer := WWrite b len m\<rparr>)" for e f m
    using wq_invD(1) [OF inv] pc by (simp_all add: wq_bufs_ok_def wq_bufs_def)
  consider "off < len" "?k = 0" | "off < len" "?k \<noteq> 0" | "\<not> off < len" by blast
  then show ?thesis
  proof cases
    case 1
    then have "w' = w\<lparr>wq_err := True, wq_writer := WReturn b\<rparr>" using st pc by (simp add: writer_main_def Let_def)
    then show ?thesis using sk bk by (intro wq_invI [OF inv]) (simp_all add: writer_ok_def)
  next
    case 2
    then have w': "w' = w\<lparr>wq_file := wq_file w @ take ?k (drop off (wq_mem w b)), wq_writer := WWrite b len (off + ?k)\<rparr>"
      using st unfolding writer_main_def pc Let_def by (simp only: writer_pc.case 2 if_True if_False option.inject)
    have "take ?k (drop off (wq_mem w b)) @ drop (off + ?k) (take len (wq_mem w b)) = drop off (take len (wq_mem w b))"
      by (rule write_part) simp
    then have "wq_trace w' = wq_trace w" using pc by (simp add: w' wq_trace_def chunk_of_def)
    then show ?thesis using sk bk wok 2 by (intro wq_invI [OF inv]) (simp_all add: w' writer_ok_def)
  next
    case 3
    then have w': "w' = w\<lparr>wq_writer := WReturn b\<rparr>" using st pc by (simp add: writer_main_def)
    have "wq_trace w' = wq_trace w" using pc 3 wok by (simp add: w' wq_trace_def chunk_of_def)
    then show ?thesis using sk bk by (intro wq_invI [OF inv]) (simp_all add: w' writer_ok_def)
  qed
qed

lemma writer_return_inv:
  assumes inv: "wq_inv ops w" and pc: "wq_writer w = WReturn b" and st: "writer_main n w = Some w'"
  shows "wq_inv ops w'"
proof -
  let ?v = "w\<lparr>wq_free := b # wq_free w, wq_writer := WReady\<rparr>"
  have "w' = wake_free ?v" using st pc by (simp add: writer_main_def)
  moreover have "wq_inv ops (wake_free ?v)"
  proof (rule wq_invI [OF inv])
    have "wq_bufs_ok ?v" using wq_invD(1) [OF inv] pc by (simp add: wq_bufs_ok_def wq_bufs_def)
    then show "wq_bufs_ok (wake_free ?v)" by simp
    show "sink_ok (wake_free ?v)"
      using wq_invD(2) [OF inv] by (cases "wq_prod w") (simp_all add: sink_ok_def wake_free_def)
    have "wq_trace ?v = wq_trace w" using pc by (simp add: wq_trace_def)
    then show "wq_trace (wake_free ?v) = wq_trace w" by simp
  qed (simp_all add: writer_ok_def)
  ultimately show ?thesis by simp
qed

lemma writer_inv:
  assumes inv: "wq_inv ops w" and st: "writer_main n w = Some w'"
  shows "wq_inv ops w'"
proof (cases "wq_writer w")
  case WReady
  show ?thesis
  proof (cases "ring_count (wq_q w) = 0")
    case True
    let ?v = "w\<lparr>wq_writer := if wq_stop w then WDone else WWait\<rparr>"
    have "wq_inv ops ?v"
    proof (rule wq_invI [OF inv])
      show "sink_ok ?v" using wq_invD(2) [OF inv] WReady True by (cases "wq_prod w") (simp_all add: sink_ok_def)
    qed (use wq_invD(1) [OF inv] WReady True in \<open>simp_all add: wq_bufs_ok_def wq_bufs_def writer_ok_def wq_trace_def\<close>)
    moreover have "w' = ?v" using st WReady True by (simp add: writer_main_def split: if_splits)
    ultimately show ?thesis by simp
  next
    case False
    with st WReady writer_pop_inv [OF inv WReady False] show ?thesis by (simp add: writer_main_def Let_def)
  qed
qed (use writer_write_inv [OF inv] writer_return_inv [OF inv] st in \<open>simp_all add: writer_main_def\<close>)

section \<open>The producer\<close>

text \<open>Copying into the open chunk changes no queued or written bytes.\<close>

lemma copy_inv:
  assumes inv: "wq_inv ops w" and pc: "wq_prod w = KWrite d" and d: "d \<noteq> []" and ch: "wq_chunk w = Some b"
  shows "wq_inv ops (sink_write late d w)"
proof -
  let ?n = "min (length d) (WQ_CHUNK - wq_chunk_len w)" and ?l = "wq_chunk_len w"
  let ?m = "(wq_mem w)(b := mem_put ?l (take ?n d) (wq_mem w b))"
  let ?v = "sink_write late d w"
  have v: "?v = w\<lparr>wq_mem := ?m, wq_chunk_len := ?l + ?n,
      wq_prod := (if ?l + ?n = WQ_CHUNK then KFlush (ContWrite (drop ?n d)) else KWrite (drop ?n d))\<rparr>"
    using d ch by (simp add: sink_write_def Let_def)
  have ok: "?l \<le> WQ_CHUNK" "?l < WQ_CHUNK" "\<not> wq_stop w"
    using wq_invD(2) [OF inv] pc by (auto simp: sink_ok_def)
  have len: "length (wq_mem w c) = WQ_CHUNK" for c using wq_invD(1) [OF inv] by (simp add: wq_bufs_ok_def)
  have "distinct (wq_bufs w)" using wq_invD(1) [OF inv] by (rule wq_distinct)
  then have own: "b \<notin> fst ` set (wq_items w)" "b \<notin> set (writer_bufs (wq_writer w))"
    using ch by (auto simp: wq_bufs_def)
  have items: "map (chunk_of ?m) (wq_items w) = map (chunk_of (wq_mem w)) (wq_items w)"
    using own(1) by (auto simp: chunk_of_def image_iff)
  have fl: "being_written ?m (wq_writer w) = being_written (wq_mem w) (wq_writer w)"
    using own(2) by (cases "wq_writer w") (simp_all add: chunk_of_def)
  have op: "take (?l + ?n) (mem_put ?l (take ?n d) (wq_mem w b)) = take ?l (wq_mem w b) @ take ?n d"
    using ok(1) len [of b] by (simp add: mem_put_def)
  show ?thesis
  proof (rule wq_invI [OF inv])
    show "wq_bufs_ok ?v" using wq_invD(1) [OF inv] ok len unfolding v by (auto simp: wq_bufs_ok_def wq_bufs_def)
    show "sink_ok ?v" using ok ch unfolding v by (auto simp: sink_ok_def)
    show "writer_ok ?v" using wq_invD(3) [OF inv] unfolding v by (cases "wq_writer w") (simp_all add: writer_ok_def)
    show "wq_trace ?v = wq_trace w" using op ch pc unfolding v
      by (simp add: wq_trace_def items fl chunk_of_def)
  qed (simp_all add: v)
qed

lemma sink_write_inv:
  assumes inv: "wq_inv ops w" and pc: "wq_prod w = KWrite d"
  shows "wq_inv ops (sink_write late d w)"
proof (cases "d = [] \<or> wq_chunk w = None")
  case True
  let ?v = "sink_write late d w"
  have wr: "writer_ok ?v" if "?v = w\<lparr>wq_prod := x\<rparr>" for x
    using wq_invD(3) [OF inv] that by (cases "wq_writer w") (simp_all add: writer_ok_def)
  obtain x where v: "?v = w\<lparr>wq_prod := x\<rparr>" and x: "x = KAlloc d \<and> d \<noteq> [] \<and> wq_chunk w = None \<or> d = [] \<and> (x = KNext \<or> x = KFlush ContNext)"
    using True by (cases "d = []") (auto simp: sink_write_def)
  have "sink_ok ?v" using wq_invD(2) [OF inv] pc x unfolding v by (auto simp: sink_ok_def)
  moreover have "wq_bufs_ok ?v" using wq_invD(1) [OF inv] unfolding v by (simp add: wq_bufs_ok_def wq_bufs_def)
  moreover have "wq_trace ?v = wq_trace w" using pc x unfolding v by (auto simp: wq_trace_def)
  ultimately show ?thesis using wr [OF v] by (intro wq_invI [OF inv]) (simp_all add: v)
next
  case False
  then show ?thesis using copy_inv [OF inv pc] by auto
qed

lemma chunk_flush_inv:
  assumes inv: "wq_inv ops w" and pc: "wq_prod w = KFlush k"
  shows "wq_inv ops (chunk_flush k w)"
proof -
  have res: "wq_inv ops (w\<lparr>wq_chunk_len := l, wq_prod := resume k\<rparr>)"
    if l: "l = 0" "wq_chunk_len w = 0 \<or> wq_err w" for l
  proof (rule wq_invI [OF inv])
    show "wq_bufs_ok (w\<lparr>wq_chunk_len := l, wq_prod := resume k\<rparr>)"
      using wq_invD(1) [OF inv] by (simp add: wq_bufs_ok_def wq_bufs_def)
    show "sink_ok (w\<lparr>wq_chunk_len := l, wq_prod := resume k\<rparr>)"
      using wq_invD(2) [OF inv] pc l(1) by (cases k) (auto simp: sink_ok_def WQ_CHUNK_def)
    show "writer_ok (w\<lparr>wq_chunk_len := l, wq_prod := resume k\<rparr>)"
      using wq_invD(3) [OF inv] by (cases "wq_writer w") (simp_all add: writer_ok_def)
    show "wq_trace (w\<lparr>wq_chunk_len := l, wq_prod := resume k\<rparr>) = wq_trace w"
      if "\<not> wq_err (w\<lparr>wq_chunk_len := l, wq_prod := resume k\<rparr>)"
      using l that pc by (cases k; cases "wq_chunk w") (simp_all add: wq_trace_def chunk_of_def)
  qed simp_all
  have res0: "wq_inv ops (w\<lparr>wq_prod := resume k\<rparr>)" if z: "wq_chunk_len w = 0"
  proof -
    have same: "w\<lparr>wq_prod := resume k\<rparr> = w\<lparr>wq_chunk_len := 0, wq_prod := resume k\<rparr>" using z by simp
    show ?thesis unfolding same by (rule res) (simp_all add: z)
  qed
  show ?thesis
  proof (cases "wq_chunk w")
    case None
    then have "wq_chunk_len w = 0" using wq_invD(2) [OF inv] pc by (simp add: sink_ok_def)
    with None res0 show ?thesis by (simp add: chunk_flush_def)
  next
    case (Some b)
    have cnt: "ring_count (wq_q w) < WQ_SLOTS" using wq_count [OF wq_invD(1) [OF inv]] Some by simp
    consider "wq_chunk_len w = 0" | "wq_chunk_len w \<noteq> 0" "wq_err w" | "wq_chunk_len w \<noteq> 0" "\<not> wq_err w" by blast
    then show ?thesis
    proof cases
      case 1
      with Some res0 show ?thesis by (simp add: chunk_flush_def)
    next
      case 2
      with Some res [of 0] show ?thesis by (simp add: chunk_flush_def)
    next
      case 3
      let ?v = "w\<lparr>wq_q := ring_put WQ_SLOTS (b, wq_chunk_len w) (wq_q w), wq_chunk := None, wq_prod := KGet k\<rparr>"
      have "length (wq_items w) < WQ_SLOTS" using cnt by simp
      note put = ring.inv_put [OF wq_invD(4) [OF inv] this] ring.view_put [OF wq_invD(4) [OF inv] this]
      have sk: "wq_chunk_len w \<le> WQ_CHUNK" "\<not> wq_stop w" using wq_invD(2) [OF inv] pc by (auto simp: sink_ok_def)
      have "wq_inv ops (wake_writer ?v)"
      proof (rule wq_invI [OF inv])
        have "wq_bufs_ok ?v" using wq_invD(1) [OF inv] put 3 sk Some by (auto simp: wq_bufs_ok_def wq_bufs_def)
        then show "wq_bufs_ok (wake_writer ?v)" by simp
        have "sink_ok ?v" using sk by (simp add: sink_ok_def)
        then show "sink_ok (wake_writer ?v)" by (rule sink_ok_wake)
        show "writer_ok (wake_writer ?v)"
          using wq_invD(3) [OF inv] sk by (cases "wq_writer w") (simp_all add: writer_ok_def wake_writer_def)
        have "wq_trace ?v = wq_trace w" using put(2) Some pc by (simp add: wq_trace_def chunk_of_def)
        then show "wq_trace (wake_writer ?v) = wq_trace w" by simp
      qed simp
      with 3 Some cnt show ?thesis by (simp add: chunk_flush_def)
    qed
  qed
qed

lemma get_inv:
  assumes inv: "wq_inv ops w" and ch: "wq_chunk w = None" and st: "\<not> wq_stop w"
  shows "wq_prod w = KAlloc d \<Longrightarrow> wq_inv ops (get_for_write d w)"
    and "wq_prod w = KGet k \<Longrightarrow> wq_inv ops (get_for_flush k w)"
proof -
  have bufs: "wq_bufs_ok (w\<lparr>wq_prod := x\<rparr>)" "wq_bufs_ok (w\<lparr>wq_err := e, wq_prod := x\<rparr>)" "wq_bufs_ok (w\<lparr>wq_chunk_len := l, wq_prod := x\<rparr>)"
    for x e l using wq_invD(1) [OF inv] by (simp_all add: wq_bufs_ok_def wq_bufs_def)
  have take: "wq_bufs_ok (w\<lparr>wq_free := bs, wq_chunk := Some b, wq_prod := x\<rparr>)"
    "wq_bufs_ok (w\<lparr>wq_free := bs, wq_chunk := Some b, wq_chunk_len := l, wq_prod := x\<rparr>)" if "wq_free w = b # bs" for b bs x l
    using wq_invD(1) [OF inv] that ch by (simp_all add: wq_bufs_ok_def wq_bufs_def)
  have wr: "writer_ok v" if "wq_writer v = wq_writer w" "wq_q v = wq_q w" "wq_stop v = wq_stop w" for v
    using wq_invD(3) [OF inv] that by (cases "wq_writer w") (simp_all add: writer_ok_def)
  {
    assume pc: "wq_prod w = KAlloc d"
    have l: "wq_chunk_len w = 0" "d \<noteq> []" using wq_invD(2) [OF inv] pc ch by (auto simp: sink_ok_def)
    show "wq_inv ops (get_for_write d w)"
      using bufs take wr l pc ch st
      by (intro wq_invI [OF inv])
        (auto simp: get_for_write_def sink_ok_def wq_trace_def chunk_of_def WQ_CHUNK_def split: list.splits)
  next
    assume pc: "wq_prod w = KGet k"
    have res: "sink_ok (w\<lparr>wq_chunk_len := 0, wq_prod := resume k\<rparr>)"
      "sink_ok (w\<lparr>wq_free := bs, wq_chunk := Some b, wq_chunk_len := 0, wq_prod := resume k\<rparr>)" for b bs
      using st by (cases k; simp add: sink_ok_def WQ_CHUNK_def)+
    have tr: "pc_bytes (resume k) = cont_bytes k" by (cases k) simp_all
    show "wq_inv ops (get_for_flush k w)"
      using bufs take wr pc ch st res wq_invD(2) [OF inv]
      by (intro wq_invI [OF inv])
        (auto simp: get_for_flush_def sink_ok_def wq_trace_def chunk_of_def tr split: list.splits)
  }
qed

lemma sink_inv:
  assumes inv: "wq_inv ops w" and st: "sink_step late w = Some w'"
  shows "wq_inv ops w'"
proof -
  have pcupd: "wq_inv ops (w\<lparr>wq_ops := os, wq_prod := x\<rparr>)"
    if "sink_ok (w\<lparr>wq_ops := os, wq_prod := x\<rparr>)"
      "\<not> wq_err w \<Longrightarrow> wq_trace (w\<lparr>wq_ops := os, wq_prod := x\<rparr>) = wq_trace w" for os x
  proof (rule wq_invI [OF inv])
    show "wq_bufs_ok (w\<lparr>wq_ops := os, wq_prod := x\<rparr>)" using wq_invD(1) [OF inv] by (simp add: wq_bufs_ok_def wq_bufs_def)
    show "writer_ok (w\<lparr>wq_ops := os, wq_prod := x\<rparr>)"
      using wq_invD(3) [OF inv] by (cases "wq_writer w") (simp_all add: writer_ok_def)
  qed (use that in simp_all)
  show ?thesis
  proof (cases "wq_prod w")
    case KNext
    then have ok: "\<not> wq_stop w" "wq_chunk_len w < WQ_CHUNK" "wq_chunk w = None \<Longrightarrow> wq_chunk_len w = 0"
      using wq_invD(2) [OF inv] by (auto simp: sink_ok_def)
    then show ?thesis
      using st KNext wq_invD(2) [OF inv]
      by (auto simp: sink_step_def next_op_def sink_ok_def wq_trace_def intro!: pcupd split: list.splits sink_op.splits if_splits)
  next
    case (KWrite d)
    with st sink_write_inv [OF inv] show ?thesis by (auto simp: sink_step_def)
  next
    case (KAlloc d)
    moreover from this have "wq_chunk w = None" "\<not> wq_stop w" using wq_invD(2) [OF inv] by (auto simp: sink_ok_def)
    ultimately show ?thesis using st get_inv(1) [OF inv] by (auto simp: sink_step_def)
  next
    case (KFlush k)
    with st chunk_flush_inv [OF inv] show ?thesis by (auto simp: sink_step_def)
  next
    case (KGet k)
    moreover from this have "wq_chunk w = None" "\<not> wq_stop w" using wq_invD(2) [OF inv] by (auto simp: sink_ok_def)
    ultimately show ?thesis using st get_inv(2) [OF inv] by (auto simp: sink_step_def)
  next
    case KDrain
    let ?x = "if ring_count (wq_q w) \<noteq> 0 \<and> \<not> wq_err w then KDrainSleep else KNext"
    have "wq_inv ops (w\<lparr>wq_ops := wq_ops w, wq_prod := ?x\<rparr>)"
      using wq_invD(2) [OF inv] KDrain by (intro pcupd) (auto simp: sink_ok_def wq_trace_def WQ_CHUNK_def)
    moreover have "w' = w\<lparr>wq_ops := wq_ops w, wq_prod := ?x\<rparr>" using st KDrain by (simp add: sink_step_def)
    ultimately show ?thesis by simp
  qed (use st in \<open>simp_all add: sink_step_def\<close>)
qed

lemma close_inv:
  assumes inv: "wq_inv ops w" and pc: "wq_prod w = KNext" and os: "wq_ops w = []"
  shows "wq_inv ops (wq_close w)"
  unfolding wq_close_def
proof (rule wq_invI [OF inv])
  let ?v = "w\<lparr>wq_stop := True, wq_prod := KClosed\<rparr>"
  have "wq_bufs_ok ?v" using wq_invD(1) [OF inv] by (simp add: wq_bufs_ok_def wq_bufs_def)
  then show "wq_bufs_ok (wake_writer ?v)" by simp
  have "sink_ok ?v" using wq_invD(2) [OF inv] pc os by (auto simp: sink_ok_def)
  then show "sink_ok (wake_writer ?v)" by (rule sink_ok_wake)
  show "writer_ok (wake_writer ?v)"
    using wq_invD(3) [OF inv] by (cases "wq_writer w") (simp_all add: writer_ok_def wake_writer_def)
  have "wq_trace ?v = wq_trace w" using pc by (simp add: wq_trace_def)
  then show "wq_trace (wake_writer ?v) = wq_trace w" by simp
qed simp

lemma wq_reach_inv: "wq_reach ops w \<Longrightarrow> wq_inv ops w"
proof (induction rule: wq_reach.induct)
  case (step w w')
  from step.hyps(2) step.IH show ?case
    by (cases rule: wq_step.cases) (auto intro: writer_inv sink_inv close_inv inv_wake)
qed (rule wq_open_inv)

section \<open>The end of the file\<close>

text \<open>A request list that ends with the flush of \<open>pcapng_close\<close> leaves no open chunk.\<close>

definition tail_ok :: "wq \<Rightarrow> bool" where
  "tail_ok w \<longleftrightarrow>
     (if wq_ops w \<noteq> [] then last (wq_ops w) = SinkFlush
      else wq_prod w \<in> {KFlush ContDrain, KNonfullSleep ContDrain, KGet ContDrain, KGetSleep ContDrain, KDrain, KDrainSleep}
        \<or> wq_prod w \<in> {KNext, KClosed} \<and> wq_chunk_len w = 0)"

lemma tail_wake:
  "tail_ok w \<Longrightarrow> tail_ok (wake_writer w)" "tail_ok w \<Longrightarrow> tail_ok (wake_free w)" "tail_ok w \<Longrightarrow> tail_ok (wake_nonfull w)"
  by (auto simp: tail_ok_def wake_free_def wake_nonfull_def split: sink_pc.splits if_splits)

lemma tail_cong:
  "tail_ok w \<Longrightarrow> wq_ops v = wq_ops w \<Longrightarrow> wq_prod v = wq_prod w \<Longrightarrow> wq_chunk_len v = wq_chunk_len w \<Longrightarrow> tail_ok v"
  by (auto simp: tail_ok_def)

lemma tail_writer: "tail_ok w \<Longrightarrow> writer_main n w = Some w' \<Longrightarrow> tail_ok w'"
  by (auto simp: writer_main_def Let_def split: writer_pc.splits if_splits intro!: tail_wake elim!: tail_cong)

lemma tail_sink:
  assumes "wq_inv ops w" and "tail_ok w" and "sink_step late w = Some w'"
  shows "tail_ok w'"
proof (cases "wq_prod w")
  case KNext
  with assms(2,3) show ?thesis
    by (auto simp: sink_step_def next_op_def tail_ok_def split: list.splits sink_op.splits if_splits)
next
  case (KFlush k)
  have "wq_chunk w = None \<Longrightarrow> wq_chunk_len w = 0" using wq_invD(2) [OF assms(1)] KFlush by (simp add: sink_ok_def)
  with KFlush assms(2,3) show ?thesis
    by (cases k) (auto simp: sink_step_def chunk_flush_def tail_ok_def split: option.splits if_splits)
next
  case (KGet k)
  with assms(2,3) show ?thesis
    by (cases k) (auto simp: sink_step_def get_for_flush_def tail_ok_def split: list.splits if_splits)
next
  case KDrain
  moreover have "wq_chunk_len w = 0" using wq_invD(2) [OF assms(1)] KDrain by (simp add: sink_ok_def)
  ultimately show ?thesis using assms(2,3) by (auto simp: sink_step_def tail_ok_def split: if_splits)
qed (use assms(2,3) in \<open>auto simp: sink_step_def sink_write_def get_for_write_def tail_ok_def Let_def
      split: list.splits option.splits if_splits\<close>)

lemma wq_reach_tail:
  "wq_reach ops w \<Longrightarrow> ops \<noteq> [] \<Longrightarrow> last ops = SinkFlush \<Longrightarrow> tail_ok w"
proof (induction rule: wq_reach.induct)
  case (step w w')
  then have t: "tail_ok w" and i: "wq_inv ops w" using wq_reach_inv by auto
  from step.hyps(2) show ?case
  proof cases
    case close
    then show ?thesis using t by (auto simp: wq_close_def tail_ok_def)
  qed (use t i in \<open>auto intro: tail_writer tail_sink tail_wake\<close>)
qed (simp add: wq_open_def tail_ok_def)

section \<open>Sleeping producers\<close>

definition sink_asleep :: "wq \<Rightarrow> bool" where
  "sink_asleep w \<longleftrightarrow> (case wq_prod w of KAllocSleep d \<Rightarrow> True | KGetSleep k \<Rightarrow> True | KDrainSleep \<Rightarrow> True | KNonfullSleep k \<Rightarrow> True | _ \<Rightarrow> False)"

text \<open>An upper bound on the writer's steps until it returns its next buffer.\<close>

definition writer_work :: "wq \<Rightarrow> nat" where
  "writer_work w = (case wq_writer w of WReady \<Rightarrow> WQ_CHUNK + 3 | WWrite b len off \<Rightarrow> len - off + 2 | WReturn b \<Rightarrow> 1 | _ \<Rightarrow> 0)"

lemma asleep_busy:
  assumes inv: "wq_inv ops w" and sl: "sink_asleep w"
  shows "ring_count (wq_q w) \<noteq> 0 \<or> writer_bufs (wq_writer w) \<noteq> []" and "\<not> wq_stop w"
proof -
  have cnt: "length (wq_free w) + ring_count (wq_q w) + (case wq_chunk w of None \<Rightarrow> 0 | Some b \<Rightarrow> 1)
    + length (writer_bufs (wq_writer w)) = WQ_SLOTS" using wq_count [OF wq_invD(1) [OF inv]] .
  have "wq_free w = [] \<and> wq_chunk w = None \<or> ring_count (wq_q w) \<noteq> 0 \<or> writer_bufs (wq_writer w) \<noteq> []"
    using wq_invD(2) [OF inv] sl by (auto simp: sink_ok_def sink_asleep_def split: sink_pc.splits)
  with cnt show "ring_count (wq_q w) \<noteq> 0 \<or> writer_bufs (wq_writer w) \<noteq> []" by (auto simp: WQ_SLOTS_def)
  show "\<not> wq_stop w" using wq_invD(2) [OF inv] sl by (auto simp: sink_ok_def sink_asleep_def)
qed

lemma writer_works:
  assumes inv: "wq_inv ops w" and sl: "sink_asleep w"
  shows "\<exists>w'. writer_main n w = Some w' \<and> (sink_asleep w' \<longrightarrow> writer_work w' < writer_work w)"
proof (cases "wq_writer w")
  case WReady
  then have ne: "ring_count (wq_q w) \<noteq> 0" using asleep_busy(1) [OF inv sl] by simp
  have "snd (ring_front (wq_q w)) \<le> WQ_CHUNK"
    using wq_invD(1) [OF inv] wq_items_cons(1) [OF wq_invD(4) [OF inv] ne] by (simp add: wq_bufs_ok_def)
  with WReady ne show ?thesis by (simp add: writer_main_def Let_def writer_work_def)
next
  case (WWrite b len off)
  then show ?thesis by (auto simp: writer_main_def Let_def writer_work_def)
next
  case (WReturn b)
  have "\<not> sink_asleep (wake_free (w\<lparr>wq_free := b # wq_free w, wq_writer := WReady\<rparr>))"
    using wq_invD(2) [OF inv] by (cases "wq_prod w") (simp_all add: sink_asleep_def wake_free_def sink_ok_def)
  with WReturn show ?thesis by (simp add: writer_main_def)
next
  case WWait
  then show ?thesis using asleep_busy(1) [OF inv sl] wq_invD(3) [OF inv] by (simp add: writer_ok_def)
next
  case WDone
  then show ?thesis using asleep_busy(2) [OF inv sl] wq_invD(3) [OF inv] by (simp add: writer_ok_def)
qed

section \<open>Properties\<close>

text \<open>
  C18. The asynchronous writer is lossless: under every interleaving, every split of
  \<open>fwrite\<close> and every timing of the live flush, as long as no write error occurred, the file is a
  prefix of the bytes handed to \<open>sink_write\<close>, in order; and when \<open>pcapng_close\<close> has flushed, stopped
  and joined the writer, the file holds exactly all of them.
\<close>

theorem writer_lossless:
  assumes "wq_reach ops w" and "ops \<noteq> []" and "last ops = SinkFlush" and "\<not> wq_err w"
  shows "(\<exists>rest. wq_file w @ rest = concat (map op_bytes ops))
    \<and> (wq_prod w = KClosed \<and> wq_writer w = WDone \<longrightarrow> wq_file w = concat (map op_bytes ops))"
proof -
  have inv: "wq_inv ops w" using assms(1) by (rule wq_reach_inv)
  then have tr: "wq_trace w = concat (map op_bytes ops)" using assms(4) by (simp add: wq_inv_def)
  have "wq_file w = concat (map op_bytes ops)" if "wq_prod w = KClosed" "wq_writer w = WDone"
  proof -
    have "wq_ops w = []" using wq_invD(2) [OF inv] that by (simp add: sink_ok_def)
    moreover have "wq_chunk_len w = 0"
      using wq_reach_tail [OF assms(1-3)] that calculation by (simp add: tail_ok_def)
    moreover have "wq_items w = []" using wq_invD(3) [OF inv] that by (simp add: writer_ok_def ring_view_def)
    ultimately show ?thesis using tr that by (cases "wq_chunk w") (simp_all add: wq_trace_def chunk_of_def)
  qed
  moreover have "\<exists>rest. wq_file w @ rest = concat (map op_bytes ops)" using tr by (auto simp: wq_trace_def)
  ultimately show ?thesis by blast
qed

theorem writer_lossless_witness:
  "\<exists>rest. wq_file (wq_open [SinkWrite [1, 2], SinkFlush]) @ rest = [1, 2]"
  using writer_lossless [OF wq_reach.init, of "[SinkWrite [1, 2], SinkFlush]"] by (simp add: wq_open_def)



lemma sink_reach: "wq_reach ops w \<Longrightarrow> sink_step late w = Some w' \<Longrightarrow> wq_reach ops w'"
  by (blast intro: wq_reach.step wq_step.sink)

text \<open>
  \<open>pcapng_flush\<close> does not wait for the last chunk: it returns as soon as the queue is
  empty, and the chunk the writer has just dequeued may not be written at all yet. So after a flush
  with no error the file can still lack everything that was flushed.
\<close>

theorem flush_may_return_early:
  "\<exists>w. wq_reach [SinkWrite [7], SinkFlush] w \<and> wq_prod w = KNext \<and> wq_ops w = [] \<and> \<not> wq_err w \<and> wq_file w = []"
proof -
  let ?ops = "[SinkWrite [7], SinkFlush]"
  let ?m = "(\<lambda>_. replicate WQ_CHUNK 0) :: nat \<Rightarrow> bytes"
  let ?m1 = "?m(31 := mem_put 0 [7] (?m 31))"
  let ?q = "ring_put WQ_SLOTS (31, 1) (ring_empty (0, 0))"
  have free: "rev [0..<WQ_SLOTS] = 31 # rev [0..<31]" by (simp add: WQ_SLOTS_def numeral_eq_Suc)
  have sz: "min (Suc 0) WQ_CHUNK = 1" "WQ_CHUNK \<noteq> Suc 0" "Suc 0 \<noteq> WQ_CHUNK" "WQ_SLOTS \<noteq> 0" by (simp_all add: WQ_CHUNK_def WQ_SLOTS_def)
  have sn: "ring_count (ring_empty (0, 0)) = 0" by (simp add: ring_empty_def)
  let ?w = "wq_open ?ops"
  have 1: "wq_reach ?ops (?w\<lparr>wq_ops := [SinkFlush], wq_prod := KWrite [7]\<rparr>)"
    by (rule sink_reach [OF wq_reach.init]) (simp add: wq_open_def sink_step_def next_op_def)
  have 2: "wq_reach ?ops (?w\<lparr>wq_ops := [SinkFlush], wq_prod := KAlloc [7]\<rparr>)"
    by (rule sink_reach [OF 1]) (simp add: wq_open_def sink_step_def sink_write_def)
  have 3: "wq_reach ?ops (?w\<lparr>wq_ops := [SinkFlush], wq_free := rev [0..<31], wq_chunk := Some 31, wq_prod := KWrite [7]\<rparr>)"
    by (rule sink_reach [OF 2]) (simp add: wq_open_def sink_step_def get_for_write_def free)
  have 4: "wq_reach ?ops (?w\<lparr>wq_ops := [SinkFlush], wq_free := rev [0..<31], wq_chunk := Some 31, wq_mem := ?m1,
      wq_chunk_len := 1, wq_prod := KWrite []\<rparr>)"
    by (rule sink_reach [OF 3]) (simp add: wq_open_def sink_step_def sink_write_def Let_def sz)
  have 5: "wq_reach ?ops (?w\<lparr>wq_ops := [SinkFlush], wq_free := rev [0..<31], wq_chunk := Some 31, wq_mem := ?m1,
      wq_chunk_len := 1, wq_prod := KNext\<rparr>)"
    by (rule sink_reach [OF 4, of False]) (simp add: wq_open_def sink_step_def sink_write_def)
  have 6: "wq_reach ?ops (?w\<lparr>wq_ops := [], wq_free := rev [0..<31], wq_chunk := Some 31, wq_mem := ?m1,
      wq_chunk_len := 1, wq_prod := KFlush ContDrain\<rparr>)"
    by (rule sink_reach [OF 5]) (simp add: wq_open_def sink_step_def next_op_def)
  have 7: "wq_reach ?ops (?w\<lparr>wq_ops := [], wq_free := rev [0..<31], wq_chunk := None, wq_mem := ?m1,
      wq_chunk_len := 1, wq_q := ?q, wq_prod := KGet ContDrain\<rparr>)"
    by (rule sink_reach [OF 6]) (simp add: wq_open_def sink_step_def chunk_flush_def wake_writer_def sz sn)
  have 8: "wq_reach ?ops (?w\<lparr>wq_ops := [], wq_free := rev [0..<31], wq_chunk := None, wq_mem := ?m1,
      wq_chunk_len := 1, wq_q := ring_rest WQ_SLOTS ?q, wq_prod := KGet ContDrain, wq_writer := WWrite 31 1 0\<rparr>)"
    by (rule wq_reach.step [OF 7 wq_step.writer [of 0]])
      (simp add: wq_open_def writer_main_def Let_def ring_put_def ring_front_def ring_empty_def wake_nonfull_def)
  have f31: "rev [0..<31] = 30 # rev [0..<30 :: nat]" by (simp add: numeral_eq_Suc)
  have 9: "wq_reach ?ops (?w\<lparr>wq_ops := [], wq_free := rev [0..<30], wq_chunk := Some 30, wq_mem := ?m1,
      wq_chunk_len := 0, wq_q := ring_rest WQ_SLOTS ?q, wq_prod := KDrain, wq_writer := WWrite 31 1 0\<rparr>)"
    by (rule sink_reach [OF 8]) (simp add: wq_open_def sink_step_def get_for_flush_def f31)
  have 10: "wq_reach ?ops (?w\<lparr>wq_ops := [], wq_free := rev [0..<30], wq_chunk := Some 30, wq_mem := ?m1,
      wq_chunk_len := 0, wq_q := ring_rest WQ_SLOTS ?q, wq_prod := KNext, wq_writer := WWrite 31 1 0\<rparr>)"
    by (rule sink_reach [OF 9]) (simp add: wq_open_def sink_step_def ring_rest_def ring_put_def ring_empty_def)
  then show ?thesis by (intro exI conjI) (rule 10, simp_all add: wq_open_def)
qed

end
