(* ===== verification/Command.thy ===== *)
theory Command
  imports Uhsif
begin

text \<open>
  The command layer of \<open>src/cmd.c\<close>: command packets, the serial send-and-wait protocol with its
  deadline and retries, and the acknowledgement flag the stream layer sets. What \<open>cmd_exec\<close> calls is
  the record \<open>cmd_env\<close> over a state \<open>'s\<close> that contains the \<open>cmd\<close> structure: \<open>transport_write\<close>,
  \<open>transport_events\<close> (which may run \<open>cmd_ack_event\<close> through the callbacks), \<open>transport_alive\<close> and the clock. The
  locale \<open>command_port\<close> states what the command layer relies on; the session of \<open>main.c\<close> is its
  interpretation. \<open>log_print\<close> is left out.
\<close>

section \<open>Definitions\<close>

record cmd =
  cm_seq :: u8
  cm_waiting :: bool
  cm_ack_seen :: bool
  cm_fatal :: bool
  cm_suppress :: bool

definition cmd_init :: cmd where
  "cmd_init = \<lparr>cm_seq = 0, cm_waiting = False, cm_ack_seen = False, cm_fatal = False, cm_suppress = True\<rparr>"

definition cmd_input_suppressed :: "cmd \<Rightarrow> bool" where
  "cmd_input_suppressed c = cm_suppress c"

definition cmd_ack_event :: "cmd \<Rightarrow> cmd" where
  "cmd_ack_event c = (if cm_waiting c then c\<lparr>cm_ack_seen := True\<rparr> else c)"

definition build_packet :: "cmd \<Rightarrow> nat \<Rightarrow> u32 \<Rightarrow> bytes" where
  "build_packet c cid param =
     (let w1 = push_bit 8 (ucast (cm_seq c)) OR of_nat cid;
          w3 = 0;
          w0 = push_bit 16 (ucast (uhsif_hdr_crc16 w1 param w3)) OR ucast UHSIF_CMD_MAGIC16
      in uhsif_put_le32 w0 @ uhsif_put_le32 w1 @ uhsif_put_le32 param @ uhsif_put_le32 w3)"

record 's cmd_env =
  ce_cmd :: "'s \<Rightarrow> cmd"
  ce_upd :: "(cmd \<Rightarrow> cmd) \<Rightarrow> 's \<Rightarrow> 's"
  ce_write :: "bytes \<Rightarrow> 's \<Rightarrow> int \<times> 's"
  ce_events :: "nat \<Rightarrow> 's \<Rightarrow> (bool \<times> 's) option"
  ce_alive :: "'s \<Rightarrow> bool"
  ce_now :: "'s \<Rightarrow> int \<times> 's"

definition cmd_tx_quiet :: "'s cmd_env \<Rightarrow> nat \<Rightarrow> u32 \<Rightarrow> 's \<Rightarrow> 's" where
  "cmd_tx_quiet e cid param s = snd (ce_write e (build_packet (ce_cmd e s) cid param) s)"

text \<open>
  The waiting loop; the flag says that it was left by the \<open>return\<close> inside it. \<open>None\<close>: it never
  ends.
\<close>

partial_function (option) cmd_wait :: "'s cmd_env \<Rightarrow> int \<Rightarrow> 's \<Rightarrow> (bool \<times> 's) option" where
  "cmd_wait e deadline s =
     (if fst (ce_now e s) < deadline
      then Option.bind (ce_events e 20 (snd (ce_now e s))) (\<lambda>r.
        if cm_ack_seen (ce_cmd e (snd r)) then Some (True, snd r)
        else if \<not> ce_alive e (snd r) then Some (False, snd r)
        else cmd_wait e deadline (snd r))
      else Some (False, snd (ce_now e s)))"

text \<open>The attempts that are left.\<close>

fun cmd_attempts :: "'s cmd_env \<Rightarrow> nat \<Rightarrow> u32 \<Rightarrow> nat \<Rightarrow> 's \<Rightarrow> (bool \<times> 's) option" where
  "cmd_attempts e cid param 0 s = Some (False, ce_upd e (cm_fatal_update (\<lambda>_. True)) s)"
| "cmd_attempts e cid param (Suc n) s =
     (let (rc, s) = ce_write e (build_packet (ce_cmd e s) cid param) s
      in if rc < 0 then Some (False, s)
         else let s = ce_upd e (\<lambda>c. c\<lparr>cm_suppress := False, cm_waiting := True, cm_ack_seen := False\<rparr>) s;
                  (now, s) = ce_now e s
              in Option.bind (cmd_wait e (now + UHSIF_CMD_TIMEOUT_MS) s) (\<lambda>(acked, s).
                 if acked then Some (True, ce_upd e (\<lambda>c. c\<lparr>cm_waiting := False, cm_seq := cm_seq c + 1\<rparr>) s)
                 else let s = ce_upd e (cm_waiting_update (\<lambda>_. False)) s
                      in if cm_ack_seen (ce_cmd e s) then Some (True, ce_upd e (\<lambda>c. c\<lparr>cm_seq := cm_seq c + 1\<rparr>) s)
                         else if \<not> ce_alive e s then Some (False, ce_upd e (cm_fatal_update (\<lambda>_. True)) s)
                         else cmd_attempts e cid param n s))"

definition cmd_exec :: "'s cmd_env \<Rightarrow> nat \<Rightarrow> u32 \<Rightarrow> 's \<Rightarrow> (bool \<times> 's) option" where
  "cmd_exec e cid param s = cmd_attempts e cid param UHSIF_CMD_RETRIES s"

text \<open>The list of commands of \<open>capture_init_cmds\<close> is run up to the first that fails.\<close>

fun exec_cmds :: "'s cmd_env \<Rightarrow> (nat \<times> u32) list \<Rightarrow> 's \<Rightarrow> (bool \<times> 's) option" where
  "exec_cmds e [] s = Some (True, s)"
| "exec_cmds e ((cid, param) # cs) s =
     Option.bind (cmd_exec e cid param s) (\<lambda>(ok, s). if \<not> ok then Some (False, s) else exec_cmds e cs s)"

definition capture_init_cmds :: "'s cmd_env \<Rightarrow> int \<Rightarrow> 's \<Rightarrow> (bool \<times> 's) option" where
  "capture_init_cmds e speed =
     exec_cmds e [(UHSIF_CMD_UPLOAD_PARAMS, 4092), (UHSIF_CMD_SPEED, of_int speed), (UHSIF_CMD_RESET, 0), (UHSIF_CMD_ENABLE, 1)]"

text \<open>One attempt: the packet, the flags, the wait and its three outcomes.\<close>

lemma attempt_unfold:
  assumes "ce_write e (build_packet (ce_cmd e s) cid param) s = (rc, s1)"
    and "ce_now e (ce_upd e (\<lambda>c. c\<lparr>cm_suppress := False, cm_waiting := True, cm_ack_seen := False\<rparr>) s1) = (now, s3)"
  shows "rc < 0 \<Longrightarrow> cmd_attempts e cid param (Suc n) s = Some (False, s1)"
    and "\<not> rc < 0 \<Longrightarrow> cmd_wait e (now + UHSIF_CMD_TIMEOUT_MS) s3 = None \<Longrightarrow> cmd_attempts e cid param (Suc n) s = None"
    and "\<not> rc < 0 \<Longrightarrow> cmd_wait e (now + UHSIF_CMD_TIMEOUT_MS) s3 = Some (acked, s4) \<Longrightarrow> s5 = ce_upd e (cm_waiting_update (\<lambda>_. False)) s4 \<Longrightarrow>
      cmd_attempts e cid param (Suc n) s =
       (if acked then Some (True, ce_upd e (\<lambda>c. c\<lparr>cm_waiting := False, cm_seq := cm_seq c + 1\<rparr>) s4)
        else if cm_ack_seen (ce_cmd e s5) then Some (True, ce_upd e (\<lambda>c. c\<lparr>cm_seq := cm_seq c + 1\<rparr>) s5)
        else if \<not> ce_alive e s5 then Some (False, ce_upd e (cm_fatal_update (\<lambda>_. True)) s5)
        else cmd_attempts e cid param n s5)"
proof -
  note step = cmd_attempts.simps(2) [of e cid param n s, unfolded Let_def assms(1) prod.case assms(2)]
  show "rc < 0 \<Longrightarrow> cmd_attempts e cid param (Suc n) s = Some (False, s1)" unfolding step by (rule if_P)
  show "\<not> rc < 0 \<Longrightarrow> cmd_wait e (now + UHSIF_CMD_TIMEOUT_MS) s3 = None \<Longrightarrow> cmd_attempts e cid param (Suc n) s = None"
    unfolding step by (simp only: if_False Option.bind.simps)
  show "\<not> rc < 0 \<Longrightarrow> cmd_wait e (now + UHSIF_CMD_TIMEOUT_MS) s3 = Some (acked, s4) \<Longrightarrow> s5 = ce_upd e (cm_waiting_update (\<lambda>_. False)) s4 \<Longrightarrow>
      cmd_attempts e cid param (Suc n) s =
       (if acked then Some (True, ce_upd e (\<lambda>c. c\<lparr>cm_waiting := False, cm_seq := cm_seq c + 1\<rparr>) s4)
        else if cm_ack_seen (ce_cmd e s5) then Some (True, ce_upd e (\<lambda>c. c\<lparr>cm_seq := cm_seq c + 1\<rparr>) s5)
        else if \<not> ce_alive e s5 then Some (False, ce_upd e (cm_fatal_update (\<lambda>_. True)) s5)
        else cmd_attempts e cid param n s5)"
    unfolding step by (simp only: if_False Option.bind.simps prod.case)
qed

declare cmd_attempts.simps(2) [simp del]

section \<open>What the command layer relies on\<close>

text \<open>
  The port: the \<open>cmd\<close> structure is a component of the state; writing a packet, reading the clock and
  pumping events leave it alone, but for acknowledgements; and \<open>sent\<close>, the packets written so far, is
  extended by writes only.
\<close>

locale command_port =
  fixes e :: "'s cmd_env" and sent :: "'s \<Rightarrow> bytes list" and wf :: "'s \<Rightarrow> bool"
  assumes get_upd: "ce_cmd e (ce_upd e f s) = f (ce_cmd e s)"
    and write_cmd: "ce_cmd e (snd (ce_write e pkt s)) = ce_cmd e s"
    and now_cmd: "ce_cmd e (snd (ce_now e s)) = ce_cmd e s"
    and events_cmd: "wf s \<Longrightarrow> ce_events e ms s = Some (b, s') \<Longrightarrow> ce_cmd e s' = ce_cmd e s \<or> ce_cmd e s' = cmd_ack_event (ce_cmd e s)"
    and sent_upd: "sent (ce_upd e f s) = sent s"
    and sent_write: "sent (snd (ce_write e pkt s)) = sent s @ [pkt]"
    and sent_now: "sent (snd (ce_now e s)) = sent s"
    and sent_events: "wf s \<Longrightarrow> ce_events e ms s = Some (b, s') \<Longrightarrow> sent s' = sent s"
    and wf_upd: "wf s \<Longrightarrow> wf (ce_upd e f s)"
    and wf_write: "wf s \<Longrightarrow> wf (snd (ce_write e pkt s))"
    and wf_now: "wf s \<Longrightarrow> wf (snd (ce_now e s))"
    and wf_events: "wf s \<Longrightarrow> ce_events e ms s = Some (b, s') \<Longrightarrow> wf s'"
begin

lemmas port_simps = get_upd write_cmd now_cmd sent_upd sent_write sent_now

text \<open>What a wait can do: nothing but set the acknowledgement flag.\<close>

lemma wait_effect:
  assumes "cmd_wait e deadline s = Some r" and "wf s"
  shows "wf (snd r) \<and> sent (snd r) = sent s \<and> (ce_cmd e (snd r) = ce_cmd e s \<or> ce_cmd e (snd r) = cmd_ack_event (ce_cmd e s))
    \<and> (fst r \<longrightarrow> cm_ack_seen (ce_cmd e (snd r)))"
proof -
  define Q where "Q = (\<lambda>s (r :: bool \<times> 's). wf (snd r) \<and> sent (snd r) = sent s
    \<and> (ce_cmd e (snd r) = ce_cmd e s \<or> ce_cmd e (snd r) = cmd_ack_event (ce_cmd e s)) \<and> (fst r \<longrightarrow> cm_ack_seen (ce_cmd e (snd r))))"
  define P where "P = (\<lambda>e' (deadline :: int) s (r :: bool \<times> 's). e' = e \<longrightarrow> wf s \<longrightarrow> Q s r)"
  have "P e deadline s r"
  proof (rule cmd_wait.raw_induct [of P, OF _ assms(1)])
    fix w e' deadline s r
    assume ih: "\<And>e deadline s r. w e deadline s = Some r \<Longrightarrow> P e deadline s r"
      and r: "(if fst (ce_now e' s) < deadline
        then Option.bind (ce_events e' 20 (snd (ce_now e' s))) (\<lambda>r.
          if cm_ack_seen (ce_cmd e' (snd r)) then Some (True, snd r)
          else if \<not> ce_alive e' (snd r) then Some (False, snd r) else w e' deadline (snd r))
        else Some (False, snd (ce_now e' s))) = Some r"
    show "P e' deadline s r" unfolding P_def
    proof (intro impI)
      assume e: "e' = e" and wf: "wf s"
      let ?s = "snd (ce_now e s)"
      have n: "wf ?s" using wf by (rule wf_now)
      show "Q s r"
      proof (cases "fst (ce_now e s) < deadline")
        case False
        with r e n show ?thesis by (auto simp: port_simps Q_def)
      next
        case True
        then obtain b t where t: "ce_events e 20 ?s = Some (b, t)" using r e by (auto simp: bind_eq_Some_conv)
        have a: "ce_cmd e t = ce_cmd e s \<or> ce_cmd e t = cmd_ack_event (ce_cmd e s)" "sent t = sent s" "wf t"
          using events_cmd [OF n t] sent_events [OF n t] wf_events [OF n t] by (simp_all add: port_simps)
        have idem: "cmd_ack_event (cmd_ack_event c) = cmd_ack_event c" for c by (simp add: cmd_ack_event_def)
        consider "cm_ack_seen (ce_cmd e t)" "r = (True, t)" | "r = (False, t)" | "w e deadline t = Some r"
          using r e True t by (auto split: if_splits)
        then show ?thesis
          by cases (use a ih [of e deadline t r] idem in \<open>auto simp: P_def Q_def\<close>)
      qed
    qed
  qed
  with assms(2) show ?thesis by (simp add: P_def Q_def)
qed

text \<open>What the attempts can do, whatever the transport answers.\<close>

lemma attempts_effect:
  assumes "cmd_attempts e cid param n s = Some r" and "\<not> cm_waiting (ce_cmd e s)" and "wf s"
  shows "\<exists>k \<le> n. sent (snd r) = sent s @ replicate k (build_packet (ce_cmd e s) cid param) \<and> (0 < n \<longrightarrow> 0 < k)
    \<and> cm_seq (ce_cmd e (snd r)) = (if fst r then cm_seq (ce_cmd e s) + 1 else cm_seq (ce_cmd e s))
    \<and> \<not> cm_waiting (ce_cmd e (snd r)) \<and> (fst r \<longrightarrow> cm_ack_seen (ce_cmd e (snd r)) \<and> cm_fatal (ce_cmd e (snd r)) = cm_fatal (ce_cmd e s))
    \<and> (\<not> fst r \<longrightarrow> cm_fatal (ce_cmd e (snd r)) \<or> (\<exists>t. fst (ce_write e (build_packet (ce_cmd e s) cid param) t) < 0))"
  using assms
proof (induction n arbitrary: s r)
  case 0
  then show ?case by (auto simp: port_simps)
next
  case (Suc n)
  let ?pkt = "build_packet (ce_cmd e s) cid param"
  obtain rc s1 where w: "ce_write e ?pkt s = (rc, s1)" by (cases "ce_write e ?pkt s")
  have s1: "ce_cmd e s1 = ce_cmd e s" "sent s1 = sent s @ [?pkt]" using write_cmd [of ?pkt s] sent_write [of ?pkt s] w by simp_all
  define s2 where "s2 = ce_upd e (\<lambda>c. c\<lparr>cm_suppress := False, cm_waiting := True, cm_ack_seen := False\<rparr>) s1"
  obtain now s3 where n: "ce_now e s2 = (now, s3)" by (cases "ce_now e s2")
  note unf = attempt_unfold [OF w n [unfolded s2_def]]
  show ?case
  proof (cases "rc < 0")
    case True
    then have "r = (False, s1)" using unf(1) Suc.prems(1) by simp
    moreover have "\<exists>t. fst (ce_write e ?pkt t) < 0" using w True by (metis fst_conv)
    ultimately show ?thesis using s1 Suc.prems(2) by (intro exI [of _ 1]) simp
  next
    case False
    have s2: "ce_cmd e s2 = (ce_cmd e s)\<lparr>cm_suppress := False, cm_waiting := True, cm_ack_seen := False\<rparr>" "sent s2 = sent s @ [?pkt]"
      by (simp_all add: s2_def port_simps s1)
    have s3: "ce_cmd e s3 = (ce_cmd e s)\<lparr>cm_suppress := False, cm_waiting := True, cm_ack_seen := False\<rparr>" "sent s3 = sent s @ [?pkt]"
      using now_cmd [of s2] sent_now [of s2] s2 unfolding n by simp_all
    have "cmd_wait e (now + UHSIF_CMD_TIMEOUT_MS) s3 \<noteq> None" using unf(2) [OF False, of n] Suc.prems(1) by (metis option.distinct(1))
    then obtain acked s4 where wt: "cmd_wait e (now + UHSIF_CMD_TIMEOUT_MS) s3 = Some (acked, s4)" by auto
    have i1: "wf s1" using wf_write [OF Suc.prems(3), of ?pkt] w by simp
    have i3: "wf s3" using wf_now [of s2, unfolded n] wf_upd [OF i1] by (simp add: s2_def)
    note eff = wait_effect [OF wt i3]
    have seq4: "cm_seq (ce_cmd e s4) = cm_seq (ce_cmd e s)" "cm_fatal (ce_cmd e s4) = cm_fatal (ce_cmd e s)"
      using eff s3(1) by (auto simp: cmd_ack_event_def)
    define s5 where "s5 = ce_upd e (cm_waiting_update (\<lambda>_. False)) s4"
    have s5: "ce_cmd e s5 = (ce_cmd e s4)\<lparr>cm_waiting := False\<rparr>" "sent s5 = sent s @ [?pkt]"
      using eff s3(2) by (simp_all add: s5_def port_simps)
    have pkt: "build_packet (ce_cmd e s5) cid param = ?pkt" by (simp add: build_packet_def s5(1) seq4)
    note eq = unf(3) [OF False wt s5_def, of n, unfolded Suc.prems(1)]
    consider "acked" | "\<not> acked" "cm_ack_seen (ce_cmd e s5)" | "\<not> acked" "\<not> cm_ack_seen (ce_cmd e s5)" "\<not> ce_alive e s5"
      | "\<not> acked" "\<not> cm_ack_seen (ce_cmd e s5)" "ce_alive e s5" by blast
    then show ?thesis
    proof cases
      case 1
      then have "r = (True, ce_upd e (\<lambda>c. c\<lparr>cm_waiting := False, cm_seq := cm_seq c + 1\<rparr>) s4)" using eq by simp
      then show ?thesis using 1 eff s3(2) seq4 by (intro exI [of _ 1]) (simp add: port_simps)
    next
      case 2
      then have "r = (True, ce_upd e (\<lambda>c. c\<lparr>cm_seq := cm_seq c + 1\<rparr>) s5)" using eq by simp
      then show ?thesis using 2 s5 seq4 by (intro exI [of _ 1]) (simp add: port_simps)
    next
      case 3
      then have "r = (False, ce_upd e (cm_fatal_update (\<lambda>_. True)) s5)" using eq by simp
      then show ?thesis using s5 seq4 by (intro exI [of _ 1]) (simp add: port_simps)
    next
      case 4
      then have run: "cmd_attempts e cid param n s5 = Some r" using eq by simp
      have i5: "\<not> cm_waiting (ce_cmd e s5)" "wf s5" using eff by (simp_all add: s5(1), simp add: s5_def wf_upd)
      from Suc.IH [OF run i5, unfolded pkt] obtain k where "k \<le> n" "sent (snd r) = sent s5 @ replicate k ?pkt" "0 < n \<longrightarrow> 0 < k"
        "cm_seq (ce_cmd e (snd r)) = (if fst r then cm_seq (ce_cmd e s5) + 1 else cm_seq (ce_cmd e s5))"
        "\<not> cm_waiting (ce_cmd e (snd r))" "fst r \<longrightarrow> cm_ack_seen (ce_cmd e (snd r)) \<and> cm_fatal (ce_cmd e (snd r)) = cm_fatal (ce_cmd e s5)"
        "\<not> fst r \<longrightarrow> cm_fatal (ce_cmd e (snd r)) \<or> (\<exists>t. fst (ce_write e ?pkt t) < 0)"
        by blast
      then show ?thesis using s5 seq4 by (intro exI [of _ "Suc k"]) (simp add: replicate_app_Cons_same)
    qed
  qed
qed

end

section \<open>Returning\<close>

text \<open>The state after \<open>n\<close> rounds of the waiting loop.\<close>

fun pumps :: "'s cmd_env \<Rightarrow> nat \<Rightarrow> 's \<Rightarrow> 's option" where
  "pumps e 0 s = Some s"
| "pumps e (Suc n) s = Option.bind (ce_events e 20 (snd (ce_now e s))) (\<lambda>r. pumps e n (snd r))"

text \<open>
  The clock reaches every time if events are pumped long enough, from the states in which the
  event pump returns.
\<close>

definition time_passes :: "'s cmd_env \<Rightarrow> ('s \<Rightarrow> bool) \<Rightarrow> bool" where
  "time_passes e I \<longleftrightarrow> (\<forall>s T. I s \<longrightarrow> (\<exists>n t. pumps e n s = Some t \<and> T \<le> fst (ce_now e t)))"

lemma wait_returns:
  "pumps e n s = Some t \<Longrightarrow> T \<le> fst (ce_now e t) \<Longrightarrow> cmd_wait e T s \<noteq> None"
proof (induction n arbitrary: s)
  case 0
  then have "\<not> fst (ce_now e s) < T" by simp
  then show ?case by (subst cmd_wait.simps) simp
next
  case (Suc n)
  then obtain b u where u: "ce_events e 20 (snd (ce_now e s)) = Some (b, u)" "pumps e n u = Some t"
    by (auto simp: bind_eq_Some_conv)
  with Suc.IH [OF u(2)] Suc.prems(2) show ?case by (subst cmd_wait.simps) auto
qed

context command_port
begin

lemma attempts_return:
  assumes "time_passes e wf" and "wf s"
  shows "\<exists>r. cmd_attempts e cid param n s = Some r \<and> wf (snd r)"
  using assms(2)
proof (induction n arbitrary: s)
  case 0
  then show ?case by (simp add: wf_upd)
next
  case (Suc n)
  have passes: "\<exists>n u. pumps e n t = Some u \<and> T \<le> fst (ce_now e u)" if "wf t" for t T
    using assms(1) that by (simp add: time_passes_def)
  obtain rc s1 where w: "ce_write e (build_packet (ce_cmd e s) cid param) s = (rc, s1)"
    by (cases "ce_write e (build_packet (ce_cmd e s) cid param) s")
  let ?s2 = "ce_upd e (\<lambda>c. c\<lparr>cm_suppress := False, cm_waiting := True, cm_ack_seen := False\<rparr>) s1"
  obtain now s3 where n: "ce_now e ?s2 = (now, s3)" by (cases "ce_now e ?s2")
  have i1: "wf s1" using wf_write [OF Suc.prems, of "build_packet (ce_cmd e s) cid param"] w by simp
  have i3: "wf s3" using wf_now [OF wf_upd [OF i1], of "\<lambda>c. c\<lparr>cm_suppress := False, cm_waiting := True, cm_ack_seen := False\<rparr>"] n by simp
  obtain k t where "pumps e k s3 = Some t" "now + UHSIF_CMD_TIMEOUT_MS \<le> fst (ce_now e t)" using passes [OF i3] by blast
  from wait_returns [OF this] obtain acked s4 where wt: "cmd_wait e (now + UHSIF_CMD_TIMEOUT_MS) s3 = Some (acked, s4)" by auto
  have i4: "wf s4" using wait_effect [OF wt i3] by simp
  define s5 where "s5 = ce_upd e (cm_waiting_update (\<lambda>_. False)) s4"
  have i5: "wf s5" using wf_upd [OF i4] by (simp add: s5_def)
  obtain r where r: "cmd_attempts e cid param n s5 = Some r" "wf (snd r)" using Suc.IH [OF i5] by blast
  show ?case
  proof (cases "rc < 0")
    case True
    with attempt_unfold(1) [OF w n] i1 show ?thesis by simp
  next
    case False
    from attempt_unfold(3) [OF w n False wt s5_def, of n] r wf_upd [OF i4] wf_upd [OF i5] show ?thesis by (cases r) auto
  qed
qed

end

end
