(* ===== verification/Os_Common.thy ===== *)
theory Os_Common
  imports Prelude
begin

text \<open>
  What the other files use of \<open>src/os_common.c\<close>. A computation that may end the process is a value
  of \<open>'a io\<close>: \<open>None\<close> if it does not return (an endless loop), \<open>Some (Inl e)\<close> if it ends the process
  with the error \<open>e\<close> (\<open>os_error\<close>, \<open>os_check\<close>, \<open>os_assert\<close> or a failed USB request), \<open>Some (Inr x)\<close> if
  it returns \<open>x\<close>.
\<close>

section \<open>Computations that may end the process\<close>

datatype os_exit = OsError string | UsbError string

type_synonym 'a io = "(os_exit + 'a) option"

abbreviation io_return :: "'a \<Rightarrow> 'a io" where
  "io_return x \<equiv> Some (Inr x)"

definition io_bind :: "'a io \<Rightarrow> ('a \<Rightarrow> 'b io) \<Rightarrow> 'b io" where
  "io_bind m f = Option.bind m (\<lambda>r. case r of Inl e \<Rightarrow> Some (Inl e) | Inr x \<Rightarrow> f x)"

definition os_error :: "string \<Rightarrow> 'a io" where
  "os_error msg = Some (Inl (OsError msg))"

definition os_check :: "bool \<Rightarrow> string \<Rightarrow> unit io" where
  "os_check cond msg = (if cond then io_return () else Some (Inl (OsError msg)))"

definition os_assert :: "bool \<Rightarrow> unit io" where
  "os_assert cond = (if cond then io_return () else Some (Inl (OsError ''assertion failed'')))"

named_theorems io_simps

lemma io_bind_simps [simp]:
  "io_bind (io_return x) f = f x" "io_bind (Some (Inl e)) f = Some (Inl e)" "io_bind None f = None"
  "io_bind m io_return = m"
  by (auto simp: io_bind_def split: option.split sum.split bind_splits)

lemma io_bind_assoc: "io_bind (io_bind m f) g = io_bind m (\<lambda>x. io_bind (f x) g)"
  by (auto simp: io_bind_def split: option.split sum.split bind_splits)

lemma io_bind_Inr [io_simps]: "io_bind m f = io_return y \<longleftrightarrow> (\<exists>x. m = io_return x \<and> f x = io_return y)"
  by (auto simp: io_bind_def split: option.split sum.split bind_splits)

lemma os_check_Inr [io_simps]: "os_check c msg = io_return x \<longleftrightarrow> c" "os_assert c = io_return x \<longleftrightarrow> c"
  by (simp_all add: os_check_def os_assert_def)

lemma os_error_Inr [io_simps]: "os_error msg \<noteq> io_return x"
  by (simp add: os_error_def)

lemma io_bind_mono [partial_function_mono]:
  assumes "mono_option B" and "\<And>x. mono_option (\<lambda>f. C x f)"
  shows "mono_option (\<lambda>f. io_bind (B f) (\<lambda>x. C x f))"
proof -
  have "mono_option (\<lambda>f. case y of Inl e \<Rightarrow> Some (Inl e) | Inr x \<Rightarrow> C x f)" for y
    using assms(2) by (cases y) (simp_all, simp add: monotone_def option.leq_refl)
  with assms(1) show ?thesis unfolding io_bind_def by (intro bind_mono)
qed

section \<open>The pseudo-random sequence of the transfer test\<close>

text \<open>One step on the static \<open>state\<close>; the result is the new state.\<close>

definition os_rand16 :: "u16 \<Rightarrow> u16 \<Rightarrow> u16" where
  "os_rand16 state seed =
     (let s = (if seed \<noteq> 0 then seed else state);
          s = s XOR push_bit 7 s;
          s = s XOR drop_bit 9 s
      in s XOR push_bit 8 s)"

section \<open>Packing small fields into bytes\<close>

text \<open>The C statement \<open>buf[i] |= v\<close>.\<close>

definition or_at :: "bytes \<Rightarrow> nat \<Rightarrow> u8 \<Rightarrow> bytes" where
  "or_at buf i v = buf[i := buf ! i OR v]"

lemma length_or_at [simp]: "length (or_at buf i v) = length buf"
  by (simp add: or_at_def)

lemma length_pack [simp]: "length (foldl (\<lambda>b i. or_at b (g i) (h i)) buf is) = length buf"
  by (induction "is" arbitrary: buf) simp_all

lemma field_position:
  fixes w q n m k :: nat
  assumes "0 < w" and "w * q = 8" and "n < 8" and "m * q + n div w \<noteq> k" and "k div q = m" and "k mod q * w \<le> n"
  shows "n - k mod q * w \<ge> w"
proof (rule ccontr)
  assume "\<not> ?thesis"
  then have "w * (k mod q) \<le> n" "n < w * Suc (k mod q)" using assms(6) by (simp_all add: mult.commute)
  then have "n div w = k mod q" by (rule div_nat_eqI)
  then have "m * q + n div w = k" using assms(5) by (metis div_mult_mod_eq)
  with assms(4) show False by simp
qed

text \<open>Fields of \<open>w\<close> bits, \<open>q\<close> to a byte, lowest first.\<close>

lemma bit_pack:
  assumes "0 < w" and "w * q = 8" and "\<And>i n. w \<le> n \<Longrightarrow> \<not> bit (f i) n" and "m < c" and "n < 8"
  shows "bit (foldl (\<lambda>b i. or_at b (i div q) (push_bit (i mod q * w) (f i))) (replicate c 0) [0..<k] ! m) n
    \<longleftrightarrow> m * q + n div w < k \<and> bit (f (m * q + n div w)) (n mod w)"
proof (induction k)
  case (Suc k)
  let ?b = "foldl (\<lambda>b i. or_at b (i div q) (push_bit (i mod q * w) (f i))) (replicate c 0) [0..<k]"
  let ?i = "m * q + n div w"
  have q: "0 < q" using assms(2) by (cases q) auto
  have nw: "n div w < q" using assms(1,2,5) by (simp add: div_less_iff_less_mult mult.commute)
  have len: "length ?b = c" by simp
  show ?case
  proof (cases "k = ?i")
    case True
    then have "k div q = m" "k mod q = n div w" using q nw by simp_all
    moreover have "n - n div w * w = n mod w" "n div w * w \<le> n" by (simp_all add: minus_div_mult_eq_mod)
    moreover have "\<not> bit (?b ! m) n" using Suc True by simp
    ultimately have "bit (or_at ?b (k div q) (push_bit (k mod q * w) (f k)) ! m) n \<longleftrightarrow> bit (f k) (n mod w)"
      using assms(4,5) len by (simp add: or_at_def bit_or_iff bit_push_bit_iff)
    then show ?thesis using True by simp
  next
    case False
    then have "\<not> (k mod q * w \<le> n \<and> bit (f k) (n - k mod q * w))" if "k div q = m"
      using field_position [OF assms(1,2,5), of m k] assms(3) that by auto
    then have "bit (or_at ?b (k div q) (push_bit (k mod q * w) (f k)) ! m) n \<longleftrightarrow> bit (?b ! m) n"
      using assms(4,5) len by (cases "k div q = m") (auto simp: or_at_def bit_or_iff bit_push_bit_iff)
    with Suc False show ?thesis by (auto simp: less_Suc_eq)
  qed
qed (use assms(4) in simp)

section \<open>Substring search\<close>

text \<open>The offset of the first match in the first \<open>n\<close> bytes; \<open>None\<close> is the null pointer.\<close>

definition find_str :: "bytes \<Rightarrow> nat \<Rightarrow> string \<Rightarrow> nat option" where
  "find_str buf n str =
     (let len = length str
      in if n = 0 \<or> len = 0 \<or> n < len then None
         else find (\<lambda>i. take len (drop i buf) = ascii str) [0..<n - len + 1])"

lemma find_upt:
  "find P [0..<n] = Some i \<longleftrightarrow> i < n \<and> P i \<and> (\<forall>j < i. \<not> P j)" "find P [0..<n] = None \<longleftrightarrow> (\<forall>j < n. \<not> P j)"
proof -
  show "find P [0..<n] = Some i \<longleftrightarrow> i < n \<and> P i \<and> (\<forall>j < i. \<not> P j)"
    by (auto simp: find_Some_iff)
  show "find P [0..<n] = None \<longleftrightarrow> (\<forall>j < n. \<not> P j)" by (auto simp: find_None_iff)
qed

lemma find_str_Some:
  "find_str buf n str = Some i \<longleftrightarrow> str \<noteq> [] \<and> i + length str \<le> n \<and> take (length str) (drop i buf) = ascii str
     \<and> (\<forall>j < i. take (length str) (drop j buf) \<noteq> ascii str)"
  by (auto simp: find_str_def Let_def find_upt simp del: upt_Suc)

lemma find_str_None:
  "find_str buf n str = None \<longleftrightarrow> str = [] \<or> (\<forall>j. j + length str \<le> n \<longrightarrow> take (length str) (drop j buf) \<noteq> ascii str)"
  by (auto simp: find_str_def Let_def find_upt simp del: upt_Suc)

end
