(* ===== verification/Transport.thy ===== *)
theory Transport
  imports Os_Common
begin

text \<open>
  The transport abstraction of \<open>src/transport.c\<close> and the replay backend of \<open>src/transport_replay.c\<close>. A
  backend is the table \<open>transport_ops\<close> over its private state; \<open>op_events\<close> and \<open>op_close\<close> return, besides
  their result, the pieces of the stream they handed to the feed callback, in order, and the optional
  operations are options. The replay backend reads a regular file: \<open>read\<close> gives the bytes asked for or, at the end,
  those that are left.
\<close>

section \<open>Definitions\<close>

record 't transport_ops =
  op_open :: "'t \<Rightarrow> (bool \<times> 't) io"
  op_discard :: "'t \<Rightarrow> 't"
  op_stream_mode :: "'t \<Rightarrow> 't io"
  op_events :: "nat \<Rightarrow> 't \<Rightarrow> bool \<times> bytes list \<times> 't"
  op_write :: "bytes \<Rightarrow> 't \<Rightarrow> int \<times> 't"
  op_alive :: "'t \<Rightarrow> bool"
  op_close :: "'t \<Rightarrow> bytes list \<times> 't"
  op_probe_upstream :: "(nat \<Rightarrow> 't \<Rightarrow> int \<times> 't) option"
  op_reset_device :: "('t \<Rightarrow> bool \<times> 't) option"

definition transport_open :: "'t transport_ops \<Rightarrow> 't \<Rightarrow> (bool \<times> 't) io" where "transport_open t = op_open t"
definition transport_discard :: "'t transport_ops \<Rightarrow> 't \<Rightarrow> 't" where "transport_discard t = op_discard t"
definition transport_stream_mode :: "'t transport_ops \<Rightarrow> 't \<Rightarrow> 't io" where "transport_stream_mode t = op_stream_mode t"
definition transport_events :: "'t transport_ops \<Rightarrow> nat \<Rightarrow> 't \<Rightarrow> bool \<times> bytes list \<times> 't" where "transport_events t = op_events t"
definition transport_write :: "'t transport_ops \<Rightarrow> bytes \<Rightarrow> 't \<Rightarrow> int \<times> 't" where "transport_write t = op_write t"
definition transport_alive :: "'t transport_ops \<Rightarrow> 't \<Rightarrow> bool" where "transport_alive t = op_alive t"
definition transport_close :: "'t transport_ops \<Rightarrow> 't \<Rightarrow> bytes list \<times> 't" where "transport_close t = op_close t"

definition transport_probe_upstream :: "'t transport_ops \<Rightarrow> nat \<Rightarrow> 't \<Rightarrow> int \<times> 't" where
  "transport_probe_upstream t window_ms p =
     (case op_probe_upstream t of None \<Rightarrow> (-1, p) | Some probe \<Rightarrow> probe window_ms p)"

definition transport_reset_device :: "'t transport_ops \<Rightarrow> 't \<Rightarrow> bool \<times> 't" where
  "transport_reset_device t p = (case op_reset_device t of None \<Rightarrow> (False, p) | Some reset \<Rightarrow> reset p)"

subsection \<open>Replay\<close>

definition DATA_CHUNK :: nat where "DATA_CHUNK = 4096"

text \<open>\<open>rp_rest\<close> is the part of the file behind the read position.\<close>

record replay_priv =
  rp_rest :: bytes
  rp_alive :: bool
  rp_stream_mode :: bool

definition tr_read :: "nat \<Rightarrow> replay_priv \<Rightarrow> bytes \<times> replay_priv" where
  "tr_read n p = (take n (rp_rest p), p\<lparr>rp_rest := drop n (rp_rest p)\<rparr>)"

definition tr_open :: "replay_priv \<Rightarrow> (bool \<times> replay_priv) io" where
  "tr_open p = io_return (True, p\<lparr>rp_alive := True\<rparr>)"

fun discard_loop :: "nat \<Rightarrow> replay_priv \<Rightarrow> replay_priv" where
  "discard_loop 0 p = p"
| "discard_loop (Suc i) p =
     (let (chunk, p) = tr_read 16 p
      in if length chunk < 16 then p\<lparr>rp_alive := False\<rparr> else discard_loop i p)"

definition tr_discard :: "replay_priv \<Rightarrow> replay_priv" where
  "tr_discard = discard_loop 2"

definition tr_stream_mode :: "replay_priv \<Rightarrow> replay_priv io" where
  "tr_stream_mode p = io_return (p\<lparr>rp_stream_mode := True\<rparr>)"

definition tr_events :: "nat \<Rightarrow> replay_priv \<Rightarrow> bool \<times> bytes list \<times> replay_priv" where
  "tr_events timeout_ms p =
     (if \<not> rp_alive p then (False, [], p)
      else let want = (if rp_stream_mode p then DATA_CHUNK else 16);
               (chunk, p) = tr_read want p
           in if chunk = [] then (False, [], p\<lparr>rp_alive := False\<rparr>)
              else (True, [chunk], if length chunk < want then p\<lparr>rp_alive := False\<rparr> else p))"

definition tr_write :: "bytes \<Rightarrow> replay_priv \<Rightarrow> int \<times> replay_priv" where
  "tr_write data p = (0, p)"

definition tr_alive :: "replay_priv \<Rightarrow> bool" where "tr_alive p = rp_alive p"

definition tr_probe_upstream :: "nat \<Rightarrow> replay_priv \<Rightarrow> int \<times> replay_priv" where
  "tr_probe_upstream window_ms p = (-1, p)"

definition tr_close :: "replay_priv \<Rightarrow> bytes list \<times> replay_priv" where "tr_close p = ([], p)"

definition replay_ops :: "replay_priv transport_ops" where
  "replay_ops = \<lparr>op_open = tr_open, op_discard = tr_discard, op_stream_mode = tr_stream_mode, op_events = tr_events,
     op_write = tr_write, op_alive = tr_alive, op_close = tr_close, op_probe_upstream = Some tr_probe_upstream,
     op_reset_device = None\<rparr>"

text \<open>\<open>os_alloc\<close> zeroes the private data; a file that cannot be opened ends the process.\<close>

definition transport_replay_new :: "bytes option \<Rightarrow> replay_priv io" where
  "transport_replay_new file =
     (case file of
        None \<Rightarrow> os_error ''could not open replay stream''
      | Some f \<Rightarrow> io_return \<lparr>rp_rest = f, rp_alive = False, rp_stream_mode = False\<rparr>)"

lemmas transport_defs = transport_open_def transport_discard_def transport_stream_mode_def transport_events_def
  transport_write_def transport_alive_def transport_close_def transport_probe_upstream_def transport_reset_device_def

section \<open>What replay delivers\<close>

lemma discard_skips: "32 \<le> length (rp_rest p) \<Longrightarrow> tr_discard p = p\<lparr>rp_rest := drop 32 (rp_rest p)\<rparr>"
  by (simp add: tr_discard_def numeral_2_eq_2 tr_read_def Let_def)

lemma events_command_phase:
  "rp_alive p \<Longrightarrow> \<not> rp_stream_mode p \<Longrightarrow> 16 \<le> length (rp_rest p) \<Longrightarrow>
     tr_events ms p = (True, [take 16 (rp_rest p)], p\<lparr>rp_rest := drop 16 (rp_rest p)\<rparr>)"
  by (auto simp: tr_events_def tr_read_def Let_def)

end
