(* ===== verification/Packet_Frames.thy ===== *)
theory Packet_Frames
  imports Packet_Time
begin

text \<open>
  Functional correctness of the frame parser: the wire format of capture frames as an encoder,
  the effect of one whole frame on the parser, and what a session writes for a sequence of frames.
\<close>

section \<open>Definitions\<close>

text \<open>
  A frame of the capture stream: timestamp wrap flag, 20-bit tick counter, then for a data frame
  the overflow, CRC and PHY error flags, the duration and the packet, for a status frame the line
  state, VBUS, trigger input and speed.
\<close>

datatype cap_frame =
    DataFrame bool u32 bool bool bool u16 bytes
  | StatusFrame bool u32 u8 bool bool u8

fun frame_ok :: "cap_frame \<Rightarrow> bool" where
  "frame_ok (DataFrame w ts ov ce de dur d) \<longleftrightarrow> ts AND 0xfff00000 = 0 \<and> length d \<le> 1273"
| "frame_ok (StatusFrame w ts ls vb tr sp) \<longleftrightarrow> ts AND 0xfff00000 = 0 \<and> ls AND 0xf0 = 0 \<and> sp AND 0xfc = 0"

definition frame_byte0 :: "u8 \<Rightarrow> int \<Rightarrow> bool \<Rightarrow> u32 \<Rightarrow> u8" where
  "frame_byte0 kind toggle wrap ts =
     kind OR (if toggle = 1 then 0x40 else 0) OR (if wrap then 0x10 else 0) OR ucast (drop_bit 16 ts)"

definition data_byte3 :: "bool \<Rightarrow> bool \<Rightarrow> bool \<Rightarrow> u32 \<Rightarrow> u8" where
  "data_byte3 ov ce de n =
     ucast (drop_bit 8 n) OR (if ov then 0x08 else 0) OR (if ce then 0x10 else 0) OR (if de then 0x20 else 0)"

definition status_byte3 :: "u8 \<Rightarrow> bool \<Rightarrow> bool \<Rightarrow> u8 \<Rightarrow> u8" where
  "status_byte3 ls vb tr sp = ls OR (if vb then 0x10 else 0) OR (if tr then 0x20 else 0) OR push_bit 6 sp"

fun frame_header :: "int \<Rightarrow> cap_frame \<Rightarrow> bytes" where
  "frame_header t (DataFrame w ts ov ce de dur d) =
     [frame_byte0 0x80 t w ts, ucast (drop_bit 8 ts), ucast ts,
      data_byte3 ov ce de (of_nat (7 + length d)), of_nat (7 + length d), ucast (drop_bit 8 dur), ucast dur]"
| "frame_header t (StatusFrame w ts ls vb tr sp) =
     [frame_byte0 0 t w ts, ucast (drop_bit 8 ts), ucast ts, status_byte3 ls vb tr sp]"

fun frame_payload :: "cap_frame \<Rightarrow> bytes" where
  "frame_payload (DataFrame w ts ov ce de dur d) = d"
| "frame_payload (StatusFrame w ts ls vb tr sp) = []"

definition frame_bytes :: "int \<Rightarrow> cap_frame \<Rightarrow> bytes" where
  "frame_bytes t f = frame_header t f @ frame_payload f"

fun frames_bytes :: "int \<Rightarrow> cap_frame list \<Rightarrow> bytes" where
  "frames_bytes t [] = []"
| "frames_bytes t (f # fs) = frame_bytes t f @ frames_bytes (1 - t) fs"

fun frame_wrap :: "cap_frame \<Rightarrow> bool" where
  "frame_wrap (DataFrame w ts ov ce de dur d) = w"
| "frame_wrap (StatusFrame w ts ls vb tr sp) = w"

fun frame_ticks :: "cap_frame \<Rightarrow> u32" where
  "frame_ticks (DataFrame w ts ov ce de dur d) = ts"
| "frame_ticks (StatusFrame w ts ls vb tr sp) = ts"

text \<open>Epoch counter and time in nanoseconds (60 MHz ticks) after a frame.\<close>

definition frame_epoch :: "u64 \<Rightarrow> cap_frame \<Rightarrow> u64" where
  "frame_epoch i f = (if frame_wrap f then i + 0x100000 else i)"

definition frame_ns :: "u64 \<Rightarrow> cap_frame \<Rightarrow> u64" where
  "frame_ns i f = ((frame_epoch i f OR ucast (frame_ticks f)) * 100) div 6"

text \<open>Data blocks in a call sequence, and the ones a frame sequence must produce.\<close>

fun call_epb :: "pcap_call \<Rightarrow> (u64 \<times> bytes) list" where
  "call_epb (WriteEpb ts d) = [(ts, d)]"
| "call_epb (WriteInfo ts s) = []"
| "call_epb FlushCall = []"

definition epbs :: "packet \<Rightarrow> (u64 \<times> bytes) list" where
  "epbs p = concat (map call_epb (p_out p))"

fun frame_epbs :: "u64 \<Rightarrow> cap_frame list \<Rightarrow> (u64 \<times> bytes) list" where
  "frame_epbs i [] = []"
| "frame_epbs i (f # fs) =
     (if frame_payload f = [] then [] else [(frame_ns i f, frame_payload f)]) @ frame_epbs (frame_epoch i f) fs"

text \<open>A parser at a frame boundary.\<close>

definition at_boundary :: "packet \<Rightarrow> bool" where
  "at_boundary p \<longleftrightarrow> capture_header p \<and> capture_data_ptr p = 0 \<and> \<not> p_done p
     \<and> (capture_toggle p = 0 \<or> capture_toggle p = 1)"

text \<open>A session without trigger, folding or limit.\<close>

definition plain :: "packet \<Rightarrow> bool" where
  "plain p \<longleftrightarrow> at_boundary p \<and> capture_enabled p \<and> capture_trigger_mode (p_opts p) = CaptureTrigger_Disabled
     \<and> \<not> fold_empty (p_opts p) \<and> capture_limit (p_opts p) \<le> 0
     \<and> capture_fold_buf_ptr p = 0 \<and> capture_fold_count p = 0"

section \<open>Storing bytes\<close>

definition put_arr :: "u8 carray \<Rightarrow> nat \<Rightarrow> bytes \<Rightarrow> u8 carray" where
  "put_arr d i bs = (\<lambda>j. if i \<le> j \<and> j < i + length bs then bs ! (j - i) else d j)"

lemma put_arr_nil [simp]: "put_arr d i [] = d"
  by (rule ext) (auto simp: put_arr_def)

lemma put_arr_Cons: "put_arr (d(i := b)) (Suc i) bs = put_arr d i (b # bs)"
  by (rule ext) (auto simp: put_arr_def nth_Cons' Suc_le_eq)

lemma map_put_arr: "n = length bs \<Longrightarrow> map (put_arr d 0 bs) [0..<n] = bs"
  by (auto simp: put_arr_def intro: nth_equalityI)

definition stored :: "packet \<Rightarrow> bytes \<Rightarrow> packet" where
  "stored p bs = p\<lparr>capture_data := put_arr (capture_data p) (capture_data_ptr p) bs,
     capture_data_ptr := capture_data_ptr p + length bs\<rparr>"

lemma capture_sm_store:
  "\<not> (capture_header p \<and> capture_data_ptr p = 0) \<Longrightarrow> Suc (capture_data_ptr p) < capture_size p \<Longrightarrow>
     capture_sm p b = stored p [b]"
  using put_arr_Cons [of "capture_data p" "capture_data_ptr p" b "[]"]
  by (auto simp: capture_sm_def store_byte_def stored_def Let_def)

lemma stored_Cons: "stored (stored p [b]) bs = stored p (b # bs)"
  using put_arr_Cons [of "capture_data p" "capture_data_ptr p" b bs]
    put_arr_Cons [of "capture_data p" "capture_data_ptr p" b "[]"]
  by (simp add: stored_def)

lemma feed_store:
  "\<not> p_done p \<Longrightarrow> capture_data_ptr p \<noteq> 0 \<or> \<not> capture_header p \<Longrightarrow> capture_data_ptr p + length bs < capture_size p \<Longrightarrow>
     feed_loop p bs = stored p bs"
proof (induction bs arbitrary: p)
  case (Cons b bs)
  then have "capture_sm p b = stored p [b]" by (intro capture_sm_store) auto
  with Cons stored_Cons [of p b bs] show ?case by (simp add: Let_def) (simp add: stored_def)
qed (simp add: stored_def)

lemma capture_sm_last:
  "\<not> (capture_header p \<and> capture_data_ptr p = 0) \<Longrightarrow> Suc (capture_data_ptr p) = capture_size p \<Longrightarrow>
     capture_sm p b = (let q = stored p [b] in if capture_header p then header_done q
       else (data_event (q\<lparr>capture_header := True\<rparr>))\<lparr>capture_data_ptr := 0\<rparr>)"
  using put_arr_Cons [of "capture_data p" "capture_data_ptr p" b "[]"]
  by (auto simp: capture_sm_def store_byte_def stored_def Let_def)

lemma stored_snoc: "stored (stored p bs) [b] = stored p (bs @ [b])"
  by (rule packet.equality)
    (auto simp: stored_def put_arr_def fun_eq_iff nth_append Suc_diff_le not_less le_less_Suc_eq)

lemma feed_last:
  assumes "\<not> p_done p" and "capture_data_ptr p \<noteq> 0 \<or> \<not> capture_header p"
    and "capture_data_ptr p + length bs = capture_size p" and "bs \<noteq> []"
  shows "feed_loop p (bs @ rest) =
    packet_feed (if capture_header p then header_done (stored p bs)
       else (data_event ((stored p bs)\<lparr>capture_header := True\<rparr>))\<lparr>capture_data_ptr := 0\<rparr>) rest"
proof -
  obtain as b where bs: "bs = as @ [b]" using assms(4) by (cases bs rule: rev_cases) auto
  let ?q = "stored p as"
  have f: "capture_header ?q = capture_header p" "capture_size ?q = capture_size p" "p_done ?q = p_done p"
    "capture_data_ptr ?q = capture_data_ptr p + length as"
    by (simp_all add: stored_def)
  have "feed_loop p as = ?q" using assms by (intro feed_store) (auto simp: bs)
  moreover have "capture_sm ?q b = (if capture_header p then header_done (stored p bs)
       else (data_event ((stored p bs)\<lparr>capture_header := True\<rparr>))\<lparr>capture_data_ptr := 0\<rparr>)"
    using assms capture_sm_last [of ?q b] by (auto simp: f bs stored_snoc Let_def)
  ultimately show ?thesis
    using assms(1) feed_loop_append [OF assms(1), of as "b # rest"] by (simp add: bs f packet_feed_def Let_def)
qed

text \<open>A parser state that has read the header \<open>hdr\<close> of a new frame.\<close>

definition with_header :: "packet \<Rightarrow> bytes \<Rightarrow> packet" where
  "with_header p hdr = p\<lparr>capture_status := (0 = hdr ! 0 AND 0x80), capture_size := length hdr,
     capture_data := put_arr (capture_data p) 0 hdr, capture_data_ptr := length hdr\<rparr>"

lemma feed_header:
  assumes "at_boundary p" and "length hdr = (if 0 = hdr ! 0 AND 0x80 then STATUS_HEADER_SIZE else DATA_HEADER_SIZE)"
  shows "feed_loop p (hdr @ rest) = packet_feed (header_done (with_header p hdr)) rest"
proof -
  obtain b bs where hdr: "hdr = b # bs" and ne: "bs \<noteq> []"
    using assms(2) by (cases hdr; cases "tl hdr") (auto simp: STATUS_HEADER_SIZE_def DATA_HEADER_SIZE_def split: if_splits)
  let ?q = "p\<lparr>capture_status := (0 = b AND 0x80), capture_size := length hdr,
    capture_data := (capture_data p)(0 := b), capture_data_ptr := Suc 0\<rparr>"
  have b: "capture_header p" "capture_data_ptr p = 0" "\<not> p_done p" using assms(1) by (simp_all add: at_boundary_def)
  have "capture_sm p b = ?q" using b assms(2) hdr ne
    by (auto simp: capture_sm_def store_byte_def Let_def STATUS_HEADER_SIZE_def DATA_HEADER_SIZE_def)
  moreover have "stored ?q bs = with_header p hdr"
    using put_arr_Cons [of "capture_data p" 0 b bs] by (simp add: stored_def with_header_def hdr)
  ultimately show ?thesis
    using feed_last [of ?q bs rest] ne b by (simp add: hdr Let_def)
qed

section \<open>Decoding headers\<close>

lemma mask_bits_u32: "(x :: u32) AND 0xfff00000 = 0 \<Longrightarrow> 20 \<le> n \<Longrightarrow> \<not> bit x n"
proof -
  assume z: "x AND 0xfff00000 = 0" and n: "20 \<le> n"
  have m: "(0xfff00000 :: u32) = push_bit 20 (mask 12)" by (simp add: mask_eq_decr_exp)
  have "\<not> bit (x AND push_bit 20 (mask 12)) n" using z m by simp
  then show ?thesis using n bit_imp_le_length [of x n] by (cases "n < 32") (auto simp: bit_simps)
qed

lemma byte_eqI:
  fixes a b :: u8
  assumes "bit a 0 = bit b 0" "bit a 1 = bit b 1" "bit a 2 = bit b 2" "bit a 3 = bit b 3"
    "bit a 4 = bit b 4" "bit a 5 = bit b 5" "bit a 6 = bit b 6" "bit a 7 = bit b 7"
  shows "a = b"
proof (rule word_bit_eqI)
  fix n :: nat assume "n < LENGTH(8)"
  then have "n \<in> {0, 1, 2, 3, 4, 5, 6, 7}" by auto
  with assms show "bit a n = bit b n" by auto
qed

lemma byte0_bits:
  assumes "ts AND 0xfff00000 = 0" and "kind = 0x80 \<or> kind = 0"
  shows "frame_byte0 kind t w ts AND 0x80 = kind"
    and "frame_byte0 kind t w ts AND 0x40 = (if t = 1 then 0x40 else 0)"
    and "frame_byte0 kind t w ts AND 0x20 = 0"
    and "frame_byte0 kind t w ts AND 0x10 = (if w then 0x10 else 0)"
    and "frame_byte0 kind t w ts AND 0xf = ucast (drop_bit 16 ts)"
proof -
  have hi: "\<not> bit ts n" if "20 \<le> n" for n using assms(1) that by (rule mask_bits_u32)
  show "frame_byte0 kind t w ts AND 0x80 = kind" "frame_byte0 kind t w ts AND 0x40 = (if t = 1 then 0x40 else 0)"
    "frame_byte0 kind t w ts AND 0x20 = 0" "frame_byte0 kind t w ts AND 0x10 = (if w then 0x10 else 0)"
    "frame_byte0 kind t w ts AND 0xf = ucast (drop_bit 16 ts)"
    using assms(2) unfolding frame_byte0_def
    by (auto intro!: byte_eqI simp: bit_simps hi)
qed

lemma header_ts_decode:
  assumes "ts AND 0xfff00000 = 0" and "kind = 0x80 \<or> kind = 0"
    and "d 0 = frame_byte0 kind t w ts" "d 1 = ucast (drop_bit 8 ts)" "d 2 = ucast ts"
  shows "header_ts d = ucast ts"
proof -
  have "header_ts d = push_bit 16 (ucast (ucast (drop_bit 16 ts) :: u8)) OR push_bit 8 (ucast (ucast (drop_bit 8 ts) :: u8))
      OR ucast (ucast ts :: u8)"
    using byte0_bits(5) [OF assms(1,2), of t w] by (simp only: header_ts_def assms(3-))
  also have "\<dots> = (ucast ts :: u64)"
  proof (rule word_bit_eqI)
    fix n :: nat assume "n < LENGTH(64)"
    consider "n < 8" | "8 \<le> n" "n < 16" | "16 \<le> n" "n < 20" | "20 \<le> n" by linarith
    then
    show "bit (push_bit 16 (ucast (ucast (drop_bit 16 ts) :: u8)) OR push_bit 8 (ucast (ucast (drop_bit 8 ts) :: u8))
      OR ucast (ucast ts :: u8) :: u64) n = bit (ucast ts :: u64) n"
      using mask_bits_u32 [OF assms(1), of n] by cases (auto simp: bit_simps)
  qed
  finally show ?thesis .
qed

lemma bit_nat_high: "n < 2 ^ m \<Longrightarrow> m \<le> k \<Longrightarrow> \<not> bit (n :: nat) k"
proof -
  assume "n < 2 ^ m" "m \<le> k"
  then have "n < 2 ^ k" by (meson less_le_trans one_le_numeral power_increasing)
  then show ?thesis by (simp add: bit_iff_odd)
qed

lemma header_size_decode:
  assumes "n < 2048" and "d 3 = data_byte3 ov ce de (of_nat n)" and "d 4 = of_nat n"
  shows "header_size d = n"
proof -
  have hi: "\<not> bit n k" if "11 \<le> k" for k
    using assms(1) that by (intro bit_nat_high [of n 11]) simp_all
  have "d 3 AND 0x7 = ucast (drop_bit 8 (of_nat n :: u32))"
    unfolding assms(2) data_byte3_def by (auto intro!: byte_eqI simp: bit_simps hi)
  moreover have "d 4 = ucast (of_nat n :: u32)" by (rule word_bit_eqI) (simp add: assms(3) bit_simps)
  ultimately have "push_bit 8 (ucast (d 3 AND 0x7)) OR ucast (d 4) =
      push_bit 8 (ucast (ucast (drop_bit 8 (of_nat n :: u32)) :: u8)) OR (ucast (ucast (of_nat n :: u32) :: u8) :: u32)"
    by simp
  also have "\<dots> = of_nat n"
  proof (rule word_bit_eqI)
    fix k :: nat assume "k < LENGTH(32)"
    consider "k < 8" | "8 \<le> k" "k < 11" | "11 \<le> k" by linarith
    then show "bit (push_bit 8 (ucast (ucast (drop_bit 8 (of_nat n :: u32)) :: u8)) OR (ucast (ucast (of_nat n :: u32) :: u8) :: u32)) k
        = bit (of_nat n :: u32) k"
      using hi [of k] by cases (auto simp: bit_simps)
  qed
  finally show ?thesis using assms(1) by (simp add: header_size_def unat_of_nat_u32)
qed

lemma data_flags_decode:
  assumes "n < 2048"
  shows "data_byte3 ov ce de (of_nat n) AND 0x08 \<noteq> 0 \<longleftrightarrow> ov"
    and "data_byte3 ov ce de (of_nat n) AND 0x10 \<noteq> 0 \<longleftrightarrow> ce"
    and "data_byte3 ov ce de (of_nat n) AND 0x20 \<noteq> 0 \<longleftrightarrow> de"
proof -
  have hi: "\<not> bit n k" if "11 \<le> k" for k
    using assms(1) that by (intro bit_nat_high [of n 11]) simp_all
  have "data_byte3 ov ce de (of_nat n) AND 0x08 = (if ov then 0x08 else 0)"
    "data_byte3 ov ce de (of_nat n) AND 0x10 = (if ce then 0x10 else 0)"
    "data_byte3 ov ce de (of_nat n) AND 0x20 = (if de then 0x20 else 0)"
    unfolding data_byte3_def by (auto intro!: byte_eqI simp: bit_simps hi)
  then show "data_byte3 ov ce de (of_nat n) AND 0x08 \<noteq> 0 \<longleftrightarrow> ov" "data_byte3 ov ce de (of_nat n) AND 0x10 \<noteq> 0 \<longleftrightarrow> ce"
    "data_byte3 ov ce de (of_nat n) AND 0x20 \<noteq> 0 \<longleftrightarrow> de" by auto
qed

lemma status_decode:
  assumes "ls AND 0xf0 = 0" and "sp AND 0xfc = 0"
  shows "status_byte3 ls vb tr sp AND 0x0f = ls" and "status_byte3 ls vb tr sp AND 0x10 \<noteq> 0 \<longleftrightarrow> vb"
    and "status_byte3 ls vb tr sp AND 0x20 \<noteq> 0 \<longleftrightarrow> tr" and "drop_bit 6 (status_byte3 ls vb tr sp) AND 3 = sp"
proof -
  have l: "\<not> bit ls 4" "\<not> bit ls 5" "\<not> bit ls 6" "\<not> bit ls 7"
    using arg_cong [OF assms(1), of "\<lambda>w. bit w 4"] arg_cong [OF assms(1), of "\<lambda>w. bit w 5"]
      arg_cong [OF assms(1), of "\<lambda>w. bit w 6"] arg_cong [OF assms(1), of "\<lambda>w. bit w 7"]
    by (simp_all add: bit_simps)
  have s: "\<not> bit sp 2" "\<not> bit sp 3" "\<not> bit sp 4" "\<not> bit sp 5" "\<not> bit sp 6" "\<not> bit sp 7"
    using arg_cong [OF assms(2), of "\<lambda>w. bit w 2"] arg_cong [OF assms(2), of "\<lambda>w. bit w 3"]
      arg_cong [OF assms(2), of "\<lambda>w. bit w 4"] arg_cong [OF assms(2), of "\<lambda>w. bit w 5"]
      arg_cong [OF assms(2), of "\<lambda>w. bit w 6"] arg_cong [OF assms(2), of "\<lambda>w. bit w 7"]
    by (simp_all add: bit_simps)
  show "status_byte3 ls vb tr sp AND 0x0f = ls" "drop_bit 6 (status_byte3 ls vb tr sp) AND 3 = sp"
    unfolding status_byte3_def by (auto intro!: byte_eqI simp: bit_simps l s)
  have "status_byte3 ls vb tr sp AND 0x10 = (if vb then 0x10 else 0)"
    "status_byte3 ls vb tr sp AND 0x20 = (if tr then 0x20 else 0)"
    unfolding status_byte3_def by (auto intro!: byte_eqI simp: bit_simps l s)
  then show "status_byte3 ls vb tr sp AND 0x10 \<noteq> 0 \<longleftrightarrow> vb" "status_byte3 ls vb tr sp AND 0x20 \<noteq> 0 \<longleftrightarrow> tr" by auto
qed

section \<open>One whole frame\<close>

text \<open>Time and toggle after the header of \<open>f\<close>, with the periodic update when 2 s have passed.\<close>

definition advance :: "packet \<Rightarrow> cap_frame \<Rightarrow> packet" where
  "advance p f =
     (let q = p\<lparr>capture_ts_int := frame_epoch (capture_ts_int p) f, capture_ts := frame_ns (capture_ts_int p) f,
                capture_toggle := 1 - capture_toggle p\<rparr>
      in if sint (capture_ts q - capture_last_ts q) > UPDATE_INTERVAL then timeout_event q else q)"

lemma frame_header_byte0:
  "frame_ok f \<Longrightarrow> \<exists>kind. (kind = 0x80 \<or> kind = 0) \<and> frame_ticks f AND 0xfff00000 = 0 \<and>
     (\<exists>hs. frame_header t f = frame_byte0 kind t (frame_wrap f) (frame_ticks f) # ucast (drop_bit 8 (frame_ticks f)) #
        ucast (frame_ticks f) # hs)"
  by (cases f) auto

lemma header_common_good:
  assumes "frame_ok f" and "capture_toggle p = 0 \<or> capture_toggle p = 1"
    and "capture_data p = put_arr d 0 (frame_header (capture_toggle p) f)"
  shows "header_common p = advance p f"
proof -
  obtain kind hs where k: "kind = 0x80 \<or> kind = 0" and ts: "frame_ticks f AND 0xfff00000 = 0"
    and h: "frame_header (capture_toggle p) f = frame_byte0 kind (capture_toggle p) (frame_wrap f) (frame_ticks f) #
      ucast (drop_bit 8 (frame_ticks f)) # ucast (frame_ticks f) # hs"
    using frame_header_byte0 [OF assms(1), of "capture_toggle p"] by blast
  have d: "capture_data p 0 = frame_byte0 kind (capture_toggle p) (frame_wrap f) (frame_ticks f)"
    "capture_data p 1 = ucast (drop_bit 8 (frame_ticks f))" "capture_data p 2 = ucast (frame_ticks f)"
    by (simp_all add: assms(3) h put_arr_def numeral_eq_Suc)
  note b = byte0_bits [OF ts k, of "capture_toggle p" "frame_wrap f"]
  have "flag (capture_data p 0) 0x40 = capture_toggle p" "flag (capture_data p 0) 0x20 = 0"
    using assms(2) b(2,3) by (auto simp: flag_def d(1))
  moreover have "capture_data p 0 AND 0x10 \<noteq> 0 \<longleftrightarrow> frame_wrap f" using b(4) by (simp add: d(1))
  moreover have "header_ts (capture_data p) = ucast (frame_ticks f)"
    using ts k d by (rule header_ts_decode)
  ultimately show ?thesis
    by (simp add: header_common_def advance_def check_header_def Let_def frame_epoch_def frame_ns_def)
qed

lemma advance_fields [simp]:
  "capture_data (advance p f) = capture_data p" "capture_status (advance p f) = capture_status p"
  "capture_header (advance p f) = capture_header p" "capture_data_ptr (advance p f) = capture_data_ptr p"
  "p_done (advance p f) = p_done p" "p_opts (advance p f) = p_opts p" "capture_enabled (advance p f) = capture_enabled p"
  "capture_fold_buf_ptr (advance p f) = capture_fold_buf_ptr p" "capture_fold_count (advance p f) = capture_fold_count p"
  "capture_toggle (advance p f) = 1 - capture_toggle p"
  "capture_ts (advance p f) = frame_ns (capture_ts_int p) f"
  "capture_ts_int (advance p f) = frame_epoch (capture_ts_int p) f"
  by (simp_all add: advance_def Let_def timeout_event_def)

definition b01 :: "bool \<Rightarrow> int" where "b01 b = (if b then 1 else 0)"

text \<open>The state in which the event of a frame is raised.\<close>

fun frame_event :: "packet \<Rightarrow> cap_frame \<Rightarrow> packet" where
  "frame_event p (DataFrame w ts ov ce de dur d) =
     (let f = DataFrame w ts ov ce de dur d;
          q = (advance (with_header p (frame_header (capture_toggle p) f)) f)
                \<lparr>capture_size := length d, capture_overflow := ov, capture_crc_error := ce, capture_data_error := de,
                 capture_duration := unat (push_bit 8 (ucast (ucast (drop_bit 8 dur) :: u8)) OR ucast (ucast dur :: u8) :: u32)\<rparr>
      in if d = [] then q\<lparr>capture_header := True, capture_data_ptr := 0\<rparr>
         else (data_event (q\<lparr>capture_data := put_arr (capture_data q) 0 d, capture_data_ptr := length d, capture_header := True\<rparr>))
                \<lparr>capture_data_ptr := 0\<rparr>)"
| "frame_event p (StatusFrame w ts ls vb tr sp) =
     (let f = StatusFrame w ts ls vb tr sp
      in (status_event (advance (with_header p (frame_header (capture_toggle p) f)) f) (uint ls) (b01 vb) (b01 tr) (uint sp))
           \<lparr>capture_data_ptr := 0\<rparr>)"

lemma with_header_fields [simp]:
  "capture_data (with_header p h) = put_arr (capture_data p) 0 h" "capture_toggle (with_header p h) = capture_toggle p"
  "capture_header (with_header p h) = capture_header p" "p_done (with_header p h) = p_done p"
  "p_opts (with_header p h) = p_opts p" "capture_enabled (with_header p h) = capture_enabled p"
  "capture_fold_buf_ptr (with_header p h) = capture_fold_buf_ptr p" "capture_fold_count (with_header p h) = capture_fold_count p"
  "capture_ts_int (with_header p h) = capture_ts_int p" "p_out (with_header p h) = p_out p"
  "capture_status (with_header p h) = (0 = h ! 0 AND 0x80)"
  by (simp_all add: with_header_def)

lemma feed_frame:
  assumes "at_boundary p" and "frame_ok f"
  shows "packet_feed p (frame_bytes (capture_toggle p) f @ rest) = packet_feed (frame_event p f) rest"
proof (cases f)
  case (StatusFrame w ts ls vb tr sp)
  let ?h = "frame_header (capture_toggle p) f" and ?p = "with_header p (frame_header (capture_toggle p) f)"
  have bd: "\<not> p_done p" "capture_toggle p = 0 \<or> capture_toggle p = 1" using assms(1) by (auto simp: at_boundary_def)
  have ts: "ts AND 0xfff00000 = 0" and l: "ls AND 0xf0 = 0" "sp AND 0xfc = 0" using assms(2) StatusFrame by simp_all
  have k: "0 = ?h ! 0 AND 0x80" using byte0_bits(1) [OF ts, of 0 "capture_toggle p" w] by (simp add: StatusFrame)
  have "packet_feed p (frame_bytes (capture_toggle p) f @ rest) = packet_feed (header_done ?p) rest"
    using feed_header [OF assms(1), of ?h rest] bd(1) k
    by (simp add: frame_bytes_def packet_feed_def [of p] StatusFrame STATUS_HEADER_SIZE_def)
  moreover have "header_common ?p = advance ?p f" using assms(2) bd(2) by (intro header_common_good) simp_all
  then have "header_done ?p = frame_event p f"
    using status_decode [OF l, of vb tr] k
    by (simp add: header_done_def Let_def StatusFrame put_arr_def flag_def b01_def numeral_eq_Suc)
  ultimately show ?thesis by simp
next
  case (DataFrame w ts ov ce de dur d)
  let ?h = "frame_header (capture_toggle p) f" and ?p = "with_header p (frame_header (capture_toggle p) f)"
  have bd: "\<not> p_done p" "capture_toggle p = 0 \<or> capture_toggle p = 1" using assms(1) by (auto simp: at_boundary_def)
  have ts: "ts AND 0xfff00000 = 0" and n: "7 + length d < 2048" "length d \<le> 1273" using assms(2) DataFrame by simp_all
  have k: "?h ! 0 AND 0x80 \<noteq> 0" using byte0_bits(1) [OF ts, of "0x80" "capture_toggle p" w] by (simp add: DataFrame)
  have "packet_feed p (frame_bytes (capture_toggle p) f @ rest) = packet_feed (header_done ?p) (d @ rest)"
    using feed_header [OF assms(1), of ?h "d @ rest"] bd(1) k
    by (simp add: frame_bytes_def packet_feed_def [of p] DataFrame DATA_HEADER_SIZE_def)
  moreover have hc: "header_common ?p = advance ?p f" using assms(2) bd(2) by (intro header_common_good) simp_all
  have sz: "header_size (capture_data ?p) = 7 + length d"
    using n(1) by (intro header_size_decode) (simp_all add: DataFrame put_arr_def numeral_eq_Suc)
  let ?q = "(advance ?p f)\<lparr>capture_size := length d, capture_overflow := ov, capture_crc_error := ce, capture_data_error := de,
    capture_duration := unat (push_bit 8 (ucast (ucast (drop_bit 8 dur) :: u8)) OR ucast (ucast dur :: u8) :: u32),
    capture_header := (d = []), capture_data_ptr := 0\<rparr>"
  have d3: "capture_data ?p 3 = data_byte3 ov ce de (of_nat (7 + length d))"
    "capture_data ?p 5 = ucast (drop_bit 8 dur)" "capture_data ?p 6 = ucast dur"
    by (simp_all add: DataFrame put_arr_def numeral_eq_Suc)
  have hd: "header_done ?p = ?q"
    using k n(2) data_flags_decode [OF n(1), of ov ce de]
    unfolding header_done_def Let_def hc advance_fields sz
    by (simp add: d3 [unfolded with_header_fields] DATA_HEADER_SIZE_def MAX_DATA_SIZE_def)
  moreover have "packet_feed ?q (d @ rest) = packet_feed (frame_event p f) rest"
  proof (cases "d = []")
    case True
    then show ?thesis by (simp add: DataFrame Let_def)
  next
    case False
    have "feed_loop ?q (d @ rest) = packet_feed ((data_event ((stored ?q d)\<lparr>capture_header := True\<rparr>))\<lparr>capture_data_ptr := 0\<rparr>) rest"
      using False bd(1) by (subst feed_last) simp_all
    moreover have "(stored ?q d)\<lparr>capture_header := True\<rparr> = ?q\<lparr>capture_data := put_arr (capture_data ?q) 0 d,
        capture_data_ptr := length d, capture_header := True\<rparr>"
      by (simp add: stored_def)
    moreover have "packet_feed ?q (d @ rest) = feed_loop ?q (d @ rest)" using bd(1) by (simp add: packet_feed_def)
    ultimately have "packet_feed ?q (d @ rest) = packet_feed ((data_event (?q\<lparr>capture_data := put_arr (capture_data ?q) 0 d,
        capture_data_ptr := length d, capture_header := True\<rparr>))\<lparr>capture_data_ptr := 0\<rparr>) rest" by (simp only:)
    with False show ?thesis by (simp add: DataFrame Let_def)
  qed
  ultimately show ?thesis by simp
qed

section \<open>A session without trigger, folding or limit\<close>

lemma epbs_out [simp]:
  "epbs (capture_info p ts s) = epbs p" "epbs (line_state_event p) = epbs p"
  "epbs (write_packet p ts d n) = epbs p @ [(ts, map d [0..<n])]"
  by (simp_all add: epbs_def capture_info_closed line_state_event_closed ls_calls_def write_packet_def put_call_def)

lemma epbs_upd [simp]:
  "epbs (p\<lparr>capture_enabled := e\<rparr>) = epbs p" "epbs (p\<lparr>capture_trigger_input := i\<rparr>) = epbs p"
  "epbs (p\<lparr>capture_vbus := i\<rparr>) = epbs p" "epbs (p\<lparr>capture_speed_in := i\<rparr>) = epbs p"
  "epbs (p\<lparr>capture_ls := i\<rparr>) = epbs p" "epbs (p\<lparr>capture_saved_ls := i\<rparr>) = epbs p"
  "epbs (p\<lparr>capture_saved_ts := u\<rparr>) = epbs p" "epbs (p\<lparr>p_opts := op\<rparr>) = epbs p"
  "epbs (p\<lparr>capture_data_ptr := n\<rparr>) = epbs p" "epbs (p\<lparr>capture_header := e\<rparr>) = epbs p"
  "epbs (p\<lparr>capture_data := d\<rparr>) = epbs p" "epbs (p\<lparr>capture_size := n\<rparr>) = epbs p"
  "epbs (p\<lparr>capture_overflow := e\<rparr>) = epbs p" "epbs (p\<lparr>capture_crc_error := e\<rparr>) = epbs p"
  "epbs (p\<lparr>capture_data_error := e\<rparr>) = epbs p" "epbs (p\<lparr>capture_duration := n\<rparr>) = epbs p"
  "epbs (p\<lparr>capture_toggle := i\<rparr>) = epbs p" "epbs (p\<lparr>capture_ts := u\<rparr>) = epbs p"
  "epbs (p\<lparr>capture_ts_int := u\<rparr>) = epbs p" "epbs (p\<lparr>capture_status := e\<rparr>) = epbs p"
  by (simp_all add: epbs_def)

lemma stop_folding_idle: "capture_fold_count p = 0 \<Longrightarrow> capture_fold_buf_ptr p = 0 \<Longrightarrow> stop_folding p = p"
  by (simp add: stop_folding_def)

text \<open>What an event keeps when nothing is folded and no limit is set.\<close>

definition unfolded :: "packet \<Rightarrow> packet \<Rightarrow> bool" where
  "unfolded p q \<longleftrightarrow> capture_enabled q \<and> p_done q = p_done p \<and> capture_fold_buf_ptr q = 0 \<and> capture_fold_count q = 0
     \<and> capture_limit (p_opts q) \<le> 0 \<and> capture_trigger_mode (p_opts q) = capture_trigger_mode (p_opts p)
     \<and> fold_empty (p_opts q) = fold_empty (p_opts p)"

lemma limit_unfolded:
  assumes "capture_limit (p_opts p) \<le> 0"
  shows "check_capture_limit p = p\<lparr>p_opts := (p_opts p)\<lparr>capture_limit := capture_limit (p_opts p) - 1\<rparr>\<rparr>"
  using assms by (simp add: check_capture_limit_def Let_def)

lemma data_reports_plain:
  assumes "capture_fold_buf_ptr p = 0" "capture_fold_count p = 0"
  shows "epbs (data_reports p) = epbs p" "capture_fold_buf_ptr (data_reports p) = 0" "capture_fold_count (data_reports p) = 0"
  using assms by (simp_all add: data_reports_def Let_def stop_folding_idle)

lemma data_event_plain:
  assumes "unfolded p p" and "\<not> fold_empty (p_opts p)"
  shows "unfolded p (data_event p)"
    and "epbs (data_event p) = epbs p @ [(capture_ts p, map (capture_data p) [0..<capture_size p])]"
proof -
  have a: "capture_enabled p" "capture_fold_buf_ptr p = 0" "capture_fold_count p = 0" "capture_limit (p_opts p) \<le> 0"
    using assms(1) by (simp_all add: unfolded_def)
  have "data_event p = check_capture_limit (write_packet (data_reports p) (capture_ts p) (capture_data p) (capture_size p))"
    using assms(2) a(1) by (simp add: data_event_def data_store_def Let_def)
  then show "unfolded p (data_event p)"
    "epbs (data_event p) = epbs p @ [(capture_ts p, map (capture_data p) [0..<capture_size p])]"
    using a data_reports_plain [OF a(2,3)] by (simp_all add: limit_unfolded unfolded_def)
qed

lemma keepalive_plain:
  assumes "unfolded p p" and "\<not> fold_empty (p_opts p)"
  shows "unfolded p (keepalive_event p ts delta)" and "epbs (keepalive_event p ts delta) = epbs p"
  using assms by (simp_all add: unfolded_def keepalive_event_def write_keepalive_def limit_unfolded)

lemma ls_change_cases:
  "ls_change q ls = q
   \<or> (\<exists>ts delta. ls_change q ls = keepalive_event (q\<lparr>capture_ls := ls, capture_saved_ls := LS_INVALID\<rparr>) ts delta)
   \<or> ls_change q ls = (line_state_event (q\<lparr>capture_ls := ls\<rparr>))\<lparr>capture_saved_ls := ls, capture_saved_ts := capture_ts q\<rparr>"
  by (auto simp: ls_change_def Let_def)

lemma status_event_plain:
  assumes "unfolded p p" and "\<not> fold_empty (p_opts p)" and "capture_trigger_mode (p_opts p) = CaptureTrigger_Disabled"
  shows "unfolded p (status_event p ls vb tr sp) \<and> epbs (status_event p ls vb tr sp) = epbs p"
proof -
  have t: "unfolded p (trigger_change p tr) \<and> epbs (trigger_change p tr) = epbs p"
    using assms by (simp add: unfolded_def trigger_change_def Let_def trigger_enables_def)
  have v: "unfolded p (vbus_change q vb) \<and> epbs (vbus_change q vb) = epbs p" if "unfolded p q \<and> epbs q = epbs p" for q
    using that by (simp add: unfolded_def vbus_change_def Let_def)
  have s: "unfolded p (speed_change q sp) \<and> epbs (speed_change q sp) = epbs p" if "unfolded p q \<and> epbs q = epbs p" for q
    using that by (simp add: unfolded_def speed_change_def Let_def)
  have l: "unfolded p (ls_change q ls) \<and> epbs (ls_change q ls) = epbs p" if q: "unfolded p q \<and> epbs q = epbs p" for q
    using ls_change_cases [of q ls]
  proof (elim disjE exE)
    fix ts delta
    let ?r = "q\<lparr>capture_ls := ls, capture_saved_ls := LS_INVALID\<rparr>"
    assume "ls_change q ls = keepalive_event ?r ts delta"
    moreover have "unfolded ?r ?r" "\<not> fold_empty (p_opts ?r)" using q assms by (simp_all add: unfolded_def)
    note keepalive_plain [OF this, of ts delta]
    ultimately show ?thesis using q by (simp add: unfolded_def)
  qed (use q in \<open>simp_all add: unfolded_def\<close>)
  show ?thesis unfolding status_event_def by (intro l s v t)
qed

lemma epbs_advance [simp]: "epbs (advance p f) = epbs p"
  by (simp add: advance_def Let_def timeout_event_def)

lemma epbs_with_header [simp]: "epbs (with_header p h) = epbs p"
  by (simp add: with_header_def)

lemma event_clock [simp]:
  "capture_ts_int (frame_event p f) = frame_epoch (capture_ts_int p) f"
  "capture_toggle (frame_event p f) = 1 - capture_toggle p" "capture_data_ptr (frame_event p f) = 0"
  "capture_header (frame_event p f) = (case f of DataFrame _ _ _ _ _ _ _ \<Rightarrow> True | _ \<Rightarrow> capture_header p)"
  by (cases f; simp add: Let_def status_event_def)+

lemma plain_unfolded: "plain p \<Longrightarrow> unfolded p p \<and> \<not> fold_empty (p_opts p)"
  by (simp add: plain_def unfolded_def)

lemma frame_event_plain:
  assumes "plain p"
  shows "plain (frame_event p f) \<and>
    epbs (frame_event p f) = epbs p @ (if frame_payload f = [] then [] else [(frame_ns (capture_ts_int p) f, frame_payload f)])"
proof -
  have bd: "capture_header (frame_event p f)" "capture_toggle p = 0 \<or> capture_toggle p = 1" "\<not> p_done p"
    using assms by (auto simp: plain_def at_boundary_def split: cap_frame.splits)
  have op: "capture_trigger_mode (p_opts p) = CaptureTrigger_Disabled" "\<not> fold_empty (p_opts p)"
    using assms by (simp_all add: plain_def)
  have "unfolded p (frame_event p f) \<and>
    epbs (frame_event p f) = epbs p @ (if frame_payload f = [] then [] else [(frame_ns (capture_ts_int p) f, frame_payload f)])"
  proof (cases f)
    case (StatusFrame w ts ls vb tr sp)
    let ?q = "advance (with_header p (frame_header (capture_toggle p) f)) f"
    have "unfolded ?q ?q" "\<not> fold_empty (p_opts ?q)" "capture_trigger_mode (p_opts ?q) = CaptureTrigger_Disabled"
      using assms by (simp_all add: plain_def unfolded_def)
    note status_event_plain [OF this, of "uint ls" "b01 vb" "b01 tr" "uint sp"]
    with StatusFrame show ?thesis by (simp add: unfolded_def Let_def)
  next
    case (DataFrame w ts ov ce de dur d)
    let ?q = "(advance (with_header p (frame_header (capture_toggle p) f)) f)
      \<lparr>capture_size := length d, capture_overflow := ov, capture_crc_error := ce, capture_data_error := de,
       capture_duration := unat (push_bit 8 (ucast (ucast (drop_bit 8 dur) :: u8)) OR ucast (ucast dur :: u8) :: u32)\<rparr>"
    let ?r = "?q\<lparr>capture_data := put_arr (capture_data ?q) 0 d, capture_data_ptr := length d, capture_header := True\<rparr>"
    have "unfolded ?r ?r" "\<not> fold_empty (p_opts ?r)"
      using assms by (simp_all add: plain_def unfolded_def)
    note e = data_event_plain [OF this]
    have u: "unfolded p q" if "unfolded ?r q" for q using that by (simp add: unfolded_def)
    show ?thesis
    proof (cases "d = []")
      case True
      then show ?thesis using assms by (simp add: DataFrame Let_def plain_def unfolded_def)
    next
      case False
      then have ev: "frame_event p f = (data_event ?r)\<lparr>capture_data_ptr := 0\<rparr>"
        unfolding DataFrame frame_event.simps Let_def by (simp only: if_False)
      have "unfolded p ((data_event ?r)\<lparr>capture_data_ptr := 0\<rparr>)" using u [OF e(1)] by (simp add: unfolded_def)
      moreover have "epbs (data_event ?r) = epbs p @ [(frame_ns (capture_ts_int p) f, d)]"
        unfolding e(2) by (simp add: map_put_arr)
      moreover have "frame_payload f = d" by (simp add: DataFrame)
      ultimately show ?thesis using False unfolding ev by simp
    qed
  qed
  with bd op show ?thesis by (auto simp: plain_def at_boundary_def unfolded_def)
qed

lemma feed_frames:
  "plain p \<Longrightarrow> \<forall>f \<in> set fs. frame_ok f \<Longrightarrow>
     plain (packet_feed p (frames_bytes (capture_toggle p) fs)) \<and>
     epbs (packet_feed p (frames_bytes (capture_toggle p) fs)) = epbs p @ frame_epbs (capture_ts_int p) fs"
proof (induction fs arbitrary: p)
  case (Cons f fs)
  have "at_boundary p" using Cons.prems(1) by (simp add: plain_def)
  then have "packet_feed p (frames_bytes (capture_toggle p) (f # fs)) =
      packet_feed (frame_event p f) (frames_bytes (capture_toggle (frame_event p f)) fs)"
    using feed_frame [of p f] Cons.prems(2) by (simp del: frame_event.simps)
  with Cons.IH [of "frame_event p f"] frame_event_plain [OF Cons.prems(1), of f] Cons.prems(2)
  show ?case by (simp del: frame_event.simps)
qed simp

section \<open>Properties\<close>

text \<open>
  C4. Functional correctness of the frame parser: in a session with no trigger, no folding
  and no limit, a sequence of well-formed frames, cut into payload chunks in any way, produces exactly
  one data block per frame that carries a packet, in order, with exactly the packet bytes and the
  frame's time (the 60 MHz tick count, extended by the wrap flags, in nanoseconds); error flags,
  status frames and the informational records around them lose or alter nothing.
\<close>

theorem frames_become_epbs:
  assumes "plain p" and "\<forall>f \<in> set fs. frame_ok f" and "concat ds = frames_bytes (capture_toggle p) fs"
  shows "plain (foldl packet_feed p ds) \<and> epbs (foldl packet_feed p ds) = epbs p @ frame_epbs (capture_ts_int p) fs"
proof -
  have "foldl packet_feed p ds = packet_feed p (concat ds)"
    by (induction ds arbitrary: p) (simp_all add: packet_feed_append)
  then show ?thesis using feed_frames [OF assms(1,2)] assms(3) by simp
qed

theorem frames_become_epbs_witness:
  "epbs (foldl packet_feed (packet_announce (packet_new \<lparr>fold_empty = False, exclude_line_state = False, capture_speed = 3,
      capture_trigger_mode = CaptureTrigger_Disabled, capture_limit = -1\<rparr> []))
      [[0x80, 0, 6, 0, 10, 0], [0, 0xa5, 1, 2, 0x40, 0, 12, 0x80]])
    = [(100, [0xa5, 1, 2])]"
proof -
  let ?p = "packet_announce (packet_new \<lparr>fold_empty = False, exclude_line_state = False, capture_speed = 3,
      capture_trigger_mode = CaptureTrigger_Disabled, capture_limit = -1\<rparr> [])"
  let ?fs = "[DataFrame False 6 False False False 0 [0xa5, 1, 2], StatusFrame False 12 0 False False 2]"
  let ?ds = "[[0x80, 0, 6, 0, 10, 0], [0, 0xa5, 1, 2, 0x40, 0, 12, 0x80]] :: bytes list"
  have "plain ?p" "capture_ts_int ?p = 0" "epbs ?p = []"
    by (simp_all add: plain_def at_boundary_def packet_announce_def packet_new_def packet_start_def packet_zero_def
        put_call_def epbs_def capture_info_closed ls_calls_def)
  moreover have "\<forall>f \<in> set ?fs. frame_ok f" by simp
  moreover have "concat ?ds = frames_bytes (capture_toggle ?p) ?fs" by code_simp
  moreover have "frame_epbs 0 ?fs = [(100, [0xa5, 1, 2])]" by code_simp
  ultimately show ?thesis using frames_become_epbs [of ?p ?fs ?ds] by simp
qed

end
