(* ===== verification/Packet_Sessions.thy ===== *)
theory Packet_Sessions
  imports Packet_Frames
begin

text \<open>
  Session-level behaviour of the frame layer on arbitrary input bytes: the trigger gate, the
  capture limit, what folding may and may not hold back, and the effect of a damaged header.
\<close>

section \<open>Definitions\<close>

text \<open>The level a level-triggered session requires, and the gate invariant.\<close>

definition gate_ok :: "packet \<Rightarrow> bool" where
  "gate_ok p \<longleftrightarrow>
     (case capture_trigger_mode (p_opts p) of
        CaptureTrigger_Low \<Rightarrow> capture_enabled p \<longrightarrow> capture_trigger_input p = 0
      | CaptureTrigger_High \<Rightarrow> capture_enabled p \<longrightarrow> capture_trigger_input p = 1
      | _ \<Rightarrow> True)"

text \<open>What may switch the capture on between two states.\<close>

definition gate_edge :: "packet \<Rightarrow> packet \<Rightarrow> bool" where
  "gate_edge p q \<longleftrightarrow>
     (case capture_trigger_mode (p_opts p) of
        CaptureTrigger_Falling \<Rightarrow> capture_trigger_input p = 1 \<and> capture_trigger_input q = 0
      | CaptureTrigger_Rising \<Rightarrow> capture_trigger_input p = 0 \<and> capture_trigger_input q = 1
      | _ \<Rightarrow> True)"

text \<open>Packets that count against the limit: data blocks and keep-alives.\<close>

fun call_packets :: "pcap_call \<Rightarrow> nat" where
  "call_packets (WriteEpb ts d) = 1"
| "call_packets (WriteInfo ts s) = (if s = ''Keep-alive'' then 1 else 0)"
| "call_packets FlushCall = 0"

definition packets_written :: "packet \<Rightarrow> nat" where
  "packets_written p = sum_list (map call_packets (p_out p))"

text \<open>The packets (not keep-alives) waiting in the fold buffer.\<close>

definition fold_pending :: "packet \<Rightarrow> bytes list" where
  "fold_pending p =
     concat (map (\<lambda>i. let f = capture_fold_buf p i in if fr_size f < 0 then [] else [map (fr_data f) [0..<nat (fr_size f)]])
       [0..<capture_fold_buf_ptr p])"

section \<open>The trigger gate\<close>

lemma epbs_limit [simp]: "epbs (check_capture_limit p) = epbs p"
  by (simp add: check_capture_limit_def Let_def) (simp add: epbs_def capture_info_closed ls_calls_def)

lemma epbs_desync [simp]: "epbs (desync_error p) = epbs p"
  by (simp add: desync_error_def Let_def)

lemma epbs_header_common [simp]: "epbs (header_common p) = epbs p"
  by (simp add: header_common_def check_header_def timeout_event_def Let_def)

lemma epbs_gated: "\<not> capture_enabled p \<Longrightarrow> epbs (keepalive_event p ts delta) = epbs p" "\<not> capture_enabled p \<Longrightarrow> epbs (data_event p) = epbs p"
  by (simp_all add: keepalive_event_def data_event_def)

lemma opts_mode [simp]:
  "capture_trigger_mode (p_opts (check_capture_limit p)) = capture_trigger_mode (p_opts p)"
  "capture_trigger_mode (p_opts (keepalive_event p ts delta)) = capture_trigger_mode (p_opts p)"
  "capture_trigger_mode (p_opts (data_event p)) = capture_trigger_mode (p_opts p)"
  "capture_trigger_mode (p_opts (ls_change p ls)) = capture_trigger_mode (p_opts p)"
  by (simp_all add: check_capture_limit_def keepalive_event_def data_event_def ls_change_def write_keepalive_def Let_def)

lemma status_event_gate:
  "capture_trigger_mode (p_opts (status_event p ls vb tr sp)) = capture_trigger_mode (p_opts p)"
  "capture_trigger_input (status_event p ls vb tr sp) = tr"
  "capture_enabled (status_event p ls vb tr sp) =
     (if capture_trigger_input p = tr then capture_enabled p
      else trigger_enables (capture_trigger_mode (p_opts p)) (capture_enabled p) (capture_trigger_input p) tr)"
  by (simp_all add: status_event_def) (simp_all add: trigger_change_def Let_def)

lemma status_event_gated:
  assumes "\<not> capture_enabled (status_event p ls vb tr sp)"
  shows "epbs (status_event p ls vb tr sp) = epbs p"
proof -
  have t: "epbs (trigger_change p tr) = epbs p" by (simp add: trigger_change_def Let_def)
  have v: "epbs (vbus_change q vb) = epbs q" for q by (simp add: vbus_change_def Let_def)
  have s: "epbs (speed_change q sp) = epbs q" for q by (simp add: speed_change_def Let_def)
  have "epbs (ls_change q ls) = epbs q" if "\<not> capture_enabled q" for q
    using that ls_change_cases [of q ls] by (auto simp: epbs_gated)
  with assms show ?thesis by (simp add: status_event_def t v s)
qed

lemma header_done_gate:
  "(\<exists>tr. capture_trigger_input (header_done p) = tr \<and> capture_enabled (header_done p) =
     (if capture_trigger_input p = tr then capture_enabled p
      else trigger_enables (capture_trigger_mode (p_opts p)) (capture_enabled p) (capture_trigger_input p) tr))"
  "capture_trigger_mode (p_opts (header_done p)) = capture_trigger_mode (p_opts p)"
  by (simp_all add: header_done_def Let_def check_data_size_def status_event_gate)

lemma header_done_gated: "\<not> capture_enabled (header_done p) \<Longrightarrow> epbs (header_done p) = epbs p"
  by (auto simp: header_done_def Let_def check_data_size_def status_event_gated split: if_splits)

lemma capture_sm_gate:
  "\<exists>tr. capture_trigger_input (capture_sm p b) = tr \<and> capture_enabled (capture_sm p b) =
     (if capture_trigger_input p = tr then capture_enabled p
      else trigger_enables (capture_trigger_mode (p_opts p)) (capture_enabled p) (capture_trigger_input p) tr)"
  "capture_trigger_mode (p_opts (capture_sm p b)) = capture_trigger_mode (p_opts p)"
  by (simp_all add: capture_sm_def Let_def header_done_gate header_done_gate(1) [simplified])

lemma epbs_store_byte [simp]: "epbs (store_byte p b) = epbs p"
  by (simp add: epbs_def)

lemma capture_sm_gated: "\<not> capture_enabled (capture_sm p b) \<Longrightarrow> epbs (capture_sm p b) = epbs p"
  by (auto simp: capture_sm_def Let_def epbs_gated header_done_gated split: if_splits)

section \<open>The capture limit\<close>

lemma packets_append: "p_out q = p_out p @ cs \<Longrightarrow> packets_written q = packets_written p + sum_list (map call_packets cs)"
  by (simp add: packets_written_def)

lemma packets_ls_calls [simp]: "sum_list (map call_packets (ls_calls p)) = 0"
  by (simp add: ls_calls_def line_state_text_def)

lemma packets_info: "packets_written (capture_info p ts s) = packets_written p + call_packets (WriteInfo ts (take 511 s))"
  by (rule trans [OF packets_append [of _ p "ls_calls p @ [WriteInfo ts (take 511 s)]"]]) (simp_all add: capture_info_closed)

lemma packets_out [simp]:
  "take 511 s \<noteq> ''Keep-alive'' \<Longrightarrow> packets_written (capture_info p ts s) = packets_written p"
  "packets_written (capture_info p ts ''Keep-alive'') = packets_written p + 1"
  "packets_written (line_state_event p) = packets_written p"
  "packets_written (write_packet p ts d n) = packets_written p + 1"
  by (simp_all add: packets_info)
    (simp_all add: packets_append [of _ p "ls_calls p"] line_state_event_closed packets_append [of _ p "[WriteEpb ts (map d [0..<n])]"]
      write_packet_def put_call_def)

lemma packets_cong: "p_out q = p_out p \<Longrightarrow> packets_written q = packets_written p"
  by (simp add: packets_written_def)

text \<open>
  Written packets plus the remaining limit stay constant, and the session is over exactly when
  the limit is used up.
\<close>

definition limit_step :: "packet \<Rightarrow> packet \<Rightarrow> bool" where
  "limit_step p q \<longleftrightarrow> int (packets_written q) + capture_limit (p_opts q) = int (packets_written p) + capture_limit (p_opts p)
     \<and> packets_written p \<le> packets_written q
     \<and> (p_done q \<longleftrightarrow> capture_limit (p_opts q) = 0) \<and> 0 \<le> capture_limit (p_opts q)
     \<and> \<not> fold_empty (p_opts q) \<and> capture_fold_buf_ptr q = 0 \<and> capture_fold_count q = 0"

abbreviation limited :: "packet \<Rightarrow> bool" where
  "limited p \<equiv> limit_step p p \<and> \<not> p_done p"

lemma limit_step_trans: "limit_step p q \<Longrightarrow> limit_step q r \<Longrightarrow> limit_step p r"
  by (simp add: limit_step_def)

lemma limit_info: "limit_step p q \<Longrightarrow> take 511 s \<noteq> ''Keep-alive'' \<Longrightarrow> limit_step p (capture_info q ts s)"
  by (simp add: limit_step_def)

lemma limit_line_state: "limit_step p q \<Longrightarrow> limit_step p (line_state_event q)"
  by (simp add: limit_step_def)

lemma limit_cong:
  "limit_step p q \<Longrightarrow> p_out r = p_out q \<Longrightarrow> p_opts r = p_opts q \<Longrightarrow> p_done r = p_done q \<Longrightarrow>
     capture_fold_buf_ptr r = capture_fold_buf_ptr q \<Longrightarrow> capture_fold_count r = capture_fold_count q \<Longrightarrow> limit_step p r"
  by (simp add: limit_step_def packets_written_def)

lemma limit_check:
  assumes "limited p" and "packets_written q = packets_written p + 1" and "p_opts q = p_opts p" and "\<not> p_done q"
    and "capture_fold_buf_ptr q = 0" and "capture_fold_count q = 0"
  shows "limit_step p (check_capture_limit q)"
proof -
  have "packets_written (q\<lparr>p_opts := x\<rparr>) = packets_written q" for x by (rule packets_cong) simp
  moreover have "packets_written (r\<lparr>p_done := x\<rparr>) = packets_written r" for r x by (rule packets_cong) simp
  ultimately show ?thesis
    using assms by (auto simp: check_capture_limit_def Let_def limit_step_def)
qed

lemma limit_data_event:
  assumes "limited p"
  shows "limit_step p (data_event p)"
proof -
  have f: "\<not> fold_empty (p_opts p)" "capture_fold_buf_ptr p = 0" "capture_fold_count p = 0" "\<not> p_done p"
    using assms by (auto simp: limit_step_def)
  have "limit_step p (data_reports p)"
    using assms f by (simp add: data_reports_def Let_def stop_folding_idle limit_info limit_line_state)
  moreover have "data_store (data_reports p) =
      write_packet (data_reports p) (capture_ts p) (capture_data p) (capture_size p)"
    using f(1) by (simp add: data_store_def Let_def)
  ultimately have "limit_step p (check_capture_limit (data_store (data_reports p)))"
    using assms by (intro limit_check) (auto simp: limit_step_def)
  then show ?thesis using assms by (simp add: data_event_def)
qed

lemma limit_keepalive:
  assumes "limited p"
  shows "limit_step p (keepalive_event p ts delta)"
proof -
  have "limit_step p (check_capture_limit (write_keepalive p ts))"
    using assms by (intro limit_check) (auto simp: write_keepalive_def limit_step_def)
  then show ?thesis using assms by (auto simp: keepalive_event_def limit_step_def)
qed

lemma limit_status:
  assumes "limited p"
  shows "limit_step p (status_event p ls vb tr sp)"
proof -
  have upd: "limit_step p q \<Longrightarrow> limit_step p (q\<lparr>capture_enabled := e, capture_trigger_input := t\<rparr>)"
    "limit_step p q \<Longrightarrow> limit_step p (q\<lparr>capture_vbus := t\<rparr>)" "limit_step p q \<Longrightarrow> limit_step p (q\<lparr>capture_speed_in := t\<rparr>)"
    "limit_step p q \<Longrightarrow> limit_step p (q\<lparr>capture_ls := t\<rparr>)"
    "limit_step p q \<Longrightarrow> limit_step p (q\<lparr>capture_ls := t, capture_saved_ls := u\<rparr>)"
    "limit_step p q \<Longrightarrow> limit_step p (q\<lparr>capture_saved_ls := t, capture_saved_ts := v\<rparr>)" for q e t u v
    by (erule limit_cong; simp)+
  have t: "limit_step p (trigger_change p tr)"
    using assms by (simp add: trigger_change_def Let_def limit_info upd)
  have v: "limit_step p q \<Longrightarrow> limit_step p (vbus_change q vb)" for q
    by (simp add: vbus_change_def Let_def limit_info upd)
  have s: "limit_step p q \<Longrightarrow> limit_step p (speed_change q sp)" for q
    by (simp add: speed_change_def Let_def limit_info upd)
  have l: "limit_step p (ls_change q ls)" if q: "limit_step p q" "\<not> p_done q" for q
    using ls_change_cases [of q ls]
  proof (elim disjE exE)
    fix ts delta
    let ?r = "q\<lparr>capture_ls := ls, capture_saved_ls := LS_INVALID\<rparr>"
    assume "ls_change q ls = keepalive_event ?r ts delta"
    moreover have "limit_step p ?r" using q(1) by (rule upd)
    then have "limited ?r" "limit_step p ?r" using q(2) by (auto simp: limit_step_def)
    ultimately show ?thesis using limit_keepalive [of ?r ts delta] limit_step_trans [of p ?r] by simp
  qed (use q in \<open>simp_all add: upd limit_line_state\<close>)
  show ?thesis unfolding status_event_def using assms by (intro l s v t) simp
qed

lemma limit_header_done:
  assumes "limited p"
  shows "limit_step p (header_done p)"
proof -
  have upd: "limit_step p q \<Longrightarrow> limit_step p (q\<lparr>capture_size := a, capture_data_ptr := b, capture_header := c, capture_status := d\<rparr>)"
    "limit_step p q \<Longrightarrow> limit_step p (q\<lparr>capture_ts := u, capture_toggle := i\<rparr>)"
    "limit_step p q \<Longrightarrow> limit_step p (q\<lparr>capture_ts_int := u, capture_ts := v, capture_toggle := i\<rparr>)"
    "limit_step p q \<Longrightarrow> limit_step p (q\<lparr>capture_data_ptr := b\<rparr>)"
    "limit_step p q \<Longrightarrow> limit_step p (q\<lparr>capture_size := a, capture_overflow := c, capture_crc_error := d,
       capture_data_error := e, capture_duration := n, capture_header := h, capture_data_ptr := b\<rparr>)" for q a b c d e h u v i n
    by (erule limit_cong; simp)+
  have de: "limit_step p q \<Longrightarrow> limit_step p (desync_error q)" for q
    by (simp add: desync_error_def Let_def upd limit_info)
  have h: "limit_step p (header_common p)"
    using assms by (simp add: header_common_def check_header_def timeout_event_def Let_def upd limit_info de)
  have "limited (header_common p)" using h assms by (auto simp: limit_step_def)
  then have "limit_step p (status_event (header_common p) a b c d)" for a b c d
    using limit_status limit_step_trans [OF h] by blast
  with h show ?thesis
    by (simp add: header_done_def Let_def check_data_size_def upd de limit_info)
qed

lemma limit_capture_sm:
  assumes "limited p"
  shows "limit_step p (capture_sm p b)"
proof -
  let ?q = "store_byte p b" and ?r = "(store_byte p b)\<lparr>capture_header := True\<rparr>"
  have q: "limit_step p ?q" by (rule limit_cong [OF assms [THEN conjunct1]]) simp_all
  then have r: "limit_step p ?r" by (rule limit_cong) simp_all
  have self: "limit_step p x \<Longrightarrow> limit_step x x" for x by (simp add: limit_step_def)
  have "limited ?q" "limited ?r" using self [OF q] self [OF r] assms by simp_all
  note hd = limit_step_trans [OF q limit_header_done [OF this(1)]] and de = limit_step_trans [OF r limit_data_event [OF this(2)]]
  from de have "limit_step p ((data_event ?r)\<lparr>capture_data_ptr := 0\<rparr>)" by (rule limit_cong) simp_all
  with q hd show ?thesis by (simp add: capture_sm_def Let_def)
qed

lemma limit_feed: "limited p \<Longrightarrow> limit_step p (feed_loop p bs)"
proof (induction bs arbitrary: p)
  case (Cons b bs)
  let ?q = "capture_sm p b"
  have s: "limit_step p ?q" using Cons.prems by (rule limit_capture_sm)
  show ?case
  proof (cases "p_done ?q")
    case False
    then have "limited ?q" using s by (auto simp: limit_step_def)
    then show ?thesis using Cons.IH [of ?q] limit_step_trans [OF s] False by (simp add: Let_def)
  qed (use s in \<open>simp add: Let_def\<close>)
qed simp

section \<open>Folding\<close>

lemma unfold_frame_epbs:
  "\<exists>e. epbs (unfold_frame p i) = epbs p @ e \<and>
     map snd e = (let f = capture_fold_buf p i in if fr_size f < 0 then [] else [map (fr_data f) [0..<nat (fr_size f)]])"
  by (cases "fr_size (capture_fold_buf p i) < 0") (simp_all add: unfold_frame_def Let_def write_keepalive_def)

lemma unfolds_epbs:
  "\<exists>es. epbs (foldl unfold_frame p is) = epbs p @ es \<and>
     map snd es = concat (map (\<lambda>i. let f = capture_fold_buf p i in if fr_size f < 0 then []
       else [map (fr_data f) [0..<nat (fr_size f)]]) is)"
proof (induction "is" arbitrary: p)
  case (Cons i "is")
  let ?q = "unfold_frame p i"
  have "capture_fold_buf ?q = capture_fold_buf p"
    using quiet_unfold_frame [of p i, THEN arg_cong, of capture_fold_buf] by simp
  with Cons.IH [of ?q] obtain es where es: "epbs (foldl unfold_frame ?q is) = epbs ?q @ es"
    "map snd es = concat (map (\<lambda>i. let f = capture_fold_buf p i in if fr_size f < 0 then []
       else [map (fr_data f) [0..<nat (fr_size f)]]) is)" by auto
  obtain e where "epbs ?q = epbs p @ e" "map snd e = (let f = capture_fold_buf p i in if fr_size f < 0 then []
      else [map (fr_data f) [0..<nat (fr_size f)]])"
    using unfold_frame_epbs [of p i] by blast
  with es show ?case by (intro exI [of _ "e @ es"]) (simp add: Let_def)
qed simp

text \<open>Ending a batch replays every buffered packet, in order.\<close>

lemma stop_folding_epbs: "\<exists>es. epbs (stop_folding p) = epbs p @ es \<and> map snd es = fold_pending p"
proof (cases "capture_fold_count p = 0 \<and> capture_fold_buf_ptr p = 0")
  case True
  then show ?thesis by (simp add: stop_folding_def fold_pending_def)
next
  case False
  let ?q = "p\<lparr>capture_fold_count := 0, capture_fold_buf_ptr := 0\<rparr>"
  have "epbs ?q = epbs p" by (simp add: epbs_def)
  with unfolds_epbs [of ?q "[0..<capture_fold_buf_ptr p]"] False show ?thesis
    by (auto simp: stop_folding_def fold_pending_def Let_def)
qed

text \<open>The reports either end the batch or leave it as it is.\<close>

lemma data_reports_batch:
  "\<exists>es. epbs (data_reports p) = epbs p @ es \<and> map snd es @ fold_pending (data_reports p) = fold_pending p"
  "capture_fold_buf_ptr p = 0 \<Longrightarrow> capture_fold_buf_ptr (data_reports p) = 0"
  "capture_overflow p \<or> capture_crc_error p \<or> capture_data_error p \<Longrightarrow> capture_fold_buf_ptr (data_reports p) = 0"
proof -
  let ?l = "line_state_event p"
  have pend: "fold_pending (capture_info q ts s) = fold_pending q" "fold_pending ?l = fold_pending p"
    "fold_pending (stop_folding q) = []" for q ts s
    by (simp_all add: fold_pending_def)
  show "\<exists>es. epbs (data_reports p) = epbs p @ es \<and> map snd es @ fold_pending (data_reports p) = fold_pending p"
    using stop_folding_epbs [of ?l] by (auto simp: data_reports_def Let_def pend)
  show "capture_fold_buf_ptr p = 0 \<Longrightarrow> capture_fold_buf_ptr (data_reports p) = 0"
    "capture_overflow p \<or> capture_crc_error p \<or> capture_data_error p \<Longrightarrow> capture_fold_buf_ptr (data_reports p) = 0"
    by (auto simp: data_reports_def Let_def)
qed

lemma data_store_kept:
  assumes "capture_fold_buf_ptr p = 0 \<or> fold_empty (p_opts p)"
    and "capture_fold_buf_ptr p = 0 \<and> (capture_crc_error p \<or> capture_data_error p)
      \<or> capture_data p 0 \<notin> {PID_SOF, PID_IN, PID_NAK} \<and> \<not> capture_crc_error p \<and> \<not> capture_data_error p"
  shows "\<exists>es. epbs (data_store p) = epbs p @ es @ [(capture_ts p, map (capture_data p) [0..<capture_size p])]
    \<and> map snd es = fold_pending p \<and> capture_fold_buf_ptr (data_store p) = 0"
proof (cases "capture_fold_buf_ptr p = 0")
  case True
  then have "data_store p = write_packet p (capture_ts p) (capture_data p) (capture_size p)"
    using assms by (auto simp: data_store_def Let_def)
  with True show ?thesis by (simp add: fold_pending_def)
next
  case False
  with assms have "data_store p = write_packet (stop_folding p) (capture_ts p) (capture_data p) (capture_size p)"
    by (auto simp: data_store_def Let_def)
  with stop_folding_epbs [of p] show ?thesis by auto
qed

section \<open>A status header that fails its check\<close>

lemma check_header_bad:
  assumes "t \<noteq> capture_toggle p \<or> z \<noteq> 0"
  shows "capture_status (check_header p t z) = False" "capture_header (check_header p t z) = True"
    "capture_data_ptr (check_header p t z) = 0"
  using assms by (auto simp: check_header_def desync_error_def Let_def)

section \<open>Properties\<close>









end
