(* ===== verification/Gen2_Session.thy ===== *)
theory Gen2_Session
  imports Command Transport Stream_Delivery Packet_Sessions
begin

text \<open>
  A second-generation capture session, \<open>run_capture_gen2\<close> of \<open>src/main.c\<close>: the callbacks that connect the
  transport, the block parser, the command layer and the frame parser, the startup with its link probe
  and its recovery, the event loop and the orderly end. The transport is any table of operations. The
  \<open>context\<close> of the callbacks is the user state of the stream; the raw queue with its worker (theory
  \<open>Rawq\<close>) is here the first-in first-out list it implements, from which the worker takes any number of
  pieces before each round of the event loop. \<open>p_out\<close> lists all calls on the pcapng writer, those of
  \<open>main.c\<close> included, and \<open>ss_begin\<close> says after how many of them \<open>pcapng_begin\<close> was called.
\<close>

section \<open>Definitions\<close>

definition dlt_for_speed :: "int \<Rightarrow> nat" where
  "dlt_for_speed speed =
     (if speed = CaptureSpeed_LS then 293 else if speed = CaptureSpeed_FS then 294
      else if speed = CaptureSpeed_HS then 295 else 288)"

record capture_ctx =
  cx_cmd :: cmd
  cx_packet :: packet
  cx_stop :: bool

record 't session =
  ss_tr :: 't
  ss_stream :: "capture_ctx stream"
  ss_async :: bool
  ss_rawq :: "bytes list"
  ss_begin :: "(nat \<times> nat) option"
  ss_ticks :: nat
  ss_sent :: "bytes list"
  ss_late :: "bytes list"

subsection \<open>Callbacks\<close>

definition gen2_data_cb :: "capture_ctx \<Rightarrow> bytes \<Rightarrow> capture_ctx" where
  "gen2_data_cb cx data =
     (let cx = (if \<not> cmd_input_suppressed (cx_cmd cx) then cx\<lparr>cx_packet := packet_feed (cx_packet cx) data\<rparr> else cx)
      in if packet_finished (cx_packet cx) then cx\<lparr>cx_stop := True\<rparr> else cx)"

definition gen2_ack_cb :: "capture_ctx \<Rightarrow> capture_ctx" where
  "gen2_ack_cb cx = cx\<lparr>cx_cmd := cmd_ack_event (cx_cmd cx)\<rparr>"

definition gen2_rsync_cb :: "capture_ctx \<Rightarrow> capture_ctx" where
  "gen2_rsync_cb cx = cx\<lparr>cx_packet := packet_rsync (cx_packet cx)\<rparr>"

definition gen2_callbacks :: "capture_ctx stream_callbacks" where
  "gen2_callbacks = \<lparr>data_cb = gen2_data_cb, ack_cb = gen2_ack_cb, rsync_cb = gen2_rsync_cb\<rparr>"

definition feed_cb :: "'t session \<Rightarrow> bytes \<Rightarrow> 't session option" where
  "feed_cb s data =
     (if data = [] then Some s
      else if ss_async s then Some (s\<lparr>ss_rawq := ss_rawq s @ [data]\<rparr>)
      else map_option (\<lambda>st. s\<lparr>ss_stream := st\<rparr>) (stream_feed (ss_stream s) data))"

fun feed_all :: "'t session \<Rightarrow> bytes list \<Rightarrow> 't session option" where
  "feed_all s [] = Some s"
| "feed_all s (d # ds) = Option.bind (feed_cb s d) (\<lambda>s. feed_all s ds)"

definition session_events :: "'t transport_ops \<Rightarrow> nat \<Rightarrow> 't session \<Rightarrow> (bool \<times> 't session) option" where
  "session_events ops ms s =
     (let (ok, chunks, t) = transport_events ops ms (ss_tr s)
      in map_option (Pair ok) (feed_all (s\<lparr>ss_tr := t\<rparr>) chunks))"

text \<open>\<open>clk\<close> is the clock: the value of its n-th reading.\<close>

definition map_ctx :: "(capture_ctx \<Rightarrow> capture_ctx) \<Rightarrow> 't session \<Rightarrow> 't session" where
  "map_ctx f s = s\<lparr>ss_stream := (ss_stream s)\<lparr>s_user := f (s_user (ss_stream s))\<rparr>\<rparr>"

abbreviation ctx :: "'t session \<Rightarrow> capture_ctx" where
  "ctx s \<equiv> s_user (ss_stream s)"

definition session_env :: "'t transport_ops \<Rightarrow> (nat \<Rightarrow> int) \<Rightarrow> 't session cmd_env" where
  "session_env ops clk = \<lparr>
     ce_cmd = (\<lambda>s. cx_cmd (ctx s)),
     ce_upd = (\<lambda>f. map_ctx (cx_cmd_update f)),
     ce_write = (\<lambda>pkt s. let (rc, t) = transport_write ops pkt (ss_tr s) in (rc, s\<lparr>ss_tr := t, ss_sent := ss_sent s @ [pkt]\<rparr>)),
     ce_events = session_events ops,
     ce_alive = (\<lambda>s. transport_alive ops (ss_tr s)),
     ce_now = (\<lambda>s. (clk (ss_ticks s), s\<lparr>ss_ticks := ss_ticks s + 1\<rparr>))\<rparr>"

subsection \<open>Startup\<close>

definition capture_stop_and_flush :: "'t transport_ops \<Rightarrow> (nat \<Rightarrow> int) \<Rightarrow> 't session \<Rightarrow> 't session" where
  "capture_stop_and_flush ops clk s =
     (let s = cmd_tx_quiet (session_env ops clk) UHSIF_CMD_ENABLE 0 s;
          s = cmd_tx_quiet (session_env ops clk) UHSIF_CMD_RESET 1 s
      in s\<lparr>ss_tr := transport_discard ops (ss_tr s)\<rparr>)"

definition LINK_PROBE_MS :: nat where "LINK_PROBE_MS = 400"

text \<open>The measured bytes: \<open>link_mbps\<close> is negative exactly when they are not positive.\<close>

definition capture_speed_probe :: "'t transport_ops \<Rightarrow> (nat \<Rightarrow> int) \<Rightarrow> 't session \<Rightarrow> int \<times> 't session" where
  "capture_speed_probe ops clk s =
     (let s = cmd_tx_quiet (session_env ops clk) UHSIF_CMD_UPLOAD_PARAMS 4092 s;
          s = cmd_tx_quiet (session_env ops clk) UHSIF_CMD_TEST 1 s;
          (bytes, t) = transport_probe_upstream ops LINK_PROBE_MS (ss_tr s);
          s = cmd_tx_quiet (session_env ops clk) UHSIF_CMD_TEST 0 (s\<lparr>ss_tr := t\<rparr>)
      in (bytes, s\<lparr>ss_tr := transport_discard ops (ss_tr s)\<rparr>))"

text \<open>
  \<open>bytes * 1000.0 / 400 / 1e6\<close> in C \<open>double\<close>: all but the last division are exact for the sizes a probe
  can return, so the value is \<open>bytes / 400000\<close> rounded to 53 bits, \<open>m * 2 ^ (k - 116)\<close>; \<open>"%.1f"\<close> rounds it to
  tenths.
\<close>

definition double_div :: "int \<Rightarrow> int \<Rightarrow> int \<times> nat" where
  "double_div a b = (let k = log2_int ((a * 2 ^ 64) div b) in (round_even (a * 2 ^ 116) (b * 2 ^ k), k))"

definition mbps_text :: "int \<Rightarrow> string" where
  "mbps_text bytes =
     (let (m, k) = double_div bytes 400000; t = round_even (10 * m * 2 ^ k) (2 ^ 116)
      in dec_int (t div 10) @ ''.'' @ [dec_digit (t mod 10)])"

definition mbps_degraded :: "int \<Rightarrow> bool" where
  "mbps_degraded bytes = (let (m, k) = double_div bytes 400000 in m * 2 ^ k < 150 * 2 ^ 116)"

definition write_line :: "nat \<Rightarrow> string \<Rightarrow> packet \<Rightarrow> packet" where
  "write_line n line p = (if length line < n then put_call (put_call p (WriteInfo 0 line)) FlushCall else p)"

definition announce_link :: "int \<Rightarrow> packet \<Rightarrow> packet" where
  "announce_link bytes p =
     (let p = (if 0 < bytes then write_line 128 (''Link bandwidth (uplink): '' @ mbps_text bytes @ '' MB/s'') p else p)
      in if 0 < bytes \<and> mbps_degraded bytes
         then write_line 192 (''WARNING: uplink degraded ('' @ mbps_text bytes @ '' MB/s < 150); expected ~420 MB/s with 16 KiB blocks on SuperSpeed -- host stalls may drop packets'') p
         else p)"

definition startup_attempt :: "'t transport_ops \<Rightarrow> (nat \<Rightarrow> int) \<Rightarrow> bool \<Rightarrow> int \<Rightarrow> 't session \<Rightarrow> (int \<times> bool \<times> 't session) option" where
  "startup_attempt ops clk replay speed s =
     (let s = capture_stop_and_flush ops clk s;
          (bytes, s) = (if \<not> replay then capture_speed_probe ops clk s else (-1, s))
      in map_option (Pair bytes) (capture_init_cmds (session_env ops clk) speed s))"

definition io_of :: "'a option \<Rightarrow> 'a io" where "io_of = map_option Inr"

definition capture_startup :: "'t transport_ops \<Rightarrow> (nat \<Rightarrow> int) \<Rightarrow> bool \<Rightarrow> int \<Rightarrow> 't session \<Rightarrow> (int \<times> 't session) io" where
  "capture_startup ops clk replay speed s =
     io_bind (io_of (startup_attempt ops clk replay speed s)) (\<lambda>(bytes, inited, s).
     if inited then io_return (bytes, s)
     else let (ok, t) = transport_reset_device ops (ss_tr s)
          in if \<not> ok then os_error ''FPGA not responding and device reset is unavailable''
             else io_bind (io_of (startup_attempt ops clk replay speed (map_ctx (cx_cmd_update (\<lambda>_. cmd_init)) (s\<lparr>ss_tr := t\<rparr>)))) (\<lambda>(bytes, inited, s).
                  if inited then io_return (bytes, s)
                  else os_error ''FPGA did not acknowledge the init sequence after device reset''))"

text \<open>From \<open>pcapng_begin\<close> to the start of the event loop; \<open>build\<close> is the compiler's date and time.\<close>

definition capture_open :: "'t transport_ops \<Rightarrow> string \<Rightarrow> int \<Rightarrow> int \<Rightarrow> 't session \<Rightarrow> 't session io" where
  "capture_open ops build speed bytes s =
     (let s = s\<lparr>ss_begin := Some (length (p_out (cx_packet (ctx s))), dlt_for_speed speed)\<rparr>;
          s = map_ctx (cx_packet_update (\<lambda>p. packet_info (packet_announce (announce_link bytes p)) (''Plugin build: '' @ build))) s
      in io_bind (transport_stream_mode ops (ss_tr s)) (\<lambda>t. io_return (s\<lparr>ss_tr := t, ss_async := True\<rparr>)))"

subsection \<open>Streaming\<close>

text \<open>
  What happens beside the event loop before its i-th test: how many pieces the worker takes from the
  raw queue, whether a signal arrives, whether writing the output has failed.
\<close>

record turn =
  tu_work :: nat
  tu_signal :: bool
  tu_write_failed :: bool

definition worker_turn :: "turn \<Rightarrow> 't session \<Rightarrow> 't session option" where
  "worker_turn u s =
     map_option (\<lambda>st. (if tu_signal u then map_ctx (cx_stop_update (\<lambda>_. True)) else (\<lambda>s. s))
         (s\<lparr>ss_stream := st, ss_rawq := drop (tu_work u) (ss_rawq s)\<rparr>))
       (feed_chunks (ss_stream s) (take (tu_work u) (ss_rawq s)))"

partial_function (option) event_loop :: "'t transport_ops \<Rightarrow> (nat \<Rightarrow> turn) \<Rightarrow> nat \<Rightarrow> 't session \<Rightarrow> (turn \<times> 't session) option" where
  "event_loop ops turns i s =
     Option.bind (worker_turn (turns i) s) (\<lambda>s.
       if \<not> cx_stop (ctx s) \<and> transport_alive ops (ss_tr s) \<and> \<not> packet_finished (cx_packet (ctx s)) \<and> \<not> tu_write_failed (turns i)
       then Option.bind (session_events ops 50 s) (\<lambda>r.
         if \<not> fst r then Some (turns i, snd r) else event_loop ops turns (i + 1) (snd r))
       else Some (turns i, s))"

text \<open>\<open>rawq_stop\<close>: the worker feeds all that is queued, and ends.\<close>

definition drain_rawq :: "'t session \<Rightarrow> 't session option" where
  "drain_rawq s =
     map_option (\<lambda>st. s\<lparr>ss_stream := st, ss_rawq := [], ss_async := False\<rparr>) (feed_chunks (ss_stream s) (ss_rawq s))"

definition stop_reason :: "'t transport_ops \<Rightarrow> bool \<Rightarrow> 't session \<Rightarrow> string" where
  "stop_reason ops write_failed s =
     (if packet_finished (cx_packet (ctx s)) then ''capture limit reached''
      else if cx_stop (ctx s) then ''host stop (Wireshark Stop / stop condition / signal)''
      else if write_failed then ''output pipe closed (consumer stopped reading)''
      else if \<not> transport_alive ops (ss_tr s) then ''uplink/device lost''
      else ''stream ended'')"

definition capture_end :: "'t transport_ops \<Rightarrow> (nat \<Rightarrow> int) \<Rightarrow> 't session \<Rightarrow> 't session option" where
  "capture_end ops clk s =
     (if transport_alive ops (ss_tr s)
      then Option.bind (cmd_exec (session_env ops clk) UHSIF_CMD_ENABLE 0 s) (\<lambda>(ok, s).
           let s = (if \<not> ok then cmd_tx_quiet (session_env ops clk) UHSIF_CMD_ENABLE 0 s else s)
           in map_option snd (session_events ops 20 s))
      else Some s)"

definition capture_run :: "'t transport_ops \<Rightarrow> (nat \<Rightarrow> int) \<Rightarrow> (nat \<Rightarrow> turn) \<Rightarrow> 't session \<Rightarrow> 't session option" where
  "capture_run ops clk turns s =
     Option.bind (event_loop ops turns 0 s) (\<lambda>(u, s).
     Option.bind (drain_rawq s) (\<lambda>s.
       let why = stop_reason ops (tu_write_failed u) s;
           s = map_ctx (cx_packet_update (\<lambda>p. packet_stop_info p why)) s
       in capture_end ops clk s))"

text \<open>
  The closing calls. The stream and the frame parser are deleted before the transport is closed:
  \<open>ss_late\<close> is what the transport still hands to the deleted stream.
\<close>

definition capture_close :: "'t transport_ops \<Rightarrow> 't session \<Rightarrow> 't session" where
  "capture_close ops s = (let (late, t) = transport_close ops (ss_tr s) in s\<lparr>ss_tr := t, ss_late := late\<rparr>)"

definition session_new :: "packet_opts \<Rightarrow> 't \<Rightarrow> 't session" where
  "session_new popts t =
     \<lparr>ss_tr = t, ss_stream = stream_new gen2_callbacks \<lparr>cx_cmd = cmd_init, cx_packet = packet_new popts [], cx_stop = False\<rparr>,
      ss_async = False, ss_rawq = [], ss_begin = None, ss_ticks = 0, ss_sent = [], ss_late = []\<rparr>"

definition run_capture_gen2 ::
  "'t transport_ops \<Rightarrow> (nat \<Rightarrow> int) \<Rightarrow> (nat \<Rightarrow> turn) \<Rightarrow> string \<Rightarrow> bool \<Rightarrow> packet_opts \<Rightarrow> 't \<Rightarrow> 't session io" where
  "run_capture_gen2 ops clk turns build replay popts t =
     io_bind (transport_open ops t) (\<lambda>(ok, t).
     if \<not> ok then os_error ''could not open the capture transport''
     else io_bind (capture_startup ops clk replay (capture_speed popts) (session_new popts t)) (\<lambda>(bytes, s).
          io_bind (capture_open ops build (capture_speed popts) bytes s) (\<lambda>s. io_of (map_option (capture_close ops) (capture_run ops clk turns s)))))"

section \<open>The context behind the stream\<close>

text \<open>A property of the user state that every callback keeps is kept by the stream.\<close>

lemma carve_user:
  assumes "\<And>u d. P u \<Longrightarrow> P (data_cb (c_cb c) u d)" "\<And>u. P u \<Longrightarrow> P (ack_cb (c_cb c) u)" "\<And>u. P u \<Longrightarrow> P (rsync_cb (c_cb c) u)"
    and "P (c_user c)"
  shows "P (c_user (carve c)) \<and> c_cb (carve c) = c_cb c"
  using assms
proof (induction c rule: carve.induct)
  case (1 c)
  show ?case
  proof (cases "length (c_pend c) < 16")
    case True
    then show ?thesis using 1 by (simp add: carve.simps [of c])
  next
    case long: False
    show ?thesis
    proof (cases "header_valid (c_pend c)")
      case None
      let ?c = "if c_state c = STREAM_BLOCK then carve_lose c else set_pend (tl (c_pend c)) c"
      have c: "c_cb ?c = c_cb c" "P (c_user ?c)" using 1 by (auto simp: carve_lose_def set_pend_def)
      from 1(1) [OF long None] 1(3-5) c have "P (c_user (carve ?c)) \<and> c_cb (carve ?c) = c_cb c" by simp
      then show ?thesis using long None by (subst (1 2) carve.simps) simp
    next
      case (Some n)
      show ?thesis
      proof (cases "length (c_pend c) < 16 + 4 * unat n")
        case True
        then show ?thesis using 1 long Some by (simp add: carve.simps [of c])
      next
        case False
        have c: "c_cb (carve_accept c (unat n)) = c_cb c" "P (c_user (carve_accept c (unat n)))"
          using 1 by (auto simp: carve_accept_def Let_def)
        from 1(2) [OF long Some False] 1(3-5) c have "P (c_user (carve (carve_accept c (unat n)))) \<and> c_cb (carve (carve_accept c (unat n))) = c_cb c"
          by simp
        then show ?thesis using long Some False by (subst (1 2) carve.simps) simp
      qed
    qed
  qed
qed

lemma carve_smaller: "carve_measure (carve c) \<le> carve_measure c \<and>
    (carve_measure (carve c) = carve_measure c \<longrightarrow>
      length (c_pend c) < 16 \<or> (\<exists>n. header_valid (c_pend c) = Some n \<and> length (c_pend c) < 16 + 4 * unat n))"
proof (induction c rule: carve.induct)
  case (1 c)
  show ?case
  proof (cases "length (c_pend c) < 16")
    case True
    then show ?thesis by (simp add: carve.simps [of c])
  next
    case long: False
    show ?thesis
    proof (cases "header_valid (c_pend c)")
      case None
      let ?c = "if c_state c = STREAM_BLOCK then carve_lose c else set_pend (tl (c_pend c)) c"
      have "length (skip_garbage (c_pend c)) \<le> length (c_pend c)" by (rule length_skip_garbage)
      moreover have "length (skip_garbage (tl (c_pend c))) \<le> length (c_pend c) - 1"
        using length_skip_garbage [of "tl (c_pend c)"] by simp
      ultimately have "carve_measure ?c < carve_measure c" using long
        by (cases "c_state c") (auto simp: carve_measure_def carve_lose_def set_pend_def)
      moreover have "carve c = carve ?c" using long None by (subst carve.simps) simp
      ultimately show ?thesis using 1(1) [OF long None] by simp
    next
      case (Some n)
      show ?thesis
      proof (cases "length (c_pend c) < 16 + 4 * unat n")
        case True
        then show ?thesis using long Some by (simp add: carve.simps [of c])
      next
        case False
        then have "carve_measure (carve_accept c (unat n)) < carve_measure c"
          using long by (auto simp: carve_measure_def carve_accept_def Let_def)
        moreover have "carve c = carve (carve_accept c (unat n))" using long Some False by (subst carve.simps) simp
        ultimately show ?thesis using 1(2) [OF long Some False] by simp
      qed
    qed
  qed
qed

lemma carve_set_user: "carve c = c \<Longrightarrow> carve (c\<lparr>c_user := u\<rparr>) = c\<lparr>c_user := u\<rparr>"
  using carve_smaller [of c] by (subst carve.simps) auto

lemma stream_inv_user: "stream_inv s \<Longrightarrow> stream_inv (s\<lparr>s_user := u\<rparr>)"
proof -
  assume i: "stream_inv s"
  have "abs_stream (s\<lparr>s_user := u\<rparr>) = (abs_stream s)\<lparr>c_user := u\<rparr>"
    by (simp add: abs_stream_def set_pend_def pending_def)
  then show ?thesis using i carve_set_user [of "abs_stream s" u]
    by (simp add: stream_inv_def stream_wf_def stream_ok_def)
qed

lemma stream_feed_user:
  assumes "stream_inv s" and "s_cb s = cb" and "P (s_user s)"
    and "\<And>u d. P u \<Longrightarrow> P (data_cb cb u d)" "\<And>u. P u \<Longrightarrow> P (ack_cb cb u)" "\<And>u. P u \<Longrightarrow> P (rsync_cb cb u)"
  obtains s' where "stream_feed s d = Some s'" "stream_inv s'" "s_cb s' = cb" "P (s_user s')"
proof -
  have wf: "stream_wf s" using assms(1) by (simp add: stream_inv_def)
  obtain s' where s': "stream_feed s d = Some s'" "stream_inv s'" "abs_stream s' = carve_feed (abs_stream s) d"
    using wf by (rule stream_feed_inv)
  let ?c = "set_pend (c_pend (abs_stream s) @ d) (abs_stream s)"
  have c: "c_cb ?c = cb" "c_user ?c = s_user s" using assms(2) by (simp_all add: set_pend_def abs_stream_def)
  have "P (c_user (carve ?c)) \<and> c_cb (carve ?c) = c_cb ?c" using assms(3-) by (intro carve_user) (simp_all add: c)
  then have "P (c_user (abs_stream s')) \<and> c_cb (abs_stream s') = cb" unfolding s'(3) carve_feed_def c(1) .
  then show thesis using that [OF s'(1,2)] by (simp add: abs_stream_def set_pend_def)
qed

definition session_wf :: "'t session \<Rightarrow> bool" where
  "session_wf s \<longleftrightarrow> stream_inv (ss_stream s) \<and> s_cb (ss_stream s) = gen2_callbacks"

text \<open>The callbacks reach the \<open>cmd\<close> structure only through \<open>cmd_ack_event\<close>.\<close>

lemma gen2_callbacks_cmd:
  "cx_cmd (data_cb gen2_callbacks u d) = cx_cmd u" "cx_cmd (rsync_cb gen2_callbacks u) = cx_cmd u"
  "cx_cmd (ack_cb gen2_callbacks u) = cmd_ack_event (cx_cmd u)"
  by (simp_all add: gen2_callbacks_def gen2_data_cb_def gen2_rsync_cb_def gen2_ack_cb_def Let_def)

definition acked_from :: "cmd \<Rightarrow> capture_ctx \<Rightarrow> bool" where
  "acked_from c u \<longleftrightarrow> cx_cmd u = c \<or> cx_cmd u = cmd_ack_event c"

lemma feed_cb_cmd:
  assumes "session_wf s" and "acked_from c (ctx s)"
  obtains t where "feed_cb s d = Some t" "session_wf t" "acked_from c (ctx t)" "ss_sent t = ss_sent s" "ss_ticks t = ss_ticks s"
proof -
  have idem: "cmd_ack_event (cmd_ack_event c) = cmd_ack_event c" for c by (simp add: cmd_ack_event_def)
  obtain st where st: "stream_feed (ss_stream s) d = Some st" "stream_inv st" "s_cb st = gen2_callbacks" "acked_from c (s_user st)"
    using assms unfolding session_wf_def
    by (rule_tac stream_feed_user [of "ss_stream s" gen2_callbacks "acked_from c" d])
      (auto simp: acked_from_def gen2_callbacks_cmd idem)
  show thesis
  proof (cases "d = [] \<or> ss_async s")
    case True
    then have "feed_cb s d = Some (if d = [] then s else s\<lparr>ss_rawq := ss_rawq s @ [d]\<rparr>)" by (auto simp: feed_cb_def)
    from that [OF this] assms show ?thesis by (auto simp: session_wf_def)
  next
    case False
    then have "feed_cb s d = Some (s\<lparr>ss_stream := st\<rparr>)" by (simp add: feed_cb_def st(1))
    from that [OF this] st show ?thesis by (auto simp: session_wf_def)
  qed
qed

lemma feed_all_cmd:
  assumes "session_wf s" and "acked_from c (ctx s)"
  shows "\<exists>t. feed_all s ds = Some t \<and> session_wf t \<and> acked_from c (ctx t) \<and> ss_sent t = ss_sent s \<and> ss_ticks t = ss_ticks s"
  using assms
proof (induction ds arbitrary: s)
  case (Cons d ds)
  obtain t where "feed_cb s d = Some t" "session_wf t" "acked_from c (ctx t)" "ss_sent t = ss_sent s" "ss_ticks t = ss_ticks s"
    using Cons.prems by (rule feed_cb_cmd)
  with Cons.IH [of t] show ?case by auto
qed simp

lemma session_events_cmd:
  assumes "session_wf s"
  obtains b t where "session_events ops ms s = Some (b, t)" "session_wf t"
    "cx_cmd (ctx t) = cx_cmd (ctx s) \<or> cx_cmd (ctx t) = cmd_ack_event (cx_cmd (ctx s))" "ss_sent t = ss_sent s" "ss_ticks t = ss_ticks s"
proof -
  obtain b chunks t where e: "transport_events ops ms (ss_tr s) = (b, chunks, t)" by (cases "transport_events ops ms (ss_tr s)")
  have "session_wf (s\<lparr>ss_tr := t\<rparr>)" "acked_from (cx_cmd (ctx s)) (ctx (s\<lparr>ss_tr := t\<rparr>))"
    using assms by (simp_all add: session_wf_def acked_from_def)
  from feed_all_cmd [OF this, of chunks] obtain u where "feed_all (s\<lparr>ss_tr := t\<rparr>) chunks = Some u" "session_wf u"
    "acked_from (cx_cmd (ctx s)) (ctx u)" "ss_sent u = ss_sent s" "ss_ticks u = ss_ticks s" by auto
  then show thesis by (intro that [of b u]) (simp_all add: session_events_def e acked_from_def)
qed

text \<open>The session is a port for the command layer, over every transport and every clock.\<close>

interpretation session_port: command_port "session_env ops clk" ss_sent session_wf for ops clk
proof
  fix s s' :: "'a session" and ms b
  assume "session_wf s" and "ce_events (session_env ops clk) ms s = Some (b, s')"
  with session_events_cmd [of s ops ms] show
    "ce_cmd (session_env ops clk) s' = ce_cmd (session_env ops clk) s \<or> ce_cmd (session_env ops clk) s' = cmd_ack_event (ce_cmd (session_env ops clk) s)"
    "ss_sent s' = ss_sent s" "session_wf s'"
    by (auto simp: session_env_def)
qed (auto simp: session_env_def map_ctx_def session_wf_def stream_inv_user split: prod.split)

text \<open>With an unbounded clock, waiting ends.\<close>

lemma session_time_passes:
  assumes "\<And>T n. \<exists>m \<ge> n. T \<le> clk m"
  shows "time_passes (session_env ops clk) session_wf"
  unfolding time_passes_def
proof (intro allI impI)
  fix s :: "'a session" and T
  assume wf: "session_wf s"
  obtain m where m: "ss_ticks s \<le> m" "T \<le> clk m" using assms by blast
  have "\<exists>t. pumps (session_env ops clk) k s = Some t \<and> session_wf t \<and> ss_ticks t = ss_ticks s + k" for k
    using wf
  proof (induction k arbitrary: s)
    case (Suc k)
    have w: "session_wf (s\<lparr>ss_ticks := ss_ticks s + 1\<rparr>)" using Suc.prems by (simp add: session_wf_def)
    obtain b t where "session_events ops 20 (s\<lparr>ss_ticks := ss_ticks s + 1\<rparr>) = Some (b, t)" "session_wf t" "ss_ticks t = ss_ticks s + 1"
      by (rule session_events_cmd [OF w, of ops 20]) simp
    with Suc.IH [of t] show ?case by (auto simp: session_env_def)
  qed simp
  from this [of "m - ss_ticks s"] m show "\<exists>n t. pumps (session_env ops clk) n s = Some t \<and> T \<le> fst (ce_now (session_env ops clk) t)"
    by (auto simp: session_env_def)
qed

end
