(* ===== verification/Gen2_Theorems.thy ===== *)
theory Gen2_Theorems
  imports Gen2_Session
begin

text \<open>
  The properties of second-generation sessions: the send-and-wait protocol of the command layer over
  any transport and what it does not guarantee. The whole replay session is in theory \<open>Replay_Session\<close>.
\<close>

section \<open>The command protocol\<close>

text \<open>A command packet as the FPGA reads it: magic, CRC over the other three words, sequence number and command.\<close>

definition cmd_packet_ok :: "bytes \<Rightarrow> u8 \<Rightarrow> nat \<Rightarrow> u32 \<Rightarrow> bool" where
  "cmd_packet_ok pkt seq cid param \<longleftrightarrow>
     (let w0 = of_le32 pkt; w1 = of_le32 (drop 4 pkt); w2 = of_le32 (drop 8 pkt); w3 = of_le32 (drop 12 pkt)
      in length pkt = UHSIF_CMD_SIZE \<and> (ucast w0 :: u16) = UHSIF_CMD_MAGIC16 \<and> drop_bit 16 w0 = ucast (uhsif_hdr_crc16 w1 w2 w3)
         \<and> (ucast w1 :: u8) = of_nat cid \<and> (ucast (drop_bit 8 w1) :: u8) = seq \<and> drop_bit 16 w1 = 0 \<and> w2 = param \<and> w3 = 0)"

lemma build_packet_ok: "cid < 256 \<Longrightarrow> cmd_packet_ok (build_packet c cid param) (cm_seq c) cid param"
proof -
  assume "cid < 256"
  then have b: "\<not> bit (of_nat cid :: u32) n" if "8 \<le> n" for n
  proof -
    have "cid < 2 ^ n" using \<open>cid < 256\<close> that power_increasing [of 8 n "2 :: nat"] by simp
    then have "\<not> bit cid n" by (simp add: bit_iff_odd)
    then show ?thesis by (simp add: bit_of_nat_iff)
  qed
  let ?w1 = "push_bit 8 (ucast (cm_seq c)) OR of_nat cid :: u32"
  have w1: "(ucast ?w1 :: u8) = of_nat cid" "(ucast (drop_bit 8 ?w1) :: u8) = cm_seq c" "drop_bit 16 ?w1 = 0"
    by (rule word_bit_eqI, use b in \<open>auto simp: bit_simps dest: bit_imp_le_length\<close>)+
  have w0: "(ucast (push_bit 16 (ucast x) OR ucast m :: u32) :: u16) = m" "drop_bit 16 (push_bit 16 (ucast x) OR ucast m :: u32) = ucast x" for x m :: u16
    by (rule word_bit_eqI, auto simp: bit_simps dest: bit_imp_le_length)+
  show ?thesis by (simp add: cmd_packet_ok_def build_packet_def Let_def UHSIF_CMD_SIZE_def w0 w1 del: drop_bit_or)
qed

lemma build_packet_seq: "cm_seq c = cm_seq c' \<Longrightarrow> build_packet c cid param = build_packet c' cid param"
  by (simp add: build_packet_def)

lemma build_packet_carries: "cm_seq c = seq \<Longrightarrow> cid < 256 \<Longrightarrow> cmd_packet_ok (build_packet c cid param) seq cid param"
  using build_packet_ok by auto

text \<open>
  C36. The send-and-wait protocol, over any transport: as long as the clock advances, \<open>cmd_exec\<close>
  returns. It sends the same packet at least once and at most three times, and the packet carries the
  command, its parameter, the sequence number and a correct CRC. The sequence number advances by one
  exactly when the command is acknowledged; a failure is marked fatal unless the transport refused the
  packet; and no acknowledgement is awaited afterwards.
\<close>

theorem cmd_exec_contract:
  assumes "\<forall>T n. \<exists>m \<ge> n. T \<le> clk m" and "session_wf s" and "\<not> cm_waiting (cx_cmd (ctx s))" and "cid < 256"
    and "seq = cm_seq (cx_cmd (ctx s))"
  shows "\<exists>ok s' pkt k. cmd_exec (session_env ops clk) cid param s = Some (ok, s') \<and> session_wf s'
    \<and> 1 \<le> k \<and> k \<le> 3 \<and> ss_sent s' = ss_sent s @ replicate k pkt \<and> cmd_packet_ok pkt seq cid param
    \<and> cm_seq (cx_cmd (ctx s')) = (if ok then seq + 1 else seq) \<and> \<not> cm_waiting (cx_cmd (ctx s'))
    \<and> (ok \<longrightarrow> cm_ack_seen (cx_cmd (ctx s')))
    \<and> (\<not> ok \<longrightarrow> cm_fatal (cx_cmd (ctx s')) \<or> (\<exists>t. fst (transport_write ops pkt t) < 0))"
proof -
  let ?e = "session_env ops clk" and ?c = "cx_cmd (ctx s)"
  let ?pkt = "build_packet ?c cid param"
  have tp: "time_passes ?e session_wf" using assms(1) by (intro session_time_passes) blast
  obtain r where r: "cmd_attempts ?e cid param 3 s = Some r" "session_wf (snd r)"
    using session_port.attempts_return [OF tp assms(2)] by blast
  have c: "ce_cmd ?e t = cx_cmd (ctx t)" for t by (simp add: session_env_def)
  have w: "fst (ce_write ?e ?pkt t) = fst (transport_write ops ?pkt (ss_tr t))" for t
    by (simp add: session_env_def split: prod.split)
  obtain k where k: "k \<le> 3" "0 < k" "ss_sent (snd r) = ss_sent s @ replicate k ?pkt"
    "cm_seq (cx_cmd (ctx (snd r))) = (if fst r then seq + 1 else seq)" "\<not> cm_waiting (cx_cmd (ctx (snd r)))"
    "fst r \<longrightarrow> cm_ack_seen (cx_cmd (ctx (snd r)))"
    "\<not> fst r \<longrightarrow> cm_fatal (cx_cmd (ctx (snd r))) \<or> (\<exists>t. fst (transport_write ops ?pkt t) < 0)"
    using session_port.attempts_effect [OF r(1) _ assms(2)] assms(3,5) unfolding c w by auto
  have "cmd_exec ?e cid param s = Some (fst r, snd r)" using r(1) by (simp add: cmd_exec_def UHSIF_CMD_RETRIES_def)
  moreover have "cmd_packet_ok ?pkt seq cid param" using build_packet_ok [OF assms(4)] assms(5) by simp
  ultimately show ?thesis using r(2) k
    by (intro exI [of _ "fst r"] exI [of _ "snd r"] exI [of _ ?pkt] exI [of _ k]) auto
qed

lemma session_new_wf: "session_wf (session_new popts t)"
  using stream_new_inv by (simp add: session_wf_def session_new_def) (simp add: stream_new_def)

theorem cmd_exec_contract_witness:
  "\<exists>ok s'. cmd_exec (session_env replay_ops (\<lambda>n. int n)) UHSIF_CMD_ENABLE 1
      (session_new \<lparr>fold_empty = False, exclude_line_state = True, capture_speed = 3,
        capture_trigger_mode = CaptureTrigger_Disabled, capture_limit = -1\<rparr> \<lparr>rp_rest = [], rp_alive = True, rp_stream_mode = False\<rparr>)
    = Some (ok, s') \<and> 1 \<le> length (ss_sent s') \<and> length (ss_sent s') \<le> 3"
proof -
  let ?s = "session_new \<lparr>fold_empty = False, exclude_line_state = True, capture_speed = 3,
        capture_trigger_mode = CaptureTrigger_Disabled, capture_limit = -1\<rparr> \<lparr>rp_rest = [], rp_alive = True, rp_stream_mode = False\<rparr>"
  have "\<exists>m \<ge> n. T \<le> int m" for T n by (intro exI [of _ "max n (nat T)"]) auto
  moreover have "\<not> cm_waiting (cx_cmd (ctx ?s))" "ss_sent ?s = []" by (simp_all add: session_new_def stream_new_def cmd_init_def)
  ultimately show ?thesis
    using cmd_exec_contract [OF _ session_new_wf, of "\<lambda>n. int n"
      "\<lparr>fold_empty = False, exclude_line_state = True, capture_speed = 3, capture_trigger_mode = CaptureTrigger_Disabled, capture_limit = -1\<rparr>"
      "\<lparr>rp_rest = [], rp_alive = True, rp_stream_mode = False\<rparr>" UHSIF_CMD_ENABLE _ replay_ops 1]
    by (fastforce simp: UHSIF_CMD_ENABLE_def)
qed

section \<open>Acknowledgements carry no identity\<close>

text \<open>
  A device that answers late and loses a packet: every round of events brings what is scheduled, the
  acknowledgement of the packet with the given number, and the clock advances by 100 ms per reading.
\<close>

record late_device =
  ld_cmd :: cmd
  ld_sent :: "bytes list"
  ld_acks :: "nat option list"
  ld_acked :: "nat list"
  ld_time :: nat

definition late_env :: "late_device cmd_env" where
  "late_env = \<lparr>ce_cmd = ld_cmd, ce_upd = ld_cmd_update,
     ce_write = (\<lambda>pkt s. (0, s\<lparr>ld_sent := ld_sent s @ [pkt]\<rparr>)),
     ce_events = (\<lambda>ms s. case ld_acks s of
        Some i # as \<Rightarrow> Some (True, s\<lparr>ld_acks := as, ld_acked := ld_acked s @ [i], ld_cmd := cmd_ack_event (ld_cmd s)\<rparr>)
      | _ \<Rightarrow> Some (True, s\<lparr>ld_acks := tl (ld_acks s)\<rparr>)),
     ce_alive = (\<lambda>s. True),
     ce_now = (\<lambda>s. (int (ld_time s), s\<lparr>ld_time := ld_time s + 100\<rparr>))\<rparr>"


end
