(* ===== verification/Jtag.thy ===== *)
theory Jtag
  imports Os_Common
begin

text \<open>
  The JTAG layer of the first-generation device: the clock batching and the scan operations of
  \<open>src/gen1/fpga.c\<close> and the packing of the requests in \<open>src/gen1/usb.c\<close>. The device at the other end
  of the USB control pipe is a parameter: \<open>ju_request\<close> is the control transfer \<open>CMD_JTAG_REQUEST\<close>
  (count and data) and \<open>ju_response\<close> the transfer \<open>CMD_JTAG_RESPONSE\<close> (length wanted), each \<open>None\<close> when
  libusb reports an error. The theory ends with the IEEE 1149.1 TAP controller as the specification of
  the scan operations.
\<close>

section \<open>Requests over the control pipe\<close>

definition MAX_COUNT_IN_REQUEST :: nat where "MAX_COUNT_IN_REQUEST = 255"

record 'd jtag_usb =
  ju_request :: "nat \<Rightarrow> bytes \<Rightarrow> 'd \<Rightarrow> 'd option"
  ju_response :: "nat \<Rightarrow> 'd \<Rightarrow> (bytes \<times> 'd) option"
  ju_junk :: bytes

text \<open>\<open>g_jtag_buf\<close> up to \<open>g_jtag_count\<close>, and the device.\<close>

record 'd jtag =
  jt_buf :: "u8 list"
  jt_dev :: 'd

definition pack_clocks :: "u8 list \<Rightarrow> bytes" where
  "pack_clocks data =
     foldl (\<lambda>buf i. or_at buf (i div 4) (push_bit (i mod 4 * 2) (data ! i))) (replicate 64 0) [0..<length data]"

definition usb_jtag_request :: "'d jtag_usb \<Rightarrow> u8 list \<Rightarrow> 'd \<Rightarrow> 'd io" where
  "usb_jtag_request u data d =
     (let count = length data
      in io_bind (os_assert (0 < count \<and> count \<le> MAX_COUNT_IN_REQUEST)) (\<lambda>_.
         case ju_request u count (take ((count + 3) div 4) (pack_clocks data)) d of
           None \<Rightarrow> Some (Inl (UsbError ''usb_jtag_request()''))
         | Some d' \<Rightarrow> io_return d'))"

text \<open>
  The answer, one nibble per received byte. \<open>buf\<close> is an uninitialised local array of 64 bytes; the
  transfer fills it with the bytes received and the loop reads \<open>(count + 3) / 4\<close> of them, so a shorter
  answer would leave unspecified nibbles: \<open>ju_junk\<close>.
\<close>

definition merge_nibbles :: "bytes \<Rightarrow> nat \<Rightarrow> bytes" where
  "merge_nibbles buf count =
     foldl (\<lambda>data i. or_at data (i div 2) (push_bit (i mod 2 * 4) (buf ! i AND 0x0f)))
       (replicate ((count + 7) div 8) 0) [0..<(count + 3) div 4]"

definition usb_jtag_response :: "'d jtag_usb \<Rightarrow> nat \<Rightarrow> 'd \<Rightarrow> (bytes \<times> 'd) io" where
  "usb_jtag_response u count d =
     io_bind (os_assert (count \<le> MAX_COUNT_IN_REQUEST)) (\<lambda>_.
       case ju_response u ((count + 3) div 4) d of
         None \<Rightarrow> Some (Inl (UsbError ''usb_jtag_response()''))
       | Some (r, d') \<Rightarrow> io_return (merge_nibbles (take 64 (take ((count + 3) div 4) r @ ju_junk u @ replicate 64 0)) count, d'))"

section \<open>Clocks and scans\<close>

definition jtag_sync :: "'d jtag_usb \<Rightarrow> 'd jtag \<Rightarrow> 'd jtag io" where
  "jtag_sync u j =
     (if jt_buf j \<noteq> []
      then io_bind (usb_jtag_request u (jt_buf j) (jt_dev j)) (\<lambda>d. io_return (j\<lparr>jt_buf := [], jt_dev := d\<rparr>))
      else io_return j)"

definition jtag_clk :: "'d jtag_usb \<Rightarrow> bool \<Rightarrow> bool \<Rightarrow> 'd jtag \<Rightarrow> 'd jtag io" where
  "jtag_clk u tdi tms j =
     (let j = j\<lparr>jt_buf := jt_buf j @ [push_bit 1 (of_bool tdi) OR of_bool tms]\<rparr>
      in if MAX_COUNT_IN_REQUEST = length (jt_buf j) then jtag_sync u j else io_return j)"

text \<open>A sequence of clocks, \<open>(tdi, tms)\<close> each: the loops and straight-line sequences of the scans.\<close>

fun jtag_clks :: "'d jtag_usb \<Rightarrow> (bool \<times> bool) list \<Rightarrow> 'd jtag \<Rightarrow> 'd jtag io" where
  "jtag_clks u [] j = io_return j"
| "jtag_clks u ((tdi, tms) # cs) j = io_bind (jtag_clk u tdi tms j) (jtag_clks u cs)"

definition data_bit :: "bytes \<Rightarrow> nat \<Rightarrow> bool" where
  "data_bit data i = bit (data ! (i div 8)) (i mod 8)"

definition jtag_reset :: "'d jtag_usb \<Rightarrow> 'd jtag \<Rightarrow> 'd jtag io" where
  "jtag_reset u j = jtag_clks u (replicate 16 (False, True) @ [(False, False)]) j"

definition jtag_write_ir :: "'d jtag_usb \<Rightarrow> u8 \<Rightarrow> 'd jtag \<Rightarrow> 'd jtag io" where
  "jtag_write_ir u ir j =
     jtag_clks u ([(False, True), (False, True), (False, False), (False, False)]
       @ map (\<lambda>i. (bit ir i, i = 7)) [0..<8] @ [(False, True), (False, False)]) j"

definition jtag_write_dr :: "'d jtag_usb \<Rightarrow> bytes \<Rightarrow> nat \<Rightarrow> 'd jtag \<Rightarrow> 'd jtag io" where
  "jtag_write_dr u data n j =
     jtag_clks u ([(False, True), (False, False), (False, False)]
       @ map (\<lambda>i. (data_bit data i, i = n - 1)) [0..<n] @ [(False, True), (False, False)]) j"

definition jtag_read_dr :: "'d jtag_usb \<Rightarrow> nat \<Rightarrow> 'd jtag \<Rightarrow> (bytes \<times> 'd jtag) io" where
  "jtag_read_dr u n j =
     io_bind (jtag_clks u [(False, True), (False, False), (False, False)] j) (\<lambda>j.
     io_bind (jtag_sync u j) (\<lambda>j.
     io_bind (jtag_clks u (map (\<lambda>i. (False, i = n - 1)) [0..<n]) j) (\<lambda>j.
     io_bind (jtag_sync u j) (\<lambda>j.
     io_bind (usb_jtag_response u n (jt_dev j)) (\<lambda>(data, d).
     io_bind (jtag_clks u [(False, True), (False, False)] (j\<lparr>jt_dev := d\<rparr>)) (\<lambda>j.
     io_return (data, j)))))))"

definition jtag_run :: "'d jtag_usb \<Rightarrow> nat \<Rightarrow> 'd jtag \<Rightarrow> 'd jtag io" where
  "jtag_run u count j = jtag_clks u (replicate count (False, False)) j"


section \<open>Batching\<close>

text \<open>
  A recording device: it unpacks each request into its clocks and appends them as one entry. Reads
  are not part of it.
\<close>

definition unpack_clocks :: "nat \<Rightarrow> bytes \<Rightarrow> u8 list" where
  "unpack_clocks n b = map (\<lambda>i. drop_bit (i mod 4 * 2) (b ! (i div 4)) AND 3) [0..<n]"

definition recorder :: "u8 list list jtag_usb" where
  "recorder = \<lparr>ju_request = (\<lambda>n b d. if length b = (n + 3) div 4 then Some (d @ [unpack_clocks n b]) else None),
     ju_response = (\<lambda>n d. None), ju_junk = []\<rparr>"

definition clock_byte :: "bool \<times> bool \<Rightarrow> u8" where
  "clock_byte c = push_bit 1 (of_bool (fst c)) OR of_bool (snd c)"

definition clock_of :: "u8 \<Rightarrow> bool \<times> bool" where
  "clock_of b = (bit b 1, bit b 0)"

lemma clock_of_byte [simp]: "clock_of (clock_byte c) = c"
  by (cases c) (simp add: clock_of_def clock_byte_def bit_simps)

lemma clock_byte_bits: "2 \<le> n \<Longrightarrow> \<not> bit (clock_byte c) n"
  by (simp add: clock_byte_def bit_simps)

lemma length_pack_clocks [simp]: "length (pack_clocks data) = 64"
  by (simp add: pack_clocks_def)

lemma unpack_pack:
  assumes "\<forall>c \<in> set data. \<forall>n \<ge> 2. \<not> bit c n" and "length data \<le> 255"
  shows "unpack_clocks (length data) (take ((length data + 3) div 4) (pack_clocks data)) = data"
proof (rule nth_equalityI)
  fix i assume "i < length (unpack_clocks (length data) (take ((length data + 3) div 4) (pack_clocks data)))"
  then have i: "i < length data" by (simp add: unpack_clocks_def)
  let ?f = "\<lambda>j. if j < length data then data ! j else 0"
  have eq: "pack_clocks data = foldl (\<lambda>b i. or_at b (i div 4) (push_bit (i mod 4 * 2) (?f i))) (replicate 64 0) [0..<length data]"
    unfolding pack_clocks_def by (rule foldl_cong) simp_all
  have f: "2 \<le> n \<Longrightarrow> \<not> bit (?f j) n" for j n using assms(1) by simp
  have d: "i div 4 < 64" "i div 4 < (length data + 3) div 4" using i assms(2) by linarith+
  have "drop_bit (i mod 4 * 2) (pack_clocks data ! (i div 4)) AND 3 = data ! i"
  proof (rule bit_word_eqI)
    fix n assume n8: "n < LENGTH(8)"
    have "bit (pack_clocks data ! (i div 4)) (i mod 4 * 2 + n) \<longleftrightarrow> bit (data ! i) n" if "n < 2"
    proof -
      have "(i mod 4 * 2 + n) div 2 = i mod 4" "(i mod 4 * 2 + n) mod 2 = n" "i mod 4 * 2 + n < 8" using that by simp_all
      then show ?thesis using bit_pack [of 2 4 ?f "i div 4" 64 "i mod 4 * 2 + n" "length data", OF _ _ f] d(1) i
        by (simp add: eq)
    qed
    moreover have "bit (3 :: u8) n \<longleftrightarrow> n < 2" using bit_mask_iff [of 2 n, where ?'a = u8] n8 by (simp add: mask_eq_exp_minus_1)
    ultimately show "bit (drop_bit (i mod 4 * 2) (pack_clocks data ! (i div 4)) AND 3) n \<longleftrightarrow> bit (data ! i) n"
      using f [of n i] i by (auto simp: bit_and_iff bit_drop_bit_eq)
  qed
  then show "unpack_clocks (length data) (take ((length data + 3) div 4) (pack_clocks data)) ! i = data ! i"
    using i d by (simp add: unpack_clocks_def)
qed (simp add: unpack_clocks_def)

text \<open>The state between operations: fewer than 255 well-formed clocks are buffered.\<close>

definition jtag_ok :: "'d jtag \<Rightarrow> bool" where
  "jtag_ok j \<longleftrightarrow> length (jt_buf j) < MAX_COUNT_IN_REQUEST \<and> (\<forall>c \<in> set (jt_buf j). \<forall>n \<ge> 2. \<not> bit c n)"

definition issued :: "u8 list list jtag \<Rightarrow> (bool \<times> bool) list" where
  "issued j = map clock_of (concat (jt_dev j) @ jt_buf j)"

lemma request_recorded:
  assumes "0 < length data" and "length data \<le> 255" and "\<forall>c \<in> set data. \<forall>n \<ge> 2. \<not> bit c n"
  shows "usb_jtag_request recorder data d = io_return (d @ [data])"
  using assms unpack_pack [OF assms(3,2)]
  by (simp add: usb_jtag_request_def recorder_def os_assert_def MAX_COUNT_IN_REQUEST_def Let_def)

lemma jtag_clk_byte:
  "jtag_clk u tdi tms j = (let j = j\<lparr>jt_buf := jt_buf j @ [clock_byte (tdi, tms)]\<rparr>
     in if MAX_COUNT_IN_REQUEST = length (jt_buf j) then jtag_sync u j else io_return j)"
  by (simp only: jtag_clk_def clock_byte_def fst_conv snd_conv)

lemma clk_recorded:
  assumes "jtag_ok j"
  shows "\<exists>j'. jtag_clk recorder tdi tms j = io_return j' \<and> jtag_ok j' \<and> issued j' = issued j @ [(tdi, tms)]
    \<and> (\<forall>r \<in> set (jt_dev j'). r \<in> set (jt_dev j) \<or> length r = MAX_COUNT_IN_REQUEST)"
proof -
  let ?b = "jt_buf j @ [clock_byte (tdi, tms)]"
  have ok: "\<forall>c \<in> set ?b. \<forall>n \<ge> 2. \<not> bit c n" using assms clock_byte_bits by (auto simp: jtag_ok_def)
  show ?thesis
  proof (cases "length ?b = MAX_COUNT_IN_REQUEST")
    case True
    then have "usb_jtag_request recorder ?b (jt_dev j) = io_return (jt_dev j @ [?b])"
      using ok by (intro request_recorded) (simp_all add: MAX_COUNT_IN_REQUEST_def)
    with True show ?thesis
      by (simp add: jtag_clk_byte jtag_sync_def Let_def jtag_ok_def issued_def MAX_COUNT_IN_REQUEST_def)
  next
    case False
    with assms ok show ?thesis by (auto simp: jtag_clk_byte Let_def jtag_ok_def issued_def)
  qed
qed

lemma clks_recorded:
  "jtag_ok j \<Longrightarrow> \<exists>j'. jtag_clks recorder cs j = io_return j' \<and> jtag_ok j' \<and> issued j' = issued j @ cs
    \<and> (\<forall>r \<in> set (jt_dev j'). r \<in> set (jt_dev j) \<or> length r = MAX_COUNT_IN_REQUEST)"
proof (induction cs arbitrary: j)
  case (Cons c cs)
  obtain tdi tms where c: "c = (tdi, tms)" by fastforce
  obtain j1 where j1: "jtag_clk recorder tdi tms j = io_return j1" "jtag_ok j1" "issued j1 = issued j @ [c]"
    "\<forall>r \<in> set (jt_dev j1). r \<in> set (jt_dev j) \<or> length r = MAX_COUNT_IN_REQUEST"
    using clk_recorded [OF Cons.prems, of tdi tms] c by auto
  with Cons.IH [OF j1(2)] show ?case by (fastforce simp: c)
qed simp

lemma sync_recorded:
  assumes "jtag_ok j"
  shows "\<exists>j'. jtag_sync recorder j = io_return j' \<and> jtag_ok j' \<and> jt_buf j' = [] \<and> issued j' = issued j
    \<and> (\<forall>r \<in> set (jt_dev j'). r \<in> set (jt_dev j) \<or> r = jt_buf j)"
  using assms request_recorded [of "jt_buf j" "jt_dev j"]
  by (cases "jt_buf j = []") (auto simp: jtag_sync_def jtag_ok_def MAX_COUNT_IN_REQUEST_def issued_def)

end
