(* ===== verification/Gen1_Capture.thy ===== *)
theory Gen1_Capture
  imports Packet_Frames Packet_Sessions
begin

text \<open>
  The first-generation capture path, \<open>src/gen1/capture.c\<close>. The file is the ancestor of
  \<open>src/packet.c\<close>: its global variables are the fields of \<open>struct packet\<close> (here \<open>capture_trigger\<close> is
  \<open>capture_trigger_input\<close>, \<open>capture_speed\<close> is \<open>capture_speed_in\<close>, and the fields of \<open>g_opt\<close> are \<open>p_opts\<close>),
  so the record \<open>packet\<close> is used for them; \<open>p_out\<close> lists the blocks written by \<open>write_packet\<close> and
  \<open>write_str\<close>, and \<open>p_done\<close> says that the process has ended with \<open>exit(0)\<close>. The differences between
  the two files are in the definitions: \<open>capture_info\<close> ends folding, the summary precedes the replayed
  frames, their times are not clamped, time differences are unsigned, the detected speed is used as
  it is, and a damaged frame or the capture limit ends the process.
\<close>

section \<open>Records, line states and folding\<close>

definition g1_line_state_name :: "packet \<Rightarrow> string" where
  "g1_line_state_name p =
     (let dp = capture_saved_ls p AND 3; dm = drop_bit 2 (capture_saved_ls p) AND 3
      in if dp = 0 \<and> dm = 0 then ''SE0''
         else if dp = 0 then (if CaptureSpeed_LS = capture_speed_in p then ''J'' else ''K'')
         else if dm = 0 then (if CaptureSpeed_LS = capture_speed_in p then ''K'' else ''J'')
         else ''Undefined (DP='' @ dec_int dp @ '' / DM='' @ dec_int dm @ '')'')"

definition g1_line_state_text :: "packet \<Rightarrow> string" where
  "g1_line_state_text p =
     ''Line state: '' @ g1_line_state_name p @ delta_text (int_of_u64 (capture_ts p - capture_saved_ts p))"

definition g1_write_packet :: "packet \<Rightarrow> u64 \<Rightarrow> u8 carray \<Rightarrow> nat \<Rightarrow> packet" where
  "g1_write_packet p ts data n = (put_call p (WriteEpb ts (map data [0..<n])))\<lparr>capture_last_ts := ts\<rparr>"

definition g1_write_str :: "packet \<Rightarrow> u64 \<Rightarrow> string \<Rightarrow> packet" where
  "g1_write_str p ts str = (put_call p (WriteInfo ts str))\<lparr>capture_last_ts := ts\<rparr>"

text \<open>
  \<open>capture_info\<close>, \<open>line_state_event\<close> and \<open>stop_folding\<close> call each other; \<open>g1_unfold\<close> is the loop of
  \<open>stop_folding\<close> over the frames it found in the buffer, and \<open>write_keepalive\<close> is the call of
  \<open>g1_capture_info\<close> in it. The recursion ends because each function marks its work as done before
  it calls the others.
\<close>

definition fold_text :: "nat \<Rightarrow> string" where
  "fold_text count = (if count = 1 then ''Folded empty frame'' else ''Folded '' @ dec_nat count @ '' empty frames'')"

definition g1_work :: "packet \<Rightarrow> nat" where
  "g1_work p = (if LS_INVALID = capture_saved_ls p then 0 else 1)
     + (if 0 = capture_fold_count p \<and> 0 = capture_fold_buf_ptr p then 0 else 1)"

lemma g1_work_write [simp]:
  "g1_work (g1_write_str p ts s) = g1_work p" "g1_work (g1_write_packet p ts d n) = g1_work p"
  by (simp_all add: g1_work_def g1_write_str_def g1_write_packet_def put_call_def)

function g1_capture_info :: "packet \<Rightarrow> u64 \<Rightarrow> string \<Rightarrow> packet"
  and g1_line_state_event :: "packet \<Rightarrow> packet"
  and g1_stop_folding :: "packet \<Rightarrow> packet"
  and g1_unfold :: "packet \<Rightarrow> CaptureFrame list \<Rightarrow> packet" where
  "g1_capture_info p ts str =
     (let p = g1_line_state_event p;
          p = g1_stop_folding p
      in g1_write_str p ts str)"
| "g1_line_state_event p =
     (if LS_INVALID = capture_saved_ls p then p
      else let q = p\<lparr>capture_saved_ls := LS_INVALID\<rparr>
           in if exclude_line_state (p_opts q) then q
              else g1_capture_info q (capture_saved_ts q) (g1_line_state_text p))"
| "g1_stop_folding p =
     (let count = capture_fold_count p; ptr = capture_fold_buf_ptr p
      in if 0 = count \<and> 0 = ptr then p
         else let p = p\<lparr>capture_fold_count := 0, capture_fold_buf_ptr := 0\<rparr>;
                  fs = map (capture_fold_buf p) [0..<ptr];
                  p = (if count \<ge> 1 then g1_capture_info p (capture_ts p) (fold_text count) else p)
              in g1_unfold p fs)"
| "g1_unfold p [] = p"
| "g1_unfold p (f # fs) =
     g1_unfold (if fr_size f < 0 then g1_capture_info p (fr_ts f) ''Keep-alive''
                else g1_write_packet p (fr_ts f) (fr_data f) (nat (fr_size f))) fs"
  by pat_completeness auto

termination
proof -
  have g1_work_mono:
    "g1_capture_info_g1_line_state_event_g1_stop_folding_g1_unfold_dom (Inl (Inl (p, ts, s))) \<Longrightarrow>
       g1_work (g1_capture_info p ts s) \<le> g1_work p"
    "g1_capture_info_g1_line_state_event_g1_stop_folding_g1_unfold_dom (Inl (Inr q)) \<Longrightarrow>
       g1_work (g1_line_state_event q) \<le> g1_work q"
    "g1_capture_info_g1_line_state_event_g1_stop_folding_g1_unfold_dom (Inr (Inl r)) \<Longrightarrow>
       g1_work (g1_stop_folding r) \<le> g1_work r"
    "g1_capture_info_g1_line_state_event_g1_stop_folding_g1_unfold_dom (Inr (Inr (t, fs))) \<Longrightarrow>
       g1_work (g1_unfold t fs) \<le> g1_work t" for p ts s q r t fs
  proof (induction p ts s and q and r and t fs rule: g1_capture_info_g1_line_state_event_g1_stop_folding_g1_unfold.pinduct)
    case (1 p ts str)
    then show ?case by (auto simp: g1_capture_info.psimps Let_def intro: le_trans)
  next
    case (2 p)
    then show ?case by (auto simp: g1_line_state_event.psimps Let_def g1_work_def split: if_splits)
  next
    case (3 p)
    let ?q = "p\<lparr>capture_fold_count := 0, capture_fold_buf_ptr := 0\<rparr>"
    have "g1_work ?q \<le> g1_work p" by (simp add: g1_work_def)
    moreover have "g1_work (g1_capture_info ?q (capture_ts p) (fold_text (capture_fold_count p))) \<le> g1_work ?q"
      if "1 \<le> capture_fold_count p"
      using 3(2) [OF refl refl _ refl refl] that by simp
    moreover note 3(3) [OF refl refl _ refl refl refl]
    ultimately show ?case using 3(1)
      by (cases "1 \<le> capture_fold_count p") (fastforce simp: g1_stop_folding.psimps Let_def intro: le_trans)+
  next
    case (4 p)
    then show ?case by (simp add: g1_unfold.psimps)
  next
    case (5 p f fs)
    then show ?case by (auto simp: g1_unfold.psimps intro: le_trans)
  qed
  show ?thesis
  proof (relation "inv_image (less_than <*lex*> less_than)
      (case_sum (case_sum (\<lambda>(p, ts, s). (g1_work p, 2)) (\<lambda>p. (g1_work p, 1)))
        (case_sum (\<lambda>p. (g1_work p, 1)) (\<lambda>(p, fs). (g1_work p, 3 + length fs))))", goal_cases)
    case 1
    then show ?case by auto
  next
    case (2 p ts s)
    then show ?case by auto
  next
    case (3 p ts s x)
    then show ?case using g1_work_mono(2) [of p] by auto
  next
    case (4 p q)
    then show ?case by (auto simp: g1_work_def)
  next
    case 5 then show ?case by (auto simp: g1_work_def)
  next
    case (6 p)
    let ?q = "p\<lparr>capture_fold_count := 0, capture_fold_buf_ptr := 0\<rparr>"
    have "\<not> (0 = capture_fold_count p \<and> 0 = capture_fold_buf_ptr p) \<Longrightarrow> g1_work ?q < g1_work p"
      by (auto simp: g1_work_def)
    with 6 show ?case by (auto; blast intro: le_less_trans g1_work_mono(1))
  next
    case 7 then show ?case by auto
  next
    case (8 p f fs)
    then show ?case using g1_work_mono(1) [of p "fr_ts f" "''Keep-alive''"] by (auto simp: order.order_iff_strict)
  qed
qed

declare g1_capture_info.simps [simp del] g1_line_state_event.simps [simp del] g1_stop_folding.simps [simp del]

definition g1_write_keepalive :: "packet \<Rightarrow> u64 \<Rightarrow> packet" where
  "g1_write_keepalive p ts = g1_capture_info p ts ''Keep-alive''"

definition g1_timeout_event :: "packet \<Rightarrow> packet" where
  "g1_timeout_event p = (if capture_enabled p then g1_capture_info p (capture_ts p) ''Periodic update'' else p)"

text \<open>\<open>exit(0)\<close> is \<open>p_done\<close>: no statement after it is executed.\<close>

definition g1_check_capture_limit :: "packet \<Rightarrow> packet" where
  "g1_check_capture_limit p =
     (let p = p\<lparr>p_opts := (p_opts p)\<lparr>capture_limit := capture_limit (p_opts p) - 1\<rparr>\<rparr>
      in if capture_limit (p_opts p) = 0
         then (g1_capture_info p (capture_ts p) ''Capture limit reached'')\<lparr>p_done := True\<rparr> else p)"

definition g1_next_empty_frame :: "packet \<Rightarrow> nat \<Rightarrow> packet" where
  "g1_next_empty_frame p limit =
     (let p = p\<lparr>capture_fold_count := capture_fold_count p + 1, capture_fold_buf_ptr := 0\<rparr>
      in if capture_fold_count p = limit then g1_stop_folding p else p)"

definition g1_keepalive_event :: "packet \<Rightarrow> u64 \<Rightarrow> int \<Rightarrow> packet" where
  "g1_keepalive_event p ts delta =
     (if \<not> capture_enabled p then p
      else g1_check_capture_limit
        (if \<not> fold_empty (p_opts p) then g1_write_keepalive p ts
         else if capture_fold_buf_ptr p \<noteq> 0 then fold_keepalive (g1_next_empty_frame p FOLD_LIMIT_LS_FS) ts delta
         else fold_keepalive p ts delta))"

section \<open>Events\<close>

definition g1_trigger_change :: "packet \<Rightarrow> int \<Rightarrow> packet" where
  "g1_trigger_change p trigger =
     (if capture_trigger_input p = trigger then p
      else let was_enabled = capture_enabled p;
               p = p\<lparr>capture_enabled := trigger_enables (capture_trigger_mode (p_opts p)) was_enabled
                       (capture_trigger_input p) trigger,
                     capture_trigger_input := trigger\<rparr>;
               p = g1_capture_info p (capture_ts p) (''Trigger input = '' @ dec_int trigger)
           in if capture_enabled p \<and> \<not> was_enabled then g1_capture_info p (capture_ts p) ''Starting capture''
              else if was_enabled \<and> \<not> capture_enabled p then g1_capture_info p (capture_ts p) ''Waiting for a trigger''
              else p)"

definition g1_vbus_change :: "packet \<Rightarrow> int \<Rightarrow> packet" where
  "g1_vbus_change p vbus =
     (if capture_vbus p = vbus then p
      else let p = p\<lparr>capture_vbus := vbus\<rparr>
           in g1_capture_info p (capture_ts p) (''VBUS '' @ (if vbus \<noteq> 0 then ''ON'' else ''OFF'')))"

definition g1_speed_change :: "packet \<Rightarrow> int \<Rightarrow> packet" where
  "g1_speed_change p speed =
     (if capture_speed_in p = speed then p
      else let p = p\<lparr>capture_speed_in := speed\<rparr>
           in if \<not> capture_enabled p then p
              else if CaptureSpeed_Reset = speed then g1_capture_info p (capture_ts p) ''--- Bus Reset ---''
              else g1_capture_info p (capture_ts p) (''Detected speed: '' @ speed_name speed))"

text \<open>Here \<open>delta\<close> is compared as the \<open>u64\<close> it is; \<open>keepalive_event\<close> takes it as an \<open>int\<close>.\<close>

definition g1_ls_change :: "packet \<Rightarrow> int \<Rightarrow> packet" where
  "g1_ls_change p ls =
     (if capture_ls p = ls then p
      else let delta = uint (capture_ts p - capture_saved_ts p);
               p = p\<lparr>capture_ls := ls\<rparr>
           in if CaptureSpeed_LS = capture_speed_in p \<and> LS_SE0 = capture_saved_ls p \<and> LS_J3 = ls
                 \<and> MIN_KEEPALIVE_DURATION < delta \<and> delta < MAX_KEEPALIVE_DURATION
              then g1_keepalive_event (p\<lparr>capture_saved_ls := LS_INVALID\<rparr>) (capture_saved_ts p) delta
              else (g1_line_state_event p)\<lparr>capture_saved_ls := ls, capture_saved_ts := capture_ts p\<rparr>)"

definition g1_status_event :: "packet \<Rightarrow> int \<Rightarrow> int \<Rightarrow> int \<Rightarrow> int \<Rightarrow> packet" where
  "g1_status_event p ls vbus trigger speed =
     g1_ls_change (g1_speed_change (g1_vbus_change (g1_trigger_change p trigger) vbus) speed) ls"

definition g1_data_store :: "packet \<Rightarrow> packet" where
  "g1_data_store p =
     (let data_error = capture_crc_error p \<or> capture_data_error p;
          allow_sof = (CaptureSpeed_LS \<noteq> capture_speed_in p);
          pid = capture_data p 0;
          wr = (\<lambda>p. g1_write_packet p (capture_ts p) (capture_data p) (capture_size p));
          fo = (\<lambda>p. fold_packet p (capture_ts p) (capture_data p) (capture_size p))
      in if data_error \<or> \<not> fold_empty (p_opts p) then wr p
         else if capture_fold_buf_ptr p \<noteq> 0 then
           (if PID_IN = pid \<or> PID_NAK = pid then fo p
            else if PID_SOF = pid \<and> allow_sof
            then fo (g1_next_empty_frame p
              (if CaptureSpeed_HS = capture_speed_in p then FOLD_LIMIT_HS else FOLD_LIMIT_LS_FS))
            else wr (g1_stop_folding p))
         else if PID_SOF = pid \<and> allow_sof then fo p else wr p)"

definition g1_data_reports :: "packet \<Rightarrow> packet" where
  "g1_data_reports p =
     (let data_error = capture_crc_error p \<or> capture_data_error p;
          p = g1_line_state_event p;
          p = (if capture_overflow p \<or> data_error \<or> FOLD_BUF_SIZE = capture_fold_buf_ptr p
               then g1_stop_folding p else p);
          p = (if capture_overflow p then g1_capture_info p (capture_ts p) ''Hardware buffer overflow'' else p)
      in if capture_data_error p then g1_capture_info p (capture_ts p) ''USB PHY error'' else p)"

definition g1_data_event :: "packet \<Rightarrow> packet" where
  "g1_data_event p =
     (if \<not> capture_enabled p then p else g1_check_capture_limit (g1_data_store (g1_data_reports p)))"

section \<open>The frame state machine\<close>

definition g1_header_dump :: "packet \<Rightarrow> string" where
  "g1_header_dump p = concat (map (\<lambda>i. hex_byte (capture_data p i) @ '' '') [0..<capture_size p])"

definition g1_desync_error :: "packet \<Rightarrow> packet" where
  "g1_desync_error p =
     (let p = g1_capture_info p (capture_ts p) ''Error: protocol desynchronization, stopping the capture'';
          p = g1_capture_info p (capture_ts p) (''Packet header: '' @ g1_header_dump p)
      in p\<lparr>p_done := True\<rparr>)"

definition g1_check_header :: "packet \<Rightarrow> int \<Rightarrow> int \<Rightarrow> packet" where
  "g1_check_header p toggle zero =
     (if toggle = capture_toggle p \<and> 0 = zero then p
      else let p = (if toggle \<noteq> capture_toggle p
                    then g1_capture_info p (capture_ts p)
                      (''Error: received toggle value '' @ dec_int toggle @ '', expected '' @ dec_int (capture_toggle p))
                    else p);
               p = (if zero \<noteq> 0 then g1_capture_info p (capture_ts p) ''Error: zero bit in the header is not zero'' else p)
           in g1_desync_error p)"

definition g1_check_data_size :: "packet \<Rightarrow> nat \<Rightarrow> packet" where
  "g1_check_data_size p n =
     (if DATA_HEADER_SIZE \<le> n \<and> n \<le> MAX_DATA_SIZE then p
      else g1_desync_error (g1_capture_info p (capture_ts p) (''Error: invalid data size ('' @ dec_nat n @ '')'')))"

definition g1_header_common :: "packet \<Rightarrow> packet" where
  "g1_header_common p =
     (let d = capture_data p; ts = header_ts d; toggle = flag (d 0) 0x40; zero = flag (d 0) 0x20;
          p = g1_check_header p toggle zero
      in if p_done p then p
         else let p = (if d 0 AND 0x10 \<noteq> 0 then p\<lparr>capture_ts_int := capture_ts_int p + 0x100000\<rparr> else p);
                  p = p\<lparr>capture_ts := ((capture_ts_int p OR ts) * 100) div 6, capture_toggle := 1 - toggle\<rparr>
              in if uint (capture_ts p - capture_last_ts p) > UPDATE_INTERVAL then g1_timeout_event p else p)"

definition g1_header_done :: "packet \<Rightarrow> packet" where
  "g1_header_done p =
     (let p = g1_header_common p; d = capture_data p
      in if p_done p then p
         else if capture_status p
         then (g1_status_event p (uint (d 3 AND 0x0f)) (flag (d 3) 0x10) (flag (d 3) 0x20) (uint (drop_bit 6 (d 3) AND 3)))
                \<lparr>capture_data_ptr := 0\<rparr>
         else let size = header_size d; p = g1_check_data_size p size
              in if p_done p then p
                 else p\<lparr>capture_size := size - DATA_HEADER_SIZE,
                        capture_overflow := (d 3 AND 0x08 \<noteq> 0),
                        capture_crc_error := (d 3 AND 0x10 \<noteq> 0),
                        capture_data_error := (d 3 AND 0x20 \<noteq> 0),
                        capture_duration := unat (push_bit 8 (ucast (d 5)) OR ucast (d 6) :: u32),
                        capture_header := (size - DATA_HEADER_SIZE = 0),
                        capture_data_ptr := 0\<rparr>)"

definition g1_capture_sm :: "packet \<Rightarrow> u8 \<Rightarrow> packet" where
  "g1_capture_sm p byte =
     (let p = store_byte p byte
      in if capture_data_ptr p < capture_size p then p
         else if capture_header p then g1_header_done p
         else (g1_data_event (p\<lparr>capture_header := True\<rparr>))\<lparr>capture_data_ptr := 0\<rparr>)"

fun g1_capture_callback :: "packet \<Rightarrow> bytes \<Rightarrow> packet" where
  "g1_capture_callback p [] = p"
| "g1_capture_callback p (b # bs) = (if p_done p then p else g1_capture_callback (g1_capture_sm p b) bs)"

end
