(* ===== verification/Gen1_Agree.thy ===== *)
theory Gen1_Agree
  imports Gen1_Capture
begin

text \<open>
  The two generations of the frame parser compared. First, bounds on the lengths of the formatted
  messages (the first generation does not clamp the result of \<open>vsnprintf\<close>); then the equivalence: on
  undamaged input whose time runs forward, without folding, \<open>gen1/capture.c\<close> and \<open>packet.c\<close> go through
  the same states and write the same records.
\<close>

section \<open>Lengths of formatted messages\<close>

lemma length_dec_digits: "n < 10 ^ k \<Longrightarrow> 0 < k \<Longrightarrow> length (dec_digits n) \<le> k"
proof (induction k arbitrary: n)
  case (Suc k)
  show ?case
  proof (cases "n < 10")
    case True
    then show ?thesis by (simp add: dec_digits.simps [of n])
  next
    case False
    then have "0 < k" using Suc.prems by (cases k) auto
    moreover have "n div 10 < 10 ^ k" using Suc.prems by (simp add: div_less_iff_less_mult mult.commute)
    ultimately have "length (dec_digits (n div 10)) \<le> k" by (intro Suc.IH)
    with False show ?thesis by (simp add: dec_digits.simps [of n])
  qed
qed simp

lemma length_dec_int: "\<bar>n\<bar> < 10 ^ k \<Longrightarrow> 0 < k \<Longrightarrow> length (dec_int n) \<le> k + 1"
  using length_dec_digits [of n k] length_dec_digits [of "- n" k] by (auto simp: dec_int_def)

lemma length_dec_nat: "int n < 10 ^ k \<Longrightarrow> 0 < k \<Longrightarrow> length (dec_nat n) \<le> k + 1"
  using length_dec_int [of "int n" k] by (simp add: dec_nat_def dec_int_def)


lemma div_lessI: "a < c * b \<Longrightarrow> 0 < b \<Longrightarrow> a div b < (c::int)"
proof -
  assume "a < c * b" "0 < b"
  moreover have "b * (a div b) \<le> a" using \<open>0 < b\<close> mult_div_mod_eq [of b a] pos_mod_sign [of b a] by linarith
  ultimately have "b * (a div b) < b * c" by (metis le_less_trans mult.commute)
  with \<open>0 < b\<close> show ?thesis by (metis mult_less_cancel_left_pos)
qed

lemma round_even_bounds:
  assumes "0 < b" and "0 \<le> a"
  shows "0 \<le> round_even a b" "round_even a b \<le> a div b + 1"
proof -
  have "0 \<le> a div b" using assms by (simp add: pos_imp_zdiv_nonneg_iff)
  then show "0 \<le> round_even a b" "round_even a b \<le> a div b + 1" by (simp_all add: round_even_def Let_def)
qed

lemma log2_int_bounds:
  "1 \<le> n \<Longrightarrow> 2 ^ log2_int n \<le> n \<and> n < 2 ^ Suc (log2_int n)"
proof (induction n rule: log2_int.induct)
  case (1 n)
  show ?case
  proof (cases "n \<le> 1")
    case True
    with 1(2) have "n = 1" by simp
    then show ?thesis by (simp add: log2_int.simps [of 1])
  next
    case False
    then have ih: "2 ^ log2_int (n div 2) \<le> n div 2 \<and> n div 2 < 2 ^ Suc (log2_int (n div 2))" using 1(1) by simp
    have "n < 2 * (n div 2) + 2" "2 * (n div 2) \<le> n" by linarith+
    with ih False show ?thesis by (simp add: log2_int.simps [of n])
  qed
qed

lemma float_mantissa:
  assumes "0 \<le> a" and "0 < b" and "k = log2_int (a div b)"
  shows "a < b * 2 ^ Suc k"
proof (cases "a div b < 1")
  case True
  then have "a < b" using assms(1,2) pos_imp_zdiv_pos_iff [of b a] by linarith
  also have "b \<le> b * 2 ^ Suc k" using assms(2) mult_left_mono [of 1 "2 ^ Suc k" b] one_le_power [of "2::int" "Suc k"] by simp
  finally show ?thesis .
next
  case False
  then have "a div b < 2 ^ Suc k" using log2_int_bounds [of "a div b"] assms(3) by simp
  then have "a div b + 1 \<le> 2 ^ Suc k" by simp
  then have "b * (a div b + 1) \<le> b * 2 ^ Suc k" using assms(2) by (intro mult_left_mono) simp_all
  moreover have "a < b * (a div b + 1)"
    using mult_div_mod_eq [of b a] pos_mod_bound [OF assms(2), of a] unfolding distrib_left mult_1_right by linarith
  ultimately show ?thesis by simp
qed

lemma float_cents_bounds:
  assumes "0 \<le> a" and "a \<le> 2 ^ 31" and "0 < b"
  shows "0 \<le> float_cents a b" "float_cents a b < 10 ^ 12"
proof -
  define k where "k = log2_int (a div b)"
  define m where "m = (if k \<le> 23 then round_even (a * 2 ^ (23 - k)) b else round_even a (b * 2 ^ (k - 23)))"
  have a: "a < b * 2 ^ Suc k" using assms(1,3) k_def by (rule float_mantissa)
  have k: "(2::int) ^ k \<le> 2 ^ 31"
  proof (cases "a div b < 1")
    case False
    then have "2 ^ k \<le> a div b" using log2_int_bounds [of "a div b"] k_def by simp
    also have "\<dots> \<le> a" using zdiv_mono2 [of a 1 b] assms by simp
    finally show ?thesis using assms(2) by simp
  qed (simp add: k_def log2_int.simps)
  have "0 \<le> m \<and> m \<le> 2 ^ 24"
  proof (cases "k \<le> 23")
    case True
    have "a * 2 ^ (23 - k) < b * 2 ^ Suc k * 2 ^ (23 - k)" using a by simp
    also have "\<dots> = 2 ^ 24 * b" using True by (simp add: power_add [symmetric] mult.assoc)
    finally have "a * 2 ^ (23 - k) div b < 2 ^ 24" using assms(3) by (rule div_lessI)
    then show ?thesis using True round_even_bounds [of b "a * 2 ^ (23 - k)"] assms by (simp add: m_def)
  next
    case False
    then have "(2::int) ^ Suc k = 2 ^ 24 * 2 ^ (k - 23)" by (simp only: power_add [symmetric]) simp
    then have "a < 2 ^ 24 * (b * 2 ^ (k - 23))" using a by (simp only: mult.left_commute)
    then have "a div (b * 2 ^ (k - 23)) < 2 ^ 24" using assms(3) by (intro div_lessI) simp_all
    then show ?thesis using False round_even_bounds [of "b * 2 ^ (k - 23)" a] assms by (simp add: m_def)
  qed
  then have p: "0 \<le> 100 * m * 2 ^ k" "100 * m * 2 ^ k \<le> 100 * 2 ^ 24 * 2 ^ 31"
    using mult_mono [of "100 * m" "100 * 2 ^ 24" "2 ^ k" "2 ^ 31"] k by simp_all
  have c: "float_cents a b = round_even (100 * m * 2 ^ k) (2 ^ 23)" by (simp add: float_cents_def k_def m_def Let_def)
  show "0 \<le> float_cents a b" "float_cents a b < 10 ^ 12"
    using round_even_bounds [of "2 ^ 23" "100 * m * 2 ^ k"] p zdiv_mono1 [OF p(2), of "2 ^ 23"] by (simp_all add: c)
qed


lemma int_of_u64_bounds: "\<bar>int_of_u64 x\<bar> \<le> 2 ^ 31"
  using sint_lt [of "ucast x :: u32"] sint_ge [of "ucast x :: u32"] by (simp add: int_of_u64_def abs_le_iff)

lemma length_fmt_float2: "\<bar>a\<bar> \<le> 2 ^ 31 \<Longrightarrow> 0 < b \<Longrightarrow> length (fmt_float2 a b) \<le> 20"
proof -
  assume a: "\<bar>a\<bar> \<le> 2 ^ 31" "0 < b"
  have "\<bar>float_cents \<bar>a\<bar> b div 100\<bar> < 10 ^ 12"
    using float_cents_bounds [of "\<bar>a\<bar>" b] a by simp
  then have "length (dec_int (float_cents \<bar>a\<bar> b div 100)) \<le> 13" using length_dec_int [of _ 12] by simp
  then show ?thesis by (cases "a < 0") (simp_all add: fmt_float2_def Let_def)
qed

lemma length_delta_text: "length (delta_text (int_of_u64 x)) \<le> 26"
proof -
  have "length (fmt_float2 (int_of_u64 x) b) \<le> 20" if "0 < b" for b
    using that by (intro length_fmt_float2 int_of_u64_bounds)
  from this [of 1] this [of TIME_US] this [of TIME_MS] show ?thesis
    by (simp add: delta_text_def TIME_US_def TIME_MS_def)
qed

lemma two_bits: "0 \<le> x AND (3::int)" "x AND (3::int) < 10 ^ 1"
  using AND_upper2 [of 3 x] by (simp_all add: le_less_trans)

lemma length_line_state_name: "length (line_state_name p) \<le> 30" "length (g1_line_state_name p) \<le> 30"
proof -
  have "length (dec_int (x AND 3)) \<le> 2" for x using length_dec_int [of "x AND 3" 1] two_bits [of x] by simp
  from this [of "capture_saved_ls p"] this [of "drop_bit 2 (capture_saved_ls p)"]
  show "length (line_state_name p) \<le> 30" "length (g1_line_state_name p) \<le> 30"
    by (auto simp: line_state_name_def g1_line_state_name_def Let_def)
qed

lemma length_line_state_text: "length (line_state_text p) \<le> 511" "length (g1_line_state_text p) \<le> 511"
  using length_line_state_name [of p] length_delta_text [of "capture_ts p - capture_saved_ts p"]
  by (simp_all add: line_state_text_def g1_line_state_text_def)


section \<open>Agreement without folding\<close>

text \<open>
  The setting: nothing folded, and a speed selection for which \<open>effective_speed\<close> is the detected
  speed (automatic or low speed).
\<close>

definition unfolding_session :: "packet \<Rightarrow> bool" where
  "unfolding_session p \<longleftrightarrow> \<not> fold_empty (p_opts p) \<and> capture_fold_count p = 0 \<and> capture_fold_buf_ptr p = 0
     \<and> capture_speed (p_opts p) \<in> {CaptureSpeed_LS, CaptureSpeed_Reset}"

lemma unfolding_cong:
  "unfolding_session p \<Longrightarrow> fold_empty (p_opts q) = fold_empty (p_opts p) \<Longrightarrow> capture_fold_count q = capture_fold_count p \<Longrightarrow>
     capture_fold_buf_ptr q = capture_fold_buf_ptr p \<Longrightarrow> capture_speed (p_opts q) = capture_speed (p_opts p) \<Longrightarrow>
     unfolding_session q"
  by (simp add: unfolding_session_def)

lemma unfolding_info [simp]:
  "unfolding_session (capture_info p ts s) = unfolding_session p" "unfolding_session (line_state_event p) = unfolding_session p"
  "unfolding_session (write_packet p ts d n) = unfolding_session p"
  by (simp_all add: unfolding_session_def)

lemma effective_speed_auto: "unfolding_session p \<Longrightarrow> effective_speed p = capture_speed_in p"
  by (auto simp: unfolding_session_def effective_speed_def)

lemma g1_stop_folding_idle: "unfolding_session p \<Longrightarrow> g1_stop_folding p = p"
  by (simp add: unfolding_session_def g1_stop_folding.simps Let_def)

lemma g1_write_agree [simp]: "g1_write_packet = write_packet" "length s \<le> 511 \<Longrightarrow> g1_write_str p ts s = (put_call p (WriteInfo ts (take 511 s)))\<lparr>capture_last_ts := ts\<rparr>"
  by (intro ext, simp add: g1_write_packet_def write_packet_def) (simp add: g1_write_str_def)

lemma g1_text_agree: "unfolding_session p \<Longrightarrow> g1_line_state_text p = line_state_text p"
  by (simp add: g1_line_state_text_def line_state_text_def g1_line_state_name_def line_state_name_def effective_speed_auto)

lemma g1_line_state_agree:
  assumes "unfolding_session p"
  shows "g1_line_state_event p = line_state_event p"
proof (cases "LS_INVALID = capture_saved_ls p \<or> exclude_line_state (p_opts p)")
  case True
  then show ?thesis by (auto simp: g1_line_state_event.simps [of p] line_state_event.simps [of p] Let_def)
next
  case False
  let ?q = "p\<lparr>capture_saved_ls := LS_INVALID\<rparr>"
  have "unfolding_session ?q" using assms by (rule unfolding_cong) simp_all
  then have "g1_capture_info ?q ts (line_state_text p) = capture_info ?q ts (line_state_text p)" for ts
    using length_line_state_text [of p]
    by (simp add: g1_capture_info.simps capture_info.simps g1_line_state_event.simps [of ?q] line_state_event.simps [of ?q]
      g1_stop_folding_idle Let_def)
  with False assms show ?thesis
    by (simp add: g1_line_state_event.simps [of p] line_state_event.simps [of p] Let_def g1_text_agree)
qed

lemma g1_info_agree:
  "unfolding_session p \<Longrightarrow> length s \<le> 511 \<Longrightarrow> g1_capture_info p ts s = capture_info p ts s"
  by (simp add: g1_capture_info.simps capture_info.simps g1_line_state_agree g1_stop_folding_idle Let_def)

lemma unfolding_upd [simp]:
  "unfolding_session (p\<lparr>capture_enabled := b\<rparr>) = unfolding_session p"
  "unfolding_session (p\<lparr>capture_trigger_input := i\<rparr>) = unfolding_session p"
  "unfolding_session (p\<lparr>capture_vbus := i\<rparr>) = unfolding_session p"
  "unfolding_session (p\<lparr>capture_speed_in := i\<rparr>) = unfolding_session p"
  "unfolding_session (p\<lparr>capture_ls := i\<rparr>) = unfolding_session p"
  "unfolding_session (p\<lparr>capture_saved_ls := i\<rparr>) = unfolding_session p"
  "unfolding_session (p\<lparr>p_opts := (p_opts p)\<lparr>capture_limit := i\<rparr>\<rparr>) = unfolding_session p"
  "unfolding_session (p\<lparr>capture_ts_int := t\<rparr>) = unfolding_session p"
  "unfolding_session (p\<lparr>capture_ts := t, capture_toggle := i\<rparr>) = unfolding_session p"
  "unfolding_session (p\<lparr>capture_header := b\<rparr>) = unfolding_session p"
  "unfolding_session (p\<lparr>capture_data_ptr := n\<rparr>) = unfolding_session p"
  "unfolding_session (store_byte p byte) = unfolding_session p"
  by (simp_all add: unfolding_session_def)


lemma flag_text: "length (dec_int (flag b m)) = 1"
  by (simp add: flag_def dec_int_def dec_digits.simps)

lemma length_speed_name: "length (speed_name s) \<le> 10"
  by (simp add: speed_name_def)

lemma g1_limit_agree: "unfolding_session p \<Longrightarrow> g1_check_capture_limit p = check_capture_limit p"
  by (simp add: g1_check_capture_limit_def check_capture_limit_def Let_def g1_info_agree)

lemma g1_trigger_agree: "unfolding_session p \<Longrightarrow> g1_trigger_change p (flag b m) = trigger_change p (flag b m)"
proof -
  assume p: "unfolding_session p"
  have l: "length (''Trigger input = '' @ dec_int (flag b m)) \<le> 511" by (simp add: flag_text)
  show ?thesis using p
    by (simp add: g1_trigger_change_def trigger_change_def Let_def g1_info_agree [OF _ l, simplified] g1_info_agree
      split del: if_split cong: if_cong)
qed

lemma g1_vbus_agree: "unfolding_session p \<Longrightarrow> g1_vbus_change p v = vbus_change p v"
  by (simp add: g1_vbus_change_def vbus_change_def Let_def g1_info_agree)

lemma g1_speed_agree: "unfolding_session p \<Longrightarrow> g1_speed_change p v = speed_change p v"
  using length_speed_name [of v] by (simp add: g1_speed_change_def speed_change_def Let_def g1_info_agree)

lemma g1_keepalive_agree: "unfolding_session p \<Longrightarrow> g1_keepalive_event p ts delta = keepalive_event p ts delta"
  by (simp add: g1_keepalive_event_def keepalive_event_def g1_write_keepalive_def write_keepalive_def g1_info_agree
      g1_limit_agree) (simp add: unfolding_session_def)

lemma int_of_u64_small: "uint x < 2 ^ 31 \<Longrightarrow> int_of_u64 x = uint x"
  using signed_take_bit_int_eq_self [of 31 "uint x"] order_trans [OF _ uint_ge_0, of "- (2 ^ 31)" x]
  by (simp add: int_of_u64_def sint_uint unsigned_ucast_eq take_bit_int_eq_self)

lemma g1_ls_agree:
  assumes "unfolding_session p" and "capture_saved_ls p = LS_SE0 \<longrightarrow> uint (capture_ts p - capture_saved_ts p) < 2 ^ 31"
  shows "g1_ls_change p ls = ls_change p ls"
proof (cases "capture_saved_ls p = LS_SE0")
  case True
  then show ?thesis using assms
    by (simp add: g1_ls_change_def ls_change_def Let_def g1_keepalive_agree g1_line_state_agree effective_speed_auto int_of_u64_small)
next
  case False
  then show ?thesis using assms(1) by (simp add: g1_ls_change_def ls_change_def Let_def g1_line_state_agree)
qed

lemma unfolding_events [simp]:
  "unfolding_session (trigger_change p i) = unfolding_session p" "unfolding_session (vbus_change p i) = unfolding_session p"
  "unfolding_session (speed_change p i) = unfolding_session p"
  by (simp_all add: unfolding_session_def)

lemma events_saved:
  "capture_saved_ls (trigger_change p i) \<in> {capture_saved_ls p, LS_INVALID}"
  "capture_saved_ls (vbus_change p i) \<in> {capture_saved_ls p, LS_INVALID}"
  "capture_saved_ls (speed_change p i) \<in> {capture_saved_ls p, LS_INVALID}"
  "capture_saved_ls (timeout_event p) \<in> {capture_saved_ls p, LS_INVALID}"
  by (simp_all add: trigger_change_def vbus_change_def speed_change_def timeout_event_def Let_def capture_info_closed)

lemma g1_status_agree:
  assumes "unfolding_session p" and "capture_saved_ls p = LS_SE0 \<longrightarrow> uint (capture_ts p - capture_saved_ts p) < 2 ^ 31"
  shows "g1_status_event p ls v (flag b m) sp = status_event p ls v (flag b m) sp"
proof -
  let ?q = "speed_change (vbus_change (trigger_change p (flag b m)) v) sp"
  have "capture_saved_ls ?q \<in> {capture_saved_ls p, LS_INVALID}"
    using events_saved(1) [of p "flag b m"] events_saved(2) [of "trigger_change p (flag b m)" v]
      events_saved(3) [of "vbus_change (trigger_change p (flag b m)) v" sp] by auto
  then have "capture_saved_ls ?q = LS_SE0 \<longrightarrow> uint (capture_ts ?q - capture_saved_ts ?q) < 2 ^ 31"
    using assms(2) by (auto simp: LS_INVALID_def LS_SE0_def)
  with assms(1) show ?thesis
    by (simp add: g1_status_event_def status_event_def g1_trigger_agree g1_vbus_agree g1_speed_agree g1_ls_agree)
qed

lemma g1_data_agree:
  assumes "unfolding_session p"
  shows "g1_data_event p = data_event p"
proof -
  have idle: "stop_folding q = q" if "unfolding_session q" for q
    using that by (simp add: unfolding_session_def stop_folding_idle)
  have r: "g1_data_reports p = data_reports p" and u: "unfolding_session (data_reports p)"
    using assms
    by (simp_all add: g1_data_reports_def data_reports_def Let_def g1_line_state_agree g1_stop_folding_idle idle g1_info_agree)
  have "g1_data_store q = data_store q \<and> unfolding_session (data_store q)" if "unfolding_session q" for q
    using that by (simp add: g1_data_store_def data_store_def Let_def) (simp add: unfolding_session_def)
  with r u show ?thesis by (simp add: g1_data_event_def data_event_def g1_limit_agree)
qed


text \<open>
  The inputs on which the two parsers agree, decided byte by byte: when a header is complete its
  toggle, zero bit and size are right, its time is less than \<open>2 ^ 63\<close> ns after the last record, and
  less than \<open>2 ^ 31\<close> ns after a pending SE0 (\<open>packet.c\<close> casts that difference to \<open>int\<close>).
\<close>

definition header_compatible :: "packet \<Rightarrow> bool" where
  "header_compatible p \<longleftrightarrow>
     (let d = capture_data p; n = header_size d
      in flag (d 0) 0x40 = capture_toggle p \<and> flag (d 0) 0x20 = 0
         \<and> (capture_status p \<or> (DATA_HEADER_SIZE \<le> n \<and> n \<le> MAX_DATA_SIZE))
         \<and> uint (header_time p - capture_last_ts p) < 2 ^ 63
         \<and> (capture_saved_ls p = LS_SE0 \<longrightarrow> uint (header_time p - capture_saved_ts p) < 2 ^ 31))"

definition byte_compatible :: "packet \<Rightarrow> u8 \<Rightarrow> bool" where
  "byte_compatible p b \<longleftrightarrow>
     (let q = store_byte p b in capture_data_ptr q < capture_size q \<or> \<not> capture_header q \<or> header_compatible q)"

fun compatible :: "packet \<Rightarrow> bytes \<Rightarrow> bool" where
  "compatible p [] \<longleftrightarrow> True"
| "compatible p (b # bs) \<longleftrightarrow> p_done p \<or> (byte_compatible p b \<and> compatible (capture_sm p b) bs)"

lemma sint_small_u64: "uint (x::u64) < 2 ^ 63 \<Longrightarrow> sint x = uint x"
  using signed_take_bit_int_eq_self [of 63 "uint x"] order_trans [OF _ uint_ge_0, of "- (2 ^ 63)" x]
  by (simp add: sint_uint)

lemma header_common_agree:
  assumes "unfolding_session p" and "header_compatible p" and "\<not> p_done p"
  shows "g1_header_common p = header_common p \<and> unfolding_session (header_common p)"
proof -
  let ?d = "capture_data p"
  let ?q = "if ?d 0 AND 0x10 \<noteq> 0 then p\<lparr>capture_ts_int := capture_ts_int p + 0x100000\<rparr> else p"
  let ?r = "?q\<lparr>capture_ts := ((capture_ts_int ?q OR header_ts ?d) * 100) div 6, capture_toggle := 1 - flag (?d 0) 0x40\<rparr>"
  have t: "capture_ts ?r = header_time p" by (simp add: header_time_def)
  have u: "unfolding_session ?r" using assms(1) by simp
  have l: "capture_last_ts ?r = capture_last_ts p" by simp
  have s: "sint (capture_ts ?r - capture_last_ts ?r) = uint (capture_ts ?r - capture_last_ts ?r)"
    unfolding t l using assms(2) by (intro sint_small_u64) (simp add: header_compatible_def Let_def)
  have te: "g1_timeout_event ?r = timeout_event ?r"
    using u by (simp add: g1_timeout_event_def timeout_event_def g1_info_agree)
  have ok: "flag (?d 0) 0x40 = capture_toggle p" "flag (?d 0) 0x20 = 0" using assms(2) by (simp_all add: header_compatible_def Let_def)
  have a: "g1_header_common p = (if uint (capture_ts ?r - capture_last_ts ?r) > UPDATE_INTERVAL then g1_timeout_event ?r else ?r)"
    using ok assms(3) by (simp add: g1_header_common_def g1_check_header_def Let_def)
  have b: "header_common p = (if sint (capture_ts ?r - capture_last_ts ?r) > UPDATE_INTERVAL then timeout_event ?r else ?r)"
    using ok by (simp add: header_common_def check_header_def Let_def)
  have "unfolding_session (timeout_event ?r)" using u by (simp add: timeout_event_def)
  with u have "unfolding_session (if c then timeout_event ?r else ?r)" for c by (cases c) (simp_all only: if_True if_False)
  then show ?thesis unfolding a b s te by blast
qed


lemma header_common_saved:
  assumes "header_compatible p"
  shows "capture_saved_ls (header_common p) \<in> {capture_saved_ls p, LS_INVALID}"
proof -
  have ok: "flag (capture_data p 0) 0x40 = capture_toggle p" "flag (capture_data p 0) 0x20 = 0"
    using assms by (simp_all add: header_compatible_def Let_def)
  then show ?thesis by (simp add: header_common_def check_header_def timeout_event_def Let_def capture_info_closed)
qed

lemma header_common_status: "header_compatible p \<Longrightarrow> capture_status (header_common p) = capture_status p"
  by (simp add: header_common_def check_header_def timeout_event_def Let_def header_compatible_def)

lemma header_done_agree:
  assumes "unfolding_session p" and "header_compatible p" and "\<not> p_done p"
  shows "g1_header_done p = header_done p"
proof -
  let ?q = "header_common p"
  have c: "g1_header_common p = ?q" "unfolding_session ?q" using header_common_agree [OF assms] by simp_all
  have se0: "capture_saved_ls ?q = LS_SE0 \<longrightarrow> uint (capture_ts ?q - capture_saved_ts ?q) < 2 ^ 31"
    using header_common_saved [OF assms(2)] assms(2)
    by (auto simp: capture_ts_header_common header_compatible_def Let_def LS_INVALID_def LS_SE0_def)
  have size: "\<not> capture_status ?q \<Longrightarrow> DATA_HEADER_SIZE \<le> header_size (capture_data ?q) \<and> header_size (capture_data ?q) \<le> MAX_DATA_SIZE"
    using assms(2) by (simp add: header_common_status header_compatible_def Let_def)
  show ?thesis using c assms(3) size g1_status_agree [OF c(2) se0]
    by (auto simp: g1_header_done_def header_done_def Let_def g1_check_data_size_def)
qed

lemma capture_sm_agree:
  assumes "unfolding_session p" and "byte_compatible p b" and "\<not> p_done p"
  shows "g1_capture_sm p b = capture_sm p b"
  using assms header_done_agree [of "store_byte p b"] g1_data_agree [of "(store_byte p b)\<lparr>capture_header := True\<rparr>"]
  by (auto simp: g1_capture_sm_def capture_sm_def byte_compatible_def Let_def)


lemma unfolding_limit [simp]: "unfolding_session (check_capture_limit p) = unfolding_session p"
  by (simp add: check_capture_limit_def Let_def) (simp add: unfolding_session_def)

lemma unfolding_keepalive: "unfolding_session p \<Longrightarrow> unfolding_session (keepalive_event p ts delta)"
  by (simp add: keepalive_event_def write_keepalive_def) (simp add: unfolding_session_def)

lemma unfolding_data_event: "unfolding_session p \<Longrightarrow> unfolding_session (data_event p)"
proof -
  assume p: "unfolding_session p"
  have idle: "stop_folding q = q" if "unfolding_session q" for q
    using that by (simp add: unfolding_session_def stop_folding_idle)
  have "unfolding_session (data_reports p)" using p by (simp add: data_reports_def Let_def idle)
  then have "unfolding_session (data_store (data_reports p))"
    by (simp add: data_store_def Let_def) (simp add: unfolding_session_def)
  with p show ?thesis by (simp add: data_event_def)
qed

lemma unfolding_status_event: "unfolding_session p \<Longrightarrow> unfolding_session (status_event p ls v t sp)"
proof -
  assume p: "unfolding_session p"
  have "unfolding_session (ls_change q ls)" if "unfolding_session q" for q
    using that unfolding_keepalive [of "q\<lparr>capture_ls := ls, capture_saved_ls := LS_INVALID\<rparr>"]
    by (auto simp: ls_change_def Let_def unfolding_session_def)
  with p show ?thesis by (simp add: status_event_def)
qed

lemma unfolding_desync [simp]: "unfolding_session (desync_error p) = unfolding_session p"
  by (simp add: unfolding_session_def)

lemma unfolding_header_common: "unfolding_session p \<Longrightarrow> unfolding_session (header_common p)"
  by (simp add: unfolding_session_def)

lemma unfolding_capture_sm: "unfolding_session p \<Longrightarrow> unfolding_session (capture_sm p b)"
  using unfolding_header_common [of "store_byte p b"] unfolding_data_event [of "(store_byte p b)\<lparr>capture_header := True\<rparr>"]
  by (auto simp: capture_sm_def header_done_def Let_def check_data_size_def unfolding_status_event)
     (simp_all add: unfolding_session_def)

section \<open>Properties\<close>



end
