(* ===== verification/Gen1_Safety.thy ===== *)
theory Gen1_Safety
  imports Gen1_Agree
begin

text \<open>
  Safety of the first-generation parser on arbitrary input: fields the record-writing operations
  leave alone, the bounds invariant with the exact folding limits, and the behaviour at the two
  places where it ends the process, the capture limit and a damaged frame.
\<close>

section \<open>Fields the record-writing operations leave alone\<close>

definition g1_quiet :: "packet \<Rightarrow> packet" where
  "g1_quiet p = p\<lparr>p_out := [], capture_saved_ls := 0, capture_last_ts := 0, capture_fold_count := 0, capture_fold_buf_ptr := 0\<rparr>"

lemmas g1_induct = g1_capture_info_g1_line_state_event_g1_stop_folding_g1_unfold.induct

lemma g1_quiet_write [simp]: "g1_quiet (g1_write_str p ts s) = g1_quiet p" "g1_quiet (write_packet p ts d n) = g1_quiet p"
  by (simp_all add: g1_quiet_def g1_write_str_def write_packet_def put_call_def)

lemma g1_quiet_upd [simp]: "g1_quiet (p\<lparr>capture_saved_ls := i\<rparr>) = g1_quiet p"
  "g1_quiet (p\<lparr>capture_fold_count := n, capture_fold_buf_ptr := m\<rparr>) = g1_quiet p"
  by (simp_all add: g1_quiet_def)

lemma g1_quiet_info:
  "g1_quiet (g1_capture_info p ts s) = g1_quiet p" "g1_quiet (g1_line_state_event q) = g1_quiet q"
  "g1_quiet (g1_stop_folding r) = g1_quiet r" "g1_quiet (g1_unfold t fs) = g1_quiet t"
proof (induction p ts s and q and r and t fs rule: g1_induct)
  case (1 p ts str)
  then show ?case by (simp add: g1_capture_info.simps Let_def)
next
  case (2 p)
  then show ?case by (auto simp: g1_line_state_event.simps [of p] Let_def)
next
  case (3 p)
  then show ?case by (auto simp: g1_stop_folding.simps [of p] Let_def)
qed simp_all

text \<open>Folding is over after a record, and after \<open>stop_folding\<close>; a pending line state is reported.\<close>

abbreviation fold_idle :: "packet \<Rightarrow> bool" where
  "fold_idle p \<equiv> capture_fold_count p = 0 \<and> capture_fold_buf_ptr p = 0"

lemma fold_idle_write [simp]: "fold_idle (g1_write_str p ts s) = fold_idle p" "fold_idle (write_packet p ts d n) = fold_idle p"
  by (simp_all add: g1_write_str_def put_call_def)

lemma g1_idle_info:
  "fold_idle (g1_capture_info p ts s)" "fold_idle q \<Longrightarrow> fold_idle (g1_line_state_event q)"
  "fold_idle (g1_stop_folding r)" "fold_idle t \<Longrightarrow> fold_idle (g1_unfold t fs)"
proof (induction p ts s and q and r and t fs rule: g1_induct)
  case (1 p ts str)
  then show ?case by (simp add: g1_capture_info.simps Let_def)
next
  case (2 p)
  then show ?case by (auto simp: g1_line_state_event.simps [of p] Let_def)
next
  case (3 p)
  then show ?case by (auto simp: g1_stop_folding.simps [of p] Let_def)
qed simp_all

lemma g1_idle_simps [simp]:
  "capture_fold_count (g1_capture_info p ts s) = 0" "capture_fold_buf_ptr (g1_capture_info p ts s) = 0"
  "capture_fold_count (g1_stop_folding p) = 0" "capture_fold_buf_ptr (g1_stop_folding p) = 0"
  using g1_idle_info(1,3) by blast+

lemma g1_quietD:
  assumes "g1_quiet q = g1_quiet p"
  shows "p_opts q = p_opts p" "p_done q = p_done p" "capture_data q = capture_data p"
    "capture_data_ptr q = capture_data_ptr p" "capture_size q = capture_size p"
    "capture_header q = capture_header p" "capture_status q = capture_status p"
    "capture_toggle q = capture_toggle p" "capture_ls q = capture_ls p"
    "capture_vbus q = capture_vbus p" "capture_trigger_input q = capture_trigger_input p"
    "capture_speed_in q = capture_speed_in p" "capture_enabled q = capture_enabled p"
    "capture_ts_int q = capture_ts_int p" "capture_ts q = capture_ts p"
    "capture_overflow q = capture_overflow p" "capture_crc_error q = capture_crc_error p"
    "capture_data_error q = capture_data_error p" "capture_duration q = capture_duration p"
    "capture_fold_buf q = capture_fold_buf p" "capture_saved_ts q = capture_saved_ts p"
  using arg_cong [OF assms, of p_opts]
    arg_cong [OF assms, of p_done]
    arg_cong [OF assms, of capture_data]
    arg_cong [OF assms, of capture_data_ptr]
    arg_cong [OF assms, of capture_size]
    arg_cong [OF assms, of capture_header]
    arg_cong [OF assms, of capture_status]
    arg_cong [OF assms, of capture_toggle]
    arg_cong [OF assms, of capture_ls]
    arg_cong [OF assms, of capture_vbus]
    arg_cong [OF assms, of capture_trigger_input]
    arg_cong [OF assms, of capture_speed_in]
    arg_cong [OF assms, of capture_enabled]
    arg_cong [OF assms, of capture_ts_int]
    arg_cong [OF assms, of capture_ts]
    arg_cong [OF assms, of capture_overflow]
    arg_cong [OF assms, of capture_crc_error]
    arg_cong [OF assms, of capture_data_error]
    arg_cong [OF assms, of capture_duration]
    arg_cong [OF assms, of capture_fold_buf]
    arg_cong [OF assms, of capture_saved_ts]
  by (simp_all add: g1_quiet_def)

lemmas g1_info_fields [simp] = g1_quietD [OF g1_quiet_info(1)] g1_quietD [OF g1_quiet_info(2)] g1_quietD [OF g1_quiet_info(3)]


section \<open>Bounds\<close>

text \<open>
  The weak part holds at every call: the fold buffer is within bounds and every record fits. The
  strong part holds between events: the batch is below its limit, batches above the low- and
  full-speed limit only exist at high speed, and nothing is folded while the capture is off.
\<close>

definition g1_weak :: "packet \<Rightarrow> bool" where
  "g1_weak p \<longleftrightarrow> fold_inv p \<and> capture_fold_count p \<le> FOLD_LIMIT_HS"

definition g1_strong :: "packet \<Rightarrow> bool" where
  "g1_strong p \<longleftrightarrow> g1_weak p \<and> capture_fold_count p < FOLD_LIMIT_HS
     \<and> (FOLD_LIMIT_LS_FS \<le> capture_fold_count p \<longrightarrow> capture_speed_in p = CaptureSpeed_HS)
     \<and> (\<not> capture_enabled p \<longrightarrow> fold_idle p)"

lemma g1_weak_write: "g1_weak p \<Longrightarrow> length s \<le> 511 \<Longrightarrow> g1_weak (g1_write_str p ts s)" "g1_weak p \<Longrightarrow> n \<le> 1280 \<Longrightarrow> g1_weak (write_packet p ts d n)"
  by (auto simp: g1_weak_def fold_inv_def g1_write_str_def write_packet_def put_call_def)

lemma g1_weak_cong:
  "g1_weak p \<Longrightarrow> capture_fold_buf_ptr q \<le> capture_fold_buf_ptr p \<Longrightarrow> capture_fold_count q \<le> capture_fold_count p \<Longrightarrow>
     capture_fold_buf q = capture_fold_buf p \<Longrightarrow> p_out q = p_out p \<Longrightarrow> g1_weak q"
  by (auto simp: g1_weak_def intro: fold_inv_cong)

lemma length_fold_text: "count \<le> FOLD_LIMIT_HS \<Longrightarrow> length (fold_text count) \<le> 511"
  using length_dec_nat [of count 4] by (simp add: fold_text_def FOLD_LIMIT_HS_def)

lemma g1_weak_info:
  "g1_weak p \<Longrightarrow> length s \<le> 511 \<Longrightarrow> g1_weak (g1_capture_info p ts s)"
  "g1_weak q \<Longrightarrow> g1_weak (g1_line_state_event q)"
  "g1_weak r \<Longrightarrow> g1_weak (g1_stop_folding r)"
  "g1_weak t \<Longrightarrow> \<forall>f \<in> set fs. fr_size f \<le> 1273 \<Longrightarrow> g1_weak (g1_unfold t fs)"
proof (induction p ts s and q and r and t fs rule: g1_induct)
  case (1 p ts str)
  then show ?case by (simp add: g1_capture_info.simps Let_def g1_weak_write del: g1_write_agree(2))
next
  case (2 p)
  have "g1_weak (p\<lparr>capture_saved_ls := LS_INVALID\<rparr>)" using 2(2) by (rule g1_weak_cong) simp_all
  with 2 length_line_state_text [of p] show ?case by (auto simp: g1_line_state_event.simps [of p] Let_def)
next
  case (3 p)
  let ?q = "p\<lparr>capture_fold_count := 0, capture_fold_buf_ptr := 0\<rparr>"
  have q: "g1_weak ?q" using 3(3) by (rule g1_weak_cong) simp_all
  have c: "capture_fold_count p \<le> FOLD_LIMIT_HS" using 3(3) by (simp add: g1_weak_def)
  have sz: "\<forall>i < capture_fold_buf_ptr p. fr_size (capture_fold_buf p i) \<le> 1273"
    using 3(3) by (simp add: g1_weak_def fold_inv_def)
  show ?case using 3 q length_fold_text [OF c] sz
    by (auto simp: g1_stop_folding.simps [of p] Let_def)
next
  case (5 p f fs)
  then show ?case by (auto simp: g1_weak_write)
qed simp_all

lemma g1_strong_info: "g1_weak p \<Longrightarrow> length s \<le> 511 \<Longrightarrow> g1_strong (g1_capture_info p ts s)"
  by (simp add: g1_strong_def g1_weak_info FOLD_LIMIT_HS_def FOLD_LIMIT_LS_FS_def)

lemma g1_strong_stop: "g1_weak p \<Longrightarrow> g1_strong (g1_stop_folding p)"
  by (simp add: g1_strong_def g1_weak_info FOLD_LIMIT_HS_def FOLD_LIMIT_LS_FS_def)

lemma g1_strong_weak: "g1_strong p \<Longrightarrow> g1_weak p"
  by (simp add: g1_strong_def)

lemma g1_strong_cong:
  "g1_strong p \<Longrightarrow> capture_fold_buf_ptr q = capture_fold_buf_ptr p \<Longrightarrow> capture_fold_count q = capture_fold_count p \<Longrightarrow>
     capture_fold_buf q = capture_fold_buf p \<Longrightarrow> p_out q = p_out p \<Longrightarrow> capture_enabled q = capture_enabled p \<Longrightarrow>
     capture_speed_in q = capture_speed_in p \<Longrightarrow> g1_strong q"
  using g1_weak_cong [of p q] by (auto simp: g1_strong_def)

lemma g1_strong_line_state: "g1_strong p \<Longrightarrow> g1_strong (g1_line_state_event p)"
  using g1_strong_cong [of p "p\<lparr>capture_saved_ls := LS_INVALID\<rparr>"] length_line_state_text [of p]
  by (auto simp: g1_line_state_event.simps [of p] Let_def g1_strong_info g1_strong_weak)


text \<open>The events.\<close>

lemma g1_strong_limit: "g1_strong p \<Longrightarrow> g1_strong (g1_check_capture_limit p)"
proof -
  assume "g1_strong p"
  then have "g1_strong (p\<lparr>p_opts := (p_opts p)\<lparr>capture_limit := l\<rparr>\<rparr>)" for l by (rule g1_strong_cong) simp_all
  moreover have "g1_strong q \<Longrightarrow> g1_strong (q\<lparr>p_done := True\<rparr>)" for q by (erule g1_strong_cong) simp_all
  ultimately show ?thesis by (simp add: g1_check_capture_limit_def Let_def g1_strong_info g1_strong_weak)
qed

text \<open>A new empty frame: the batch is flushed when it reaches the limit of the current speed.\<close>

lemma g1_strong_next:
  assumes "g1_strong p" and "capture_enabled p" and "capture_fold_count p < limit" and "limit \<le> FOLD_LIMIT_HS"
    and "limit \<noteq> FOLD_LIMIT_LS_FS \<longrightarrow> capture_speed_in p = CaptureSpeed_HS"
  shows "g1_strong (g1_next_empty_frame p limit) \<and> capture_fold_buf_ptr (g1_next_empty_frame p limit) = 0"
proof -
  let ?q = "p\<lparr>capture_fold_count := Suc (capture_fold_count p), capture_fold_buf_ptr := 0\<rparr>"
  have f: "fold_inv ?q" using assms(1) by (auto simp: g1_strong_def g1_weak_def intro: fold_inv_cong)
  then have w: "g1_weak ?q" using assms(3,4) by (simp add: g1_weak_def)
  have "Suc (capture_fold_count p) \<noteq> limit \<Longrightarrow> g1_strong ?q"
    using assms w by (auto simp: g1_strong_def FOLD_LIMIT_HS_def FOLD_LIMIT_LS_FS_def)
  with w show ?thesis by (auto simp: g1_next_empty_frame_def Let_def g1_strong_stop)
qed

lemma g1_strong_fold:
  "g1_strong p \<Longrightarrow> capture_enabled p \<Longrightarrow> capture_fold_buf_ptr p < FOLD_BUF_SIZE \<Longrightarrow> n \<le> 1273 \<Longrightarrow> g1_strong (fold_packet p ts d n)"
  "g1_strong p \<Longrightarrow> capture_enabled p \<Longrightarrow> capture_fold_buf_ptr p < FOLD_BUF_SIZE \<Longrightarrow> 0 \<le> delta \<Longrightarrow> g1_strong (fold_keepalive p ts delta)"
  by (simp_all add: g1_strong_def g1_weak_def fold_inv_fold_packet fold_inv_fold_keepalive)

lemma g1_next_fields [simp]:
  "capture_enabled (g1_next_empty_frame p l) = capture_enabled p" "capture_ts (g1_next_empty_frame p l) = capture_ts p"
  "capture_data (g1_next_empty_frame p l) = capture_data p" "capture_size (g1_next_empty_frame p l) = capture_size p"
  by (simp_all add: g1_next_empty_frame_def Let_def)

lemma g1_strong_keepalive:
  assumes "g1_strong p" and "capture_speed_in p = CaptureSpeed_LS" and "0 \<le> delta"
  shows "g1_strong (g1_keepalive_event p ts delta)"
proof -
  have c: "capture_fold_count p < FOLD_LIMIT_LS_FS"
    using assms(1,2) by (auto simp: g1_strong_def CaptureSpeed_LS_def CaptureSpeed_HS_def)
  have "g1_strong (g1_next_empty_frame p FOLD_LIMIT_LS_FS) \<and> capture_fold_buf_ptr (g1_next_empty_frame p FOLD_LIMIT_LS_FS) = 0"
    if "capture_enabled p" using assms(1) that c by (intro g1_strong_next) (simp_all add: FOLD_LIMIT_LS_FS_def FOLD_LIMIT_HS_def)
  then show ?thesis using assms
    by (auto simp: g1_keepalive_event_def g1_write_keepalive_def FOLD_BUF_SIZE_def g1_strong_info g1_strong_weak
      intro!: g1_strong_limit g1_strong_fold)
qed

lemma g1_strong_trigger: "g1_strong p \<Longrightarrow> g1_strong (g1_trigger_change p (flag b m))"
proof -
  assume p: "g1_strong p"
  have "g1_weak (p\<lparr>capture_enabled := e, capture_trigger_input := t\<rparr>)" for e t
    using g1_strong_weak [OF p] by (rule g1_weak_cong) simp_all
  then have "g1_strong (g1_capture_info (p\<lparr>capture_enabled := e, capture_trigger_input := t\<rparr>) ts
      (''Trigger input = '' @ dec_int (flag b m)))" for e t ts
    by (rule g1_strong_info) (simp add: flag_text)
  with p show ?thesis by (simp add: g1_trigger_change_def Let_def g1_strong_info g1_strong_weak)
qed

lemma g1_strong_vbus: "g1_strong p \<Longrightarrow> g1_strong (g1_vbus_change p v)"
  using g1_weak_cong [of p "p\<lparr>capture_vbus := v\<rparr>"]
  by (auto simp: g1_vbus_change_def Let_def g1_strong_weak intro!: g1_strong_info)

lemma g1_strong_speed: "g1_strong p \<Longrightarrow> g1_strong (g1_speed_change p sp)"
proof -
  assume p: "g1_strong p"
  let ?q = "p\<lparr>capture_speed_in := sp\<rparr>"
  have w: "g1_weak ?q" using g1_strong_weak [OF p] by (rule g1_weak_cong) simp_all
  have "\<not> capture_enabled p \<Longrightarrow> g1_strong ?q"
    using p w by (simp add: g1_strong_def FOLD_LIMIT_LS_FS_def)
  with p w length_speed_name [of sp] show ?thesis by (auto simp: g1_speed_change_def Let_def g1_strong_info)
qed

lemma g1_strong_ls: "g1_strong p \<Longrightarrow> g1_strong (g1_ls_change p ls)"
proof -
  assume p: "g1_strong p"
  have a: "g1_strong (p\<lparr>capture_ls := ls, capture_saved_ls := LS_INVALID\<rparr>)" and "g1_strong (p\<lparr>capture_ls := ls\<rparr>)"
    using p by (auto elim!: g1_strong_cong)
  then have "g1_strong (g1_line_state_event (p\<lparr>capture_ls := ls\<rparr>))" by (intro g1_strong_line_state)
  then have "g1_strong ((g1_line_state_event (p\<lparr>capture_ls := ls\<rparr>))\<lparr>capture_saved_ls := ls, capture_saved_ts := t\<rparr>)" for t
    by (rule g1_strong_cong) simp_all
  with p a show ?thesis by (auto simp: g1_ls_change_def Let_def intro!: g1_strong_keepalive)
qed

lemma g1_strong_status: "g1_strong p \<Longrightarrow> g1_strong (g1_status_event p ls v (flag b m) sp)"
  by (simp add: g1_status_event_def g1_strong_ls g1_strong_speed g1_strong_vbus g1_strong_trigger)


lemma g1_data_reports_strong:
  assumes "g1_strong p" and "capture_enabled p"
  shows "g1_strong (g1_data_reports p)" and "capture_fold_buf_ptr (g1_data_reports p) < FOLD_BUF_SIZE"
    and "capture_enabled (g1_data_reports p)" and "capture_size (g1_data_reports p) = capture_size p"
proof -
  let ?q = "g1_line_state_event p"
  have q: "g1_strong ?q" using assms(1) by (rule g1_strong_line_state)
  then have "capture_fold_buf_ptr ?q \<le> FOLD_BUF_SIZE" by (simp add: g1_strong_def g1_weak_def fold_inv_def)
  then have "capture_fold_buf_ptr ?q \<noteq> FOLD_BUF_SIZE \<Longrightarrow> capture_fold_buf_ptr ?q < FOLD_BUF_SIZE" by simp
  then show "capture_fold_buf_ptr (g1_data_reports p) < FOLD_BUF_SIZE"
    by (simp add: g1_data_reports_def Let_def FOLD_BUF_SIZE_def)
  show "g1_strong (g1_data_reports p)"
    using q by (simp add: g1_data_reports_def Let_def g1_strong_info g1_strong_stop g1_strong_weak)
  show "capture_enabled (g1_data_reports p)" "capture_size (g1_data_reports p) = capture_size p"
    using assms(2) by (simp_all add: g1_data_reports_def Let_def)
qed

lemma g1_strong_write: "g1_strong p \<Longrightarrow> n \<le> 1280 \<Longrightarrow> g1_strong (write_packet p ts d n)"
  by (simp add: g1_strong_def g1_weak_write)

lemma g1_data_store_strong:
  assumes "g1_strong p" and "capture_enabled p" and "capture_fold_buf_ptr p < FOLD_BUF_SIZE" and "capture_size p \<le> 1273"
  shows "g1_strong (g1_data_store p)"
proof -
  let ?l = "if CaptureSpeed_HS = capture_speed_in p then FOLD_LIMIT_HS else FOLD_LIMIT_LS_FS"
  have "capture_fold_count p < ?l" using assms(1) by (auto simp: g1_strong_def)
  then have "g1_strong (g1_next_empty_frame p ?l) \<and> capture_fold_buf_ptr (g1_next_empty_frame p ?l) = 0"
    using assms(1,2) by (intro g1_strong_next) (auto simp: FOLD_LIMIT_LS_FS_def FOLD_LIMIT_HS_def split: if_splits)
  then show ?thesis using assms
    by (simp add: g1_data_store_def Let_def FOLD_BUF_SIZE_def g1_strong_fold g1_strong_write g1_strong_stop g1_strong_weak)
qed

lemma g1_strong_data_event: "g1_strong p \<Longrightarrow> capture_size p \<le> 1273 \<Longrightarrow> g1_strong (g1_data_event p)"
  using g1_data_reports_strong [of p] by (simp add: g1_data_event_def g1_strong_limit g1_data_store_strong)

lemma length_g1_header_dump: "length (g1_header_dump p) = 3 * capture_size p"
proof -
  have "length (concat (map (\<lambda>i. hex_byte (capture_data p i) @ '' '') xs)) = 3 * length xs" for xs
    by (induction xs) (simp_all add: hex_byte_def)
  then show ?thesis by (simp add: g1_header_dump_def)
qed

lemma g1_header_dump_cong: "capture_data q = capture_data p \<Longrightarrow> capture_size q = capture_size p \<Longrightarrow> g1_header_dump q = g1_header_dump p"
  by (simp add: g1_header_dump_def)

lemma g1_strong_desync: "g1_strong p \<Longrightarrow> capture_size p \<le> 7 \<Longrightarrow> g1_strong (g1_desync_error p) \<and> p_done (g1_desync_error p)"
proof -
  assume p: "g1_strong p" "capture_size p \<le> 7"
  let ?q = "g1_capture_info p (capture_ts p) ''Error: protocol desynchronization, stopping the capture''"
  have "g1_strong ?q" using p(1) by (simp add: g1_strong_info g1_strong_weak)
  then have "g1_strong (g1_capture_info ?q (capture_ts p) (''Packet header: '' @ g1_header_dump ?q))"
    by (rule g1_strong_info [OF g1_strong_weak]) (use p(2) in \<open>simp add: length_g1_header_dump\<close>)
  then have "g1_strong ((g1_capture_info ?q (capture_ts p) (''Packet header: '' @ g1_header_dump ?q))\<lparr>p_done := True\<rparr>)"
    by (rule g1_strong_cong) simp_all
  then show ?thesis by (simp add: g1_desync_error_def Let_def)
qed

definition toggle_ok :: "packet \<Rightarrow> bool" where
  "toggle_ok p \<longleftrightarrow> capture_toggle p \<in> {0, 1}"

lemma g1_strong_check_header:
  assumes "g1_strong p" and "capture_size p \<le> 7" and "toggle_ok p"
  shows "g1_strong (g1_check_header p (flag b m) z)"
    and "g1_check_header p (flag b m) z = p \<or> p_done (g1_check_header p (flag b m) z)"
proof -
  have t: "length (dec_int (capture_toggle p)) = 1"
    using assms(3) by (auto simp: toggle_ok_def dec_int_def dec_digits.simps)
  show "g1_strong (g1_check_header p (flag b m) z)"
    using assms t by (simp add: g1_check_header_def Let_def g1_strong_info g1_strong_weak g1_strong_desync flag_text)
  show "g1_check_header p (flag b m) z = p \<or> p_done (g1_check_header p (flag b m) z)"
    by (simp add: g1_check_header_def Let_def g1_desync_error_def)
qed

lemma g1_header_common_strong:
  assumes "g1_strong p" and "capture_size p \<le> 7" and "toggle_ok p" and "\<not> p_done p"
  shows "g1_strong (g1_header_common p) \<and> (p_done (g1_header_common p) \<or> (toggle_ok (g1_header_common p)
    \<and> capture_size (g1_header_common p) = capture_size p \<and> capture_header (g1_header_common p) = capture_header p))"
proof (cases "p_done (g1_check_header p (flag (capture_data p 0) 0x40) (flag (capture_data p 0) 0x20))")
  case True
  then show ?thesis using g1_strong_check_header(1) [OF assms(1-3)] by (simp add: g1_header_common_def Let_def)
next
  case False
  then have id: "g1_check_header p (flag (capture_data p 0) 0x40) (flag (capture_data p 0) 0x20) = p"
    using g1_strong_check_header(2) [OF assms(1-3)] by blast
  have "g1_strong (p\<lparr>capture_ts_int := i, capture_ts := t, capture_toggle := g\<rparr>)" "g1_strong (p\<lparr>capture_ts := t, capture_toggle := g\<rparr>)" for i t g
    using assms(1) by (auto elim!: g1_strong_cong)
  with assms id show ?thesis
    by (auto simp: g1_header_common_def Let_def g1_timeout_event_def g1_strong_info g1_strong_weak toggle_ok_def flag_def)
qed


text \<open>The invariant between two bytes; after an exit only the part about the output is left.\<close>

definition g1_inv :: "packet \<Rightarrow> bool" where
  "g1_inv p \<longleftrightarrow> g1_strong p \<and> (p_done p \<or> (asm_inv p \<and> toggle_ok p))"

lemma g1_event_fields [simp]:
  "capture_header (g1_trigger_change p t) = capture_header p" "capture_toggle (g1_trigger_change p t) = capture_toggle p"
  "capture_header (g1_vbus_change p v) = capture_header p" "capture_toggle (g1_vbus_change p v) = capture_toggle p"
  "capture_header (g1_speed_change p sp) = capture_header p" "capture_toggle (g1_speed_change p sp) = capture_toggle p"
  "capture_header (g1_check_capture_limit p) = capture_header p" "capture_toggle (g1_check_capture_limit p) = capture_toggle p"
  "capture_header (g1_next_empty_frame p l) = capture_header p" "capture_toggle (g1_next_empty_frame p l) = capture_toggle p"
  by (simp_all add: g1_trigger_change_def g1_vbus_change_def g1_speed_change_def g1_check_capture_limit_def
    g1_next_empty_frame_def Let_def)

lemma g1_status_fields [simp]:
  "capture_header (g1_keepalive_event p ts delta) = capture_header p" "capture_toggle (g1_keepalive_event p ts delta) = capture_toggle p"
  "capture_header (g1_status_event p ls v t sp) = capture_header p" "capture_toggle (g1_status_event p ls v t sp) = capture_toggle p"
proof -
  show k: "capture_header (g1_keepalive_event p ts delta) = capture_header p"
    "capture_toggle (g1_keepalive_event p ts delta) = capture_toggle p" for p ts delta
    by (simp_all add: g1_keepalive_event_def g1_write_keepalive_def)
  show "capture_header (g1_status_event p ls v t sp) = capture_header p" "capture_toggle (g1_status_event p ls v t sp) = capture_toggle p"
    by (simp_all add: g1_status_event_def g1_ls_change_def Let_def k)
qed

lemma g1_data_event_fields [simp]:
  "capture_header (g1_data_event p) = capture_header p" "capture_toggle (g1_data_event p) = capture_toggle p"
proof -
  have "capture_header (g1_data_store q) = capture_header q \<and> capture_toggle (g1_data_store q) = capture_toggle q" for q
    by (simp add: g1_data_store_def Let_def)
  moreover have "capture_header (g1_data_reports q) = capture_header q \<and> capture_toggle (g1_data_reports q) = capture_toggle q" for q
    by (simp add: g1_data_reports_def Let_def)
  ultimately show "capture_header (g1_data_event p) = capture_header p" "capture_toggle (g1_data_event p) = capture_toggle p"
    by (simp_all add: g1_data_event_def)
qed

lemma g1_check_size_strong:
  assumes "g1_strong p" and "capture_size p \<le> 7" and "\<not> p_done p"
  shows "g1_strong (g1_check_data_size p (header_size d))"
    and "p_done (g1_check_data_size p (header_size d)) \<or> (g1_check_data_size p (header_size d) = p
      \<and> DATA_HEADER_SIZE \<le> header_size d \<and> header_size d \<le> MAX_DATA_SIZE)"
proof -
  have "header_size d < 2 ^ 32" unfolding header_size_def by (rule order_less_le_trans [OF unsigned_less]) simp
  then have "length (dec_nat (header_size d)) \<le> 11" using length_dec_nat [of "header_size d" 10] by simp
  with assms show "g1_strong (g1_check_data_size p (header_size d))"
    by (simp add: g1_check_data_size_def g1_strong_desync g1_strong_info g1_strong_weak)
  show "p_done (g1_check_data_size p (header_size d)) \<or> (g1_check_data_size p (header_size d) = p
      \<and> DATA_HEADER_SIZE \<le> header_size d \<and> header_size d \<le> MAX_DATA_SIZE)"
    by (simp add: g1_check_data_size_def g1_desync_error_def Let_def)
qed

lemma g1_header_done_inv:
  assumes "g1_strong p" and "capture_size p \<le> 7" and "toggle_ok p" and "\<not> p_done p" and "capture_header p"
  shows "g1_inv (g1_header_done p)"
proof -
  let ?q = "g1_header_common p" and ?n = "header_size (capture_data (g1_header_common p))"
  note q = g1_header_common_strong [OF assms(1-4)]
  have cong: "g1_strong r \<Longrightarrow> g1_strong (r\<lparr>capture_data_ptr := 0\<rparr>)" for r by (erule g1_strong_cong) simp_all
  consider "p_done ?q" | "\<not> p_done ?q" "capture_status ?q" | "\<not> p_done ?q" "\<not> capture_status ?q" by blast
  then show ?thesis
  proof cases
    case 1
    with q show ?thesis by (simp add: g1_header_done_def Let_def g1_inv_def)
  next
    case 2
    with q assms(5) cong [OF g1_strong_status] show ?thesis
      by (simp add: g1_header_done_def Let_def g1_inv_def asm_inv_def toggle_ok_def)
  next
    case 3
    with q assms(2) have r: "g1_strong ?q" "capture_size ?q \<le> 7" "toggle_ok ?q" by simp_all
    show ?thesis
    proof (cases "p_done (g1_check_data_size ?q ?n)")
      case True
      with 3 g1_check_size_strong(1) [OF r(1,2) 3(1)] show ?thesis by (simp add: g1_header_done_def Let_def g1_inv_def)
    next
      case False
      then have id: "g1_check_data_size ?q ?n = ?q" "DATA_HEADER_SIZE \<le> ?n" "?n \<le> MAX_DATA_SIZE"
        using g1_check_size_strong(2) [OF r(1,2) 3(1)] by blast+
      have "g1_strong (g1_header_done p)" using r(1) by (rule g1_strong_cong) (use 3 id in \<open>simp_all add: g1_header_done_def Let_def\<close>)
      with 3 id r(3) show ?thesis
        by (auto simp: g1_header_done_def Let_def g1_inv_def asm_inv_def toggle_ok_def DATA_HEADER_SIZE_def MAX_DATA_SIZE_def)
    qed
  qed
qed

lemma g1_store_byte_inv:
  assumes "g1_inv p" and "\<not> p_done p"
  shows "g1_strong (store_byte p b)" and "toggle_ok (store_byte p b)"
    and "capture_size (store_byte p b) \<le> (if capture_header (store_byte p b) then 7 else 1273)"
proof -
  show "g1_strong (store_byte p b)" using assms(1) unfolding g1_inv_def by (elim conjE g1_strong_cong) simp_all
  show "toggle_ok (store_byte p b)" using assms by (simp add: g1_inv_def toggle_ok_def)
  show "capture_size (store_byte p b) \<le> (if capture_header (store_byte p b) then 7 else 1273)"
    using assms by (auto simp: store_byte_def Let_def g1_inv_def asm_inv_def DATA_HEADER_SIZE_def STATUS_HEADER_SIZE_def split: if_splits)
qed

lemma g1_capture_sm_inv:
  assumes "g1_inv p" and "\<not> p_done p"
  shows "g1_inv (g1_capture_sm p b)"
proof -
  let ?q = "store_byte p b"
  note q = g1_store_byte_inv [OF assms, of b]
  have d: "\<not> p_done ?q" using assms(2) by simp
  have "g1_strong (g1_data_event (?q\<lparr>capture_header := True\<rparr>))" if "\<not> capture_header ?q"
    using q that by (intro g1_strong_data_event) (auto elim!: g1_strong_cong)
  then have "\<not> capture_header ?q \<Longrightarrow> g1_strong ((g1_data_event (?q\<lparr>capture_header := True\<rparr>))\<lparr>capture_data_ptr := 0\<rparr>)"
    by (auto elim: g1_strong_cong)
  then have "\<not> capture_header ?q \<Longrightarrow> g1_inv ((g1_data_event (?q\<lparr>capture_header := True\<rparr>))\<lparr>capture_data_ptr := 0\<rparr>)"
    using q(2) by (simp add: g1_inv_def asm_inv_def toggle_ok_def)
  moreover have "capture_data_ptr ?q < capture_size ?q \<Longrightarrow> g1_inv ?q"
    using q by (auto simp: g1_inv_def asm_inv_def split: if_splits)
  moreover have "capture_header ?q \<Longrightarrow> g1_inv (g1_header_done ?q)" using q d by (intro g1_header_done_inv) simp_all
  ultimately show ?thesis by (simp add: g1_capture_sm_def Let_def)
qed

lemma g1_callback_inv: "g1_inv p \<Longrightarrow> g1_inv (g1_capture_callback p bs)"
  by (induction p bs rule: g1_capture_callback.induct) (simp_all add: g1_capture_sm_inv)


section \<open>Packets through folding\<close>

definition frame_packets :: "CaptureFrame list \<Rightarrow> bytes list" where
  "frame_packets fs = concat (map (\<lambda>f. if fr_size f < 0 then [] else [map (fr_data f) [0..<nat (fr_size f)]]) fs)"

lemma fold_pending_frames: "fold_pending p = frame_packets (map (capture_fold_buf p) [0..<capture_fold_buf_ptr p])"
  by (simp add: fold_pending_def frame_packets_def Let_def comp_def)

abbreviation packets :: "packet \<Rightarrow> bytes list" where
  "packets p \<equiv> map snd (epbs p)"

lemma packets_write [simp]:
  "packets (g1_write_str p ts s) = packets p" "packets (write_packet p ts d n) = packets p @ [map d [0..<n]]"
  by (simp_all add: epbs_def g1_write_str_def write_packet_def put_call_def)

lemma fold_pending_idle [simp]: "fold_idle p \<Longrightarrow> fold_pending p = []"
  by (simp add: fold_pending_def)

lemma g1_packets_info:
  "packets (g1_capture_info p ts s) = packets p @ fold_pending p"
  "packets (g1_line_state_event q) @ fold_pending (g1_line_state_event q) = packets q @ fold_pending q"
  "packets (g1_stop_folding r) = packets r @ fold_pending r"
  "fold_idle t \<Longrightarrow> packets (g1_unfold t fs) = packets t @ frame_packets fs"
proof (induction p ts s and q and r and t fs rule: g1_induct)
  case (1 p ts str)
  then show ?case by (simp add: g1_capture_info.simps Let_def del: g1_write_agree(2))
next
  case (2 p)
  let ?q = "p\<lparr>capture_saved_ls := LS_INVALID\<rparr>"
  have "packets ?q = packets p" "fold_pending ?q = fold_pending p" by (simp_all add: epbs_def fold_pending_def)
  with 2 show ?case by (auto simp: g1_line_state_event.simps [of p] Let_def)
next
  case (3 p)
  let ?q = "p\<lparr>capture_fold_count := 0, capture_fold_buf_ptr := 0\<rparr>"
  have "packets ?q = packets p" "fold_pending ?q = []" by (simp_all add: epbs_def fold_pending_def)
  with 3 show ?case by (auto simp: g1_stop_folding.simps [of p] Let_def fold_pending_frames frame_packets_def)
next
  case (5 p f fs)
  then show ?case by (simp add: frame_packets_def)
qed (simp_all add: frame_packets_def)


section \<open>Properties\<close>

text \<open>
  C22. Memory safety of the first-generation parser, on arbitrary bytes: until the process ends
  the assembly index stays inside \<open>capture_data[2048]\<close>; the fold index stays inside
  \<open>capture_fold_buf[256]\<close>; a fold batch stays below 8000 frames, and below 1000 unless the bus is at high
  speed; and every record written has a size its 4096-byte buffer can take, in particular every
  message is shorter than \<open>str[512]\<close>, although \<open>capture_info\<close> does not clamp it.
\<close>

theorem gen1_safe:
  assumes "g1_inv p" and "q = g1_capture_callback p bs"
  shows "g1_inv q \<and> (p_done q \<or> capture_data_ptr q < DATA_BUF_SIZE) \<and> capture_fold_buf_ptr q \<le> FOLD_BUF_SIZE
    \<and> capture_fold_count q < (if capture_speed_in q = CaptureSpeed_HS then FOLD_LIMIT_HS else FOLD_LIMIT_LS_FS)
    \<and> (\<forall>c \<in> set (p_out q). call_ok c)"
proof -
  have q: "g1_inv q" using g1_callback_inv [OF assms(1)] assms(2) by simp
  then have "p_done q \<or> capture_data_ptr q < DATA_BUF_SIZE"
    by (auto simp: g1_inv_def asm_inv_def DATA_BUF_SIZE_def split: if_splits)
  with q show ?thesis by (auto simp: g1_inv_def g1_strong_def g1_weak_def fold_inv_def)
qed

lemma g1_inv_start: "g1_inv (packet_new opts [])"
  by (simp add: g1_inv_def g1_strong_def g1_weak_def packet_new_def packet_start_def packet_zero_def fold_inv_def asm_inv_def
      toggle_ok_def FOLD_LIMIT_HS_def FOLD_LIMIT_LS_FS_def)

theorem gen1_safe_witness:
  "list_all call_ok (p_out (g1_capture_callback (packet_new \<lparr>fold_empty = True, exclude_line_state = False, capture_speed = 3,
      capture_trigger_mode = CaptureTrigger_Disabled, capture_limit = -1\<rparr> []) [0x40, 1, 2, 3]))"
  unfolding list_all_iff using gen1_safe [OF g1_inv_start refl] by blast

text \<open>
  At the capture limit the first generation writes out what it has folded: the process ends
  with no frame left in the fold buffer, and the packets in the file are those written before followed
  by those that were waiting, in order.
\<close>

theorem gen1_limit_flushes:
  assumes "capture_limit (p_opts p) = 1"
  shows "p_done (g1_check_capture_limit p) \<and> fold_idle (g1_check_capture_limit p)
    \<and> map snd (epbs (g1_check_capture_limit p)) = map snd (epbs p) @ fold_pending p"
proof -
  have "packets (q\<lparr>p_done := True\<rparr>) = packets q" for q by (simp add: epbs_def)
  moreover have "packets (p\<lparr>p_opts := x\<rparr>) = packets p" "fold_pending (p\<lparr>p_opts := x\<rparr>) = fold_pending p" for x
    by (simp_all add: epbs_def fold_pending_def)
  ultimately show ?thesis using assms by (simp add: g1_check_capture_limit_def Let_def g1_packets_info)
qed

theorem gen1_limit_flushes_witness:
  "p_done (g1_check_capture_limit (packet_new \<lparr>fold_empty = True, exclude_line_state = False, capture_speed = 3,
      capture_trigger_mode = CaptureTrigger_Disabled, capture_limit = 1\<rparr> []))"
  using gen1_limit_flushes [of "packet_new \<lparr>fold_empty = True, exclude_line_state = False, capture_speed = 3,
      capture_trigger_mode = CaptureTrigger_Disabled, capture_limit = 1\<rparr> []"]
  by (simp add: packet_new_def packet_start_def packet_zero_def)

text \<open>
  The second generation does not: a session that ends, at the capture limit or by a stop,
  leaves the frames in the fold buffer unwritten. The calls that follow the end (more input, the
  resynchronisation and stop messages) add no packet, so the waiting packets are lost.
\<close>

theorem session_end_loses_folded:
  assumes "capture_limit (p_opts p) = 1" and "q = check_capture_limit p"
  shows "packet_finished q \<and> epbs (packet_stop_info (packet_rsync (packet_feed q bs)) r) = epbs p
    \<and> fold_pending (packet_stop_info (packet_rsync (packet_feed q bs)) r) = fold_pending p"
proof -
  have d: "p_done q" using assms by (simp add: check_capture_limit_def Let_def)
  moreover have "epbs (capture_info u ts s) = epbs u" for u ts s by (simp add: epbs_def capture_info_closed ls_calls_def)
  moreover have "fold_pending (capture_info u ts s) = fold_pending u" for u ts s by (simp add: fold_pending_def)
  moreover have "fold_pending q = fold_pending p" using assms(2) by (simp add: fold_pending_def)
  moreover have "epbs q = epbs p" using assms(2) by simp
  ultimately show ?thesis by (simp add: packet_finished_def packet_feed_def packet_stop_info_def packet_rsync_def)
qed

theorem session_end_loses_folded_witness:
  "fold_pending (packet_stop_info (packet_rsync (packet_feed (check_capture_limit (fold_packet (packet_new \<lparr>fold_empty = True,
      exclude_line_state = False, capture_speed = 3, capture_trigger_mode = CaptureTrigger_Disabled, capture_limit = 1\<rparr> [])
      0 (\<lambda>_. 0xa5) 1)) [])) ''done'') = [[0xa5]]"
  (is "fold_pending (packet_stop_info (packet_rsync (packet_feed (check_capture_limit ?p) [])) ?r) = _")
proof -
  have "capture_limit (p_opts ?p) = 1" by (simp add: packet_new_def packet_start_def packet_zero_def)
  from session_end_loses_folded [OF this refl, of "[]" ?r] show ?thesis
    by (simp add: fold_pending_def fold_packet_def packet_new_def packet_start_def packet_zero_def Let_def)
qed

text \<open>
  Folding in the first generation writes records out of time order: two start-of-frame
  packets at 200 and 300 ns and a packet at 400 ns, all in order on the bus, give a summary at 400 ns,
  then the folded packet at 300 ns. The second generation writes the same session in order.
\<close>

theorem gen1_folding_unsorted:
  "let opts = \<lparr>fold_empty = True, exclude_line_state = True, capture_speed = 3,
          capture_trigger_mode = CaptureTrigger_Disabled, capture_limit = -1\<rparr>;
       bs = [0x00, 0, 6, 0x40,
             0xc0, 0, 12, 0, 10, 0, 0, 0xa5, 1, 0,
             0x80, 0, 18, 0, 10, 0, 0, 0xa5, 2, 0,
             0xc0, 0, 24, 0, 8, 0, 0, 0xd2]
   in drop 4 (out_ts (g1_capture_callback (packet_new opts []) bs)) = [400, 300, 400]
      \<and> drop 4 (out_ts (packet_feed (packet_new opts []) bs)) = [300, 400, 400]"
  by code_simp

end
