(* ===== verification/Gen1_Usb.thy ===== *)
theory Gen1_Usb
  imports Jtag Gen1_Safety
begin

text \<open>
  The libusb backend of the first-generation device, \<open>src/gen1/usb.c\<close>: device selection, the vendor
  requests on the control pipe, the capture control register, flushing of the data endpoint and the
  transfer pool with its completion callback. libusb and the device are parameters: \<open>ub_devices\<close> is the
  device list (\<open>None\<close> when the list cannot be read), \<open>ub_ctrl\<close> a control transfer (\<open>None\<close> when libusb
  reports an error, otherwise the bytes received), \<open>ub_bulk\<close> a bulk read of at most the given size.
\<close>

section \<open>Definitions\<close>

definition CPUCS_ADDR :: u16 where "CPUCS_ADDR = 0xe600"
definition CTRL_REG_SIZE :: nat where "CTRL_REG_SIZE = 4"
definition CMD_FX2LP_REQUEST :: u8 where "CMD_FX2LP_REQUEST = 0xa0"
definition CMD_I2C_READ :: u8 where "CMD_I2C_READ = 0xb0"
definition CMD_I2C_WRITE :: u8 where "CMD_I2C_WRITE = 0xb1"
definition CMD_JTAG_ENABLE :: u8 where "CMD_JTAG_ENABLE = 0xc0"
definition CMD_JTAG_REQUEST :: u8 where "CMD_JTAG_REQUEST = 0xc1"
definition CMD_JTAG_RESPONSE :: u8 where "CMD_JTAG_RESPONSE = 0xc2"
definition CMD_CTRL :: u8 where "CMD_CTRL = 0xd0"
definition DATA_ENDPOINT_SIZE :: nat where "DATA_ENDPOINT_SIZE = 512"
definition TRANSFER_SIZE :: nat where "TRANSFER_SIZE = DATA_ENDPOINT_SIZE * 2000"
definition TRANSFER_COUNT :: nat where "TRANSFER_COUNT = 16"
definition GEN1_VID :: nat where "GEN1_VID = 0x1209"
definition GEN1_PID :: nat where "GEN1_PID = 0x6688"
definition GEN1_BCD :: nat where "GEN1_BCD = 0x0001"
definition GEN1_VID_LEGACY :: nat where "GEN1_VID_LEGACY = 0x6666"
definition GEN1_PID_LEGACY :: nat where "GEN1_PID_LEGACY = 0x6620"
definition CaptureCtrl_Reset :: nat where "CaptureCtrl_Reset = 0"
definition CaptureCtrl_Enable :: nat where "CaptureCtrl_Enable = 1"
definition CaptureCtrl_Speed0 :: nat where "CaptureCtrl_Speed0 = 2"
definition CaptureCtrl_Speed1 :: nat where "CaptureCtrl_Speed1 = 3"
definition CaptureCtrl_Test :: nat where "CaptureCtrl_Test = 4"

text \<open>A device of the list: its descriptor (if it can be read) and whether it can be opened and claimed.\<close>

record usb_device =
  ud_desc_ok :: bool
  ud_vid :: nat
  ud_pid :: nat
  ud_bcd :: nat
  ud_open_ok :: bool
  ud_claim_ok :: bool

record ctrl_req =
  cr_in :: bool
  cr_request :: u8
  cr_value :: u16
  cr_data :: bytes
  cr_length :: nat

datatype bulk_result = BulkData bytes | BulkTimeout | BulkError

record 'd usb_bus =
  ub_devices :: "usb_device list option"
  ub_ctrl :: "ctrl_req \<Rightarrow> 'd \<Rightarrow> (bytes \<times> 'd) option"
  ub_bulk :: "nat \<Rightarrow> 'd \<Rightarrow> bulk_result \<times> 'd"

subsection \<open>Selecting the device\<close>

definition usb_match :: "nat \<Rightarrow> nat \<Rightarrow> nat \<Rightarrow> usb_device \<Rightarrow> bool" where
  "usb_match vid pid bcd_accept dev \<longleftrightarrow> ud_desc_ok dev \<and> \<not> (ud_vid dev \<noteq> vid \<or> ud_pid dev \<noteq> pid)
     \<and> \<not> (bcd_accept \<noteq> 0 \<and> ud_bcd dev \<noteq> bcd_accept) \<and> ud_open_ok dev"

text \<open>The loop stops at the first device that matches and opens; \<open>handle\<close> is \<open>g_usb_handle\<close>.\<close>

definition usb_open :: "usb_device list option \<Rightarrow> nat \<Rightarrow> nat \<Rightarrow> nat \<Rightarrow> usb_device option \<Rightarrow> (bool \<times> usb_device option) io" where
  "usb_open devices vid pid bcd_accept handle =
     (case devices of
        None \<Rightarrow> Some (Inl (UsbError ''libusb_get_device_list()''))
      | Some devs \<Rightarrow>
          let handle = (case find (usb_match vid pid bcd_accept) devs of Some dev \<Rightarrow> Some dev | None \<Rightarrow> handle)
          in case handle of
               None \<Rightarrow> io_return (False, None)
             | Some dev \<Rightarrow> if \<not> ud_claim_ok dev then Some (Inl (UsbError ''libusb_claim_interface()''))
                           else io_return (True, Some dev))"

definition open_capture_device :: "usb_device list option \<Rightarrow> usb_device option \<Rightarrow> usb_device option io" where
  "open_capture_device devices handle =
     io_bind (usb_open devices GEN1_VID GEN1_PID GEN1_BCD handle) (\<lambda>(ok, handle).
     if ok then io_return handle
     else io_bind (usb_open devices GEN1_VID_LEGACY GEN1_PID_LEGACY 0 handle) (\<lambda>(ok, handle).
     if ok then io_return handle
     else os_error ''could not open a capture device (gen1 1209:6688 rev 0x0001 or legacy 6666:6620)''))"

subsection \<open>Vendor requests\<close>

definition ctrl_out :: "'d usb_bus \<Rightarrow> string \<Rightarrow> u8 \<Rightarrow> u16 \<Rightarrow> bytes \<Rightarrow> 'd \<Rightarrow> 'd io" where
  "ctrl_out b text request wValue data d =
     (case ub_ctrl b \<lparr>cr_in = False, cr_request = request, cr_value = wValue, cr_data = data, cr_length = length data\<rparr> d of
        None \<Rightarrow> Some (Inl (UsbError text))
      | Some (_, d) \<Rightarrow> io_return d)"

text \<open>A shorter answer than asked for is no error: the rest of the caller's buffer \<open>old\<close> stays as it was.\<close>

definition ctrl_in :: "'d usb_bus \<Rightarrow> string \<Rightarrow> u8 \<Rightarrow> u16 \<Rightarrow> bytes \<Rightarrow> nat \<Rightarrow> 'd \<Rightarrow> (bytes \<times> 'd) io" where
  "ctrl_in b text request wValue old n d =
     (case ub_ctrl b \<lparr>cr_in = True, cr_request = request, cr_value = wValue, cr_data = [], cr_length = n\<rparr> d of
        None \<Rightarrow> Some (Inl (UsbError text))
      | Some (r, d) \<Rightarrow> io_return (mem_put 0 (take n r) old, d))"

definition usb_fx2lp_reset :: "'d usb_bus \<Rightarrow> bool \<Rightarrow> 'd \<Rightarrow> 'd io" where
  "usb_fx2lp_reset b reset = ctrl_out b ''usb_fx2lp_reset()'' CMD_FX2LP_REQUEST CPUCS_ADDR [of_bool reset]"

definition usb_fx2lp_sram_read :: "'d usb_bus \<Rightarrow> nat \<Rightarrow> bytes \<Rightarrow> nat \<Rightarrow> 'd \<Rightarrow> (bytes \<times> 'd) io" where
  "usb_fx2lp_sram_read b addr = ctrl_in b ''usb_fx2lp_sram_read()'' CMD_FX2LP_REQUEST (of_nat addr)"

definition usb_fx2lp_sram_write :: "'d usb_bus \<Rightarrow> nat \<Rightarrow> bytes \<Rightarrow> 'd \<Rightarrow> 'd io" where
  "usb_fx2lp_sram_write b addr = ctrl_out b ''usb_fx2lp_sram_write()'' CMD_FX2LP_REQUEST (of_nat addr)"

definition usb_i2c_read :: "'d usb_bus \<Rightarrow> u16 \<Rightarrow> bytes \<Rightarrow> nat \<Rightarrow> 'd \<Rightarrow> (bytes \<times> 'd) io" where
  "usb_i2c_read b addr = ctrl_in b ''usb_i2c_read()'' CMD_I2C_READ (addr OR 1)"

definition usb_i2c_write :: "'d usb_bus \<Rightarrow> u16 \<Rightarrow> bytes \<Rightarrow> 'd \<Rightarrow> 'd io" where
  "usb_i2c_write b addr = ctrl_out b ''usb_i2c_write()'' CMD_I2C_WRITE addr"

definition usb_jtag_enable :: "'d usb_bus \<Rightarrow> bool \<Rightarrow> 'd \<Rightarrow> 'd io" where
  "usb_jtag_enable b enable = ctrl_out b ''usb_jtag_enable()'' CMD_JTAG_ENABLE (of_bool enable) []"

text \<open>The two JTAG requests over the same control pipe, as the JTAG layer uses them.\<close>

definition jtag_pipe :: "'d usb_bus \<Rightarrow> bytes \<Rightarrow> 'd jtag_usb" where
  "jtag_pipe b junk = \<lparr>
     ju_request = (\<lambda>count data d. map_option snd
       (ub_ctrl b \<lparr>cr_in = False, cr_request = CMD_JTAG_REQUEST, cr_value = of_nat count, cr_data = data, cr_length = length data\<rparr> d)),
     ju_response = (\<lambda>n d.
       ub_ctrl b \<lparr>cr_in = True, cr_request = CMD_JTAG_RESPONSE, cr_value = 0, cr_data = [], cr_length = n\<rparr> d),
     ju_junk = junk\<rparr>"

definition usb_ctrl :: "'d usb_bus \<Rightarrow> nat \<Rightarrow> bool \<Rightarrow> 'd \<Rightarrow> 'd io" where
  "usb_ctrl b index value =
     ctrl_out b ''usb_ctrl()'' CMD_CTRL (of_nat index OR push_bit CTRL_REG_SIZE (of_bool value)) []"

fun flush_loop :: "'d usb_bus \<Rightarrow> nat \<Rightarrow> 'd \<Rightarrow> 'd io" where
  "flush_loop b 0 d = io_return d"
| "flush_loop b (Suc k) d =
     (case ub_bulk b DATA_ENDPOINT_SIZE d of
        (BulkTimeout, d) \<Rightarrow> io_return d
      | (BulkError, d) \<Rightarrow> Some (Inl (UsbError ''libusb_bulk_transfer()''))
      | (BulkData _, d) \<Rightarrow> flush_loop b k d)"

definition usb_flush_data :: "'d usb_bus \<Rightarrow> 'd \<Rightarrow> 'd io" where
  "usb_flush_data b = flush_loop b 100"

definition usb_ctrl_init :: "'d usb_bus \<Rightarrow> 'd \<Rightarrow> 'd io" where
  "usb_ctrl_init b d =
     io_bind (usb_ctrl b CaptureCtrl_Reset True d) (\<lambda>d.
     io_bind (usb_ctrl b CaptureCtrl_Enable False d) (\<lambda>d.
     io_bind (usb_ctrl b CaptureCtrl_Test False d) (\<lambda>d.
     io_bind (usb_ctrl b CaptureCtrl_Speed0 True d) (\<lambda>d.
     io_bind (usb_ctrl b CaptureCtrl_Speed0 False d) (\<lambda>d.
     io_bind (usb_ctrl b CaptureCtrl_Speed1 True d) (\<lambda>d.
     usb_ctrl b CaptureCtrl_Speed1 False d))))))"

subsection \<open>The transfer pool\<close>

text \<open>
  A completion: its status, the bytes received, the time read from the clock and whether the
  resubmission succeeds. \<open>gx_inflight\<close> counts the submitted transfers. The processing time kept in
  \<open>g_logged_delta\<close> is only logged and is left out.
\<close>

datatype xfer_status = XferCompleted | XferTimedOut | XferCancelled | XferNoDevice | XferOther

record completion =
  co_status :: xfer_status
  co_data :: bytes
  co_time :: u64
  co_submit_ok :: bool

record g1_usb =
  gx_packet :: packet
  gx_inflight :: nat
  gx_closing :: bool
  gx_speed_test :: bool
  gx_time :: u64
  gx_size :: int
  gx_count :: u64
  gx_rand :: u16

fun words16 :: "bytes \<Rightarrow> u16 list" where
  "words16 (a # b # bs) = (ucast a OR push_bit 8 (ucast b)) # words16 bs"
| "words16 _ = []"

text \<open>The comparison loop of the speed test: the generator's state after it, or \<open>None\<close> at a mismatch.\<close>

fun speed_check :: "u16 \<Rightarrow> u16 list \<Rightarrow> u16 option" where
  "speed_check r [] = Some r"
| "speed_check r (w # ws) = (let r = os_rand16 r 0 in if w = r then speed_check r ws else None)"

definition speed_count :: "g1_usb \<Rightarrow> completion \<Rightarrow> u16 \<Rightarrow> g1_usb" where
  "speed_count s c r =
     (let count = length (co_data c) div 2;
          s = s\<lparr>gx_rand := r, gx_count := gx_count s + of_nat count, gx_size := gx_size s + int (length (co_data c))\<rparr>
      in if co_time c - gx_time s > 1000 then s\<lparr>gx_size := 0, gx_time := co_time c\<rparr> else s)"

text \<open>
  The completion callback. The transfer leaves the pool when it completes and is back in it when it
  is submitted again.
\<close>

definition usb_capture_callback :: "g1_usb \<Rightarrow> completion \<Rightarrow> g1_usb io" where
  "usb_capture_callback s c =
     (let s = s\<lparr>gx_inflight := gx_inflight s - 1\<rparr>;
          submit = (\<lambda>s. if p_done (gx_packet s) then io_return s
            else if co_submit_ok c then io_return (s\<lparr>gx_inflight := gx_inflight s + 1\<rparr>)
            else Some (Inl (UsbError ''libusb_submit_transfer() in usb_capture_callback()'')))
      in if gx_closing s then io_return s
         else if co_status c = XferCancelled then io_return s
         else if co_status c = XferNoDevice then io_return s
         else if co_status c \<noteq> XferTimedOut \<and> co_status c \<noteq> XferCompleted then os_error ''usb_capture_callback()''
         else if gx_speed_test s then
           (case speed_check (gx_rand s) (words16 (co_data c)) of
              None \<Rightarrow> os_error ''data error during the speed test''
            | Some r \<Rightarrow> submit (speed_count s c r))
         else submit (s\<lparr>gx_packet := g1_capture_callback (gx_packet s) (co_data c)\<rparr>))"

text \<open>
  The event loop: completions until \<open>g_stop\<close> (the end of the list) or until the process ends in the
  frame parser (\<open>p_done\<close>).
\<close>

fun usb_events :: "g1_usb \<Rightarrow> completion list \<Rightarrow> g1_usb io" where
  "usb_events s [] = io_return s"
| "usb_events s (c # cs) =
     (if p_done (gx_packet s) then io_return s
      else io_bind (usb_capture_callback s c) (\<lambda>s. usb_events s cs))"

definition usb_data_transfer :: "g1_usb \<Rightarrow> completion list \<Rightarrow> g1_usb io" where
  "usb_data_transfer s cs = usb_events (s\<lparr>gx_inflight := TRANSFER_COUNT\<rparr>) cs"

text \<open>Teardown: no callback that runs after \<open>g_usb_closing\<close> is set feeds or resubmits anything.\<close>

definition usb_close :: "g1_usb \<Rightarrow> completion list \<Rightarrow> g1_usb io" where
  "usb_close s cs = usb_events (s\<lparr>gx_closing := True\<rparr>) cs"

definition usb_speed_test :: "'d usb_bus \<Rightarrow> g1_usb \<Rightarrow> u64 \<Rightarrow> completion list \<Rightarrow> 'd \<Rightarrow> (g1_usb \<times> 'd) io" where
  "usb_speed_test b s now cs d =
     io_bind (usb_ctrl_init b d) (\<lambda>d.
     io_bind (usb_ctrl b CaptureCtrl_Reset True d) (\<lambda>d.
     io_bind (usb_ctrl b CaptureCtrl_Test True d) (\<lambda>d.
     io_bind (usb_flush_data b d) (\<lambda>d.
     io_bind (usb_ctrl b CaptureCtrl_Reset False d) (\<lambda>d.
     io_bind (usb_data_transfer (s\<lparr>gx_speed_test := True, gx_time := now, gx_size := 0, gx_count := 0\<rparr>) cs) (\<lambda>s.
     io_return (s, d)))))))"

section \<open>The transfer pool feeds every byte once\<close>

lemma g1_callback_done: "p_done p \<Longrightarrow> g1_capture_callback p bs = p"
  by (cases bs) simp_all

lemma g1_callback_append: "g1_capture_callback p (as @ bs) = g1_capture_callback (g1_capture_callback p as) bs"
  by (induction p as rule: g1_capture_callback.induct) (simp_all add: g1_callback_done)

text \<open>The first-generation parser is a chunk consumer: the boundaries of the USB transfers cannot be observed.\<close>

interpretation gen1_chunks: chunk_consumer g1_inv g1_capture_callback id
  by unfold_locales (simp_all add: g1_callback_inv g1_callback_append)

text \<open>A completion that carries data and whose transfer can be submitted again.\<close>

definition good_completion :: "completion \<Rightarrow> bool" where
  "good_completion c \<longleftrightarrow> co_status c \<in> {XferCompleted, XferTimedOut} \<and> co_submit_ok c"

lemma callback_feeds:
  assumes "good_completion c" and "\<not> gx_closing s" and "\<not> gx_speed_test s" and "0 < gx_inflight s"
  defines "p \<equiv> g1_capture_callback (gx_packet s) (co_data c)"
  shows "usb_capture_callback s c
    = io_return (s\<lparr>gx_packet := p, gx_inflight := (if p_done p then gx_inflight s - 1 else gx_inflight s)\<rparr>)"
  using assms by (auto simp: usb_capture_callback_def Let_def good_completion_def)

lemma events_feed:
  assumes "\<forall>c \<in> set cs. good_completion c" and "\<not> gx_closing s" and "\<not> gx_speed_test s" and "0 < gx_inflight s"
  shows "\<exists>k. usb_events s cs = io_return
      (s\<lparr>gx_packet := g1_capture_callback (gx_packet s) (concat (map co_data cs)), gx_inflight := k\<rparr>)
    \<and> (\<not> p_done (g1_capture_callback (gx_packet s) (concat (map co_data cs))) \<longrightarrow> k = gx_inflight s)"
  using assms
proof (induction cs arbitrary: s)
  case Nil
  then show ?case by (intro exI [of _ "gx_inflight s"]) simp
next
  case (Cons c cs)
  let ?p = "g1_capture_callback (gx_packet s) (co_data c)"
  let ?t = "s\<lparr>gx_packet := ?p, gx_inflight := (if p_done ?p then gx_inflight s - 1 else gx_inflight s)\<rparr>"
  consider "p_done (gx_packet s)" | "\<not> p_done (gx_packet s)" "p_done ?p" | "\<not> p_done (gx_packet s)" "\<not> p_done ?p" by blast
  then show ?case
  proof cases
    case 1
    then show ?thesis by (intro exI [of _ "gx_inflight s"]) (simp add: g1_callback_done)
  next
    case 2
    moreover have "usb_events ?t cs = io_return ?t" using 2 by (cases cs) simp_all
    ultimately show ?thesis using Cons.prems callback_feeds [of c s]
      by (intro exI [of _ "gx_inflight s - 1"]) (simp add: g1_callback_append g1_callback_done)
  next
    case 3
    with Cons.prems Cons.IH [of ?t] callback_feeds [of c s] show ?thesis
      by (auto simp: g1_callback_append)
  qed
qed

lemma events_closing:
  assumes "gx_closing s"
  shows "\<exists>k. usb_events s cs = io_return (s\<lparr>gx_inflight := k\<rparr>)
    \<and> (\<not> p_done (gx_packet s) \<longrightarrow> k = gx_inflight s - length cs)"
  using assms
proof (induction cs arbitrary: s)
  case Nil
  then show ?case by (intro exI [of _ "gx_inflight s"]) simp
next
  case (Cons c cs)
  show ?case
  proof (cases "p_done (gx_packet s)")
    case True
    then show ?thesis by (intro exI [of _ "gx_inflight s"]) simp
  next
    case False
    then show ?thesis using Cons.prems Cons.IH [of "s\<lparr>gx_inflight := gx_inflight s - 1\<rparr>"]
      by (auto simp: usb_capture_callback_def Let_def)
  qed
qed

section \<open>The speed test\<close>

text \<open>The generator's output from state \<open>r\<close>, and its state after \<open>n\<close> words.\<close>

fun pattern :: "u16 \<Rightarrow> nat \<Rightarrow> u16 list" where
  "pattern r 0 = []"
| "pattern r (Suc n) = os_rand16 r 0 # pattern (os_rand16 r 0) n"

fun rand_state :: "u16 \<Rightarrow> nat \<Rightarrow> u16" where
  "rand_state r 0 = r"
| "rand_state r (Suc n) = rand_state (os_rand16 r 0) n"

lemma speed_check_pattern: "speed_check r ws = (if ws = pattern r (length ws) then Some (rand_state r (length ws)) else None)"
  by (induction r ws rule: speed_check.induct) (auto simp: Let_def)

lemma speed_check_append: "speed_check r (as @ bs) = Option.bind (speed_check r as) (\<lambda>r. speed_check r bs)"
  by (induction r as rule: speed_check.induct) (simp_all add: Let_def)

lemma words16_append: "even (length as) \<Longrightarrow> words16 (as @ bs) = words16 as @ words16 bs"
  by (induction as rule: words16.induct) simp_all

lemma length_words16: "length (words16 bs) = length bs div 2"
  by (induction bs rule: words16.induct) simp_all

lemma speed_count_fields [simp]:
  "gx_rand (speed_count s c r) = r" "gx_packet (speed_count s c r) = gx_packet s"
  "gx_inflight (speed_count s c r) = gx_inflight s" "gx_closing (speed_count s c r) = gx_closing s"
  "gx_speed_test (speed_count s c r) = gx_speed_test s"
  "gx_count (speed_count s c r) = gx_count s + of_nat (length (co_data c) div 2)"
  by (simp_all add: speed_count_def Let_def)

lemma callback_speed:
  assumes "good_completion c" and "\<not> gx_closing s" and "gx_speed_test s" and "0 < gx_inflight s" and "\<not> p_done (gx_packet s)"
  shows "usb_capture_callback s c = (case speed_check (gx_rand s) (words16 (co_data c)) of
      None \<Rightarrow> os_error ''data error during the speed test''
    | Some r \<Rightarrow> io_return ((speed_count (s\<lparr>gx_inflight := gx_inflight s - 1\<rparr>) c r)\<lparr>gx_inflight := gx_inflight s\<rparr>))"
  using assms by (auto simp: usb_capture_callback_def Let_def good_completion_def split: option.split)

lemma events_speed:
  assumes "\<forall>c \<in> set cs. good_completion c \<and> even (length (co_data c))" and "\<not> gx_closing s" and "gx_speed_test s"
    and "0 < gx_inflight s" and "\<not> p_done (gx_packet s)"
  shows "case speed_check (gx_rand s) (words16 (concat (map co_data cs))) of
      None \<Rightarrow> usb_events s cs = os_error ''data error during the speed test''
    | Some r \<Rightarrow> \<exists>t. usb_events s cs = io_return t \<and> gx_rand t = r \<and> gx_inflight t = gx_inflight s
        \<and> gx_count t = gx_count s + of_nat (length (concat (map co_data cs)) div 2)"
  using assms
proof (induction cs arbitrary: s)
  case (Cons c cs)
  let ?t = "\<lambda>r. (speed_count (s\<lparr>gx_inflight := gx_inflight s - 1\<rparr>) c r)\<lparr>gx_inflight := gx_inflight s\<rparr>"
  have h: "length (co_data c @ concat (map co_data cs)) div 2 = length (co_data c) div 2 + length (concat (map co_data cs)) div 2"
    using Cons.prems(1) by (simp add: div_plus_div_distrib_dvd_left)
  show ?case
  proof (cases "speed_check (gx_rand s) (words16 (co_data c))")
    case None
    with Cons.prems show ?thesis by (simp add: callback_speed words16_append speed_check_append os_error_def)
  next
    case (Some r)
    with Cons.prems Cons.IH [of "?t r"] show ?thesis unfolding list.map concat.simps h
      by (simp add: callback_speed words16_append speed_check_append add.assoc split: option.splits)
  qed
qed simp

text \<open>The generator never reaches zero: each of its three steps is injective.\<close>

lemma xor_zero_eq:
  fixes a b :: "'a::len word"
  assumes "a XOR b = 0"
  shows "a = b"
proof (rule bit_word_eqI)
  fix n
  have "\<not> bit (a XOR b) n" by (simp add: assms)
  then show "n < LENGTH('a) \<Longrightarrow> bit a n = bit b n" by (simp add: bit_xor_iff)
qed

lemma xor_push_zero:
  fixes x :: "'a::len word"
  assumes "x XOR push_bit k x = 0" and "0 < k"
  shows "x = 0"
proof (rule word_bit_eqI)
  fix n
  have e: "x = push_bit k x" using assms(1) by (rule xor_zero_eq)
  show "n < LENGTH('a) \<Longrightarrow> bit x n = bit (0 :: 'a word) n"
  proof (induction n rule: less_induct)
    case (less n)
    have b: "bit x n \<longleftrightarrow> k \<le> n \<and> bit x (n - k)" using less.prems by (subst e) (simp add: bit_push_bit_iff)
    show ?case
    proof (cases "k \<le> n")
      case True
      with less.IH [of "n - k"] less.prems assms(2) b show ?thesis by simp
    next
      case False
      with b show ?thesis by simp
    qed
  qed
qed

lemma xor_drop_zero:
  fixes x :: "'a::len word"
  assumes "x XOR drop_bit k x = 0" and "0 < k"
  shows "x = 0"
proof (rule word_bit_eqI)
  fix n
  have e: "x = drop_bit k x" using assms(1) by (rule xor_zero_eq)
  show "n < LENGTH('a) \<Longrightarrow> bit x n = bit (0 :: 'a word) n"
  proof (induction "LENGTH('a) - n" arbitrary: n rule: less_induct)
    case less
    have b: "bit x n \<longleftrightarrow> bit x (n + k)" by (subst e) (simp add: bit_drop_bit_eq add.commute)
    show ?case
    proof (cases "n + k < LENGTH('a)")
      case True
      with less.hyps [of "n + k"] less.prems assms(2) b show ?thesis by simp
    next
      case False
      then have "\<not> bit x (n + k)" by (meson bit_imp_le_length not_le leD)
      with b show ?thesis by simp
    qed
  qed
qed

lemma os_rand16_nonzero:
  assumes "r \<noteq> 0"
  shows "os_rand16 r 0 \<noteq> 0"
proof -
  let ?s = "r XOR push_bit 7 r"
  let ?t = "?s XOR drop_bit 9 ?s"
  have "?s \<noteq> 0" using assms xor_push_zero [of r 7] by auto
  then have "?t \<noteq> 0" using xor_drop_zero [of ?s 9] by auto
  then have "?t XOR push_bit 8 ?t \<noteq> 0" using xor_push_zero [of ?t 8] by auto
  then show ?thesis by (simp add: os_rand16_def)
qed

lemma pattern_nonzero: "r \<noteq> 0 \<Longrightarrow> 0 \<notin> set (pattern r n)"
  by (induction n arbitrary: r) (auto simp: os_rand16_nonzero dest: sym)

section \<open>Properties\<close>

text \<open>
  The transfer pool loses and repeats nothing: however the byte stream is cut into completed
  or timed-out transfers, the frame parser ends in the state of one call on all the bytes, and all
  16 transfers are in flight again. Once \<open>usb_close\<close> has begun, completions that still arrive, with any
  status and any data, leave the parser as it is and their transfers out of the pool.
\<close>

theorem transfer_pool_feeds:
  assumes "\<forall>c \<in> set cs. good_completion c" and "\<not> gx_closing s" and "\<not> gx_speed_test s"
    and "p = g1_capture_callback (gx_packet s) (concat (map co_data cs))" and "\<not> p_done p"
  shows "\<exists>t u. usb_data_transfer s cs = io_return t \<and> gx_packet t = p \<and> gx_inflight t = TRANSFER_COUNT
    \<and> usb_close t late = io_return u \<and> gx_packet u = p \<and> gx_inflight u = TRANSFER_COUNT - length late"
proof -
  let ?t = "s\<lparr>gx_packet := p, gx_inflight := TRANSFER_COUNT\<rparr>"
  have t: "usb_data_transfer s cs = io_return ?t"
    using events_feed [of cs "s\<lparr>gx_inflight := TRANSFER_COUNT\<rparr>"] assms
    by (auto simp: usb_data_transfer_def TRANSFER_COUNT_def)
  obtain k where "usb_close ?t late = io_return (?t\<lparr>gx_closing := True, gx_inflight := k\<rparr>)" "k = TRANSFER_COUNT - length late"
    using events_closing [of "?t\<lparr>gx_closing := True\<rparr>" late] assms(5) by (auto simp: usb_close_def)
  with t show ?thesis by (intro exI conjI) (assumption | simp)+
qed

theorem transfer_pool_feeds_witness:
  "let s = \<lparr>gx_packet = packet_new \<lparr>fold_empty = False, exclude_line_state = True, capture_speed = 3,
          capture_trigger_mode = CaptureTrigger_Disabled, capture_limit = -1\<rparr> [], gx_inflight = 0, gx_closing = False,
        gx_speed_test = False, gx_time = 0, gx_size = 0, gx_count = 0, gx_rand = 0x6c41\<rparr>;
      cs = [\<lparr>co_status = XferCompleted, co_data = [0x80, 0], co_time = 0, co_submit_ok = True\<rparr>,
        \<lparr>co_status = XferTimedOut, co_data = [12], co_time = 9, co_submit_ok = True\<rparr>];
      late = [\<lparr>co_status = XferCompleted, co_data = [0], co_time = 10, co_submit_ok = False\<rparr>]
   in \<exists>t u. usb_data_transfer s cs = io_return t \<and> gx_inflight t = 16 \<and> usb_close t late = io_return u \<and> gx_inflight u = 15"
proof -
  let ?o = "\<lparr>fold_empty = False, exclude_line_state = True, capture_speed = 3,
          capture_trigger_mode = CaptureTrigger_Disabled, capture_limit = -1\<rparr>"
  let ?s = "\<lparr>gx_packet = packet_new ?o [], gx_inflight = 0, gx_closing = False,
        gx_speed_test = False, gx_time = 0, gx_size = 0, gx_count = 0, gx_rand = 0x6c41\<rparr>"
  let ?cs = "[\<lparr>co_status = XferCompleted, co_data = [0x80, 0], co_time = 0, co_submit_ok = True\<rparr>,
        \<lparr>co_status = XferTimedOut, co_data = [12], co_time = 9, co_submit_ok = True\<rparr>]"
  have "\<not> p_done (g1_capture_callback (packet_new ?o []) [0x80, 0, 12])" by code_simp
  then show ?thesis
    using transfer_pool_feeds [of ?cs ?s _ "[\<lparr>co_status = XferCompleted, co_data = [0], co_time = 10, co_submit_ok = False\<rparr>]", OF _ _ _ refl]
    by (force simp: good_completion_def TRANSFER_COUNT_def)
qed

text \<open>
  The speed test is exact: for 16-bit-aligned transfers it returns when and only when the
  words received are the generator's sequence from its state, however they are cut into transfers, and
  it has then counted all of them; otherwise the process ends with an error. As the generator starts at
  a non-zero state, a link stuck at zero never passes: the sequence holds no zero word.
\<close>

theorem speed_test_exact:
  assumes "\<forall>c \<in> set cs. good_completion c \<and> even (length (co_data c))" and "\<not> gx_closing s" and "gx_speed_test s"
    and "\<not> p_done (gx_packet s)" and "gx_rand s \<noteq> 0" and "ws = words16 (concat (map co_data cs))"
  shows "if ws = pattern (gx_rand s) (length ws)
    then 0 \<notin> set ws \<and> (\<exists>t. usb_data_transfer s cs = io_return t \<and> gx_inflight t = TRANSFER_COUNT
      \<and> gx_rand t = rand_state (gx_rand s) (length ws) \<and> gx_count t = gx_count s + of_nat (length ws))
    else usb_data_transfer s cs = os_error ''data error during the speed test''"
proof -
  note e = events_speed [of cs "s\<lparr>gx_inflight := TRANSFER_COUNT\<rparr>", folded usb_data_transfer_def]
  have n: "length (concat (map co_data cs)) div 2 = length ws" by (simp only: assms(6) length_words16)
  show ?thesis
  proof (cases "ws = pattern (gx_rand s) (length ws)")
    case True
    then have "0 \<notin> set ws" using pattern_nonzero [OF assms(5)] by metis
    moreover have "speed_check (gx_rand s) (words16 (concat (map co_data cs))) = Some (rand_state (gx_rand s) (length ws))"
      using True by (simp add: speed_check_pattern [of _ ws] flip: assms(6))
    ultimately show ?thesis using True e assms(1-4) unfolding n by (auto simp: TRANSFER_COUNT_def)
  next
    case False
    then have "speed_check (gx_rand s) (words16 (concat (map co_data cs))) = None"
      by (simp add: speed_check_pattern [of _ ws] flip: assms(6))
    with False e assms(1-4) show ?thesis by (simp add: TRANSFER_COUNT_def)
  qed
qed

theorem speed_test_exact_witness:
  "let s = \<lparr>gx_packet = packet_new \<lparr>fold_empty = False, exclude_line_state = True, capture_speed = 3,
          capture_trigger_mode = CaptureTrigger_Disabled, capture_limit = -1\<rparr> [], gx_inflight = 0, gx_closing = False,
        gx_speed_test = True, gx_time = 0, gx_size = 0, gx_count = 0, gx_rand = 0x6c41\<rparr>
   in (\<exists>t. usb_data_transfer s [\<lparr>co_status = XferCompleted, co_data = [0xe7, 0xab, 0x4b, 0x13], co_time = 0, co_submit_ok = True\<rparr>,
        \<lparr>co_status = XferCompleted, co_data = [0x90, 0x26], co_time = 0, co_submit_ok = True\<rparr>] = io_return t \<and> gx_count t = 3)
      \<and> usb_data_transfer s [\<lparr>co_status = XferCompleted, co_data = [0, 0], co_time = 0, co_submit_ok = True\<rparr>]
         = os_error ''data error during the speed test''"
proof -
  let ?s = "\<lparr>gx_packet = packet_new \<lparr>fold_empty = False, exclude_line_state = True, capture_speed = 3,
          capture_trigger_mode = CaptureTrigger_Disabled, capture_limit = -1\<rparr> [], gx_inflight = 0, gx_closing = False,
        gx_speed_test = True, gx_time = 0, gx_size = 0, gx_count = 0, gx_rand = 0x6c41\<rparr>"
  let ?c = "\<lambda>bs. \<lparr>co_status = XferCompleted, co_data = bs, co_time = 0, co_submit_ok = True\<rparr>"
  have d: "\<not> p_done (packet_new \<lparr>fold_empty = False, exclude_line_state = True, capture_speed = 3,
          capture_trigger_mode = CaptureTrigger_Disabled, capture_limit = -1\<rparr> [])"
    by (simp add: packet_new_def packet_start_def)
  have r: "os_rand16 0x6c41 0 = 0xabe7" "os_rand16 0xabe7 0 = 0x134b" "os_rand16 0x134b 0 = 0x2690" by code_simp+
  have "\<exists>t. usb_data_transfer ?s [?c [0xe7, 0xab, 0x4b, 0x13], ?c [0x90, 0x26]] = io_return t \<and> gx_count t = 3"
    using speed_test_exact [of "[?c [0xe7, 0xab, 0x4b, 0x13], ?c [0x90, 0x26]]" ?s, OF _ _ _ _ _ refl] d
    by (auto simp: good_completion_def r)
  moreover have "usb_data_transfer ?s [?c [0, 0]] = os_error ''data error during the speed test''"
    using speed_test_exact [of "[?c [0, 0]]" ?s, OF _ _ _ _ _ refl] d by (simp add: good_completion_def r)
  ultimately show ?thesis by (simp add: Let_def)
qed

end
