(* ===== verification/Device.thy ===== *)
theory Device
  imports Gen1_Usb
begin

text \<open>
  The bus scan that tells the two hardware generations apart, \<open>src/device.c\<close>, and its agreement with
  the scan of the first-generation backend. The device list of libusb is a parameter.
\<close>

section \<open>Definitions\<close>

definition USB_VID_VLLOGIC :: nat where "USB_VID_VLLOGIC = 0x1209"
definition USB_PID_VLLOGIC :: nat where "USB_PID_VLLOGIC = 0x6688"
definition USB_VID_LEGACY :: nat where "USB_VID_LEGACY = 0x6666"
definition USB_PID_LEGACY :: nat where "USB_PID_LEGACY = 0x6620"
definition USB_VID_FX2LP :: nat where "USB_VID_FX2LP = 0x04b4"
definition USB_PID_FX2LP :: nat where "USB_PID_FX2LP = 0x8613"
definition USB_BCD_GEN1 :: nat where "USB_BCD_GEN1 = 0x0001"
definition USB_BCD_GEN2 :: nat where "USB_BCD_GEN2 = 0x0602"

datatype device_kind = Device_None | Device_Gen1 | Device_Gen2 | Device_Both | Device_Fx2lp_Only

definition device_is_gen2 :: "nat \<Rightarrow> nat \<Rightarrow> nat \<Rightarrow> bool" where
  "device_is_gen2 vid pid bcd \<longleftrightarrow> vid = USB_VID_VLLOGIC \<and> pid = USB_PID_VLLOGIC \<and> bcd = USB_BCD_GEN2"

definition gen1_classify :: "nat \<Rightarrow> nat \<Rightarrow> nat \<Rightarrow> bool" where
  "gen1_classify vid pid bcd =
     (if vid = USB_VID_LEGACY \<and> pid = USB_PID_LEGACY then True
      else if vid = USB_VID_VLLOGIC \<and> pid = USB_PID_VLLOGIC then bcd = USB_BCD_GEN1
      else False)"

fun probe_loop :: "usb_device list \<Rightarrow> bool \<Rightarrow> bool \<Rightarrow> bool \<Rightarrow> bool \<times> bool \<times> bool" where
  "probe_loop [] gen1 gen2 fx2lp = (gen1, gen2, fx2lp)"
| "probe_loop (d # ds) gen1 gen2 fx2lp =
     (if \<not> ud_desc_ok d then probe_loop ds gen1 gen2 fx2lp
      else let gen1 = (gen1 \<or> gen1_classify (ud_vid d) (ud_pid d) (ud_bcd d));
               fx2lp = (fx2lp \<or> (ud_vid d = USB_VID_FX2LP \<and> ud_pid d = USB_PID_FX2LP));
               gen2 = (gen2 \<or> device_is_gen2 (ud_vid d) (ud_pid d) (ud_bcd d))
           in if gen1 \<and> gen2 then (gen1, gen2, fx2lp) else probe_loop ds gen1 gen2 fx2lp)"

text \<open>\<open>init\<close> says whether \<open>libusb_init\<close> succeeds.\<close>

definition device_probe :: "bool \<Rightarrow> usb_device list option \<Rightarrow> device_kind io" where
  "device_probe init devices =
     (if \<not> init then os_error ''libusb_init()''
      else case devices of
             None \<Rightarrow> os_error ''libusb_get_device_list()''
           | Some devs \<Rightarrow>
               let (gen1, gen2, fx2lp) = probe_loop devs False False False
               in io_return (if gen1 \<and> gen2 then Device_Both else if gen1 then Device_Gen1
                    else if gen2 then Device_Gen2 else if fx2lp then Device_Fx2lp_Only else Device_None))"

section \<open>The bus scan\<close>

definition is_gen1 :: "usb_device \<Rightarrow> bool" where
  "is_gen1 d \<longleftrightarrow> ud_desc_ok d \<and> gen1_classify (ud_vid d) (ud_pid d) (ud_bcd d)"

definition is_gen2 :: "usb_device \<Rightarrow> bool" where
  "is_gen2 d \<longleftrightarrow> ud_desc_ok d \<and> device_is_gen2 (ud_vid d) (ud_pid d) (ud_bcd d)"

lemma probe_loop_kinds:
  "\<exists>fx'. probe_loop ds g1 g2 fx = (g1 \<or> list_ex is_gen1 ds, g2 \<or> list_ex is_gen2 ds, fx')"
proof (induction ds arbitrary: g1 g2 fx)
  case (Cons d ds)
  let ?g1 = "gen1_classify (ud_vid d) (ud_pid d) (ud_bcd d)" and ?g2 = "device_is_gen2 (ud_vid d) (ud_pid d) (ud_bcd d)"
  show ?case
  proof (cases "ud_desc_ok d")
    case True
    then have "is_gen1 d \<longleftrightarrow> ?g1" "is_gen2 d \<longleftrightarrow> ?g2" by (simp_all add: is_gen1_def is_gen2_def)
    then show ?thesis
      using Cons.IH [of "g1 \<or> ?g1" "g2 \<or> ?g2" "fx \<or> (ud_vid d = USB_VID_FX2LP \<and> ud_pid d = USB_PID_FX2LP)"] True
      by (auto simp: Let_def)
  next
    case False
    then have "\<not> is_gen1 d" "\<not> is_gen2 d" by (simp_all add: is_gen1_def is_gen2_def)
    then show ?thesis using Cons.IH [of g1 g2 fx] False by simp
  qed
qed simp

lemma device_probe_kind:
  obtains k where "device_probe True (Some ds) = io_return k" "k = Device_Gen1 \<longleftrightarrow> list_ex is_gen1 ds \<and> \<not> list_ex is_gen2 ds"
    "k = Device_Gen2 \<longleftrightarrow> \<not> list_ex is_gen1 ds \<and> list_ex is_gen2 ds"
proof -
  obtain fx where "probe_loop ds False False False = (list_ex is_gen1 ds, list_ex is_gen2 ds, fx)"
    using probe_loop_kinds [of ds False False False] by auto
  then have "device_probe True (Some ds) = io_return (if list_ex is_gen1 ds \<and> list_ex is_gen2 ds then Device_Both
      else if list_ex is_gen1 ds then Device_Gen1 else if list_ex is_gen2 ds then Device_Gen2 else if fx then Device_Fx2lp_Only else Device_None)"
    by (simp add: device_probe_def)
  then show thesis by (rule that) auto
qed

text \<open>The first-generation backend opens a device that the scan counts as one.\<close>

lemma open_finds_gen1:
  assumes "list_ex is_gen1 ds" and "list_all (\<lambda>d. ud_open_ok d \<and> ud_claim_ok d) ds"
  shows "\<exists>d. open_capture_device (Some ds) None = io_return (Some d) \<and> d \<in> set ds \<and> is_gen1 d"
proof -
  let ?m = "usb_match GEN1_VID GEN1_PID GEN1_BCD" and ?l = "usb_match GEN1_VID_LEGACY GEN1_PID_LEGACY 0"
  have m: "?m d \<or> ?l d \<longleftrightarrow> is_gen1 d" if "d \<in> set ds" for d
    using assms(2) that by (auto simp: usb_match_def is_gen1_def gen1_classify_def list_all_iff GEN1_VID_def GEN1_PID_def GEN1_BCD_def
        GEN1_VID_LEGACY_def GEN1_PID_LEGACY_def USB_VID_LEGACY_def USB_PID_LEGACY_def USB_VID_VLLOGIC_def USB_PID_VLLOGIC_def USB_BCD_GEN1_def
        split: if_splits)
  have f: "find P ds = Some d \<Longrightarrow> d \<in> set ds \<and> P d" for P d by (auto simp: find_Some_iff)
  show ?thesis
  proof (cases "find ?m ds")
    case (Some d)
    with f m assms(2) show ?thesis
      by (auto simp: open_capture_device_def usb_open_def list_all_iff)
  next
    case None
    then obtain d where d: "find ?l ds = Some d"
      using assms(1) m by (cases "find ?l ds") (auto simp: list_ex_iff find_None_iff)
    with f m assms(2) None show ?thesis
      by (auto simp: open_capture_device_def usb_open_def list_all_iff)
  qed
qed

end
