(* ===== verification/Libusb.thy ===== *)
theory Libusb
  imports Device Transport
begin

text \<open>
  The libusb backend of the second-generation device, \<open>src/transport_libusb.c\<close>: opening and resetting
  the device, the synchronous reads of the command phase, the pool of 16 IN transfers with the buffer
  swap in its completion callback, the OUT pool, the bandwidth probe and the teardown. libusb is a
  parameter, the table \<open>libusb_api\<close> over the state \<open>'d\<close> of libusb and the device; a call that handles
  events returns the transfers that complete during it. Buffers are addresses into a heap \<open>lp_mem\<close>. A
  transfer in flight owns its buffer: \<open>lp_fault\<close> records that a freed buffer or one owned by the driver
  was read or freed, that a NULL pointer was used, or that an operation ended the process.
\<close>

section \<open>Definitions\<close>

definition IN_TRANSFER_SIZE :: nat where "IN_TRANSFER_SIZE = 256 * 1024"
definition IN_TRANSFER_COUNT :: nat where "IN_TRANSFER_COUNT = 16"
definition SYNC_BUF_SIZE :: nat where "SYNC_BUF_SIZE = 256 * 1024"
definition OUT_POOL_SIZE :: nat where "OUT_POOL_SIZE = 4"
definition OUT_PACKET_MAX :: nat where "OUT_PACKET_MAX = 64"
definition PROBE_COUNT :: nat where "PROBE_COUNT = 8"
definition PROBE_SIZE :: nat where "PROBE_SIZE = 256 * 1024"

subsection \<open>libusb\<close>

datatype usb_rc = RcOk | RcTimeout | RcNoDevice | RcInterrupted | RcError

datatype xfer_id = InXfer nat | OutXfer nat bytes | ProbeXfer nat

text \<open>A completed transfer: its slot, its status and the bytes received.\<close>

datatype usb_event = InDone nat xfer_status bytes | OutDone nat | ProbeDone nat xfer_status bytes

text \<open>
  \<open>la_interrupts\<close> bounds how often in a row libusb reports an interrupted call, and \<open>la_window\<close> is the number
  of rounds the clock allows the probe.
\<close>

record 'd libusb_api =
  la_init :: "'d \<Rightarrow> bool \<times> 'd"
  la_devices :: "'d \<Rightarrow> usb_device list option \<times> 'd"
  la_alloc :: "'d \<Rightarrow> bool \<times> 'd"
  la_submit :: "xfer_id \<Rightarrow> 'd \<Rightarrow> int \<times> 'd"
  la_cancel :: "xfer_id \<Rightarrow> 'd \<Rightarrow> 'd"
  la_bulk :: "nat \<Rightarrow> nat \<Rightarrow> 'd \<Rightarrow> usb_rc \<times> bytes \<times> usb_event list \<times> 'd"
  la_reset :: "'d \<Rightarrow> usb_event list \<times> 'd"
  la_handle :: "nat \<Rightarrow> 'd \<Rightarrow> usb_rc \<times> usb_event list \<times> 'd"
  la_interrupts :: nat
  la_window :: "nat \<Rightarrow> 'd \<Rightarrow> nat"

subsection \<open>State\<close>

record in_transfer =
  it_buffer :: nat
  it_flight :: bool

record out_slot =
  sl_busy :: bool
  sl_transfer :: bool
  sl_data :: bytes

record 'd libusb_priv =
  lp_handle :: "usb_device option"
  lp_in_transfers :: "in_transfer option list"
  lp_in_buffers :: "nat option list"
  lp_spare :: "nat option"
  lp_out_pool :: "out_slot list"
  lp_cmd_buf :: "nat option"
  lp_alive :: bool
  lp_streams_up :: bool
  lp_closing :: bool
  lp_mem :: "nat \<Rightarrow> bytes option"
  lp_next :: nat
  lp_fault :: bool
  lp_lib :: 'd

definition transport_libusb_new :: "'d \<Rightarrow> 'd libusb_priv" where
  "transport_libusb_new d =
     \<lparr>lp_handle = None, lp_in_transfers = replicate IN_TRANSFER_COUNT None, lp_in_buffers = replicate IN_TRANSFER_COUNT None,
      lp_spare = None, lp_out_pool = replicate OUT_POOL_SIZE \<lparr>sl_busy = False, sl_transfer = False, sl_data = []\<rparr>,
      lp_cmd_buf = None, lp_alive = False, lp_streams_up = False, lp_closing = False, lp_mem = (\<lambda>_. None), lp_next = 0,
      lp_fault = False, lp_lib = d\<rparr>"

text \<open>The heap.\<close>

definition buf_alloc :: "'d libusb_priv \<Rightarrow> nat \<times> 'd libusb_priv" where
  "buf_alloc p = (lp_next p, p\<lparr>lp_mem := (lp_mem p)(lp_next p := Some []), lp_next := lp_next p + 1\<rparr>)"

definition driver_owns :: "'d libusb_priv \<Rightarrow> nat \<Rightarrow> bool" where
  "driver_owns p a = list_ex (\<lambda>x. case x of None \<Rightarrow> False | Some t \<Rightarrow> it_flight t \<and> it_buffer t = a) (lp_in_transfers p)"

definition fault_if :: "bool \<Rightarrow> 'd libusb_priv \<Rightarrow> 'd libusb_priv" where
  "fault_if c p = p\<lparr>lp_fault := lp_fault p \<or> c\<rparr>"

definition buf_free :: "nat \<Rightarrow> 'd libusb_priv \<Rightarrow> 'd libusb_priv" where
  "buf_free a p = (fault_if (lp_mem p a = None \<or> driver_owns p a) p)\<lparr>lp_mem := (lp_mem p)(a := None)\<rparr>"

definition buf_read :: "nat \<Rightarrow> nat \<Rightarrow> 'd libusb_priv \<Rightarrow> bytes \<times> 'd libusb_priv" where
  "buf_read a n p =
     (case lp_mem p a of None \<Rightarrow> ([], fault_if True p) | Some bs \<Rightarrow> (take n bs, fault_if (driver_owns p a) p))"

definition with_lib :: "('d \<Rightarrow> 'a \<times> 'd) \<Rightarrow> 'd libusb_priv \<Rightarrow> 'a \<times> 'd libusb_priv" where
  "with_lib f p = (let (x, d) = f (lp_lib p) in (x, p\<lparr>lp_lib := d\<rparr>))"

subsection \<open>Completion callbacks\<close>

definition out_callback :: "nat \<Rightarrow> 'd libusb_priv \<Rightarrow> 'd libusb_priv" where
  "out_callback i p = p\<lparr>lp_out_pool := (lp_out_pool p)[i := (lp_out_pool p ! i)\<lparr>sl_busy := False\<rparr>]\<rparr>"

definition set_in :: "nat \<Rightarrow> nat \<Rightarrow> bool \<Rightarrow> 'd libusb_priv \<Rightarrow> 'd libusb_priv" where
  "set_in i a flight p = p\<lparr>lp_in_transfers := (lp_in_transfers p)[i := Some \<lparr>it_buffer = a, it_flight = flight\<rparr>]\<rparr>"

text \<open>\<open>libusb_submit_transfer\<close> on the i-th IN transfer with the buffer \<open>a\<close>.\<close>

definition submit_in :: "'d libusb_api \<Rightarrow> nat \<Rightarrow> nat \<Rightarrow> 'd libusb_priv \<Rightarrow> int \<times> 'd libusb_priv" where
  "submit_in api i a p =
     (let (rc, p) = with_lib (la_submit api (InXfer i)) p in (rc, set_in i a (0 \<le> rc) p))"

text \<open>The chunks given to the feed callback, and the new state; \<open>mine\<close> is \<open>transfer->buffer\<close>.\<close>

definition in_callback :: "'d libusb_api \<Rightarrow> nat \<Rightarrow> nat \<Rightarrow> xfer_status \<Rightarrow> nat \<Rightarrow> 'd libusb_priv \<Rightarrow> bytes list \<times> 'd libusb_priv" where
  "in_callback api i mine status len p =
     (if lp_closing p then ([], p)
      else if status = XferNoDevice then ([], p\<lparr>lp_alive := False\<rparr>)
      else if status = XferCancelled then ([], p)
      else case lp_spare p of
        Some spare \<Rightarrow>
          if len < IN_TRANSFER_SIZE
          then let p = p\<lparr>lp_spare := Some mine\<rparr>;
                   (rc, p) = submit_in api i spare p
               in if rc < 0 then ([], (set_in i mine False p)\<lparr>lp_alive := False, lp_spare := None\<rparr>)
                  else let (chunk, p) = (if 0 < len then buf_read mine len p else ([], p))
                       in (if 0 < len then [chunk] else [], p\<lparr>lp_spare := Some mine\<rparr>)
          else let (chunk, p) = buf_read mine len p; (rc, p) = submit_in api i mine p
               in ([chunk], if rc < 0 then p\<lparr>lp_alive := False\<rparr> else p)
      | None \<Rightarrow>
          let (chunk, p) = (if 0 < len then buf_read mine len p else ([], p)); (rc, p) = submit_in api i mine p
          in (if 0 < len then [chunk] else [], if rc < 0 then p\<lparr>lp_alive := False\<rparr> else p))"

text \<open>
  libusb completes only transfers that are in flight: the bytes are in the transfer's buffer, the
  transfer is no longer in flight, and its callback runs.
\<close>

definition complete_in :: "nat \<Rightarrow> nat \<Rightarrow> bytes \<Rightarrow> 'd libusb_priv \<Rightarrow> 'd libusb_priv" where
  "complete_in i a data p =
     (let p = fault_if (lp_mem p a = None) p in set_in i a False (p\<lparr>lp_mem := (lp_mem p)(a := Some data)\<rparr>))"

fun run_event :: "'d libusb_api \<Rightarrow> usb_event \<Rightarrow> 'd libusb_priv \<Rightarrow> bytes list \<times> 'd libusb_priv" where
  "run_event api (InDone i status data) p =
     (if i < length (lp_in_transfers p)
      then (case lp_in_transfers p ! i of
              None \<Rightarrow> ([], p)
            | Some t \<Rightarrow> if \<not> it_flight t then ([], p)
                else let data = take IN_TRANSFER_SIZE data
                     in in_callback api i (it_buffer t) status (length data) (complete_in i (it_buffer t) data p))
      else ([], p))"
| "run_event api (OutDone i) p = ([], if i < length (lp_out_pool p) then out_callback i p else p)"
| "run_event api (ProbeDone i status data) p = ([], p)"

fun run_events :: "'d libusb_api \<Rightarrow> usb_event list \<Rightarrow> 'd libusb_priv \<Rightarrow> bytes list \<times> 'd libusb_priv" where
  "run_events api [] p = ([], p)"
| "run_events api (e # es) p = (let (cs, p) = run_event api e p; (ds, p) = run_events api es p in (cs @ ds, p))"

subsection \<open>Starting the pool\<close>

text \<open>One turn of the loop; \<open>n\<close> counts the transfers armed.\<close>

definition arm_in :: "'d libusb_api \<Rightarrow> nat \<Rightarrow> nat \<times> 'd libusb_priv \<Rightarrow> nat \<times> 'd libusb_priv" where
  "arm_in api i s =
     (let (n, p) = s; (a, p) = buf_alloc p;
          p = (if i = 0 \<and> lp_spare p = None then let (b, p) = buf_alloc p in p\<lparr>lp_spare := Some b\<rparr> else p);
          (ok, p) = with_lib (la_alloc api) p
      in if \<not> ok then (n, buf_free a p)
         else let (rc, d) = la_submit api (InXfer i) (lp_lib p); p = p\<lparr>lp_lib := d\<rparr>
              in if rc < 0 then (n, buf_free a p)
                 else (n + 1, set_in i a True (p\<lparr>lp_in_buffers := (lp_in_buffers p)[i := Some a]\<rparr>)))"

definition tl_submit_in_pool :: "'d libusb_api \<Rightarrow> 'd libusb_priv \<Rightarrow> 'd libusb_priv io" where
  "tl_submit_in_pool api p =
     (if lp_handle p = None \<or> lp_streams_up p then io_return p
      else let (armed, p) = fold (arm_in api) [0..<IN_TRANSFER_COUNT] (0, p)
           in if armed = 0 then os_error ''usb: could not arm any IN transfer''
              else io_return (p\<lparr>lp_streams_up := True\<rparr>))"

subsection \<open>Opening, teardown, reset\<close>

text \<open>At most \<open>n\<close> scans of the bus; \<open>None\<close> when the list cannot be read.\<close>

fun scan_bus :: "'d libusb_api \<Rightarrow> nat \<Rightarrow> 'd libusb_priv \<Rightarrow> usb_device option \<times> 'd libusb_priv" where
  "scan_bus api 0 p = (None, p)"
| "scan_bus api (Suc n) p =
     (let (devices, p) = with_lib (la_devices api) p
      in case devices of
           None \<Rightarrow> (None, p)
         | Some devs \<Rightarrow>
             (case find (\<lambda>d. is_gen2 d \<and> ud_open_ok d) devs of
                Some dev \<Rightarrow> (Some dev, p)
              | None \<Rightarrow> scan_bus api n p))"

definition tl_open_handle :: "'d libusb_api \<Rightarrow> 'd libusb_priv \<Rightarrow> bool \<times> 'd libusb_priv" where
  "tl_open_handle api p =
     (let (handle, p) = scan_bus api 50 p
      in case handle of
           None \<Rightarrow> (False, p)
         | Some dev \<Rightarrow>
             let (a, p) = buf_alloc (p\<lparr>lp_handle := Some dev\<rparr>); p = p\<lparr>lp_cmd_buf := Some a\<rparr>
             in if \<not> ud_claim_ok dev then (False, (buf_free a p)\<lparr>lp_cmd_buf := None, lp_handle := None\<rparr>)
                else (True, p))"

definition tl_open :: "'d libusb_api \<Rightarrow> 'd libusb_priv \<Rightarrow> (bool \<times> 'd libusb_priv) io" where
  "tl_open api p =
     (let (ok, p) = with_lib (la_init api) p
      in if \<not> ok then os_error ''libusb_init()''
         else let (ok, p) = tl_open_handle api p
              in if \<not> ok then os_error ''could not open the capture device (VID 1209:PID 6688)''
                 else io_return (True, p\<lparr>lp_alive := True\<rparr>))"

text \<open>\<open>n\<close> calls of \<open>libusb_handle_events_timeout\<close>, whatever they return.\<close>

fun spin_events :: "'d libusb_api \<Rightarrow> nat \<Rightarrow> 'd libusb_priv \<Rightarrow> 'd libusb_priv" where
  "spin_events api 0 p = p"
| "spin_events api (Suc n) p =
     (let (rc, evs, d) = la_handle api 10 (lp_lib p) in spin_events api n (snd (run_events api evs (p\<lparr>lp_lib := d\<rparr>))))"

definition cancel_all :: "'d libusb_api \<Rightarrow> 'd libusb_priv \<Rightarrow> 'd libusb_priv" where
  "cancel_all api p =
     (let p = fold (\<lambda>i p. if sl_transfer (lp_out_pool p ! i) \<and> sl_busy (lp_out_pool p ! i)
                then p\<lparr>lp_lib := la_cancel api (OutXfer i []) (lp_lib p)\<rparr> else p) [0..<OUT_POOL_SIZE] p
      in fold (\<lambda>i p. if lp_in_transfers p ! i \<noteq> None then p\<lparr>lp_lib := la_cancel api (InXfer i) (lp_lib p)\<rparr> else p)
           [0..<IN_TRANSFER_COUNT] p)"

text \<open>libusb forbids freeing a transfer that is in flight.\<close>

definition free_in :: "nat \<Rightarrow> 'd libusb_priv \<Rightarrow> 'd libusb_priv" where
  "free_in i p =
     (if lp_in_transfers p ! i \<noteq> None
      then (let p = fault_if (case lp_in_transfers p ! i of None \<Rightarrow> False | Some t \<Rightarrow> it_flight t) p
            in case lp_in_buffers p ! i of None \<Rightarrow> p | Some a \<Rightarrow> buf_free a p)
             \<lparr>lp_in_transfers := (lp_in_transfers p)[i := None], lp_in_buffers := (lp_in_buffers p)[i := None]\<rparr>
      else p)"

definition free_out :: "out_slot \<Rightarrow> out_slot" where
  "free_out s = s\<lparr>sl_transfer := False, sl_busy := False\<rparr>"

definition tl_teardown_io :: "'d libusb_api \<Rightarrow> 'd libusb_priv \<Rightarrow> 'd libusb_priv" where
  "tl_teardown_io api p =
     (let p = spin_events api 50 (cancel_all api (p\<lparr>lp_closing := True\<rparr>));
          p = fold free_in [0..<IN_TRANSFER_COUNT] p;
          p = p\<lparr>lp_out_pool := map free_out (lp_out_pool p)\<rparr>;
          p = (case lp_cmd_buf p of None \<Rightarrow> p | Some a \<Rightarrow> (buf_free a p)\<lparr>lp_cmd_buf := None\<rparr>)
      in p\<lparr>lp_streams_up := False\<rparr>)"

text \<open>The vendor request 0xE2 is synchronous: libusb runs the callbacks of what completes meanwhile.\<close>

definition vendor_reset :: "'d libusb_api \<Rightarrow> 'd libusb_priv \<Rightarrow> bytes list \<times> 'd libusb_priv" where
  "vendor_reset api p = (let (evs, d) = la_reset api (lp_lib p) in run_events api evs (p\<lparr>lp_lib := d\<rparr>))"

definition tl_reset_device :: "'d libusb_api \<Rightarrow> 'd libusb_priv \<Rightarrow> bool \<times> 'd libusb_priv" where
  "tl_reset_device api p =
     (if lp_handle p = None \<or> lp_streams_up p then (False, p)
      else let (chunks, p) = vendor_reset api p;
               p = (tl_teardown_io api p)\<lparr>lp_handle := None, lp_closing := False, lp_alive := False\<rparr>;
               (ok, p) = tl_open_handle api p
           in if \<not> ok then (False, p) else (True, p\<lparr>lp_alive := True\<rparr>))"

definition tl_close :: "'d libusb_api \<Rightarrow> 'd libusb_priv \<Rightarrow> bytes list \<times> 'd libusb_priv" where
  "tl_close api p =
     (if lp_handle p = None then ([], p)
      else let (chunks, p) = vendor_reset api p in (chunks, (tl_teardown_io api p)\<lparr>lp_handle := None\<rparr>))"

subsection \<open>Reading and writing\<close>

text \<open>A synchronous read; the events that complete meanwhile run their callbacks.\<close>

definition bulk_read :: "'d libusb_api \<Rightarrow> nat \<Rightarrow> 'd libusb_priv \<Rightarrow> usb_rc \<times> bytes \<times> 'd libusb_priv" where
  "bulk_read api ms p =
     (let (rc, data, evs, d) = la_bulk api SYNC_BUF_SIZE ms (lp_lib p)
      in (rc, take SYNC_BUF_SIZE data, snd (run_events api evs (p\<lparr>lp_lib := d\<rparr>))))"

fun discard_reads :: "'d libusb_api \<Rightarrow> nat \<Rightarrow> 'd libusb_priv \<Rightarrow> 'd libusb_priv" where
  "discard_reads api 0 p = p"
| "discard_reads api (Suc k) p =
     (let (rc, data, p) = bulk_read api 20 p
      in if rc = RcTimeout then p
         else if rc = RcNoDevice then p\<lparr>lp_alive := False\<rparr>
         else discard_reads api k p)"

definition tl_discard :: "'d libusb_api \<Rightarrow> 'd libusb_priv \<Rightarrow> 'd libusb_priv" where
  "tl_discard api p =
     (if lp_handle p = None then p
      else let (a, p) = buf_alloc p in buf_free a (discard_reads api 50 p))"

definition tl_stream_mode :: "'d libusb_api \<Rightarrow> 'd libusb_priv \<Rightarrow> 'd libusb_priv io" where
  "tl_stream_mode = tl_submit_in_pool"

definition tl_command_read :: "'d libusb_api \<Rightarrow> nat \<Rightarrow> 'd libusb_priv \<Rightarrow> bool \<times> bytes list \<times> 'd libusb_priv" where
  "tl_command_read api ms p =
     (let (rc, data, p) = bulk_read api ms p;
          p = fault_if (case lp_cmd_buf p of None \<Rightarrow> True | Some a \<Rightarrow> lp_mem p a = None) p;
          fed = (if data = [] then [] else [data])
      in if rc = RcTimeout then (True, fed, p)
         else if rc \<noteq> RcOk then (False, [], p\<lparr>lp_alive := False\<rparr>)
         else (True, fed, p))"

text \<open>The loop around \<open>libusb_handle_events_timeout\<close>, with the number of interruptions bounded.\<close>

fun tl_pump :: "'d libusb_api \<Rightarrow> nat \<Rightarrow> nat \<Rightarrow> 'd libusb_priv \<Rightarrow> bool \<times> bytes list \<times> 'd libusb_priv" where
  "tl_pump api n ms p =
     (if \<not> lp_alive p then (False, [], p)
      else let (rc, evs, d) = la_handle api ms (lp_lib p); (cs, p) = run_events api evs (p\<lparr>lp_lib := d\<rparr>)
           in if rc = RcInterrupted
              then (case n of
                      0 \<Rightarrow> (True, cs, p)
                    | Suc m \<Rightarrow> let (ok, ds, p) = tl_pump api m ms p in (ok, cs @ ds, p))
              else if rc \<noteq> RcOk \<and> rc \<noteq> RcTimeout then (False, cs, p\<lparr>lp_alive := False\<rparr>)
              else (True, cs, p))"

declare tl_pump.simps [simp del]

definition tl_events :: "'d libusb_api \<Rightarrow> nat \<Rightarrow> 'd libusb_priv \<Rightarrow> bool \<times> bytes list \<times> 'd libusb_priv" where
  "tl_events api ms p =
     (if \<not> lp_alive p then (False, [], p)
      else if \<not> lp_streams_up p then tl_command_read api ms p
      else tl_pump api (la_interrupts api) ms p)"

definition tl_write :: "'d libusb_api \<Rightarrow> bytes \<Rightarrow> 'd libusb_priv \<Rightarrow> int \<times> 'd libusb_priv" where
  "tl_write api data p =
     (if OUT_PACKET_MAX < length data then (-1, fault_if True p)
      else case find (\<lambda>i. \<not> sl_busy (lp_out_pool p ! i)) [0..<OUT_POOL_SIZE] of
        None \<Rightarrow> (-1, p)
      | Some i \<Rightarrow>
          let (ok, p) = (if sl_transfer (lp_out_pool p ! i) then (True, p) else with_lib (la_alloc api) p);
              p = fault_if (\<not> ok) p;
              slot = \<lparr>sl_busy = True, sl_transfer = True, sl_data = data\<rparr>;
              (rc, p) = with_lib (la_submit api (OutXfer i data)) (p\<lparr>lp_out_pool := (lp_out_pool p)[i := slot]\<rparr>)
          in if rc < 0 then (rc, p\<lparr>lp_out_pool := (lp_out_pool p)[i := slot\<lparr>sl_busy := False\<rparr>]\<rparr>) else (0, p))"

definition tl_alive :: "'d libusb_priv \<Rightarrow> bool" where "tl_alive p = lp_alive p"


subsection \<open>Bandwidth probe\<close>

text \<open>\<open>pc_tr\<close> holds for each probe transfer its buffer and whether it is in flight.\<close>

record probe_ctx =
  pc_tr :: "(nat \<times> bool) option list"
  pc_bytes :: int
  pc_stop :: bool

definition probe_submit :: "'d libusb_api \<Rightarrow> nat \<Rightarrow> nat \<Rightarrow> probe_ctx \<times> 'd libusb_priv \<Rightarrow> int \<times> probe_ctx \<times> 'd libusb_priv" where
  "probe_submit api i a s =
     (let (pc, p) = s; (rc, p) = with_lib (la_submit api (ProbeXfer i)) p
      in (rc, pc\<lparr>pc_tr := (pc_tr pc)[i := Some (a, 0 \<le> rc)]\<rparr>, p))"

definition probe_in_callback ::
  "'d libusb_api \<Rightarrow> nat \<Rightarrow> nat \<Rightarrow> xfer_status \<Rightarrow> nat \<Rightarrow> probe_ctx \<times> 'd libusb_priv \<Rightarrow> probe_ctx \<times> 'd libusb_priv" where
  "probe_in_callback api i a status len s =
     (let (pc, p) = s;
          pc = (if status = XferCompleted then pc\<lparr>pc_bytes := pc_bytes pc + int len\<rparr> else pc)
      in if status = XferCancelled then (pc, p)
         else if pc_stop pc then (pc, p)
         else snd (probe_submit api i a (pc, p)))"

fun probe_event :: "'d libusb_api \<Rightarrow> usb_event \<Rightarrow> probe_ctx \<times> 'd libusb_priv \<Rightarrow> probe_ctx \<times> 'd libusb_priv" where
  "probe_event api (ProbeDone i status data) (pc, p) =
     (if i < length (pc_tr pc)
      then (case pc_tr pc ! i of
              Some (a, True) \<Rightarrow> probe_in_callback api i a status (length (take PROBE_SIZE data))
                (pc\<lparr>pc_tr := (pc_tr pc)[i := Some (a, False)]\<rparr>, fault_if (lp_mem p a = None) p)
            | _ \<Rightarrow> (pc, p))
      else (pc, p))"
| "probe_event api e (pc, p) = (pc, snd (run_event api e p))"

fun probe_rounds :: "'d libusb_api \<Rightarrow> nat \<Rightarrow> nat \<Rightarrow> probe_ctx \<times> 'd libusb_priv \<Rightarrow> probe_ctx \<times> 'd libusb_priv" where
  "probe_rounds api ms 0 s = s"
| "probe_rounds api ms (Suc n) s =
     (let (pc, p) = s; (rc, evs, d) = la_handle api ms (lp_lib p)
      in probe_rounds api ms n (fold (probe_event api) evs (pc, p\<lparr>lp_lib := d\<rparr>)))"

fun probe_arm :: "'d libusb_api \<Rightarrow> nat list \<Rightarrow> probe_ctx \<times> 'd libusb_priv \<Rightarrow> probe_ctx \<times> 'd libusb_priv" where
  "probe_arm api [] s = s"
| "probe_arm api (i # is) s =
     (let (pc, p) = s; (a, p) = buf_alloc p; (ok, p) = with_lib (la_alloc api) p;
          (rc, s) = probe_submit api i a (pc, fault_if (\<not> ok) p)
      in if rc < 0 then s else probe_arm api is s)"

definition probe_free :: "(nat \<times> bool) option \<Rightarrow> 'd libusb_priv \<Rightarrow> 'd libusb_priv" where
  "probe_free t p = (case t of None \<Rightarrow> p | Some (a, flight) \<Rightarrow> buf_free a (fault_if flight p))"

definition tl_probe_upstream :: "'d libusb_api \<Rightarrow> nat \<Rightarrow> 'd libusb_priv \<Rightarrow> int \<times> 'd libusb_priv" where
  "tl_probe_upstream api window_ms p =
     (if lp_handle p = None then (-1, p)
      else let (pc, p) = probe_arm api [0..<PROBE_COUNT] (\<lparr>pc_tr = replicate PROBE_COUNT None, pc_bytes = 0, pc_stop = False\<rparr>, p);
               (pc, p) = probe_rounds api 20 (la_window api window_ms (lp_lib p)) (pc, p);
               pc = pc\<lparr>pc_stop := True\<rparr>;
               p = fold (\<lambda>i p. if pc_tr pc ! i \<noteq> None then p\<lparr>lp_lib := la_cancel api (ProbeXfer i) (lp_lib p)\<rparr> else p) [0..<PROBE_COUNT] p;
               (pc, p) = probe_rounds api 10 50 (pc, p)
           in (pc_bytes pc, fold probe_free (pc_tr pc) p))"

definition libusb_ops :: "'d libusb_api \<Rightarrow> 'd libusb_priv transport_ops" where
  "libusb_ops api = \<lparr>op_open = tl_open api, op_discard = tl_discard api, op_stream_mode = tl_stream_mode api, op_events = tl_events api,
     op_write = tl_write api, op_alive = tl_alive, op_close = tl_close api, op_probe_upstream = Some (tl_probe_upstream api),
     op_reset_device = Some (tl_reset_device api)\<rparr>"

section \<open>The pool of IN transfers\<close>

text \<open>
  The invariant of the pool, with \<open>own\<close> the buffers it was given: transfers and buffers are set in the
  same slots; the buffers of the transfers and the spare one are different members of \<open>own\<close>; the
  array names different members of \<open>own\<close>; and beside \<open>own\<close> only the command buffer is allocated.
\<close>

definition att :: "'d libusb_priv \<Rightarrow> nat \<rightharpoonup> nat" where
  "att p i = (if i < length (lp_in_transfers p) then map_option it_buffer (lp_in_transfers p ! i) else None)"

definition named :: "'d libusb_priv \<Rightarrow> nat \<rightharpoonup> nat" where
  "named p i = (if i < length (lp_in_buffers p) then lp_in_buffers p ! i else None)"

definition pool_inv :: "nat set \<Rightarrow> 'd libusb_priv \<Rightarrow> bool" where
  "pool_inv own p \<longleftrightarrow>
     length (lp_in_transfers p) = IN_TRANSFER_COUNT \<and> length (lp_in_buffers p) = IN_TRANSFER_COUNT \<and> (\<forall>i. att p i = None \<longleftrightarrow> named p i = None)
     \<and> inj_on (att p) (dom (att p)) \<and> ran (att p) \<subseteq> own \<and> set_option (lp_spare p) \<subseteq> own - ran (att p)
     \<and> inj_on (named p) (dom (named p)) \<and> ran (named p) \<subseteq> own
     \<and> dom (lp_mem p) = own \<union> set_option (lp_cmd_buf p) \<and> set_option (lp_cmd_buf p) \<inter> own = {}"

text \<open>What no event touches.\<close>

definition same_frame :: "'d libusb_priv \<Rightarrow> 'd libusb_priv \<Rightarrow> bool" where
  "same_frame p q \<longleftrightarrow> lp_fault q = lp_fault p \<and> lp_handle q = lp_handle p \<and> lp_in_buffers q = lp_in_buffers p \<and> lp_cmd_buf q = lp_cmd_buf p
     \<and> lp_streams_up q = lp_streams_up p \<and> lp_closing q = lp_closing p"

lemma same_frame_trans: "same_frame p q \<Longrightarrow> same_frame q r \<Longrightarrow> same_frame p r"
  by (simp add: same_frame_def)

lemma same_frame_refl [simp]: "same_frame p p"
  by (simp add: same_frame_def)

lemma driver_owns_iff:
  "driver_owns p a \<longleftrightarrow> (\<exists>i < length (lp_in_transfers p). \<exists>t. lp_in_transfers p ! i = Some t \<and> it_flight t \<and> it_buffer t = a)"
  by (simp add: driver_owns_def list_ex_length) (auto split: option.splits)

lemma with_lib_fields: "snd (with_lib f p) = p\<lparr>lp_lib := snd (f (lp_lib p))\<rparr>" "fst (with_lib f p) = fst (f (lp_lib p))"
  by (simp_all add: with_lib_def split: prod.split)

lemma submit_in_eq: "submit_in api i a p = (fst (la_submit api (InXfer i) (lp_lib p)),
    set_in i a (0 \<le> fst (la_submit api (InXfer i) (lp_lib p))) (p\<lparr>lp_lib := snd (la_submit api (InXfer i) (lp_lib p))\<rparr>))"
  by (simp add: submit_in_def with_lib_def split: prod.split)

lemma set_in_fields:
  "lp_in_buffers (set_in i a f p) = lp_in_buffers p" "lp_spare (set_in i a f p) = lp_spare p" "lp_mem (set_in i a f p) = lp_mem p"
  "lp_cmd_buf (set_in i a f p) = lp_cmd_buf p" "length (lp_in_transfers (set_in i a f p)) = length (lp_in_transfers p)"
  "lp_fault (set_in i a f p) = lp_fault p" "lp_lib (set_in i a f p) = lp_lib p" "lp_alive (set_in i a f p) = lp_alive p"
  "lp_closing (set_in i a f p) = lp_closing p" "same_frame p (set_in i a f p)" "named (set_in i a f p) = named p"
  by (simp_all add: set_in_def same_frame_def named_def fun_eq_iff)

lemma att_set_in: "i < length (lp_in_transfers p) \<Longrightarrow> att (set_in i a f p) = (att p)(i \<mapsto> a)"
  by (auto simp: att_def set_in_def fun_eq_iff nth_list_update)

lemma att_cong: "lp_in_transfers q = lp_in_transfers p \<Longrightarrow> att q = att p"
  "lp_in_buffers q = lp_in_buffers p \<Longrightarrow> named q = named p"
  by (simp_all add: att_def named_def fun_eq_iff)

lemma pool_inv_cong:
  "pool_inv own p \<Longrightarrow> lp_in_transfers q = lp_in_transfers p \<Longrightarrow> lp_in_buffers q = lp_in_buffers p \<Longrightarrow> lp_cmd_buf q = lp_cmd_buf p \<Longrightarrow>
     lp_spare q = lp_spare p \<or> lp_spare q = None \<Longrightarrow> dom (lp_mem q) = dom (lp_mem p) \<Longrightarrow> pool_inv own q"
  using att_cong [of q p] by (elim disjE) (simp_all add: pool_inv_def)

lemma att_less: "att p i = Some a \<Longrightarrow> i < length (lp_in_transfers p)"
  by (simp add: att_def split: if_splits)

lemma pool_inv_keep:
  assumes "pool_inv own p" and "att p i = Some a"
  shows "pool_inv own (set_in i a f p)"
proof -
  have "att (set_in i a f p) = att p" using att_set_in [OF att_less [OF assms(2)]] assms(2) by (simp add: fun_upd_idem)
  then show ?thesis using assms(1) by (simp add: pool_inv_def set_in_fields)
qed

lemma inj_swap:
  assumes "inj_on m (dom m)" and "m i = Some a" and "b \<notin> ran m"
  shows "inj_on (m(i \<mapsto> b)) (dom (m(i \<mapsto> b)))" and "a \<notin> ran (m(i \<mapsto> b)) \<or> a = b" and "ran (m(i \<mapsto> b)) \<subseteq> insert b (ran m)"
proof -
  show "inj_on (m(i \<mapsto> b)) (dom (m(i \<mapsto> b)))" using assms by (auto simp: inj_on_def ran_def dom_def)
  show "a \<notin> ran (m(i \<mapsto> b)) \<or> a = b" using assms by (auto simp: inj_on_def ran_def dom_def split: if_splits)
  show "ran (m(i \<mapsto> b)) \<subseteq> insert b (ran m)" by (auto simp: ran_def)
qed

lemma pool_inv_swap:
  assumes "pool_inv own p" and "att p i = Some a" and "lp_spare p = Some b"
  shows "pool_inv own (set_in i b f (p\<lparr>lp_spare := Some a\<rparr>))"
proof -
  let ?q = "set_in i b f (p\<lparr>lp_spare := Some a\<rparr>)"
  have i: "i < length (lp_in_transfers p)" using assms(2) by (rule att_less)
  have n: "\<exists>y. named p i = Some y" using assms(1,2) unfolding pool_inv_def by (metis option.distinct(1) option.exhaust)
  have b: "b \<in> own" "b \<notin> ran (att p)" and a: "a \<in> own" using assms by (auto simp: pool_inv_def intro: ranI)
  then have "a \<noteq> b" using assms(2) by (auto intro: ranI)
  moreover have "att ?q = (att p)(i \<mapsto> b)" using i att_set_in [of i "p\<lparr>lp_spare := Some a\<rparr>"] att_cong [of "p\<lparr>lp_spare := Some a\<rparr>" p] by simp
  moreover have "dom ((att p)(i \<mapsto> b)) = dom (att p)" using assms(2) by auto
  moreover have "named (p\<lparr>lp_spare := Some a\<rparr>) = named p" by (simp add: named_def fun_eq_iff)
  moreover have "inj_on (att p) (dom (att p))" "ran (att p) \<subseteq> own" using assms(1) by (simp_all add: pool_inv_def)
  note inj_swap [OF this(1) assms(2) b(2)] and this(2)
  ultimately show ?thesis using assms(1) a b(1) n unfolding pool_inv_def set_in_fields by auto
qed

text \<open>A buffer in hand: the transfer that had it is not in flight.\<close>

lemma driver_owns_att:
  assumes "pool_inv own p" and "att p i = Some a"
  shows "driver_owns p a \<longleftrightarrow> it_flight (the (lp_in_transfers p ! i))"
proof
  assume "driver_owns p a"
  then obtain j t where j: "j < length (lp_in_transfers p)" "lp_in_transfers p ! j = Some t" "it_flight t" "it_buffer t = a"
    by (auto simp: driver_owns_iff)
  then have "att p j = Some a" by (simp add: att_def)
  then have "j = i" using assms by (auto simp: pool_inv_def inj_on_def dom_def)
  with j show "it_flight (the (lp_in_transfers p ! i))" by simp
next
  assume "it_flight (the (lp_in_transfers p ! i))"
  then show "driver_owns p a" using assms(2) by (auto simp: driver_owns_iff att_def split: if_splits)
qed

lemma driver_owns_spare: "pool_inv own p \<Longrightarrow> lp_spare p = Some a \<Longrightarrow> \<not> driver_owns p a"
proof
  assume p: "pool_inv own p" "lp_spare p = Some a" "driver_owns p a"
  then obtain j t where "j < length (lp_in_transfers p)" "lp_in_transfers p ! j = Some t" "it_buffer t = a" by (auto simp: driver_owns_iff)
  then have "att p j = Some a" by (simp add: att_def)
  with p show False by (auto simp: pool_inv_def intro: ranI)
qed

lemma buf_free_ok: "lp_mem p a \<noteq> None \<Longrightarrow> \<not> driver_owns p a \<Longrightarrow> buf_free a p = p\<lparr>lp_mem := (lp_mem p)(a := None)\<rparr>"
  by (auto simp: buf_free_def fault_if_def)

lemma buf_read_ok: "lp_mem p a = Some bs \<Longrightarrow> \<not> driver_owns p a \<Longrightarrow> buf_read a n p = (take n bs, p)"
  by (simp add: buf_read_def fault_if_def)

text \<open>
  The completion callback, when the transfer has just completed with its bytes in the buffer \<open>a\<close>: the
  invariant is kept and no buffer is touched that is free or owned by the driver. If the pool is not
  closing, the status is not fatal and the transfer can be submitted again, it is in flight again and
  exactly its bytes are fed.
\<close>

definition flying :: "'d libusb_priv \<Rightarrow> nat \<Rightarrow> bool" where
  "flying p i \<longleftrightarrow> i < length (lp_in_transfers p) \<and> (\<exists>t. lp_in_transfers p ! i = Some t \<and> it_flight t)"

lemma flying_set_in: "i < length (lp_in_transfers p) \<Longrightarrow> flying (set_in i a f p) j \<longleftrightarrow> (if j = i then f else flying p j)"
  by (auto simp: flying_def set_in_def nth_list_update)

definition callback_ok :: "'d libusb_api \<Rightarrow> nat set \<Rightarrow> nat \<Rightarrow> xfer_status \<Rightarrow> bytes \<Rightarrow> 'd libusb_priv \<Rightarrow> bytes list \<times> 'd libusb_priv \<Rightarrow> bool" where
  "callback_ok api own i status data p r \<longleftrightarrow> pool_inv own (snd r) \<and> same_frame p (snd r)
    \<and> (\<not> lp_closing p \<and> status \<notin> {XferNoDevice, XferCancelled} \<and> (\<forall>x d. 0 \<le> fst (la_submit api x d)) \<longrightarrow>
        concat (fst r) = data \<and> lp_alive (snd r) = lp_alive p \<and> (\<forall>j. flying (snd r) j \<longleftrightarrow> j = i \<or> flying p j))"

lemma set_in_set_in: "set_in i a f (set_in i b g p) = set_in i a f p"
  by (simp add: set_in_def)

lemma flying_cong: "lp_in_transfers q = lp_in_transfers p \<Longrightarrow> flying q = flying p"
  by (simp add: flying_def fun_eq_iff)

lemma att_fields [simp]:
  "att (p\<lparr>lp_alive := x\<rparr>) = att p" "att (p\<lparr>lp_lib := d\<rparr>) = att p" "att (p\<lparr>lp_fault := x\<rparr>) = att p" "att (p\<lparr>lp_out_pool := os\<rparr>) = att p" "att (p\<lparr>lp_closing := x\<rparr>) = att p" "att (p\<lparr>lp_streams_up := x\<rparr>) = att p" "att (p\<lparr>lp_handle := h\<rparr>) = att p" "att (p\<lparr>lp_spare := a\<rparr>) = att p" "att (p\<lparr>lp_mem := m\<rparr>) = att p" "att (p\<lparr>lp_cmd_buf := c\<rparr>) = att p"
  by (simp_all add: att_def fun_eq_iff)

lemma named_fields [simp]:
  "named (p\<lparr>lp_alive := x\<rparr>) = named p" "named (p\<lparr>lp_lib := d\<rparr>) = named p" "named (p\<lparr>lp_fault := x\<rparr>) = named p" "named (p\<lparr>lp_out_pool := os\<rparr>) = named p" "named (p\<lparr>lp_closing := x\<rparr>) = named p" "named (p\<lparr>lp_streams_up := x\<rparr>) = named p" "named (p\<lparr>lp_handle := h\<rparr>) = named p" "named (p\<lparr>lp_spare := a\<rparr>) = named p" "named (p\<lparr>lp_mem := m\<rparr>) = named p" "named (p\<lparr>lp_cmd_buf := c\<rparr>) = named p"
  by (simp_all add: named_def fun_eq_iff)

lemma pool_inv_fields [simp]:
  "pool_inv own (p\<lparr>lp_alive := x\<rparr>) = pool_inv own p" "pool_inv own (p\<lparr>lp_lib := d\<rparr>) = pool_inv own p"
  "pool_inv own (p\<lparr>lp_fault := x\<rparr>) = pool_inv own p" "pool_inv own (p\<lparr>lp_out_pool := os\<rparr>) = pool_inv own p"
  "pool_inv own (p\<lparr>lp_closing := x\<rparr>) = pool_inv own p" "pool_inv own (p\<lparr>lp_streams_up := x\<rparr>) = pool_inv own p"
  "pool_inv own (p\<lparr>lp_handle := h\<rparr>) = pool_inv own p" "pool_inv own (fault_if x p) = pool_inv own p"
  by (simp_all add: pool_inv_def fault_if_def)

text \<open>The two ways back to the driver: with the buffer kept, and with the spare buffer instead.\<close>

lemma resubmit_same:
  assumes "pool_inv own p" and "att p i = Some a"
  shows "let (rc, q) = submit_in api i a p; r = (if rc < 0 then q\<lparr>lp_alive := False\<rparr> else q)
    in pool_inv own r \<and> same_frame p r \<and> (0 \<le> rc \<longrightarrow> lp_alive r = lp_alive p \<and> (\<forall>j. flying r j \<longleftrightarrow> j = i \<or> flying p j))"
proof -
  let ?rc = "fst (la_submit api (InXfer i) (lp_lib p))" and ?q = "p\<lparr>lp_lib := snd (la_submit api (InXfer i) (lp_lib p))\<rparr>"
  have "pool_inv own ?q" "att ?q i = Some a" using assms by (auto intro: pool_inv_cong simp: att_cong [of ?q p])
  then have inv: "pool_inv own (set_in i a f ?q)" for f by (rule pool_inv_keep)
  have "flying (set_in i a f ?q) j \<longleftrightarrow> (if j = i then f else flying p j)" for f j
    using flying_set_in [of i ?q] att_less [OF assms(2)] by (simp add: flying_cong [of ?q p])
  moreover have "same_frame p (set_in i a f ?q)" for f by (simp add: same_frame_def set_in_def)
  ultimately show ?thesis
    using inv by (auto simp: submit_in_eq set_in_fields same_frame_def intro: pool_inv_cong)
qed

lemma resubmit_spare:
  assumes "pool_inv own p" and "att p i = Some a" and "lp_spare p = Some b" and "submit_in api i b (p\<lparr>lp_spare := Some a\<rparr>) = (rc, q)"
  shows "rc < 0 \<Longrightarrow> pool_inv own ((set_in i a False q)\<lparr>lp_alive := False, lp_spare := None\<rparr>)" and "pool_inv own q" and "lp_spare q = Some a"
    and "same_frame p q" and "lp_mem q = lp_mem p" and "lp_alive q = lp_alive p" and "0 \<le> rc \<Longrightarrow> flying q j \<longleftrightarrow> j = i \<or> flying p j"
proof -
  let ?d = "snd (la_submit api (InXfer i) (lp_lib p))"
  have "q = set_in i b (0 \<le> rc) (p\<lparr>lp_spare := Some a, lp_lib := ?d\<rparr>)" using assms(4) by (auto simp: submit_in_eq)
  also have "p\<lparr>lp_spare := Some a, lp_lib := ?d\<rparr> = p\<lparr>lp_lib := ?d, lp_spare := Some a\<rparr>" by simp
  finally have q: "q = set_in i b (0 \<le> rc) (p\<lparr>lp_lib := ?d, lp_spare := Some a\<rparr>)" .
  have p: "pool_inv own (p\<lparr>lp_lib := ?d\<rparr>)" "att (p\<lparr>lp_lib := ?d\<rparr>) i = Some a" "lp_spare (p\<lparr>lp_lib := ?d\<rparr>) = Some b"
    using assms(1-3) by (auto intro: pool_inv_cong simp: att_cong [of "p\<lparr>lp_lib := ?d\<rparr>" p])
  show "pool_inv own q" unfolding q using p by (rule pool_inv_swap)
  have "(set_in i a False q)\<lparr>lp_alive := False, lp_spare := None\<rparr> = (set_in i a False (p\<lparr>lp_lib := ?d\<rparr>))\<lparr>lp_alive := False, lp_spare := None\<rparr>"
    by (simp add: q set_in_def)
  then show "pool_inv own ((set_in i a False q)\<lparr>lp_alive := False, lp_spare := None\<rparr>)"
    using pool_inv_keep [OF p(1,2), of False] by (auto intro: pool_inv_cong)
  show "lp_spare q = Some a" "same_frame p q" "lp_mem q = lp_mem p" "lp_alive q = lp_alive p"
    by (simp_all add: q set_in_def same_frame_def)
  show "0 \<le> rc \<Longrightarrow> flying q j \<longleftrightarrow> j = i \<or> flying p j"
    using flying_set_in [of i "(p\<lparr>lp_lib := ?d\<rparr>)\<lparr>lp_spare := Some a\<rparr>"] att_less [OF assms(2)]
    by (simp add: q flying_cong [of "(p\<lparr>lp_lib := ?d\<rparr>)\<lparr>lp_spare := Some a\<rparr>" p])
qed

lemma in_callback_effect:
  assumes inv: "pool_inv own p" and a: "att p i = Some a" "\<not> flying p i" and m: "lp_mem p a = Some data"
  shows "callback_ok api own i status data p (in_callback api i a status (length data) p)"
proof (cases "lp_closing p \<or> status \<in> {XferNoDevice, XferCancelled}")
  case True
  then show ?thesis using inv by (auto simp: in_callback_def callback_ok_def same_frame_def intro: pool_inv_cong)
next
  case go: False
  show ?thesis
  proof (cases "\<exists>b. lp_spare p = Some b \<and> length data < IN_TRANSFER_SIZE")
    case True
    then obtain b where b: "lp_spare p = Some b" "length data < IN_TRANSFER_SIZE" by blast
    obtain rc q where q: "submit_in api i b (p\<lparr>lp_spare := Some a\<rparr>) = (rc, q)" by (cases "submit_in api i b (p\<lparr>lp_spare := Some a\<rparr>)")
    note r = resubmit_spare [OF inv a(1) b(1) q]
    have "buf_read a (length data) q = (data, q)" using r(2,3,5) m by (simp add: buf_read_ok driver_owns_spare)
    then have "in_callback api i a status (length data) p = (if rc < 0 then ([], (set_in i a False q)\<lparr>lp_alive := False, lp_spare := None\<rparr>)
        else (if 0 < length data then [data] else [], q))"
      using go b q r(3) by (auto simp: in_callback_def)
    moreover have "rc < 0 \<Longrightarrow> \<not> (\<forall>x d. 0 \<le> fst (la_submit api x d))" using q by (auto simp: submit_in_eq not_le)
    moreover have "same_frame p ((set_in i a False q)\<lparr>lp_alive := False, lp_spare := None\<rparr>)" using r(4) by (simp add: same_frame_def set_in_def)
    ultimately show ?thesis using r by (auto simp: callback_ok_def)
  next
    case False
    have "\<not> driver_owns p a"
      using driver_owns_att [OF inv a(1)] a att_less [OF a(1)] by (auto simp: flying_def att_def)
    then have rd: "buf_read a (length data) p = (data, p)" using m by (simp add: buf_read_ok)
    obtain rc q where q: "submit_in api i a p = (rc, q)" by (cases "submit_in api i a p")
    have "in_callback api i a status (length data) p = (if 0 < length data then [data] else [], if rc < 0 then q\<lparr>lp_alive := False\<rparr> else q)"
      using False go rd q by (auto simp: in_callback_def IN_TRANSFER_SIZE_def split: option.split)
    moreover have "rc < 0 \<Longrightarrow> \<not> (\<forall>x d. 0 \<le> fst (la_submit api x d))" using q by (auto simp: submit_in_eq not_le)
    ultimately show ?thesis using resubmit_same [OF inv a(1), of api] by (auto simp: callback_ok_def q)
  qed
qed

lemma complete_in_effect:
  assumes "pool_inv own p" and "lp_in_transfers p ! i = Some t" and "i < length (lp_in_transfers p)"
  shows "pool_inv own (complete_in i (it_buffer t) data p)" and "same_frame p (complete_in i (it_buffer t) data p)"
    and "att (complete_in i (it_buffer t) data p) i = Some (it_buffer t)" and "lp_mem (complete_in i (it_buffer t) data p) (it_buffer t) = Some data"
    and "flying (complete_in i (it_buffer t) data p) j \<longleftrightarrow> j \<noteq> i \<and> flying p j" and "lp_alive (complete_in i (it_buffer t) data p) = lp_alive p"
proof -
  let ?a = "it_buffer t" and ?q = "p\<lparr>lp_mem := (lp_mem p)(it_buffer t := Some data)\<rparr>"
  have att: "att p i = Some ?a" using assms(2,3) by (simp add: att_def)
  then have own: "?a \<in> own" using assms(1) by (auto simp: pool_inv_def intro: ranI)
  then have "?a \<in> dom (lp_mem p)" using assms(1) by (simp add: pool_inv_def)
  then obtain bs where "lp_mem p ?a = Some bs" by blast
  then have c: "complete_in i ?a data p = set_in i ?a False ?q" by (simp add: complete_in_def fault_if_def)
  have "pool_inv own ?q" using assms(1) own by (auto intro: pool_inv_cong simp: pool_inv_def)
  then show "pool_inv own (complete_in i ?a data p)" unfolding c by (rule pool_inv_keep) (simp add: att)
  show "same_frame p (complete_in i ?a data p)" "lp_mem (complete_in i ?a data p) ?a = Some data" "lp_alive (complete_in i ?a data p) = lp_alive p"
    by (simp_all add: c same_frame_def set_in_def)
  show "att (complete_in i ?a data p) i = Some ?a" using assms(3) by (simp add: c att_set_in)
  show "flying (complete_in i ?a data p) j \<longleftrightarrow> j \<noteq> i \<and> flying p j"
    using flying_set_in [of i ?q] assms(3) by (simp add: c flying_cong [of ?q p])
qed

text \<open>An event that brings data: the transfer is in flight and has not failed for good.\<close>

fun event_data :: "usb_event \<Rightarrow> bytes" where
  "event_data (InDone i status data) = take IN_TRANSFER_SIZE data"
| "event_data e = []"

fun good_event :: "'d libusb_priv \<Rightarrow> usb_event \<Rightarrow> bool" where
  "good_event p (InDone i status data) \<longleftrightarrow> flying p i \<and> status \<notin> {XferNoDevice, XferCancelled}"
| "good_event p e \<longleftrightarrow> True"

definition all_submitted :: "'d libusb_api \<Rightarrow> bool" where
  "all_submitted api \<longleftrightarrow> (\<forall>x d. 0 \<le> fst (la_submit api x d))"

lemma run_event_effect:
  assumes "pool_inv own p"
  shows "pool_inv own (snd (run_event api e p)) \<and> same_frame p (snd (run_event api e p))
    \<and> (\<not> lp_closing p \<and> all_submitted api \<and> good_event p e \<longrightarrow>
        concat (fst (run_event api e p)) = event_data e \<and> lp_alive (snd (run_event api e p)) = lp_alive p
        \<and> flying (snd (run_event api e p)) = flying p)"
proof (cases e)
  case (InDone i status data)
  let ?data = "take IN_TRANSFER_SIZE data"
  show ?thesis
  proof (cases "flying p i")
    case True
    then obtain t where t: "i < length (lp_in_transfers p)" "lp_in_transfers p ! i = Some t" "it_flight t" by (auto simp: flying_def)
    let ?q = "complete_in i (it_buffer t) ?data p"
    note c = complete_in_effect [OF assms t(2,1), of ?data]
    have cb: "callback_ok api own i status ?data ?q (in_callback api i (it_buffer t) status (length ?data) ?q)"
      by (rule in_callback_effect [OF c(1,3) _ c(4)]) (simp add: c(5))
    have "lp_closing ?q = lp_closing p" using c(2) by (simp add: same_frame_def)
    then show ?thesis using cb c(2,5,6) t True
      by (auto simp: InDone Let_def callback_ok_def all_submitted_def fun_eq_iff intro: same_frame_trans)
  next
    case False
    then have "run_event api e p = ([], p)" by (auto simp: InDone flying_def split: option.split)
    with False assms show ?thesis by (simp add: InDone)
  qed
next
  case (OutDone i)
  have "lp_in_transfers (out_callback i p) = lp_in_transfers p" by (simp add: out_callback_def)
  then show ?thesis using assms by (auto simp: OutDone out_callback_def same_frame_def flying_def fun_eq_iff)
qed (use assms in auto)

lemma good_event_cong: "flying q = flying p \<Longrightarrow> good_event q = good_event p"
proof -
  assume f: "flying q = flying p"
  have "good_event q e = good_event p e" for e by (cases e) (simp_all add: f)
  then show ?thesis by auto
qed

lemma run_events_effect:
  assumes "pool_inv own p"
  shows "pool_inv own (snd (run_events api es p)) \<and> same_frame p (snd (run_events api es p))
    \<and> (\<not> lp_closing p \<and> all_submitted api \<and> list_all (good_event p) es \<longrightarrow>
        concat (fst (run_events api es p)) = concat (map event_data es) \<and> lp_alive (snd (run_events api es p)) = lp_alive p
        \<and> flying (snd (run_events api es p)) = flying p)"
  using assms
proof (induction es arbitrary: p)
  case (Cons e es)
  obtain cs q where q: "run_event api e p = (cs, q)" by (cases "run_event api e p")
  obtain ds r where r: "run_events api es q = (ds, r)" by (cases "run_events api es q")
  note e = run_event_effect [OF Cons.prems, of api e, unfolded q fst_conv snd_conv]
  then have "pool_inv own q" by blast
  note i = Cons.IH [OF this, unfolded r fst_conv snd_conv]
  have cl: "lp_closing q = lp_closing p" using e by (simp add: same_frame_def)
  show ?case using e i cl good_event_cong [of q p] same_frame_trans [of p q r] by (simp add: q r)
qed simp


subsection \<open>Starting the pool\<close>

text \<open>
  The state between two turns of the arming loop: slots below \<open>k\<close> may be armed, every armed transfer is
  in flight with the buffer its slot names, and the pool owns these buffers and the spare one.
\<close>

definition arming :: "nat \<Rightarrow> 'd libusb_priv \<Rightarrow> nat \<times> 'd libusb_priv \<Rightarrow> bool" where
  "arming k p0 s \<longleftrightarrow> (let (n, p) = s in
     pool_inv (set_option (lp_spare p) \<union> ran (named p)) p \<and> att p = named p \<and> set_option (lp_spare p) \<inter> ran (named p) = {}
     \<and> (\<forall>a \<in> dom (lp_mem p). a < lp_next p) \<and> (\<forall>i \<ge> k. named p i = None) \<and> (\<forall>i. named p i \<noteq> None \<longrightarrow> flying p i)
     \<and> (n = 0 \<longleftrightarrow> named p = Map.empty) \<and> (lp_spare p = None \<longleftrightarrow> k = 0) \<and> lp_fault p = lp_fault p0 \<and> lp_cmd_buf p = lp_cmd_buf p0
     \<and> lp_handle p = lp_handle p0 \<and> lp_closing p = lp_closing p0 \<and> lp_alive p = lp_alive p0)"

definition command_phase :: "'d libusb_priv \<Rightarrow> bool" where
  "command_phase p \<longleftrightarrow> lp_in_transfers p = replicate IN_TRANSFER_COUNT None \<and> lp_in_buffers p = replicate IN_TRANSFER_COUNT None
     \<and> lp_spare p = None \<and> dom (lp_mem p) = set_option (lp_cmd_buf p) \<and> (\<forall>a \<in> dom (lp_mem p). a < lp_next p)"

lemma arming_start: "command_phase p \<Longrightarrow> arming 0 p (0, p)"
proof -
  assume c: "command_phase p"
  then have "att p = Map.empty" "named p = Map.empty" by (auto simp: command_phase_def att_def named_def fun_eq_iff)
  with c show ?thesis by (simp add: arming_def pool_inv_def command_phase_def)
qed

text \<open>The allocations of one turn.\<close>

definition arm_alloc :: "nat \<Rightarrow> 'd libusb_priv \<Rightarrow> 'd libusb_priv" where
  "arm_alloc i p =
     (let p = snd (buf_alloc p) in if i = 0 \<and> lp_spare p = None then (snd (buf_alloc p))\<lparr>lp_spare := Some (lp_next p)\<rparr> else p)"

lemma arm_in_eq:
  "arm_in api k (n, p) = (let a = lp_next p; (ok, p) = with_lib (la_alloc api) (arm_alloc k p)
      in if \<not> ok then (n, buf_free a p)
         else let (rc, d) = la_submit api (InXfer k) (lp_lib p); p = p\<lparr>lp_lib := d\<rparr>
              in if rc < 0 then (n, buf_free a p)
                 else (n + 1, set_in k a True (p\<lparr>lp_in_buffers := (lp_in_buffers p)[k := Some a]\<rparr>)))"
  by (simp add: arm_in_def arm_alloc_def buf_alloc_def Let_def)

lemma arm_alloc_fields:
  "lp_in_transfers (arm_alloc i p) = lp_in_transfers p" "lp_in_buffers (arm_alloc i p) = lp_in_buffers p" "lp_fault (arm_alloc i p) = lp_fault p"
  "lp_cmd_buf (arm_alloc i p) = lp_cmd_buf p" "lp_handle (arm_alloc i p) = lp_handle p" "lp_closing (arm_alloc i p) = lp_closing p"
  "lp_alive (arm_alloc i p) = lp_alive p" "att (arm_alloc i p) = att p" "named (arm_alloc i p) = named p" "flying (arm_alloc i p) = flying p"
  by (auto simp: arm_alloc_def buf_alloc_def Let_def att_def named_def flying_def fun_eq_iff)

lemma arm_alloc_mem:
  assumes "\<forall>a \<in> dom (lp_mem p). a < lp_next p"
  shows "dom (lp_mem (arm_alloc i p)) = insert (lp_next p) (dom (lp_mem p) \<union> (if i = 0 \<and> lp_spare p = None then {lp_next p + 1} else {}))"
    and "\<forall>a \<in> dom (lp_mem (arm_alloc i p)). a < lp_next (arm_alloc i p)"
    and "lp_spare (arm_alloc i p) = (if i = 0 \<and> lp_spare p = None then Some (lp_next p + 1) else lp_spare p)"
proof -
  have "a < lp_next p" if "lp_mem p a = Some y" for a y using assms that by (simp add: domI)
  then show "\<forall>a \<in> dom (lp_mem (arm_alloc i p)). a < lp_next (arm_alloc i p)"
    by (fastforce simp: arm_alloc_def buf_alloc_def Let_def split: if_splits)
qed (auto simp: arm_alloc_def buf_alloc_def Let_def)

lemma inj_extend: "inj_on m (dom m) \<Longrightarrow> a \<notin> ran m \<Longrightarrow> inj_on (m(k \<mapsto> a)) (dom (m(k \<mapsto> a)))"
  by (auto simp: inj_on_def ran_def dom_def)

text \<open>The two ways a turn ends.\<close>

lemma arming_failed:
  assumes "arming k p0 (n, p)" and "p1 = (arm_alloc k p)\<lparr>lp_lib := d\<rparr>"
  shows "arming (k + 1) p0 (n, buf_free (lp_next p) p1)"
proof -
  have A: "pool_inv (set_option (lp_spare p) \<union> ran (named p)) p" "\<forall>a \<in> dom (lp_mem p). a < lp_next p" "lp_spare p = None \<longleftrightarrow> k = 0"
    "set_option (lp_spare p) \<inter> ran (named p) = {}"
    using assms(1) by (simp_all add: arming_def)
  note f = arm_alloc_fields [of k p] and m = arm_alloc_mem [OF A(2), of k]
  let ?own = "set_option (lp_spare p) \<union> ran (named p)" and ?own' = "set_option (lp_spare p1) \<union> ran (named p)"
  have D: "dom (lp_mem p) = ?own \<union> set_option (lp_cmd_buf p)" using A(1) by (simp add: pool_inv_def)
  then have fresh: "lp_next p \<notin> ?own" "lp_next p + 1 \<notin> ?own" "lp_next p \<notin> set_option (lp_cmd_buf p)" "lp_next p + 1 \<notin> set_option (lp_cmd_buf p)"
    using A(2) by (metis UnI1 UnI2 less_irrefl less_add_one less_trans)+
  have sp: "set_option (lp_spare p1) = (if k = 0 then {lp_next p + 1} else set_option (lp_spare p))" using m(3) A(3) by (simp add: assms(2))
  have fl: "lp_mem p1 (lp_next p) \<noteq> None" "\<not> driver_owns p1 (lp_next p)"
  proof -
    show "lp_mem p1 (lp_next p) \<noteq> None" using m(1) by (auto simp: assms(2))
    show "\<not> driver_owns p1 (lp_next p)"
    proof
      assume "driver_owns p1 (lp_next p)"
      then obtain i t where "i < length (lp_in_transfers p)" "lp_in_transfers p ! i = Some t" "it_buffer t = lp_next p"
        by (auto simp: driver_owns_iff assms(2) f)
      then have "att p i = Some (lp_next p)" by (simp add: att_def)
      then have "lp_next p \<in> ran (att p)" by (rule ranI)
      with A(1) fresh(1) show False by (auto simp: pool_inv_def)
    qed
  qed
  then have q: "buf_free (lp_next p) p1 = p1\<lparr>lp_mem := (lp_mem p1)(lp_next p := None)\<rparr>" by (rule buf_free_ok)
  define q where "q = buf_free (lp_next p) p1"
  have "dom (lp_mem q) = dom (lp_mem (arm_alloc k p)) - {lp_next p}" unfolding q_def q by (simp add: assms(2))
  then have dom: "dom (lp_mem q) = ?own' \<union> set_option (lp_cmd_buf p)" using m(1) D fresh sp A(3) by auto
  have qf: "lp_in_transfers q = lp_in_transfers p" "lp_in_buffers q = lp_in_buffers p" "lp_spare q = lp_spare p1" "lp_cmd_buf q = lp_cmd_buf p"
    "lp_fault q = lp_fault p" "lp_handle q = lp_handle p" "lp_closing q = lp_closing p" "lp_alive q = lp_alive p" "lp_next q = lp_next (arm_alloc k p)"
    unfolding q_def q by (simp_all add: assms(2) f)
  have qm: "att q = att p" "named q = named p" "flying q = flying p" 
    by (rule att_cong(1) [OF qf(1)] att_cong(2) [OF qf(2)] flying_cong [OF qf(1)])+
  have att: "ran (att p) \<subseteq> ?own" using A(1) by (simp add: pool_inv_def)
  have "att p = named p" using assms(1) by (simp add: arming_def)
  then have "pool_inv ?own' q" using A(1,3,4) dom sp fresh unfolding pool_inv_def qm qf by (auto split: if_splits)
  moreover have "\<forall>a \<in> dom (lp_mem q). a < lp_next q" using m(2) \<open>dom (lp_mem q) = _ - _\<close> by (simp add: qf)
  moreover have "lp_spare q \<noteq> None" using m(3) A(3) by (auto simp: qf assms(2))
  moreover have "set_option (lp_spare q) \<inter> ran (named p) = {}" using sp fresh A(4) by (auto simp: qf)
  ultimately have "arming (k + 1) p0 (n, q)" using assms(1) by (simp add: arming_def qm) (simp add: qf)
  then show ?thesis by (simp add: q_def)
qed

lemma arming_armed:
  assumes "arming k p0 (n, p)" and "k < IN_TRANSFER_COUNT" and "p1 = (arm_alloc k p)\<lparr>lp_lib := d\<rparr>" and "a = lp_next p"
  shows "arming (k + 1) p0 (n + 1, set_in k a True (p1\<lparr>lp_in_buffers := (lp_in_buffers p1)[k := Some a]\<rparr>))"
proof -
  have A: "pool_inv (set_option (lp_spare p) \<union> ran (named p)) p" "\<forall>a \<in> dom (lp_mem p). a < lp_next p" "lp_spare p = None \<longleftrightarrow> k = 0"
    "set_option (lp_spare p) \<inter> ran (named p) = {}" "att p = named p" "named p k = None"
    using assms(1) by (simp_all add: arming_def)
  note f = arm_alloc_fields [of k p] and m = arm_alloc_mem [OF A(2), of k, folded assms(4)]
  have len: "length (lp_in_transfers p) = IN_TRANSFER_COUNT" "length (lp_in_buffers p) = IN_TRANSFER_COUNT" using A(1) by (simp_all add: pool_inv_def)
  have D: "dom (lp_mem p) = set_option (lp_spare p) \<union> ran (named p) \<union> set_option (lp_cmd_buf p)" using A(1) by (simp add: pool_inv_def)
  then have fresh: "a \<notin> ran (named p)" "a + 1 \<notin> ran (named p)" "a \<notin> set_option (lp_cmd_buf p)" "a + 1 \<notin> set_option (lp_cmd_buf p)" "a \<notin> set_option (lp_spare p)"
    using A(2) assms(4) by (metis Un_iff less_irrefl less_add_one less_trans)+
  define q where "q = set_in k a True (p1\<lparr>lp_in_buffers := (lp_in_buffers p1)[k := Some a]\<rparr>)"
  have qf: "lp_spare q = lp_spare (arm_alloc k p)" "lp_cmd_buf q = lp_cmd_buf p" "lp_mem q = lp_mem (arm_alloc k p)"
    "lp_fault q = lp_fault p" "lp_handle q = lp_handle p" "lp_closing q = lp_closing p" "lp_alive q = lp_alive p" "lp_next q = lp_next (arm_alloc k p)"
    "length (lp_in_transfers q) = IN_TRANSFER_COUNT" "length (lp_in_buffers q) = IN_TRANSFER_COUNT"
    by (simp_all add: q_def assms(3) f set_in_def len)
  have nm: "named q = (named p)(k \<mapsto> a)"
    using assms(2) len by (auto simp: q_def assms(3) set_in_def named_def f fun_eq_iff nth_list_update)
  have "att q = (att p)(k \<mapsto> a)" using assms(2) len by (auto simp: q_def assms(3) set_in_def att_def f fun_eq_iff nth_list_update)
  then have at: "att q = (named p)(k \<mapsto> a)" by (simp add: A(5))
  have fl: "flying q j \<longleftrightarrow> j = k \<or> flying p j" for j
    using assms(2) len by (auto simp: q_def assms(3) set_in_def flying_def f nth_list_update)
  have rn: "ran ((named p)(k \<mapsto> a)) = insert a (ran (named p))" using A(6) by simp
  have sp: "set_option (lp_spare q) = (if k = 0 then {a + 1} else set_option (lp_spare p))" using m(3) A(3) by (simp add: qf)
  have dm: "dom (lp_mem q) = set_option (lp_spare q) \<union> insert a (ran (named p)) \<union> set_option (lp_cmd_buf p)"
    using m(1) D sp A(3) by (auto simp: qf(3))
  have inj: "inj_on ((named p)(k \<mapsto> a)) (dom ((named p)(k \<mapsto> a)))" using A(1) fresh by (intro inj_extend) (simp_all add: pool_inv_def)
  have cmd: "set_option (lp_cmd_buf p) \<inter> (set_option (lp_spare p) \<union> ran (named p)) = {}" using A(1) by (simp add: pool_inv_def)
  have dis: "set_option (lp_spare q) \<inter> insert a (ran (named p)) = {}" using sp fresh A(4) by auto
  have "pool_inv (set_option (lp_spare q) \<union> insert a (ran (named p))) q"
    unfolding pool_inv_def nm at rn qf(2,9,10) using inj dm dis cmd sp fresh by (auto split: if_splits)
  moreover have "lp_spare q \<noteq> None" using m(3) A(3) by (auto simp: qf)
  moreover have "\<forall>i \<ge> k + 1. ((named p)(k \<mapsto> a)) i = None" "\<forall>i. ((named p)(k \<mapsto> a)) i \<noteq> None \<longrightarrow> flying q i"
    using assms(1) by (auto simp: arming_def fl)
  moreover have "(named p)(k \<mapsto> a) \<noteq> Map.empty" by (auto simp: fun_eq_iff)
  ultimately have "arming (k + 1) p0 (n + 1, q)" using assms(1) dis m(2) unfolding arming_def nm at rn split by (simp add: nm at rn qf)
  then show ?thesis by (simp add: q_def)
qed

lemma arming_step:
  assumes "arming k p0 s" and "k < IN_TRANSFER_COUNT"
  shows "arming (k + 1) p0 (arm_in api k s)"
proof -
  obtain n p where s: "s = (n, p)" by (cases s)
  let ?p = "arm_alloc k p"
  let ?d = "snd (la_alloc api (lp_lib ?p))"
  have "with_lib (la_alloc api) ?p = (fst (la_alloc api (lp_lib ?p)), ?p\<lparr>lp_lib := ?d\<rparr>)" by (simp add: with_lib_def split: prod.split)
  then show ?thesis
    using arming_failed [OF assms(1) [unfolded s] refl] arming_armed [OF assms(1) [unfolded s] assms(2) refl refl]
    by (auto simp: s arm_in_eq Let_def split: prod.split)
qed

lemma arming_loop: "arming 0 p0 s \<Longrightarrow> k \<le> IN_TRANSFER_COUNT \<Longrightarrow> arming k p0 (fold (arm_in api) [0..<k] s)"
  by (induction k) (simp_all add: arming_step [where k = "_ :: nat", simplified])

text \<open>The pool in service: it owns the buffers of its slots and one more, \<open>S\<close>.\<close>

definition streaming :: "nat \<Rightarrow> 'd libusb_priv \<Rightarrow> bool" where
  "streaming S p \<longleftrightarrow> pool_inv (insert S (ran (named p))) p \<and> S \<notin> ran (named p)"

lemma stream_mode_streams:
  assumes "command_phase p" and "lp_handle p \<noteq> None" and "\<not> lp_streams_up p" and "tl_stream_mode api p = io_return q"
  obtains S where "streaming S q" "lp_fault q = lp_fault p" "lp_closing q = lp_closing p" "lp_streams_up q" "lp_handle q = lp_handle p"
    "lp_alive q = lp_alive p" "\<exists>i. flying q i"
proof -
  obtain n r where r: "fold (arm_in api) [0..<IN_TRANSFER_COUNT] (0, p) = (n, r)" by (cases "fold (arm_in api) [0..<IN_TRANSFER_COUNT] (0, p)")
  have a: "arming IN_TRANSFER_COUNT p (n, r)" using arming_loop [OF arming_start [OF assms(1)] order_refl, of api] unfolding r .
  have q: "n \<noteq> 0" "q = r\<lparr>lp_streams_up := True\<rparr>"
    using assms(2-4) by (auto simp: tl_stream_mode_def tl_submit_in_pool_def r os_error_def split: if_splits)
  obtain S where S: "lp_spare r = Some S" using a by (auto simp: arming_def IN_TRANSFER_COUNT_def)
  obtain i where i: "named r i \<noteq> None" using a q(1) by (auto simp: arming_def fun_eq_iff)
  have "flying r i" using a i by (auto simp: arming_def)
  then have "flying q i" by (simp add: q(2) flying_def)
  then show thesis using a S by (intro that [of S]) (auto simp: arming_def streaming_def q(2))
qed

lemma streaming_events: "streaming S p \<Longrightarrow> streaming S (snd (run_events api es p)) \<and> same_frame p (snd (run_events api es p))"
  using run_events_effect [of "insert S (ran (named p))" p api es] att_cong(2) [of "snd (run_events api es p)" p]
  by (auto simp: streaming_def same_frame_def)

subsection \<open>Teardown\<close>

lemma closing_feeds_nothing: "lp_closing p \<Longrightarrow> concat (fst (run_events api es p)) = [] \<and> lp_closing (snd (run_events api es p))"
proof (induction es arbitrary: p)
  case (Cons e es)
  have c: "concat (fst (run_event api e p)) = [] \<and> lp_closing (snd (run_event api e p))"
    using Cons.prems
    by (cases e) (auto simp: in_callback_def complete_in_def set_in_def fault_if_def out_callback_def Let_def split: option.split)
  obtain cs q where "run_event api e p = (cs, q)" by (cases "run_event api e p")
  moreover obtain ds r where "run_events api es q = (ds, r)" by (cases "run_events api es q")
  ultimately show ?case using c Cons.IH [of q] by auto
qed simp

lemma cancel_all_lib: "\<exists>d. cancel_all api p = p\<lparr>lp_lib := d\<rparr>"
proof -
  have f: "\<exists>d. fold (\<lambda>i p. if P i p then p\<lparr>lp_lib := g i (lp_lib p)\<rparr> else p) is p = p\<lparr>lp_lib := d\<rparr>"
    for P :: "nat \<Rightarrow> 'a libusb_priv \<Rightarrow> bool" and g "is" p
  proof (induction "is" arbitrary: p)
    case Nil
    show ?case by (intro exI [of _ "lp_lib p"]) simp
  next
    case (Cons i "is")
    from Cons.IH [of "p\<lparr>lp_lib := g i (lp_lib p)\<rparr>"] Cons.IH [of p] show ?case by auto
  qed
  obtain d where d: "fold (\<lambda>i p. if sl_transfer (lp_out_pool p ! i) \<and> sl_busy (lp_out_pool p ! i)
      then p\<lparr>lp_lib := la_cancel api (OutXfer i []) (lp_lib p)\<rparr> else p) [0..<OUT_POOL_SIZE] p = p\<lparr>lp_lib := d\<rparr>"
    using f [of "\<lambda>i p. sl_transfer (lp_out_pool p ! i) \<and> sl_busy (lp_out_pool p ! i)" "\<lambda>i. la_cancel api (OutXfer i [])" "[0..<OUT_POOL_SIZE]" p] by blast
  show ?thesis unfolding cancel_all_def Let_def d
    using f [of "\<lambda>i p. lp_in_transfers p ! i \<noteq> None" "\<lambda>i. la_cancel api (InXfer i)" "[0..<IN_TRANSFER_COUNT]" "p\<lparr>lp_lib := d\<rparr>"] by simp
qed

lemma spin_events_streaming: "streaming S p \<Longrightarrow> streaming S (spin_events api n p) \<and> same_frame p (spin_events api n p)"
proof (induction n arbitrary: p)
  case (Suc n)
  obtain rc evs d where h: "la_handle api 10 (lp_lib p) = (rc, evs, d)" by (cases "la_handle api 10 (lp_lib p)")
  have "streaming S (p\<lparr>lp_lib := d\<rparr>)" using Suc.prems by (simp add: streaming_def)
  then have e: "streaming S (snd (run_events api evs (p\<lparr>lp_lib := d\<rparr>)))" "same_frame p (snd (run_events api evs (p\<lparr>lp_lib := d\<rparr>)))"
    using streaming_events [of S "p\<lparr>lp_lib := d\<rparr>" api evs] by (auto simp: same_frame_def)
  from Suc.IH [OF e(1)] e(2) show ?case by (auto simp: h intro: same_frame_trans)
qed simp

text \<open>
  Freeing the slots below \<open>k\<close>. Which buffers are gone does not depend on the transfers; a fault arises
  if one of these transfers is in flight, and only if some transfer is.
\<close>

definition freed :: "nat \<Rightarrow> 'd libusb_priv \<Rightarrow> 'd libusb_priv \<Rightarrow> bool" where
  "freed k u q \<longleftrightarrow> length (lp_in_transfers q) = IN_TRANSFER_COUNT \<and> length (lp_in_buffers q) = IN_TRANSFER_COUNT
     \<and> (\<forall>j < IN_TRANSFER_COUNT. lp_in_transfers q ! j = (if j < k then None else lp_in_transfers u ! j)
          \<and> lp_in_buffers q ! j = (if j < k then None else lp_in_buffers u ! j))
     \<and> dom (lp_mem q) = dom (lp_mem u) - {a. \<exists>j < k. named u j = Some a} \<and> lp_cmd_buf q = lp_cmd_buf u
     \<and> (lp_fault u \<or> (\<exists>j < k. flying u j) \<longrightarrow> lp_fault q) \<and> (lp_fault q \<longrightarrow> lp_fault u \<or> (\<exists>j. flying u j))"

lemma freed_step:
  assumes inv: "pool_inv own u" and k: "k < IN_TRANSFER_COUNT" and q: "freed k u q"
  shows "freed (k + 1) u (free_in k q)"
proof -
  have len: "length (lp_in_transfers u) = IN_TRANSFER_COUNT" "length (lp_in_buffers u) = IN_TRANSFER_COUNT" using inv by (simp_all add: pool_inv_def)
  have same: "lp_in_transfers u ! k = None \<longleftrightarrow> lp_in_buffers u ! k = None"
  proof -
    have "att u k = None \<longleftrightarrow> named u k = None" using inv by (simp add: pool_inv_def)
    then show ?thesis using k len by (simp add: att_def named_def)
  qed
  have at: "lp_in_transfers q ! k = lp_in_transfers u ! k" "lp_in_buffers q ! k = lp_in_buffers u ! k" using q k by (simp_all add: freed_def)
  show ?thesis
  proof (cases "lp_in_transfers u ! k")
    case None
    then have "\<not> flying u k" "named u k = None" using same k len by (simp_all add: flying_def named_def)
    then show ?thesis using q None same at by (auto simp: freed_def free_in_def less_Suc_eq)
  next
    case (Some t)
    then obtain a where a: "lp_in_buffers u ! k = Some a" using same by auto
    then have nm: "named u k = Some a" using k len by (simp add: named_def)
    have fl: "flying u k \<longleftrightarrow> it_flight t" using Some k len by (simp add: flying_def)
    have "a \<in> dom (lp_mem u)" using nm inv by (auto simp: pool_inv_def intro: ranI)
    moreover have "named u j \<noteq> Some a" if "j < k" for j
    proof
      assume j: "named u j = Some a"
      have "inj_on (named u) (dom (named u))" using inv by (simp add: pool_inv_def)
      from inj_onD [OF this, of j k] j nm that show False by (simp add: domI)
    qed
    ultimately have "a \<in> dom (lp_mem q)" using q by (auto simp: freed_def)
    then obtain y where "lp_mem q a = Some y" by blast
    moreover have "\<exists>j. flying u j" if "driver_owns q a"
    proof -
      obtain j t' where j: "j < length (lp_in_transfers q)" "lp_in_transfers q ! j = Some t'" "it_flight t'"
        using \<open>driver_owns q a\<close> by (auto simp: driver_owns_iff)
      then have "j < IN_TRANSFER_COUNT" "lp_in_transfers u ! j = Some t'" using q by (auto simp: freed_def split: if_splits)
      with j len show ?thesis by (auto simp: flying_def)
    qed
    moreover have "driver_owns (fault_if b p) = driver_owns p" for b and p :: "'a libusb_priv" by (simp add: driver_owns_def fault_if_def fun_eq_iff)
    moreover have f: "free_in k q = (buf_free a (fault_if (it_flight t) q))
        \<lparr>lp_in_transfers := (lp_in_transfers q)[k := None], lp_in_buffers := (lp_in_buffers q)[k := None]\<rparr>"
      using Some a at by (simp add: free_in_def fault_if_def)
    ultimately show ?thesis using q nm fl k
      by (auto simp: freed_def f buf_free_def fault_if_def nth_list_update less_Suc_eq)
  qed
qed

lemma freed_all: "pool_inv own u \<Longrightarrow> k \<le> IN_TRANSFER_COUNT \<Longrightarrow> freed k u (fold free_in [0..<k] u)"
proof (induction k)
  case 0
  then show ?case by (simp add: freed_def pool_inv_def)
next
  case (Suc k)
  then show ?case using freed_step [of own u k] by simp
qed

lemma teardown_effect:
  assumes "streaming S p" and "\<not> lp_fault p"
    and "u = spin_events api 50 (cancel_all api (p\<lparr>lp_closing := True\<rparr>))" and "v = (tl_teardown_io api p)\<lparr>lp_handle := None\<rparr>"
  shows "(lp_fault v \<longleftrightarrow> (\<exists>i. flying u i)) \<and> dom (lp_mem v) = {S}"
proof -
  define p1 where "p1 = p\<lparr>lp_closing := True\<rparr>"
  obtain d where d: "cancel_all api p1 = p1\<lparr>lp_lib := d\<rparr>" using cancel_all_lib [of api p1] by (rule exE)
  have p1: "streaming S (p1\<lparr>lp_lib := d\<rparr>)" "\<not> lp_fault p1" "lp_cmd_buf p1 = lp_cmd_buf p" using assms(1,2) by (simp_all add: p1_def streaming_def)
  have "u = spin_events api 50 (p1\<lparr>lp_lib := d\<rparr>)" by (simp add: assms(3) d flip: p1_def)
  then have u: "pool_inv (insert S (ran (named u))) u" "S \<notin> ran (named u)" "\<not> lp_fault u" "lp_cmd_buf u = lp_cmd_buf p"
    using spin_events_streaming [OF p1(1), of api 50] p1(2,3) by (auto simp: streaming_def same_frame_def)
  define q where "q = fold free_in [0..<IN_TRANSFER_COUNT] u"
  have q: "freed IN_TRANSFER_COUNT u q" unfolding q_def using freed_all [OF u(1) order_refl] .
  have "flying u i \<longleftrightarrow> i < IN_TRANSFER_COUNT \<and> flying u i" for i using u(1) by (auto simp: flying_def pool_inv_def)
  then have "(\<exists>i. flying u i) \<longleftrightarrow> (\<exists>i < IN_TRANSFER_COUNT. flying u i)" by blast
  then have fault: "lp_fault q \<longleftrightarrow> (\<exists>i. flying u i)" using q u(3) by (auto simp: freed_def)
  have "{a. \<exists>j < IN_TRANSFER_COUNT. named u j = Some a} = ran (named u)"
    using u(1) by (auto simp: ran_def named_def pool_inv_def split: if_splits)
  then have m: "dom (lp_mem q) = insert S (set_option (lp_cmd_buf p))" "S \<notin> set_option (lp_cmd_buf p)"
    using q u(1,2,4) by (auto simp: freed_def pool_inv_def)
  have none: "lp_in_transfers q ! j = None" if "j < length (lp_in_transfers q)" for j using q that by (simp add: freed_def)
  then have "\<not> driver_owns (q\<lparr>lp_out_pool := x\<rparr>) a" for x a by (auto simp: driver_owns_iff)
  moreover have "lp_cmd_buf q = lp_cmd_buf p" using q u(4) by (simp add: freed_def)
  moreover have "lp_mem q a \<noteq> None" if "lp_cmd_buf p = Some a" for a using m(1) that by auto
  ultimately have e: "(case lp_cmd_buf q of None \<Rightarrow> x | Some a \<Rightarrow> (buf_free a x)\<lparr>lp_cmd_buf := None\<rparr>)
      = x\<lparr>lp_cmd_buf := None, lp_mem := (lp_mem q) |` (- set_option (lp_cmd_buf p))\<rparr>" if "x = q\<lparr>lp_out_pool := y\<rparr>" for x y
    using that by (cases "lp_cmd_buf p") (auto simp: buf_free_ok restrict_map_def fun_eq_iff)
  have "v = q\<lparr>lp_out_pool := map free_out (lp_out_pool q), lp_cmd_buf := None,
      lp_mem := (lp_mem q) |` (- set_option (lp_cmd_buf p)), lp_streams_up := False, lp_handle := None\<rparr>"
    unfolding assms(4) tl_teardown_io_def Let_def assms(3) [symmetric] q_def [symmetric]
    using e [OF refl, of "map free_out (lp_out_pool q)"] by auto
  then show ?thesis using fault m by auto
qed

section \<open>Properties\<close>

text \<open>
  C23. The pool of IN transfers: once it is started, no sequence of completions, whatever their status
  and whatever fails, makes a callback read or hand over a buffer that is free or that the driver may
  write. As long as transfers can be submitted again and none fails for good, the bytes given to the
  feed callback are those of the completed transfers, in order, none lost and none twice, although
  each buffer is back with the driver before its bytes are parsed; and every transfer is in flight again.
\<close>

theorem in_pool_lossless:
  assumes "command_phase p" and "lp_handle p \<noteq> None" and "\<not> lp_streams_up p" and "\<not> lp_closing p" and "\<not> lp_fault p"
    and "tl_stream_mode api p = io_return q" and "run_events api es q = (chunks, r)"
  shows "\<not> lp_fault r \<and> (all_submitted api \<and> list_all (good_event q) es \<longrightarrow> concat chunks = concat (map event_data es) \<and> flying r = flying q)"
proof -
  obtain S where q: "streaming S q" "lp_fault q = lp_fault p" "lp_closing q = lp_closing p"
    by (rule stream_mode_streams [OF assms(1-3,6)])
  then show ?thesis using run_events_effect [of "insert S (ran (named q))" q api es] assms(4,5,7)
    by (auto simp: streaming_def same_frame_def)
qed

text \<open>
  C29. Closing: the teardown frees every buffer once, and it is safe exactly if the 50 rounds of events
  it waits have completed every transfer: it does not wait longer. One buffer, of those the pool swaps,
  is never freed. With the closing flag set nothing is fed, but the reset request is sent before: every
  byte that arrives during that request is still handed to the feed callback.
\<close>

theorem close_exact:
  assumes "command_phase p" and "lp_handle p \<noteq> None" and "\<not> lp_streams_up p" and "\<not> lp_closing p" and "\<not> lp_fault p"
    and "tl_stream_mode api p = io_return q" and "run_events api es q = (chunks, r)"
    and "la_reset api (lp_lib r) = (evs, d)" and "tl_close api r = (late, v)"
    and "u = spin_events api 50 (cancel_all api ((snd (run_events api evs (r\<lparr>lp_lib := d\<rparr>)))\<lparr>lp_closing := True\<rparr>))"
  shows "(lp_fault v \<longleftrightarrow> (\<exists>i. flying u i)) \<and> (\<exists>S. dom (lp_mem v) = {S})
    \<and> concat (fst (run_events api rest (r\<lparr>lp_lib := d', lp_closing := True\<rparr>))) = []
    \<and> (all_submitted api \<and> list_all (good_event r) evs \<longrightarrow> concat late = concat (map event_data evs))"
proof -
  obtain S where q: "streaming S q" "lp_fault q = lp_fault p" "lp_handle q = lp_handle p" "lp_closing q = lp_closing p"
    by (rule stream_mode_streams [OF assms(1-3,6)])
  have r: "streaming S r" "same_frame q r" using streaming_events [OF q(1), of api es] assms(7) by simp_all
  let ?r = "r\<lparr>lp_lib := d\<rparr>"
  define w where "w = snd (run_events api evs ?r)"
  have r': "streaming S ?r" using r(1) by (simp add: streaming_def)
  have w: "streaming S w" "same_frame ?r w" using streaming_events [OF r', of api evs] by (simp_all add: w_def)
  have "lp_handle r \<noteq> None" "\<not> lp_closing r" "\<not> lp_fault w" using r(2) w(2) q assms(2,4,5) by (simp_all add: same_frame_def)
  then have c: "late = fst (run_events api evs ?r)" "v = (tl_teardown_io api w)\<lparr>lp_handle := None\<rparr>"
    using assms(8,9) by (auto simp: tl_close_def vendor_reset_def w_def split: prod.splits)
  have "good_event ?r e = good_event r e" for e by (cases e) (simp_all add: flying_def)
  then have "concat late = concat (map event_data evs)" if "all_submitted api" "list_all (good_event r) evs"
    using run_events_effect [of "insert S (ran (named ?r))" ?r api evs] r' that \<open>\<not> lp_closing r\<close> by (simp add: c(1) streaming_def list_all_iff)
  with teardown_effect [OF w(1) \<open>\<not> lp_fault w\<close> assms(10) [folded w_def] c(2)] show ?thesis
    using closing_feeds_nothing [of "r\<lparr>lp_lib := d', lp_closing := True\<rparr>" api rest] by auto
qed

subsection \<open>A device for the witnesses\<close>

text \<open>
  A libusb that always succeeds: it completes the transfers of a script, one list per call, and
  completes everything when it is cancelled.
\<close>

definition script_api :: "(usb_event list list \<times> nat list) libusb_api" where
  "script_api = \<lparr>la_init = (\<lambda>d. (True, d)), la_devices = (\<lambda>d. (Some [], d)), la_alloc = (\<lambda>d. (True, d)), la_submit = (\<lambda>x d. (0, d)),
     la_cancel = (\<lambda>x d. case x of InXfer i \<Rightarrow> (fst d, snd d @ [i]) | _ \<Rightarrow> d), la_bulk = (\<lambda>n ms d. (RcTimeout, [], [], d)), la_reset = (\<lambda>d. ([], d)),
     la_handle = (\<lambda>ms d. case d of
        ([], is) \<Rightarrow> (RcTimeout, map (\<lambda>i. InDone i XferCancelled []) is, ([], []))
      | (es # ess, is) \<Rightarrow> (RcOk, es, (ess, is))), la_interrupts = 0, la_window = (\<lambda>ms d. 0)\<rparr>"

definition opened :: "'d \<Rightarrow> 'd libusb_priv" where
  "opened d = (transport_libusb_new d)\<lparr>lp_handle := Some \<lparr>ud_desc_ok = True, ud_vid = 0x1209, ud_pid = 0x6688, ud_bcd = 0x0602,
     ud_open_ok = True, ud_claim_ok = True\<rparr>, lp_cmd_buf := Some 0, lp_mem := [0 \<mapsto> []], lp_next := 1, lp_alive := True\<rparr>"

lemma opened_ok: "command_phase (opened d)" "lp_handle (opened d) \<noteq> None" "\<not> lp_streams_up (opened d)" "\<not> lp_closing (opened d)" "\<not> lp_fault (opened d)"
  by (simp_all add: command_phase_def opened_def transport_libusb_new_def)

lemma script_submits: "all_submitted script_api"
  by (simp add: all_submitted_def script_api_def)

text \<open>If libusb refuses nothing, the whole pool is armed.\<close>

lemma arm_in_full:
  assumes "\<forall>d. fst (la_alloc api d)" and "all_submitted api" and "arming k p0 (n, p)" and "k < IN_TRANSFER_COUNT"
  shows "fst (arm_in api k (n, p)) = n + 1 \<and> (\<forall>i. named (snd (arm_in api k (n, p))) i \<noteq> None \<longleftrightarrow> i = k \<or> named p i \<noteq> None)"
proof -
  have len: "length (lp_in_buffers p) = IN_TRANSFER_COUNT" using assms(3) by (simp add: arming_def pool_inv_def)
  obtain d0 where a: "la_alloc api (lp_lib (arm_alloc k p)) = (True, d0)" using assms(1) by (metis (full_types) prod.collapse)
  obtain rc d where r: "la_submit api (InXfer k) d0 = (rc, d)" by (cases "la_submit api (InXfer k) d0")
  then have "0 \<le> rc" using assms(2) by (metis all_submitted_def fst_conv)
  then have "arm_in api k (n, p) = (n + 1, set_in k (lp_next p) True ((arm_alloc k p)\<lparr>lp_lib := d, lp_in_buffers := (lp_in_buffers p)[k := Some (lp_next p)]\<rparr>))"
    by (simp add: arm_in_eq with_lib_def a r arm_alloc_fields Let_def)
  then show ?thesis using assms(4) len by (auto simp: named_def set_in_def nth_list_update arm_alloc_fields)
qed

lemma arm_loop_full:
  assumes "\<forall>d. fst (la_alloc api d)" and "all_submitted api" and "command_phase p"
  shows "k \<le> IN_TRANSFER_COUNT \<Longrightarrow> fst (fold (arm_in api) [0..<k] (0, p)) = k \<and> (\<forall>i. named (snd (fold (arm_in api) [0..<k] (0, p))) i \<noteq> None \<longleftrightarrow> i < k)"
proof (induction k)
  case 0
  show ?case using assms(3) by (auto simp: command_phase_def named_def)
next
  case (Suc k)
  obtain n q where q: "fold (arm_in api) [0..<k] (0, p) = (n, q)" by (cases "fold (arm_in api) [0..<k] (0, p)")
  have "arming k p (n, q)" using arming_loop [OF arming_start [OF assms(3)], of k api] Suc.prems by (simp add: q)
  from arm_in_full [OF assms(1,2) this] Suc show ?case by (auto simp: q)
qed

lemma opened_streams:
  assumes "\<forall>d. fst (la_alloc api d)" and "all_submitted api"
  obtains q where "tl_stream_mode api (opened d) = io_return q" "\<forall>i < 16. flying q i" "lp_alive q"
proof -
  obtain n r where r: "fold (arm_in api) [0..<IN_TRANSFER_COUNT] (0, opened d) = (n, r)"
    by (cases "fold (arm_in api) [0..<IN_TRANSFER_COUNT] (0, opened d)")
  have n: "n = IN_TRANSFER_COUNT" "named r i \<noteq> None \<longleftrightarrow> i < IN_TRANSFER_COUNT" for i
    using arm_loop_full [OF assms opened_ok(1) [of d] order_refl] by (simp_all add: r)
  have a: "arming IN_TRANSFER_COUNT (opened d) (n, r)" using arming_loop [OF arming_start [OF opened_ok(1) [of d]] order_refl, of api] unfolding r .
  then have f: "flying r i" if "i < 16" for i using that n(2) [of i] by (auto simp: arming_def IN_TRANSFER_COUNT_def)
  have "n \<noteq> 0" using n(1) by (simp add: IN_TRANSFER_COUNT_def)
  then have "tl_stream_mode api (opened d) = io_return (r\<lparr>lp_streams_up := True\<rparr>)"
    using opened_ok [of d] by (auto simp: tl_stream_mode_def tl_submit_in_pool_def r)
  then show thesis by (rule that) (use f a in \<open>auto simp: flying_def arming_def opened_def\<close>)
qed

lemma script_allocs: "\<forall>d. fst (la_alloc script_api d)"
  by (simp add: script_api_def)

theorem in_pool_lossless_witness:
  "\<exists>q chunks r. tl_stream_mode script_api (opened ([], [])) = io_return q
    \<and> run_events script_api [InDone 3 XferCompleted [1, 2], InDone 0 XferTimedOut [3], InDone 3 XferOther [], InDone 3 XferCompleted [4]] q = (chunks, r)
    \<and> concat chunks = [1, 2, 3, 4] \<and> \<not> lp_fault r"
proof -
  obtain q where q: "tl_stream_mode script_api (opened ([], [])) = io_return q" "\<forall>i < 16. flying q i"
    by (rule opened_streams [OF script_allocs script_submits])
  let ?es = "[InDone 3 XferCompleted [1, 2], InDone 0 XferTimedOut [3], InDone 3 XferOther [], InDone 3 XferCompleted [4]]"
  obtain chunks r where "run_events script_api ?es q = (chunks, r)" by (cases "run_events script_api ?es q")
  with in_pool_lossless [OF opened_ok q(1) this] script_submits q show ?thesis by (auto simp: IN_TRANSFER_SIZE_def)
qed

text \<open>Four bytes arrive while the reset request is sent.\<close>

definition late_api :: "(usb_event list list \<times> nat list) libusb_api" where
  "late_api = script_api\<lparr>la_reset := (\<lambda>d. ([InDone 3 XferCompleted [1, 2, 3, 4]], d))\<rparr>"

theorem close_exact_witness:
  "\<exists>q u late v. tl_stream_mode late_api (opened ([], [])) = io_return q
    \<and> u = spin_events late_api 50 (cancel_all late_api ((snd (run_events late_api [InDone 3 XferCompleted [1, 2, 3, 4]] q))\<lparr>lp_closing := True\<rparr>))
    \<and> tl_close late_api q = (late, v) \<and> (lp_fault v \<longleftrightarrow> (\<exists>i. flying u i)) \<and> (\<exists>S. dom (lp_mem v) = {S}) \<and> concat late = [1, 2, 3, 4]"
proof -
  have api: "\<forall>d. fst (la_alloc late_api d)" "all_submitted late_api" "la_reset late_api d = ([InDone 3 XferCompleted [1, 2, 3, 4]], d)" for d
    by (simp_all add: late_api_def script_api_def all_submitted_def)
  obtain q where q: "tl_stream_mode late_api (opened ([], [])) = io_return q" "\<forall>i < 16. flying q i"
    by (rule opened_streams [OF api(1,2)])
  obtain late v where v: "tl_close late_api q = (late, v)" by (cases "tl_close late_api q")
  have "run_events late_api [] q = ([], q)" by simp
  moreover define u where "u = spin_events late_api 50
    (cancel_all late_api ((snd (run_events late_api [InDone 3 XferCompleted [1, 2, 3, 4]] q))\<lparr>lp_closing := True\<rparr>))"
  moreover have "q\<lparr>lp_lib := lp_lib q\<rparr> = q" by simp
  ultimately have c: "(lp_fault v \<longleftrightarrow> (\<exists>i. flying u i)) \<and> (\<exists>S. dom (lp_mem v) = {S})
      \<and> (all_submitted late_api \<and> list_all (good_event q) [InDone 3 XferCompleted [1, 2, 3, 4]] \<longrightarrow>
          concat late = concat (map event_data [InDone 3 XferCompleted [1, 2, 3, 4]]))"
    using close_exact [OF opened_ok q(1) _ api(3) v, of "[]" "[]" u] by (metis (no_types, lifting))
  then have "concat late = [1, 2, 3, 4]" using q(2) api(2) by (simp add: IN_TRANSFER_SIZE_def)
  with c q(1) v u_def show ?thesis by blast
qed

end
