(* ===== verification/Replay_Session.thy ===== *)
theory Replay_Session
  imports Gen2_Session
begin

text \<open>
  A whole session on the replay backend, from the recorded stream to the pcapng file: the stream
  between two blocks, the acknowledged commands of the startup, the data phase of the event loop under
  any schedule of the worker, the drained queue and the file that the calls on the writer produce.
\<close>

section \<open>A replay session\<close>

text \<open>A stream between two blocks: nothing pending, \<open>l\<close> the last sequence number if there is one.\<close>

definition aligned :: "'u stream \<Rightarrow> u8 option \<Rightarrow> bool" where
  "aligned s l \<longleftrightarrow> stream_inv s \<and> pending s = [] \<and> l = (if s_have_seq s then Some (s_last_seq s) else None)"

lemma carve_blocks_seq:
  "c_pend c = concat (map blk_encode bs) \<Longrightarrow> \<forall>b \<in> set bs. blk_ok b \<Longrightarrow> bs \<noteq> [] \<Longrightarrow>
     c_last_seq (carve c) = fst (last bs) \<and> c_have_seq (carve c)"
proof (induction bs arbitrary: c)
  case (Cons b bs)
  obtain seq w1 w2 p where b: "b = (seq, w1, w2, p)" by (cases b)
  have "blk_ok (seq, w1, w2, p)" and "c_pend c = blk_encode (seq, w1, w2, p) @ concat (map blk_encode bs)"
    using Cons.prems by (simp_all add: b)
  note acc = carve_accept_encoded [OF this]
  let ?c = "carve_accept c (length p div 4)"
  show ?case
  proof (cases "bs = []")
    case True
    have "carve ?c = ?c" using acc(2) True by (subst carve.simps) simp
    with acc(1,4,5) True b show ?thesis by simp
  next
    case False
    with Cons.IH [of ?c] acc(1,2) Cons.prems(2) show ?thesis by simp
  qed
qed simp

lemma feed_aligned:
  assumes "aligned s l" and "\<forall>b \<in> set bs. blk_ok b" and "bs \<noteq> []" and "concat ds = concat (map blk_encode bs)"
  obtains s' where "feed_chunks s ds = Some s'" "aligned s' (Some (fst (last bs)))" "s_cb s' = s_cb s"
    "s_user s' = deliver (s_cb s) l (s_user s) bs"
proof -
  let ?e = "concat (map blk_encode bs)"
  have inv: "stream_inv s" using assms(1) by (simp add: aligned_def)
  obtain s' where s': "feed_chunks s ds = Some s'" "stream_inv s'" "abs_stream s' = carve_feed (abs_stream s) ?e"
    using feed_chunks_feed [OF inv, of ds] unfolding assms(4) by blast
  let ?c = "set_pend ?e (abs_stream s)"
  have pend: "c_pend (abs_stream s) = []" using assms(1) by (simp add: aligned_def pend_abs)
  obtain b bs' where bs: "bs = b # bs'" using assms(3) by (cases bs) auto
  obtain seq w1 w2 p where b: "b = (seq, w1, w2, p)" by (cases b)
  have "is_magic ?e" by (simp add: bs b is_magic_def blk_header_magic)
  then have p: "c_pend ?c = ?e" by (simp add: set_pend_def skip_garbage_magic)
  have f: "c_cb ?c = s_cb s" "c_user ?c = s_user s" "c_have_seq ?c = s_have_seq s" "c_last_seq ?c = s_last_seq s"
    by (simp_all add: set_pend_def abs_stream_def)
  have l: "l = (if c_have_seq ?c then Some (c_last_seq ?c) else None)" using assms(1) by (simp add: aligned_def f)
  have a: "abs_stream s' = carve ?c" using s'(3) pend by (simp add: carve_feed_def)
  have u: "c_user (abs_stream s') = deliver (s_cb s) l (s_user s) bs" "c_pend (abs_stream s') = []"
    "c_last_seq (abs_stream s') = fst (last bs)" "c_have_seq (abs_stream s')" "c_cb (abs_stream s') = s_cb s"
    using carve_blocks [OF p assms(2)] carve_blocks_seq [OF p assms(2,3)] carve_user [of "\<lambda>_. True" ?c]
    unfolding a l by (simp_all add: f)
  have "aligned s' (Some (fst (last bs)))"
    using s'(2) u(2-4) by (simp add: aligned_def pending_empty) (simp add: abs_stream_def set_pend_def)
  moreover have "s_cb s' = s_cb s" "s_user s' = deliver (s_cb s) l (s_user s) bs"
    using u(1,5) by (simp_all add: abs_stream_def set_pend_def)
  ultimately show thesis using that s'(1) by blast
qed

lemma aligned_user: "aligned s l \<Longrightarrow> aligned (s\<lparr>s_user := u\<rparr>) l"
  by (auto simp: aligned_def stream_inv_user pending_def)

text \<open>The replay backend in its command phase, with the stream between two blocks.\<close>

definition replay_at :: "replay_priv session \<Rightarrow> bytes \<Rightarrow> u8 option \<Rightarrow> bool" where
  "replay_at s rest l \<longleftrightarrow> aligned (ss_stream s) l \<and> s_cb (ss_stream s) = gen2_callbacks \<and> \<not> ss_async s
     \<and> ss_tr s = \<lparr>rp_rest = rest, rp_alive = True, rp_stream_mode = False\<rparr>"

lemma replay_at_upd:
  "replay_at s rest l \<Longrightarrow> replay_at (map_ctx f s) rest l" "replay_at s rest l \<Longrightarrow> replay_at (s\<lparr>ss_ticks := n\<rparr>) rest l"
  "replay_at s rest l \<Longrightarrow> replay_at (s\<lparr>ss_sent := ps\<rparr>) rest l"
  by (auto simp: replay_at_def map_ctx_def aligned_user)

lemma length_ack: "length (blk_encode (q, w1, w2, [])) = 16"
  by (simp add: blk_header_def Let_def)

lemma replay_ack_event:
  assumes "replay_at s (blk_encode (q, w1, w2, []) @ rest) l" and "blk_ok (q, w1, w2, [])" and "l = None \<or> l = Some (q - 1)"
  obtains t where "session_events replay_ops ms s = Some (True, t)" "replay_at t rest (Some q)"
    "ctx t = gen2_ack_cb (ctx s)" "ss_rawq t = ss_rawq s" "ss_begin t = ss_begin s" "ss_ticks t = ss_ticks s"
proof -
  let ?a = "blk_encode (q, w1, w2, [])"
  have r: "aligned (ss_stream s) l" "s_cb (ss_stream s) = gen2_callbacks" "\<not> ss_async s"
    "ss_tr s = \<lparr>rp_rest = ?a @ rest, rp_alive = True, rp_stream_mode = False\<rparr>"
    using assms(1) by (simp_all add: replay_at_def)
  have ev: "transport_events replay_ops ms (ss_tr s) = (True, [?a], \<lparr>rp_rest = rest, rp_alive = True, rp_stream_mode = False\<rparr>)"
    using events_command_phase [of "ss_tr s" ms] length_ack [of q w1 w2] by (simp add: r(4) transport_defs replay_ops_def)
  obtain st where st: "feed_chunks (ss_stream s) [?a] = Some st" "aligned st (Some q)" "s_cb st = gen2_callbacks"
    "s_user st = deliver gen2_callbacks l (ctx s) [(q, w1, w2, [])]"
    using feed_aligned [OF r(1), of "[(q, w1, w2, [])]" "[?a]"] assms(2) r(2) by auto
  have d: "deliver gen2_callbacks l (ctx s) [(q, w1, w2, [])] = gen2_ack_cb (ctx s)"
    using assms(3) by (auto simp: Let_def gen2_callbacks_def)
  have f: "stream_feed (ss_stream s) ?a = Some st" using st(1) by (simp add: feed_chunks_def feed_opt_def)
  have ne: "?a \<noteq> []" using length_ack [of q w1 w2] by (metis list.size(3) zero_neq_numeral)
  let ?t = "s\<lparr>ss_tr := \<lparr>rp_rest = rest, rp_alive = True, rp_stream_mode = False\<rparr>, ss_stream := st\<rparr>"
  have "session_events replay_ops ms s = Some (True, ?t)"
    unfolding session_events_def ev Let_def prod.case using r(3) f ne by (simp add: feed_cb_def del: blk_encode.simps)
  then show thesis using that [of ?t] st(2-4) d r(3) by (simp add: replay_at_def)
qed

lemma replay_cmd:
  assumes "replay_at s (blk_encode (q, w1, w2, []) @ rest) l" and "blk_ok (q, w1, w2, [])" and "l = None \<or> l = Some (q - 1)"
    and "\<And>n. clk (n + 1) < clk n + 200"
  obtains t where "cmd_exec (session_env replay_ops clk) cid param s = Some (True, t)" "replay_at t rest (Some q)"
    "cx_packet (ctx t) = cx_packet (ctx s)" "cx_stop (ctx t) = cx_stop (ctx s)" "\<not> cm_suppress (cx_cmd (ctx t))"
    "ss_rawq t = ss_rawq s" "ss_begin t = ss_begin s"
proof -
  let ?e = "session_env replay_ops clk" and ?pkt = "build_packet (cx_cmd (ctx s)) cid param"
  define s1 where "s1 = s\<lparr>ss_sent := ss_sent s @ [?pkt]\<rparr>"
  define s2 where "s2 = map_ctx (cx_cmd_update (\<lambda>c. c\<lparr>cm_suppress := False, cm_waiting := True, cm_ack_seen := False\<rparr>)) s1"
  define s3 where "s3 = s2\<lparr>ss_ticks := ss_ticks s2 + 1\<rparr>"
  define s4 where "s4 = s3\<lparr>ss_ticks := ss_ticks s3 + 1\<rparr>"
  have at: "replay_at s4 (blk_encode (q, w1, w2, []) @ rest) l"
    using assms(1) unfolding s4_def s3_def s2_def s1_def by (intro replay_at_upd)
  obtain t where t: "session_events replay_ops 20 s4 = Some (True, t)" "replay_at t rest (Some q)" "ctx t = gen2_ack_cb (ctx s4)"
    "ss_rawq t = ss_rawq s4" "ss_begin t = ss_begin s4"
    using replay_ack_event [OF at assms(2,3)] by metis
  have c4: "cx_cmd (ctx s4) = (cx_cmd (ctx s))\<lparr>cm_suppress := False, cm_waiting := True, cm_ack_seen := False\<rparr>"
    "cx_packet (ctx s4) = cx_packet (ctx s)" "cx_stop (ctx s4) = cx_stop (ctx s)" "ss_rawq s4 = ss_rawq s" "ss_begin s4 = ss_begin s"
    by (simp_all add: s4_def s3_def s2_def s1_def map_ctx_def)
  have ack: "cm_ack_seen (cx_cmd (ctx t))" "\<not> cm_suppress (cx_cmd (ctx t))"
    using t(3) c4(1) by (simp_all add: gen2_ack_cb_def cmd_ack_event_def)
  have tick: "ss_ticks s3 = ss_ticks s2 + 1" by (simp add: s3_def)
  have e4: "s3\<lparr>ss_ticks := Suc (Suc (ss_ticks s2))\<rparr> = s4" by (simp add: s4_def tick)
  have w: "cmd_wait ?e (clk (ss_ticks s2) + UHSIF_CMD_TIMEOUT_MS) s3 = Some (True, t)"
    using assms(4) [of "ss_ticks s2"] ack(1) t(1)
    by (subst cmd_wait.simps) (simp add: session_env_def UHSIF_CMD_TIMEOUT_MS_def tick e4)
  have a: "cmd_attempts ?e cid param 3 s = Some (True, map_ctx (cx_cmd_update (\<lambda>c. c\<lparr>cm_waiting := False, cm_seq := cm_seq c + 1\<rparr>)) t)"
    using attempt_unfold(3) [of ?e s cid param 0 s1 "clk (ss_ticks s2)" s3 True t, where n = 2, OF _ _ _ w refl]
    by (simp add: session_env_def transport_defs replay_ops_def tr_write_def s1_def s2_def s3_def numeral_3_eq_3 numeral_2_eq_2)
  show thesis
  proof (rule that)
    show "cmd_exec ?e cid param s = Some (True, map_ctx (cx_cmd_update (\<lambda>c. c\<lparr>cm_waiting := False, cm_seq := cm_seq c + 1\<rparr>)) t)"
      using a by (simp add: cmd_exec_def UHSIF_CMD_RETRIES_def)
  qed (use t ack c4 in \<open>simp_all add: replay_at_upd\<close>, simp_all add: map_ctx_def gen2_ack_cb_def)
qed

text \<open>Blocks whose sequence numbers continue from \<open>l\<close>.\<close>

fun consecutive :: "u8 option \<Rightarrow> blk list \<Rightarrow> bool" where
  "consecutive l [] \<longleftrightarrow> True"
| "consecutive l (b # bs) \<longleftrightarrow> (l = None \<or> l = Some (fst b - 1)) \<and> consecutive (Some (fst b)) bs"

abbreviation payload :: "blk \<Rightarrow> bytes" where
  "payload b \<equiv> snd (snd (snd b))"

lemma replay_cmds:
  assumes "\<And>n. clk (n + 1) < clk n + 200"
  shows "replay_at s (concat (map blk_encode as) @ rest) l \<Longrightarrow> length as = length cs \<Longrightarrow> \<forall>b \<in> set as. blk_ok b \<and> payload b = [] \<Longrightarrow>
    consecutive l as \<Longrightarrow> cs \<noteq> [] \<Longrightarrow>
    \<exists>t. exec_cmds (session_env replay_ops clk) cs s = Some (True, t) \<and> replay_at t rest (Some (fst (last as)))
      \<and> cx_packet (ctx t) = cx_packet (ctx s) \<and> cx_stop (ctx t) = cx_stop (ctx s) \<and> \<not> cm_suppress (cx_cmd (ctx t))
      \<and> ss_rawq t = ss_rawq s \<and> ss_begin t = ss_begin s"
proof (induction cs arbitrary: s as l)
  case (Cons c cs)
  obtain cid param where c: "c = (cid, param)" by (cases c)
  obtain b as' where as: "as = b # as'" using Cons.prems(2) by (cases as) auto
  obtain q w1 w2 where b: "b = (q, w1, w2, [])" using Cons.prems(3) as by (cases b) auto
  have at: "replay_at s (blk_encode (q, w1, w2, []) @ concat (map blk_encode as') @ rest) l" using Cons.prems(1) by (simp add: as b)
  have ok: "blk_ok (q, w1, w2, [])" "l = None \<or> l = Some (q - 1)" using Cons.prems(3,4) by (simp_all add: as b)
  obtain t where t: "cmd_exec (session_env replay_ops clk) cid param s = Some (True, t)"
    "replay_at t (concat (map blk_encode as') @ rest) (Some q)"
    "cx_packet (ctx t) = cx_packet (ctx s)" "cx_stop (ctx t) = cx_stop (ctx s)" "\<not> cm_suppress (cx_cmd (ctx t))"
    "ss_rawq t = ss_rawq s" "ss_begin t = ss_begin s"
    by (rule replay_cmd [where clk = clk, OF at ok assms])
  show ?case
  proof (cases "cs = []")
    case True
    with t Cons.prems(2) show ?thesis by (auto simp: c as b)
  next
    case False
    with Cons.IH [OF t(2)] Cons.prems(2-4) obtain t' where
      "exec_cmds (session_env replay_ops clk) cs t = Some (True, t')" "replay_at t' rest (Some (fst (last as')))"
      "cx_packet (ctx t') = cx_packet (ctx t)" "cx_stop (ctx t') = cx_stop (ctx t)" "\<not> cm_suppress (cx_cmd (ctx t'))"
      "ss_rawq t' = ss_rawq t" "ss_begin t' = ss_begin t" by (auto simp: as b)
    moreover have "as' \<noteq> []" using False Cons.prems(2) by (auto simp: as)
    ultimately show ?thesis using t by (auto simp: c as)
  qed
qed simp

lemma replay_startup:
  assumes "\<And>n. clk (n + 1) < clk n + 200" and "replay_at s (pre @ concat (map blk_encode as) @ rest) None" and "length pre = 32"
    and "length as = 4" and "\<forall>b \<in> set as. blk_ok b \<and> payload b = []" and "consecutive None as"
  obtains t where "capture_startup replay_ops clk True speed s = io_return (-1, t)" "replay_at t rest (Some (fst (last as)))"
    "cx_packet (ctx t) = cx_packet (ctx s)" "cx_stop (ctx t) = cx_stop (ctx s)" "\<not> cm_suppress (cx_cmd (ctx t))" "ss_rawq t = ss_rawq s"
proof -
  let ?e = "session_env replay_ops clk"
  define s1 where "s1 = capture_stop_and_flush replay_ops clk s"
  have tr: "ss_tr s = \<lparr>rp_rest = pre @ concat (map blk_encode as) @ rest, rp_alive = True, rp_stream_mode = False\<rparr>"
    using assms(2) by (simp add: replay_at_def)
  have e1: "s1 = s\<lparr>ss_sent := ss_sent s @ [build_packet (cx_cmd (ctx s)) UHSIF_CMD_ENABLE 0, build_packet (cx_cmd (ctx s)) UHSIF_CMD_RESET 1],
      ss_tr := \<lparr>rp_rest = concat (map blk_encode as) @ rest, rp_alive = True, rp_stream_mode = False\<rparr>\<rparr>"
    using discard_skips [of "ss_tr s"] assms(3)
    by (simp add: s1_def capture_stop_and_flush_def cmd_tx_quiet_def session_env_def transport_defs replay_ops_def tr_write_def tr)
  have s1: "replay_at s1 (concat (map blk_encode as) @ rest) None" "ctx s1 = ctx s" "ss_rawq s1 = ss_rawq s"
    using assms(2) by (simp_all add: e1 replay_at_def)
  obtain t where "capture_init_cmds ?e speed s1 = Some (True, t)" "replay_at t rest (Some (fst (last as)))"
      "cx_packet (ctx t) = cx_packet (ctx s)" "cx_stop (ctx t) = cx_stop (ctx s)" "\<not> cm_suppress (cx_cmd (ctx t))" "ss_rawq t = ss_rawq s"
    using replay_cmds [where clk = clk, OF assms(1) s1(1), of "[(UHSIF_CMD_UPLOAD_PARAMS, 4092), (UHSIF_CMD_SPEED, of_int speed), (UHSIF_CMD_RESET, 0), (UHSIF_CMD_ENABLE, 1)]"]
      assms(4-6) s1(2,3) unfolding capture_init_cmds_def by auto
  then show thesis by (intro that [of t]) (simp_all add: capture_startup_def startup_attempt_def io_of_def flip: s1_def)
qed

text \<open>A finished packet layer stays finished, and only that sets the stop flag.\<close>

definition finished :: "capture_ctx \<Rightarrow> bool" where
  "finished u \<longleftrightarrow> p_done (cx_packet u)"

definition stop_finished :: "capture_ctx \<Rightarrow> bool" where
  "stop_finished u \<longleftrightarrow> (cx_stop u \<longrightarrow> finished u)"

lemma finished_stays:
  "finished u \<Longrightarrow> finished (data_cb gen2_callbacks u d)" "finished u \<Longrightarrow> finished (ack_cb gen2_callbacks u)"
  "finished u \<Longrightarrow> finished (rsync_cb gen2_callbacks u)"
  by (simp_all add: finished_def gen2_callbacks_def gen2_data_cb_def gen2_ack_cb_def gen2_rsync_cb_def Let_def packet_feed_def packet_rsync_def)

lemma stop_finished_stays:
  "stop_finished u \<Longrightarrow> stop_finished (data_cb gen2_callbacks u d)" "stop_finished u \<Longrightarrow> stop_finished (ack_cb gen2_callbacks u)"
  "stop_finished u \<Longrightarrow> stop_finished (rsync_cb gen2_callbacks u)"
  by (auto simp: stop_finished_def finished_def gen2_callbacks_def gen2_data_cb_def gen2_ack_cb_def gen2_rsync_cb_def Let_def packet_finished_def
      packet_feed_def packet_rsync_def)

text \<open>
  The data phase: what the stream will have seen when the queue and the file are exhausted.
\<close>

definition data_phase :: "replay_priv session \<Rightarrow> capture_ctx carver \<Rightarrow> bytes \<Rightarrow> bool" where
  "data_phase s c rest \<longleftrightarrow> session_wf s \<and> ss_async s \<and> rp_stream_mode (ss_tr s) \<and> rp_rest (ss_tr s) = rest
     \<and> (rp_alive (ss_tr s) \<or> rest = []) \<and> stop_finished (ctx s) \<and> carve_feed (abs_stream (ss_stream s)) (concat (ss_rawq s) @ rest) = c"

lemma carve_feed_user:
  assumes "\<And>u d. P u \<Longrightarrow> P (data_cb (c_cb c) u d)" "\<And>u. P u \<Longrightarrow> P (ack_cb (c_cb c) u)" "\<And>u. P u \<Longrightarrow> P (rsync_cb (c_cb c) u)"
    and "P (c_user c)"
  shows "P (c_user (carve_feed c d)) \<and> c_cb (carve_feed c d) = c_cb c"
  using carve_user [of P "set_pend (c_pend c @ d) c"] assms by (simp add: carve_feed_def set_pend_def)

lemma worker_turn_phase:
  assumes "data_phase s c rest" and "\<not> tu_signal u"
  obtains t where "worker_turn u s = Some t" "data_phase t c rest" "ss_tr t = ss_tr s" "ss_begin t = ss_begin s"
proof -
  let ?now = "take (tu_work u) (ss_rawq s)" and ?later = "drop (tu_work u) (ss_rawq s)"
  have s: "stream_inv (ss_stream s)" "s_cb (ss_stream s) = gen2_callbacks" using assms(1) by (simp_all add: data_phase_def session_wf_def)
  obtain st where st: "feed_chunks (ss_stream s) ?now = Some st" "stream_inv st" "abs_stream st = carve_feed (abs_stream (ss_stream s)) (concat ?now)"
    by (rule feed_chunks_feed [OF s(1)])
  have cb: "c_cb (abs_stream (ss_stream s)) = gen2_callbacks" "c_user (abs_stream (ss_stream s)) = ctx s"
    using s(2) by (simp_all add: abs_stream_def set_pend_def)
  have "stop_finished (c_user (abs_stream st)) \<and> c_cb (abs_stream st) = gen2_callbacks"
    unfolding st(3) using carve_feed_user [of stop_finished "abs_stream (ss_stream s)"] assms(1)
    by (simp add: s(2) stop_finished_stays data_phase_def)
  then have st': "stop_finished (s_user st)" "s_cb st = gen2_callbacks" by (simp_all add: abs_stream_def set_pend_def)
  have "concat (ss_rawq s) = concat ?now @ concat ?later" by (metis append_take_drop_id concat_append)
  then have "carve_feed (abs_stream st) (concat ?later @ rest) = c"
    using assms(1) by (simp add: st(3) carve_feed_append data_phase_def)
  then have "data_phase (s\<lparr>ss_stream := st, ss_rawq := ?later\<rparr>) c rest"
    using assms(1) st(2) st' by (simp add: data_phase_def session_wf_def)
  then show thesis
    by (intro that [of "s\<lparr>ss_stream := st, ss_rawq := ?later\<rparr>"]) (use assms(2) st(1) in \<open>simp_all add: worker_turn_def\<close>)
qed

lemma phase_running:
  assumes "data_phase s c rest" and "\<not> finished (c_user c)"
  shows "\<not> cx_stop (ctx s) \<and> \<not> packet_finished (cx_packet (ctx s))"
proof -
  have u: "c_user (abs_stream (ss_stream s)) = ctx s" "c_cb (abs_stream (ss_stream s)) = gen2_callbacks"
    using assms(1) by (simp_all add: abs_stream_def set_pend_def data_phase_def session_wf_def)
  have c: "c_user c = c_user (carve_feed (abs_stream (ss_stream s)) (concat (ss_rawq s) @ rest))"
    using assms(1) by (simp add: data_phase_def)
  have "\<not> finished (ctx s)"
    using carve_feed_user [of finished "abs_stream (ss_stream s)" "concat (ss_rawq s) @ rest"] assms(2) unfolding c u
    by (auto simp: finished_stays)
  then show ?thesis using assms(1) by (auto simp: data_phase_def stop_finished_def finished_def packet_finished_def)
qed

lemma event_loop_ends:
  assumes "\<And>i. \<not> tu_signal (turns i) \<and> \<not> tu_write_failed (turns i)" and "\<not> finished (c_user c)"
  shows "data_phase s c rest \<Longrightarrow> \<exists>k t. event_loop replay_ops turns i s = Some (turns k, t) \<and> data_phase t c [] \<and> \<not> rp_alive (ss_tr t)
    \<and> ss_begin t = ss_begin s"
proof (induction "2 * length rest + (if rp_alive (ss_tr s) then 1 else 0)" arbitrary: s rest i rule: less_induct)
  case less
  obtain t where t: "worker_turn (turns i) s = Some t" "data_phase t c rest" "ss_tr t = ss_tr s" "ss_begin t = ss_begin s"
    using less.prems assms(1) worker_turn_phase by metis
  note run = phase_running [OF t(2) assms(2)]
  show ?case
  proof (cases "rp_alive (ss_tr s)")
    case False
    then have "event_loop replay_ops turns i s = Some (turns i, t)"
      using t by (subst event_loop.simps) (simp add: transport_defs replay_ops_def tr_alive_def)
    moreover have "rest = []" using False t by (simp add: data_phase_def)
    ultimately show ?thesis using t False by auto
  next
    case True
    have p: "ss_async t" "rp_stream_mode (ss_tr t)" "rp_rest (ss_tr t) = rest" "rp_alive (ss_tr t)"
      using t True by (simp_all add: data_phase_def)
    show ?thesis
    proof (cases "rest = []")
      case e: True
      let ?t = "t\<lparr>ss_tr := (ss_tr t)\<lparr>rp_alive := False\<rparr>\<rparr>"
      have "session_events replay_ops 50 t = Some (False, ?t)"
        using p e by (simp add: session_events_def transport_defs replay_ops_def tr_events_def tr_read_def Let_def)
      then have "event_loop replay_ops turns i s = Some (turns i, ?t)"
        using t(1) run assms(1) [of i] p by (subst event_loop.simps) (simp add: transport_defs replay_ops_def tr_alive_def)
      moreover have "data_phase ?t c []" using t(2) e by (simp add: data_phase_def session_wf_def)
      ultimately show ?thesis using t(4) by auto
    next
      case ne: False
      define q where "q = (if length rest < DATA_CHUNK then (ss_tr t)\<lparr>rp_rest := drop DATA_CHUNK rest, rp_alive := False\<rparr>
        else (ss_tr t)\<lparr>rp_rest := drop DATA_CHUNK rest\<rparr>)"
      let ?t = "t\<lparr>ss_tr := q, ss_rawq := ss_rawq t @ [take DATA_CHUNK rest]\<rparr>"
      have ne': "take DATA_CHUNK rest \<noteq> []" using ne by (simp add: DATA_CHUNK_def)
      have ev: "session_events replay_ops 50 t = Some (True, ?t)"
        using p ne ne' by (simp add: session_events_def transport_defs replay_ops_def tr_events_def tr_read_def Let_def q_def feed_cb_def)
      have ph: "data_phase ?t c (drop DATA_CHUNK rest)"
        using t(2) p by (simp add: data_phase_def session_wf_def q_def)
      have "2 * length (drop DATA_CHUNK rest) + (if rp_alive (ss_tr ?t) then 1 else 0) < 2 * length rest + (if rp_alive (ss_tr s) then 1 else 0)"
        using ne True by (cases rest) (auto simp: DATA_CHUNK_def)
      from less.hyps [OF this ph, of "i + 1"] obtain k t' where
        "event_loop replay_ops turns (i + 1) ?t = Some (turns k, t')" "data_phase t' c []" "\<not> rp_alive (ss_tr t')" "ss_begin t' = ss_begin t"
        by auto
      moreover have "event_loop replay_ops turns i s = event_loop replay_ops turns (i + 1) ?t"
        using t(1) run assms(1) [of i] p ev by (subst event_loop.simps) (simp add: transport_defs replay_ops_def tr_alive_def)
      ultimately show ?thesis using t(4) by auto
    qed
  qed
qed

lemma deliver_feeds:
  "consecutive l bs \<Longrightarrow> \<forall>b \<in> set bs. payload b \<noteq> [] \<Longrightarrow> \<not> cm_suppress (cx_cmd u) \<Longrightarrow>
     cx_packet (deliver gen2_callbacks l u bs) = packet_feed (cx_packet u) (concat (map payload bs))"
proof (induction bs arbitrary: l u)
  case (Cons b bs)
  obtain q w1 w2 p where b: "b = (q, w1, w2, p)" by (cases b)
  let ?u = "gen2_data_cb u p"
  have "deliver gen2_callbacks l u (b # bs) = deliver gen2_callbacks (Some q) ?u bs"
    using Cons.prems by (auto simp: b Let_def gen2_callbacks_def)
  moreover have "cx_packet ?u = packet_feed (cx_packet u) p" "cx_cmd ?u = cx_cmd u"
    using Cons.prems(3) by (simp_all add: gen2_data_cb_def Let_def cmd_input_suppressed_def)
  ultimately show ?case using Cons.IH [of "Some q" ?u] Cons.prems by (simp add: b packet_feed_append)
qed simp

lemma consecutive_append:
  "consecutive l (as @ bs) \<longleftrightarrow> consecutive l as \<and> consecutive (if as = [] then l else Some (fst (last as))) bs"
  by (induction as arbitrary: l) auto

lemma abs_stream_user: "c_user (abs_stream s) = s_user s" "c_cb (abs_stream s) = s_cb s"
  by (simp_all add: abs_stream_def set_pend_def)

text \<open>The packet layer of a session when its data phase begins.\<close>

definition announced :: "packet_opts \<Rightarrow> string \<Rightarrow> packet" where
  "announced popts build = packet_info (packet_announce (packet_new popts [])) (''Plugin build: '' @ build)"

lemma announced_inv: "packet_inv (announced popts build)"
  unfolding announced_def packet_info_def by (intro packet_inv_info packet_inv_announce packet_new_inv) simp

lemma announced_running: "\<not> p_done (announced popts build)"
  by (simp add: announced_def packet_info_def packet_announce_def Let_def put_call_def)

lemma feed_inv: "packet_inv p \<Longrightarrow> packet_inv (packet_feed p bs)"
  by (simp add: packet_feed_def feed_loop_inv)

lemma session_calls_ok:
  "\<forall>c \<in> set (p_out (packet_stop_info (packet_feed (announced popts build) bs) why)). call_ok c"
  using packet_inv_info [OF feed_inv [OF announced_inv], of popts build bs]
  by (simp add: packet_stop_info_def packet_inv_def fold_inv_def)

lemma pcap_file_reads:
  assumes "\<forall>c \<in> set cs. call_ok c"
  obtains q blocks where "pcapng_begin pcapng_open lt = Some q" "pcap_blocks (sunk (foldl pcap_exec q cs)) = Some (header_blocks lt @ blocks)"
    "List.map_filter epb_decode blocks = concat (map call_records cs)"
proof -
  obtain q where q: "pcapng_begin (foldl pcap_exec pcapng_open []) lt = Some q"
    "sunk (foldl pcap_exec q cs) = frame_blocks (header_blocks lt @ concat (map call_blocks ([] @ cs)))"
    by (rule pcap_session_bytes [of "[]" lt cs])
  have "pcap_blocks (sunk (foldl pcap_exec q cs)) = Some (header_blocks lt @ concat (map call_blocks cs))"
    unfolding q(2) using assms header_blocks_ok [of lt] call_blocks_ok by (simp only: append_Nil) (intro pcap_blocks_frame, fastforce)
  moreover have "List.map_filter epb_decode (concat (map call_blocks cs)) = concat (map call_records cs)"
    using calls_decode [OF assms, of lt] by (simp add: List.map_filter_def header_blocks_def epb_decode_def)
  ultimately show thesis using that q(1) by simp
qed

lemma replay_open:
  assumes "replay_at s rest l" and "cx_packet (ctx s) = packet_new popts []" and "\<not> cx_stop (ctx s)" and "ss_rawq s = []"
    and open_def: "capture_open replay_ops build speed (-1) s = io_return t"
  shows "ss_begin t = Some (0, dlt_for_speed speed)" and "aligned (ss_stream t) l" and "cx_packet (ctx t) = announced popts build"
    and "cx_cmd (ctx t) = cx_cmd (ctx s)" and "data_phase t (carve_feed (abs_stream (ss_stream t)) rest) rest" and "s_cb (ss_stream t) = gen2_callbacks"
proof -
  have n: "p_out (packet_new popts []) = []" by (simp add: packet_new_def packet_start_def packet_zero_def)
  let ?t = "(map_ctx (cx_packet_update (\<lambda>p. announced popts build)) s)\<lparr>ss_begin := Some (0, dlt_for_speed speed),
      ss_tr := \<lparr>rp_rest = rest, rp_alive = True, rp_stream_mode = True\<rparr>, ss_async := True\<rparr>"
  have "capture_open replay_ops build speed (-1) s = io_return ?t"
    using assms(1,2) n
    by (simp add: capture_open_def Let_def map_ctx_def announce_link_def transport_defs replay_ops_def tr_stream_mode_def
        replay_at_def announced_def)
  with open_def have t: "t = ?t" by simp
  show "ss_begin t = Some (0, dlt_for_speed speed)" "cx_packet (ctx t) = announced popts build" "cx_cmd (ctx t) = cx_cmd (ctx s)"
    "s_cb (ss_stream t) = gen2_callbacks"
    using assms(1) by (simp_all add: t map_ctx_def replay_at_def)
  show a: "aligned (ss_stream t) l" using assms(1) by (simp add: t map_ctx_def replay_at_def aligned_user)
  show "data_phase t (carve_feed (abs_stream (ss_stream t)) rest) rest"
    using a assms(1,3,4) by (simp add: data_phase_def session_wf_def aligned_def) (simp add: t map_ctx_def replay_at_def stop_finished_def)
qed

lemma drain_phase:
  assumes "data_phase s c []"
  obtains t where "drain_rawq s = Some t" "ctx t = c_user c" "ss_tr t = ss_tr s" "ss_begin t = ss_begin s"
proof -
  have "stream_inv (ss_stream s)" using assms by (simp add: data_phase_def session_wf_def)
  then obtain st where st: "feed_chunks (ss_stream s) (ss_rawq s) = Some st" "abs_stream st = carve_feed (abs_stream (ss_stream s)) (concat (ss_rawq s))"
    by (rule feed_chunks_feed)
  have "s_user st = c_user (abs_stream st)" by (simp add: abs_stream_def set_pend_def)
  also have "\<dots> = c_user c" using assms by (simp add: st(2) data_phase_def)
  finally show thesis
    by (intro that [of "s\<lparr>ss_stream := st, ss_rawq := [], ss_async := False\<rparr>"]) (simp_all add: drain_rawq_def st(1))
qed

lemma carve_aligned:
  assumes "aligned s l" and "\<forall>b \<in> set bs. blk_ok b" and "bs \<noteq> []"
  shows "c_user (carve_feed (abs_stream s) (concat (map blk_encode bs))) = deliver (s_cb s) l (s_user s) bs"
proof -
  obtain s' where s': "feed_chunks s [concat (map blk_encode bs)] = Some s'" "s_user s' = deliver (s_cb s) l (s_user s) bs"
    using feed_aligned [OF assms, of "[concat (map blk_encode bs)]"] by auto
  have "stream_inv s" using assms(1) by (simp add: aligned_def)
  then obtain s'' where "feed_chunks s [concat (map blk_encode bs)] = Some s''"
    "abs_stream s'' = carve_feed (abs_stream s) (concat (map blk_encode bs))"
    using feed_chunks_feed [of s "[concat (map blk_encode bs)]"] by auto
  with s' show ?thesis by (metis abs_stream_user option.inject)
qed

lemma open_returns: obtains t where "capture_open replay_ops build speed bytes s = io_return t"
  by (simp add: capture_open_def Let_def transport_stream_mode_def replay_ops_def tr_stream_mode_def)

lemma open_replay: "transport_open replay_ops t = io_return (True, t\<lparr>rp_alive := True\<rparr>)"
  by (simp add: transport_open_def replay_ops_def tr_open_def)

lemma run_phase:
  assumes "\<And>i. \<not> tu_signal (turns i) \<and> \<not> tu_write_failed (turns i)" and "data_phase s c rest" and "\<not> finished (c_user c)"
  obtains t where "capture_run replay_ops clk turns s = Some t"
    "cx_packet (ctx t) = packet_stop_info (cx_packet (c_user c)) ''uplink/device lost''" "ss_begin t = ss_begin s"
proof -
  obtain k t1 where t1: "event_loop replay_ops turns 0 s = Some (turns k, t1)" "data_phase t1 c []" "\<not> rp_alive (ss_tr t1)" "ss_begin t1 = ss_begin s"
    using event_loop_ends [where turns = turns, OF assms(1,3,2)] by blast
  obtain t2 where t2: "drain_rawq t1 = Some t2" "ctx t2 = c_user c" "ss_tr t2 = ss_tr t1" "ss_begin t2 = ss_begin t1"
    using t1(2) by (rule drain_phase)
  have "stop_finished (c_user c)"
    using t1(2) carve_feed_user [of stop_finished "abs_stream (ss_stream t1)" "concat (ss_rawq t1)"]
    by (auto simp: data_phase_def session_wf_def abs_stream_user stop_finished_stays)
  then have run: "\<not> packet_finished (cx_packet (ctx t2))" "\<not> cx_stop (ctx t2)"
    using assms(3) by (auto simp: t2(2) stop_finished_def finished_def packet_finished_def)
  have dead: "\<not> transport_alive replay_ops (ss_tr t2)" using t1(3) t2(3) by (simp add: transport_defs replay_ops_def tr_alive_def)
  let ?t = "map_ctx (cx_packet_update (\<lambda>p. packet_stop_info p ''uplink/device lost'')) t2"
  have "stop_reason replay_ops (tu_write_failed (turns k)) t2 = ''uplink/device lost''"
    using run dead assms(1) [of k] by (simp add: stop_reason_def)
  moreover have "ss_tr ?t = ss_tr t2" by (simp add: map_ctx_def)
  ultimately have "capture_run replay_ops clk turns s = Some ?t"
    using dead by (simp add: capture_run_def t1(1) t2(1) capture_end_def Let_def)
  then show thesis by (rule that) (use t1 t2 in \<open>simp_all add: map_ctx_def\<close>)
qed


text \<open>
  C38. A whole replay session: let the recorded stream be two skipped acknowledgements, four
  acknowledgements of the init commands and data blocks, with consecutive sequence numbers. However
  the worker thread is scheduled, \<open>run_capture_gen2\<close> returns, and the calls on the pcapng writer are
  those of the frame parser fed with the payloads at once, framed by the opening and closing messages.
  The file that results is well formed: it has the session's section and interface headers, and its
  packet blocks read back as the records of these calls. Nothing reaches the stream after it is deleted.
\<close>

theorem replay_session:
  assumes "length pre = 32" and "length as = 4" and "\<forall>b \<in> set as. blk_ok b \<and> payload b = []"
    and "\<forall>b \<in> set bs. blk_ok b \<and> payload b \<noteq> []" and "bs \<noteq> []" and "consecutive None (as @ bs)"
    and "\<forall>n. clk (n + 1) < clk n + 200" and "\<forall>i. \<not> tu_signal (turns i) \<and> \<not> tu_write_failed (turns i)"
    and "p = packet_feed (announced popts build) (concat (map payload bs))" and "\<not> p_done p"
  shows "\<exists>s q blocks. run_capture_gen2 replay_ops clk turns build True popts
      \<lparr>rp_rest = pre @ concat (map blk_encode (as @ bs)), rp_alive = False, rp_stream_mode = False\<rparr> = io_return s
    \<and> p_out (cx_packet (ctx s)) = p_out (packet_stop_info p ''uplink/device lost'')
    \<and> ss_begin s = Some (0, dlt_for_speed (capture_speed popts)) \<and> ss_late s = []
    \<and> pcapng_begin pcapng_open (dlt_for_speed (capture_speed popts)) = Some q
    \<and> pcap_blocks (sunk (foldl pcap_exec q (p_out (cx_packet (ctx s))))) = Some (header_blocks (dlt_for_speed (capture_speed popts)) @ blocks)
    \<and> List.map_filter epb_decode blocks = concat (map call_records (p_out (cx_packet (ctx s))))"
proof -
  let ?rest = "concat (map blk_encode bs)" and ?l = "Some (fst (last as))" and ?speed = "capture_speed popts"
  let ?tr = "\<lparr>rp_rest = pre @ concat (map blk_encode as) @ ?rest, rp_alive = True, rp_stream_mode = False\<rparr>"
  have "as \<noteq> []" using assms(2) by auto
  with assms(6) have con: "consecutive None as" "consecutive ?l bs" by (simp_all add: consecutive_append)
  have new: "replay_at (session_new popts ?tr) (pre @ concat (map blk_encode as) @ ?rest) None"
    using stream_new_inv by (simp add: replay_at_def aligned_def session_new_def) (simp add: stream_new_def pending_def)
  obtain s1 where s1: "capture_startup replay_ops clk True ?speed (session_new popts ?tr) = io_return (-1, s1)" "replay_at s1 ?rest ?l"
    "cx_packet (ctx s1) = packet_new popts []" "\<not> cx_stop (ctx s1)" "\<not> cm_suppress (cx_cmd (ctx s1))" "ss_rawq s1 = []"
    by (rule replay_startup [where clk = clk and speed = ?speed, OF _ new assms(1,2,3) con(1)])
      (use assms(7) in \<open>auto simp: session_new_def stream_new_def\<close>)
  obtain s2 where o2: "capture_open replay_ops build ?speed (-1) s1 = io_return s2" by (rule open_returns)
  note s2 = replay_open [OF s1(2,3,4,6) o2]
  let ?c = "carve_feed (abs_stream (ss_stream s2)) ?rest"
  have "c_user ?c = deliver gen2_callbacks ?l (ctx s2) bs" using carve_aligned [OF s2(2)] assms(4,5) by (simp add: s2(6))
  then have c: "cx_packet (c_user ?c) = p"
    using deliver_feeds [OF con(2), of "ctx s2"] assms(4) s1(5) by (simp add: s2(3,4) assms(9))
  obtain s3 where s3: "capture_run replay_ops clk turns s2 = Some s3" "cx_packet (ctx s3) = packet_stop_info p ''uplink/device lost''" "ss_begin s3 = ss_begin s2"
    by (rule run_phase [where turns = turns and clk = clk, OF _ s2(5)]) (use assms(8,10) c in \<open>auto simp: finished_def\<close>)
  define s where "s = capture_close replay_ops s3"
  have s: "cx_packet (ctx s) = packet_stop_info p ''uplink/device lost''" "ss_begin s = ss_begin s2" "ss_late s = []"
    using s3(2,3) by (simp_all add: s_def capture_close_def transport_close_def replay_ops_def tr_close_def)
  have "run_capture_gen2 replay_ops clk turns build True popts
      \<lparr>rp_rest = pre @ concat (map blk_encode (as @ bs)), rp_alive = False, rp_stream_mode = False\<rparr> = io_return s"
    using s3(1) s1(1) by (simp add: run_capture_gen2_def open_replay io_of_def o2 s_def)
  moreover have "\<forall>c \<in> set (p_out (cx_packet (ctx s))). call_ok c" using session_calls_ok by (simp add: s(1) assms(9))
  then obtain q blocks where "pcapng_begin pcapng_open (dlt_for_speed ?speed) = Some q"
    "pcap_blocks (sunk (foldl pcap_exec q (p_out (cx_packet (ctx s))))) = Some (header_blocks (dlt_for_speed ?speed) @ blocks)"
    "List.map_filter epb_decode blocks = concat (map call_records (p_out (cx_packet (ctx s))))"
    by (rule pcap_file_reads)
  ultimately show ?thesis using s s2(1) by auto
qed


definition demo_opts :: packet_opts where
  "demo_opts = \<lparr>fold_empty = False, exclude_line_state = True, capture_speed = 3, capture_trigger_mode = CaptureTrigger_Disabled, capture_limit = -1\<rparr>"

theorem replay_session_witness:
  "\<exists>s. run_capture_gen2 replay_ops int (\<lambda>i. \<lparr>tu_work = i, tu_signal = False, tu_write_failed = False\<rparr>) ''today'' True demo_opts
      \<lparr>rp_rest = replicate 32 0 @ concat (map blk_encode
         [(1, 0, 0, []), (2, 0, 0, []), (3, 0, 0, []), (4, 0, 0, []), (5, 0, 0, [0, 0, 0, 0])]), rp_alive = False, rp_stream_mode = False\<rparr> = io_return s
    \<and> ss_begin s = Some (0, 288)
    \<and> p_out (cx_packet (ctx s)) = p_out (packet_stop_info (packet_feed (announced demo_opts ''today'') [0, 0, 0, 0]) ''uplink/device lost'')"
proof -
  have ok: "blk_ok (q, 0, 0, [])" "blk_ok (q, 0, 0, [0, 0, 0, 0])" for q by (simp, simp, presburger)
  have nd: "\<not> p_done (packet_feed (announced demo_opts ''today'') [0, 0, 0, 0])" by code_simp
  let ?as = "[(1, 0, 0, []), (2, 0, 0, []), (3, 0, 0, []), (4, 0, 0, [])] :: blk list" and ?bs = "[(5, 0, 0, [0, 0, 0, 0])] :: blk list"
  have h: "length (replicate 32 (0 :: u8)) = 32" "length ?as = 4" "\<forall>b \<in> set ?as. blk_ok b \<and> payload b = []"
    "\<forall>b \<in> set ?bs. blk_ok b \<and> payload b \<noteq> []" "?bs \<noteq> []" "consecutive None (?as @ ?bs)" "\<forall>n. int (n + 1) < int n + 200"
    "\<forall>i. \<not> tu_signal \<lparr>tu_work = i, tu_signal = False, tu_write_failed = False\<rparr> \<and> \<not> tu_write_failed \<lparr>tu_work = i, tu_signal = False, tu_write_failed = False\<rparr>"
    using ok by (simp_all del: blk_ok.simps)
  have p: "packet_feed (announced demo_opts ''today'') [0, 0, 0, 0] = packet_feed (announced demo_opts ''today'') (concat (map payload ?bs))" by simp
  have d: "dlt_for_speed (capture_speed demo_opts) = 288"
    by (simp add: dlt_for_speed_def demo_opts_def CaptureSpeed_LS_def CaptureSpeed_FS_def CaptureSpeed_HS_def)
  show ?thesis using replay_session [OF h p nd] unfolding d append.simps by blast
qed

end
