(* ===== verification/Live_Session.thy ===== *)
theory Live_Session
  imports Libusb Replay_Session
begin

text \<open>
  Sessions over any source of bytes: what the data phase of a session owes its transport. A transport
  that hands over what its device sent, in order, is a \<open>byte_source\<close>; the replay backend is one, and the
  libusb backend is one when the device and libusb keep the contract \<open>usb_stream\<close>. For every byte source
  the event loop, the raw queue and the worker bring all the bytes to the parser, once and in order,
  up to the stop flag, which a signal may set at any time.
\<close>

section \<open>Up to the stop flag\<close>

definition same_run :: "capture_ctx carver \<Rightarrow> capture_ctx carver \<Rightarrow> bool" where
  "same_run c d \<longleftrightarrow> c_cb c = gen2_callbacks \<and> c_cb d = gen2_callbacks \<and> c_pend c = c_pend d \<and> c_state c = c_state d
    \<and> c_have_seq c = c_have_seq d \<and> c_last_seq c = c_last_seq d
    \<and> cx_cmd (c_user c) = cx_cmd (c_user d) \<and> cx_packet (c_user c) = cx_packet (c_user d)"

lemma same_run_sym: "same_run c d \<Longrightarrow> same_run d c"
  by (simp add: same_run_def)

lemma same_run_trans: "same_run c d \<Longrightarrow> same_run d e \<Longrightarrow> same_run c e"
  by (simp add: same_run_def)

lemma same_run_steps:
  assumes "same_run c d"
  shows "same_run (set_pend p c) (set_pend p d)" and "same_run (carve_lose c) (carve_lose d)" and "same_run (carve_accept c n) (carve_accept d n)"
proof -
  have cb: "cx_cmd (gen2_data_cb u x) = cx_cmd (gen2_data_cb v x)" "cx_packet (gen2_data_cb u x) = cx_packet (gen2_data_cb v x)"
    "cx_cmd (gen2_rsync_cb u) = cx_cmd (gen2_rsync_cb v)" "cx_packet (gen2_rsync_cb u) = cx_packet (gen2_rsync_cb v)"
    "cx_cmd (gen2_ack_cb u) = cx_cmd (gen2_ack_cb v)" "cx_packet (gen2_ack_cb u) = cx_packet (gen2_ack_cb v)"
    if "cx_cmd u = cx_cmd v" "cx_packet u = cx_packet v" for u v x
    using that by (simp_all add: gen2_data_cb_def gen2_rsync_cb_def gen2_ack_cb_def Let_def)
  show "same_run (set_pend p c) (set_pend p d)" using assms by (simp add: same_run_def set_pend_def)
  show "same_run (carve_lose c) (carve_lose d)"
    using assms cb [of "c_user c" "c_user d"] by (simp add: same_run_def carve_lose_def set_pend_def gen2_callbacks_def)
  show "same_run (carve_accept c n) (carve_accept d n)"
    using assms cb [of "c_user c" "c_user d"] cb [of "gen2_rsync_cb (c_user c)" "gen2_rsync_cb (c_user d)"]
    by (auto simp: same_run_def carve_accept_def Let_def gen2_callbacks_def)
qed

lemma same_run_carve: "same_run c d \<Longrightarrow> same_run (carve c) (carve d)"
proof (induction c arbitrary: d rule: carve.induct)
  case (1 c)
  have eq: "c_pend d = c_pend c" "c_state d = c_state c" using 1(3) by (simp_all add: same_run_def)
  show ?case
  proof (cases "length (c_pend c) < 16")
    case True
    then show ?thesis using 1(3) eq by (simp add: carve.simps [of c] carve.simps [of d])
  next
    case long: False
    show ?thesis
    proof (cases "header_valid (c_pend c)")
      case None
      let ?next = "\<lambda>c :: capture_ctx carver. if c_state c = STREAM_BLOCK then carve_lose c else set_pend (tl (c_pend c)) c"
      have "same_run (?next c) (?next d)" using same_run_steps [OF 1(3)] eq by simp
      then have "same_run (carve (?next c)) (carve (?next d))" by (rule 1(1) [OF long None])
      moreover have "carve c = carve (?next c)" "carve d = carve (?next d)" using long None eq by (subst carve.simps, simp)+
      ultimately show ?thesis by simp
    next
      case (Some n)
      show ?thesis
      proof (cases "length (c_pend c) < 16 + 4 * unat n")
        case True
        then show ?thesis using 1(3) long Some eq by (simp add: carve.simps [of c] carve.simps [of d])
      next
        case False
        have "same_run (carve (carve_accept c (unat n))) (carve (carve_accept d (unat n)))"
          using same_run_steps(3) [OF 1(3)] by (rule 1(2) [OF long Some False])
        moreover have "carve c = carve (carve_accept c (unat n))" "carve d = carve (carve_accept d (unat n))"
          using long Some False eq by (subst carve.simps, simp)+
        ultimately show ?thesis by simp
      qed
    qed
  qed
qed

lemma same_run_feed: "same_run c d \<Longrightarrow> same_run (carve_feed c x) (carve_feed d x)"
  unfolding carve_feed_def by (intro same_run_carve) (simp add: same_run_def set_pend_def)

section \<open>Byte sources\<close>

text \<open>What the parser will have seen when the worker has emptied the queue.\<close>

definition run_of :: "'t session \<Rightarrow> capture_ctx carver" where
  "run_of s = carve_feed (abs_stream (ss_stream s)) (concat (ss_rawq s))"

lemma run_of_cb: "session_wf s \<Longrightarrow> c_cb (carve_feed (abs_stream (ss_stream s)) x) = gen2_callbacks"
  using carve_feed_user [of "\<lambda>_. True" "abs_stream (ss_stream s)" x] by (simp add: abs_stream_user session_wf_def)

lemma run_of_feed: "carve_feed (run_of s) [] = run_of s" "carve_feed (carve_feed (run_of s) a) b = carve_feed (run_of s) (a @ b)"
  by (simp_all add: run_of_def carve_feed_append)

lemma worker_turn_run:
  assumes "session_wf s"
  obtains t where "worker_turn u s = Some t" "session_wf t" "ss_async t = ss_async s" "ss_tr t = ss_tr s" "same_run (run_of s) (run_of t)"
    "tu_signal u \<Longrightarrow> cx_stop (ctx t)"
proof -
  let ?now = "take (tu_work u) (ss_rawq s)" and ?later = "drop (tu_work u) (ss_rawq s)"
  have s: "stream_inv (ss_stream s)" "s_cb (ss_stream s) = gen2_callbacks" using assms by (simp_all add: session_wf_def)
  obtain st where st: "feed_chunks (ss_stream s) ?now = Some st" "stream_inv st" "abs_stream st = carve_feed (abs_stream (ss_stream s)) (concat ?now)"
    by (rule feed_chunks_feed [OF s(1)])
  have cb: "s_cb st = gen2_callbacks" using run_of_cb [OF assms, of "concat ?now"] by (simp add: abs_stream_user flip: st(3))
  define f where "f = (if tu_signal u then map_ctx (cx_stop_update (\<lambda>_. True)) else (\<lambda>s :: 'a session. s))"
  define t where "t = f (s\<lparr>ss_stream := st, ss_rawq := ?later\<rparr>)"
  have w: "worker_turn u s = Some t" by (simp add: worker_turn_def st(1) t_def f_def)
  have wf: "session_wf t" using st(2) cb by (auto simp: t_def f_def map_ctx_def session_wf_def stream_inv_user)
  have tf: "ss_async t = ss_async s" "ss_tr t = ss_tr s" "ss_rawq t = ?later" "tu_signal u \<Longrightarrow> cx_stop (ctx t)"
    by (simp_all add: t_def f_def map_ctx_def)
  have "concat (ss_rawq s) = concat ?now @ concat ?later" by (metis append_take_drop_id concat_append)
  then have r: "run_of s = carve_feed (abs_stream st) (concat ?later)" by (simp add: run_of_def st(3) carve_feed_append)
  have "same_run (abs_stream st) (abs_stream (ss_stream t))"
    using cb by (simp add: same_run_def abs_stream_user) (simp add: t_def f_def map_ctx_def abs_stream_def set_pend_def pending_def)
  then have "same_run (run_of s) (run_of t)" unfolding r by (simp add: run_of_def tf(3) same_run_feed)
  with w wf tf show thesis by (intro that)
qed

lemma feed_all_async:
  "ss_async s \<Longrightarrow> feed_all s ds = Some (s\<lparr>ss_rawq := ss_rawq s @ filter (\<lambda>d. d \<noteq> []) ds\<rparr>)"
  by (induction ds arbitrary: s) (auto simp: feed_cb_def)

lemma concat_filter_nonempty: "concat (filter (\<lambda>d. d \<noteq> []) ds) = concat ds"
  by (induction ds) auto

text \<open>
  A transport that delivers what its device has sent: \<open>sent\<close> gives all the bytes sent so far and \<open>ready\<close>
  the states in which this holds.
\<close>

locale byte_source =
  fixes ops :: "'t transport_ops" and ready :: "'t \<Rightarrow> bool" and sent :: "'t \<Rightarrow> bytes"
  assumes delivers: "ready t \<Longrightarrow> op_events ops ms t = (b, chunks, t') \<Longrightarrow> ready t' \<and> sent t' = sent t @ concat chunks"
begin

lemma events_run:
  assumes "session_wf s" and "ss_async s" and "ready (ss_tr s)"
  obtains b t new where "session_events ops ms s = Some (b, t)" "session_wf t" "ss_async t" "ready (ss_tr t)"
    "sent (ss_tr t) = sent (ss_tr s) @ new" "run_of t = carve_feed (run_of s) new"
proof -
  obtain b chunks t' where e: "op_events ops ms (ss_tr s) = (b, chunks, t')" by (cases "op_events ops ms (ss_tr s)")
  note d = delivers [OF assms(3) e]
  let ?t = "s\<lparr>ss_tr := t', ss_rawq := ss_rawq s @ filter (\<lambda>d. d \<noteq> []) chunks\<rparr>"
  have "session_events ops ms s = Some (b, ?t)"
    using assms(2) feed_all_async [of "s\<lparr>ss_tr := t'\<rparr>" chunks] by (simp add: session_events_def transport_events_def e)
  moreover have "run_of ?t = carve_feed (run_of s) (concat chunks)"
    by (simp add: run_of_def concat_filter_nonempty carve_feed_append)
  ultimately show thesis using that [of b ?t "concat chunks"] assms d by (simp add: session_wf_def)
qed

text \<open>A signal ends the event loop, and until then every byte sent has reached the parser or is queued for it.\<close>

lemma loop_conserves:
  assumes "tu_signal (turns n)"
  shows "session_wf s \<Longrightarrow> ss_async s \<Longrightarrow> ready (ss_tr s) \<Longrightarrow> i \<le> n \<Longrightarrow>
    \<exists>u t new. event_loop ops turns i s = Some (u, t) \<and> session_wf t \<and> ready (ss_tr t) \<and> sent (ss_tr t) = sent (ss_tr s) @ new
      \<and> same_run (run_of t) (carve_feed (run_of s) new)"
proof (induction "n - i" arbitrary: i s)
  case (0 i s)
  obtain t where t: "worker_turn (turns i) s = Some t" "session_wf t" "ss_async t = ss_async s" "ss_tr t = ss_tr s" "same_run (run_of s) (run_of t)"
    "tu_signal (turns i) \<Longrightarrow> cx_stop (ctx t)"
    using worker_turn_run [OF 0(2), of "turns i"] by blast
  have "i = n" using 0 by simp
  then have "event_loop ops turns i s = Some (turns i, t)" using t(1,6) assms by (subst event_loop.simps) simp
  then show ?case using t 0(4) same_run_sym [OF t(5)] by (intro exI [of _ "turns i"] exI [of _ t] exI [of _ "[]"]) (simp add: run_of_feed)
next
  case (Suc k i s)
  obtain t where t: "worker_turn (turns i) s = Some t" "session_wf t" "ss_async t = ss_async s" "ss_tr t = ss_tr s" "same_run (run_of s) (run_of t)"
    "tu_signal (turns i) \<Longrightarrow> cx_stop (ctx t)"
    using worker_turn_run [OF Suc(3), of "turns i"] by blast
  let ?go = "\<not> cx_stop (ctx t) \<and> transport_alive ops (ss_tr t) \<and> \<not> packet_finished (cx_packet (ctx t)) \<and> \<not> tu_write_failed (turns i)"
  have "ss_async t" "ready (ss_tr t)" using Suc.prems t by simp_all
  note r = events_run [OF t(2) this]
  obtain b t' new where e: "session_events ops 50 t = Some (b, t')" "session_wf t'" "ss_async t'" "ready (ss_tr t')"
    "sent (ss_tr t') = sent (ss_tr t) @ new" "run_of t' = carve_feed (run_of t) new"
    by (rule r)
  have loop: "event_loop ops turns i s = (if \<not> ?go then Some (turns i, t) else if \<not> b then Some (turns i, t') else event_loop ops turns (i + 1) t')"
    using t(1) e(1) by (subst event_loop.simps) simp
  show ?case
  proof (cases "?go \<and> b")
    case True
    have "k = n - (i + 1)" "i + 1 \<le> n" using Suc(2) by simp_all
    from Suc.hyps(1) [OF this(1) e(2-4) this(2)] obtain u t2 new2 where l: "event_loop ops turns (i + 1) t' = Some (u, t2)" "session_wf t2"
      "ready (ss_tr t2)" "sent (ss_tr t2) = sent (ss_tr t') @ new2" "same_run (run_of t2) (carve_feed (run_of t') new2)"
      by blast
    have "same_run (carve_feed (run_of t') new2) (carve_feed (run_of s) (new @ new2))"
      using same_run_feed [OF same_run_sym [OF t(5)], of "new @ new2"] by (simp add: e(6) run_of_feed)
    then show ?thesis using True loop l e(5) t(4) same_run_trans [OF l(5)]
      by (intro exI [of _ u] exI [of _ t2] exI [of _ "new @ new2"]) simp
  next
    case False
    have "same_run (run_of t) (carve_feed (run_of s) [])" "same_run (run_of t') (carve_feed (run_of s) new)"
      using same_run_sym [OF t(5)] same_run_feed [OF same_run_sym [OF t(5)], of new] by (simp_all add: run_of_feed e(6))
    then show ?thesis using False loop t e Suc.prems
      by (cases ?go) (auto intro!: exI [of _ "turns i"])
  qed
qed

end


text \<open>The replay backend is a byte source: what it has sent is the part of the file behind the read position.\<close>

interpretation replay: byte_source replay_ops "\<lambda>t. \<exists>pre. f = pre @ rp_rest t" "\<lambda>t. take (length f - length (rp_rest t)) f" for f
proof
  fix t ms b chunks t'
  assume "\<exists>pre. f = pre @ rp_rest t" and e: "op_events replay_ops ms t = (b, chunks, t')"
  then obtain pre where f: "f = pre @ rp_rest t" by blast
  let ?k = "if rp_alive t then if rp_stream_mode t then DATA_CHUNK else 16 else 0"
  have "concat chunks = take ?k (rp_rest t) \<and> rp_rest t' = drop ?k (rp_rest t)"
    using e by (auto simp: replay_ops_def tr_events_def tr_read_def Let_def split: if_splits)
  then obtain k where k: "concat chunks = take k (rp_rest t)" "rp_rest t' = drop k (rp_rest t)" by blast
  have "f = (pre @ take k (rp_rest t)) @ rp_rest t'" by (simp add: k(2) f)
  then show "(\<exists>pre. f = pre @ rp_rest t') \<and> take (length f - length (rp_rest t')) f = take (length f - length (rp_rest t)) f @ concat chunks"
    using f k(1) by (metis append_eq_conv_conj append_assoc append_same_eq add_diff_cancel_right' length_append)
qed

section \<open>The libusb backend as a byte source\<close>

text \<open>
  What libusb and the device owe: transfers can be submitted; the bytes of the transfers completed
  in one call are those the device has sent meanwhile, in the order of completion; transfers complete
  in the slots that are armed, and none fails for good.
\<close>

definition usb_stream :: "'d libusb_api \<Rightarrow> ('d \<Rightarrow> bytes) \<Rightarrow> nat set \<Rightarrow> bool" where
  "usb_stream api dev_sent armed \<longleftrightarrow> all_submitted api \<and> (\<forall>x d. dev_sent (snd (la_submit api x d)) = dev_sent d)
     \<and> (\<forall>ms d rc evs d'. la_handle api ms d = (rc, evs, d') \<longrightarrow> dev_sent d' = dev_sent d @ concat (map event_data evs)
          \<and> (\<forall>i status data. InDone i status data \<in> set evs \<longrightarrow> i \<in> armed \<and> status \<notin> {XferNoDevice, XferCancelled}))"

definition live :: "nat set \<Rightarrow> 'd libusb_priv \<Rightarrow> bool" where
  "live armed p \<longleftrightarrow> (\<exists>S. streaming S p) \<and> lp_streams_up p \<and> \<not> lp_closing p \<and> \<not> lp_fault p \<and> (\<forall>i \<in> armed. flying p i)"

lemma run_events_sent:
  assumes "\<forall>x d. dev_sent (snd (la_submit api x d)) = dev_sent d"
  shows "dev_sent (lp_lib (snd (run_events api es p))) = dev_sent (lp_lib p)"
proof (induction es arbitrary: p)
  case (Cons e es)
  have "dev_sent (lp_lib (snd (run_event api e p))) = dev_sent (lp_lib p)"
    using assms
    by (cases e) (auto simp: in_callback_def complete_in_def submit_in_eq set_in_def fault_if_def buf_read_def out_callback_def Let_def
        split: option.split prod.split)
  with Cons [of "snd (run_event api e p)"] show ?case by (auto split: prod.split)
qed simp

lemma live_events:
  assumes "usb_stream api dev_sent armed" and "live armed p" and "la_handle api ms (lp_lib p) = (rc, evs, d)"
    and "run_events api evs (p\<lparr>lp_lib := d\<rparr>) = (cs, q)"
  shows "live armed q" and "dev_sent (lp_lib q) = dev_sent (lp_lib p) @ concat cs"
proof -
  let ?p = "p\<lparr>lp_lib := d\<rparr>"
  obtain S where S: "streaming S ?p" using assms(2) by (auto simp: live_def streaming_def)
  have fl: "flying ?p = flying p" by (simp add: flying_def fun_eq_iff)
  have ev: "dev_sent d = dev_sent (lp_lib p) @ concat (map event_data evs)" "\<And>i status data. InDone i status data \<in> set evs \<Longrightarrow> i \<in> armed \<and> status \<notin> {XferNoDevice, XferCancelled}"
    using assms(1,3) unfolding usb_stream_def by blast+
  have "good_event ?p e" if "e \<in> set evs" for e
    by (cases e) (use that ev(2) assms(2) in \<open>auto simp: fl live_def\<close>)
  then have "list_all (good_event ?p) evs" by (simp add: list_all_iff)
  then have r: "concat cs = concat (map event_data evs)" "flying q = flying p"
    using run_events_effect [of "insert S (ran (named ?p))" ?p api evs] S assms(1,2,4) by (auto simp: streaming_def usb_stream_def live_def fl)
  show "live armed q" using streaming_events [OF S, of api evs] assms(2,4) r(2) by (auto simp: live_def same_frame_def)
  have "dev_sent (lp_lib q) = dev_sent d" using run_events_sent [of dev_sent api evs ?p] assms(1,4) by (simp add: usb_stream_def)
  then show "dev_sent (lp_lib q) = dev_sent (lp_lib p) @ concat cs" by (simp add: ev(1) r(1))
qed

lemma live_alive: "live armed (p\<lparr>lp_alive := b\<rparr>) = live armed p"
  by (simp add: live_def streaming_def flying_def)

lemma live_pump:
  "usb_stream api dev_sent armed \<Longrightarrow> live armed p \<Longrightarrow> tl_pump api n ms p = (b, cs, q) \<Longrightarrow>
     live armed q \<and> dev_sent (lp_lib q) = dev_sent (lp_lib p) @ concat cs"
proof (induction n arbitrary: p b cs q)
  case 0
  obtain rc evs d where h: "la_handle api ms (lp_lib p) = (rc, evs, d)" by (cases "la_handle api ms (lp_lib p)")
  obtain cs1 p1 where r: "run_events api evs (p\<lparr>lp_lib := d\<rparr>) = (cs1, p1)" by (cases "run_events api evs (p\<lparr>lp_lib := d\<rparr>)")
  note l = live_events [OF 0(1,2) h r]
  show ?case using 0 l by (auto simp: tl_pump.simps [of api 0] h r live_alive split: if_splits)
next
  case (Suc n)
  obtain rc evs d where h: "la_handle api ms (lp_lib p) = (rc, evs, d)" by (cases "la_handle api ms (lp_lib p)")
  obtain cs1 p1 where r: "run_events api evs (p\<lparr>lp_lib := d\<rparr>) = (cs1, p1)" by (cases "run_events api evs (p\<lparr>lp_lib := d\<rparr>)")
  note l = live_events [OF Suc(2,3) h r]
  obtain b2 cs2 p2 where n: "tl_pump api n ms p1 = (b2, cs2, p2)" by (cases "tl_pump api n ms p1")
  show ?case using Suc(2-4) l Suc.IH [OF Suc(2) l(1) n] by (auto simp: tl_pump.simps [of api "Suc n"] h r n live_alive split: if_splits)
qed

lemma libusb_source:
  assumes "usb_stream api dev_sent armed"
  shows "byte_source (libusb_ops api) (live armed) (\<lambda>p. dev_sent (lp_lib p))"
proof
  fix t ms b chunks t'
  assume l: "live armed t" and e: "op_events (libusb_ops api) ms t = (b, chunks, t')"
  then have "t' = t \<and> chunks = [] \<or> tl_pump api (la_interrupts api) ms t = (b, chunks, t')"
    by (auto simp: libusb_ops_def tl_events_def live_def split: if_splits)
  then show "live armed t' \<and> dev_sent (lp_lib t') = dev_sent (lp_lib t) @ concat chunks"
    using live_pump [OF assms l] l by auto
qed

section \<open>Properties\<close>

text \<open>
  C25. A live session on the libusb backend: while the device streams and until a signal ends the
  capture, the event loop returns, and with the queue drained the parser is where it would be had it
  been fed at once with every byte the device sent, whatever the completions, the size of the pieces
  and the schedule of the worker thread. If these bytes are blocks with consecutive sequence
  numbers, the frame parser has seen exactly their payloads, in order. No buffer was misused.
\<close>

theorem live_session_conserves:
  assumes "usb_stream api dev_sent armed" and "live armed (ss_tr s)" and "session_wf s" and "ss_async s" and "tu_signal (turns n)"
  shows "\<exists>u t v new. event_loop (libusb_ops api) turns 0 s = Some (u, t) \<and> drain_rawq t = Some v \<and> \<not> lp_fault (ss_tr v)
    \<and> dev_sent (lp_lib (ss_tr v)) = dev_sent (lp_lib (ss_tr s)) @ new
    \<and> cx_packet (ctx v) = cx_packet (c_user (carve_feed (abs_stream (ss_stream s)) (concat (ss_rawq s) @ new)))
    \<and> (\<forall>l bs. aligned (ss_stream s) l \<and> ss_rawq s = [] \<and> \<not> cm_suppress (cx_cmd (ctx s)) \<and> consecutive l bs
        \<and> list_all (\<lambda>b. blk_ok b \<and> payload b \<noteq> []) bs \<and> bs \<noteq> [] \<and> new = concat (map blk_encode bs) \<longrightarrow>
        cx_packet (ctx v) = packet_feed (cx_packet (ctx s)) (concat (map payload bs)))"
proof -
  obtain u t new where l: "event_loop (libusb_ops api) turns 0 s = Some (u, t)" "session_wf t" "live armed (ss_tr t)"
    "dev_sent (lp_lib (ss_tr t)) = dev_sent (lp_lib (ss_tr s)) @ new" "same_run (run_of t) (carve_feed (run_of s) new)"
    using byte_source.loop_conserves [where turns = turns and n = n and i = 0 and s = s, OF libusb_source [OF assms(1)]] assms(2-5) by blast
  have "stream_inv (ss_stream t)" using l(2) by (simp add: session_wf_def)
  then obtain st where st: "feed_chunks (ss_stream t) (ss_rawq t) = Some st" "abs_stream st = run_of t"
    unfolding run_of_def by (rule feed_chunks_feed)
  let ?v = "t\<lparr>ss_stream := st, ss_rawq := [], ss_async := False\<rparr>"
  have "run_of s = carve_feed (abs_stream (ss_stream s)) (concat (ss_rawq s))" by (simp add: run_of_def)
  then have "carve_feed (run_of s) new = carve_feed (abs_stream (ss_stream s)) (concat (ss_rawq s) @ new)" by (simp add: carve_feed_append)
  then have pk: "cx_packet (ctx ?v) = cx_packet (c_user (carve_feed (abs_stream (ss_stream s)) (concat (ss_rawq s) @ new)))"
    using l(5) st(2) abs_stream_user(1) [of st] by (simp add: same_run_def)
  have "cx_packet (ctx ?v) = packet_feed (cx_packet (ctx s)) (concat (map payload bs))"
    if "aligned (ss_stream s) l" "ss_rawq s = []" "\<not> cm_suppress (cx_cmd (ctx s))" "consecutive l bs" "list_all (\<lambda>b. blk_ok b \<and> payload b \<noteq> []) bs"
      "bs \<noteq> []" "new = concat (map blk_encode bs)" for l bs
    using that pk carve_aligned [OF that(1), of bs] deliver_feeds [OF that(4), of "ctx s"] assms(3)
    by (simp add: list_all_iff session_wf_def)
  moreover have "drain_rawq t = Some ?v" by (simp add: drain_rawq_def st(1))
  ultimately show ?thesis using l(1,3,4) pk by (intro exI [of _ u] exI [of _ t] exI [of _ ?v] exI [of _ new]) (auto simp: live_def)
qed


text \<open>A device that sends one block, in two pieces completed in two slots, and then nothing more.\<close>

definition pulse_block :: blk where
  "pulse_block = (7, 0, 0, [0, 0, 0, 0])"

definition pulse_api :: "bytes libusb_api" where
  "pulse_api = \<lparr>la_init = (\<lambda>d. (True, d)), la_devices = (\<lambda>d. (Some [], d)), la_alloc = (\<lambda>d. (True, d)), la_submit = (\<lambda>x d. (0, d)),
     la_cancel = (\<lambda>x d. d), la_bulk = (\<lambda>n ms d. (RcTimeout, [], [], d)), la_reset = (\<lambda>d. ([], d)),
     la_handle = (\<lambda>ms d.
        if d = [] then let piece = take 9 (blk_encode pulse_block) in (RcOk, [InDone 3 XferCompleted piece], d @ piece)
        else if length d = 9 then let piece = drop 9 (blk_encode pulse_block) in (RcOk, [InDone 5 XferCompleted piece], d @ piece)
        else (RcTimeout, [], d)), la_interrupts = 0, la_window = (\<lambda>ms d. 0)\<rparr>"

definition pulse_turns :: "nat \<Rightarrow> turn" where
  "pulse_turns i = \<lparr>tu_work = i, tu_signal = (i = 4), tu_write_failed = False\<rparr>"

lemma pulse_streams: "usb_stream pulse_api (\<lambda>d. d) {..<16}"
proof -
  have "length (blk_encode pulse_block) = 20" by code_simp
  then show ?thesis by (auto simp: usb_stream_def all_submitted_def pulse_api_def Let_def IN_TRANSFER_SIZE_def split: if_splits)
qed

lemma pulse_live:
  obtains q where "tl_stream_mode pulse_api (opened []) = io_return q" "live {..<16} q"
proof -
  have "\<forall>d. fst (la_alloc pulse_api d)" "all_submitted pulse_api" by (simp_all add: pulse_api_def all_submitted_def)
  then obtain q where q: "tl_stream_mode pulse_api (opened []) = io_return q" "\<forall>i < 16. flying q i" by (rule opened_streams)
  obtain S where S: "streaming S q" "lp_fault q = lp_fault (opened ([] :: bytes))" "lp_closing q = lp_closing (opened ([] :: bytes))" "lp_streams_up q"
    using stream_mode_streams [OF opened_ok(1-3) q(1)] by blast
  have "live {..<16} q" unfolding live_def using S q(2) opened_ok(4,5) [of "[] :: bytes"] by simp blast
  with q(1) show thesis by (rule that)
qed

theorem live_session_conserves_witness:
  "\<exists>q u t v new. tl_stream_mode pulse_api (opened []) = io_return q
    \<and> event_loop (libusb_ops pulse_api) pulse_turns 0 ((session_new demo_opts q)\<lparr>ss_async := True\<rparr>) = Some (u, t)
    \<and> drain_rawq t = Some v \<and> \<not> lp_fault (ss_tr v) \<and> lp_lib (ss_tr v) = lp_lib q @ new
    \<and> cx_packet (ctx v) = cx_packet (c_user (carve_feed (abs_stream (ss_stream (session_new demo_opts q))) new))"
proof -
  obtain q where q: "tl_stream_mode pulse_api (opened []) = io_return q" "live {..<16} q" by (rule pulse_live)
  let ?s = "(session_new demo_opts q)\<lparr>ss_async := True\<rparr>"
  have new: "ss_tr ?s = q" "ss_rawq ?s = []" "ss_stream ?s = ss_stream (session_new demo_opts q)" by (simp_all add: session_new_def)
  have l: "live {..<16} (ss_tr ?s)" unfolding new(1) by (rule q(2))
  have wf: "session_wf ?s" using stream_new_inv by (simp add: session_wf_def session_new_def) (simp add: stream_new_def)
  have "ss_async ?s" "tu_signal (pulse_turns 4)" by (simp_all add: pulse_turns_def)
  from live_session_conserves [where turns = pulse_turns and n = 4, OF pulse_streams l wf this] show ?thesis
    unfolding new concat.simps append_Nil using q(1) by blast
qed

end
