(* ===== verification/Extcap.thy ===== *)
theory Extcap
  imports Packet
begin

text \<open>
  The command line and the extcap queries, \<open>src/extcap.c\<close>: the option table, the parser over it, the
  values computed from the parsed options, the help text and the answers to Wireshark. Strings carry
  no zero byte, as C strings; a pointer that may be NULL is an option; writing through a NULL pointer
  and storing a string into a \<open>bool\<close> are outcomes of their own, so that their absence is a theorem.
\<close>

section \<open>Definitions\<close>

subsection \<open>Options\<close>

record Options =
  o_help :: bool
  o_speed :: "string option"
  o_fold_empty :: bool
  o_exclude_line_state :: bool
  o_limit :: "string option"
  o_trigger :: "string option"
  o_test :: bool
  o_extcap_version :: bool
  o_extcap_dlts :: bool
  o_extcap_interfaces :: bool
  o_extcap_interface :: "string option"
  o_extcap_config :: bool
  o_extcap_capture :: bool
  o_extcap_fifo :: "string option"
  o_replay :: "string option"
  o_mcu_sram :: "string option"
  o_mcu_eeprom :: "string option"
  o_fpga_sram :: "string option"
  o_fpga_flash :: "string option"
  o_fpga_erase :: bool
  o_capture_speed :: int
  o_capture_trigger :: capture_trigger
  o_capture_limit :: int

definition g_opt_zero :: Options where
  "g_opt_zero = \<lparr>o_help = False, o_speed = None, o_fold_empty = False, o_exclude_line_state = False, o_limit = None,
     o_trigger = None, o_test = False, o_extcap_version = False, o_extcap_dlts = False, o_extcap_interfaces = False,
     o_extcap_interface = None, o_extcap_config = False, o_extcap_capture = False, o_extcap_fifo = None,
     o_replay = None, o_mcu_sram = None, o_mcu_eeprom = None, o_fpga_sram = None, o_fpga_flash = None,
     o_fpga_erase = False, o_capture_speed = 0, o_capture_trigger = CaptureTrigger_Disabled, o_capture_limit = 0\<rparr>"

text \<open>The address of a field of \<open>g_opt\<close>, by the type of the field.\<close>

datatype opt_ref = BoolRef "(bool \<Rightarrow> bool) \<Rightarrow> Options \<Rightarrow> Options"
  | TextRef "(string option \<Rightarrow> string option) \<Rightarrow> Options \<Rightarrow> Options"

record OsOption =
  short_name :: nat
  long_name :: "string option"
  arg_name :: "string option"
  opt_value :: "opt_ref option"
  description :: string

datatype cli_stop = CliError string | NullWrite | TypeClash | HelpExit string

type_synonym 'a cli = "cli_stop + 'a"

definition cli_bind :: "'a cli \<Rightarrow> ('a \<Rightarrow> 'b cli) \<Rightarrow> 'b cli" where
  "cli_bind m f = (case m of Inl e \<Rightarrow> Inl e | Inr x \<Rightarrow> f x)"

definition store_bool :: "OsOption \<Rightarrow> Options \<Rightarrow> Options cli" where
  "store_bool opt g =
     (case opt_value opt of None \<Rightarrow> Inl NullWrite | Some (BoolRef upd) \<Rightarrow> Inr (upd (\<lambda>_. True) g) | Some (TextRef _) \<Rightarrow> Inl TypeClash)"

definition store_text :: "OsOption \<Rightarrow> string \<Rightarrow> Options \<Rightarrow> Options cli" where
  "store_text opt text g =
     (case opt_value opt of None \<Rightarrow> Inl NullWrite | Some (TextRef upd) \<Rightarrow> Inr (upd (\<lambda>_. Some text) g) | Some (BoolRef _) \<Rightarrow> Inl TypeClash)"

subsection \<open>The parser\<close>

text \<open>The rows up to the terminator.\<close>

definition option_rows :: "OsOption list \<Rightarrow> OsOption list" where
  "option_rows = takeWhile (\<lambda>opt. \<not> Option.is_none (opt_value opt) \<or> short_name opt \<noteq> 0)"

definition find_long_option :: "OsOption list \<Rightarrow> string \<Rightarrow> OsOption option" where
  "find_long_option options text = find (\<lambda>opt. long_name opt = Some text) (option_rows options)"

definition find_short_option :: "OsOption list \<Rightarrow> char \<Rightarrow> OsOption option" where
  "find_short_option options chr = find (\<lambda>opt. short_name opt = of_char chr) (option_rows options)"

text \<open>\<open>strchr(arg, '=')\<close>: the text before the first \<open>=\<close> and what follows it, if there is one.\<close>

fun cut_value :: "string \<Rightarrow> string \<times> string option" where
  "cut_value [] = ([], None)"
| "cut_value (c # s) = (if c = CHR ''='' then ([], Some s) else apfst (Cons c) (cut_value s))"

text \<open>One long option; \<open>text\<close> is the argument behind the two dashes.\<close>

definition long_opt :: "OsOption list \<Rightarrow> string \<Rightarrow> Options \<Rightarrow> (OsOption option \<times> Options) cli" where
  "long_opt options text g =
     (let (name, value) = cut_value text
      in case find_long_option options name of
           None \<Rightarrow> Inl (CliError (''unrecognized option: --'' @ name))
         | Some opt \<Rightarrow>
             (case value of
                Some v \<Rightarrow> cli_bind (if arg_name opt \<noteq> None then store_text opt v g else store_bool opt g) (\<lambda>g. Inr (None, g))
              | None \<Rightarrow> if arg_name opt \<noteq> None then Inr (Some opt, g) else cli_bind (store_bool opt g) (\<lambda>g. Inr (None, g))))"

definition needs_short :: "OsOption \<Rightarrow> cli_stop" where
  "needs_short opt = CliError (''option -'' @ [char_of (short_name opt)] @ '' requires an argument'')"

fun short_opts :: "OsOption list \<Rightarrow> string \<Rightarrow> OsOption option \<Rightarrow> Options \<Rightarrow> (OsOption option \<times> Options) cli" where
  "short_opts options [] arg_opt g = Inr (arg_opt, g)"
| "short_opts options (c # ptr) arg_opt g =
     (case arg_opt of
        Some opt \<Rightarrow> Inl (needs_short opt)
      | None \<Rightarrow>
          (case find_short_option options c of
             None \<Rightarrow> Inl (CliError (''unrecognized option: -'' @ [c]))
           | Some opt \<Rightarrow> if arg_name opt \<noteq> None then short_opts options ptr (Some opt) g
                         else cli_bind (store_bool opt g) (short_opts options ptr None)))"

definition opt_end :: "OsOption option \<Rightarrow> bool \<Rightarrow> nat \<Rightarrow> Options \<Rightarrow> (nat \<times> Options) cli" where
  "opt_end arg_opt short_opt argc g =
     (case arg_opt of
        None \<Rightarrow> Inr (argc, g)
      | Some opt \<Rightarrow> if short_opt then Inl (needs_short opt)
                    else Inl (CliError (''option --'' @ the (long_name opt) @ '' requires an argument'')))"

fun opt_loop :: "OsOption list \<Rightarrow> nat \<Rightarrow> nat \<Rightarrow> string list \<Rightarrow> OsOption option \<Rightarrow> bool \<Rightarrow> Options \<Rightarrow> (nat \<times> Options) cli" where
  "opt_loop options argc i [] arg_opt short_opt g = opt_end arg_opt short_opt argc g"
| "opt_loop options argc i (arg # args) arg_opt short_opt g =
     (case arg_opt of
        Some opt \<Rightarrow>
          (if take 1 arg = ''-'' then opt_end arg_opt short_opt argc g
           else cli_bind (store_text opt arg g) (opt_loop options argc (i + 1) args None short_opt))
      | None \<Rightarrow>
          (if take 1 arg \<noteq> ''-'' then Inr (i, g)
           else if take 2 arg = ''--''
           then cli_bind (long_opt options (drop 2 arg) g) (\<lambda>(arg_opt, g). opt_loop options argc (i + 1) args arg_opt False g)
           else if arg = ''-'' then Inl (CliError ''expected option name'')
           else cli_bind (short_opts options (drop 1 arg) None g) (\<lambda>(arg_opt, g). opt_loop options argc (i + 1) args arg_opt True g)))"

definition os_opt_parse :: "OsOption list \<Rightarrow> string list \<Rightarrow> Options \<Rightarrow> (nat \<times> Options) cli" where
  "os_opt_parse options argv g = opt_loop options (length argv) 1 (tl argv) None False g"


subsection \<open>The option table\<close>

definition section_row :: "string \<Rightarrow> OsOption" where
  "section_row text = \<lparr>short_name = 1, long_name = Some text, arg_name = None, opt_value = None, description = ''''\<rparr>"

definition flag_row :: "nat \<Rightarrow> string \<Rightarrow> ((bool \<Rightarrow> bool) \<Rightarrow> Options \<Rightarrow> Options) \<Rightarrow> string \<Rightarrow> OsOption" where
  "flag_row s name upd text =
     \<lparr>short_name = s, long_name = Some name, arg_name = None, opt_value = Some (BoolRef upd), description = text\<rparr>"

definition text_row :: "nat \<Rightarrow> string \<Rightarrow> string \<Rightarrow> ((string option \<Rightarrow> string option) \<Rightarrow> Options \<Rightarrow> Options) \<Rightarrow> string \<Rightarrow> OsOption" where
  "text_row s name arg upd text =
     \<lparr>short_name = s, long_name = Some name, arg_name = Some arg, opt_value = Some (TextRef upd), description = text\<rparr>"

definition options :: "OsOption list" where
  "options =
     [section_row ''General:'',
      flag_row (of_char (CHR ''h'')) ''help'' o_help_update
       ''print this help message and exit'',
      section_row ''Capture:'',
      text_row (of_char (CHR ''s'')) ''speed'' ''speed'' o_speed_update
       (''select USB speed: '' @ [CHR 0x27] @ ''auto'' @ [CHR 0x27] @ '' (default), '' @ [CHR 0x27] @ ''ls'' @ [CHR 0x27] @ '', '' @ [CHR 0x27] @ ''fs'' @ [CHR 0x27] @ '' or '' @ [CHR 0x27] @ ''hs'' @ [CHR 0x27]),
      flag_row (of_char (CHR ''l'')) ''fold'' o_fold_empty_update
       ''fold empty frames'',
      flag_row (of_char (CHR ''e'')) ''exclude'' o_exclude_line_state_update
       ''exclude line state'',
      text_row (of_char (CHR ''n'')) ''limit'' ''number'' o_limit_update
       ''limit the number of captured packets'',
      text_row (of_char (CHR ''t'')) ''trigger'' ''type'' o_trigger_update
       (''capture trigger: '' @ [CHR 0x27] @ ''disabled'' @ [CHR 0x27] @ '' (default), '' @ [CHR 0x27] @ ''low'' @ [CHR 0x27] @ '', '' @ [CHR 0x27] @ ''high'' @ [CHR 0x27] @ '', '' @ [CHR 0x27] @ ''falling'' @ [CHR 0x27] @ '' or '' @ [CHR 0x27] @ ''rising'' @ [CHR 0x27]),
      flag_row 0 ''test'' o_test_update
       ''perform a transfer rate test (gen1)'',
      section_row ''Wireshark extcap:'',
      flag_row 0 ''extcap-version'' o_extcap_version_update
       ''show the version of this utility'',
      flag_row 0 ''extcap-dlts'' o_extcap_dlts_update
       ''provide a list of dlts for the given interface'',
      flag_row 0 ''extcap-interfaces'' o_extcap_interfaces_update
       ''provide a list of interfaces to capture from'',
      text_row 0 ''extcap-interface'' ''name'' o_extcap_interface_update
       ''provide the interface to capture from'',
      flag_row 0 ''extcap-config'' o_extcap_config_update
       ''provide a list of configurations for the given interface'',
      flag_row (of_char (CHR ''c'')) ''capture'' o_extcap_capture_update
       ''start capture'',
      text_row (of_char (CHR ''f'')) ''fifo'' ''name'' o_extcap_fifo_update
       ''output fifo or file name'',
      section_row ''Development:'',
      text_row 0 ''replay'' ''file'' o_replay_update
       ''replay a pre-recorded gen2 upstream stream for offline testing'',
      section_row ''Firmware update (gen1):'',
      text_row 0 ''mcu-sram'' ''name'' o_mcu_sram_update
       ''upload FX2LP firmware into the SRAM and run it'',
      text_row 0 ''mcu-eeprom'' ''name'' o_mcu_eeprom_update
       ''program FX2LP firmware into the EEPROM'',
      text_row 0 ''fpga-sram'' ''name'' o_fpga_sram_update
       ''upload BIT file into the FPGA SRAM'',
      text_row 0 ''fpga-flash'' ''name'' o_fpga_flash_update
       ''program JED file into the FPGA flash'',
      flag_row 0 ''fpga-erase'' o_fpga_erase_update
       ''erase FPGA flash'',
      \<lparr>short_name = 0, long_name = None, arg_name = None, opt_value = None, description = ''''\<rparr>]"

subsection \<open>Help\<close>

definition NL :: string where "NL = [CHR 0x0A]"

definition help_row :: "OsOption \<Rightarrow> string" where
  "help_row opt =
     (if short_name opt = 1 then NL @ the (long_name opt) @ NL
      else ''  '' @ (if short_name opt \<noteq> 0 then ''-'' @ [char_of (short_name opt)] @ '', '' else [])
        @ (case long_name opt of Some n \<Rightarrow> ''--'' @ n | None \<Rightarrow> [])
        @ (case arg_name opt of Some a \<Rightarrow> '' <'' @ a @ ''>'' | None \<Rightarrow> [])
        @ NL @ ''          '' @ description opt @ NL)"

definition print_help :: "string \<Rightarrow> string \<Rightarrow> OsOption list \<Rightarrow> 'a cli" where
  "print_help build name opts =
     Inl (HelpExit (''USB Sniffer, built '' @ build @ NL @ NL @ ''Usage: '' @ name @ '' [options]'' @ NL
       @ concat (map help_row (option_rows opts)) @ NL))"

subsection \<open>Parsed values\<close>

definition get_capture_speed :: "Options \<Rightarrow> int cli" where
  "get_capture_speed g =
     (case o_speed g of
        None \<Rightarrow> Inr CaptureSpeed_Reset
      | Some s \<Rightarrow>
          if s = ''ls'' then Inr CaptureSpeed_LS
          else if s = ''fs'' then Inr CaptureSpeed_FS
          else if s = ''hs'' then Inr CaptureSpeed_HS
          else if s = ''auto'' then Inr CaptureSpeed_Reset
          else Inl (CliError (''unrecognized capture speed setting: '' @ [CHR 0x27] @ s @ [CHR 0x27])))"

definition get_capture_trigger :: "Options \<Rightarrow> capture_trigger cli" where
  "get_capture_trigger g =
     (case o_trigger g of
        None \<Rightarrow> Inr CaptureTrigger_Disabled
      | Some s \<Rightarrow>
          if s = ''disabled'' then Inr CaptureTrigger_Disabled
          else if s = ''low'' then Inr CaptureTrigger_Low
          else if s = ''high'' then Inr CaptureTrigger_High
          else if s = ''falling'' then Inr CaptureTrigger_Falling
          else if s = ''rising'' then Inr CaptureTrigger_Rising
          else Inl (CliError (''unrecognized capture trigger setting: '' @ [CHR 0x27] @ s @ [CHR 0x27])))"

text \<open>\<open>strtoll(s, NULL, 10)\<close>: leading white space, a sign, the longest run of digits, saturation.\<close>

definition is_space :: "char \<Rightarrow> bool" where
  "is_space c \<longleftrightarrow> c = CHR '' '' \<or> (9 \<le> (of_char c :: nat) \<and> (of_char c :: nat) \<le> 13)"

definition is_digit :: "char \<Rightarrow> bool" where
  "is_digit c \<longleftrightarrow> 48 \<le> (of_char c :: nat) \<and> (of_char c :: nat) \<le> 57"

definition digits_value :: "string \<Rightarrow> int" where
  "digits_value s = foldl (\<lambda>n c. 10 * n + (of_char c - 48)) 0 (takeWhile is_digit s)"

definition strtoll :: "string \<Rightarrow> int" where
  "strtoll s =
     (let s = dropWhile is_space s;
          n = (if take 1 s = ''-'' then - digits_value (drop 1 s)
               else if take 1 s = ''+'' then digits_value (drop 1 s) else digits_value s)
      in max (- (2 ^ 63)) (min (2 ^ 63 - 1) n))"

definition parse_command_line :: "string \<Rightarrow> string list \<Rightarrow> Options cli" where
  "parse_command_line build argv =
     cli_bind (os_opt_parse options argv g_opt_zero) (\<lambda>(last, g).
     if o_help g then print_help build (hd argv) options
     else if last \<noteq> length argv \<and> \<not> (o_extcap_version g \<or> o_extcap_interfaces g \<or> o_extcap_dlts g \<or> o_extcap_config g \<or> o_extcap_interface g \<noteq> None)
     then Inl (CliError (''malformed command line, use '' @ [CHR 0x27] @ ''-h'' @ [CHR 0x27] @ '' for more information''))
     else cli_bind (get_capture_speed g) (\<lambda>speed.
          cli_bind (get_capture_trigger g) (\<lambda>trigger.
          Inr (g\<lparr>o_capture_speed := speed, o_capture_trigger := trigger,
                 o_capture_limit := (case o_limit g of Some s \<Rightarrow> strtoll s | None \<Rightarrow> -1)\<rparr>))))"

subsection \<open>Extcap queries\<close>

definition INTERFACE_NAME :: string where "INTERFACE_NAME = ''usb_sniffer''"
definition VENDOR_NAME :: string where "VENDOR_NAME = ''Vllogic''"
definition EXTCAP_VERSION :: string where "EXTCAP_VERSION = ''2.0''"
definition EXTCAP_URL :: string where "EXTCAP_URL = ''https://github.com/vllogic/usb_sniffer.extcap''"

definition version_line :: string where
  "version_line = ''extcap {version='' @ EXTCAP_VERSION @ ''}{help='' @ EXTCAP_URL @ ''}{display='' @ VENDOR_NAME @ ''}''"

definition dlt_lines :: "string list" where
  "dlt_lines =
     [''dlt {number='' @ dec_int 288 @ ''}{name=USB_2_0}{display=USB 2.0}'',
      ''dlt {number='' @ dec_int 293 @ ''}{name=USB_2_0_LOW_SPEED}{display=USB 2.0 Low Speed}'',
      ''dlt {number='' @ dec_int 294 @ ''}{name=USB_2_0_FULL_SPEED}{display=USB 2.0 Full Speed}'',
      ''dlt {number='' @ dec_int 295 @ ''}{name=USB_2_0_HIGH_SPEED}{display=USB 2.0 High Speed}'']"

definition config_lines :: "string list" where
  "config_lines =
     [''arg {number=0}{call=--speed}{display=Capture Speed}{tooltip=USB capture speed}{type=selector}'',
      ''value {arg=0}{value=auto}{display=Auto-Detect}{default=true}'',
      ''value {arg=0}{value=ls}{display=Low-Speed}{default=false}'',
      ''value {arg=0}{value=fs}{display=Full-Speed}{default=false}'',
      ''value {arg=0}{value=hs}{display=High-Speed}{default=false}'',
      ''arg {number=1}{call=--fold}{display=Fold empty frames}{tooltip=Fold frames that have no data or errors}{type=boolflag}'',
      ''arg {number=2}{call=--exclude}{display=Exclude Line State}{tooltip=Exclude Line State to reduce CPU usage}{type=boolflag}'',
      ''arg {number=3}{call=--trigger}{display=Capture Trigger}{tooltip=Condition used to start the capture}{type=selector}'',
      ''value {arg=3}{value=disabled}{display=Disabled}{default=true}'',
      ''value {arg=3}{value=low}{display=Low}{default=false}'',
      ''value {arg=3}{value=high}{display=High}{default=false}'',
      ''value {arg=3}{value=falling}{display=Falling}{default=false}'',
      ''value {arg=3}{value=rising}{display=Rising}{default=false}'',
      ''arg {number=4}{call=--limit}{display=Capture Limit}{tooltip=Limit the number of captured packets (0 for unlimited)}{type=integer}{range=0,10000000}{default=0}'']"

text \<open>The result and the lines printed on the standard output.\<close>

definition handle_extcap_request :: "Options \<Rightarrow> bool \<times> string list" where
  "handle_extcap_request g =
     (let out = (if o_extcap_version g then [version_line] else [])
      in if o_extcap_interfaces g
         then (True, out @ [''interface {value='' @ INTERFACE_NAME @ ''}{display='' @ VENDOR_NAME @ ''}''])
         else if o_extcap_version g then (True, out)
         else if o_extcap_interface g \<noteq> None \<and> o_extcap_interface g \<noteq> Some INTERFACE_NAME then (True, out)
         else if o_extcap_dlts g then (True, out @ dlt_lines)
         else if o_extcap_config g then (True, out @ config_lines)
         else (False, out))"


section \<open>Stores are well typed\<close>

definition row_ok :: "OsOption \<Rightarrow> bool" where
  "row_ok opt \<longleftrightarrow>
     (case (arg_name opt, opt_value opt) of
        (Some _, Some (TextRef _)) \<Rightarrow> True
      | (None, Some (BoolRef _)) \<Rightarrow> True
      | (None, None) \<Rightarrow> short_name opt = 1
      | _ \<Rightarrow> False)"

text \<open>A section row named by an argument.\<close>

definition names_section :: "OsOption list \<Rightarrow> string \<Rightarrow> bool" where
  "names_section opts arg \<longleftrightarrow>
     CHR 0x01 \<in> set arg \<or> (\<exists>opt \<in> set (option_rows opts). short_name opt = 1 \<and> long_name opt = Some (fst (cut_value (drop 2 arg))))"

lemma store_bool_cases: "row_ok opt \<Longrightarrow> arg_name opt = None \<Longrightarrow> (\<exists>g'. store_bool opt g = Inr g') \<or> short_name opt = 1 \<and> store_bool opt g = Inl NullWrite"
  by (auto simp: row_ok_def store_bool_def split: option.splits opt_ref.splits)

lemma store_text_cases: "row_ok opt \<Longrightarrow> arg_name opt \<noteq> None \<Longrightarrow> \<exists>g'. store_text opt t g = Inr g'"
  by (auto simp: row_ok_def store_text_def split: option.splits opt_ref.splits)

lemma find_row: "find P (option_rows opts) = Some opt \<Longrightarrow> opt \<in> set (option_rows opts) \<and> P opt"
  by (auto simp: find_Some_iff)

text \<open>What a step may end in, and the option it may leave waiting for its argument.\<close>

definition step_ok :: "OsOption list \<Rightarrow> bool \<Rightarrow> (OsOption option \<times> Options) cli \<Rightarrow> bool" where
  "step_ok opts named r \<longleftrightarrow>
     (case r of Inl e \<Rightarrow> e \<noteq> TypeClash \<and> (e = NullWrite \<longrightarrow> named)
      | Inr (None, g) \<Rightarrow> True
      | Inr (Some opt, g) \<Rightarrow> row_ok opt \<and> arg_name opt \<noteq> None)"

lemma long_opt_ok:
  assumes "\<forall>opt \<in> set (option_rows opts). row_ok opt"
  shows "step_ok opts (names_section opts arg) (long_opt opts (drop 2 arg) g)"
proof -
  obtain name val where c: "cut_value (drop 2 arg) = (name, val)" by (cases "cut_value (drop 2 arg)")
  show ?thesis
  proof (cases "find_long_option opts name")
    case None
    then show ?thesis by (simp add: long_opt_def c step_ok_def)
  next
    case (Some opt)
    then have o: "opt \<in> set (option_rows opts)" "long_name opt = Some name" "row_ok opt"
      using find_row assms unfolding find_long_option_def by auto
    show ?thesis
    proof (cases "arg_name opt")
      case None
      have "store_bool opt g = Inl NullWrite \<Longrightarrow> short_name opt = 1 \<Longrightarrow> names_section opts arg"
        using o(1,2) c by (auto simp: names_section_def)
      then show ?thesis using store_bool_cases [OF o(3) None, of g] Some None
        by (auto simp: long_opt_def c step_ok_def cli_bind_def split: option.split)
    next
      case (Some a)
      then show ?thesis using store_text_cases [OF o(3)] \<open>find_long_option opts name = Some opt\<close> o(3)
        by (auto simp: long_opt_def c step_ok_def cli_bind_def split: option.split sum.splits) (metis Inr_not_Inl)+
    qed
  qed
qed

lemma short_opts_ok:
  assumes "\<forall>opt \<in> set (option_rows opts). row_ok opt"
  shows "(\<forall>opt. arg_opt = Some opt \<longrightarrow> row_ok opt \<and> arg_name opt \<noteq> None) \<Longrightarrow> set ptr \<subseteq> set arg \<Longrightarrow>
    step_ok opts (names_section opts arg) (short_opts opts ptr arg_opt g)"
proof (induction ptr arbitrary: arg_opt g)
  case Nil
  then show ?case by (cases arg_opt) (auto simp: step_ok_def)
next
  case (Cons c ptr)
  show ?case
  proof (cases "arg_opt = None \<and> find_short_option opts c \<noteq> None")
    case False
    then show ?thesis by (auto simp: step_ok_def needs_short_def split: option.splits)
  next
    case True
    then obtain opt where f: "arg_opt = None" "find_short_option opts c = Some opt" by auto
    then have o: "short_name opt = of_char c" "row_ok opt"
      using find_row assms unfolding find_short_option_def by auto
    have sec: "names_section opts arg" if "short_name opt = 1"
    proof -
      have "of_char c = (of_char (CHR 0x01) :: nat)" using o(1) that by simp
      then have "c = CHR 0x01" by (rule of_char_eq_iff [THEN iffD1])
      then show ?thesis using Cons.prems(2) by (simp add: names_section_def)
    qed
    show ?thesis
    proof (cases "arg_name opt")
      case None
      then show ?thesis using store_bool_cases [OF o(2) None, of g] Cons.IH [of None] Cons.prems(2) sec
        by (auto simp: f cli_bind_def step_ok_def)
    next
      case (Some a)
      then show ?thesis using Cons.IH [of "Some opt" g] Cons.prems(2) o(2) by (simp add: f)
    qed
  qed
qed

lemma opt_loop_ok:
  assumes "\<forall>opt \<in> set (option_rows opts). row_ok opt"
  shows "(\<forall>opt. arg_opt = Some opt \<longrightarrow> row_ok opt \<and> arg_name opt \<noteq> None) \<Longrightarrow> opt_loop opts argc i args arg_opt short g = Inl e \<Longrightarrow>
    e \<noteq> TypeClash \<and> (e = NullWrite \<longrightarrow> (\<exists>a \<in> set args. names_section opts a))"
proof (induction args arbitrary: i arg_opt short g)
  case Nil
  then show ?case by (auto simp: opt_end_def needs_short_def split: option.splits if_splits)
next
  case (Cons arg args)
  show ?case
  proof (cases arg_opt)
    case (Some opt)
    obtain g' where "store_text opt arg g = Inr g'" using store_text_cases Cons.prems(1) Some by blast
    then show ?thesis using Cons.prems(2) Cons.IH [of None] Some
      by (auto simp: cli_bind_def opt_end_def needs_short_def split: if_splits)
  next
    case None
    let ?step = "if take 2 arg = ''--'' then long_opt opts (drop 2 arg) g else short_opts opts (drop 1 arg) None g"
    have ok: "step_ok opts (names_section opts arg) ?step"
      using long_opt_ok [OF assms] short_opts_ok [OF assms, of None "drop 1 arg" arg] by (auto dest: in_set_dropD)
    have "e = CliError ''expected option name'' \<or> ?step = Inl e
        \<or> (\<exists>a g' sh. ?step = Inr (a, g') \<and> opt_loop opts argc (i + 1) args a sh g' = Inl e)"
      using Cons.prems(2) None by (auto simp: cli_bind_def split: if_splits sum.splits)
    then show ?thesis
    proof (elim disjE exE conjE)
      fix a g' sh
      assume s: "?step = Inr (a, g')" "opt_loop opts argc (i + 1) args a sh g' = Inl e"
      then have "\<forall>opt. a = Some opt \<longrightarrow> row_ok opt \<and> arg_name opt \<noteq> None" using ok unfolding s(1) by (auto simp: step_ok_def)
      from Cons.IH [OF this s(2)] show ?thesis by auto
    qed (use ok in \<open>auto simp: step_ok_def\<close>)
  qed
qed

lemma options_ok: "\<forall>opt \<in> set (option_rows options). row_ok opt"
  by (simp add: options_def option_rows_def section_row_def flag_row_def text_row_def row_ok_def)



end
