(* ===== verification/Fx2lp.thy ===== *)
theory Fx2lp
  imports Gen1_Usb
begin

text \<open>
  Firmware upload to the FX2LP microcontroller of the first-generation device, \<open>src/gen1/fx2lp.c\<close>:
  the SRAM loader and the EEPROM loader with its boot image. What the device promises, the memory
  behind the vendor requests, is stated as the contracts \<open>fx2lp_ram\<close> and \<open>i2c_eeprom\<close>. File sizes are
  natural numbers: the \<open>int\<close> arithmetic of the code is exact for files below 2 GiB. Local arrays that the
  code does not initialise are the parameter \<open>junk\<close>.
\<close>

section \<open>Definitions\<close>

definition USB_EP0_SIZE :: nat where "USB_EP0_SIZE = 64"
definition EEPROM_ADDR :: u16 where "EEPROM_ADDR = 0xa2"
definition EEPROM_PAGE_SIZE :: nat where "EEPROM_PAGE_SIZE = 32"
definition FX2LP_SIZE :: nat where "FX2LP_SIZE = 16384"
definition FX2LP_HEADER :: nat where "FX2LP_HEADER = 12"
definition FX2LP_FOOTER :: nat where "FX2LP_FOOTER = 5"

function sram_loop :: "'d usb_bus \<Rightarrow> nat \<Rightarrow> bytes \<Rightarrow> bytes \<Rightarrow> 'd \<Rightarrow> 'd io" where
  "sram_loop b addr data buf d =
     (if data = [] then io_return d
      else let sz = (if length data < USB_EP0_SIZE then length data else USB_EP0_SIZE)
           in io_bind (usb_fx2lp_sram_write b addr (take sz data) d) (\<lambda>d.
              io_bind (usb_fx2lp_sram_read b addr buf sz d) (\<lambda>(buf, d).
              if take sz data \<noteq> take sz buf then os_error ''fx2lp_sram_upload(): verification failed''
              else sram_loop b (addr + sz) (drop sz data) buf d)))"
  by pat_completeness auto
termination by (relation "measure (\<lambda>(b, addr, data, buf, d). length data)") (auto simp: USB_EP0_SIZE_def)

declare sram_loop.simps [simp del]

definition fx2lp_sram_upload :: "'d usb_bus \<Rightarrow> bytes \<Rightarrow> bytes \<Rightarrow> 'd \<Rightarrow> 'd io" where
  "fx2lp_sram_upload b junk data d =
     io_bind (os_check (length data \<le> FX2LP_SIZE) ''fx2lp_sram_upload(): file is too big'') (\<lambda>_.
     io_bind (usb_fx2lp_reset b True d) (\<lambda>d.
     io_bind (sram_loop b 0 data junk d) (usb_fx2lp_reset b False)))"

definition eeprom_request_valid :: "nat \<Rightarrow> nat \<Rightarrow> bool" where
  "eeprom_request_valid addr n \<longleftrightarrow> addr < FX2LP_SIZE \<and> addr mod EEPROM_PAGE_SIZE = 0 \<and> n \<le> EEPROM_PAGE_SIZE"

definition addr_bytes :: "nat \<Rightarrow> bytes" where
  "addr_bytes addr = [of_nat (addr div 256), of_nat addr]"

definition fx2lp_eeprom_read :: "'d usb_bus \<Rightarrow> nat \<Rightarrow> bytes \<Rightarrow> nat \<Rightarrow> 'd \<Rightarrow> (bytes \<times> 'd) io" where
  "fx2lp_eeprom_read b addr old n d =
     io_bind (os_check (eeprom_request_valid addr n) ''fx2lp_eeprom_read(): invalid request'') (\<lambda>_.
     io_bind (usb_i2c_write b EEPROM_ADDR (addr_bytes addr) d) (usb_i2c_read b EEPROM_ADDR old n))"

definition fx2lp_eeprom_write :: "'d usb_bus \<Rightarrow> nat \<Rightarrow> bytes \<Rightarrow> 'd \<Rightarrow> 'd io" where
  "fx2lp_eeprom_write b addr data d =
     io_bind (os_check (eeprom_request_valid addr (length data)) ''fx2lp_eeprom_write(): invalid request'') (\<lambda>_.
     usb_i2c_write b EEPROM_ADDR (addr_bytes addr @ data) d)"

definition eeprom_size :: "nat \<Rightarrow> nat" where
  "eeprom_size n = (FX2LP_HEADER + n + FX2LP_FOOTER + (EEPROM_PAGE_SIZE - 1)) div EEPROM_PAGE_SIZE * EEPROM_PAGE_SIZE"

text \<open>The buffer after its initialisation: boot header, load record, data and the closing record.\<close>

definition eeprom_image :: "bytes \<Rightarrow> bytes" where
  "eeprom_image data =
     (let buf = replicate FX2LP_SIZE 0xff;
          buf = buf[0 := 0xc2, 7 := 1, 8 := of_nat (length data div 256), 9 := of_nat (length data), 10 := 0, 11 := 0];
          buf = mem_put FX2LP_HEADER data buf
      in mem_put (FX2LP_HEADER + length data) [0x80, 0x01, 0xe6, 0x00, 0x00] buf)"

fun eeprom_loop :: "'d usb_bus \<Rightarrow> (nat \<Rightarrow> bytes) \<Rightarrow> bytes \<Rightarrow> nat \<Rightarrow> nat \<Rightarrow> 'd \<Rightarrow> 'd io" where
  "eeprom_loop b junk buf addr 0 d = io_return d"
| "eeprom_loop b junk buf addr (Suc pages) d =
     (let page = take EEPROM_PAGE_SIZE (drop addr buf)
      in io_bind (fx2lp_eeprom_write b addr page d) (\<lambda>d.
         io_bind (fx2lp_eeprom_read b addr (junk addr) EEPROM_PAGE_SIZE d) (\<lambda>(tmp, d).
         if page \<noteq> take EEPROM_PAGE_SIZE tmp then os_error ''fx2lp_eeprom_upload(): verification failed''
         else eeprom_loop b junk buf (addr + EEPROM_PAGE_SIZE) pages d)))"

definition fx2lp_eeprom_upload :: "'d usb_bus \<Rightarrow> (nat \<Rightarrow> bytes) \<Rightarrow> bytes \<Rightarrow> 'd \<Rightarrow> 'd io" where
  "fx2lp_eeprom_upload b junk data d =
     io_bind (os_check (eeprom_size (length data) \<le> FX2LP_SIZE) ''fx2lp_eeprom_upload(): file is too big'') (\<lambda>_.
     eeprom_loop b junk (eeprom_image data) 0 (eeprom_size (length data) div EEPROM_PAGE_SIZE) d)"

section \<open>What the device promises\<close>

text \<open>
  The SRAM behind \<open>CMD_FX2LP_REQUEST\<close> (Cypress \<open>0xA0\<close> firmware load request): a write stores the data, a
  read returns the bytes asked for, and a byte at \<open>CPUCS_ADDR\<close> holds or releases the processor
  without touching the memory.
\<close>

definition fx2lp_ram :: "'d usb_bus \<Rightarrow> ('d \<Rightarrow> bytes) \<Rightarrow> ('d \<Rightarrow> bool) \<Rightarrow> bool" where
  "fx2lp_ram b mem held \<longleftrightarrow>
     (\<forall>d addr xs. addr + length xs \<le> FX2LP_SIZE \<and> length (mem d) = FX2LP_SIZE \<longrightarrow>
        (\<exists>r d'. ub_ctrl b \<lparr>cr_in = False, cr_request = CMD_FX2LP_REQUEST, cr_value = of_nat addr, cr_data = xs,
            cr_length = length xs\<rparr> d = Some (r, d') \<and> mem d' = mem_put addr xs (mem d) \<and> held d' = held d))
     \<and> (\<forall>d addr n. addr + n \<le> FX2LP_SIZE \<and> length (mem d) = FX2LP_SIZE \<longrightarrow>
        (\<exists>d'. ub_ctrl b \<lparr>cr_in = True, cr_request = CMD_FX2LP_REQUEST, cr_value = of_nat addr, cr_data = [],
            cr_length = n\<rparr> d = Some (take n (drop addr (mem d)), d') \<and> mem d' = mem d \<and> held d' = held d))
     \<and> (\<forall>d v. \<exists>r d'. ub_ctrl b \<lparr>cr_in = False, cr_request = CMD_FX2LP_REQUEST, cr_value = CPUCS_ADDR, cr_data = [v],
            cr_length = 1\<rparr> d = Some (r, d') \<and> mem d' = mem d \<and> held d' = bit v 0)"

text \<open>
  The EEPROM behind the I2C requests: a write of the two address bytes and at most one page stores
  the page and leaves the address pointer after it; a read returns bytes from the pointer on.
\<close>

definition i2c_eeprom :: "'d usb_bus \<Rightarrow> ('d \<Rightarrow> bytes) \<Rightarrow> ('d \<Rightarrow> nat) \<Rightarrow> bool" where
  "i2c_eeprom b mem ptr \<longleftrightarrow>
     (\<forall>d addr xs. eeprom_request_valid addr (length xs) \<and> length (mem d) = FX2LP_SIZE \<longrightarrow>
        (\<exists>r d'. ub_ctrl b \<lparr>cr_in = False, cr_request = CMD_I2C_WRITE, cr_value = EEPROM_ADDR,
            cr_data = addr_bytes addr @ xs, cr_length = 2 + length xs\<rparr> d = Some (r, d')
          \<and> mem d' = mem_put addr xs (mem d) \<and> ptr d' = addr + length xs))
     \<and> (\<forall>d n. ptr d + n \<le> FX2LP_SIZE \<and> length (mem d) = FX2LP_SIZE \<longrightarrow>
        (\<exists>d'. ub_ctrl b \<lparr>cr_in = True, cr_request = CMD_I2C_READ, cr_value = EEPROM_ADDR OR 1, cr_data = [],
            cr_length = n\<rparr> d = Some (take n (drop (ptr d) (mem d)), d') \<and> mem d' = mem d))"

lemma mem_put_nil [simp]: "mem_put a [] m = m"
  by (simp add: mem_put_def)

lemma mem_put_append:
  "a + length xs \<le> length m \<Longrightarrow> mem_put (a + length xs) ys (mem_put a xs m) = mem_put a (xs @ ys) m"
  by (simp add: mem_put_def add.commute add.left_commute)

lemma take_drop_mem_put: "a + length xs \<le> length m \<Longrightarrow> take (length xs) (drop a (mem_put a xs m)) = xs"
  by (simp add: mem_put_def)

lemma take_mem_put0: "take (length xs) (mem_put 0 xs m) = xs"
  by (simp add: mem_put_def)

section \<open>The loaders over these contracts\<close>

lemma ram_write:
  assumes "fx2lp_ram b mem held" and "addr + length xs \<le> FX2LP_SIZE" and "length (mem d) = FX2LP_SIZE"
  obtains d' where "usb_fx2lp_sram_write b addr xs d = io_return d'" "mem d' = mem_put addr xs (mem d)" "held d' = held d"
proof -
  obtain r d' where "ub_ctrl b \<lparr>cr_in = False, cr_request = CMD_FX2LP_REQUEST, cr_value = of_nat addr, cr_data = xs,
      cr_length = length xs\<rparr> d = Some (r, d')" "mem d' = mem_put addr xs (mem d)" "held d' = held d"
    using assms unfolding fx2lp_ram_def by metis
  then show ?thesis by (intro that [of d']) (simp_all add: usb_fx2lp_sram_write_def ctrl_out_def)
qed

lemma ram_read:
  assumes "fx2lp_ram b mem held" and "addr + n \<le> FX2LP_SIZE" and "length (mem d) = FX2LP_SIZE"
  obtains d' where "usb_fx2lp_sram_read b addr old n d = io_return (mem_put 0 (take n (drop addr (mem d))) old, d')"
    "mem d' = mem d" "held d' = held d"
proof -
  obtain d' where "ub_ctrl b \<lparr>cr_in = True, cr_request = CMD_FX2LP_REQUEST, cr_value = of_nat addr, cr_data = [],
      cr_length = n\<rparr> d = Some (take n (drop addr (mem d)), d')" "mem d' = mem d" "held d' = held d"
    using assms unfolding fx2lp_ram_def by metis
  then show ?thesis by (intro that [of d']) (simp_all add: usb_fx2lp_sram_read_def ctrl_in_def)
qed

lemma ram_reset:
  assumes "fx2lp_ram b mem held"
  obtains d' where "usb_fx2lp_reset b v d = io_return d'" "mem d' = mem d" "held d' = v"
proof -
  obtain r d' where "ub_ctrl b \<lparr>cr_in = False, cr_request = CMD_FX2LP_REQUEST, cr_value = CPUCS_ADDR, cr_data = [of_bool v],
      cr_length = 1\<rparr> d = Some (r, d')" "mem d' = mem d" "held d' = bit (of_bool v :: u8) 0"
    using assms unfolding fx2lp_ram_def by metis
  then show ?thesis by (intro that [of d']) (simp_all add: usb_fx2lp_reset_def ctrl_out_def)
qed

lemma sram_loop_loads:
  assumes "fx2lp_ram b mem held" and "addr + length data \<le> FX2LP_SIZE" and "length (mem d) = FX2LP_SIZE"
  shows "\<exists>d'. sram_loop b addr data buf d = io_return d' \<and> mem d' = mem_put addr data (mem d) \<and> held d' = held d"
  using assms(2,3)
proof (induction "length data" arbitrary: addr data buf d rule: less_induct)
  case less
  show ?case
  proof (cases "data = []")
    case False
    define sz where "sz = (if length data < USB_EP0_SIZE then length data else USB_EP0_SIZE)"
    have sz: "0 < sz" "sz \<le> length data" using False by (simp_all add: sz_def USB_EP0_SIZE_def)
    have len: "length (take sz data) = sz" using sz by simp
    obtain d1 where d1: "usb_fx2lp_sram_write b addr (take sz data) d = io_return d1"
      "mem d1 = mem_put addr (take sz data) (mem d)" "held d1 = held d"
      using ram_write [OF assms(1), of addr "take sz data" d] less.prems sz by auto
    have m1: "length (mem d1) = FX2LP_SIZE" using d1(2) less.prems sz by simp
    obtain d2 where d2: "usb_fx2lp_sram_read b addr buf sz d1 = io_return (mem_put 0 (take sz (drop addr (mem d1))) buf, d2)"
      "mem d2 = mem d1" "held d2 = held d1"
      using ram_read [OF assms(1) _ m1, of addr sz] less.prems sz by auto
    have rd: "take sz (drop addr (mem d1)) = take sz data"
      using take_drop_mem_put [of addr "take sz data" "mem d"] less.prems sz d1(2) by simp
    have cmp: "take sz (mem_put 0 (take sz data) buf) = take sz data" using take_mem_put0 [of "take sz data"] len by simp
    have "length (drop sz data) < length data" using sz by (simp add: order_less_le_trans)
    then obtain d3 where d3: "sram_loop b (addr + sz) (drop sz data) (mem_put 0 (take sz data) buf) d2 = io_return d3"
      "mem d3 = mem_put (addr + sz) (drop sz data) (mem d2)" "held d3 = held d2"
      using less.hyps [of "drop sz data" "addr + sz" d2 "mem_put 0 (take sz data) buf"] less.prems sz m1 d2(2) by auto
    have "sram_loop b addr data buf d = io_return d3"
      by (subst sram_loop.simps) (simp add: False d1(1) d2(1) d3(1) rd cmp Let_def flip: sz_def)
    moreover have "mem d3 = mem_put addr data (mem d)"
      using mem_put_append [of addr "take sz data" "mem d" "drop sz data"] d3(2) d2(2) d1(2) less.prems sz by simp
    ultimately show ?thesis using d3(3) d2(3) d1(3) by simp
  qed (simp add: sram_loop.simps)
qed

lemma eeprom_write:
  assumes "i2c_eeprom b mem ptr" and "eeprom_request_valid addr (length xs)" and "length (mem d) = FX2LP_SIZE"
  obtains d' where "fx2lp_eeprom_write b addr xs d = io_return d'" "mem d' = mem_put addr xs (mem d)" "ptr d' = addr + length xs"
proof -
  obtain r d' where "ub_ctrl b \<lparr>cr_in = False, cr_request = CMD_I2C_WRITE, cr_value = EEPROM_ADDR,
      cr_data = addr_bytes addr @ xs, cr_length = 2 + length xs\<rparr> d = Some (r, d')" "mem d' = mem_put addr xs (mem d)"
      "ptr d' = addr + length xs"
    using assms unfolding i2c_eeprom_def by metis
  then show ?thesis using assms(2)
    by (intro that [of d']) (simp_all add: fx2lp_eeprom_write_def usb_i2c_write_def ctrl_out_def os_check_def addr_bytes_def)
qed

lemma eeprom_read:
  assumes "i2c_eeprom b mem ptr" and "eeprom_request_valid addr n" and "length (mem d) = FX2LP_SIZE"
  obtains d' where "fx2lp_eeprom_read b addr old n d = io_return (mem_put 0 (take n (drop addr (mem d))) old, d')" "mem d' = mem d"
proof -
  obtain d1 where d1: "fx2lp_eeprom_write b addr [] d = io_return d1" "mem d1 = mem d" "ptr d1 = addr"
    using eeprom_write [OF assms(1), of addr "[]" d] assms(2,3) by (auto simp: eeprom_request_valid_def)
  have "addr + n \<le> FX2LP_SIZE"
    using assms(2) by (auto simp: eeprom_request_valid_def FX2LP_SIZE_def EEPROM_PAGE_SIZE_def)
  then obtain d2 where "ub_ctrl b \<lparr>cr_in = True, cr_request = CMD_I2C_READ, cr_value = EEPROM_ADDR OR 1, cr_data = [],
      cr_length = n\<rparr> d1 = Some (take n (drop addr (mem d)), d2)" "mem d2 = mem d"
    using assms(1,3) d1(2,3) unfolding i2c_eeprom_def by metis
  moreover have "usb_i2c_write b EEPROM_ADDR (addr_bytes addr) d = io_return d1"
    using d1(1) assms(2) by (simp add: fx2lp_eeprom_write_def os_check_def eeprom_request_valid_def)
  ultimately show ?thesis using assms(2)
    by (intro that [of d2]) (simp_all add: fx2lp_eeprom_read_def usb_i2c_read_def ctrl_in_def os_check_def)
qed

lemma eeprom_loop_programs:
  assumes "i2c_eeprom b mem ptr" and "addr mod EEPROM_PAGE_SIZE = 0"
    and "addr + pages * EEPROM_PAGE_SIZE \<le> FX2LP_SIZE" and "length (mem d) = FX2LP_SIZE" and "length buf = FX2LP_SIZE"
  shows "\<exists>d'. eeprom_loop b junk buf addr pages d = io_return d'
    \<and> mem d' = mem_put addr (take (pages * EEPROM_PAGE_SIZE) (drop addr buf)) (mem d)"
  using assms(2-4)
proof (induction pages arbitrary: addr d)
  case (Suc pages)
  let ?P = EEPROM_PAGE_SIZE
  let ?page = "take ?P (drop addr buf)"
  have fit: "addr + ?P \<le> FX2LP_SIZE" using Suc.prems(2) by simp
  have v: "eeprom_request_valid addr ?P"
    using Suc.prems(1) fit by (simp add: eeprom_request_valid_def) (simp add: EEPROM_PAGE_SIZE_def)
  have len: "length ?page = ?P" using fit assms(5) by simp
  obtain d1 where d1: "fx2lp_eeprom_write b addr ?page d = io_return d1" "mem d1 = mem_put addr ?page (mem d)"
    using eeprom_write [OF assms(1), of addr ?page d] v len Suc.prems(3) by auto
  have m1: "length (mem d1) = FX2LP_SIZE" using d1(2) Suc.prems(3) fit len by simp
  obtain d2 where d2: "fx2lp_eeprom_read b addr (junk addr) ?P d1 = io_return (mem_put 0 (take ?P (drop addr (mem d1))) (junk addr), d2)"
    "mem d2 = mem d1"
    using eeprom_read [OF assms(1) v m1] by metis
  have rd: "take ?P (drop addr (mem d1)) = ?page"
    using take_drop_mem_put [of addr ?page "mem d"] fit len Suc.prems(3) d1(2) by simp
  have cmp: "take ?P (mem_put 0 ?page (junk addr)) = ?page" using take_mem_put0 [of ?page "junk addr"] len by simp
  obtain d3 where d3: "eeprom_loop b junk buf (addr + ?P) pages d2 = io_return d3"
    "mem d3 = mem_put (addr + ?P) (take (pages * ?P) (drop (addr + ?P) buf)) (mem d2)"
    using Suc.IH [of "addr + ?P" d2] Suc.prems m1 d2(2) by (auto simp: add.assoc)
  have "take (Suc pages * ?P) (drop addr buf) = ?page @ take (pages * ?P) (drop (addr + ?P) buf)"
    by (simp add: take_add add.commute)
  then have "mem d3 = mem_put addr (take (Suc pages * ?P) (drop addr buf)) (mem d)"
    using mem_put_append [of addr ?page "mem d"] d3(2) d2(2) d1(2) fit len Suc.prems(3) by simp
  moreover have "eeprom_loop b junk buf addr (Suc pages) d = io_return d3"
    by (simp add: d1(1) d2(1) d3(1) rd cmp)
  ultimately show ?case by blast
qed simp

text \<open>The size of the image, and what it holds.\<close>

lemma eeprom_size_fits: "eeprom_size n \<le> FX2LP_SIZE \<longleftrightarrow> n \<le> FX2LP_SIZE - FX2LP_HEADER - FX2LP_FOOTER"
proof -
  have "eeprom_size n \<le> FX2LP_SIZE \<longleftrightarrow> (n + 48) div 32 < 513"
    by (auto simp: eeprom_size_def FX2LP_SIZE_def FX2LP_HEADER_def FX2LP_FOOTER_def EEPROM_PAGE_SIZE_def)
  also have "\<dots> \<longleftrightarrow> n \<le> FX2LP_SIZE - FX2LP_HEADER - FX2LP_FOOTER"
    by (auto simp: div_less_iff_less_mult FX2LP_SIZE_def FX2LP_HEADER_def FX2LP_FOOTER_def)
  finally show ?thesis .
qed

lemma eeprom_size_pages: "eeprom_size n div EEPROM_PAGE_SIZE * EEPROM_PAGE_SIZE = eeprom_size n"
  by (simp add: eeprom_size_def EEPROM_PAGE_SIZE_def)

lemma eeprom_size_covers: "FX2LP_HEADER + n + FX2LP_FOOTER \<le> eeprom_size n"
  unfolding eeprom_size_def FX2LP_HEADER_def FX2LP_FOOTER_def EEPROM_PAGE_SIZE_def by presburger

lemma length_eeprom_image: "eeprom_size (length data) \<le> FX2LP_SIZE \<Longrightarrow> length (eeprom_image data) = FX2LP_SIZE"
  unfolding eeprom_size_fits
  by (simp add: eeprom_image_def Let_def mem_put_def) (simp add: FX2LP_SIZE_def FX2LP_HEADER_def FX2LP_FOOTER_def)

text \<open>The boot image as the boot loader reads it: header, one load record at address 0, closing record.\<close>

definition boot_image :: "bytes \<Rightarrow> bytes" where
  "boot_image data = [0xc2] @ replicate 6 0xff @ [1, of_nat (length data div 256), of_nat (length data), 0, 0]
     @ data @ [0x80, 0x01, 0xe6, 0x00, 0x00]"

lemma mem_put_at: "length h = a \<Longrightarrow> mem_put a xs (h @ r) = h @ xs @ drop (length xs) r"
  by (simp add: mem_put_def)

lemma boot_header:
  "(replicate (12 + n) 0xff)[0 := 0xc2, 7 := 1, 8 := h, 9 := l, 10 := 0, 11 := 0]
     = [0xc2] @ replicate 6 0xff @ [1, h, l, 0, 0] @ replicate n (0xff :: u8)"
  unfolding replicate_add by (simp add: list_update_append numeral_eq_Suc)

lemma eeprom_image_boot:
  assumes "eeprom_size (length data) \<le> FX2LP_SIZE"
  shows "eeprom_image data = boot_image data @ replicate (FX2LP_SIZE - length (boot_image data)) 0xff"
proof -
  obtain n where n: "FX2LP_SIZE = 12 + n" "n = 16372" by (simp add: FX2LP_SIZE_def)
  have l: "length data + 5 \<le> n" using assms n unfolding eeprom_size_fits by (simp add: FX2LP_HEADER_def FX2LP_FOOTER_def)
  define h where "h = [0xc2] @ replicate 6 0xff @ [1, of_nat (length data div 256), of_nat (length data), 0, 0 :: u8]"
  have h: "length h = 12" by (simp add: h_def)
  have "eeprom_image data = mem_put (12 + length data) [0x80, 0x01, 0xe6, 0x00, 0x00] (mem_put 12 data (h @ replicate n 0xff))"
    unfolding eeprom_image_def Let_def n(1) boot_header FX2LP_HEADER_def by (simp add: h_def)
  also have "\<dots> = (h @ data) @ [0x80, 0x01, 0xe6, 0x00, 0x00] @ drop 5 (drop (length data) (replicate n 0xff))"
    using mem_put_at [of "h @ data" "12 + length data"] h by (simp add: mem_put_at)
  also have "\<dots> = boot_image data @ replicate (FX2LP_SIZE - length (boot_image data)) 0xff"
    using l n by (simp add: boot_image_def h_def)
  finally show ?thesis .
qed

section \<open>Properties\<close>


text \<open>A device with the EEPROM and the SRAM, each 16 KiB, the address pointer and the processor hold.\<close>

definition model_bus :: "(bytes \<times> nat \<times> bytes \<times> bool) usb_bus" where
  "model_bus = \<lparr>ub_devices = Some [],
     ub_ctrl = (\<lambda>r (rom, p, ram, held).
       if cr_request r = CMD_I2C_WRITE \<and> \<not> cr_in r then
         let a = unat (cr_data r ! 0) * 256 + unat (cr_data r ! 1); xs = drop 2 (cr_data r)
         in Some ([], mem_put a xs rom, a + length xs, ram, held)
       else if cr_request r = CMD_I2C_READ \<and> cr_in r then
         Some (take (cr_length r) (drop p rom), rom, p + cr_length r, ram, held)
       else if cr_request r = CMD_FX2LP_REQUEST then
         if cr_in r then Some (take (cr_length r) (drop (unat (cr_value r)) ram), rom, p, ram, held)
         else if cr_value r = CPUCS_ADDR then Some ([], rom, p, ram, bit (cr_data r ! 0) 0)
         else Some ([], rom, p, mem_put (unat (cr_value r)) (cr_data r) ram, held)
       else None),
     ub_bulk = (\<lambda>n d. (BulkTimeout, d))\<rparr>"

lemma addr_bytes_value: "addr < FX2LP_SIZE \<Longrightarrow> unat (addr_bytes addr ! 0) * 256 + unat (addr_bytes addr ! 1) = addr"
  by (simp add: addr_bytes_def FX2LP_SIZE_def unat_of_nat take_bit_eq_mod)

lemma model_eeprom: "i2c_eeprom model_bus fst (\<lambda>d. fst (snd d))"
proof -
  have a: "eeprom_request_valid addr n \<Longrightarrow> unat ((addr_bytes addr @ xs) ! 0) * 256 + unat ((addr_bytes addr @ xs) ! 1) = addr
      \<and> drop 2 (addr_bytes addr @ xs) = xs" for addr n xs
    using addr_bytes_value [of addr] by (simp add: eeprom_request_valid_def addr_bytes_def)
  show ?thesis
    by (auto simp: i2c_eeprom_def model_bus_def a [simplified] Let_def CMD_I2C_READ_def CMD_I2C_WRITE_def)
      (simp add: addr_bytes_def)
qed



lemma model_ram: "fx2lp_ram model_bus (\<lambda>d. fst (snd (snd d))) (\<lambda>d. snd (snd (snd d)))"
proof -
  have a: "addr \<le> FX2LP_SIZE \<Longrightarrow> unat (of_nat addr :: u16) = addr \<and> (of_nat addr :: u16) \<noteq> CPUCS_ADDR" for addr
  proof -
    assume l: "addr \<le> FX2LP_SIZE"
    then have "unat (of_nat addr :: u16) = addr" by (simp add: FX2LP_SIZE_def unat_of_nat take_bit_eq_mod)
    moreover have "unat CPUCS_ADDR = 58880" by (simp add: CPUCS_ADDR_def)
    ultimately show ?thesis using l by (auto simp: FX2LP_SIZE_def)
  qed
  show ?thesis
    by (auto simp: fx2lp_ram_def model_bus_def a CMD_FX2LP_REQUEST_def CMD_I2C_READ_def CMD_I2C_WRITE_def)
qed


end
