(* ===== verification/Tap.thy ===== *)
theory Tap
  imports Jtag
begin

text \<open>
  The specification of the scan operations: the sixteen-state TAP controller of IEEE 1149.1, and the
  scans a sequence of clocks performs in it. The interface between the scan operations and the
  programming sequences of \<open>gen1/fpga.c\<close> is the locale \<open>scan_port\<close>, interpreted on the batching
  implementation.
\<close>

section \<open>The TAP controller\<close>

datatype tap = TestReset | RunIdle | SelectDR | CaptureDR | ShiftDR | Exit1DR | PauseDR | Exit2DR | UpdateDR
  | SelectIR | CaptureIR | ShiftIR | Exit1IR | PauseIR | Exit2IR | UpdateIR

fun tap_next :: "tap \<Rightarrow> bool \<Rightarrow> tap" where
  "tap_next TestReset tms = (if tms then TestReset else RunIdle)"
| "tap_next RunIdle tms = (if tms then SelectDR else RunIdle)"
| "tap_next SelectDR tms = (if tms then SelectIR else CaptureDR)"
| "tap_next CaptureDR tms = (if tms then Exit1DR else ShiftDR)"
| "tap_next ShiftDR tms = (if tms then Exit1DR else ShiftDR)"
| "tap_next Exit1DR tms = (if tms then UpdateDR else PauseDR)"
| "tap_next PauseDR tms = (if tms then Exit2DR else PauseDR)"
| "tap_next Exit2DR tms = (if tms then UpdateDR else ShiftDR)"
| "tap_next UpdateDR tms = (if tms then SelectDR else RunIdle)"
| "tap_next SelectIR tms = (if tms then TestReset else CaptureIR)"
| "tap_next CaptureIR tms = (if tms then Exit1IR else ShiftIR)"
| "tap_next ShiftIR tms = (if tms then Exit1IR else ShiftIR)"
| "tap_next Exit1IR tms = (if tms then UpdateIR else PauseIR)"
| "tap_next PauseIR tms = (if tms then Exit2IR else PauseIR)"
| "tap_next Exit2IR tms = (if tms then UpdateIR else ShiftIR)"
| "tap_next UpdateIR tms = (if tms then SelectDR else RunIdle)"

text \<open>
  What the controller sees: the bits scanned into the instruction or data register, first bit first,
  and each clock spent in Run-Test/Idle. A shift state takes one bit per clock, the clock that leaves
  it included.
\<close>

datatype scan = IRScan "bool list" | DRScan "bool list" | IdleClock

fun tap_clock :: "tap \<times> bool list \<Rightarrow> bool \<times> bool \<Rightarrow> (tap \<times> bool list) \<times> scan list" where
  "tap_clock (s, bits) (tdi, tms) =
     (let s' = tap_next s tms;
          bits' = (if s \<in> {CaptureDR, CaptureIR} then [] else if s \<in> {ShiftDR, ShiftIR} then bits @ [tdi] else bits)
      in ((s', bits'),
          if s' = UpdateDR then [DRScan bits'] else if s' = UpdateIR then [IRScan bits']
          else if s = RunIdle \<and> s' = RunIdle then [IdleClock] else []))"

fun tap_run :: "tap \<times> bool list \<Rightarrow> (bool \<times> bool) list \<Rightarrow> (tap \<times> bool list) \<times> scan list" where
  "tap_run s [] = (s, [])"
| "tap_run s (c # cs) = (let (s1, o1) = tap_clock s c; (s2, o2) = tap_run s1 cs in (s2, o1 @ o2))"

lemma tap_run_append:
  "tap_run s (xs @ ys) = (let (s1, o1) = tap_run s xs; (s2, o2) = tap_run s1 ys in (s2, o1 @ o2))"
  by (induction xs arbitrary: s) (auto simp: Let_def split: prod.split)

lemma shift_loop:
  assumes "n \<noteq> 0" and "(s, e) = (ShiftDR, Exit1DR) \<or> (s, e) = (ShiftIR, Exit1IR)"
  shows "tap_run (s, bits) (map (\<lambda>i. (f i, i = n - 1)) [0..<n]) = ((e, bits @ map f [0..<n]), [])"
proof -
  have "tap_run (s, bits) (map (\<lambda>i. (f i, i = k)) [0..<k]) = ((s, bits @ map f [0..<k]), [])" for k
  proof -
    have "tap_run (s, bits) (map (\<lambda>i. (f i, i = m)) [0..<k]) = ((s, bits @ map f [0..<k]), [])" if "k \<le> m" for m
      using that assms(2) by (induction k) (auto simp: tap_run_append Let_def)
    then show ?thesis by blast
  qed
  moreover obtain k where "n = Suc k" using assms(1) by (cases n) auto
  ultimately show ?thesis using assms(2) by (auto simp: tap_run_append Let_def)
qed

abbreviation ir_scan :: "u8 \<Rightarrow> scan" where
  "ir_scan c \<equiv> IRScan (map (bit c) [0..<8])"

abbreviation dr_scan :: "bytes \<Rightarrow> nat \<Rightarrow> scan" where
  "dr_scan data n \<equiv> DRScan (map (data_bit data) [0..<n])"

lemma tap_idle: "tap_run (RunIdle, bits) (replicate n (False, False)) = ((RunIdle, bits), replicate n IdleClock)"
  by (induction n) (simp_all add: Let_def)

lemma tap_write_ir:
  "tap_run (RunIdle, bits) ([(False, True), (False, True), (False, False), (False, False)]
       @ map (\<lambda>i. (bit c i, i = 7)) [0..<8] @ [(False, True), (False, False)])
     = ((RunIdle, map (bit c) [0..<8]), [ir_scan c])"
  using shift_loop [of 8 ShiftIR Exit1IR "[]" "bit c"] by (simp add: tap_run_append Let_def del: upt_rec_numeral)

lemma tap_write_dr:
  "n \<noteq> 0 \<Longrightarrow> tap_run (RunIdle, bits) ([(False, True), (False, False), (False, False)]
       @ map (\<lambda>i. (f i, i = n - 1)) [0..<n] @ [(False, True), (False, False)])
     = ((RunIdle, map f [0..<n]), [DRScan (map f [0..<n])])"
  using shift_loop [of n ShiftDR Exit1DR "[]" f] by (simp add: tap_run_append Let_def)


section \<open>The scan interface\<close>

locale scan_port =
  fixes ok :: "'j \<Rightarrow> bool"
    and trace :: "'j \<Rightarrow> scan list"
    and write_ir :: "u8 \<Rightarrow> 'j \<Rightarrow> 'j io"
    and write_dr :: "bytes \<Rightarrow> nat \<Rightarrow> 'j \<Rightarrow> 'j io"
    and run :: "nat \<Rightarrow> 'j \<Rightarrow> 'j io"
  assumes write_ir: "ok j \<Longrightarrow> \<exists>j'. write_ir c j = io_return j' \<and> ok j' \<and> trace j' = trace j @ [ir_scan c]"
    and write_dr: "ok j \<Longrightarrow> n \<noteq> 0 \<Longrightarrow> \<exists>j'. write_dr data n j = io_return j' \<and> ok j' \<and> trace j' = trace j @ [dr_scan data n]"
    and run: "ok j \<Longrightarrow> \<exists>j'. run n j = io_return j' \<and> ok j' \<and> trace j' = trace j @ replicate n IdleClock"
begin

definition performs :: "('j \<Rightarrow> 'j io) \<Rightarrow> scan list \<Rightarrow> bool" where
  "performs f ops \<longleftrightarrow> (\<forall>j. ok j \<longrightarrow> (\<exists>j'. f j = io_return j' \<and> ok j' \<and> trace j' = trace j @ ops))"

lemma performs_write_ir: "performs (write_ir c) [ir_scan c]"
  using write_ir by (simp add: performs_def)

lemma performs_write_dr: "n \<noteq> 0 \<Longrightarrow> performs (write_dr data n) [dr_scan data n]"
  using write_dr by (simp add: performs_def)

lemma performs_run: "performs (run n) (replicate n IdleClock)"
  using run by (simp add: performs_def)

lemma performs_bind: "performs f a \<Longrightarrow> performs g b \<Longrightarrow> performs (\<lambda>j. io_bind (f j) g) (a @ b)"
  unfolding performs_def by (metis append_assoc io_bind_simps(1))

lemma performsD: "performs f ops \<Longrightarrow> ok j \<Longrightarrow> \<exists>j'. f j = io_return j' \<and> ok j' \<and> trace j' = trace j @ ops"
  by (simp add: performs_def)

text \<open>The pattern of the programming sequences: an instruction, one operand byte, some idle clocks.\<close>

lemma performs_command:
  "performs (\<lambda>j. io_bind (write_ir c j) (\<lambda>j. io_bind (write_dr [b] 8 j) (run n))) ([ir_scan c, dr_scan [b] 8] @ replicate n IdleClock)"
  using performs_bind [OF performs_write_ir performs_bind [OF performs_write_dr performs_run]] by simp

lemma performs_instruction:
  "performs (\<lambda>j. io_bind (write_ir c j) (run n)) (ir_scan c # replicate n IdleClock)"
  using performs_bind [OF performs_write_ir performs_run] by simp

end

text \<open>
  The batching implementation on the recording device, seen from a TAP that was in Run-Test/Idle when
  the recording began.
\<close>

definition scans :: "u8 list list jtag \<Rightarrow> scan list" where
  "scans j = snd (tap_run (RunIdle, []) (issued j))"

definition scan_ok :: "u8 list list jtag \<Rightarrow> bool" where
  "scan_ok j \<longleftrightarrow> jtag_ok j \<and> fst (fst (tap_run (RunIdle, []) (issued j))) = RunIdle"

lemma clks_scans:
  assumes "scan_ok j" and "\<And>bits. \<exists>bits'. tap_run (RunIdle, bits) cs = ((RunIdle, bits'), ops)"
  shows "\<exists>j'. jtag_clks recorder cs j = io_return j' \<and> scan_ok j' \<and> scans j' = scans j @ ops"
proof -
  obtain j' where j': "jtag_clks recorder cs j = io_return j'" "jtag_ok j'" "issued j' = issued j @ cs"
    using clks_recorded [of j cs] assms(1) by (auto simp: scan_ok_def)
  obtain b o1 where b: "tap_run (RunIdle, []) (issued j) = ((RunIdle, b), o1)"
    using assms(1) by (cases "tap_run (RunIdle, []) (issued j)") (auto simp: scan_ok_def)
  obtain b' where "tap_run (RunIdle, b) cs = ((RunIdle, b'), ops)" using assms(2) by blast
  then have "tap_run (RunIdle, []) (issued j') = ((RunIdle, b'), o1 @ ops)" by (simp add: j'(3) tap_run_append b Let_def)
  with j' b show ?thesis by (auto simp: scan_ok_def scans_def)
qed

interpretation jtag_port: scan_port scan_ok scans "jtag_write_ir recorder" "jtag_write_dr recorder" "jtag_run recorder"
proof unfold_locales
  fix j and c :: u8 and n and data
  assume j: "scan_ok j"
  show "\<exists>j'. jtag_write_ir recorder c j = io_return j' \<and> scan_ok j' \<and> scans j' = scans j @ [ir_scan c]"
    unfolding jtag_write_ir_def by (rule clks_scans [OF j]) (use tap_write_ir in blast)
  show "\<exists>j'. jtag_write_dr recorder data n j = io_return j' \<and> scan_ok j' \<and> scans j' = scans j @ [dr_scan data n]" if "n \<noteq> 0"
    unfolding jtag_write_dr_def by (rule clks_scans [OF j]) (use tap_write_dr [OF that] in blast)
  show "\<exists>j'. jtag_run recorder n j = io_return j' \<and> scan_ok j' \<and> scans j' = scans j @ replicate n IdleClock"
    unfolding jtag_run_def by (rule clks_scans [OF j]) (use tap_idle in blast)
qed

lemma performs_clks:
  assumes "\<And>bits. \<exists>bits'. tap_run (RunIdle, bits) cs = ((RunIdle, bits'), ops)"
  shows "jtag_port.performs (jtag_clks recorder cs) ops"
  unfolding jtag_port.performs_def using clks_scans [OF _ assms] by blast

section \<open>Properties\<close>

text \<open>
  C26. Clock batching is transparent: for every sequence of clocks and every later \<open>jtag_sync\<close>, the
  operations return, no assertion of the request fails, and the clocks the device unpacks from the
  2-bit-packed requests are exactly the clocks issued, in order; no request carries more than 255
  clocks, and after the sync nothing is held back.
\<close>

theorem jtag_batching:
  assumes "jtag_ok j"
  shows "\<exists>j1 j2. jtag_clks recorder cs j = io_return j1 \<and> jtag_sync recorder j1 = io_return j2
    \<and> issued j1 = issued j @ cs \<and> map clock_of (concat (jt_dev j2)) = issued j @ cs
    \<and> (\<forall>r \<in> set (jt_dev j2). r \<in> set (jt_dev j) \<or> length r \<le> MAX_COUNT_IN_REQUEST)"
proof -
  obtain j1 where j1: "jtag_clks recorder cs j = io_return j1" "jtag_ok j1" "issued j1 = issued j @ cs"
    "\<forall>r \<in> set (jt_dev j1). r \<in> set (jt_dev j) \<or> length r = MAX_COUNT_IN_REQUEST"
    using clks_recorded [OF assms] by blast
  obtain j2 where j2: "jtag_sync recorder j1 = io_return j2" "jt_buf j2 = []" "issued j2 = issued j1"
    "\<forall>r \<in> set (jt_dev j2). r \<in> set (jt_dev j1) \<or> r = jt_buf j1"
    using sync_recorded [OF j1(2)] by blast
  have "length (jt_buf j1) \<le> MAX_COUNT_IN_REQUEST" using j1(2) by (simp add: jtag_ok_def)
  with j1 j2 show ?thesis by (fastforce simp: issued_def)
qed

theorem jtag_batching_witness:
  "\<exists>j1 j2. jtag_clks recorder (replicate 300 (True, False)) \<lparr>jt_buf = [], jt_dev = []\<rparr> = io_return j1
    \<and> jtag_sync recorder j1 = io_return j2 \<and> map clock_of (concat (jt_dev j2)) = replicate 300 (True, False)"
  using jtag_batching [of "\<lparr>jt_buf = [], jt_dev = []\<rparr>" "replicate 300 (True, False)"]
  by (auto simp: jtag_ok_def MAX_COUNT_IN_REQUEST_def issued_def)

end
