(* ===== verification/Fpga.thy ===== *)
theory Fpga
  imports Tap
begin

text \<open>
  FPGA maintenance of \<open>src/gen1/fpga.c\<close> over the scan operations: the bitstream check, SRAM
  configuration, the JED parser, flash erase and the flash programming sequence with its
  verification. \<open>printf\<close> progress output is left out. \<open>fpga_enable\<close> and \<open>fpga_disable\<close> do nothing (their
  bodies are compiled out), and the identification reads return a constant.
\<close>

section \<open>Definitions\<close>

definition CMD_ISC_ENABLE :: u8 where "CMD_ISC_ENABLE = 0xc6"
definition CMD_LSC_CHECK_BUSY :: u8 where "CMD_LSC_CHECK_BUSY = 0xf0"
definition CMD_LSC_READ_STATUS :: u8 where "CMD_LSC_READ_STATUS = 0x3c"
definition CMD_ISC_ERASE :: u8 where "CMD_ISC_ERASE = 0x0e"
definition CMD_LSC_INIT_ADDRESS :: u8 where "CMD_LSC_INIT_ADDRESS = 0x46"
definition CMD_LSC_PROG_INCR_NV :: u8 where "CMD_LSC_PROG_INCR_NV = 0x70"
definition CMD_LSC_PROG_FEATURE :: u8 where "CMD_LSC_PROG_FEATURE = 0xe4"
definition CMD_LSC_READ_FEATURE :: u8 where "CMD_LSC_READ_FEATURE = 0xe7"
definition CMD_LSC_PROG_FEABITS :: u8 where "CMD_LSC_PROG_FEABITS = 0xf8"
definition CMD_LSC_READ_FEABITS :: u8 where "CMD_LSC_READ_FEABITS = 0xfb"
definition CMD_LSC_READ_INCR_NV :: u8 where "CMD_LSC_READ_INCR_NV = 0x73"
definition CMD_ISC_PROGRAM_DONE :: u8 where "CMD_ISC_PROGRAM_DONE = 0x5e"
definition CMD_ISC_DISABLE :: u8 where "CMD_ISC_DISABLE = 0x26"
definition CMD_ISC_NOOP :: u8 where "CMD_ISC_NOOP = 0xff"
definition CMD_LSC_REFRESH :: u8 where "CMD_LSC_REFRESH = 0x79"
definition CMD_LSC_BITSTREAM_BURST :: u8 where "CMD_LSC_BITSTREAM_BURST = 0x7a"
definition ISC_ENABLE_SRAM :: u8 where "ISC_ENABLE_SRAM = 0x00"
definition ISC_ENABLE_FLASH :: u8 where "ISC_ENABLE_FLASH = 0x08"
definition ISC_ERASE_SRAM :: u8 where "ISC_ERASE_SRAM = 0x01"
definition ISC_ERASE_ALL_NV :: u8 where "ISC_ERASE_ALL_NV = 0x0e"
definition STATUS_BUSY :: u32 where "STATUS_BUSY = 0x1000"
definition STATUS_FAIL :: u32 where "STATUS_FAIL = 0x2000"
definition FLASH_ROW_SIZE :: nat where "FLASH_ROW_SIZE = 128"
definition MAX_CONFIG_SIZE :: nat where "MAX_CONFIG_SIZE = 512 * 1024"
definition BITSTREAM_SIGNATURE :: string where "BITSTREAM_SIGNATURE = ''LCMXO2-2000HC''"

definition fpga_read_idcode :: u32 where "fpga_read_idcode = 0x20250616"
definition fpga_read_traceid :: u64 where "fpga_read_traceid = 0x20250616"

definition fpga_enable :: "'d jtag \<Rightarrow> 'd jtag io" where "fpga_enable j = io_return j"
definition fpga_disable :: "'d jtag \<Rightarrow> 'd jtag io" where "fpga_disable j = io_return j"

definition bitstream_valid :: "bytes \<Rightarrow> bool" where
  "bitstream_valid data \<longleftrightarrow> \<not> length data < 1024 \<and> find_str data 1024 BITSTREAM_SIGNATURE \<noteq> None"

section \<open>SRAM configuration\<close>

text \<open>The bits of a byte from 7 down to 0, each with the index of its byte.\<close>

definition burst_bits :: "bytes \<Rightarrow> (bool \<times> bool) list" where
  "burst_bits data =
     concat (map (\<lambda>i. map (\<lambda>j. (bit (data ! i) j, i = length data - 1 \<and> j = 0)) (rev [0..<8])) [0..<length data])"

definition fpga_program_sram :: "'d jtag_usb \<Rightarrow> bytes \<Rightarrow> 'd jtag \<Rightarrow> 'd jtag io" where
  "fpga_program_sram u data j =
     (if \<not> bitstream_valid data then os_error ''malformed BIT file: device signature not found''
      else
        io_bind (jtag_write_ir u CMD_ISC_ENABLE j) (\<lambda>j.
        io_bind (jtag_write_dr u [ISC_ENABLE_SRAM] 8 j) (\<lambda>j.
        io_bind (jtag_run u 8 j) (\<lambda>j.
        io_bind (jtag_write_ir u CMD_ISC_ERASE j) (\<lambda>j.
        io_bind (jtag_write_dr u [ISC_ERASE_SRAM] 8 j) (\<lambda>j.
        io_bind (jtag_run u 8 j) (\<lambda>j.
        io_bind (jtag_write_ir u CMD_LSC_BITSTREAM_BURST j) (\<lambda>j.
        io_bind (jtag_run u 8 j) (\<lambda>j.
        io_bind (jtag_clks u ([(False, True), (False, False), (False, False)] @ burst_bits data
          @ [(False, True), (False, False)]) j) (\<lambda>j.
        io_bind (jtag_run u 100 j) (\<lambda>j.
        io_bind (jtag_write_ir u CMD_ISC_DISABLE j) (\<lambda>j.
        io_bind (jtag_run u 8 j) (\<lambda>j.
        io_bind (jtag_write_ir u CMD_ISC_NOOP j) (\<lambda>j.
        io_bind (jtag_run u 100 j) (jtag_sync u)))))))))))))))"

section \<open>The JED parser\<close>

text \<open>
  One field: the digits from \<open>offset\<close> up to the \<open>'*'\<close> that ends it, other characters skipped; \<open>None\<close>
  if the text ends first. \<open>jed_digits\<close> counts the digits the loop stores before it ends, for its check
  at each digit: in the configuration field the check fails when the count reaches the bits of
  \<open>config\<close>, in the feature row at the digit after the 80th.
\<close>

fun jed_field :: "bytes \<Rightarrow> bool list option" where
  "jed_field [] = None"
| "jed_field (c # cs) =
     (if c = 0x2a then Some []
      else if c = 0x30 \<or> c = 0x31 then map_option (\<lambda>bs. (c = 0x31) # bs) (jed_field cs)
      else jed_field cs)"

definition jed_digits :: "bytes \<Rightarrow> nat" where
  "jed_digits cs = length (filter (\<lambda>c. c = 0x30 \<or> c = 0x31) (takeWhile (\<lambda>c. c \<noteq> 0x2a) cs))"

definition config_bytes :: "bool list \<Rightarrow> bytes" where
  "config_bytes bits =
     foldl (\<lambda>buf i. or_at buf (i div 8) (push_bit (i mod 8 * 1) (of_bool (bits ! i)))) (replicate MAX_CONFIG_SIZE 0) [0..<length bits]"

definition bits_value :: "bool list \<Rightarrow> 'a::len word" where
  "bits_value bits = foldl (\<lambda>w i. w OR push_bit i (of_bool (bits ! i))) 0 [0..<length bits]"

record jed =
  jed_config :: bytes
  jed_feabits :: u16
  jed_feature :: u64
  jed_bit_count :: nat

definition parse_jed_file :: "bytes \<Rightarrow> jed io" where
  "parse_jed_file data =
     (if \<not> bitstream_valid data then os_error ''malformed JED file: device signature not found''
      else case find_str data (length data) ''L000000'' of
        None \<Rightarrow> os_error ''malformed JED file: no 'L000000' found''
      | Some p \<Rightarrow>
          let cs = drop (p + 7) data
          in io_bind (os_check (jed_digits cs < MAX_CONFIG_SIZE * 8) ''malformed JED file: configuration data is too big'') (\<lambda>_.
             case jed_field cs of
               None \<Rightarrow> os_error ''malformed JED file: no field terminator found''
             | Some bits \<Rightarrow>
                 if length bits mod FLASH_ROW_SIZE \<noteq> 0
                 then os_error ''malformed JED file: size of the configuration data must be a multiple of 128''
                 else case find_str data (length data) ''NOTE FEATURE_ROW*'' of
                   None \<Rightarrow> os_error ''malformed JED file: no feature row found''
                 | Some q \<Rightarrow>
                     let fs = drop (q + 17) data
                     in io_bind (os_check (jed_digits fs \<le> 64 + 16) ''malformed JED file: feature row data is too big'') (\<lambda>_.
                        case jed_field fs of
                          None \<Rightarrow> os_error ''malformed JED file: no field terminator found''
                        | Some fr \<Rightarrow>
                            if length fr \<noteq> 64 + 16 then os_error ''malformed JED file: invalid feature row size''
                            else io_return \<lparr>jed_config = config_bytes bits, jed_feabits = bits_value (drop 64 fr),
                              jed_feature = bits_value (take 64 fr), jed_bit_count = length bits\<rparr>)))"

section \<open>Flash\<close>

text \<open>
  The loop of \<open>poll_busy_flag\<close> ends when the device reports not busy; it may not return. \<open>busy\<close> is the
  byte read.
\<close>

partial_function (option) poll_busy :: "'d jtag_usb \<Rightarrow> 'd jtag \<Rightarrow> 'd jtag io" where
  "poll_busy u j =
     io_bind (jtag_write_ir u CMD_LSC_CHECK_BUSY j) (\<lambda>j.
     io_bind (jtag_read_dr u 1 j) (\<lambda>r.
     if fst r ! 0 \<noteq> 0 then poll_busy u (snd r) else io_return (snd r)))"

definition poll_busy_flag :: "'d jtag_usb \<Rightarrow> 'd jtag \<Rightarrow> 'd jtag io" where
  "poll_busy_flag u j =
     io_bind (poll_busy u j) (\<lambda>j.
     io_bind (jtag_write_ir u CMD_LSC_READ_STATUS j) (\<lambda>j.
     io_bind (jtag_read_dr u 32 j) (\<lambda>(status, j).
     io_bind (jtag_run u 8 j) (\<lambda>j.
     if of_le32 status AND STATUS_BUSY \<noteq> 0 then os_error ''poll_busy_flag(): busy''
     else if of_le32 status AND STATUS_FAIL \<noteq> 0 then os_error ''poll_busy_flag(): fail''
     else io_return j))))"

text \<open>An instruction with its idle clocks, and with a data scan between.\<close>

definition jtag_cmd :: "'d jtag_usb \<Rightarrow> u8 \<Rightarrow> nat \<Rightarrow> 'd jtag \<Rightarrow> 'd jtag io" where
  "jtag_cmd u c n j = io_bind (jtag_write_ir u c j) (jtag_run u n)"

definition jtag_cmd_dr :: "'d jtag_usb \<Rightarrow> u8 \<Rightarrow> bytes \<Rightarrow> nat \<Rightarrow> nat \<Rightarrow> 'd jtag \<Rightarrow> 'd jtag io" where
  "jtag_cmd_dr u c data bits n j =
     io_bind (jtag_write_ir u c j) (\<lambda>j. io_bind (jtag_write_dr u data bits j) (jtag_run u n))"

definition fpga_erase_flash :: "'d jtag_usb \<Rightarrow> 'd jtag \<Rightarrow> 'd jtag io" where
  "fpga_erase_flash u j =
     io_bind (jtag_cmd_dr u CMD_ISC_ENABLE [ISC_ENABLE_SRAM] 8 8 j) (\<lambda>j.
     io_bind (jtag_cmd_dr u CMD_ISC_ERASE [ISC_ERASE_SRAM] 8 8 j) (\<lambda>j.
     io_bind (jtag_write_ir u CMD_ISC_NOOP j) (\<lambda>j.
     io_bind (jtag_cmd_dr u CMD_ISC_ENABLE [ISC_ENABLE_FLASH] 8 8 j) (\<lambda>j.
     io_bind (jtag_cmd_dr u CMD_ISC_ERASE [ISC_ERASE_ALL_NV] 8 8 j) (poll_busy_flag u)))))"

fun program_rows :: "'d jtag_usb \<Rightarrow> bytes \<Rightarrow> nat list \<Rightarrow> 'd jtag \<Rightarrow> 'd jtag io" where
  "program_rows u config [] j = io_return j"
| "program_rows u config (row # rows) j =
     io_bind (jtag_cmd_dr u CMD_LSC_PROG_INCR_NV (drop (row * 16) config) FLASH_ROW_SIZE 1000 j) (\<lambda>j.
     io_bind (poll_busy_flag u j) (program_rows u config rows))"

fun verify_rows :: "'d jtag_usb \<Rightarrow> bytes \<Rightarrow> nat list \<Rightarrow> 'd jtag \<Rightarrow> 'd jtag io" where
  "verify_rows u config [] j = io_return j"
| "verify_rows u config (row # rows) j =
     io_bind (jtag_read_dr u FLASH_ROW_SIZE j) (\<lambda>(tmp, j).
     io_bind (jtag_run u 8 j) (\<lambda>j.
     if take 16 tmp \<noteq> take 16 (drop (row * 16) config) then os_error ''configuration verification failed''
     else verify_rows u config rows j))"

text \<open>The little-endian bytes of \<open>feature\<close> and \<open>feabits\<close> in memory.\<close>

definition le64 :: "u64 \<Rightarrow> bytes" where
  "le64 v = le32 (ucast v) @ le32 (ucast (drop_bit 32 v))"

definition program_feature :: "'d jtag_usb \<Rightarrow> u64 \<Rightarrow> 'd jtag \<Rightarrow> 'd jtag io" where
  "program_feature u feature j =
     io_bind (jtag_cmd u CMD_LSC_INIT_ADDRESS 8 j) (\<lambda>j.
     io_bind (jtag_cmd_dr u CMD_LSC_PROG_FEATURE (le64 feature) 64 8 j) (\<lambda>j.
     io_bind (poll_busy_flag u j) (\<lambda>j.
     io_bind (jtag_write_ir u CMD_LSC_READ_FEATURE j) (\<lambda>j.
     io_bind (jtag_read_dr u 64 j) (\<lambda>(verify, j).
     io_bind (jtag_run u 8 j) (\<lambda>j.
     io_bind (os_check (verify = le64 feature) ''Feature Row verification failed'') (\<lambda>_.
     io_return j)))))))"

definition program_feabits :: "'d jtag_usb \<Rightarrow> u16 \<Rightarrow> 'd jtag \<Rightarrow> 'd jtag io" where
  "program_feabits u feabits j =
     io_bind (jtag_cmd_dr u CMD_LSC_PROG_FEABITS (le16 feabits) 16 8 j) (\<lambda>j.
     io_bind (poll_busy_flag u j) (\<lambda>j.
     io_bind (jtag_cmd u CMD_LSC_READ_FEABITS 8 j) (\<lambda>j.
     io_bind (jtag_read_dr u 16 j) (\<lambda>(verify, j).
     io_bind (os_check (verify = le16 feabits) ''FEABITS verification failed'') (\<lambda>_.
     io_return j)))))"

definition fpga_program_flash :: "'d jtag_usb \<Rightarrow> bytes \<Rightarrow> 'd jtag \<Rightarrow> 'd jtag io" where
  "fpga_program_flash u data j =
     io_bind (parse_jed_file data) (\<lambda>jd.
     let rows = [0..<jed_bit_count jd div FLASH_ROW_SIZE]
     in io_bind (fpga_erase_flash u j) (\<lambda>j.
        io_bind (jtag_cmd u CMD_LSC_INIT_ADDRESS 8 j) (\<lambda>j.
        io_bind (program_rows u (jed_config jd) rows j) (\<lambda>j.
        io_bind (jtag_cmd u CMD_LSC_INIT_ADDRESS 8 j) (\<lambda>j.
        io_bind (jtag_cmd u CMD_LSC_READ_INCR_NV 8 j) (\<lambda>j.
        io_bind (verify_rows u (jed_config jd) rows j) (\<lambda>j.
        io_bind (program_feature u (jed_feature jd) j) (\<lambda>j.
        io_bind (program_feabits u (jed_feabits jd) j) (\<lambda>j.
        io_bind (jtag_cmd u CMD_ISC_PROGRAM_DONE 1000 j) (\<lambda>j.
        io_bind (poll_busy_flag u j) (\<lambda>j.
        io_bind (jtag_cmd u CMD_ISC_DISABLE 8 j) (\<lambda>j.
        io_bind (jtag_cmd u CMD_ISC_NOOP 100 j) (\<lambda>j.
        io_bind (jtag_cmd u CMD_LSC_REFRESH 8 j) (\<lambda>j.
        io_bind (jtag_cmd u CMD_ISC_NOOP 100 j) (jtag_sync u)))))))))))))))"

end
