(* ===== verification/Fpga_Theorems.thy ===== *)
theory Fpga_Theorems
  imports Fpga
begin

text \<open>
  The scans of the SRAM configuration, the JED parser against its printed form, and what a successful
  flash programming has verified.
\<close>

section \<open>SRAM configuration\<close>

lemma upt_bytes: "[0..<8 * Suc k] = [0..<8 * k] @ map (\<lambda>i. i + 8 * k) [0..<8]"
  using upt_add_eq_append [of 0 "8 * k" 8] by (simp add: map_add_upt add.commute)

lemma burst_bits_shift:
  assumes "data \<noteq> []"
  shows "burst_bits data = map (\<lambda>i. (bit (data ! (i div 8)) (7 - i mod 8), i = 8 * length data - 1)) [0..<8 * length data]"
proof -
  have "concat (map (\<lambda>i. map (\<lambda>j. (bit (data ! i) j, i = m \<and> j = 0)) (rev [0..<8])) [0..<k])
      = map (\<lambda>i. (bit (data ! (i div 8)) (7 - i mod 8), i = 8 * m + 7)) [0..<8 * k]" for k m
  proof (induction k)
    case (Suc k)
    have "map (\<lambda>j. (bit (data ! k) j, k = m \<and> j = 0)) (rev [0..<8])
        = map (\<lambda>i. (bit (data ! ((i + 8 * k) div 8)) (7 - (i + 8 * k) mod 8), i + 8 * k = 8 * m + 7)) [0..<8]"
      by (rule nth_equalityI, simp) (auto simp: rev_nth; presburger)
    then show ?case using Suc unfolding upt_bytes by (simp add: comp_def del: upt_rec_numeral)
  qed simp
  moreover have "8 * length data - 1 = 8 * (length data - 1) + 7" using assms by (cases data) auto
  ultimately show ?thesis by (simp only: burst_bits_def)
qed

definition msb_bits :: "bytes \<Rightarrow> bool list" where
  "msb_bits data = concat (map (\<lambda>b. map (bit b) [7, 6, 5, 4, 3, 2, 1, 0]) data)"

lemma msb_bits_nth: "map (\<lambda>i. bit (data ! (i div 8)) (7 - i mod 8)) [0..<8 * length data] = msb_bits data"
proof (induction data rule: rev_induct)
  case (snoc b data)
  let ?n = "length data"
  have u: "[0..<8 * length (data @ [b])] = [0..<8 * ?n] @ map (\<lambda>i. i + 8 * ?n) [0..<8]"
    using upt_bytes [of ?n] by simp
  moreover have "map (\<lambda>i. bit ((data @ [b]) ! (i div 8)) (7 - i mod 8)) [0..<8 * ?n]
      = map (\<lambda>i. bit (data ! (i div 8)) (7 - i mod 8)) [0..<8 * ?n]"
    by (rule map_cong) (auto simp: nth_append)
  moreover have "map (\<lambda>i. bit ((data @ [b]) ! ((i + 8 * ?n) div 8)) (7 - (i + 8 * ?n) mod 8)) [0..<8] = map (bit b) [7, 6, 5, 4, 3, 2, 1, 0]"
    by (simp add: upt_conv_Cons nth_append)
  ultimately show ?case using snoc unfolding u by (simp add: msb_bits_def comp_def del: upt_rec_numeral)
qed (simp add: msb_bits_def)

lemma performs_burst:
  assumes "data \<noteq> []"
  shows "jtag_port.performs (jtag_clks recorder ([(False, True), (False, False), (False, False)] @ burst_bits data
    @ [(False, True), (False, False)])) [DRScan (msb_bits data)]"
proof (rule performs_clks)
  fix bits
  have n: "8 * length data \<noteq> 0" using assms by simp
  show "\<exists>bits'. tap_run (RunIdle, bits) ([(False, True), (False, False), (False, False)] @ burst_bits data
      @ [(False, True), (False, False)]) = ((RunIdle, bits'), [DRScan (msb_bits data)])"
    using tap_write_dr [OF n, of bits "\<lambda>i. bit (data ! (i div 8)) (7 - i mod 8)"]
    unfolding burst_bits_shift [OF assms] msb_bits_nth by blast
qed

abbreviation idle :: "nat \<Rightarrow> scan list" where
  "idle n \<equiv> replicate n IdleClock"

lemma performs_cmd: "jtag_port.performs (jtag_cmd recorder c n) (ir_scan c # idle n)"
  unfolding jtag_cmd_def [abs_def] by (rule jtag_port.performs_instruction)

lemma performs_cmd_dr: "jtag_port.performs (jtag_cmd_dr recorder c [b] 8 n) ([ir_scan c, dr_scan [b] 8] @ idle n)"
  unfolding jtag_cmd_dr_def [abs_def] by (rule jtag_port.performs_command)



lemma signature_first: "bitstream_valid (ascii BITSTREAM_SIGNATURE @ replicate 1011 0)"
proof -
  have "length BITSTREAM_SIGNATURE = 13" by (simp add: BITSTREAM_SIGNATURE_def)
  then have "find_str (ascii BITSTREAM_SIGNATURE @ replicate 1011 0) 1024 BITSTREAM_SIGNATURE = Some 0"
    by (simp add: find_str_Some) (auto simp: BITSTREAM_SIGNATURE_def)
  then show ?thesis by (simp add: bitstream_valid_def BITSTREAM_SIGNATURE_def)
qed



section \<open>The JED parser\<close>

definition jed_digit :: "bool \<Rightarrow> u8" where
  "jed_digit b = (if b then 0x31 else 0x30)"

lemma jed_field_digits: "jed_field (map jed_digit bits @ 0x2a # rest) = Some bits"
  by (induction bits) (simp_all add: jed_digit_def)

lemma jed_digits_count: "jed_digits (map jed_digit bits @ 0x2a # rest) = length bits"
proof -
  have "takeWhile (\<lambda>c. c \<noteq> 0x2a) (map jed_digit bits @ 0x2a # rest) = map jed_digit bits"
    by (subst takeWhile_append2) (auto simp: jed_digit_def)
  moreover have "filter (\<lambda>c. c = 0x30 \<or> c = 0x31) (map jed_digit bits) = map jed_digit bits"
    by (rule filter_True) (auto simp: jed_digit_def)
  ultimately show ?thesis by (simp add: jed_digits_def)
qed

lemma jed_field_count: "jed_field cs = Some bits \<Longrightarrow> length bits = jed_digits cs"
  by (induction cs arbitrary: bits) (auto simp: jed_digits_def split: if_splits)

lemma length_config_bytes [simp]: "length (config_bytes bits) = MAX_CONFIG_SIZE"
  by (simp add: config_bytes_def)

lemma bit_of_bool_u8: "1 \<le> n \<Longrightarrow> \<not> bit (of_bool b :: u8) n"
  by (simp add: bit_simps)

lemma config_bytes_bit:
  assumes "m < MAX_CONFIG_SIZE" and "n < 8"
  shows "bit (config_bytes bits ! m) n \<longleftrightarrow> m * 8 + n < length bits \<and> bits ! (m * 8 + n)"
  using bit_pack [of 1 8 "\<lambda>i. of_bool (bits ! i)" m MAX_CONFIG_SIZE n "length bits"] assms bit_of_bool_u8
  by (simp add: config_bytes_def bit_simps)

lemma bit_bits_value: "bit (bits_value bits :: 'a::len word) n \<longleftrightarrow> n < LENGTH('a) \<and> n < length bits \<and> bits ! n"
proof -
  have "bit (foldl (\<lambda>w i. w OR push_bit i (of_bool (f i))) 0 [0..<k] :: 'a word) n \<longleftrightarrow> n < LENGTH('a) \<and> n < k \<and> f n" for f k
  proof (induction k)
    case (Suc k)
    have "bit (push_bit k (of_bool (f k)) :: 'a word) n \<longleftrightarrow> n < LENGTH('a) \<and> n = k \<and> f k"
      by (auto simp: bit_simps)
    with Suc show ?case by (auto simp: bit_or_iff less_Suc_eq)
  qed simp
  then show ?thesis by (simp add: bits_value_def)
qed

definition jed_of :: "bool list \<Rightarrow> bool list \<Rightarrow> jed" where
  "jed_of bits fr = \<lparr>jed_config = config_bytes bits, jed_feabits = bits_value (drop 64 fr),
     jed_feature = bits_value (take 64 fr), jed_bit_count = length bits\<rparr>"

lemma parse_jed:
  assumes "bitstream_valid data"
    and "data = a @ ascii ''L000000'' @ map jed_digit bits @ 0x2a # z"
    and "data = m @ ascii ''NOTE FEATURE_ROW*'' @ map jed_digit fr @ 0x2a # y"
    and "find_str data (length data) ''L000000'' = Some (length a)"
    and "find_str data (length data) ''NOTE FEATURE_ROW*'' = Some (length m)"
    and "length bits mod 128 = 0" and "length bits < MAX_CONFIG_SIZE * 8" and "length fr = 80"
  shows "parse_jed_file data = io_return (jed_of bits fr)"
proof -
  have c: "drop (length a + 7) data = map jed_digit bits @ 0x2a # z" unfolding assms(2) by simp
  have f: "drop (length m + 17) data = map jed_digit fr @ 0x2a # y" unfolding assms(3) by simp
  show ?thesis using assms(1,4-8) c f
    by (simp add: parse_jed_file_def Let_def jed_field_digits jed_digits_count os_check_def FLASH_ROW_SIZE_def jed_of_def)
qed

text \<open>
  C28. The JED parser reads back what a JED file says: in a file with the device signature whose
  first fuse field starts after \<open>a\<close> and whose feature row starts after \<open>m\<close>, the fuse digits are the bits
  of the configuration in order (bit \<open>k\<close> in byte \<open>k / 8\<close>, low bit first, the rest of the buffer zero), the
  first 64 digits of the feature row are the bits of \<open>feature\<close> and the other 16 those of \<open>feabits\<close>. Every
  index written lies inside the 512 KiB configuration buffer.
\<close>

theorem jed_roundtrip:
  assumes "bitstream_valid data"
    and "data = a @ ascii ''L000000'' @ map jed_digit bits @ 0x2a # z"
    and "data = m @ ascii ''NOTE FEATURE_ROW*'' @ map jed_digit fr @ 0x2a # y"
    and "find_str data (length data) ''L000000'' = Some (length a)"
    and "find_str data (length data) ''NOTE FEATURE_ROW*'' = Some (length m)"
    and "length bits mod 128 = 0" and "length bits < MAX_CONFIG_SIZE * 8" and "length fr = 80"
  shows "\<exists>jd. parse_jed_file data = io_return jd \<and> jed_bit_count jd = length bits
    \<and> length (jed_config jd) = MAX_CONFIG_SIZE
    \<and> (\<forall>k < MAX_CONFIG_SIZE * 8. bit (jed_config jd ! (k div 8)) (k mod 8) \<longleftrightarrow> k < length bits \<and> bits ! k)
    \<and> (\<forall>k < 64. bit (jed_feature jd) k \<longleftrightarrow> fr ! k) \<and> (\<forall>k < 16. bit (jed_feabits jd) k \<longleftrightarrow> fr ! (64 + k))"
proof -
  have "bit (config_bytes bits ! (k div 8)) (k mod 8) \<longleftrightarrow> k < length bits \<and> bits ! k" if "k < MAX_CONFIG_SIZE * 8" for k
    using config_bytes_bit [of "k div 8" "k mod 8" bits] that by simp
  with parse_jed [OF assms] assms(8) show ?thesis by (auto simp: bit_bits_value jed_of_def)
qed


definition sample_jed :: bytes where
  "sample_jed = ascii BITSTREAM_SIGNATURE @ ascii ''L000000'' @ [0x2a] @ ascii ''NOTE FEATURE_ROW*''
     @ map jed_digit (replicate 80 True) @ [0x2a] @ replicate 905 0"

lemma find_str_after:
  assumes "data = a @ ascii str @ b" and "str \<noteq> []" and "n = length data"
    and "\<forall>j < length a. take (length str) (drop j (a @ ascii str)) \<noteq> ascii str"
  shows "find_str data n str = Some (length a)"
proof -
  have "take (length str) (drop j data) = take (length str) (drop j (a @ ascii str))" if "j < length a" for j
    using that by (simp add: assms(1))
  with assms show ?thesis by (simp add: find_str_Some)
qed

abbreviation sample_pre :: bytes where
  "sample_pre \<equiv> ascii BITSTREAM_SIGNATURE @ ascii ''L000000'' @ [0x2a]"

lemma sample_facts:
  "bitstream_valid sample_jed"
  "sample_jed = ascii BITSTREAM_SIGNATURE @ ascii ''L000000'' @ map jed_digit [] @ 0x2a # (ascii ''NOTE FEATURE_ROW*''
      @ map jed_digit (replicate 80 True) @ [0x2a] @ replicate 905 0)"
  "sample_jed = sample_pre @ ascii ''NOTE FEATURE_ROW*'' @ map jed_digit (replicate 80 True) @ 0x2a # replicate 905 0"
  "find_str sample_jed (length sample_jed) ''L000000'' = Some (length (ascii BITSTREAM_SIGNATURE))"
  "find_str sample_jed (length sample_jed) ''NOTE FEATURE_ROW*'' = Some (length sample_pre)"
  "length ([] :: bool list) mod 128 = 0" "length ([] :: bool list) < MAX_CONFIG_SIZE * 8" "length (replicate 80 True) = 80"
proof -
  have len: "length BITSTREAM_SIGNATURE = 13" by (simp add: BITSTREAM_SIGNATURE_def)
  show b: "sample_jed = ascii BITSTREAM_SIGNATURE @ ascii ''L000000'' @ map jed_digit [] @ 0x2a # (ascii ''NOTE FEATURE_ROW*''
      @ map jed_digit (replicate 80 True) @ [0x2a] @ replicate 905 0)" by (simp add: sample_jed_def)
  show f: "sample_jed = sample_pre @ ascii ''NOTE FEATURE_ROW*'' @ map jed_digit (replicate 80 True) @ 0x2a # replicate 905 0"
    by (simp add: sample_jed_def)
  have "find_str sample_jed 1024 BITSTREAM_SIGNATURE = Some 0"
    by (simp add: find_str_Some sample_jed_def) (simp add: BITSTREAM_SIGNATURE_def)
  then show "bitstream_valid sample_jed" by (simp add: bitstream_valid_def sample_jed_def len)
  have "\<forall>j < length (ascii BITSTREAM_SIGNATURE). take (length ''L000000'') (drop j (ascii BITSTREAM_SIGNATURE @ ascii ''L000000''))
      \<noteq> ascii ''L000000''" by code_simp
  then show "find_str sample_jed (length sample_jed) ''L000000'' = Some (length (ascii BITSTREAM_SIGNATURE))"
    by (intro find_str_after [OF b]) simp_all
  have "\<forall>j < length sample_pre. take (length ''NOTE FEATURE_ROW*'') (drop j (sample_pre @ ascii ''NOTE FEATURE_ROW*'')) \<noteq> ascii ''NOTE FEATURE_ROW*''"
    by code_simp
  then show "find_str sample_jed (length sample_jed) ''NOTE FEATURE_ROW*'' = Some (length sample_pre)"
    by (intro find_str_after [OF f]) simp_all
qed (simp_all add: MAX_CONFIG_SIZE_def)

theorem jed_roundtrip_witness:
  "\<exists>jd. parse_jed_file sample_jed = io_return jd \<and> jed_bit_count jd = 0 \<and> bit (jed_feabits jd) 3"
  using jed_roundtrip [OF sample_facts] by fastforce


section \<open>Flash programming\<close>

text \<open>A device with scripted answers: each response is the next one of a list; no more answers is a USB error.\<close>

definition scripted :: "(u8 list list \<times> bytes list) jtag_usb" where
  "scripted = \<lparr>ju_request = (\<lambda>n b d. Some (fst d @ [unpack_clocks n b], snd d)),
     ju_response = (\<lambda>n d. case snd d of [] \<Rightarrow> None | r # rs \<Rightarrow> Some (r, (fst d, rs))), ju_junk = []\<rparr>"

abbreviation answers :: "(u8 list list \<times> bytes list) jtag \<Rightarrow> bytes list" where
  "answers j \<equiv> snd (jt_dev j)"

definition read_answer :: "bytes \<Rightarrow> nat \<Rightarrow> bytes" where
  "read_answer r n = merge_nibbles (take 64 (take ((n + 3) div 4) r @ replicate 64 0)) n"

lemma sync_scripted:
  "jtag_ok j \<Longrightarrow> \<exists>j'. jtag_sync scripted j = io_return j' \<and> jtag_ok j' \<and> answers j' = answers j"
  by (auto simp: jtag_sync_def usb_jtag_request_def scripted_def os_assert_def jtag_ok_def MAX_COUNT_IN_REQUEST_def Let_def)

lemma clk_scripted:
  assumes "jtag_ok j"
  shows "\<exists>j'. jtag_clk scripted tdi tms j = io_return j' \<and> jtag_ok j' \<and> answers j' = answers j"
proof -
  let ?j = "j\<lparr>jt_buf := jt_buf j @ [clock_byte (tdi, tms)]\<rparr>"
  have "\<exists>j'. jtag_sync scripted ?j = io_return j' \<and> jtag_ok j' \<and> answers j' = answers j" if "length (jt_buf ?j) = MAX_COUNT_IN_REQUEST"
    using that by (simp add: jtag_sync_def usb_jtag_request_def scripted_def os_assert_def jtag_ok_def MAX_COUNT_IN_REQUEST_def Let_def)
  moreover have "jtag_ok ?j" if "length (jt_buf ?j) \<noteq> MAX_COUNT_IN_REQUEST"
    using assms that clock_byte_bits by (auto simp: jtag_ok_def)
  ultimately show ?thesis by (auto simp: jtag_clk_byte Let_def)
qed

lemma clks_scripted:
  "jtag_ok j \<Longrightarrow> \<exists>j'. jtag_clks scripted cs j = io_return j' \<and> jtag_ok j' \<and> answers j' = answers j"
proof (induction cs arbitrary: j)
  case (Cons c cs)
  obtain tdi tms where c: "c = (tdi, tms)" by fastforce
  obtain j1 where "jtag_clk scripted tdi tms j = io_return j1" "jtag_ok j1" "answers j1 = answers j"
    using clk_scripted [OF Cons.prems] by blast
  with Cons.IH [of j1] show ?case by (auto simp: c)
qed simp

lemma read_scripted:
  assumes "jtag_ok j" and "n \<le> MAX_COUNT_IN_REQUEST"
  shows "case answers j of
      [] \<Rightarrow> jtag_read_dr scripted n j = Some (Inl (UsbError ''usb_jtag_response()''))
    | r # rs \<Rightarrow> \<exists>j'. jtag_read_dr scripted n j = io_return (read_answer r n, j') \<and> jtag_ok j' \<and> answers j' = rs"
proof -
  obtain j1 where j1: "jtag_clks scripted [(False, True), (False, False), (False, False)] j = io_return j1" "jtag_ok j1" "answers j1 = answers j"
    using clks_scripted [OF assms(1)] by blast
  obtain j2 where j2: "jtag_sync scripted j1 = io_return j2" "jtag_ok j2" "answers j2 = answers j1"
    using sync_scripted [OF j1(2)] by blast
  obtain j3 where j3: "jtag_clks scripted (map (\<lambda>i. (False, i = n - 1)) [0..<n]) j2 = io_return j3" "jtag_ok j3" "answers j3 = answers j2"
    using clks_scripted [OF j2(2)] by blast
  obtain j4 where j4: "jtag_sync scripted j3 = io_return j4" "jtag_ok j4" "answers j4 = answers j3"
    using sync_scripted [OF j3(2)] by blast
  have resp: "usb_jtag_response scripted n (jt_dev j4) =
      (case answers j of [] \<Rightarrow> Some (Inl (UsbError ''usb_jtag_response()'')) | r # rs \<Rightarrow> io_return (read_answer r n, (fst (jt_dev j4), rs)))"
    using assms(2) j1(3) j2(3) j3(3) j4(3)
    by (auto simp: usb_jtag_response_def scripted_def os_assert_def read_answer_def split: list.split)
  have ok: "jtag_ok (j4\<lparr>jt_dev := d\<rparr>)" for d using j4(2) by (simp add: jtag_ok_def)
  show ?thesis
  proof (cases "answers j")
    case Nil
    then show ?thesis by (simp add: jtag_read_dr_def j1(1) j2(1) j3(1) j4(1) resp del: jtag_clks.simps One_nat_def)
  next
    case (Cons r rs)
    with clks_scripted [OF ok [of "(fst (jt_dev j4), rs)"], of "[(False, True), (False, False)]"]
    show ?thesis by (auto simp: jtag_read_dr_def j1(1) j2(1) j3(1) j4(1) resp simp del: jtag_clks.simps One_nat_def)
  qed
qed

lemma read_scripted_Inr:
  assumes "jtag_read_dr scripted n j = io_return (data, j')" and "jtag_ok j" and "n \<le> MAX_COUNT_IN_REQUEST"
  shows "jtag_ok j'" "answers j = hd (answers j) # answers j'" "data = read_answer (hd (answers j)) n"
  using read_scripted [OF assms(2,3)] assms(1) by (auto split: list.splits)


text \<open>How the operations consume answers: none in a scan, one in a read, one per poll and one for the status.\<close>

lemma ir_scripted: "jtag_ok j \<Longrightarrow> \<exists>j'. jtag_write_ir scripted c j = io_return j' \<and> jtag_ok j' \<and> answers j' = answers j"
  unfolding jtag_write_ir_def by (rule clks_scripted)

lemma cmd_scripted:
  assumes "jtag_ok j"
  shows "\<exists>j'. jtag_run scripted n j = io_return j' \<and> jtag_ok j' \<and> answers j' = answers j"
    and "\<exists>j'. jtag_cmd scripted c n j = io_return j' \<and> jtag_ok j' \<and> answers j' = answers j"
    and "\<exists>j'. jtag_cmd_dr scripted c data b n j = io_return j' \<and> jtag_ok j' \<and> answers j' = answers j"
proof -
  have run: "\<exists>j'. jtag_run scripted n k = io_return j' \<and> jtag_ok j' \<and> answers j' = answers k" if "jtag_ok k" for k
    using clks_scripted [OF that] by (simp add: jtag_run_def)
  have dr: "\<exists>j'. jtag_write_dr scripted data b k = io_return j' \<and> jtag_ok j' \<and> answers j' = answers k" if "jtag_ok k" for k
    unfolding jtag_write_dr_def using that by (rule clks_scripted)
  obtain j1 where j1: "jtag_write_ir scripted c j = io_return j1" "jtag_ok j1" "answers j1 = answers j"
    using ir_scripted [OF assms] by blast
  obtain j2 where j2: "jtag_write_dr scripted data b j1 = io_return j2" "jtag_ok j2" "answers j2 = answers j1"
    using dr [OF j1(2)] by blast
  show "\<exists>j'. jtag_run scripted n j = io_return j' \<and> jtag_ok j' \<and> answers j' = answers j" using assms by (rule run)
  show "\<exists>j'. jtag_cmd scripted c n j = io_return j' \<and> jtag_ok j' \<and> answers j' = answers j"
    using j1 run [OF j1(2)] by (simp add: jtag_cmd_def)
  show "\<exists>j'. jtag_cmd_dr scripted c data b n j = io_return j' \<and> jtag_ok j' \<and> answers j' = answers j"
    using j1 j2 run [OF j2(2)] by (simp add: jtag_cmd_dr_def)
qed

definition busy_answer :: "bytes \<Rightarrow> bool" where
  "busy_answer r \<longleftrightarrow> read_answer r 1 ! 0 \<noteq> 0"

lemma poll_flag_scripted:
  assumes "jtag_ok j" and "answers j = busy @ ready # st # rest" and "\<forall>r \<in> set busy. busy_answer r" and "\<not> busy_answer ready"
    and "status = of_le32 (read_answer st 32)"
  shows "if status AND STATUS_BUSY \<noteq> 0 then poll_busy_flag scripted j = os_error ''poll_busy_flag(): busy''
    else if status AND STATUS_FAIL \<noteq> 0 then poll_busy_flag scripted j = os_error ''poll_busy_flag(): fail''
    else \<exists>j'. poll_busy_flag scripted j = io_return j' \<and> jtag_ok j' \<and> answers j' = rest"
proof -
  have "\<exists>j'. poll_busy scripted j = io_return j' \<and> jtag_ok j' \<and> answers j' = st # rest"
    using assms(1-3)
  proof (induction busy arbitrary: j)
    case Nil
    obtain j1 where j1: "jtag_write_ir scripted CMD_LSC_CHECK_BUSY j = io_return j1" "jtag_ok j1" "answers j1 = ready # st # rest"
      using ir_scripted [OF Nil(1)] Nil(2) by auto
    with read_scripted [OF j1(2), of 1] assms(4) show ?case
      by (auto simp: poll_busy.simps [of _ j] busy_answer_def MAX_COUNT_IN_REQUEST_def)
  next
    case (Cons r busy)
    obtain j1 where j1: "jtag_write_ir scripted CMD_LSC_CHECK_BUSY j = io_return j1" "jtag_ok j1" "answers j1 = r # busy @ ready # st # rest"
      using ir_scripted [OF Cons.prems(1)] Cons.prems(2) by auto
    obtain j2 where "jtag_read_dr scripted 1 j1 = io_return (read_answer r 1, j2)" "jtag_ok j2" "answers j2 = busy @ ready # st # rest"
      using read_scripted [OF j1(2), of 1] j1(3) by (auto simp: MAX_COUNT_IN_REQUEST_def)
    with Cons j1 show ?case by (auto simp: poll_busy.simps [of _ j] busy_answer_def)
  qed
  then obtain j1 where j1: "poll_busy scripted j = io_return j1" "jtag_ok j1" "answers j1 = st # rest" by blast
  obtain j2 where j2: "jtag_write_ir scripted CMD_LSC_READ_STATUS j1 = io_return j2" "jtag_ok j2" "answers j2 = st # rest"
    using ir_scripted [OF j1(2)] j1(3) by auto
  obtain j3 where j3: "jtag_read_dr scripted 32 j2 = io_return (read_answer st 32, j3)" "jtag_ok j3" "answers j3 = rest"
    using read_scripted [OF j2(2), of 32] j2(3) by (auto simp: MAX_COUNT_IN_REQUEST_def)
  obtain j4 where j4: "jtag_run scripted 8 j3 = io_return j4" "jtag_ok j4" "answers j4 = rest"
    using cmd_scripted(1) [OF j3(2)] j3(3) by auto
  show ?thesis using assms(5) j1(1) j2(1) j3(1) j4 by (simp add: poll_busy_flag_def)
qed

text \<open>
  Waiting for the flash ends as soon as the device is ready: if the answers are any number of
  busy reports followed by a ready one, \<open>poll_busy\<close> returns after exactly those, and if the status word
  that follows has neither the busy nor the fail bit, \<open>poll_busy_flag\<close> returns; if it has one of them,
  the process ends with the corresponding error.
\<close>

theorem poll_busy_returns:
  assumes "jtag_ok j" and "answers j = busy @ ready # st # rest" and "\<forall>r \<in> set busy. busy_answer r" and "\<not> busy_answer ready"
    and "status = of_le32 (read_answer st 32)"
  shows "if status AND STATUS_BUSY \<noteq> 0 then poll_busy_flag scripted j = os_error ''poll_busy_flag(): busy''
    else if status AND STATUS_FAIL \<noteq> 0 then poll_busy_flag scripted j = os_error ''poll_busy_flag(): fail''
    else \<exists>j'. poll_busy_flag scripted j = io_return j' \<and> jtag_ok j' \<and> answers j' = rest"
  using assms by (rule poll_flag_scripted)

theorem poll_busy_returns_witness:
  "\<exists>j'. poll_busy_flag scripted \<lparr>jt_buf = [], jt_dev = ([], [[1], [0], replicate 8 0])\<rparr> = io_return j'"
proof -
  let ?j = "\<lparr>jt_buf = [], jt_dev = ([] :: u8 list list, [[1], [0], replicate 8 0])\<rparr>"
  have a: "jtag_ok ?j" "answers ?j = [[1]] @ [0] # replicate 8 0 # []" by (simp_all add: jtag_ok_def MAX_COUNT_IN_REQUEST_def)
  have b: "\<forall>r \<in> set [[1]]. busy_answer r" "\<not> busy_answer [0]" by code_simp+
  have s: "of_le32 (read_answer (replicate 8 0) 32) = 0" by code_simp
  show ?thesis using poll_busy_returns [OF a b refl] by (auto simp: s)
qed


text \<open>For results only: whatever returns has consumed some answers and left a well-formed state.\<close>

definition uses_answers :: "(u8 list list \<times> bytes list) jtag \<Rightarrow> (u8 list list \<times> bytes list) jtag \<Rightarrow> bytes list \<Rightarrow> bool" where
  "uses_answers j j' as \<longleftrightarrow> jtag_ok j' \<and> answers j = as @ answers j'"

lemma uses_trans: "uses_answers j k as \<Longrightarrow> uses_answers k l bs \<Longrightarrow> uses_answers j l (as @ bs)"
  by (simp add: uses_answers_def)

lemma uses_scan:
  "jtag_write_ir scripted c j = io_return j' \<Longrightarrow> jtag_ok j \<Longrightarrow> uses_answers j j' []"
  "jtag_run scripted n j = io_return j' \<Longrightarrow> jtag_ok j \<Longrightarrow> uses_answers j j' []"
  "jtag_cmd scripted c n j = io_return j' \<Longrightarrow> jtag_ok j \<Longrightarrow> uses_answers j j' []"
  "jtag_cmd_dr scripted c data b n j = io_return j' \<Longrightarrow> jtag_ok j \<Longrightarrow> uses_answers j j' []"
  "jtag_sync scripted j = io_return j' \<Longrightarrow> jtag_ok j \<Longrightarrow> uses_answers j j' []"
  using ir_scripted [of j c] cmd_scripted(1) [of j n] cmd_scripted(2) [of j c n] cmd_scripted(3) [of j c data b n]
    sync_scripted [of j] by (auto simp: uses_answers_def)

lemma uses_read:
  "jtag_read_dr scripted n j = io_return r \<Longrightarrow> jtag_ok j \<Longrightarrow> n \<le> MAX_COUNT_IN_REQUEST \<Longrightarrow>
     \<exists>a. uses_answers j (snd r) [a] \<and> fst r = read_answer a n"
  using read_scripted_Inr [of n j "fst r" "snd r"] by (auto simp: uses_answers_def intro!: exI [of _ "hd (answers j)"])

lemma uses_poll_busy:
  assumes "poll_busy scripted j = io_return j'" and "jtag_ok j"
  shows "\<exists>as. uses_answers j j' as"
proof -
  define P where "P = (\<lambda>u j (r :: os_exit + _). u = scripted \<longrightarrow> jtag_ok j \<longrightarrow> (\<forall>j'. r = Inr j' \<longrightarrow> (\<exists>as. uses_answers j j' as)))"
  have "P scripted j (Inr j')"
  proof (rule poll_busy.raw_induct [of P, OF _ assms(1)])
    fix f u j r
    assume ih: "\<And>u j y. f u j = Some y \<Longrightarrow> P u j y"
      and body: "io_bind (jtag_write_ir u CMD_LSC_CHECK_BUSY j) (\<lambda>j. io_bind (jtag_read_dr u 1 j)
        (\<lambda>r. if fst r ! 0 \<noteq> 0 then f u (snd r) else io_return (snd r))) = Some r"
    show "P u j r" unfolding P_def
    proof (intro impI allI)
      fix j' assume u: "u = scripted" and ok: "jtag_ok j" and r: "r = Inr j'"
      obtain j1 x where s: "jtag_write_ir scripted CMD_LSC_CHECK_BUSY j = io_return j1" "jtag_read_dr scripted 1 j1 = io_return x"
        and d: "(if fst x ! 0 \<noteq> 0 then f scripted (snd x) else io_return (snd x)) = io_return j'"
        using body unfolding u r by (auto simp: io_bind_Inr)
      have j1: "uses_answers j j1 []" using uses_scan(1) [OF s(1) ok] .
      then obtain a where x: "uses_answers j1 (snd x) [a]"
        using uses_read [OF s(2)] by (auto simp: uses_answers_def MAX_COUNT_IN_REQUEST_def)
      have "\<exists>as. uses_answers (snd x) j' as"
        using d ih [of scripted "snd x" "Inr j'"] x by (auto simp: P_def uses_answers_def split: if_splits)
      with j1 x show "\<exists>as. uses_answers j j' as" by (blast intro: uses_trans)
    qed
  qed
  with assms(2) show ?thesis by (simp add: P_def)
qed

lemma uses_poll_flag:
  assumes "poll_busy_flag scripted j = io_return j'" and "jtag_ok j"
  shows "\<exists>as. uses_answers j j' as"
proof -
  obtain j1 j2 x j4 where s: "poll_busy scripted j = io_return j1" "jtag_write_ir scripted CMD_LSC_READ_STATUS j1 = io_return j2"
    "jtag_read_dr scripted 32 j2 = io_return x" "jtag_run scripted 8 (snd x) = io_return j4" "j' = j4"
    using assms(1) by (auto simp: poll_busy_flag_def io_simps split: if_splits prod.splits)
  obtain as where a: "uses_answers j j1 as" using uses_poll_busy [OF s(1) assms(2)] by blast
  have b: "uses_answers j1 j2 []" using uses_scan(1) [OF s(2)] a by (simp add: uses_answers_def)
  obtain c where c: "uses_answers j2 (snd x) [c]" using uses_read [OF s(3)] b by (auto simp: uses_answers_def MAX_COUNT_IN_REQUEST_def)
  have "uses_answers (snd x) j4 []" using uses_scan(2) [OF s(4)] c by (simp add: uses_answers_def)
  with a b c s(5) show ?thesis by (blast intro: uses_trans)
qed


lemma uses_erase:
  assumes "fpga_erase_flash scripted j = io_return j'" and "jtag_ok j"
  shows "\<exists>as. uses_answers j j' as"
proof -
  obtain j1 j2 j3 j4 j5 where s: "jtag_cmd_dr scripted CMD_ISC_ENABLE [ISC_ENABLE_SRAM] 8 8 j = io_return j1"
    "jtag_cmd_dr scripted CMD_ISC_ERASE [ISC_ERASE_SRAM] 8 8 j1 = io_return j2" "jtag_write_ir scripted CMD_ISC_NOOP j2 = io_return j3"
    "jtag_cmd_dr scripted CMD_ISC_ENABLE [ISC_ENABLE_FLASH] 8 8 j3 = io_return j4"
    "jtag_cmd_dr scripted CMD_ISC_ERASE [ISC_ERASE_ALL_NV] 8 8 j4 = io_return j5" "poll_busy_flag scripted j5 = io_return j'"
    using assms(1) by (auto simp: fpga_erase_flash_def io_simps)
  have a1: "uses_answers j j1 []" using uses_scan(4) [OF s(1) assms(2)] .
  have a2: "uses_answers j1 j2 []" using uses_scan(4) [OF s(2)] a1 by (simp add: uses_answers_def)
  have a3: "uses_answers j2 j3 []" using uses_scan(1) [OF s(3)] a2 by (simp add: uses_answers_def)
  have a4: "uses_answers j3 j4 []" using uses_scan(4) [OF s(4)] a3 by (simp add: uses_answers_def)
  have a5: "uses_answers j4 j5 []" using uses_scan(4) [OF s(5)] a4 by (simp add: uses_answers_def)
  obtain as where "uses_answers j5 j' as" using uses_poll_flag [OF s(6)] a5 by (auto simp: uses_answers_def)
  with a1 a2 a3 a4 a5 show ?thesis by (blast intro: uses_trans)
qed

lemma uses_program_rows:
  "program_rows scripted config rows j = io_return j' \<Longrightarrow> jtag_ok j \<Longrightarrow> \<exists>as. uses_answers j j' as"
proof (induction rows arbitrary: j)
  case Nil
  then show ?case by (simp add: uses_answers_def)
next
  case (Cons row rows)
  obtain j1 j2 where s: "jtag_cmd_dr scripted CMD_LSC_PROG_INCR_NV (drop (row * 16) config) FLASH_ROW_SIZE 1000 j = io_return j1"
    "poll_busy_flag scripted j1 = io_return j2" "program_rows scripted config rows j2 = io_return j'"
    using Cons.prems(1) by (auto simp: io_simps)
  have a: "uses_answers j j1 []" using uses_scan(4) [OF s(1) Cons.prems(2)] .
  obtain bs where b: "uses_answers j1 j2 bs" using uses_poll_flag [OF s(2)] a by (auto simp: uses_answers_def)
  obtain cs where "uses_answers j2 j' cs" using Cons.IH [OF s(3)] b by (auto simp: uses_answers_def)
  with a b show ?case by (blast intro: uses_trans)
qed

lemma verify_rows_answers:
  "verify_rows scripted config rows j = io_return j' \<Longrightarrow> jtag_ok j \<Longrightarrow>
     \<exists>rs. uses_answers j j' rs \<and> map (\<lambda>r. take 16 (read_answer r 128)) rs = map (\<lambda>row. take 16 (drop (row * 16) config)) rows"
proof (induction rows arbitrary: j)
  case Nil
  then show ?case by (simp add: uses_answers_def)
next
  case (Cons row rows)
  obtain x j2 where s: "jtag_read_dr scripted FLASH_ROW_SIZE j = io_return x" "jtag_run scripted 8 (snd x) = io_return j2"
    and v: "take 16 (fst x) = take 16 (drop (row * 16) config)" "verify_rows scripted config rows j2 = io_return j'"
    using Cons.prems(1) by (auto simp: io_simps split: if_splits prod.splits)
  obtain a where a: "uses_answers j (snd x) [a]" "fst x = read_answer a 128"
    using uses_read [OF s(1) Cons.prems(2)] by (auto simp: FLASH_ROW_SIZE_def MAX_COUNT_IN_REQUEST_def)
  have b: "uses_answers (snd x) j2 []" using uses_scan(2) [OF s(2)] a by (simp add: uses_answers_def)
  obtain rs where r: "uses_answers j2 j' rs"
    "map (\<lambda>r. take 16 (read_answer r 128)) rs = map (\<lambda>row. take 16 (drop (row * 16) config)) rows"
    using Cons.IH [OF v(2)] b by (auto simp: uses_answers_def)
  have "uses_answers j j' (a # rs)" using uses_trans [OF a(1) uses_trans [OF b r(1)]] by simp
  with a(2) v(1) r(2) show ?case by (intro exI [of _ "a # rs"]) simp
qed

text \<open>The answer a verified read has seen, with the answers around it.\<close>

lemma program_feature_answers:
  assumes "program_feature scripted v j = io_return j'" and "jtag_ok j"
  shows "\<exists>as a bs. uses_answers j j' (as @ a # bs) \<and> read_answer a 64 = le64 v"
proof -
  obtain j1 j2 j3 j4 x j5 where s: "jtag_cmd scripted CMD_LSC_INIT_ADDRESS 8 j = io_return j1"
    "jtag_cmd_dr scripted CMD_LSC_PROG_FEATURE (le64 v) 64 8 j1 = io_return j2" "poll_busy_flag scripted j2 = io_return j3"
    "jtag_write_ir scripted CMD_LSC_READ_FEATURE j3 = io_return j4" "jtag_read_dr scripted 64 j4 = io_return x"
    "jtag_run scripted 8 (snd x) = io_return j5" "fst x = le64 v" "j5 = j'"
    using assms(1) by (auto simp: program_feature_def io_simps split: prod.splits)
  have a1: "uses_answers j j1 []" using uses_scan(3) [OF s(1) assms(2)] .
  have a2: "uses_answers j1 j2 []" using uses_scan(4) [OF s(2)] a1 by (simp add: uses_answers_def)
  obtain as where a3: "uses_answers j2 j3 as" using uses_poll_flag [OF s(3)] a2 by (auto simp: uses_answers_def)
  have a4: "uses_answers j3 j4 []" using uses_scan(1) [OF s(4)] a3 by (simp add: uses_answers_def)
  obtain a where a5: "uses_answers j4 (snd x) [a]" "fst x = read_answer a 64"
    using uses_read [OF s(5)] a4 by (auto simp: uses_answers_def MAX_COUNT_IN_REQUEST_def)
  have a6: "uses_answers (snd x) j5 []" using uses_scan(2) [OF s(6)] a5 by (simp add: uses_answers_def)
  have "uses_answers j j' (as @ [a])"
    using uses_trans [OF a1 uses_trans [OF a2 uses_trans [OF a3 uses_trans [OF a4 uses_trans [OF a5(1) a6]]]]] s(8) by simp
  with a5(2) s(7) show ?thesis by (metis append_Cons)
qed

lemma program_feabits_answers:
  assumes "program_feabits scripted v j = io_return j'" and "jtag_ok j"
  shows "\<exists>as a bs. uses_answers j j' (as @ a # bs) \<and> read_answer a 16 = le16 v"
proof -
  obtain j1 j2 j3 x where s: "jtag_cmd_dr scripted CMD_LSC_PROG_FEABITS (le16 v) 16 8 j = io_return j1"
    "poll_busy_flag scripted j1 = io_return j2" "jtag_cmd scripted CMD_LSC_READ_FEABITS 8 j2 = io_return j3"
    "jtag_read_dr scripted 16 j3 = io_return x" "fst x = le16 v" "snd x = j'"
    using assms(1) by (auto simp: program_feabits_def io_simps split: prod.splits)
  have a1: "uses_answers j j1 []" using uses_scan(4) [OF s(1) assms(2)] .
  obtain as where a2: "uses_answers j1 j2 as" using uses_poll_flag [OF s(2)] a1 by (auto simp: uses_answers_def)
  have a3: "uses_answers j2 j3 []" using uses_scan(3) [OF s(3)] a2 by (simp add: uses_answers_def)
  obtain a where a4: "uses_answers j3 (snd x) [a]" "fst x = read_answer a 16"
    using uses_read [OF s(4)] a3 by (auto simp: uses_answers_def MAX_COUNT_IN_REQUEST_def)
  have "uses_answers j j' (as @ [a])" using uses_trans [OF a1 uses_trans [OF a2 uses_trans [OF a3 a4(1)]]] s(6) by simp
  with a4(2) s(5) show ?thesis by (metis append_Cons)
qed


text \<open>Successful runs against given answers, composed.\<close>

definition ok_run :: "((u8 list list \<times> bytes list) jtag \<Rightarrow> (u8 list list \<times> bytes list) jtag io) \<Rightarrow> bytes list \<Rightarrow> bool" where
  "ok_run f as \<longleftrightarrow> (\<forall>j rest. jtag_ok j \<and> answers j = as @ rest \<longrightarrow> (\<exists>j'. f j = io_return j' \<and> jtag_ok j' \<and> answers j' = rest))"

lemma ok_run_bind: "ok_run f as \<Longrightarrow> ok_run g bs \<Longrightarrow> ok_run (\<lambda>j. io_bind (f j) g) (as @ bs)"
  unfolding ok_run_def by (metis append_assoc io_bind_simps(1))

lemma ok_run_scan:
  "ok_run (jtag_write_ir scripted c) []" "ok_run (jtag_cmd scripted c n) []" "ok_run (jtag_cmd_dr scripted c data b n) []"
  "ok_run (jtag_sync scripted) []" "ok_run (jtag_run scripted n) []" "ok_run io_return []"
  using ir_scripted cmd_scripted sync_scripted by (simp_all add: ok_run_def)

lemma ok_run_poll: "ok_run (poll_busy_flag scripted) [[0], replicate 8 0]"
proof -
  have b: "\<not> busy_answer [0]" and s: "of_le32 (read_answer (replicate 8 0) 32) = 0" by code_simp+
  show ?thesis unfolding ok_run_def
  proof (intro allI impI)
    fix j rest assume j: "jtag_ok j \<and> answers j = [[0], replicate 8 0] @ rest"
    then have "answers j = [] @ [0] # replicate 8 0 # rest" by simp
    from poll_flag_scripted [OF conjunct1 [OF j] this _ b refl] show "\<exists>j'. poll_busy_flag scripted j = io_return j' \<and> jtag_ok j' \<and> answers j' = rest"
      by (simp add: s)
  qed
qed

lemma ok_run_read:
  assumes "n \<le> 255" and "ok_run (g (read_answer a n)) bs"
  shows "ok_run (\<lambda>j. io_bind (jtag_read_dr scripted n j) (\<lambda>(v, j). g v j)) (a # bs)"
  unfolding ok_run_def
proof (intro allI impI)
  fix j rest assume j: "jtag_ok j \<and> answers j = (a # bs) @ rest"
  then obtain j1 where "jtag_read_dr scripted n j = io_return (read_answer a n, j1)" "jtag_ok j1" "answers j1 = bs @ rest"
    using read_scripted [of j n] assms(1) by (auto simp: MAX_COUNT_IN_REQUEST_def)
  with assms(2) show "\<exists>j'. io_bind (jtag_read_dr scripted n j) (\<lambda>(v, j). g v j) = io_return j' \<and> jtag_ok j' \<and> answers j' = rest"
    by (simp add: ok_run_def)
qed

section \<open>Properties of flash programming\<close>

text \<open>
  C30. Flash programming verifies what it wrote: whenever \<open>fpga_program_flash\<close> returns, whatever the
  device answered, the file was a valid JED file, every configuration row was read back and was equal
  to the row of the file, in order, and then the feature row and the feature bits were read back and
  equal to those of the file. So a device that drops or alters any of it is always reported.
\<close>

theorem flash_verified:
  assumes "fpga_program_flash scripted data j = io_return j'" and "jtag_ok j"
  shows "\<exists>jd pre rows mid fr mid' fb post. parse_jed_file data = io_return jd
    \<and> answers j = pre @ rows @ mid @ fr # mid' @ fb # post
    \<and> map (\<lambda>r. take 16 (read_answer r 128)) rows
        = map (\<lambda>row. take 16 (drop (row * 16) (jed_config jd))) [0..<jed_bit_count jd div FLASH_ROW_SIZE]
    \<and> read_answer fr 64 = le64 (jed_feature jd) \<and> read_answer fb 16 = le16 (jed_feabits jd)"
proof -
  obtain jd j1 j2 j3 j4 j5 j6 j7 j8 where s: "parse_jed_file data = io_return jd" "fpga_erase_flash scripted j = io_return j1"
    "jtag_cmd scripted CMD_LSC_INIT_ADDRESS 8 j1 = io_return j2"
    "program_rows scripted (jed_config jd) [0..<jed_bit_count jd div FLASH_ROW_SIZE] j2 = io_return j3"
    "jtag_cmd scripted CMD_LSC_INIT_ADDRESS 8 j3 = io_return j4" "jtag_cmd scripted CMD_LSC_READ_INCR_NV 8 j4 = io_return j5"
    "verify_rows scripted (jed_config jd) [0..<jed_bit_count jd div FLASH_ROW_SIZE] j5 = io_return j6"
    "program_feature scripted (jed_feature jd) j6 = io_return j7" "program_feabits scripted (jed_feabits jd) j7 = io_return j8"
    using assms(1) by (auto simp: fpga_program_flash_def io_bind_Inr Let_def)
  obtain a1 where a1: "uses_answers j j1 a1" using uses_erase [OF s(2) assms(2)] by blast
  have a2: "uses_answers j1 j2 []" using uses_scan(3) [OF s(3)] a1 by (simp add: uses_answers_def)
  obtain a3 where a3: "uses_answers j2 j3 a3" using uses_program_rows [OF s(4)] a2 by (auto simp: uses_answers_def)
  have a4: "uses_answers j3 j4 []" using uses_scan(3) [OF s(5)] a3 by (simp add: uses_answers_def)
  have a5: "uses_answers j4 j5 []" using uses_scan(3) [OF s(6)] a4 by (simp add: uses_answers_def)
  obtain rows where r: "uses_answers j5 j6 rows" "map (\<lambda>r. take 16 (read_answer r 128)) rows
      = map (\<lambda>row. take 16 (drop (row * 16) (jed_config jd))) [0..<jed_bit_count jd div FLASH_ROW_SIZE]"
    using verify_rows_answers [OF s(7)] a5 by (auto simp: uses_answers_def)
  obtain f1 fr f2 where f: "uses_answers j6 j7 (f1 @ fr # f2)" "read_answer fr 64 = le64 (jed_feature jd)"
    using program_feature_answers [OF s(8)] r(1) by (auto simp: uses_answers_def)
  obtain b1 fb b2 where b: "uses_answers j7 j8 (b1 @ fb # b2)" "read_answer fb 16 = le16 (jed_feabits jd)"
    using program_feabits_answers [OF s(9)] f(1) by (auto simp: uses_answers_def)
  have "answers j = (a1 @ a3) @ rows @ f1 @ fr # (f2 @ b1) @ fb # (b2 @ answers j8)"
    using a1 a2 a3 a4 a5 r(1) f(1) b(1) by (simp add: uses_answers_def)
  with s(1) r(2) f(2) b(2) show ?thesis by blast
qed


text \<open>A run that succeeds: the sample file has no configuration row and a feature row of ones.\<close>

abbreviation ready_answers :: "bytes list" where
  "ready_answers \<equiv> [[0], replicate 8 0]"

lemma bits_value_ones: "(bits_value (replicate 64 True) :: u64) = -1" "(bits_value (replicate 16 True) :: u16) = -1"
  by (rule bit_word_eqI, simp add: bit_bits_value)+

lemma flash_sample_run:
  "ok_run (fpga_program_flash scripted sample_jed)
     (ready_answers @ ready_answers @ [replicate 16 0xf] @ ready_answers @ [replicate 4 0xf] @ ready_answers)"
proof -
  have erase: "ok_run (fpga_erase_flash scripted) ready_answers"
    unfolding fpga_erase_flash_def [abs_def]
    using ok_run_bind [OF ok_run_scan(3) ok_run_bind [OF ok_run_scan(3) ok_run_bind [OF ok_run_scan(1) ok_run_bind [OF ok_run_scan(3)
      ok_run_bind [OF ok_run_scan(3) ok_run_poll]]]]] by simp
  have "read_answer (replicate 16 0xf) 64 = le64 (-1)" "read_answer (replicate 4 0xf) 16 = le16 (-1)" by code_simp+
  note v = this
  have fr: "ok_run (program_feature scripted (-1)) (ready_answers @ [replicate 16 0xf])"
    unfolding program_feature_def [abs_def]
    using ok_run_bind [OF ok_run_scan(2) ok_run_bind [OF ok_run_scan(3) ok_run_bind [OF ok_run_poll ok_run_bind [OF ok_run_scan(1)
      ok_run_read [of 64 "\<lambda>verify j. io_bind (jtag_run scripted 8 j) (\<lambda>j. io_bind (os_check (verify = le64 (-1)) ''Feature Row verification failed'') (\<lambda>_.
     io_return j))" "replicate 16 0xf" "[]"]]]]]
    by (simp add: v os_check_def ok_run_scan)
  have fb: "ok_run (program_feabits scripted (-1)) (ready_answers @ [replicate 4 0xf])"
    unfolding program_feabits_def [abs_def]
    using ok_run_bind [OF ok_run_scan(3) ok_run_bind [OF ok_run_poll ok_run_bind [OF ok_run_scan(2)
      ok_run_read [of 16 "\<lambda>verify j. io_bind (os_check (verify = le16 (-1)) ''FEABITS verification failed'') (\<lambda>_.
     io_return j)" "replicate 4 0xf" "[]"]]]]
    by (simp add: v os_check_def ok_run_scan)
  have "parse_jed_file sample_jed = io_return (jed_of [] (replicate 80 True))" by (rule parse_jed [OF sample_facts])
  then show ?thesis unfolding fpga_program_flash_def [abs_def]
    using ok_run_bind [OF erase ok_run_bind [OF ok_run_scan(2) [of CMD_LSC_INIT_ADDRESS 8] ok_run_bind [OF ok_run_scan(2) ok_run_bind [OF ok_run_scan(2)
      ok_run_bind [OF fr ok_run_bind [OF fb ok_run_bind [OF ok_run_scan(2) ok_run_bind [OF ok_run_poll
        ok_run_bind [OF ok_run_scan(2) ok_run_bind [OF ok_run_scan(2) ok_run_bind [OF ok_run_scan(2) ok_run_bind [OF ok_run_scan(2) ok_run_scan(4)]]]]]]]]]]]]
    by (simp add: jed_of_def bits_value_ones Let_def)
qed

theorem flash_verified_witness:
  "\<exists>jd. parse_jed_file sample_jed = io_return jd \<and> read_answer (replicate 16 0xf) 64 = le64 (jed_feature jd)"
proof -
  let ?as = "ready_answers @ ready_answers @ [replicate 16 0xf] @ ready_answers @ [replicate 4 0xf] @ ready_answers"
  let ?j = "\<lparr>jt_buf = [], jt_dev = ([], ?as)\<rparr>"
  have ok: "jtag_ok ?j" by (simp add: jtag_ok_def MAX_COUNT_IN_REQUEST_def)
  obtain j' where "fpga_program_flash scripted sample_jed ?j = io_return j'"
    using flash_sample_run ok by (fastforce simp: ok_run_def)
  from flash_verified [OF this ok] obtain jd fr where jd: "parse_jed_file sample_jed = io_return jd" "read_answer fr 64 = le64 (jed_feature jd)"
    by blast
  have "jd = jed_of [] (replicate 80 True)" using jd(1) parse_jed [OF sample_facts] by simp
  then have "le64 (jed_feature jd) = le64 (-1)" by (simp add: jed_of_def bits_value_ones)
  moreover have "read_answer (replicate 16 0xf) 64 = le64 (-1)" by code_simp
  ultimately show ?thesis using jd(1) by auto
qed

end
