(* ===== verification/Gen1_Session.thy ===== *)
theory Gen1_Session
  imports Fx2lp Fpga_Theorems
begin

text \<open>
  A first-generation session: the block writer of \<open>src/gen1/capture.c\<close>, \<open>capture_start\<close>, which opens
  the device, programs its control register and runs the transfer pool, and the maintenance commands
  of \<open>src/main.c\<close>. \<open>fwrite\<close> is the parameter \<open>fw\<close>: from the bytes already in the file and the block it gives the
  number of bytes accepted. The parser records its blocks in \<open>p_out\<close>; the session writes them in that
  order, and a write error ends the process.
\<close>

section \<open>The block writer\<close>

definition g1_put_half :: "bytes \<Rightarrow> u16 \<Rightarrow> bytes" where "g1_put_half buf value = buf @ le16 value"
definition g1_put_word :: "bytes \<Rightarrow> u32 \<Rightarrow> bytes" where "g1_put_word buf value = buf @ le32 value"
definition g1_put_data :: "bytes \<Rightarrow> bytes \<Rightarrow> bytes" where "g1_put_data buf data = buf @ data"
definition g1_put_pad :: "bytes \<Rightarrow> bytes" where "g1_put_pad buf = pad4 buf"

definition g1_put_option :: "bytes \<Rightarrow> u16 \<Rightarrow> string \<Rightarrow> bytes" where
  "g1_put_option buf index str =
     g1_put_pad (g1_put_data (g1_put_half (g1_put_half buf index) (of_nat (length str))) (ascii str))"

definition g1_send_buffer :: "(bytes \<Rightarrow> bytes \<Rightarrow> nat) \<Rightarrow> bytes \<Rightarrow> bytes \<Rightarrow> bytes io" where
  "g1_send_buffer fw buf fd =
     (let n = of_nat (length buf + 4) :: u32;
          buf = g1_put_word buf n;
          buf = mem_put 4 (le32 n) buf;
          res = fw fd buf
      in io_bind (os_check (length buf = res) ''write() error'') (\<lambda>_. io_return (fd @ buf)))"

definition g1_file_header :: "(bytes \<Rightarrow> bytes \<Rightarrow> nat) \<Rightarrow> bytes \<Rightarrow> bytes io" where
  "g1_file_header fw =
     (let buf = g1_put_word (g1_put_word [] 0x0a0d0d0a) 0;
          buf = g1_put_word buf 0x1a2b3c4d;
          buf = g1_put_half (g1_put_half buf 1) 0;
          buf = g1_put_word (g1_put_word buf 0xffffffff) 0xffffffff;
          buf = g1_put_option buf 2 ''USB Sniffer by Alex Taradov'';
          buf = g1_put_option buf 0 ''''
      in g1_send_buffer fw buf)"

definition g1_interface :: "(bytes \<Rightarrow> bytes \<Rightarrow> nat) \<Rightarrow> nat \<Rightarrow> string \<Rightarrow> string \<Rightarrow> bytes \<Rightarrow> bytes io" where
  "g1_interface fw link_type name desc =
     (let buf = g1_put_word (g1_put_word [] 1) 0;
          buf = g1_put_half (g1_put_half buf (of_nat link_type)) 0;
          buf = g1_put_word buf 0xffff;
          buf = g1_put_option buf 2 name;
          buf = g1_put_option buf 3 desc;
          buf = g1_put_half (g1_put_half buf 9) 1;
          buf = g1_put_word buf 9;
          buf = g1_put_option buf 0 ''''
      in g1_send_buffer fw buf)"

definition g1_usb_header :: "(bytes \<Rightarrow> bytes \<Rightarrow> nat) \<Rightarrow> int \<Rightarrow> bytes \<Rightarrow> bytes io" where
  "g1_usb_header fw speed fd =
     (if CaptureSpeed_LS = speed then g1_interface fw 293 ''usb'' ''Hardware USB interface'' fd
      else if CaptureSpeed_FS = speed then g1_interface fw 294 ''usb'' ''Hardware USB interface'' fd
      else if CaptureSpeed_HS = speed then g1_interface fw 295 ''usb'' ''Hardware USB interface'' fd
      else if CaptureSpeed_Reset = speed then g1_interface fw 288 ''usb'' ''Hardware USB interface'' fd
      else io_bind (os_assert False) (\<lambda>_. io_return fd))"

definition g1_info_header :: "(bytes \<Rightarrow> bytes \<Rightarrow> nat) \<Rightarrow> bytes \<Rightarrow> bytes io" where
  "g1_info_header fw = g1_interface fw LINKTYPE_WIRESHARK_UPPER_PDU ''info'' ''Out of band information''"

definition g1_epb :: "u32 \<Rightarrow> u64 \<Rightarrow> nat \<Rightarrow> bytes" where
  "g1_epb ifc ts n =
     (let buf = g1_put_word (g1_put_word [] 6) 0;
          buf = g1_put_word buf ifc;
          buf = g1_put_word (g1_put_word buf (ucast (drop_bit 32 ts))) (ucast ts)
      in g1_put_word (g1_put_word buf (of_nat n)) (of_nat n))"

definition g1_packet_block :: "(bytes \<Rightarrow> bytes \<Rightarrow> nat) \<Rightarrow> u64 \<Rightarrow> bytes \<Rightarrow> bytes \<Rightarrow> bytes io" where
  "g1_packet_block fw ts data =
     (let buf = g1_put_data (g1_epb 0 ts (length data)) data;
          buf = g1_put_pad buf;
          buf = g1_put_option buf 0 ''''
      in g1_send_buffer fw buf)"

definition g1_str_block :: "(bytes \<Rightarrow> bytes \<Rightarrow> nat) \<Rightarrow> u64 \<Rightarrow> string \<Rightarrow> bytes \<Rightarrow> bytes io" where
  "g1_str_block fw ts str =
     (let buf = g1_put_data (g1_epb 1 ts (length info_hdr + length str)) info_hdr;
          buf = g1_put_data buf (ascii str);
          buf = g1_put_pad buf
      in g1_send_buffer fw buf)"

fun g1_exec :: "(bytes \<Rightarrow> bytes \<Rightarrow> nat) \<Rightarrow> pcap_call \<Rightarrow> bytes \<Rightarrow> bytes io" where
  "g1_exec fw (WriteEpb ts d) fd = g1_packet_block fw ts d fd"
| "g1_exec fw (WriteInfo ts s) fd = g1_str_block fw ts s fd"
| "g1_exec fw FlushCall fd = io_return fd"

fun g1_execs :: "(bytes \<Rightarrow> bytes \<Rightarrow> nat) \<Rightarrow> pcap_call list \<Rightarrow> bytes \<Rightarrow> bytes io" where
  "g1_execs fw [] fd = io_return fd"
| "g1_execs fw (c # cs) fd = io_bind (g1_exec fw c fd) (g1_execs fw cs)"

section \<open>Starting a capture\<close>

text \<open>The control register writes before the stream starts.\<close>

definition capture_control :: "'d usb_bus \<Rightarrow> int \<Rightarrow> 'd \<Rightarrow> 'd io" where
  "capture_control b speed d =
     io_bind (usb_ctrl_init b d) (\<lambda>d.
     io_bind (usb_ctrl b CaptureCtrl_Enable False d) (\<lambda>d.
     io_bind (usb_ctrl b CaptureCtrl_Reset True d) (\<lambda>d.
     io_bind (usb_flush_data b d) (\<lambda>d.
     io_bind (usb_ctrl b CaptureCtrl_Speed0 (speed AND 1 \<noteq> 0) d) (\<lambda>d.
     io_bind (usb_ctrl b CaptureCtrl_Speed1 (speed AND 2 \<noteq> 0) d) (\<lambda>d.
     io_bind (usb_ctrl b CaptureCtrl_Reset False d) (usb_ctrl b CaptureCtrl_Enable True)))))))"

definition capture_begin :: "packet \<Rightarrow> packet" where
  "capture_begin p =
     (if CaptureTrigger_Disabled = capture_trigger_mode (p_opts p)
      then (g1_capture_info p 0 ''Starting capture'')\<lparr>capture_enabled := True\<rparr>
      else g1_capture_info p (capture_ts p) ''Waiting for a trigger'')"

text \<open>
  \<open>fifo\<close> is \<open>None\<close> when the options name none (the result is then \<open>None\<close>, the return value false),
  otherwise it says whether \<open>fopen\<close> succeeds. The result is the file, the USB state and the device.
\<close>

definition capture_start ::
  "'d usb_bus \<Rightarrow> (bytes \<Rightarrow> bytes \<Rightarrow> nat) \<Rightarrow> bool option \<Rightarrow> packet_opts \<Rightarrow> g1_usb \<Rightarrow> completion list \<Rightarrow> 'd
     \<Rightarrow> (bytes \<times> g1_usb \<times> 'd) option io" where
  "capture_start b fw fifo opts s cs d =
     (case fifo of
        None \<Rightarrow> io_return None
      | Some opened \<Rightarrow>
          io_bind (os_check opened ''could not open FIFO pipe'') (\<lambda>_.
          io_bind (open_capture_device (ub_devices b) None) (\<lambda>_.
          io_bind (capture_control b (capture_speed opts) d) (\<lambda>d.
          io_bind (g1_file_header fw []) (\<lambda>fd.
          io_bind (g1_usb_header fw (capture_speed opts) fd) (\<lambda>fd.
          io_bind (g1_info_header fw fd) (\<lambda>fd.
          io_bind (usb_data_transfer (s\<lparr>gx_packet := capture_begin (packet_new opts [])\<rparr>) cs) (\<lambda>s.
          io_bind (g1_execs fw (p_out (gx_packet s)) fd) (\<lambda>fd.
          io_return (Some (fd, s, d)))))))))))"

section \<open>Maintenance commands\<close>

text \<open>
  \<open>file\<close> is the file's contents, \<open>None\<close> when it cannot be read. Each command ends the process with
  \<open>exit(0)\<close>: the value is the device afterwards. \<open>usb_close\<close> has nothing to cancel there.
\<close>

definition os_file_read_all :: "bytes option \<Rightarrow> bytes io" where
  "os_file_read_all file = (case file of None \<Rightarrow> os_error ''os_file_read_all()'' | Some data \<Rightarrow> io_return data)"

definition FX2LP_VID :: nat where "FX2LP_VID = 0x04b4"
definition FX2LP_PID :: nat where "FX2LP_PID = 0x8613"

definition maint_mcu_sram :: "'d usb_bus \<Rightarrow> bytes \<Rightarrow> bytes option \<Rightarrow> 'd \<Rightarrow> 'd io" where
  "maint_mcu_sram b junk file d =
     io_bind (usb_open (ub_devices b) FX2LP_VID FX2LP_PID 0 None) (\<lambda>(ok, _).
     if \<not> ok then os_error ''could not open unconfigured FX2LP device''
     else io_bind (os_file_read_all file) (\<lambda>data. fx2lp_sram_upload b junk data d))"

definition hex14 :: "u64 \<Rightarrow> string" where
  "hex14 v = map (\<lambda>i. hex_digit (uint (drop_bit (4 * i) v AND 0xf))) (rev [0..<14])"

text \<open>The placeholder is overwritten in place by \<open>sprintf\<close>: 14 digits and the terminating NUL.\<close>

definition SN_PLACEHOLDER :: string where "SN_PLACEHOLDER = ''[-----SN-----]''"

definition set_serial :: "bytes \<Rightarrow> nat \<Rightarrow> u64 \<Rightarrow> bytes" where
  "set_serial data sn traceid = take (length data) (mem_put sn (ascii (hex14 traceid) @ [0]) (data @ replicate 8192 0))"

definition maint_mcu_eeprom :: "'d usb_bus \<Rightarrow> (nat \<Rightarrow> bytes) \<Rightarrow> bytes option \<Rightarrow> 'd jtag \<Rightarrow> 'd io" where
  "maint_mcu_eeprom b junk file j =
     io_bind (open_capture_device (ub_devices b) None) (\<lambda>_.
     io_bind (fpga_enable j) (\<lambda>j.
     let traceid = fpga_read_traceid AND 0x00ffffffffffffff
     in io_bind (fpga_disable j) (\<lambda>j.
        io_bind (os_file_read_all file) (\<lambda>data.
        case find_str data (length data) SN_PLACEHOLDER of
          None \<Rightarrow> os_error ''provided binary does not include a placeholder for the serial number''
        | Some sn \<Rightarrow> fx2lp_eeprom_upload b junk (set_serial data sn traceid) (jt_dev j)))))"

definition maint_fpga_program_sram :: "'d usb_bus \<Rightarrow> bytes \<Rightarrow> bytes option \<Rightarrow> 'd jtag \<Rightarrow> 'd jtag io" where
  "maint_fpga_program_sram b junk file j =
     io_bind (os_file_read_all file) (\<lambda>data.
     io_bind (open_capture_device (ub_devices b) None) (\<lambda>_.
     io_bind (fpga_enable j) (\<lambda>j.
     io_bind (fpga_program_sram (jtag_pipe b junk) data j) fpga_disable)))"

definition maint_fpga_program_flash :: "'d usb_bus \<Rightarrow> bytes \<Rightarrow> bytes option \<Rightarrow> 'd jtag \<Rightarrow> 'd jtag io" where
  "maint_fpga_program_flash b junk file j =
     io_bind (os_file_read_all file) (\<lambda>data.
     io_bind (open_capture_device (ub_devices b) None) (\<lambda>_.
     io_bind (fpga_enable j) (\<lambda>j.
     io_bind (fpga_program_flash (jtag_pipe b junk) data j) fpga_disable)))"

definition maint_fpga_erase :: "'d usb_bus \<Rightarrow> bytes \<Rightarrow> 'd jtag \<Rightarrow> 'd jtag io" where
  "maint_fpga_erase b junk j =
     io_bind (open_capture_device (ub_devices b) None) (\<lambda>_.
     io_bind (fpga_enable j) (\<lambda>j.
     io_bind (fpga_erase_flash (jtag_pipe b junk) j) fpga_disable))"

definition maint_speed_test :: "'d usb_bus \<Rightarrow> g1_usb \<Rightarrow> u64 \<Rightarrow> completion list \<Rightarrow> 'd \<Rightarrow> (g1_usb \<times> 'd) io" where
  "maint_speed_test b s now cs d =
     io_bind (open_capture_device (ub_devices b) None) (\<lambda>_. usb_speed_test b s now cs d)"

section \<open>The file\<close>

definition all_written :: "(bytes \<Rightarrow> bytes \<Rightarrow> nat) \<Rightarrow> bool" where
  "all_written fw \<longleftrightarrow> (\<forall>fd buf. fw fd buf = length buf)"

lemma g1_send_block:
  assumes "all_written fw" and "buf = le32 ty @ le32 x @ body"
  shows "g1_send_buffer fw buf fd = io_return (fd @ pcap_block ty body)"
  using assms by (simp add: g1_send_buffer_def g1_put_word_def all_written_def Let_def os_check_def mem_put_def pcap_block_def add.commute)

lemma g1_put_option_block:
  assumes "length buf mod 4 = 0"
  shows "g1_put_option buf i s = buf @ opt_bytes i s"
proof -
  have "length (buf @ le16 i @ le16 (of_nat (length s))) mod 4 = 0" using mod4_add [OF assms, of 4] by simp
  from pad4_append [OF this, of "ascii s"] show ?thesis
    by (simp add: g1_put_option_def g1_put_pad_def g1_put_data_def g1_put_half_def opt_bytes_def)
qed

definition g1_shb_body :: bytes where
  "g1_shb_body = le32 0x1a2b3c4d @ le16 1 @ le16 0 @ le32 0xffffffff @ le32 0xffffffff @
     opt_bytes 2 ''USB Sniffer by Alex Taradov'' @ opt_bytes 0 ''''"

lemmas g1_puts = g1_put_word_def g1_put_half_def g1_put_data_def Let_def

lemma g1_shb_option [simp]: "length (opt_bytes 2 ''USB Sniffer by Alex Taradov'') = 32"
  by (simp add: opt_bytes_def pad_len_def)

lemma g1_file_header_block:
  "all_written fw \<Longrightarrow> g1_file_header fw fd = io_return (fd @ pcap_block 0x0a0d0d0a g1_shb_body)"
  unfolding g1_file_header_def g1_puts
  by (simp add: g1_put_option_block g1_send_block [where ty = "0x0a0d0d0a" and x = 0 and body = g1_shb_body] g1_shb_body_def)

lemma g1_interface_block:
  assumes "all_written fw"
  shows "g1_interface fw lt name desc fd = io_return (fd @ pcap_block 1 (idb_body lt name desc))"
proof -
  note a = length_opt_bytes [of 2 name] length_opt_bytes [of 3 desc]
  have "(16 + length (opt_bytes 2 name)) mod 4 = 0" using mod4_add [OF _ a(1), of 16] by simp
  moreover have "(16 + (length (opt_bytes 2 name) + length (opt_bytes 3 desc))) mod 4 = 0"
    using mod4_add [OF _ mod4_add [OF a], of 16] by simp
  moreover have "(24 + (length (opt_bytes 2 name) + length (opt_bytes 3 desc))) mod 4 = 0"
    using mod4_add [OF _ mod4_add [OF a], of 24] by simp
  ultimately show ?thesis unfolding g1_interface_def g1_puts
    by (simp add: g1_put_option_block g1_send_block [OF assms, where ty = 1 and x = 0 and body = "idb_body lt name desc"] idb_body_def
        add.assoc add.commute add.left_commute)
qed

lemma g1_epb_bytes: "g1_epb ifc ts n = le32 6 @ le32 0 @ le32 ifc @ le32 (ucast (drop_bit 32 ts)) @ le32 (ucast ts)
    @ le32 (of_nat n) @ le32 (of_nat n)"
  by (simp add: g1_epb_def g1_puts)

lemma g1_epb_pad: "pad4 (g1_epb ifc ts (length d) @ d) = le32 6 @ le32 0 @ epb_body ifc ts d"
  by (subst pad4_append) (simp_all add: g1_epb_bytes epb_body_def)

lemma g1_exec_block:
  assumes "all_written fw"
  shows "g1_exec fw c fd = io_return (fd @ frame_blocks (call_blocks c))"
proof (cases c)
  case (WriteEpb ts d)
  have "length (le32 6 @ le32 0 @ epb_body 0 ts d) mod 4 = 0" using mod4_add [OF _ epb_body_aligned [of 0 ts d], of 8] by simp
  then have "g1_put_option (le32 6 @ le32 0 @ epb_body 0 ts d) 0 '''' = le32 6 @ le32 0 @ epb_body 0 ts d @ [0, 0, 0, 0]"
    by (simp add: g1_put_option_block opt_bytes_def pad_len_def le16_def ascii_def)
  then show ?thesis using WriteEpb
    by (simp add: g1_packet_block_def g1_put_data_def g1_put_pad_def g1_epb_pad Let_def
        g1_send_block [OF assms, where ty = 6 and x = 0 and body = "epb_body 0 ts d @ [0, 0, 0, 0]"])
next
  case (WriteInfo ts s)
  then show ?thesis
    using g1_epb_pad [of 1 ts "info_hdr @ ascii s"]
    by (simp add: g1_str_block_def g1_put_data_def g1_put_pad_def Let_def
        g1_send_block [OF assms, where ty = 6 and x = 0 and body = "epb_body 1 ts (info_hdr @ ascii s)"])
qed simp

lemma g1_execs_blocks:
  "all_written fw \<Longrightarrow> g1_execs fw cs fd = io_return (fd @ frame_blocks (concat (map call_blocks cs)))"
  by (induction cs arbitrary: fd) (simp_all add: g1_exec_block)

definition g1_header_blocks :: "nat \<Rightarrow> (u32 \<times> bytes) list" where
  "g1_header_blocks lt = (0x0a0d0d0a, g1_shb_body) # tl (header_blocks lt)"

definition g1_link_type :: "int \<Rightarrow> nat" where
  "g1_link_type speed = (if speed = 0 then 293 else if speed = 1 then 294 else if speed = 2 then 295 else 288)"

lemma g1_headers_bytes:
  assumes "all_written fw" and "speed \<in> {0..3}"
  shows "io_bind (g1_file_header fw []) (\<lambda>fd. io_bind (g1_usb_header fw speed fd) (g1_info_header fw))
    = io_return (frame_blocks (g1_header_blocks (g1_link_type speed)))"
proof -
  have "speed = 0 \<or> speed = 1 \<or> speed = 2 \<or> speed = 3" using assms(2) by auto
  then show ?thesis
    by (elim disjE) (simp_all add: g1_file_header_block [OF assms(1)] g1_usb_header_def g1_info_header_def
      g1_interface_block [OF assms(1)] g1_header_blocks_def header_blocks_def g1_link_type_def CaptureSpeed_LS_def CaptureSpeed_FS_def
      CaptureSpeed_HS_def CaptureSpeed_Reset_def)
qed

lemma g1_header_blocks_ok: "\<forall>b \<in> set (g1_header_blocks lt). body_ok (snd b)"
  using header_blocks_ok [of lt] by (simp add: g1_header_blocks_def header_blocks_def body_ok_def g1_shb_body_def)

section \<open>The control register\<close>

text \<open>
  The control register behind \<open>CMD_CTRL\<close>: the low four bits of the value select a bit of the register,
  bit 4 is its new value; reading the data endpoint does not change it.
\<close>

definition ctrl_register :: "'d usb_bus \<Rightarrow> ('d \<Rightarrow> nat \<Rightarrow> bool) \<Rightarrow> bool" where
  "ctrl_register b regs \<longleftrightarrow>
     (\<forall>d v. \<exists>r d'. ub_ctrl b \<lparr>cr_in = False, cr_request = CMD_CTRL, cr_value = v, cr_data = [], cr_length = 0\<rparr> d = Some (r, d')
        \<and> regs d' = (regs d)(unat (v AND 0xf) := bit v 4))
     \<and> (\<forall>d n. fst (ub_bulk b n d) \<noteq> BulkError \<and> regs (snd (ub_bulk b n d)) = regs d)"

lemma ctrl_value:
  "index < 16 \<Longrightarrow> unat ((of_nat index OR push_bit CTRL_REG_SIZE (of_bool value)) AND 0xf :: u16) = index"
  "index < 16 \<Longrightarrow> bit (of_nat index OR push_bit CTRL_REG_SIZE (of_bool value) :: u16) 4 = value"
proof -
  assume i: "index < 16"
  have m: "(0xf :: u16) = mask 4" by (simp add: mask_eq_exp_minus_1)
  have "\<not> bit (of_nat index :: u16) n" if "4 \<le> n" for n
  proof -
    have "index < 2 ^ n" using i that power_increasing [of 4 n "2 :: nat"] by simp
    then have "\<not> bit index n" by (simp add: bit_iff_odd)
    then show ?thesis by (simp add: bit_of_nat_iff)
  qed
  then have "(of_nat index OR push_bit CTRL_REG_SIZE (of_bool value)) AND mask 4 = (of_nat index :: u16)"
    by (intro word_bit_eqI) (auto simp: bit_and_iff bit_or_iff bit_push_bit_iff bit_mask_iff CTRL_REG_SIZE_def not_less [symmetric])
  then show "unat ((of_nat index OR push_bit CTRL_REG_SIZE (of_bool value)) AND 0xf :: u16) = index"
    using i unfolding m by (simp add: unat_of_nat take_bit_eq_mod)
  show "bit (of_nat index OR push_bit CTRL_REG_SIZE (of_bool value) :: u16) 4 = value"
    using \<open>\<And>n. 4 \<le> n \<Longrightarrow> \<not> bit (of_nat index :: u16) n\<close> [of 4]
    by (simp add: bit_or_iff bit_push_bit_iff CTRL_REG_SIZE_def)
qed

lemma usb_ctrl_sets:
  assumes "ctrl_register b regs" and "index < 16"
  obtains d' where "usb_ctrl b index value d = io_return d'" "regs d' = (regs d)(index := value)"
proof -
  let ?v = "of_nat index OR push_bit CTRL_REG_SIZE (of_bool value) :: u16"
  obtain r d' where "ub_ctrl b \<lparr>cr_in = False, cr_request = CMD_CTRL, cr_value = ?v, cr_data = [], cr_length = 0\<rparr> d = Some (r, d')"
    "regs d' = (regs d)(unat (?v AND 0xf) := bit ?v 4)"
    using assms(1) unfolding ctrl_register_def by metis
  then show ?thesis
    by (intro that [of d']) (simp_all add: usb_ctrl_def ctrl_out_def ctrl_value [OF assms(2)])
qed

lemma flush_keeps:
  assumes "ctrl_register b regs"
  shows "\<exists>d'. flush_loop b k d = io_return d' \<and> regs d' = regs d"
proof (induction k arbitrary: d)
  case (Suc k)
  obtain r d1 where bulk: "ub_bulk b DATA_ENDPOINT_SIZE d = (r, d1)" by (cases "ub_bulk b DATA_ENDPOINT_SIZE d")
  then have "r \<noteq> BulkError" "regs d1 = regs d" using assms unfolding ctrl_register_def by (metis fst_conv snd_conv)+
  with Suc.IH [of d1] bulk show ?case by (cases r) simp_all
qed simp

section \<open>Properties\<close>

lemma g1_first_info:
  "g1_capture_info (packet_new opts []) ts s = g1_write_str (packet_new opts []) ts s"
proof -
  have "LS_INVALID = capture_saved_ls (packet_new opts [])" "capture_fold_count (packet_new opts []) = 0"
    "capture_fold_buf_ptr (packet_new opts []) = 0"
    by (simp_all add: packet_new_def packet_start_def)
  then show ?thesis by (simp add: g1_capture_info.simps g1_line_state_event.simps g1_stop_folding.simps)
qed

lemma capture_begin_inv: "g1_inv (capture_begin (packet_new opts []))"
  by (simp add: capture_begin_def g1_first_info)
    (simp add: g1_inv_def g1_strong_def g1_weak_def packet_new_def packet_start_def packet_zero_def fold_inv_def
      asm_inv_def toggle_ok_def FOLD_LIMIT_HS_def FOLD_LIMIT_LS_FS_def g1_write_str_def put_call_def)

lemma capture_control_run:
  assumes "\<And>i v d. i < 16 \<Longrightarrow> usb_ctrl b i v d = io_return (f i v d)" and "\<And>d. usb_flush_data b d = io_return (g d)"
  shows "capture_control b speed d = io_return (f 1 True (f 0 False (f 3 (speed AND 2 \<noteq> 0) (f 2 (speed AND 1 \<noteq> 0) (g (f 0 True
     (f 1 False (f 3 False (f 3 True (f 2 False (f 2 True (f 4 False (f 1 False (f 0 True d))))))))))))))"
  unfolding capture_control_def usb_ctrl_init_def CaptureCtrl_Reset_def CaptureCtrl_Enable_def CaptureCtrl_Test_def
    CaptureCtrl_Speed0_def CaptureCtrl_Speed1_def
  by (simp add: assms)

lemma ctrl_functions:
  assumes "ctrl_register b regs"
  obtains f g where "\<And>i v d. i < 16 \<Longrightarrow> usb_ctrl b i v d = io_return (f i v d)"
    "\<And>i v d. i < 16 \<Longrightarrow> regs (f i v d) = (regs d)(i := v)"
    "\<And>d. usb_flush_data b d = io_return (g d)" "\<And>d. regs (g d) = regs d"
proof -
  define F where "F i v d d' \<longleftrightarrow> usb_ctrl b i v d = io_return d' \<and> regs d' = (regs d)(i := v)" for i v d d'
  define G where "G d d' \<longleftrightarrow> usb_flush_data b d = io_return d' \<and> regs d' = regs d" for d d'
  have "\<exists>d'. F i v d d'" if "i < 16" for i v d using usb_ctrl_sets [OF assms that] unfolding F_def by blast
  then have "F i v d (SOME d'. F i v d d')" if "i < 16" for i v d using that someI_ex by metis
  moreover have "\<exists>d'. G d d'" for d using flush_keeps [OF assms] unfolding usb_flush_data_def G_def by blast
  then have "G d (SOME d'. G d d')" for d by (rule someI_ex)
  ultimately show thesis
    by (intro that [of "\<lambda>i v d. SOME d'. F i v d d'" "\<lambda>d. SOME d'. G d d'"]) (simp_all add: F_def G_def)
qed

lemma capture_control_registers:
  assumes "ctrl_register b regs"
  obtains d' where "capture_control b speed d = io_return d'"
    "regs d' = (regs d)(CaptureCtrl_Reset := False, CaptureCtrl_Enable := True, CaptureCtrl_Test := False,
       CaptureCtrl_Speed0 := speed AND 1 \<noteq> 0, CaptureCtrl_Speed1 := speed AND 2 \<noteq> 0)"
proof (rule ctrl_functions [OF assms])
  fix f g
  assume f: "\<And>i v d. i < 16 \<Longrightarrow> usb_ctrl b i v d = io_return (f i v d)"
    "\<And>i v d. i < 16 \<Longrightarrow> regs (f i v d) = (regs d)(i := v)"
    and g: "\<And>d. usb_flush_data b d = io_return (g d)" "\<And>d. regs (g d) = regs d"
  have "regs (f 1 True (f 0 False (f 3 s1 (f 2 s0 (g (f 0 True (f 1 False (f 3 False (f 3 True (f 2 False (f 2 True (f 4 False
     (f 1 False (f 0 True d)))))))))))))) = (regs d)(0 := False, 1 := True, 4 := False, 2 := s0, 3 := s1)" for s0 s1
    by (rule ext) (simp add: f(2) g(2))
  then show ?thesis using that [OF capture_control_run [OF f(1) g(1)]]
    by (simp add: CaptureCtrl_Reset_def CaptureCtrl_Enable_def CaptureCtrl_Test_def CaptureCtrl_Speed0_def CaptureCtrl_Speed1_def)
qed

text \<open>
  C35. A first-generation session, from the transfers to the file: when a device can be opened, its
  control register answers and every block is written, \<open>capture_start\<close> returns, and the file it has
  written reads back, block by block, as a section header, the two interfaces and exactly the records
  of the frame parser on the bytes of all transfers, in order. The stream is started with the device
  enabled, out of reset, test mode off and the two speed bits those of the selected speed.
\<close>

theorem gen1_session_file:
  assumes "all_written fw" and "ctrl_register b regs" and "open_capture_device (ub_devices b) None = io_return h"
    and "capture_speed opts \<in> {0..3}" and "\<forall>c \<in> set cs. good_completion c" and "\<not> gx_closing s" and "\<not> gx_speed_test s"
    and "p = g1_capture_callback (capture_begin (packet_new opts [])) (concat (map co_data cs))"
  shows "\<exists>fd t d' blocks. capture_start b fw (Some True) opts s cs d = io_return (Some (fd, t, d')) \<and> gx_packet t = p
    \<and> pcap_blocks fd = Some (g1_header_blocks (g1_link_type (capture_speed opts)) @ blocks)
    \<and> List.map_filter epb_decode blocks = concat (map call_records (p_out p))
    \<and> regs d' CaptureCtrl_Enable \<and> \<not> regs d' CaptureCtrl_Reset \<and> \<not> regs d' CaptureCtrl_Test
    \<and> regs d' CaptureCtrl_Speed0 = (capture_speed opts AND 1 \<noteq> 0) \<and> regs d' CaptureCtrl_Speed1 = (capture_speed opts AND 2 \<noteq> 0)"
proof -
  let ?lt = "g1_link_type (capture_speed opts)" and ?bs = "concat (map call_blocks (p_out p))"
  let ?fd = "frame_blocks (g1_header_blocks ?lt) @ frame_blocks ?bs"
  have "g1_inv p" unfolding assms(8) by (intro g1_callback_inv capture_begin_inv)
  then have ok: "\<forall>c \<in> set (p_out p). call_ok c" by (simp add: g1_inv_def g1_strong_def g1_weak_def fold_inv_def)
  obtain d' where d': "capture_control b (capture_speed opts) d = io_return d'"
    "regs d' = (regs d)(CaptureCtrl_Reset := False, CaptureCtrl_Enable := True, CaptureCtrl_Test := False,
       CaptureCtrl_Speed0 := capture_speed opts AND 1 \<noteq> 0, CaptureCtrl_Speed1 := capture_speed opts AND 2 \<noteq> 0)"
    by (rule capture_control_registers [OF assms(2)])
  obtain t where t: "usb_data_transfer (s\<lparr>gx_packet := capture_begin (packet_new opts [])\<rparr>) cs = io_return t" "gx_packet t = p"
    using events_feed [of cs "s\<lparr>gx_packet := capture_begin (packet_new opts []), gx_inflight := TRANSFER_COUNT\<rparr>"] assms(5-8)
    by (auto simp: usb_data_transfer_def TRANSFER_COUNT_def)
  have "capture_start b fw (Some True) opts s cs d
      = io_bind (io_bind (g1_file_header fw []) (\<lambda>fd. io_bind (g1_usb_header fw (capture_speed opts) fd) (g1_info_header fw)))
          (\<lambda>fd. io_bind (g1_execs fw (p_out p) fd) (\<lambda>fd. io_return (Some (fd, t, d'))))"
    by (simp add: capture_start_def os_check_def assms(3) d'(1) t io_bind_assoc)
  also have "\<dots> = io_return (Some (?fd, t, d'))"
    by (simp add: g1_headers_bytes [OF assms(1,4)] g1_execs_blocks [OF assms(1)])
  finally have r: "capture_start b fw (Some True) opts s cs d = io_return (Some (?fd, t, d'))" .
  have "pcap_blocks ?fd = Some (g1_header_blocks ?lt @ ?bs)"
    unfolding frame_blocks_simps(3) [symmetric] using ok g1_header_blocks_ok [of ?lt] call_blocks_ok
    by (intro pcap_blocks_frame) fastforce
  moreover have "List.map_filter epb_decode ?bs = concat (map call_records (p_out p))"
    using calls_decode [OF ok, of ?lt] by (simp add: List.map_filter_def header_blocks_def epb_decode_def)
  ultimately show ?thesis using r t(2) d'(2)
    by (intro exI conjI) (assumption | simp add: CaptureCtrl_Reset_def CaptureCtrl_Enable_def CaptureCtrl_Test_def
      CaptureCtrl_Speed0_def CaptureCtrl_Speed1_def)+
qed

text \<open>A capture device whose state is its control register.\<close>

definition register_bus :: "(nat \<Rightarrow> bool) usb_bus" where
  "register_bus = \<lparr>ub_devices = Some [\<lparr>ud_desc_ok = True, ud_vid = 0x1209, ud_pid = 0x6688, ud_bcd = 1, ud_open_ok = True, ud_claim_ok = True\<rparr>],
     ub_ctrl = (\<lambda>r d. if cr_request r = CMD_CTRL then Some ([], d(unat (cr_value r AND 0xf) := bit (cr_value r) 4)) else None),
     ub_bulk = (\<lambda>n d. (BulkTimeout, d))\<rparr>"

theorem gen1_session_file_witness:
  "\<exists>fd t d'. capture_start register_bus (\<lambda>fd buf. length buf) (Some True)
      \<lparr>fold_empty = False, exclude_line_state = True, capture_speed = 1, capture_trigger_mode = CaptureTrigger_Disabled, capture_limit = -1\<rparr>
      \<lparr>gx_packet = packet_new \<lparr>fold_empty = False, exclude_line_state = True, capture_speed = 1,
          capture_trigger_mode = CaptureTrigger_Disabled, capture_limit = -1\<rparr> [], gx_inflight = 0, gx_closing = False,
        gx_speed_test = False, gx_time = 0, gx_size = 0, gx_count = 0, gx_rand = 0x6c41\<rparr>
      [\<lparr>co_status = XferCompleted, co_data = [0x80, 0, 12], co_time = 0, co_submit_ok = True\<rparr>] (\<lambda>_. False)
    = io_return (Some (fd, t, d')) \<and> d' CaptureCtrl_Enable \<and> \<not> d' CaptureCtrl_Reset \<and> d' CaptureCtrl_Speed0"
proof -
  have "ctrl_register register_bus (\<lambda>d. d)" by (auto simp: ctrl_register_def register_bus_def)
  moreover have "\<exists>h. open_capture_device (ub_devices register_bus) None = io_return h"
    by (simp add: open_capture_device_def usb_open_def register_bus_def usb_match_def GEN1_VID_def GEN1_PID_def GEN1_BCD_def)
  then obtain h where "open_capture_device (ub_devices register_bus) None = io_return h" by blast
  ultimately show ?thesis
    using gen1_session_file [of "\<lambda>fd buf. length buf" register_bus "\<lambda>d. d" h
      "\<lparr>fold_empty = False, exclude_line_state = True, capture_speed = 1, capture_trigger_mode = CaptureTrigger_Disabled, capture_limit = -1\<rparr>"
      "[\<lparr>co_status = XferCompleted, co_data = [0x80, 0, 12], co_time = 0, co_submit_ok = True\<rparr>]"
      "\<lparr>gx_packet = packet_new \<lparr>fold_empty = False, exclude_line_state = True, capture_speed = 1,
          capture_trigger_mode = CaptureTrigger_Disabled, capture_limit = -1\<rparr> [], gx_inflight = 0, gx_closing = False,
        gx_speed_test = False, gx_time = 0, gx_size = 0, gx_count = 0, gx_rand = 0x6c41\<rparr>", OF _ _ _ _ _ _ _ refl]
    by (fastforce simp: all_written_def good_completion_def)
qed

end
