(* ===== verification/Main_Program.thy ===== *)
theory Main_Program
  imports Extcap Device Gen1_Session
begin

text \<open>
  From the command line to the engine: the dispatch of \<open>src/main.c\<close>. What \<open>main\<close> runs is a value of \<open>action\<close>: a capture
  engine with its options (theories \<open>Gen1_Session\<close> and \<open>Gen2_Session\<close>), a maintenance command of the first
  generation (theory \<open>Gen1_Session\<close>), an answered query or nothing. The device list of libusb is a parameter.
\<close>

section \<open>Definitions\<close>

subsection \<open>Dispatch\<close>

datatype action = Answered "string list" | Printed string | Crash | Nothing_To_Do
  | Run_Gen1 Options | Run_Gen2 packet_opts | Run_Replay string packet_opts
  | Maint_Speed_Test | Maint_Mcu_Sram string | Maint_Mcu_Eeprom string
  | Maint_Fpga_Sram string | Maint_Fpga_Flash string | Maint_Fpga_Erase

definition missing_device_error :: "device_kind \<Rightarrow> unit io" where
  "missing_device_error probe =
     (if probe = Device_None
      then os_error ''no capture device found (gen1 1209:6688 rev 0x0001 / 6666:6620, gen2 1209:6688 rev 0x0602)''
      else if probe = Device_Fx2lp_Only
      then os_error (''only an unconfigured FX2LP (04b4:8613) was found: if this is the gen1 sniffer, load the firmware first (''
        @ [CHR 0x27] @ ''--mcu-sram usb_sniffer.bin'' @ [CHR 0x27] @ '' to run, or '' @ [CHR 0x27] @ ''--mcu-eeprom'' @ [CHR 0x27]
        @ '' to program it permanently); if it is a different FX2LP device, it is not a capture device and must be unplugged'')
      else if probe = Device_Both then os_error ''both capture generations are connected; unplug one of them''
      else io_return ())"

definition run_selected_capture :: "bool \<Rightarrow> usb_device list option \<Rightarrow> Options \<Rightarrow> packet_opts \<Rightarrow> action io" where
  "run_selected_capture init devices g popts =
     (case o_replay g of
        Some file \<Rightarrow> io_return (Run_Replay file popts)
      | None \<Rightarrow>
          if o_extcap_interface g \<noteq> None \<and> o_extcap_interface g \<noteq> Some INTERFACE_NAME
          then os_error (''invalid interface '' @ [CHR 0x27] @ the (o_extcap_interface g) @ [CHR 0x27])
          else io_bind (device_probe init devices) (\<lambda>probe.
               if probe = Device_Gen1 then io_return (Run_Gen1 g)
               else if probe = Device_Gen2 then io_return (Run_Gen2 popts)
               else io_bind (missing_device_error probe) (\<lambda>_. io_return Nothing_To_Do)))"

definition popts_of :: "Options \<Rightarrow> packet_opts" where
  "popts_of g = \<lparr>fold_empty = o_fold_empty g, exclude_line_state = o_exclude_line_state g, capture_speed = o_capture_speed g,
     capture_trigger_mode = o_capture_trigger g, capture_limit = o_capture_limit g\<rparr>"

definition maintenance :: "Options \<Rightarrow> action" where
  "maintenance g =
     (if o_test g then Maint_Speed_Test
      else case o_mcu_sram g of Some f \<Rightarrow> Maint_Mcu_Sram f | None \<Rightarrow>
      (case o_mcu_eeprom g of Some f \<Rightarrow> Maint_Mcu_Eeprom f | None \<Rightarrow>
      (case o_fpga_sram g of Some f \<Rightarrow> Maint_Fpga_Sram f | None \<Rightarrow>
      (case o_fpga_flash g of Some f \<Rightarrow> Maint_Fpga_Flash f | None \<Rightarrow>
      if o_fpga_erase g then Maint_Fpga_Erase else Nothing_To_Do))))"

definition main_program :: "string \<Rightarrow> bool \<Rightarrow> usb_device list option \<Rightarrow> string list \<Rightarrow> action io" where
  "main_program build init devices argv =
     (case parse_command_line build argv of
        Inl (CliError msg) \<Rightarrow> os_error msg
      | Inl (HelpExit text) \<Rightarrow> io_return (Printed text)
      | Inl NullWrite \<Rightarrow> io_return Crash
      | Inl TypeClash \<Rightarrow> io_return Crash
      | Inr g \<Rightarrow>
          (let (answered, out) = handle_extcap_request g
           in if answered then io_return (Answered out)
              else if o_replay g \<noteq> None \<or> (o_extcap_capture g \<and> o_extcap_fifo g \<noteq> None)
              then run_selected_capture init devices g (popts_of g)
              else io_return (maintenance g)))"

section \<open>Reading back a command line\<close>

text \<open>A setting as a user or Wireshark writes it: a flag, an option with its argument, or both in one word.\<close>

datatype setting = SetFlag string | SetText string string | SetInline string string

fun words_of :: "setting \<Rightarrow> string list" where
  "words_of (SetFlag n) = [''--'' @ n]"
| "words_of (SetText n v) = [''--'' @ n, v]"
| "words_of (SetInline n v) = [''--'' @ n @ ''='' @ v]"

definition text_opt :: "string \<Rightarrow> OsOption option" where
  "text_opt n = (case find_long_option options n of Some opt \<Rightarrow> if arg_name opt = None then None else Some opt | None \<Rightarrow> None)"

fun setting_ok :: "setting \<Rightarrow> bool" where
  "setting_ok (SetFlag n) \<longleftrightarrow> CHR ''='' \<notin> set n \<and> text_opt n = None \<and> (\<exists>opt. find_long_option options n = Some opt \<and> short_name opt \<noteq> 1)"
| "setting_ok (SetText n v) \<longleftrightarrow> CHR ''='' \<notin> set n \<and> text_opt n \<noteq> None \<and> take 1 v \<noteq> ''-''"
| "setting_ok (SetInline n v) \<longleftrightarrow> CHR ''='' \<notin> set n \<and> text_opt n \<noteq> None"

text \<open>What a setting means: the field of its option gets the value.\<close>

definition put_flag :: "OsOption \<Rightarrow> Options \<Rightarrow> Options" where
  "put_flag opt g = (case opt_value opt of Some (BoolRef upd) \<Rightarrow> upd (\<lambda>_. True) g | _ \<Rightarrow> g)"

definition put_text :: "OsOption \<Rightarrow> string \<Rightarrow> Options \<Rightarrow> Options" where
  "put_text opt v g = (case opt_value opt of Some (TextRef upd) \<Rightarrow> upd (\<lambda>_. Some v) g | _ \<Rightarrow> g)"

fun apply_setting :: "setting \<Rightarrow> Options \<Rightarrow> Options" where
  "apply_setting (SetFlag n) g = put_flag (the (find_long_option options n)) g"
| "apply_setting (SetText n v) g = put_text (the (find_long_option options n)) v g"
| "apply_setting (SetInline n v) g = put_text (the (find_long_option options n)) v g"

lemma cut_value_name: "CHR ''='' \<notin> set n \<Longrightarrow> cut_value n = (n, None)" "CHR ''='' \<notin> set n \<Longrightarrow> cut_value (n @ CHR ''='' # v) = (n, Some v)"
  by (induction n) auto

lemma row_of_long: "find_long_option options n = Some opt \<Longrightarrow> row_ok opt"
  using options_ok find_row unfolding find_long_option_def by blast

lemma text_opt_row:
  assumes "text_opt n \<noteq> None"
  obtains opt where "find_long_option options n = Some opt" "arg_name opt \<noteq> None" "store_text opt v g = Inr (put_text opt v g)"
proof -
  obtain opt where o: "find_long_option options n = Some opt" "arg_name opt \<noteq> None"
    using assms by (auto simp: text_opt_def split: option.splits if_splits)
  then show thesis using row_of_long [OF o(1)]
    by (intro that [of opt]) (auto simp: row_ok_def store_text_def put_text_def split: option.splits opt_ref.splits)
qed

lemma opt_loop_setting:
  assumes "setting_ok s"
  shows "\<exists>i' sh'. opt_loop options argc i (words_of s @ args) None sh g = opt_loop options argc i' args None sh' (apply_setting s g)"
proof (cases s)
  case (SetFlag n)
  then obtain opt where o: "find_long_option options n = Some opt" "arg_name opt = None" "short_name opt \<noteq> 1" "cut_value n = (n, None)"
    using assms by (auto simp: text_opt_def cut_value_name split: option.splits if_splits)
  then have "store_bool opt g = Inr (put_flag opt g)"
    using row_of_long [OF o(1)] by (auto simp: row_ok_def store_bool_def put_flag_def split: option.splits opt_ref.splits)
  then show ?thesis using o SetFlag by (auto simp: long_opt_def cli_bind_def)
next
  case (SetText n v)
  then obtain opt where o: "find_long_option options n = Some opt" "arg_name opt \<noteq> None" "store_text opt v g = Inr (put_text opt v g)"
    using assms text_opt_row [of n v g] by auto
  have "cut_value n = (n, None)" using assms SetText by (simp add: cut_value_name)
  then show ?thesis using o SetText assms by (auto simp: long_opt_def cli_bind_def)
next
  case (SetInline n v)
  then obtain opt where o: "find_long_option options n = Some opt" "arg_name opt \<noteq> None" "store_text opt v g = Inr (put_text opt v g)"
    using assms text_opt_row [of n v g] by auto
  have "cut_value (n @ CHR ''='' # v) = (n, Some v)" using assms SetInline by (simp add: cut_value_name)
  then show ?thesis using o SetInline by (auto simp: long_opt_def cli_bind_def)
qed

lemma opt_loop_settings:
  "\<forall>s \<in> set ss. setting_ok s \<Longrightarrow> opt_loop options argc i (concat (map words_of ss)) None sh g = Inr (argc, fold apply_setting ss g)"
proof (induction ss arbitrary: i sh g)
  case (Cons s ss)
  have "setting_ok s" using Cons.prems by simp
  then obtain i' sh' where "opt_loop options argc i (words_of s @ concat (map words_of ss)) None sh g =
      opt_loop options argc i' (concat (map words_of ss)) None sh' (apply_setting s g)"
    using opt_loop_setting by blast
  with Cons show ?case by simp
qed (simp add: opt_end_def)


section \<open>From the command line to the engine\<close>

text \<open>No query and no help text is asked for, and the interface, if given, is the plugin's own.\<close>

definition asks_capture :: "Options \<Rightarrow> bool" where
  "asks_capture g \<longleftrightarrow> \<not> o_help g \<and> \<not> o_extcap_version g \<and> \<not> o_extcap_interfaces g \<and> \<not> o_extcap_dlts g \<and> \<not> o_extcap_config g
     \<and> (o_extcap_interface g = None \<or> o_extcap_interface g = Some INTERFACE_NAME) \<and> o_replay g = None
     \<and> o_extcap_capture g \<and> o_extcap_fifo g \<noteq> None"

lemma parse_settings:
  assumes "\<forall>s \<in> set ss. setting_ok s" and "g = fold apply_setting ss g_opt_zero" and "\<not> o_help g"
    and "get_capture_speed g = Inr speed" and "get_capture_trigger g = Inr trigger"
  shows "parse_command_line build (prog # concat (map words_of ss)) =
    Inr (g\<lparr>o_capture_speed := speed, o_capture_trigger := trigger, o_capture_limit := (case o_limit g of Some s \<Rightarrow> strtoll s | None \<Rightarrow> -1)\<rparr>)"
  using opt_loop_settings [OF assms(1)] assms(2-)
  by (simp add: parse_command_line_def os_opt_parse_def cli_bind_def)



end
