(* ===== verification/Usbcap.thy ===== *)
theory Usbcap
  imports Stream_Delivery Command Gen1_Usb
begin

text \<open>
  The capture tools \<open>tools/usbcap.c\<close> and \<open>tools/usbcap_fast.c\<close> and the command tool \<open>tools/usb_cmd.c\<close>, each with
  its own copy of the protocol: header CRC, command packets, the block parser, and in \<open>usbcap_fast.c\<close> a walk
  over the capture frames that counts error flags. \<open>parse_push\<close>, the same text in both capture tools,
  takes what is done with a payload as the parameter \<open>sink\<close>. The bytes \<open>pbuf[off..plen_buf)\<close> are the list
  \<open>uc_pbuf\<close>. \<open>uc_user\<close> of \<open>usbcap.c\<close> lists the arguments of \<open>fwrite\<close>; the writer thread of \<open>usbcap_fast.c\<close> is in
  \<open>Fast_Writer\<close>, the main programs are in \<open>Tool_Sessions\<close> and \<open>Usb_Cmd\<close>.
\<close>

section \<open>Definitions\<close>

subsection \<open>Protocol\<close>

definition tool_crc16 :: "u32 list \<Rightarrow> u16" where
  "tool_crc16 w = fold (\<lambda>i crc. (crc_bit ^^ 8) (crc XOR ucast (push_bit 8 (drop_bit ((i mod 4) * 8) (w ! (i div 4)) AND 0xff)))) [0..<12] 0xFFFF"

definition tool_build_cmd :: "u32 \<Rightarrow> u32 \<Rightarrow> u32 \<Rightarrow> bytes" where
  "tool_build_cmd seq cid param =
     (let w = [push_bit 8 (seq AND 0xff) OR (cid AND 0xff), param, 0];
          w0 = push_bit 16 (ucast (tool_crc16 w)) OR 0xC7F3
      in le32 w0 @ le32 (w ! 0) @ le32 (w ! 1) @ le32 (w ! 2))"

text \<open>\<open>usb_cmd.c\<close> keeps the CRC in 32 bits and cuts it at the end.\<close>

definition crc_bit32 :: "u32 \<Rightarrow> u32" where
  "crc_bit32 crc = (if crc AND 0x8000 \<noteq> 0 then push_bit 1 crc XOR 0x1021 else push_bit 1 crc)"

definition wide_crc16 :: "u32 \<Rightarrow> u32 \<Rightarrow> u32 \<Rightarrow> u32" where
  "wide_crc16 w1 w2 w3 =
     fold (\<lambda>i crc. (crc_bit32 ^^ 8) (crc XOR push_bit 8 (drop_bit ((i mod 4) * 8) ([w1, w2, w3] ! (i div 4)) AND 0xff))) [0..<12] 0xFFFF AND 0xFFFF"

definition usb_cmd_build :: "u32 \<Rightarrow> u32 \<Rightarrow> u32 \<Rightarrow> bytes" where
  "usb_cmd_build g_seq cid param =
     (let w1 = push_bit 8 (g_seq AND 0xff) OR (cid AND 0xff); w3 = 0;
          w0 = push_bit 16 (wide_crc16 w1 param w3) OR 0xC7F3
      in le32 w0 @ le32 w1 @ le32 param @ le32 w3)"

text \<open>A synchronous OUT transfer gives its return code and the number of bytes transferred.\<close>

definition tool_send_cmd :: "(bytes \<Rightarrow> 'd \<Rightarrow> int \<times> int \<times> 'd) \<Rightarrow> u32 \<Rightarrow> u32 \<Rightarrow> u32 \<Rightarrow> 'd \<Rightarrow> bool \<times> 'd" where
  "tool_send_cmd bulk_out seq cid param d =
     (let (rc, transferred, d) = bulk_out (tool_build_cmd seq cid param) d in (rc = 0 \<and> transferred = 16, d))"

subsection \<open>Block parser\<close>

definition URB_SIZE_MAX :: nat where "URB_SIZE_MAX = 4 * 1024 * 1024"
definition PBUF_SIZE :: nat where "PBUF_SIZE = 2 * URB_SIZE_MAX + 64"

record 'u usbcap =
  uc_pbuf :: bytes
  uc_aligned :: bool
  uc_last_seq :: int
  uc_bytes_payload :: u64
  uc_blocks :: u32
  uc_acks :: u32
  uc_hdr_errors :: u32
  uc_seq_jumps :: u32
  uc_stopping :: bool
  uc_user :: 'u

definition usbcap_start :: "'u \<Rightarrow> 'u usbcap" where
  "usbcap_start u =
     \<lparr>uc_pbuf = [], uc_aligned = False, uc_last_seq = -1, uc_bytes_payload = 0, uc_blocks = 0, uc_acks = 0, uc_hdr_errors = 0,
      uc_seq_jumps = 0, uc_stopping = False, uc_user = u\<rparr>"

text \<open>The scan for the bytes C6 6C.\<close>

fun magic_at :: "bytes \<Rightarrow> nat option" where
  "magic_at (a # b # bs) = (if a = 0xC6 \<and> b = 0x6C then Some 0 else map_option Suc (magic_at (b # bs)))"
| "magic_at _ = None"

text \<open>The test \<open>ok\<close> of a header with \<open>plen\<close>, when it holds.\<close>

definition tool_header :: "bytes \<Rightarrow> u32 option" where
  "tool_header p =
     (let w0 = of_le32 p; w1 = of_le32 (drop 4 p); w2 = of_le32 (drop 8 p); w3 = of_le32 (drop 12 p);
          plen = drop_bit 12 w3 AND 0xFFF
      in if w0 AND 0xFFFF = 0x6CC6 \<and> drop_bit 16 w0 = ucast (tool_crc16 [w1, w2, w3]) \<and> w1 AND 0xFFFFF000 = 0
            \<and> (plen = 0 \<or> 1 \<le> plen \<and> plen \<le> 4092)
         then Some plen else None)"

text \<open>A complete block at the front of the buffer, with \<open>n\<close> payload words.\<close>

definition tool_accept :: "(bytes \<Rightarrow> 'u \<Rightarrow> 'u) \<Rightarrow> nat \<Rightarrow> 'u usbcap \<Rightarrow> 'u usbcap" where
  "tool_accept sink n c =
     (let p = uc_pbuf c; seq = uint (drop_bit 24 (of_le32 (drop 12 p)) AND 0xFF);
          c = (if 0 \<le> uc_last_seq c \<and> seq \<noteq> (uc_last_seq c + 1) mod 256 then c\<lparr>uc_seq_jumps := uc_seq_jumps c + 1\<rparr> else c);
          c = c\<lparr>uc_last_seq := seq\<rparr>;
          c = (if n = 0 then c\<lparr>uc_acks := uc_acks c + 1\<rparr>
               else c\<lparr>uc_blocks := uc_blocks c + 1, uc_bytes_payload := uc_bytes_payload c + of_nat (4 * n),
                      uc_user := sink (take (4 * n) (drop 16 p)) (uc_user c)\<rparr>)
      in c\<lparr>uc_pbuf := drop (16 + 4 * n) p\<rparr>)"

definition tool_scan :: "'u usbcap \<Rightarrow> nat option" where
  "tool_scan c = (if uc_aligned c then Some 0 else magic_at (uc_pbuf c))"

lemma magic_at_bound: "magic_at p = Some i \<Longrightarrow> i < length p"
  by (induction p arbitrary: i rule: magic_at.induct) (auto split: if_splits)

lemma tool_accept_pbuf: "uc_pbuf (tool_accept sink n c) = drop (16 + 4 * n) (uc_pbuf c)"
  by (simp add: tool_accept_def Let_def)

function parse_loop :: "(bytes \<Rightarrow> 'u \<Rightarrow> 'u) \<Rightarrow> 'u usbcap \<Rightarrow> 'u usbcap" where
  "parse_loop sink c =
     (case tool_scan c of
        None \<Rightarrow> c\<lparr>uc_pbuf := drop (length (uc_pbuf c) - 1) (uc_pbuf c)\<rparr>
      | Some i \<Rightarrow>
          let p = drop i (uc_pbuf c)
          in if length p < 16 then c\<lparr>uc_pbuf := p\<rparr>
             else (case tool_header p of
               None \<Rightarrow> parse_loop sink (c\<lparr>uc_pbuf := drop 1 p, uc_hdr_errors := uc_hdr_errors c + 1, uc_aligned := False\<rparr>)
             | Some plen \<Rightarrow>
                 if length p < 16 + 4 * unat plen then c\<lparr>uc_pbuf := p, uc_aligned := True\<rparr>
                 else parse_loop sink (tool_accept sink (unat plen) (c\<lparr>uc_pbuf := p, uc_aligned := True\<rparr>))))"
  by pat_completeness auto
termination by (relation "measure (\<lambda>(_, c). length (uc_pbuf c))") (auto simp: tool_accept_pbuf)

declare parse_loop.simps [simp del]

definition parse_push :: "(bytes \<Rightarrow> 'u \<Rightarrow> 'u) \<Rightarrow> 'u usbcap \<Rightarrow> bytes \<Rightarrow> 'u usbcap" where
  "parse_push sink c data = parse_loop sink (c\<lparr>uc_pbuf := uc_pbuf c @ data\<rparr>)"

text \<open>The completion callback; \<open>submitted\<close> says whether resubmission succeeds.\<close>

definition on_xfer :: "(bytes \<Rightarrow> 'u \<Rightarrow> 'u) \<Rightarrow> bool \<Rightarrow> xfer_status \<Rightarrow> bytes \<Rightarrow> 'u usbcap \<Rightarrow> 'u usbcap" where
  "on_xfer sink submitted status data c =
     (if status = XferNoDevice then c\<lparr>uc_stopping := True\<rparr>
      else if status = XferCancelled then c
      else let c = (if data \<noteq> [] then parse_push sink c data else c)
           in if \<not> uc_stopping c \<and> \<not> submitted then c\<lparr>uc_stopping := True\<rparr> else c)"

definition usbcap_sink :: "bytes \<Rightarrow> bytes list \<Rightarrow> bytes list" where
  "usbcap_sink d out = out @ [d]"

subsection \<open>Walk over the capture frames\<close>

record fast_stats =
  fs_rec_total :: u64
  fs_ev_crc :: u64
  fs_ev_ovf :: u64
  fs_ev_derr :: u64
  fs_pkts_crc :: u64
  fs_pkts_ovf :: u64
  fs_pkts_derr :: u64
  fs_st_crc :: bool
  fs_st_ovf :: bool
  fs_st_derr :: bool
  fs_fbuf :: bytes
  fs_faligned :: bool

definition stats_start :: fast_stats where
  "stats_start = \<lparr>fs_rec_total = 0, fs_ev_crc = 0, fs_ev_ovf = 0, fs_ev_derr = 0, fs_pkts_crc = 0, fs_pkts_ovf = 0, fs_pkts_derr = 0,
     fs_st_crc = False, fs_st_ovf = False, fs_st_derr = False, fs_fbuf = [], fs_faligned = False\<rparr>"

text \<open>A complete data frame in \<open>fbuf\<close>.\<close>

definition stats_record :: "fast_stats \<Rightarrow> fast_stats" where
  "stats_record s =
     (let b = fs_fbuf s ! 3; c = b AND 0x10 \<noteq> 0; v = b AND 0x08 \<noteq> 0; e = b AND 0x20 \<noteq> 0
      in s\<lparr>fs_rec_total := fs_rec_total s + 1,
           fs_ev_crc := fs_ev_crc s + of_bool (c \<and> \<not> fs_st_crc s), fs_ev_ovf := fs_ev_ovf s + of_bool (v \<and> \<not> fs_st_ovf s),
           fs_ev_derr := fs_ev_derr s + of_bool (e \<and> \<not> fs_st_derr s),
           fs_pkts_crc := fs_pkts_crc s + of_bool c, fs_pkts_ovf := fs_pkts_ovf s + of_bool v, fs_pkts_derr := fs_pkts_derr s + of_bool e,
           fs_st_crc := c, fs_st_ovf := v, fs_st_derr := e, fs_faligned := False, fs_fbuf := []\<rparr>)"

definition stats_size :: "bytes \<Rightarrow> nat" where
  "stats_size f = unat (push_bit 8 (ucast (f ! 3 AND 7)) OR ucast (f ! 4) :: u32)"

lemma stats_record_aligned: "\<not> fs_faligned (stats_record s)"
  by (simp add: stats_record_def Let_def)

function stats_push :: "fast_stats \<Rightarrow> bytes \<Rightarrow> fast_stats" where
  "stats_push s d =
     (if d = [] then s
      else if \<not> fs_faligned s
      then if hd d AND 0x80 \<noteq> 0 then stats_push (s\<lparr>fs_fbuf := [hd d], fs_faligned := True\<rparr>) (tl d)
           else stats_push s (drop 4 d)
      else let k = 7 - length (fs_fbuf s); f = fs_fbuf s @ take k d; d = drop k d
           in if length f < 7 then s\<lparr>fs_fbuf := f\<rparr>
              else let size = stats_size f
                   in if size < 7 \<or> 2048 < size then stats_push (s\<lparr>fs_fbuf := [], fs_faligned := False\<rparr>) d
                      else let k = size - length f; f = f @ take k d; d = drop k d
                           in if length f < size then s\<lparr>fs_fbuf := f\<rparr>
                              else stats_push (stats_record (s\<lparr>fs_fbuf := f\<rparr>)) d)"
  by pat_completeness auto
termination
proof (relation "measure (\<lambda>(s, d). 2 * length d + of_bool (fs_faligned s))", goal_cases)
  case (2 s d)
  then show ?case by (cases d) simp_all
next
  case (3 s d)
  then show ?case by (cases d) simp_all
next
  case (5 s d k f r size k' f' r')
  have "length r' \<le> length d" unfolding 5(11) 5(5) by simp
  then show ?case using 5(2) by (simp add: stats_record_aligned)
qed simp_all

declare stats_push.simps [simp del]

text \<open>\<open>usbcap_fast.c\<close> counts the payload and hands it to its writer; the list holds the arguments of \<open>emit\<close>.\<close>

definition fast_sink :: "bytes \<Rightarrow> fast_stats \<times> bytes list \<Rightarrow> fast_stats \<times> bytes list" where
  "fast_sink d u = (stats_push (fst u) d, snd u @ [d])"

section \<open>The protocol of the plugin\<close>

lemma crc_input: "ucast (push_bit 8 x AND 0xff00) = (push_bit 8 (ucast (ucast (x AND 0xff) :: u8)) :: u16)" for x :: u32
proof -
  have m: "(0xff :: u32) = mask 8" "(0xff00 :: u32) = push_bit 8 (mask 8)" by (simp_all add: mask_eq_exp_minus_1)
  show ?thesis unfolding m by (rule bit_word_eqI) (auto simp: bit_simps)
qed

lemma tool_crc16_eq: "tool_crc16 [w1, w2, w3] = uhsif_hdr_crc16 w1 w2 w3"
  unfolding tool_crc16_def uhsif_hdr_crc16_def
  by (rule fold_cong) (auto simp: crc_byte_def hdr_byte_def crc_input Let_def fun_eq_iff nth_Cons' div_less)

lemma crc_bit32_low: "(ucast (crc_bit32 c) :: u16) = crc_bit (ucast c)"
proof -
  have "c AND 0x8000 = 0 \<longleftrightarrow> (ucast c :: u16) AND 0x8000 = 0"
    proof -
    have "c AND 0x8000 = 0 \<longleftrightarrow> \<not> bit c 15" using and_exp_eq_0_iff_not_bit [of c 15] by simp
    moreover have "(ucast c :: u16) AND 0x8000 = 0 \<longleftrightarrow> \<not> bit (ucast c :: u16) 15" using and_exp_eq_0_iff_not_bit [of "ucast c :: u16" 15] by simp
    ultimately show ?thesis by (simp add: bit_simps)
  qed
  moreover have "(ucast (push_bit n c) :: u16) = push_bit n (ucast c)" for n by (rule bit_word_eqI) (auto simp: bit_simps)
  from this [of 1] have "(ucast (push_bit 1 c) :: u16) = push_bit 1 (ucast c)" .
  moreover have "(ucast (x XOR 0x1021) :: u16) = ucast x XOR 0x1021" for x :: u32 by (rule bit_word_eqI) (auto simp: bit_simps)
  ultimately show ?thesis by (simp add: crc_bit32_def crc_bit_def)
qed

lemma crc_bits32_low: "(ucast ((crc_bit32 ^^ n) c) :: u16) = (crc_bit ^^ n) (ucast c)"
  by (induction n) (simp_all add: crc_bit32_low)

lemma wide_crc16_low: "wide_crc16 w1 w2 w3 = ucast (uhsif_hdr_crc16 w1 w2 w3)"
proof -
  let ?f = "\<lambda>i crc. (crc_bit32 ^^ 8) (crc XOR push_bit 8 (drop_bit ((i mod 4) * 8) ([w1, w2, w3] ! (i div 4)) AND 0xff))"
  let ?g = "\<lambda>i crc. (crc_bit ^^ 8) (crc XOR ucast (push_bit 8 (drop_bit ((i mod 4) * 8) ([w1, w2, w3] ! (i div 4)) AND 0xff)))"
  have x: "(ucast (x XOR y) :: u16) = ucast x XOR ucast y" for x y :: u32 by (rule bit_word_eqI) (auto simp: bit_simps)
  have "(ucast (fold ?f is c) :: u16) = fold ?g is (ucast c)" for "is" c
    by (induction "is" arbitrary: c) (simp_all add: crc_bits32_low x del: push_bit_and)
  from this [of "[0..<12]" "0xFFFF"] have "(ucast (fold ?f [0..<12] 0xFFFF) :: u16) = uhsif_hdr_crc16 w1 w2 w3"
    by (simp add: tool_crc16_def flip: tool_crc16_eq)
  moreover have "c AND 0xFFFF = ucast (ucast c :: u16)" for c :: u32
  proof -
    have m: "(0xFFFF :: u32) = mask 16" by (simp add: mask_eq_exp_minus_1)
    show ?thesis unfolding m by (rule bit_word_eqI) (auto simp: bit_simps)
  qed
  ultimately show ?thesis by (simp add: wide_crc16_def)
qed

lemma low_bytes: "(ucast (x AND 0xff :: u32) :: u8) = ucast x" "x AND 0xff = ucast (ucast x :: u8)" for x :: u32
proof -
  have m: "(0xff :: u32) = mask 8" by (simp add: mask_eq_exp_minus_1)
  show "(ucast (x AND 0xff) :: u8) = ucast x" "x AND 0xff = ucast (ucast x :: u8)" unfolding m by (rule bit_word_eqI; auto simp: bit_simps)+
qed

text \<open>All three tools build the command packets of the plugin.\<close>

lemma tool_packets:
  assumes "cid < 256"
  shows "tool_build_cmd seq (of_nat cid) param = build_packet (c\<lparr>cm_seq := ucast seq\<rparr>) cid param"
    and "usb_cmd_build seq (of_nat cid) param = build_packet (c\<lparr>cm_seq := ucast seq\<rparr>) cid param"
proof -
  have m: "(0xff :: u32) = mask 8" by (simp add: mask_eq_exp_minus_1)
  have c: "of_nat cid AND 0xff = (of_nat cid :: u32)" unfolding m using assms
    by (simp add: take_bit_eq_mask [symmetric] take_bit_of_nat take_bit_nat_eq_self)
  show "tool_build_cmd seq (of_nat cid) param = build_packet (c\<lparr>cm_seq := ucast seq\<rparr>) cid param"
    "usb_cmd_build seq (of_nat cid) param = build_packet (c\<lparr>cm_seq := ucast seq\<rparr>) cid param"
    by (simp_all add: tool_build_cmd_def usb_cmd_build_def build_packet_def Let_def tool_crc16_eq wide_crc16_low c low_bytes(2) [of seq] UHSIF_CMD_MAGIC16_def)
qed

lemma tool_header_eq: "tool_header p = header_valid p"
proof -
  have "w AND 0xFFFF = 0x6CC6 \<longleftrightarrow> (ucast w :: u16) = 0x6CC6" for w :: u32
  proof -
    have m: "(0xFFFF :: u32) = mask 16" by (simp add: mask_eq_exp_minus_1)
    have "w AND 0xFFFF = ucast (ucast w :: u16)" unfolding m by (rule bit_word_eqI) (auto simp: bit_simps)
    moreover have "(ucast (x :: u16) :: u32) = 0x6CC6 \<longleftrightarrow> x = 0x6CC6" for x
      using ucast_up_down16 [of x] ucast_up_down16 [of "0x6CC6"] by auto
    ultimately show ?thesis by simp
  qed
  then show ?thesis
    by (auto simp: tool_header_def header_valid_def Let_def uhsif_blk_hdr_ok_def tool_crc16_eq UHSIF_BLK_MAGIC16_def
        UHSIF_MIN_PAYLOAD_WORDS_def UHSIF_MAX_PAYLOAD_WORDS_def)
qed


section \<open>The blocks of a byte sequence\<close>

text \<open>The payloads of the blocks in a byte sequence, an empty list for an acknowledgement.\<close>

function blocks_in :: "bytes \<Rightarrow> bytes list" where
  "blocks_in p =
     (if length p < 16 then []
      else case header_valid p of
        None \<Rightarrow> blocks_in (tl p)
      | Some n \<Rightarrow> if length p < 16 + 4 * unat n then [] else take (4 * unat n) (drop 16 p) # blocks_in (drop (16 + 4 * unat n) p))"
  by pat_completeness auto
termination by (relation "measure length") auto

declare blocks_in.simps [simp del]

lemma blocks_short: "length p < 16 \<Longrightarrow> blocks_in p = []"
  by (simp add: blocks_in.simps)

lemma blocks_no_magic: "\<not> is_magic (x # p) \<Longrightarrow> blocks_in (x # p) = blocks_in p"
  using header_valid_magic [of "x # p"] by (cases "header_valid (x # p)") (auto simp: blocks_in.simps [of "x # p"] blocks_short)

lemma blocks_skip: "blocks_in (skip_garbage p) = blocks_in p"
  by (induction p) (simp_all add: blocks_no_magic)

lemma blocks_encode:
  assumes "blk_ok (seq, w1, w2, p)"
  shows "blocks_in (blk_encode (seq, w1, w2, p) @ r) = p # blocks_in r"
proof -
  have n: "unat (of_nat (length p div 4) :: u32) = length p div 4" using blk_ok_words [OF assms] by (rule unat_of_nat_small)
  have "4 * (length p div 4) = length p" using assms by auto
  with n header_valid_encode [OF assms, of "p @ r"] show ?thesis
    by (subst blocks_in.simps) (simp add: lens)
qed

text \<open>The plugin's parser with callbacks that record the blocks.\<close>

definition recording :: "bytes list stream_callbacks" where
  "recording = \<lparr>data_cb = (\<lambda>u d. u @ [d]), ack_cb = (\<lambda>u. u @ [[]]), rsync_cb = (\<lambda>u. u)\<rparr>"

lemma carve_extracts: "c_cb c = recording \<Longrightarrow> c_user (carve c) = c_user c @ blocks_in (c_pend c)"
proof (induction c rule: carve.induct)
  case (1 c)
  show ?case
  proof (cases "length (c_pend c) < 16")
    case True
    then show ?thesis by (simp add: carve.simps [of c] blocks_short)
  next
    case long: False
    show ?thesis
    proof (cases "header_valid (c_pend c)")
      case None
      let ?next = "if c_state c = STREAM_BLOCK then carve_lose c else set_pend (tl (c_pend c)) c"
      have n: "c_cb ?next = recording" "c_user ?next = c_user c" "blocks_in (c_pend ?next) = blocks_in (c_pend c)"
        using 1(3) None long blocks_in.simps [of "c_pend c"]
        by (auto simp: carve_lose_def set_pend_def recording_def blocks_skip)
      have "carve c = carve ?next" using long None by (subst carve.simps) simp
      then show ?thesis using 1(1) [OF long None n(1)] n(2,3) by simp
    next
      case (Some n)
      show ?thesis
      proof (cases "length (c_pend c) < 16 + 4 * unat n")
        case True
        then show ?thesis using long Some by (simp add: carve.simps [of c] blocks_in.simps [of "c_pend c"])
      next
        case False
        have "c_cb (carve_accept c (unat n)) = recording" using 1(3) by (simp add: carve_accept_def Let_def)
        note ih = 1(2) [OF long Some False this]
        have "carve c = carve (carve_accept c (unat n))" using long Some False by (subst carve.simps) simp
        then show ?thesis using ih 1(3) long Some False
          by (simp add: blocks_in.simps [of "c_pend c"]) (simp add: carve_accept_def Let_def recording_def)
      qed
    qed
  qed
qed

section \<open>The blocks the tools find\<close>

lemma is_magic_bytes: "is_magic p \<longleftrightarrow> p ! 0 = 0xC6 \<and> p ! 1 = 0x6C"
proof -
  have "(ucast (of_le32 p) :: u16) = ucast (p ! 0) OR push_bit 8 (ucast (p ! 1))"
    by (rule bit_word_eqI) (auto simp: of_le32_def bit_simps)
  moreover have "(ucast a OR push_bit 8 (ucast b) :: u16) = ucast c OR push_bit 8 (ucast d) \<longleftrightarrow> a = c \<and> b = d" for a b c d :: u8
  proof
    assume e: "(ucast a OR push_bit 8 (ucast b) :: u16) = ucast c OR push_bit 8 (ucast d)"
    have "bit a n = bit c n" if "n < 8" for n using arg_cong [OF e, of "\<lambda>w. bit w n"] that by (simp add: bit_simps)
    moreover have "\<not> bit x (n + 8)" for x :: u8 and n by (auto dest: bit_imp_le_length)
    then have "bit b n = bit d n" if "n < 8" for n using arg_cong [OF e, of "\<lambda>w. bit w (n + 8)"] that by (simp add: bit_simps)
    ultimately show "a = c \<and> b = d" by (auto intro!: bit_word_eqI)
  qed simp
  note this [of "p ! 0" "p ! 1" "0xC6" "0x6C"]
  moreover have "(ucast (0xC6 :: u8) OR push_bit 8 (ucast (0x6C :: u8)) :: u16) = 0x6CC6" by simp
  ultimately show ?thesis by (simp add: is_magic_def UHSIF_BLK_MAGIC16_def)
qed


lemma magic_at_Nil: "magic_at [] = None" "magic_at [a] = None"
  by simp_all

lemma blocks_magic_at:
  "magic_at p = None \<Longrightarrow> blocks_in p = []" "magic_at p = Some i \<Longrightarrow> blocks_in (drop i p) = blocks_in p"
proof (induction p arbitrary: i rule: magic_at.induct)
  case (1 a b bs)
  {
    case 1
    then have "\<not> is_magic (a # b # bs)" "magic_at (b # bs) = None" by (auto simp: is_magic_bytes split: if_splits)
    then show ?case using "1.IH"(1) 1 by (auto simp: blocks_no_magic split: if_splits)
  next
    case 2
    then show ?case using "1.IH"(2) blocks_no_magic [of a "b # bs"] by (cases i) (auto simp: is_magic_bytes split: if_splits)
  }
qed (simp_all add: blocks_short)

lemma parse_step:
  assumes "tool_scan c = Some i" and "p = drop i (uc_pbuf c)" and "16 \<le> length p"
  shows "header_valid p = None \<Longrightarrow>
      parse_loop sink c = parse_loop sink (c\<lparr>uc_pbuf := drop 1 p, uc_hdr_errors := uc_hdr_errors c + 1, uc_aligned := False\<rparr>)"
    and "header_valid p = Some n \<Longrightarrow> length p < 16 + 4 * unat n \<Longrightarrow> parse_loop sink c = c\<lparr>uc_pbuf := p, uc_aligned := True\<rparr>"
    and "header_valid p = Some n \<Longrightarrow> 16 + 4 * unat n \<le> length p \<Longrightarrow>
      parse_loop sink c = parse_loop sink (tool_accept sink (unat n) (c\<lparr>uc_pbuf := p, uc_aligned := True\<rparr>))"
  using assms by (simp_all add: parse_loop.simps [of sink c] tool_header_eq Let_def)

lemma parse_stop:
  "tool_scan c = None \<Longrightarrow> parse_loop sink c = c\<lparr>uc_pbuf := drop (length (uc_pbuf c) - 1) (uc_pbuf c)\<rparr>"
  "tool_scan c = Some i \<Longrightarrow> length (drop i (uc_pbuf c)) < 16 \<Longrightarrow> parse_loop sink c = c\<lparr>uc_pbuf := drop i (uc_pbuf c)\<rparr>"
  by (simp_all add: parse_loop.simps [of sink c] Let_def)

text \<open>One turn of the loop, in the cases of the code.\<close>

lemma parse_cases [case_names nomagic short bad part whole]:
  obtains (nomagic) "tool_scan c = None"
  | (short) i where "tool_scan c = Some i" "length (drop i (uc_pbuf c)) < 16"
  | (bad) i where "tool_scan c = Some i" "16 \<le> length (drop i (uc_pbuf c))" "header_valid (drop i (uc_pbuf c)) = None"
  | (part) i n where "tool_scan c = Some i" "16 \<le> length (drop i (uc_pbuf c))" "header_valid (drop i (uc_pbuf c)) = Some n"
      "length (drop i (uc_pbuf c)) < 16 + 4 * unat n"
  | (whole) i n where "tool_scan c = Some i" "16 \<le> length (drop i (uc_pbuf c))" "header_valid (drop i (uc_pbuf c)) = Some n"
      "16 + 4 * unat n \<le> length (drop i (uc_pbuf c))"
  by (metis not_less option.exhaust)

lemma blocks_scan: "tool_scan c = Some i \<Longrightarrow> blocks_in (uc_pbuf c) = blocks_in (drop i (uc_pbuf c))"
  by (auto simp: tool_scan_def blocks_magic_at split: if_splits)


lemma tool_accept_fields:
  assumes "16 + 4 * n \<le> length (uc_pbuf c)" and "b = take (4 * n) (drop 16 (uc_pbuf c))" and "d = tool_accept sink n c"
  shows "uc_user d = (if b = [] then uc_user c else sink b (uc_user c))" and "uc_acks d = uc_acks c + of_bool (b = [])"
    and "uc_blocks d = uc_blocks c + of_bool (b \<noteq> [])" and "uc_bytes_payload d = uc_bytes_payload c + of_nat (length b)"
    and "uc_aligned d = uc_aligned c" and "uc_pbuf d = drop (16 + 4 * n) (uc_pbuf c)" and "uc_stopping d = uc_stopping c"
  using assms by (auto simp: tool_accept_def Let_def)

lemma parse_finds:
  fixes sink :: "bytes \<Rightarrow> 'u \<Rightarrow> 'u"
  shows "uc_user (parse_loop sink c) = fold sink (filter (\<lambda>b. b \<noteq> []) (blocks_in (uc_pbuf c))) (uc_user c)
    \<and> uc_acks (parse_loop sink c) = uc_acks c + of_nat (count_list (blocks_in (uc_pbuf c)) [])
    \<and> uc_blocks (parse_loop sink c) = uc_blocks c + of_nat (length (filter (\<lambda>b. b \<noteq> []) (blocks_in (uc_pbuf c))))
    \<and> uc_bytes_payload (parse_loop sink c) = uc_bytes_payload c + of_nat (length (concat (blocks_in (uc_pbuf c))))
    \<and> uc_stopping (parse_loop sink c) = uc_stopping c"
proof (induction "length (uc_pbuf c)" arbitrary: c rule: less_induct)
  case less
  show ?case
  proof (cases c rule: parse_cases)
    case nomagic
    then show ?thesis by (simp add: parse_stop tool_scan_def blocks_magic_at split: if_splits)
  next
    case (short i)
    then show ?thesis by (simp add: parse_stop(2) [OF short] blocks_scan [OF short(1)] blocks_short)
  next
    case (bad i)
    let ?d = "c\<lparr>uc_pbuf := drop 1 (drop i (uc_pbuf c)), uc_hdr_errors := uc_hdr_errors c + 1, uc_aligned := False\<rparr>"
    have "blocks_in (uc_pbuf c) = blocks_in (uc_pbuf ?d)" using bad by (simp add: blocks_scan blocks_in.simps [of "drop i (uc_pbuf c)"] tl_drop drop_Suc)
    then show ?thesis using less(1) [of ?d] bad(2) by (simp add: parse_step(1) [OF bad(1) refl bad(2,3)])
  next
    case (part i n)
    then have "blocks_in (uc_pbuf c) = []" by (simp add: blocks_scan blocks_in.simps [of "drop i (uc_pbuf c)"])
    then show ?thesis by (simp add: parse_step(2) [OF part(1) refl part(2,3,4)])
  next
    case (whole i n)
    let ?p = "drop i (uc_pbuf c)" and ?b = "take (4 * unat n) (drop 16 (drop i (uc_pbuf c)))"
    define e where "e = tool_accept sink (unat n) (c\<lparr>uc_pbuf := ?p, uc_aligned := True\<rparr>)"
    have e: "uc_user e = (if ?b = [] then uc_user c else sink ?b (uc_user c))" "uc_acks e = uc_acks c + of_bool (?b = [])"
      "uc_blocks e = uc_blocks c + of_bool (?b \<noteq> [])" "uc_bytes_payload e = uc_bytes_payload c + of_nat (length ?b)"
      "uc_pbuf e = drop (16 + 4 * unat n) ?p" "uc_stopping e = uc_stopping c"
      using tool_accept_fields [OF _ refl e_def] whole(4) by simp_all
    have s: "parse_loop sink c = parse_loop sink e" using parse_step(3) [OF whole(1) refl whole(2,3,4)] by (simp add: e_def)
    have "length (uc_pbuf e) < length (uc_pbuf c)" using whole(2) by (simp add: e(5))
    note ih = less(1) [OF this]
    have "blocks_in (uc_pbuf c) = ?b # blocks_in (uc_pbuf e)"
      using whole by (simp add: blocks_scan blocks_in.simps [of ?p] e(5))
    with ih show ?thesis unfolding s e(1-4,6) by (cases "?b = []") simp_all
  qed
qed

lemma parse_left: "length (uc_pbuf (parse_loop sink c)) < 16 + 4 * 4092"
proof (induction "length (uc_pbuf c)" arbitrary: c rule: less_induct)
  case less
  show ?case
  proof (cases c rule: parse_cases)
    case nomagic
    then show ?thesis by (simp add: parse_stop)
  next
    case (short i)
    then show ?thesis by (simp add: parse_stop(2) [OF short])
  next
    case (bad i)
    let ?d = "c\<lparr>uc_pbuf := drop 1 (drop i (uc_pbuf c)), uc_hdr_errors := uc_hdr_errors c + 1, uc_aligned := False\<rparr>"
    show ?thesis using less(1) [of ?d] bad(2) by (simp add: parse_step(1) [OF bad(1) refl bad(2,3)])
  next
    case (part i n)
    then show ?thesis using header_valid_bound [OF part(3)] by (simp add: parse_step(2) [OF part(1) refl part(2,3,4)])
  next
    case (whole i n)
    then show ?thesis using less(1) [of "tool_accept sink (unat n) (c\<lparr>uc_pbuf := drop i (uc_pbuf c), uc_aligned := True\<rparr>)"]
      by (simp add: parse_step(3) [OF whole(1) refl whole(2,3,4)] tool_accept_pbuf)
  qed
qed


section \<open>Cutting the input\<close>

lemma magic_at_append: "magic_at p = Some i \<Longrightarrow> magic_at (p @ d) = Some i"
  by (induction p arbitrary: i rule: magic_at.induct) (auto split: if_splits)

lemma magic_at_drop: "magic_at p = Some i \<Longrightarrow> magic_at (drop i p) = Some 0"
  by (induction p arbitrary: i rule: magic_at.induct) (auto split: if_splits)

lemma magic_at_last:
  "magic_at p = None \<Longrightarrow> p \<noteq> [] \<Longrightarrow> magic_at (p @ d) = map_option ((+) (length p - 1)) (magic_at (drop (length p - 1) p @ d))"
proof (induction p rule: magic_at.induct)
  case (1 a b bs)
  then have "magic_at ((b # bs) @ d) = map_option ((+) (length bs)) (magic_at (drop (length bs) (b # bs) @ d))" by (auto split: if_splits)
  then show ?case using 1(2) by (auto simp: option.map_comp comp_def split: if_splits)
qed (auto simp: map_option_case split: option.split)

lemma parse_skip:
  assumes "\<not> uc_aligned c" and "magic_at q = map_option ((+) k) (magic_at (drop k q))" and "k < length q"
  shows "parse_loop sink (c\<lparr>uc_pbuf := q\<rparr>) = parse_loop sink (c\<lparr>uc_pbuf := drop k q\<rparr>)"
proof (cases "magic_at (drop k q)")
  case None
  then show ?thesis using assms by (simp add: parse_stop tool_scan_def)
next
  case (Some j)
  then have "tool_scan (c\<lparr>uc_pbuf := q\<rparr>) = Some (k + j)" "tool_scan (c\<lparr>uc_pbuf := drop k q\<rparr>) = Some j" using assms by (simp_all add: tool_scan_def)
  then show ?thesis by (simp add: parse_loop.simps [of sink "c\<lparr>uc_pbuf := q\<rparr>"] parse_loop.simps [of sink "c\<lparr>uc_pbuf := drop k q\<rparr>"] Let_def add.commute split: option.split)
qed

lemma scan_append: "tool_scan c = Some i \<Longrightarrow> tool_scan (c\<lparr>uc_pbuf := uc_pbuf c @ d\<rparr>) = Some i"
  by (simp add: tool_scan_def magic_at_append split: if_splits)

lemma scan_bound: "tool_scan c = Some i \<Longrightarrow> i \<le> length (uc_pbuf c)"
  by (auto simp: tool_scan_def dest: magic_at_bound split: if_splits)

lemma accept_append:
  assumes "16 + 4 * n \<le> length p"
  shows "tool_accept sink n (c\<lparr>uc_pbuf := p @ d, uc_aligned := True\<rparr>) =
    (let e = tool_accept sink n (c\<lparr>uc_pbuf := p, uc_aligned := True\<rparr>) in e\<lparr>uc_pbuf := uc_pbuf e @ d\<rparr>)"
  using assms of_le32_append [of "drop 12 p" d] by (simp add: tool_accept_def Let_def)

lemma pbuf_first: "c\<lparr>uc_aligned := b, uc_pbuf := p\<rparr> = c\<lparr>uc_pbuf := p, uc_aligned := b\<rparr>"
  by (rule usbcap.equality) simp_all

lemma parse_append: "parse_push sink (parse_loop sink c) d = parse_push sink c d"
proof (induction "length (uc_pbuf c)" arbitrary: c rule: less_induct)
  case less
  let ?c = "c\<lparr>uc_pbuf := uc_pbuf c @ d\<rparr>"
  show ?case
  proof (cases c rule: parse_cases)
    case nomagic
    then have n: "\<not> uc_aligned c" "magic_at (uc_pbuf c) = None" by (simp_all add: tool_scan_def split: if_splits)
    show ?thesis
    proof (cases "uc_pbuf c = []")
      case False
      have stop: "parse_loop sink c = c\<lparr>uc_pbuf := drop (length (uc_pbuf c) - 1) (uc_pbuf c)\<rparr>" using nomagic by (rule parse_stop)
      have k: "length (uc_pbuf c) - 1 < length (uc_pbuf c @ d)" using False by (cases "uc_pbuf c") simp_all
      show ?thesis using parse_skip [OF n(1) _ k, of sink] magic_at_last [OF n(2) False, of d]
        unfolding parse_push_def stop by simp
    qed (simp add: parse_stop(1) [OF nomagic] parse_push_def)
  next
    case (short i)
    have "parse_loop sink ?c = parse_loop sink (c\<lparr>uc_pbuf := drop i (uc_pbuf c) @ d\<rparr>)"
    proof (cases "uc_aligned c")
      case True
      then show ?thesis using short(1) by (simp add: tool_scan_def)
    next
      case False
      then have m: "magic_at (uc_pbuf c) = Some i" using short(1) by (simp add: tool_scan_def)
      have "magic_at (drop i (uc_pbuf c) @ d) = Some 0" using magic_at_append [OF magic_at_drop [OF m]] .
      then show ?thesis using parse_skip [OF False, of "uc_pbuf c @ d" i sink] magic_at_append [OF m] magic_at_bound [OF m] by simp
    qed
    then show ?thesis by (simp add: parse_push_def parse_stop(2) [OF short])
  next
    case (bad i)
    let ?e = "c\<lparr>uc_pbuf := drop 1 (drop i (uc_pbuf c)), uc_hdr_errors := uc_hdr_errors c + 1, uc_aligned := False\<rparr>"
    have eq: "?e\<lparr>uc_pbuf := uc_pbuf ?e @ d\<rparr> =
        c\<lparr>uc_pbuf := uc_pbuf ?e @ d, uc_hdr_errors := uc_hdr_errors c + 1, uc_aligned := False\<rparr>" by (rule usbcap.equality) simp_all
    have "parse_push sink c d = parse_push sink ?e d" unfolding parse_push_def eq
      using parse_step(1) [OF scan_append [OF bad(1)] refl, of d sink] bad scan_bound [OF bad(1)] by (simp add: header_valid_append)
    then show ?thesis using less(1) [of ?e] bad(2) by (simp add: parse_step(1) [OF bad(1) refl bad(2,3)])
  next
    case (part i n)
    let ?p = "drop i (uc_pbuf c) @ d"
    have i: "i \<le> length (uc_pbuf c)" using part(1) by (rule scan_bound)
    have h: "header_valid ?p = Some n" "16 \<le> length ?p" using part(2,3) by (simp_all add: header_valid_append)
    have "tool_scan (c\<lparr>uc_pbuf := ?p, uc_aligned := True\<rparr>) = Some 0" by (simp add: tool_scan_def)
    moreover have "drop i (uc_pbuf ?c) = ?p" using i by simp
    ultimately have "parse_loop sink ?c = parse_loop sink (c\<lparr>uc_pbuf := ?p, uc_aligned := True\<rparr>)"
      using parse_step [OF scan_append [OF part(1), of d] refl] parse_step [of "c\<lparr>uc_pbuf := ?p, uc_aligned := True\<rparr>" 0 ?p] h
      by (cases "length ?p < 16 + 4 * unat n") simp_all
    then show ?thesis by (simp add: parse_push_def parse_step(2) [OF part(1) refl part(2,3,4)] pbuf_first)
  next
    case (whole i n)
    let ?p = "drop i (uc_pbuf c)"
    define e where "e = tool_accept sink (unat n) (c\<lparr>uc_pbuf := ?p, uc_aligned := True\<rparr>)"
    have "drop i (uc_pbuf ?c) = ?p @ d" using scan_bound [OF whole(1)] by simp
    then have "parse_loop sink ?c = parse_loop sink (tool_accept sink (unat n) (c\<lparr>uc_pbuf := ?p @ d, uc_aligned := True\<rparr>))"
      using parse_step(3) [OF scan_append [OF whole(1), of d] refl, of n sink] whole(2-4) by (simp add: header_valid_append)
    then have "parse_push sink c d = parse_push sink e d" using accept_append [OF whole(4), of sink d c] by (simp add: parse_push_def e_def Let_def)
    moreover have "length (uc_pbuf e) < length (uc_pbuf c)" using whole(2) by (simp add: e_def tool_accept_pbuf)
    note less(1) [OF this]
    moreover have "parse_loop sink c = parse_loop sink e" using parse_step(3) [OF whole(1) refl whole(2,3,4)] by (simp add: e_def)
    ultimately show ?thesis by simp
  qed
qed

definition parsed :: "(bytes \<Rightarrow> 'u \<Rightarrow> 'u) \<Rightarrow> 'u usbcap \<Rightarrow> bool" where
  "parsed sink c \<longleftrightarrow> parse_loop sink c = c"

lemma parse_push_nil: "parse_push sink c [] = parse_loop sink c"
  by (simp add: parse_push_def)

lemma parsed_push: "parsed sink (parse_push sink c d)"
  using parse_append [of sink "c\<lparr>uc_pbuf := uc_pbuf c @ d\<rparr>" "[]"] by (simp add: parsed_def parse_push_def)

interpretation tool_chunks: chunk_consumer "parsed sink" "parse_push sink" id for sink :: "bytes \<Rightarrow> 'u \<Rightarrow> 'u"
proof unfold_locales
  show "parsed sink s \<Longrightarrow> id (parse_push sink (parse_push sink s a) b) = id (parse_push sink s (a @ b))" for s a b
    using parse_append [of sink "s\<lparr>uc_pbuf := uc_pbuf s @ a\<rparr>" b] by (simp add: parse_push_def)
qed (simp_all add: parsed_push, simp add: parsed_def parse_push_def)


section \<open>Counting frames\<close>

lemma stats_size_header: "stats_size f = header_size (\<lambda>i. f ! i)"
  by (simp add: stats_size_def header_size_def)

fun data_flags :: "cap_frame \<Rightarrow> (bool \<times> bool \<times> bool) option" where
  "data_flags (DataFrame w ts ov ce de dur d) = Some (ov, ce, de)"
| "data_flags (StatusFrame w ts ls vb tr sp) = None"

lemma stats_status:
  assumes "frame_ok f" and "\<not> fs_faligned s" and "data_flags f = None"
  shows "stats_push s (frame_bytes t f @ r) = stats_push s r"
  using assms byte0_bits(1) [of _ 0] by (cases f) (auto simp: stats_push.simps [of s "_ # _"] frame_bytes_def)

lemma stats_fill:
  assumes "e \<noteq> []" and "fs_faligned s" and "fs_fbuf s @ take (7 - length (fs_fbuf s)) e = f" and "drop (7 - length (fs_fbuf s)) e = g"
    and "\<not> length f < 7" and "\<not> (stats_size f < 7 \<or> 2048 < stats_size f)"
    and "f @ take (stats_size f - length f) g = f'" and "drop (stats_size f - length f) g = r" and "\<not> length f' < stats_size f"
  shows "stats_push s e = stats_push (stats_record (s\<lparr>fs_fbuf := f'\<rparr>)) r"
  unfolding stats_push.simps [of s e] Let_def assms(3,4,7,8) using assms(1,2,5,6,9) by (simp only: if_False not_not simp_thms)

lemma stats_whole:
  assumes "\<not> fs_faligned s" and "length h = 7" and "h ! 0 AND 0x80 \<noteq> 0" and "stats_size h = 7 + length d" and "7 + length d < 2048"
  shows "stats_push s (h @ d @ r) = stats_push (stats_record (s\<lparr>fs_fbuf := h @ d, fs_faligned := True\<rparr>)) r"
proof -
  obtain b hs where h: "h = b # hs" "length hs = 6" using assms(2) by (cases h) auto
  let ?s = "s\<lparr>fs_fbuf := [b], fs_faligned := True\<rparr>"
  have "stats_push s (h @ d @ r) = stats_push ?s (hs @ d @ r)" using assms(1,3) by (subst stats_push.simps) (simp add: h(1))
  moreover have "hs @ d @ r \<noteq> []" using h(2) by auto
  then have "stats_push ?s (hs @ d @ r) = stats_push (stats_record (?s\<lparr>fs_fbuf := h @ d\<rparr>)) r"
    by (rule stats_fill [where f = h and g = "d @ r"]) (use assms(4,5) h in simp_all)
  moreover have "?s\<lparr>fs_fbuf := h @ d\<rparr> = s\<lparr>fs_fbuf := h @ d, fs_faligned := True\<rparr>" by (rule fast_stats.equality) simp_all
  ultimately show ?thesis by simp
qed

lemma stats_data:
  assumes "frame_ok f" and "\<not> fs_faligned s" and "data_flags f = Some (ov, ce, de)"
  obtains b where "b ! 3 AND 0x08 \<noteq> 0 \<longleftrightarrow> ov" "b ! 3 AND 0x10 \<noteq> 0 \<longleftrightarrow> ce" "b ! 3 AND 0x20 \<noteq> 0 \<longleftrightarrow> de"
    "stats_push s (frame_bytes t f @ r) = stats_push (stats_record (s\<lparr>fs_fbuf := b, fs_faligned := True\<rparr>)) r"
proof -
  obtain w ts dur d where f: "f = DataFrame w ts ov ce de dur d" using assms(3) by (cases f) auto
  have n: "7 + length d < 2048" "ts AND 0xfff00000 = 0" using assms(1) by (simp_all add: f)
  define h where "h = frame_header t f"
  have h: "length h = 7" "h ! 0 = frame_byte0 0x80 t w ts" "h ! 3 = data_byte3 ov ce de (of_nat (7 + length d))" "h ! 4 = of_nat (7 + length d)"
    by (simp_all add: h_def f)
  have "h ! 0 AND 0x80 = 0x80" using n(2) byte0_bits(1) [of ts "0x80" t w] by (simp add: h(2))
  then have top: "h ! 0 AND 0x80 \<noteq> 0" by simp
  have size: "stats_size h = 7 + length d"
    unfolding stats_size_header by (rule header_size_decode [OF n(1) h(3,4)])
  have "frame_bytes t f @ r = h @ d @ r" by (simp add: frame_bytes_def h_def f)
  moreover have "(h @ d) ! 3 = h ! 3" using h(1) by (simp add: nth_append)
  ultimately show thesis using that [of "h @ d"] data_flags_decode [OF n(1), of ov ce de] stats_whole [OF assms(2) h(1) top size n(1), of r]
    by (simp add: h(3))
qed

lemma stats_frames:
  "\<forall>f \<in> set fs. frame_ok f \<Longrightarrow> \<not> fs_faligned s \<Longrightarrow> u = stats_push s (frames_bytes t fs) \<Longrightarrow>
     \<not> fs_faligned u \<and> fs_rec_total u = fs_rec_total s + of_nat (length (List.map_filter data_flags fs))
     \<and> fs_pkts_ovf u = fs_pkts_ovf s + of_nat (length (filter fst (List.map_filter data_flags fs)))
     \<and> fs_pkts_crc u = fs_pkts_crc s + of_nat (length (filter (fst \<circ> snd) (List.map_filter data_flags fs)))
     \<and> fs_pkts_derr u = fs_pkts_derr s + of_nat (length (filter (snd \<circ> snd) (List.map_filter data_flags fs)))"
proof (induction fs arbitrary: s t)
  case Nil
  then show ?case by (simp add: stats_push.simps [of s "[]"])
next
  case (Cons f fs)
  show ?case
  proof (cases "data_flags f")
    case None
    then have "u = stats_push s (frames_bytes (1 - t) fs)" using Cons.prems stats_status by simp
    then show ?thesis using Cons.IH [of s "1 - t"] Cons.prems(1,2) None by simp
  next
    case (Some x)
    obtain ov ce de where x: "data_flags f = Some (ov, ce, de)" using Some by (cases x) simp
    have f: "frame_ok f" using Cons.prems(1) by simp
    obtain b where b: "b ! 3 AND 0x08 \<noteq> 0 \<longleftrightarrow> ov" "b ! 3 AND 0x10 \<noteq> 0 \<longleftrightarrow> ce" "b ! 3 AND 0x20 \<noteq> 0 \<longleftrightarrow> de"
      "stats_push s (frame_bytes t f @ frames_bytes (1 - t) fs) = stats_push (stats_record (s\<lparr>fs_fbuf := b, fs_faligned := True\<rparr>)) (frames_bytes (1 - t) fs)"
      by (rule stats_data [OF f Cons.prems(2) x])
    define v where "v = stats_record (s\<lparr>fs_fbuf := b, fs_faligned := True\<rparr>)"
    have v: "\<not> fs_faligned v" "fs_rec_total v = fs_rec_total s + 1" "fs_pkts_ovf v = fs_pkts_ovf s + of_bool ov"
      "fs_pkts_crc v = fs_pkts_crc s + of_bool ce" "fs_pkts_derr v = fs_pkts_derr s + of_bool de"
      using b(1-3) by (simp_all add: v_def stats_record_def Let_def)
    have "u = stats_push v (frames_bytes (1 - t) fs)" using Cons.prems(3) b(4) by (simp add: v_def)
    from Cons.IH [OF _ v(1) this] Cons.prems(1) v x show ?thesis by simp
  qed
qed

section \<open>Runs of the tools and of the plugin\<close>

lemma tool_run: "foldl (parse_push sink) (usbcap_start u) ds = parse_loop sink ((usbcap_start u)\<lparr>uc_pbuf := concat ds\<rparr>)"
proof -
  have "parsed sink (usbcap_start u)" by (simp add: parsed_def usbcap_start_def parse_loop.simps tool_scan_def)
  from tool_chunks.chunks_concat [OF this, of ds] show ?thesis by (simp add: parse_push_def usbcap_start_def)
qed

lemma plugin_blocks: "\<exists>s. feed_chunks (stream_new recording []) ds = Some s \<and> s_user s = blocks_in (concat ds)"
proof -
  let ?n = "stream_new recording []"
  obtain s where s: "feed_chunks ?n ds = Some s" "abs_stream s = carve_feed (abs_stream ?n) (concat ds)"
    by (rule feed_chunks_feed [OF stream_new_inv])
  have "c_pend (abs_stream ?n) = []" "c_cb (abs_stream ?n) = recording" "c_user (abs_stream ?n) = []" "c_state (abs_stream ?n) = STREAM_SCAN"
    by (simp_all add: pend_abs pending_def stream_new_def)
  then have "c_user (carve_feed (abs_stream ?n) (concat ds)) = blocks_in (concat ds)"
    by (simp add: carve_feed_def carve_extracts blocks_skip set_pend_def)
  then have "s_user s = blocks_in (concat ds)" using s(2) by (metis abs_fields(3))
  with s(1) show ?thesis by blast
qed

section \<open>Properties\<close>

text \<open>No transfer overruns the parser's buffer.\<close>

lemma tool_buffer_fits:
  assumes "\<forall>d \<in> set ds. length d \<le> URB_SIZE_MAX"
  shows "\<forall>k < length ds. length (uc_pbuf (foldl (parse_push sink) (usbcap_start u) (take k ds))) + length (ds ! k) \<le> PBUF_SIZE"
proof (intro allI impI)
  fix k
  assume "k < length ds"
  then have "length (ds ! k) \<le> URB_SIZE_MAX" using assms by simp
  moreover have "length (uc_pbuf (foldl (parse_push sink) (usbcap_start u) (take k ds))) < 16 + 4 * 4092" unfolding tool_run by (rule parse_left)
  ultimately show "length (uc_pbuf (foldl (parse_push sink) (usbcap_start u) (take k ds))) + length (ds ! k) \<le> PBUF_SIZE"
    by (simp add: PBUF_SIZE_def URB_SIZE_MAX_def)
qed

text \<open>
  The frame statistics of \<open>usbcap_fast\<close>: when a payload holds whole frames, the records and the flagged
  packets are counted exactly. The walk does not remember that it is inside a status frame, though: if a
  status frame is cut by the end of a payload, the rest of it is taken for a frame, and errors are
  counted that no frame has.
\<close>

theorem stats_whole_frames:
  assumes "\<forall>f \<in> set fs. frame_ok f" and "u = stats_push stats_start (frames_bytes t fs)"
  shows "fs_rec_total u = of_nat (length (List.map_filter data_flags fs))
    \<and> fs_pkts_ovf u = of_nat (length (filter fst (List.map_filter data_flags fs)))
    \<and> fs_pkts_crc u = of_nat (length (filter (fst \<circ> snd) (List.map_filter data_flags fs)))
    \<and> fs_pkts_derr u = of_nat (length (filter (snd \<circ> snd) (List.map_filter data_flags fs)))
    \<and> (let bs = frames_bytes 0 [DataFrame False 0 False False False 0 [0, 0, 0], StatusFrame False 0x80 0 False False 0,
              DataFrame False 0x3807 False False False 0 [0, 0, 0]];
          v = stats_push (stats_push stats_start (take 12 bs)) (drop 12 bs)
       in length bs = 24 \<and> fs_pkts_ovf v = 1 \<and> fs_pkts_crc v = 1 \<and> fs_pkts_derr v = 1)"
proof -
  have "\<not> fs_faligned stats_start" "fs_rec_total stats_start = 0" "fs_pkts_ovf stats_start = 0" "fs_pkts_crc stats_start = 0" "fs_pkts_derr stats_start = 0"
    by (simp_all add: stats_start_def)
  moreover have "let bs = frames_bytes 0 [DataFrame False 0 False False False 0 [0, 0, 0], StatusFrame False 0x80 0 False False 0,
              DataFrame False 0x3807 False False False 0 [0, 0, 0]];
          v = stats_push (stats_push stats_start (take 12 bs)) (drop 12 bs)
       in length bs = 24 \<and> fs_pkts_ovf v = 1 \<and> fs_pkts_crc v = 1 \<and> fs_pkts_derr v = 1" by code_simp
  ultimately show ?thesis using stats_frames [OF assms(1) _ assms(2)] by simp
qed

theorem stats_whole_frames_witness:
  "fs_rec_total (stats_push stats_start (frames_bytes 0 [DataFrame False 5 True False False 0 [9], StatusFrame False 6 0 False False 0])) = 1
    \<and> fs_pkts_ovf (stats_push stats_start (frames_bytes 0 [DataFrame False 5 True False False 0 [9], StatusFrame False 6 0 False False 0])) = 1"
proof -
  have "\<forall>f \<in> set [DataFrame False 5 True False False 0 [9], StatusFrame False 6 0 False False 0]. frame_ok f" by simp
  from stats_whole_frames [OF this refl, of 0] show ?thesis by (simp add: Let_def)
qed

end
