(* ===== verification/Fast_Writer.thy ===== *)
theory Fast_Writer
  imports Usbcap Ring "HOL-Library.Multiset"
begin

text \<open>
  The writer thread of \<open>tools/usbcap_fast.c\<close>: the event thread (\<open>emit\<close>, \<open>flush_cur\<close> and the end of \<open>main\<close>) copies
  payloads into chunks of 1 MiB from a pool of 64 buffers and queues them, \<open>writer_thread\<close> moves queued chunks
  to the file. Steps are critical sections or the work between them and interleave freely; \<open>fwrite\<close> may write
  less than it is asked for, and sleeping threads may wake spuriously. The free buffers are a stack, top
  first. \<open>fw_todo\<close> are the payloads the parser will still emit. The file is open (\<open>out\<close> is not NULL); without one \<open>emit\<close> does nothing.
\<close>

section \<open>Definitions\<close>

definition FAST_SLOTS :: nat where "FAST_SLOTS = 64"
definition FAST_CHUNK :: nat where "FAST_CHUNK = 2 ^ 20"

text \<open>Where \<open>flush_cur\<close> returns to: the loop of \<open>emit\<close> with the bytes left, or the end of \<open>main\<close>.\<close>

datatype emit_cont = EmitRest bytes | EndFlush

datatype emit_pc =
    ENext | EWrite bytes | EAlloc bytes | EAllocSleep bytes
  | EFlush emit_cont | ENonfullSleep emit_cont | EStop | EJoin

datatype thread_pc = TReady | TWait | TWrite nat nat | TFree nat | TDone

record fast_wq =
  fw_mem :: "nat \<Rightarrow> bytes"
  fw_cur :: "nat option"
  fw_cur_len :: nat
  fw_q :: "(nat \<times> nat) ring"
  fw_free :: "nat list"
  fw_stop :: bool
  fw_err :: bool
  fw_file :: bytes
  fw_todo :: "bytes list"
  fw_prod :: emit_pc
  fw_writer :: thread_pc

definition fast_wq_init :: "bytes list \<Rightarrow> fast_wq" where
  "fast_wq_init ds =
     \<lparr>fw_mem = (\<lambda>_. replicate FAST_CHUNK 0), fw_cur = None, fw_cur_len = 0, fw_q = ring_empty (0, 0),
      fw_free = rev [0..<FAST_SLOTS], fw_stop = False, fw_err = False, fw_file = [], fw_todo = ds,
      fw_prod = ENext, fw_writer = TReady\<rparr>"

text \<open>The condition variables \<open>wq_nonempty\<close> (writer), \<open>wq_nonfull\<close> and \<open>wq_free\<close> (event thread).\<close>

definition signal_nonempty :: "fast_wq \<Rightarrow> fast_wq" where
  "signal_nonempty w = (if fw_writer w = TWait then w\<lparr>fw_writer := TReady\<rparr> else w)"

definition signal_nonfull :: "fast_wq \<Rightarrow> fast_wq" where
  "signal_nonfull w = (case fw_prod w of ENonfullSleep k \<Rightarrow> w\<lparr>fw_prod := EFlush k\<rparr> | _ \<Rightarrow> w)"

definition signal_free :: "fast_wq \<Rightarrow> fast_wq" where
  "signal_free w = (case fw_prod w of EAllocSleep d \<Rightarrow> w\<lparr>fw_prod := EAlloc d\<rparr> | _ \<Rightarrow> w)"

definition buf_put_free :: "nat \<Rightarrow> fast_wq \<Rightarrow> fast_wq" where
  "buf_put_free b w = signal_free (w\<lparr>fw_free := b # fw_free w\<rparr>)"

fun flushed :: "emit_cont \<Rightarrow> emit_pc" where
  "flushed (EmitRest d) = EWrite d"
| "flushed EndFlush = EStop"

definition flush_cur :: "emit_cont \<Rightarrow> fast_wq \<Rightarrow> fast_wq" where
  "flush_cur k w =
     (case fw_cur w of
        None \<Rightarrow> w\<lparr>fw_prod := flushed k\<rparr>
      | Some b \<Rightarrow>
          if fw_cur_len w = 0 then (buf_put_free b w)\<lparr>fw_cur := None, fw_prod := flushed k\<rparr>
          else if ring_count (fw_q w) = FAST_SLOTS \<and> \<not> fw_stop w then w\<lparr>fw_prod := ENonfullSleep k\<rparr>
          else if fw_stop w then (buf_put_free b w)\<lparr>fw_cur := None, fw_cur_len := 0, fw_prod := flushed k\<rparr>
          else signal_nonempty (w\<lparr>fw_q := ring_put FAST_SLOTS (b, fw_cur_len w) (fw_q w), fw_cur := None, fw_cur_len := 0,
                                  fw_prod := flushed k\<rparr>))"

text \<open>\<open>emit\<close>: its first test, the body of its loop, and taking a buffer from the pool.\<close>

definition emit_call :: "fast_wq \<Rightarrow> fast_wq" where
  "emit_call w =
     (case fw_todo w of
        [] \<Rightarrow> w\<lparr>fw_prod := EFlush EndFlush\<rparr>
      | d # ds \<Rightarrow> w\<lparr>fw_todo := ds, fw_prod := (if fw_err w then ENext else EWrite d)\<rparr>)"

definition emit_copy :: "bytes \<Rightarrow> fast_wq \<Rightarrow> fast_wq" where
  "emit_copy d w =
     (if d = [] then w\<lparr>fw_prod := ENext\<rparr>
      else case fw_cur w of
        None \<Rightarrow> w\<lparr>fw_prod := EAlloc d\<rparr>
      | Some b \<Rightarrow>
          (let k = min (length d) (FAST_CHUNK - fw_cur_len w);
               w = w\<lparr>fw_mem := (fw_mem w)(b := mem_put (fw_cur_len w) (take k d) (fw_mem w b)), fw_cur_len := fw_cur_len w + k\<rparr>
           in w\<lparr>fw_prod := (if fw_cur_len w = FAST_CHUNK then EFlush (EmitRest (drop k d)) else EWrite (drop k d))\<rparr>))"

definition emit_alloc :: "bytes \<Rightarrow> fast_wq \<Rightarrow> fast_wq" where
  "emit_alloc d w =
     (if fw_free w = [] \<and> \<not> fw_stop w then w\<lparr>fw_prod := EAllocSleep d\<rparr>
      else if fw_stop w \<or> fw_free w = [] then w\<lparr>fw_prod := ENext\<rparr>
      else w\<lparr>fw_free := tl (fw_free w), fw_cur := Some (hd (fw_free w)), fw_cur_len := 0, fw_prod := EWrite d\<rparr>)"

text \<open>The end of \<open>main\<close>, after its \<open>flush_cur\<close>.\<close>

definition fast_stop :: "fast_wq \<Rightarrow> fast_wq" where
  "fast_stop w = signal_nonfull (signal_nonempty (w\<lparr>fw_stop := True, fw_prod := EJoin\<rparr>))"

definition emit_step :: "fast_wq \<Rightarrow> fast_wq option" where
  "emit_step w =
     (case fw_prod w of
        ENext \<Rightarrow> Some (emit_call w)
      | EWrite d \<Rightarrow> Some (emit_copy d w)
      | EAlloc d \<Rightarrow> Some (emit_alloc d w)
      | EFlush k \<Rightarrow> Some (flush_cur k w)
      | EStop \<Rightarrow> Some (fast_stop w)
      | _ \<Rightarrow> None)"

text \<open>One step of \<open>writer_thread\<close>; \<open>n\<close> limits what \<open>fwrite\<close> writes.\<close>

definition writer_thread :: "nat \<Rightarrow> fast_wq \<Rightarrow> fast_wq option" where
  "writer_thread n w =
     (case fw_writer w of
        TReady \<Rightarrow>
          if ring_count (fw_q w) = 0 \<and> \<not> fw_stop w then Some (w\<lparr>fw_writer := TWait\<rparr>)
          else if ring_count (fw_q w) = 0 then Some (w\<lparr>fw_writer := TDone\<rparr>)
          else let it = ring_front (fw_q w)
               in Some (signal_nonfull (w\<lparr>fw_q := ring_rest FAST_SLOTS (fw_q w), fw_writer := TWrite (fst it) (snd it)\<rparr>))
      | TWrite b l \<Rightarrow>
          if fw_err w then Some (w\<lparr>fw_writer := TFree b\<rparr>)
          else let k = min n l
               in Some (w\<lparr>fw_file := fw_file w @ take k (fw_mem w b), fw_err := (k \<noteq> l), fw_writer := TFree b\<rparr>)
      | TFree b \<Rightarrow> Some ((buf_put_free b w)\<lparr>fw_writer := TReady\<rparr>)
      | TWait \<Rightarrow> None
      | TDone \<Rightarrow> None)"

inductive fast_step :: "fast_wq \<Rightarrow> fast_wq \<Rightarrow> bool" where
  writer: "writer_thread n w = Some w' \<Longrightarrow> fast_step w w'"
| emit: "emit_step w = Some w' \<Longrightarrow> fast_step w w'"

inductive fast_reach :: "bytes list \<Rightarrow> fast_wq \<Rightarrow> bool" for ds where
  init: "fast_reach ds (fast_wq_init ds)"
| step: "fast_reach ds w \<Longrightarrow> fast_step w w' \<Longrightarrow> fast_reach ds w'"
| spurious_nonempty: "fast_reach ds w \<Longrightarrow> fast_reach ds (signal_nonempty w)"
| spurious_nonfull: "fast_reach ds w \<Longrightarrow> fast_reach ds (signal_nonfull w)"
| spurious_free: "fast_reach ds w \<Longrightarrow> fast_reach ds (signal_free w)"

text \<open>\<open>pthread_join\<close> has returned.\<close>

definition fast_ended :: "fast_wq \<Rightarrow> bool" where
  "fast_ended w \<longleftrightarrow> fw_prod w = EJoin \<and> fw_writer w = TDone"

section \<open>Invariant\<close>

fun thread_bufs :: "thread_pc \<Rightarrow> nat list" where
  "thread_bufs (TWrite b l) = [b]"
| "thread_bufs (TFree b) = [b]"
| "thread_bufs _ = []"

abbreviation fast_items :: "fast_wq \<Rightarrow> (nat \<times> nat) list" where
  "fast_items w \<equiv> ring_view FAST_SLOTS (fw_q w)"

definition fast_bufs :: "fast_wq \<Rightarrow> nat list" where
  "fast_bufs w = fw_free w @ map fst (fast_items w) @ (case fw_cur w of None \<Rightarrow> [] | Some b \<Rightarrow> [b]) @ thread_bufs (fw_writer w)"

definition fast_chunk :: "(nat \<Rightarrow> bytes) \<Rightarrow> nat \<times> nat \<Rightarrow> bytes" where
  "fast_chunk m it = take (snd it) (m (fst it))"

fun thread_bytes :: "(nat \<Rightarrow> bytes) \<Rightarrow> thread_pc \<Rightarrow> bytes" where
  "thread_bytes m (TWrite b l) = fast_chunk m (b, l)"
| "thread_bytes m _ = []"

fun cur_bytes :: "(nat \<Rightarrow> bytes) \<Rightarrow> nat option \<Rightarrow> nat \<Rightarrow> bytes" where
  "cur_bytes m None l = []"
| "cur_bytes m (Some b) l = fast_chunk m (b, l)"

fun emit_bytes :: "emit_pc \<Rightarrow> bytes" where
  "emit_bytes (EWrite d) = d"
| "emit_bytes (EAlloc d) = d"
| "emit_bytes (EAllocSleep d) = d"
| "emit_bytes (EFlush (EmitRest d)) = d"
| "emit_bytes (ENonfullSleep (EmitRest d)) = d"
| "emit_bytes _ = []"

text \<open>Everything emitted, in order, wherever it is: file, writer, queue, current chunk, still to be copied.\<close>

definition fast_trace :: "fast_wq \<Rightarrow> bytes" where
  "fast_trace w = fw_file w @ thread_bytes (fw_mem w) (fw_writer w) @ concat (map (fast_chunk (fw_mem w)) (fast_items w))
     @ cur_bytes (fw_mem w) (fw_cur w) (fw_cur_len w) @ emit_bytes (fw_prod w) @ concat (fw_todo w)"

definition fast_bufs_ok :: "fast_wq \<Rightarrow> bool" where
  "fast_bufs_ok w \<longleftrightarrow> ring_inv FAST_SLOTS (fw_q w) \<and> mset (fast_bufs w) = mset [0..<FAST_SLOTS]
     \<and> (\<forall>b. length (fw_mem w b) = FAST_CHUNK)"

definition emit_ok :: "fast_wq \<Rightarrow> bool" where
  "emit_ok w \<longleftrightarrow> fw_cur_len w \<le> FAST_CHUNK \<and> (fw_cur w = None \<longrightarrow> fw_cur_len w = 0) \<and>
     (case fw_prod w of
        ENext \<Rightarrow> fw_cur_len w < FAST_CHUNK
      | EWrite d \<Rightarrow> fw_cur_len w < FAST_CHUNK
      | EAlloc d \<Rightarrow> fw_cur w = None \<and> d \<noteq> []
      | EAllocSleep d \<Rightarrow> fw_cur w = None \<and> d \<noteq> [] \<and> fw_free w = []
      | EFlush k \<Rightarrow> k = EndFlush \<longrightarrow> fw_todo w = []
      | ENonfullSleep k \<Rightarrow> False
      | EStop \<Rightarrow> fw_cur w = None \<and> fw_todo w = []
      | EJoin \<Rightarrow> fw_stop w \<and> fw_cur w = None \<and> fw_todo w = []) \<and> (fw_stop w \<longrightarrow> fw_prod w = EJoin)"

definition thread_ok :: "fast_wq \<Rightarrow> bool" where
  "thread_ok w \<longleftrightarrow>
     (case fw_writer w of
        TWait \<Rightarrow> ring_count (fw_q w) = 0 \<and> \<not> fw_stop w
      | TDone \<Rightarrow> ring_count (fw_q w) = 0 \<and> fw_stop w
      | _ \<Rightarrow> True)"

definition fast_inv :: "bytes list \<Rightarrow> fast_wq \<Rightarrow> bool" where
  "fast_inv ds w \<longleftrightarrow> fast_bufs_ok w \<and> emit_ok w \<and> thread_ok w \<and> (\<not> fw_err w \<longrightarrow> fast_trace w = concat ds)"

lemma fast_init_inv: "fast_inv ds (fast_wq_init ds)"
  by (simp add: fast_inv_def fast_wq_init_def fast_bufs_ok_def fast_bufs_def emit_ok_def thread_ok_def fast_trace_def
      FAST_SLOTS_def FAST_CHUNK_def)

lemma fast_invI:
  "fast_inv ds w \<Longrightarrow> fast_bufs_ok v \<Longrightarrow> emit_ok v \<Longrightarrow> thread_ok v \<Longrightarrow> (\<not> fw_err v \<Longrightarrow> \<not> fw_err w) \<Longrightarrow>
     (\<not> fw_err v \<Longrightarrow> fast_trace v = fast_trace w) \<Longrightarrow> fast_inv ds v"
  by (auto simp: fast_inv_def)

lemma fast_invD:
  assumes "fast_inv ds w"
  shows "fast_bufs_ok w" and "emit_ok w" and "thread_ok w" and "ring_inv FAST_SLOTS (fw_q w)"
  using assms by (simp_all add: fast_inv_def fast_bufs_ok_def)

lemma fast_count:
  assumes "fast_bufs_ok w"
  shows "length (fw_free w) + ring_count (fw_q w) + (case fw_cur w of None \<Rightarrow> 0 | Some b \<Rightarrow> 1)
    + length (thread_bufs (fw_writer w)) = FAST_SLOTS"
  using assms mset_eq_length [of "fast_bufs w" "[0..<FAST_SLOTS]"] by (auto simp: fast_bufs_ok_def fast_bufs_def split: option.splits)

lemma fast_distinct: "fast_bufs_ok w \<Longrightarrow> distinct (fast_bufs w)"
  using mset_eq_imp_distinct_iff [of "fast_bufs w" "[0..<FAST_SLOTS]"] by (simp add: fast_bufs_ok_def)

section \<open>Signals\<close>

lemma signal_nonempty_fields [simp]:
  "fw_mem (signal_nonempty w) = fw_mem w" "fw_cur (signal_nonempty w) = fw_cur w" "fw_cur_len (signal_nonempty w) = fw_cur_len w"
  "fw_q (signal_nonempty w) = fw_q w" "fw_free (signal_nonempty w) = fw_free w" "fw_stop (signal_nonempty w) = fw_stop w"
  "fw_err (signal_nonempty w) = fw_err w" "fw_file (signal_nonempty w) = fw_file w" "fw_todo (signal_nonempty w) = fw_todo w"
  "fw_prod (signal_nonempty w) = fw_prod w" "thread_bufs (fw_writer (signal_nonempty w)) = thread_bufs (fw_writer w)"
  "thread_bytes m (fw_writer (signal_nonempty w)) = thread_bytes m (fw_writer w)"
  by (simp_all add: signal_nonempty_def)

lemma signal_free_fields [simp]:
  "fw_mem (signal_free w) = fw_mem w" "fw_cur (signal_free w) = fw_cur w" "fw_cur_len (signal_free w) = fw_cur_len w"
  "fw_q (signal_free w) = fw_q w" "fw_free (signal_free w) = fw_free w" "fw_stop (signal_free w) = fw_stop w"
  "fw_err (signal_free w) = fw_err w" "fw_file (signal_free w) = fw_file w" "fw_todo (signal_free w) = fw_todo w"
  "fw_writer (signal_free w) = fw_writer w" "emit_bytes (fw_prod (signal_free w)) = emit_bytes (fw_prod w)"
  by (simp_all add: signal_free_def split: emit_pc.splits)

lemma fast_signal_keeps [simp]:
  "fast_bufs_ok (signal_nonempty w) = fast_bufs_ok w" "fast_bufs_ok (signal_free w) = fast_bufs_ok w"
  "fast_trace (signal_nonempty w) = fast_trace w" "fast_trace (signal_free w) = fast_trace w"
  "thread_ok (signal_free w) = thread_ok w" "emit_ok (signal_nonempty w) = emit_ok w"
  by (simp_all add: fast_bufs_ok_def fast_bufs_def fast_trace_def thread_ok_def emit_ok_def split: thread_pc.split option.split emit_pc.split)

text \<open>The wait on \<open>wq_nonfull\<close> is never entered, so signalling it has no effect.\<close>

lemma signal_nonfull_id: "(\<And>k. fw_prod w \<noteq> ENonfullSleep k) \<Longrightarrow> signal_nonfull w = w"
  by (auto simp: signal_nonfull_def split: emit_pc.split)

lemma emit_ok_nonfull: "emit_ok w \<Longrightarrow> fw_prod w \<noteq> ENonfullSleep k"
  by (auto simp: emit_ok_def)

lemma signal_inv:
  assumes "fast_inv ds w"
  shows "fast_inv ds (signal_nonempty w)" and "fast_inv ds (signal_nonfull w)" and "fast_inv ds (signal_free w)"
proof -
  note inv = fast_invD [OF assms]
  have "thread_ok (signal_nonempty w)" using inv(3) by (cases "fw_writer w") (simp_all add: thread_ok_def signal_nonempty_def)
  then show "fast_inv ds (signal_nonempty w)" using inv by (intro fast_invI [OF assms]) simp_all
  show "fast_inv ds (signal_nonfull w)" using assms signal_nonfull_id emit_ok_nonfull [OF inv(2)] by metis
  have "emit_ok (signal_free w)" using inv(2) by (cases "fw_prod w") (simp_all add: emit_ok_def signal_free_def)
  then show "fast_inv ds (signal_free w)" using inv by (intro fast_invI [OF assms]) simp_all
qed

section \<open>The writer thread\<close>

lemma ring_pop:
  assumes "ring_inv n q" and "ring_count q \<noteq> 0"
  shows "ring_view n q = ring_front q # ring_view n (ring_rest n q)" and "ring_inv n (ring_rest n q)"
proof -
  have "ring_view n q \<noteq> []" using assms(2) length_ring_view [of n q] by fastforce
  with assms(1) show "ring_view n q = ring_front q # ring_view n (ring_rest n q)" "ring_inv n (ring_rest n q)"
    by (rule ring.view_front, intro ring.inv_rest)
qed

lemma emit_ok_cong:
  "emit_ok w \<Longrightarrow> fw_cur v = fw_cur w \<Longrightarrow> fw_cur_len v = fw_cur_len w \<Longrightarrow> fw_prod v = fw_prod w \<Longrightarrow> fw_free v = fw_free w \<Longrightarrow>
     fw_todo v = fw_todo w \<Longrightarrow> fw_stop v = fw_stop w \<Longrightarrow> emit_ok v"
  by (simp add: emit_ok_def split: emit_pc.splits)

lemma thread_pop_inv:
  assumes inv: "fast_inv ds w" and pc: "fw_writer w = TReady" and ne: "ring_count (fw_q w) \<noteq> 0"
  shows "fast_inv ds (signal_nonfull (w\<lparr>fw_q := ring_rest FAST_SLOTS (fw_q w),
    fw_writer := TWrite (fst (ring_front (fw_q w))) (snd (ring_front (fw_q w)))\<rparr>))" (is "fast_inv _ (signal_nonfull ?v)")
proof -
  note i = fast_invD [OF inv] and pop = ring_pop [OF fast_invD(4) [OF inv] ne]
  have "fast_bufs_ok ?v" using i(1) pc pop by (simp add: fast_bufs_ok_def fast_bufs_def)
  moreover have "emit_ok ?v" using i(2) by (rule emit_ok_cong) simp_all
  moreover have "fast_trace ?v = fast_trace w" using pc pop(1) by (simp add: fast_trace_def)
  ultimately have "fast_inv ds ?v" by (intro fast_invI [OF inv]) (simp_all add: thread_ok_def)
  then show ?thesis by (rule signal_inv)
qed

lemma put_free_ready:
  "(buf_put_free b w)\<lparr>fw_writer := TReady\<rparr> = signal_free (w\<lparr>fw_free := b # fw_free w, fw_writer := TReady\<rparr>)"
  by (cases "fw_prod w") (simp_all add: buf_put_free_def signal_free_def)

lemma thread_inv:
  assumes inv: "fast_inv ds w" and st: "writer_thread n w = Some w'"
  shows "fast_inv ds w'"
proof (cases "fw_writer w")
  case TReady
  show ?thesis
  proof (cases "ring_count (fw_q w) = 0")
    case True
    let ?v = "w\<lparr>fw_writer := if fw_stop w then TDone else TWait\<rparr>"
    have "emit_ok ?v" using fast_invD(2) [OF inv] by (rule emit_ok_cong) simp_all
    then have "fast_inv ds ?v" using fast_invD(1) [OF inv] TReady True
      by (intro fast_invI [OF inv]) (simp_all add: fast_bufs_ok_def fast_bufs_def thread_ok_def fast_trace_def)
    moreover have "w' = ?v" using st TReady True by (simp add: writer_thread_def split: if_splits)
    ultimately show ?thesis by simp
  next
    case False
    with st TReady thread_pop_inv [OF inv TReady False] show ?thesis by (simp add: writer_thread_def Let_def)
  qed
next
  case (TWrite b l)
  have ok: "emit_ok (w\<lparr>fw_file := f, fw_err := e, fw_writer := TFree b\<rparr>)" "fast_bufs_ok (w\<lparr>fw_file := f, fw_err := e, fw_writer := TFree b\<rparr>)"
    for f e using fast_invD(1,2) [OF inv] TWrite by (auto simp: fast_bufs_ok_def fast_bufs_def intro: emit_ok_cong)
  show ?thesis
  proof (cases "fw_err w")
    case True
    have w': "w' = w\<lparr>fw_writer := TFree b\<rparr>" using st TWrite True by (simp add: writer_thread_def)
    show ?thesis using ok [of "fw_err w" "fw_file w", simplified] True unfolding w'
      by (intro fast_invI [OF inv]) (simp_all add: thread_ok_def)
  next
    case False
    let ?k = "min n l"
    have w': "w' = w\<lparr>fw_file := fw_file w @ take ?k (fw_mem w b), fw_err := (?k \<noteq> l), fw_writer := TFree b\<rparr>"
      using st TWrite False by (simp add: writer_thread_def Let_def)
    have "fast_trace w' = fast_trace w" if "?k = l" using that TWrite unfolding w' by (simp add: fast_trace_def fast_chunk_def)
    then show ?thesis using ok False unfolding w' by (intro fast_invI [OF inv]) (simp_all add: thread_ok_def)
  qed
next
  case (TFree b)
  let ?v = "w\<lparr>fw_free := b # fw_free w, fw_writer := TReady\<rparr>"
  have "w' = signal_free ?v" using st TFree by (simp add: writer_thread_def put_free_ready)
  moreover have "fast_inv ds (signal_free ?v)"
  proof (rule fast_invI [OF inv])
    have "fast_bufs_ok ?v" using fast_invD(1) [OF inv] TFree by (simp add: fast_bufs_ok_def fast_bufs_def)
    then show "fast_bufs_ok (signal_free ?v)" by simp
    show "emit_ok (signal_free ?v)" using fast_invD(2) [OF inv] by (cases "fw_prod w") (simp_all add: emit_ok_def signal_free_def)
    have "fast_trace ?v = fast_trace w" using TFree by (simp add: fast_trace_def)
    then show "fast_trace (signal_free ?v) = fast_trace w" by simp
  qed (simp_all add: thread_ok_def)
  ultimately show ?thesis by simp
qed (use st in \<open>simp_all add: writer_thread_def\<close>)

section \<open>The event thread\<close>

lemma thread_ok_cong:
  "thread_ok w \<Longrightarrow> fw_writer v = fw_writer w \<Longrightarrow> fw_q v = fw_q w \<Longrightarrow> fw_stop v = fw_stop w \<Longrightarrow> thread_ok v"
  by (simp add: thread_ok_def split: thread_pc.splits)

text \<open>Copying into the current chunk changes no queued bytes.\<close>

lemma emit_copy_inv:
  assumes inv: "fast_inv ds w" and pc: "fw_prod w = EWrite d"
  shows "fast_inv ds (emit_copy d w)"
proof -
  note i = fast_invD [OF inv]
  consider "d = []" | "d \<noteq> []" "fw_cur w = None" | b where "d \<noteq> []" "fw_cur w = Some b" by (cases "fw_cur w") auto
  then show ?thesis
  proof cases
    case (3 b)
    let ?l = "fw_cur_len w" and ?v = "emit_copy d w"
    let ?n = "min (length d) (FAST_CHUNK - ?l)"
    let ?m = "(fw_mem w)(b := mem_put ?l (take ?n d) (fw_mem w b))"
    have v: "?v = w\<lparr>fw_mem := ?m, fw_cur_len := ?l + ?n,
        fw_prod := (if ?l + ?n = FAST_CHUNK then EFlush (EmitRest (drop ?n d)) else EWrite (drop ?n d))\<rparr>"
      using 3 by (simp add: emit_copy_def Let_def)
    have ok: "?l < FAST_CHUNK" "\<not> fw_stop w" using i(2) pc by (auto simp: emit_ok_def)
    have len: "length (fw_mem w c) = FAST_CHUNK" for c using i(1) by (simp add: fast_bufs_ok_def)
    have own: "b \<notin> fst ` set (fast_items w)" "b \<notin> set (thread_bufs (fw_writer w))"
      using fast_distinct [OF i(1)] 3 by (auto simp: fast_bufs_def)
    have items: "map (fast_chunk ?m) (fast_items w) = map (fast_chunk (fw_mem w)) (fast_items w)"
      using own(1) by (auto simp: fast_chunk_def image_iff)
    have fl: "thread_bytes ?m (fw_writer w) = thread_bytes (fw_mem w) (fw_writer w)"
      using own(2) by (cases "fw_writer w") (simp_all add: fast_chunk_def)
    have op: "take (?l + ?n) (mem_put ?l (take ?n d) (fw_mem w b)) = take ?l (fw_mem w b) @ take ?n d"
      using ok(1) len [of b] by (simp add: mem_put_def)
    show ?thesis
    proof (rule fast_invI [OF inv])
      show "fast_bufs_ok ?v" using i(1) ok len unfolding v by (auto simp: fast_bufs_ok_def fast_bufs_def)
      show "emit_ok ?v" using ok 3 unfolding v by (auto simp: emit_ok_def)
      show "thread_ok ?v" using i(3) by (rule thread_ok_cong) (simp_all add: v)
      show "fast_trace ?v = fast_trace w" using op 3 pc unfolding v by (simp add: fast_trace_def items fl fast_chunk_def)
    qed (simp_all add: v)
  qed (use i pc in \<open>auto simp: emit_copy_def fast_bufs_ok_def fast_bufs_def emit_ok_def fast_trace_def
        intro!: fast_invI [OF inv] intro: thread_ok_cong\<close>)
qed

lemma flush_cur_inv:
  assumes inv: "fast_inv ds w" and pc: "fw_prod w = EFlush k"
  shows "fast_inv ds (flush_cur k w)"
proof -
  note i = fast_invD [OF inv]
  have st: "\<not> fw_stop w" and td: "k = EndFlush \<Longrightarrow> fw_todo w = []" using i(2) pc by (auto simp: emit_ok_def)
  have pcok: "emit_bytes (flushed k) = emit_bytes (EFlush k)" by (cases k) simp_all
  have eok: "emit_ok v" if "fw_cur v = None" "fw_cur_len v = 0" "fw_prod v = flushed k" "fw_stop v = fw_stop w" "fw_todo v = fw_todo w" for v
    using that st td by (cases k) (auto simp: emit_ok_def FAST_CHUNK_def)
  show ?thesis
  proof (cases "fw_cur w")
    case None
    then have "fw_cur_len w = 0" using i(2) by (simp add: emit_ok_def)
    with None eok i pc pcok show ?thesis
      by (auto simp: flush_cur_def fast_bufs_ok_def fast_bufs_def fast_trace_def intro!: fast_invI [OF inv] intro: thread_ok_cong)
  next
    case (Some b)
    have cnt: "ring_count (fw_q w) < FAST_SLOTS" using fast_count [OF i(1)] Some by simp
    show ?thesis
    proof (cases "fw_cur_len w = 0")
      case True
      then have v: "flush_cur k w = w\<lparr>fw_free := b # fw_free w, fw_cur := None, fw_prod := flushed k\<rparr>"
        using Some pc by (simp add: flush_cur_def buf_put_free_def signal_free_def)
      show ?thesis using True Some i pc pcok eok unfolding v
        by (auto simp: fast_bufs_ok_def fast_bufs_def fast_trace_def fast_chunk_def intro!: fast_invI [OF inv] intro: thread_ok_cong)
    next
      case False
      let ?v = "w\<lparr>fw_q := ring_put FAST_SLOTS (b, fw_cur_len w) (fw_q w), fw_cur := None, fw_cur_len := 0, fw_prod := flushed k\<rparr>"
      have v: "flush_cur k w = signal_nonempty ?v" using False Some cnt st by (simp add: flush_cur_def)
      have "length (fast_items w) < FAST_SLOTS" using cnt by simp
      note put = ring.inv_put [OF i(4) this] ring.view_put [OF i(4) this]
      show ?thesis unfolding v
      proof (rule fast_invI [OF inv])
        have "fast_bufs_ok ?v" using i(1) put Some by (auto simp: fast_bufs_ok_def fast_bufs_def)
        then show "fast_bufs_ok (signal_nonempty ?v)" by simp
        show "emit_ok (signal_nonempty ?v)" using eok by simp
        show "thread_ok (signal_nonempty ?v)"
          using i(3) st by (cases "fw_writer w") (simp_all add: thread_ok_def signal_nonempty_def)
        have "fast_trace ?v = fast_trace w" using put(2) Some pc pcok by (simp add: fast_trace_def fast_chunk_def)
        then show "fast_trace (signal_nonempty ?v) = fast_trace w" by simp
      qed simp
    qed
  qed
qed

lemma emit_alloc_inv:
  assumes inv: "fast_inv ds w" and pc: "fw_prod w = EAlloc d"
  shows "fast_inv ds (emit_alloc d w)"
proof -
  note i = fast_invD [OF inv]
  have ok: "fw_cur w = None" "d \<noteq> []" "fw_cur_len w = 0" "\<not> fw_stop w" using i(2) pc by (auto simp: emit_ok_def)
  show ?thesis
  proof (cases "fw_free w")
    case Nil
    with ok i pc show ?thesis
      by (auto simp: emit_alloc_def fast_bufs_ok_def fast_bufs_def emit_ok_def fast_trace_def intro!: fast_invI [OF inv] intro: thread_ok_cong)
  next
    case (Cons b bs)
    with ok have v: "emit_alloc d w = w\<lparr>fw_free := bs, fw_cur := Some b, fw_cur_len := 0, fw_prod := EWrite d\<rparr>"
      by (simp add: emit_alloc_def)
    show ?thesis using ok i pc Cons unfolding v
      by (auto simp: fast_bufs_ok_def fast_bufs_def emit_ok_def fast_trace_def fast_chunk_def FAST_CHUNK_def
          intro!: fast_invI [OF inv] intro: thread_ok_cong)
  qed
qed

lemma fast_stop_inv:
  assumes inv: "fast_inv ds w" and pc: "fw_prod w = EStop"
  shows "fast_inv ds (fast_stop w)"
proof -
  note i = fast_invD [OF inv]
  let ?v = "w\<lparr>fw_stop := True, fw_prod := EJoin\<rparr>"
  have v: "fast_stop w = signal_nonempty ?v" unfolding fast_stop_def by (rule signal_nonfull_id) simp
  show ?thesis unfolding v
  proof (rule fast_invI [OF inv])
    have "fast_bufs_ok ?v" using i(1) by (simp add: fast_bufs_ok_def fast_bufs_def)
    then show "fast_bufs_ok (signal_nonempty ?v)" by simp
    show "emit_ok (signal_nonempty ?v)" using i(2) pc by (simp add: emit_ok_def)
    show "thread_ok (signal_nonempty ?v)" using i(3) by (cases "fw_writer w") (simp_all add: thread_ok_def signal_nonempty_def)
    have "fast_trace ?v = fast_trace w" using pc by (simp add: fast_trace_def)
    then show "fast_trace (signal_nonempty ?v) = fast_trace w" by simp
  qed simp
qed

lemma emit_call_inv:
  assumes inv: "fast_inv ds w" and pc: "fw_prod w = ENext"
  shows "fast_inv ds (emit_call w)"
  using fast_invD [OF inv] pc
  by (auto simp: emit_call_def fast_bufs_ok_def fast_bufs_def emit_ok_def fast_trace_def split: list.split
      intro!: fast_invI [OF inv] intro: thread_ok_cong)

lemma fast_reach_inv: "fast_reach ds w \<Longrightarrow> fast_inv ds w"
proof (induction rule: fast_reach.induct)
  case (step w w')
  have "fast_inv ds w'" if "emit_step w = Some w'"
    using that step.IH emit_call_inv emit_copy_inv emit_alloc_inv flush_cur_inv fast_stop_inv
    by (auto simp: emit_step_def split: emit_pc.splits)
  with step.hyps(2) step.IH show ?case by (cases rule: fast_step.cases) (auto intro: thread_inv)
qed (auto intro: fast_init_inv signal_inv)

section \<open>Work left\<close>

text \<open>
  A bound on the steps left. A byte still to be copied counts 40, a chunk in the queue 10; a wake-up
  costs one, paid by the step that signals.
\<close>

fun emit_work :: "nat option \<Rightarrow> emit_pc \<Rightarrow> nat" where
  "emit_work cur ENext = 50"
| "emit_work cur (EWrite d) = 40 * length d + (if cur = None then 55 else 51)"
| "emit_work cur (EAlloc d) = 40 * length d + 53"
| "emit_work cur (EAllocSleep d) = 40 * length d + 52"
| "emit_work cur (EFlush (EmitRest d)) = 40 * length d + 70"
| "emit_work cur (ENonfullSleep (EmitRest d)) = 40 * length d + 69"
| "emit_work cur (EFlush EndFlush) = 30"
| "emit_work cur (ENonfullSleep EndFlush) = 29"
| "emit_work cur EStop = 3"
| "emit_work cur EJoin = 0"

fun thread_work :: "thread_pc \<Rightarrow> nat" where
  "thread_work TReady = 1"
| "thread_work (TWrite b l) = 8"
| "thread_work (TFree b) = 6"
| "thread_work _ = 0"

definition fast_work :: "fast_wq \<Rightarrow> nat" where
  "fast_work w = emit_work (fw_cur w) (fw_prod w) + (\<Sum>d \<leftarrow> fw_todo w. 40 * length d + 6) + 10 * ring_count (fw_q w)
     + thread_work (fw_writer w)"

lemma signal_work:
  "fast_work (signal_nonempty w) \<le> fast_work w + 1" "fast_work (signal_free w) \<le> fast_work w + 1"
  by (simp_all add: fast_work_def signal_nonempty_def signal_free_def split: emit_pc.split)

lemma thread_step_work:
  assumes inv: "fast_inv ds w" and st: "writer_thread n w = Some w'"
  shows "fast_work w' < fast_work w"
proof (cases "fw_writer w")
  case TReady
  let ?v = "w\<lparr>fw_q := ring_rest FAST_SLOTS (fw_q w), fw_writer := TWrite (fst (ring_front (fw_q w))) (snd (ring_front (fw_q w)))\<rparr>"
  have "signal_nonfull ?v = ?v" using emit_ok_nonfull [OF fast_invD(2) [OF inv]] by (intro signal_nonfull_id) simp
  with st TReady show ?thesis
    by (auto simp: writer_thread_def Let_def fast_work_def ring_rest_def split: if_splits)
next
  case (TFree b)
  let ?v = "w\<lparr>fw_free := b # fw_free w, fw_writer := TReady\<rparr>"
  have "w' = signal_free ?v" using st TFree by (simp add: writer_thread_def put_free_ready)
  then have "fast_work w' \<le> fast_work ?v + 1" using signal_work(2) by simp
  moreover have "fast_work ?v + 5 = fast_work w" using TFree by (simp add: fast_work_def)
  ultimately show ?thesis by simp
qed (use st in \<open>auto simp: writer_thread_def fast_work_def Let_def split: if_splits\<close>)

lemma flush_cur_work:
  assumes inv: "fast_inv ds w" and pc: "fw_prod w = EFlush k"
  shows "fast_work (flush_cur k w) < fast_work w"
proof -
  note i = fast_invD [OF inv]
  have st: "\<not> fw_stop w" using i(2) pc by (auto simp: emit_ok_def)
  have le: "fast_work (signal_nonempty v) < fast_work w" if "fast_work v + 2 \<le> fast_work w" for v
    using that signal_work(1) [of v] by simp
  show ?thesis
  proof (cases "fw_cur w")
    case None
    with pc show ?thesis by (cases k) (simp_all add: flush_cur_def fast_work_def)
  next
    case (Some b)
    have cnt: "ring_count (fw_q w) < FAST_SLOTS" using fast_count [OF i(1)] Some by simp
    show ?thesis
    proof (cases "fw_cur_len w = 0")
      case True
      with Some pc show ?thesis by (cases k) (simp_all add: flush_cur_def fast_work_def buf_put_free_def signal_free_def)
    next
      case False
      let ?v = "w\<lparr>fw_q := ring_put FAST_SLOTS (b, fw_cur_len w) (fw_q w), fw_cur := None, fw_cur_len := 0, fw_prod := flushed k\<rparr>"
      have "flush_cur k w = signal_nonempty ?v" using False Some cnt st by (simp add: flush_cur_def)
      moreover have "fast_work ?v + 2 \<le> fast_work w" using pc by (cases k) (simp_all add: fast_work_def ring_put_def)
      ultimately show ?thesis using le by simp
    qed
  qed
qed

lemma emit_copy_work:
  assumes inv: "fast_inv ds w" and pc: "fw_prod w = EWrite d"
  shows "fast_work (emit_copy d w) < fast_work w"
proof (cases "d = [] \<or> fw_cur w = None")
  case False
  then obtain b where b: "fw_cur w = Some b" and d: "d \<noteq> []" by auto
  define n where "n = min (length d) (FAST_CHUNK - fw_cur_len w)"
  have "fw_cur_len w < FAST_CHUNK" using fast_invD(2) [OF inv] pc by (auto simp: emit_ok_def)
  then have n: "0 < n" "n \<le> length d" using d by (simp_all add: n_def)
  with b d pc show ?thesis by (auto simp: emit_copy_def Let_def fast_work_def n_def [symmetric])
qed (use pc in \<open>auto simp: emit_copy_def fast_work_def\<close>)

lemma emit_step_work:
  assumes inv: "fast_inv ds w" and st: "emit_step w = Some w'"
  shows "fast_work w' < fast_work w"
proof (cases "fw_prod w")
  case ENext
  with st show ?thesis by (auto simp: emit_step_def emit_call_def fast_work_def split: list.split)
next
  case (EAlloc d)
  moreover have "fw_cur w = None" "\<not> fw_stop w" using fast_invD(2) [OF inv] EAlloc by (auto simp: emit_ok_def)
  ultimately show ?thesis using st by (auto simp: emit_step_def emit_alloc_def fast_work_def)
next
  case EStop
  let ?v = "w\<lparr>fw_stop := True, fw_prod := EJoin\<rparr>"
  have "w' = signal_nonempty ?v" using st EStop by (simp add: emit_step_def fast_stop_def signal_nonfull_id)
  moreover have "fast_work ?v + 3 = fast_work w" using EStop by (simp add: fast_work_def)
  ultimately show ?thesis using signal_work(1) [of ?v] by simp
qed (use st emit_copy_work [OF inv] flush_cur_work [OF inv] in \<open>auto simp: emit_step_def\<close>)

text \<open>A state in which neither thread can move is the end.\<close>

lemma fast_stuck:
  assumes inv: "fast_inv ds w" and no: "\<nexists>w'. fast_step w w'"
  shows "fast_ended w"
proof -
  note i = fast_invD [OF inv]
  have e: "emit_step w = None" and t: "writer_thread 0 w = None" using no fast_step.intros by (metis not_Some_eq)+
  have "fw_writer w = TWait \<or> fw_writer w = TDone"
    using t by (auto simp: writer_thread_def Let_def split: thread_pc.splits if_splits)
  then have w: "ring_count (fw_q w) = 0" "thread_bufs (fw_writer w) = []" "fw_writer w = TDone \<longleftrightarrow> fw_stop w"
    using i(3) by (auto simp: thread_ok_def)
  have "fw_prod w \<noteq> EAllocSleep d" for d
  proof
    assume "fw_prod w = EAllocSleep d"
    then have "fw_free w = []" "fw_cur w = None" using i(2) by (auto simp: emit_ok_def)
    then show False using fast_count [OF i(1)] w by (simp add: FAST_SLOTS_def)
  qed
  then have "fw_prod w = EJoin" using e emit_ok_nonfull [OF i(2)] by (cases "fw_prod w") (auto simp: emit_step_def)
  moreover from this have "fw_stop w" using i(2) by (simp add: emit_ok_def)
  ultimately show ?thesis using w(3) by (simp add: fast_ended_def)
qed

lemma fast_ended_facts:
  assumes inv: "fast_inv ds w" and e: "fast_ended w"
  shows "mset (fw_free w) = mset [0..<FAST_SLOTS]" and "\<not> fw_err w \<Longrightarrow> fw_file w = concat ds"
proof -
  note i = fast_invD [OF inv]
  have f: "fw_cur w = None" "fw_todo w = []" "fast_items w = []" "fw_prod w = EJoin" "fw_writer w = TDone"
    using i(2,3) e by (auto simp: fast_ended_def emit_ok_def thread_ok_def ring_view_def)
  then show "mset (fw_free w) = mset [0..<FAST_SLOTS]" using i(1) by (simp add: fast_bufs_ok_def fast_bufs_def)
  assume "\<not> fw_err w"
  then show "fw_file w = concat ds" using inv f by (simp add: fast_inv_def fast_trace_def)
qed

section \<open>Complete runs\<close>

lemma fast_payloads:
  "snd (uc_user (foldl (parse_push fast_sink) (usbcap_start (v, [])) ds)) = filter (\<lambda>b. b \<noteq> []) (blocks_in (concat ds))"
proof -
  have "snd (fold fast_sink bs u) = snd u @ bs" for bs u by (induction bs arbitrary: u) (simp_all add: fast_sink_def)
  then show ?thesis
    using parse_finds [of fast_sink "(usbcap_start (v, []))\<lparr>uc_pbuf := concat ds\<rparr>"] unfolding tool_run by (simp add: usbcap_start_def)
qed

text \<open>
  In every reachable state the free stack stays within its 64 entries and the wait for a queue slot is not
  entered; every step decreases the work left; only the end leaves no step to make; and there every buffer is
  back in the pool and the file, if no write fell short, holds what was emitted.
\<close>

theorem fast_writer_complete:
  assumes "fast_reach ds w"
  shows "length (fw_free w) \<le> 64 \<and> (\<forall>k. fw_prod w \<noteq> ENonfullSleep k)
    \<and> (\<forall>w'. fast_step w w' \<longrightarrow> fast_work w' < fast_work w) \<and> ((\<nexists>w'. fast_step w w') \<longrightarrow> fast_ended w)
    \<and> (fast_ended w \<longrightarrow> mset (fw_free w) = mset [0..<64] \<and> (\<not> fw_err w \<longrightarrow> fw_file w = concat ds))"
proof -
  have inv: "fast_inv ds w" using assms by (rule fast_reach_inv)
  have "length (fw_free w) \<le> 64" using fast_count [OF fast_invD(1) [OF inv]] by (simp add: FAST_SLOTS_def)
  moreover have "fast_work w' < fast_work w" if "fast_step w w'" for w'
    using that emit_step_work [OF inv] thread_step_work [OF inv] by (cases rule: fast_step.cases) auto
  ultimately show ?thesis
    using emit_ok_nonfull [OF fast_invD(2) [OF inv]] fast_stuck [OF inv] fast_ended_facts [OF inv] by (auto simp: FAST_SLOTS_def)
qed

text \<open>A run to the end: \<open>True\<close> is a step of the event thread, \<open>False\<close> one of the writer.\<close>

fun schedule :: "bool list \<Rightarrow> fast_wq \<Rightarrow> fast_wq option" where
  "schedule [] w = Some w"
| "schedule (b # bs) w = Option.bind (if b then emit_step w else writer_thread FAST_CHUNK w) (schedule bs)"

lemma schedule_reach: "fast_reach ds w \<Longrightarrow> schedule bs w = Some w' \<Longrightarrow> fast_reach ds w'"
proof (induction bs arbitrary: w)
  case (Cons b bs)
  from Cons.prems(2) obtain v where v: "(if b then emit_step w else writer_thread FAST_CHUNK w) = Some v" "schedule bs v = Some w'"
    by (auto simp: Option.bind_eq_Some_conv)
  then have "fast_step w v" by (auto split: if_splits intro: fast_step.intros)
  with Cons v show ?case by (blast intro: fast_reach.step)
qed simp

definition demo_block :: bytes where
  "demo_block = blk_encode (7, 0, 0, [1, 2, 3, 4])"

lemma demo_payloads: "snd (uc_user (foldl (parse_push fast_sink) (usbcap_start (stats_start, [])) [demo_block])) = [[1, 2, 3, 4]]"
proof -
  have "blk_ok (7, 0, 0, [1, 2, 3, 4])" by simp presburger
  from blocks_encode [OF this, of "[]"] show ?thesis unfolding fast_payloads demo_block_def by (simp add: blocks_short)
qed

lemma demo_end:
  "\<exists>w. schedule [True, True, True, True, True, True, True, False, False, False, True, False] (fast_wq_init [[1, 2, 3, 4]]) = Some w
     \<and> fast_ended w \<and> \<not> fw_err w \<and> fw_file w = [1, 2, 3, 4]"
proof -
  have n: "4 < FAST_CHUNK" "FAST_SLOTS = Suc 63" by (simp_all add: FAST_CHUNK_def FAST_SLOTS_def)
  then have m: "Suc (Suc (Suc (Suc 0))) \<le> FAST_CHUNK" "Suc (Suc (Suc (Suc 0))) \<noteq> FAST_CHUNK" by simp_all
  show ?thesis
    by (simp add: fast_wq_init_def n m emit_step_def emit_call_def emit_copy_def emit_alloc_def flush_cur_def fast_stop_def
        writer_thread_def Let_def buf_put_free_def signal_nonempty_def signal_nonfull_def signal_free_def
        ring_empty_def ring_put_def ring_front_def ring_rest_def fast_ended_def mem_put_def)
qed

end
