(* ===== verification/Tool_Sessions.thy ===== *)
theory Tool_Sessions
  imports Fast_Writer Extcap
begin

text \<open>
  The main programs of \<open>tools/usbcap.c\<close> and \<open>tools/usbcap_fast.c\<close>: command line, startup commands, the transfer pool,
  the capture loop and the orderly end. libusb, the clock and \<open>fopen\<close> are the table \<open>tool_lib\<close> over the state \<open>'d\<close>
  of the device; \<open>tb_window\<close> is the number of rounds the clock allows the waiting loop with the given number. A call
  that handles events, a synchronous transfer among them, returns the completions it handles, each with its
  status, its bytes and libusb's answer to a resubmission. \<open>tr_sent\<close> lists the packets sent and \<open>tr_log\<close> the
  completions handled. Printing, the measured times and the injected stall are not modelled.
\<close>

section \<open>Definitions\<close>

subsection \<open>libusb\<close>

type_synonym tool_event = "xfer_status \<times> bytes \<times> bool"

record 'd tool_lib =
  tb_init :: "'d \<Rightarrow> bool \<times> 'd"
  tb_open :: "'d \<Rightarrow> bool \<times> 'd"
  tb_claim :: "'d \<Rightarrow> bool \<times> 'd"
  tb_fopen :: "string \<Rightarrow> 'd \<Rightarrow> bool \<times> 'd"
  tb_out :: "bytes \<Rightarrow> 'd \<Rightarrow> int \<times> int \<times> tool_event list \<times> 'd"
  tb_submit :: "nat \<Rightarrow> nat \<Rightarrow> 'd \<Rightarrow> bool \<times> 'd"
  tb_events :: "'d \<Rightarrow> tool_event list \<times> 'd"
  tb_cancel :: "nat \<Rightarrow> 'd \<Rightarrow> 'd"
  tb_window :: "nat \<Rightarrow> 'd \<Rightarrow> nat"

record ('d, 'c) tool_run =
  tr_dev :: 'd
  tr_cap :: 'c
  tr_sent :: "bytes list"
  tr_log :: "tool_event list"

text \<open>The completion callback of the tool on a list of completions.\<close>

definition dispatch :: "(tool_event \<Rightarrow> 'c \<Rightarrow> 'c) \<Rightarrow> tool_event list \<Rightarrow> ('d, 'c) tool_run \<Rightarrow> ('d, 'c) tool_run" where
  "dispatch cb evs r = r\<lparr>tr_cap := fold cb evs (tr_cap r), tr_log := tr_log r @ evs\<rparr>"

definition run_out :: "'d tool_lib \<Rightarrow> (tool_event \<Rightarrow> 'c \<Rightarrow> 'c) \<Rightarrow> bytes \<Rightarrow> ('d, 'c) tool_run \<Rightarrow> int \<times> int \<times> ('d, 'c) tool_run" where
  "run_out lib cb pkt r =
     (let (rc, n, evs, d) = tb_out lib pkt (tr_dev r) in (rc, n, dispatch cb evs (r\<lparr>tr_dev := d, tr_sent := tr_sent r @ [pkt]\<rparr>)))"

definition tool_cmd :: "'d tool_lib \<Rightarrow> (tool_event \<Rightarrow> 'c \<Rightarrow> 'c) \<Rightarrow> u32 \<Rightarrow> nat \<Rightarrow> u32 \<Rightarrow> ('d, 'c) tool_run \<Rightarrow> ('d, 'c) tool_run" where
  "tool_cmd lib cb seq cid param r = snd (tool_send_cmd (run_out lib cb) seq (of_nat cid) param r)"

definition handle_events :: "'d tool_lib \<Rightarrow> (tool_event \<Rightarrow> 'c \<Rightarrow> 'c) \<Rightarrow> ('d, 'c) tool_run \<Rightarrow> ('d, 'c) tool_run" where
  "handle_events lib cb r = (let (evs, d) = tb_events lib (tr_dev r) in dispatch cb evs (r\<lparr>tr_dev := d\<rparr>))"

text \<open>The waiting loop \<open>i\<close>, and the capture loop, which the flag \<open>stopping\<close> ends too.\<close>

definition wait_window :: "'d tool_lib \<Rightarrow> (tool_event \<Rightarrow> 'c \<Rightarrow> 'c) \<Rightarrow> nat \<Rightarrow> ('d, 'c) tool_run \<Rightarrow> ('d, 'c) tool_run" where
  "wait_window lib cb i r = (handle_events lib cb ^^ tb_window lib i (tr_dev r)) r"

fun capture_rounds :: "'d tool_lib \<Rightarrow> (tool_event \<Rightarrow> 'c \<Rightarrow> 'c) \<Rightarrow> ('c \<Rightarrow> bool) \<Rightarrow> nat \<Rightarrow> ('d, 'c) tool_run \<Rightarrow> ('d, 'c) tool_run" where
  "capture_rounds lib cb stopping 0 r = r"
| "capture_rounds lib cb stopping (Suc n) r =
     (if stopping (tr_cap r) then r else capture_rounds lib cb stopping n (handle_events lib cb r))"

text \<open>The transfer pool; \<open>False\<close> when a submission fails.\<close>

fun submit_pool :: "'d tool_lib \<Rightarrow> nat \<Rightarrow> nat \<Rightarrow> nat \<Rightarrow> ('d, 'c) tool_run \<Rightarrow> bool \<times> ('d, 'c) tool_run" where
  "submit_pool lib sz i 0 r = (True, r)"
| "submit_pool lib sz i (Suc n) r =
     (let (ok, d) = tb_submit lib i sz (tr_dev r); r = r\<lparr>tr_dev := d\<rparr>
      in if ok then submit_pool lib sz (i + 1) n r else (False, r))"

definition cancel_pool :: "'d tool_lib \<Rightarrow> nat \<Rightarrow> ('d, 'c) tool_run \<Rightarrow> ('d, 'c) tool_run" where
  "cancel_pool lib n r = r\<lparr>tr_dev := fold (tb_cancel lib) [0..<n] (tr_dev r)\<rparr>"

text \<open>\<open>libusb_init\<close>, opening the device, claiming the interface and opening the file, in this order.\<close>

definition tool_open :: "'d tool_lib \<Rightarrow> bool \<Rightarrow> string \<Rightarrow> 'd \<Rightarrow> bool \<times> 'd" where
  "tool_open lib null_out path d =
     (let (ok, d) = tb_init lib d
      in if \<not> ok then (False, d)
         else let (ok, d) = tb_open lib d
         in if \<not> ok then (False, d)
         else let (ok, d) = tb_claim lib d
         in if \<not> ok then (False, d) else if null_out then (True, d) else tb_fopen lib path d)"

subsection \<open>Command line\<close>

definition URBS_MAX :: u32 where "URBS_MAX = 32"
definition FAST_URBS_MAX :: u32 where "FAST_URBS_MAX = 64"

record tool_opts =
  to_speed :: u32
  to_null :: bool
  to_urbs :: u32
  to_urb_size :: u32
  to_test :: bool
  to_blk_dwords :: u32

text \<open>\<open>(unsigned)atoi(s)\<close>.\<close>

definition atoi_u32 :: "string \<Rightarrow> u32" where
  "atoi_u32 s = of_int (strtoll s)"

definition speed_arg :: "string \<Rightarrow> tool_opts \<Rightarrow> tool_opts" where
  "speed_arg a q =
     (if a = ''ls'' then q\<lparr>to_speed := 0\<rparr> else if a = ''fs'' then q\<lparr>to_speed := 1\<rparr>
      else if a = ''hs'' then q\<lparr>to_speed := 2\<rparr> else if a = ''auto'' then q\<lparr>to_speed := 3\<rparr> else q)"

function usbcap_args :: "string list \<Rightarrow> tool_opts \<Rightarrow> tool_opts" where
  "usbcap_args [] q = q"
| "usbcap_args (a # rest) q =
     (if a = ''--urbs'' \<and> rest \<noteq> [] then usbcap_args (tl rest) (q\<lparr>to_urbs := atoi_u32 (hd rest)\<rparr>)
      else if a = ''--urb-size'' \<and> rest \<noteq> [] then usbcap_args (tl rest) (q\<lparr>to_urb_size := atoi_u32 (hd rest)\<rparr>)
      else usbcap_args rest (if a = ''--null'' then q\<lparr>to_null := True\<rparr> else speed_arg a q))"
  by pat_completeness auto
termination by (relation "measure (\<lambda>(as, q). length as)") auto

text \<open>\<open>--timeout-ms\<close> and \<open>--stall-ms\<close> only consume their values here.\<close>

function fast_args :: "string list \<Rightarrow> tool_opts \<Rightarrow> tool_opts" where
  "fast_args [] q = q"
| "fast_args (a # rest) q =
     (if a = ''--urbs'' \<and> rest \<noteq> [] then fast_args (tl rest) (q\<lparr>to_urbs := atoi_u32 (hd rest)\<rparr>)
      else if a = ''--urb-size'' \<and> rest \<noteq> [] then fast_args (tl rest) (q\<lparr>to_urb_size := atoi_u32 (hd rest)\<rparr>)
      else if (a = ''--timeout-ms'' \<or> a = ''--stall-ms'') \<and> rest \<noteq> [] then fast_args (tl rest) q
      else if a = ''--test'' then fast_args rest (q\<lparr>to_test := True\<rparr>)
      else if a = ''--blk-dwords'' \<and> rest \<noteq> [] then fast_args (tl rest) (q\<lparr>to_blk_dwords := atoi_u32 (hd rest)\<rparr>)
      else fast_args rest (if a = ''--null'' \<or> a = ''--no-write'' then q\<lparr>to_null := True\<rparr> else speed_arg a q))"
  by pat_completeness auto
termination by (relation "measure (\<lambda>(as, q). length as)") auto

text \<open>The range check after the loop; the tools differ in the largest pool.\<close>

definition clamp_pool :: "u32 \<Rightarrow> tool_opts \<Rightarrow> tool_opts" where
  "clamp_pool most q =
     (let q = (if to_urbs q < 1 \<or> most < to_urbs q then q\<lparr>to_urbs := 8\<rparr> else q)
      in if to_urb_size q < 4096 \<or> of_nat URB_SIZE_MAX < to_urb_size q then q\<lparr>to_urb_size := 256 * 1024\<rparr> else q)"

definition usbcap_opts :: "string list \<Rightarrow> tool_opts" where
  "usbcap_opts as = clamp_pool URBS_MAX (usbcap_args as
     \<lparr>to_speed = 3, to_null = False, to_urbs = 8, to_urb_size = 256 * 1024, to_test = False, to_blk_dwords = 0\<rparr>)"

definition fast_opts :: "string list \<Rightarrow> tool_opts" where
  "fast_opts as = clamp_pool FAST_URBS_MAX (fast_args as
     \<lparr>to_speed = 3, to_null = False, to_urbs = 32, to_urb_size = 128 * 1024, to_test = False, to_blk_dwords = 4092\<rparr>)"

subsection \<open>usbcap\<close>

definition usbcap_write :: "bool \<Rightarrow> bytes \<Rightarrow> bytes list \<Rightarrow> bytes list" where
  "usbcap_write null_out d out = (if null_out then out else usbcap_sink d out)"

definition usbcap_cb :: "bool \<Rightarrow> nat \<Rightarrow> tool_event \<Rightarrow> bytes list usbcap \<Rightarrow> bytes list usbcap" where
  "usbcap_cb null_out sz e = (case e of (status, data, ok) \<Rightarrow> on_xfer (usbcap_write null_out) ok status (take sz data))"

definition usbcap_session :: "'d tool_lib \<Rightarrow> tool_opts \<Rightarrow> 'd \<Rightarrow> int \<times> ('d, bytes list usbcap) tool_run option" where
  "usbcap_session lib q d =
     (let n = unat (to_urbs q); sz = unat (to_urb_size q); cb = usbcap_cb (to_null q) sz;
          r = \<lparr>tr_dev = d, tr_cap = usbcap_start [], tr_sent = [], tr_log = []\<rparr>;
          r = tool_cmd lib cb 0 UHSIF_CMD_ENABLE 0 r;
          r = tool_cmd lib cb 1 UHSIF_CMD_RESET 1 r;
          r = tool_cmd lib cb 2 UHSIF_CMD_SPEED (to_speed q) r;
          r = tool_cmd lib cb 3 UHSIF_CMD_RESET 0 r;
          r = wait_window lib cb 0 r;
          r = tool_cmd lib cb 4 UHSIF_CMD_ENABLE 1 r;
          (ok, r) = submit_pool lib sz 0 n r
      in if \<not> ok then (1, Some r)
         else let r = capture_rounds lib cb uc_stopping (tb_window lib 1 (tr_dev r)) r;
                  r = r\<lparr>tr_cap := (tr_cap r)\<lparr>uc_stopping := True\<rparr>\<rparr>;
                  r = tool_cmd lib cb 5 UHSIF_CMD_ENABLE 0 r;
                  r = wait_window lib cb 2 r;
                  r = cancel_pool lib n r;
                  r = wait_window lib cb 3 r
              in (0, Some r))"

text \<open>\<open>argv\<close> with the name of the program; 2 is the answer to too few arguments.\<close>

definition usbcap_main :: "'d tool_lib \<Rightarrow> string list \<Rightarrow> 'd \<Rightarrow> int \<times> ('d, bytes list usbcap) tool_run option" where
  "usbcap_main lib argv d =
     (if length argv < 3 then (2, None)
      else let q = usbcap_opts (drop 3 argv); (ok, d) = tool_open lib (to_null q) (argv ! 2) d
           in if ok then usbcap_session lib q d else (1, None))"

subsection \<open>usbcap\_fast\<close>

record fast_cap =
  fc_cap :: "(fast_stats \<times> bytes list) usbcap"
  fc_xfer_count :: u64
  fc_xfer_bytes :: u64
  fc_xfer_short :: u64

definition fast_cb :: "nat \<Rightarrow> tool_event \<Rightarrow> fast_cap \<Rightarrow> fast_cap" where
  "fast_cb sz e c =
     (case e of (status, data, ok) \<Rightarrow>
        let data = take sz data;
            c = (if status = XferNoDevice \<or> status = XferCancelled then c
                 else c\<lparr>fc_xfer_count := fc_xfer_count c + 1, fc_xfer_bytes := fc_xfer_bytes c + of_nat (length data),
                        fc_xfer_short := fc_xfer_short c + of_bool (length data < sz)\<rparr>)
        in c\<lparr>fc_cap := on_xfer fast_sink ok status data (fc_cap c)\<rparr>)"

definition fast_stopping :: "fast_cap \<Rightarrow> bool" where
  "fast_stopping c = uc_stopping (fc_cap c)"

text \<open>Up to the final \<open>flush_cur\<close>; opening the file includes starting the writer thread.\<close>

definition fast_session :: "'d tool_lib \<Rightarrow> tool_opts \<Rightarrow> 'd \<Rightarrow> int \<times> ('d, fast_cap) tool_run option" where
  "fast_session lib q d =
     (let n = unat (to_urbs q); sz = unat (to_urb_size q); cb = fast_cb sz; start = (if to_test q then UHSIF_CMD_TEST else UHSIF_CMD_ENABLE);
          r = \<lparr>tr_dev = d,
               tr_cap = \<lparr>fc_cap = usbcap_start (stats_start, []), fc_xfer_count = 0, fc_xfer_bytes = 0, fc_xfer_short = 0\<rparr>,
               tr_sent = [], tr_log = []\<rparr>;
          r = tool_cmd lib cb 0 UHSIF_CMD_ENABLE 0 r;
          r = tool_cmd lib cb 1 UHSIF_CMD_RESET 1 r;
          r = tool_cmd lib cb 2 UHSIF_CMD_SPEED (to_speed q) r;
          r = tool_cmd lib cb 3 UHSIF_CMD_RESET 0 r;
          r = wait_window lib cb 0 r;
          r = (if to_blk_dwords q \<noteq> 0 then tool_cmd lib cb 4 UHSIF_CMD_UPLOAD_PARAMS (to_blk_dwords q) r else r);
          r = tool_cmd lib cb 5 start 1 r;
          (ok, r) = submit_pool lib sz 0 n r
      in if \<not> ok then (1, Some r)
         else let r = capture_rounds lib cb fast_stopping (tb_window lib 1 (tr_dev r)) r;
                  r = r\<lparr>tr_cap := (tr_cap r)\<lparr>fc_cap := (fc_cap (tr_cap r))\<lparr>uc_stopping := True\<rparr>\<rparr>\<rparr>;
                  r = tool_cmd lib cb 6 start 0 r;
                  r = wait_window lib cb 2 r;
                  r = cancel_pool lib n r;
                  r = wait_window lib cb 3 r
              in (0, Some r))"

definition fast_main :: "'d tool_lib \<Rightarrow> string list \<Rightarrow> 'd \<Rightarrow> int \<times> ('d, fast_cap) tool_run option" where
  "fast_main lib argv d =
     (if length argv < 3 then (2, None)
      else let q = fast_opts (drop 3 argv); (ok, d) = tool_open lib (to_null q) (argv ! 2) d
           in if ok then fast_session lib q d else (1, None))"

section \<open>Sessions\<close>

text \<open>A callback, and what the state shows of the completions it was called with.\<close>

locale event_client =
  fixes cb :: "tool_event \<Rightarrow> 'c \<Rightarrow> 'c"
    and shows_log :: "tool_event list \<Rightarrow> 'c \<Rightarrow> bool"
  assumes shows_step: "shows_log es c \<Longrightarrow> shows_log (es @ [e]) (cb e c)"
begin

definition run_ok :: "bytes list \<Rightarrow> ('d, 'c) tool_run \<Rightarrow> bool" where
  "run_ok pkts r \<longleftrightarrow> shows_log (tr_log r) (tr_cap r) \<and> tr_sent r = pkts"

lemma shows_events: "shows_log es c \<Longrightarrow> shows_log (es @ evs) (fold cb evs c)"
proof (induction evs arbitrary: es c)
  case (Cons e evs)
  from Cons.IH [OF shows_step [OF Cons.prems]] show ?case by simp
qed simp

lemma dispatch_ok: "run_ok pkts r \<Longrightarrow> run_ok pkts (dispatch cb evs r)"
  by (simp add: run_ok_def dispatch_def shows_events)

lemma dev_ok: "run_ok pkts r \<Longrightarrow> run_ok pkts (r\<lparr>tr_dev := d\<rparr>)"
  by (simp add: run_ok_def)

lemma handle_ok: "run_ok pkts r \<Longrightarrow> run_ok pkts (handle_events lib cb r)"
  by (simp add: handle_events_def split_beta dispatch_ok dev_ok)

lemma wait_ok: "run_ok pkts r \<Longrightarrow> run_ok pkts (wait_window lib cb i r)"
proof -
  have "run_ok pkts r \<Longrightarrow> run_ok pkts ((handle_events lib cb ^^ n) r)" for n
    by (induction n) (simp_all add: handle_ok)
  then show "run_ok pkts r \<Longrightarrow> run_ok pkts (wait_window lib cb i r)" by (simp add: wait_window_def)
qed

lemma rounds_ok: "run_ok pkts r \<Longrightarrow> run_ok pkts (capture_rounds lib cb stopping n r)"
  by (induction n arbitrary: r) (simp_all add: handle_ok)

lemma submit_ok: "run_ok pkts r \<Longrightarrow> run_ok pkts (snd (submit_pool lib sz i n r))"
  by (induction n arbitrary: i r) (simp_all add: split_beta Let_def dev_ok)

lemma cancel_ok: "run_ok pkts r \<Longrightarrow> run_ok pkts (cancel_pool lib n r)"
  by (simp add: cancel_pool_def dev_ok)

lemma cmd_ok: "run_ok pkts r \<Longrightarrow> run_ok (pkts @ [tool_build_cmd seq (of_nat cid) param]) (tool_cmd lib cb seq cid param r)"
proof -
  assume r: "run_ok pkts r"
  obtain rc n evs d where o: "tb_out lib (tool_build_cmd seq (of_nat cid) param) (tr_dev r) = (rc, n, evs, d)" by (metis prod_cases4)
  have "run_ok (pkts @ [p]) (r\<lparr>tr_dev := d, tr_sent := tr_sent r @ [p]\<rparr>)" for p using r by (simp add: run_ok_def)
  from dispatch_ok [OF this] show ?thesis by (simp add: tool_cmd_def tool_send_cmd_def run_out_def o)
qed

lemmas session_ok = handle_ok wait_ok rounds_ok submit_ok cancel_ok cmd_ok

end

text \<open>The bytes of the completions that count: those neither cancelled nor without a device, unless empty.\<close>

definition received :: "nat \<Rightarrow> tool_event list \<Rightarrow> bytes list" where
  "received sz evs = filter (\<lambda>d. d \<noteq> []) (map (\<lambda>e. take sz (fst (snd e))) (filter (\<lambda>e. fst e \<noteq> XferNoDevice \<and> fst e \<noteq> XferCancelled) evs))"

lemma received_nil [simp]: "received sz [] = []"
  by (simp add: received_def)

lemma accept_stopping: "tool_accept sink n (c\<lparr>uc_stopping := b\<rparr>) = (tool_accept sink n c)\<lparr>uc_stopping := b\<rparr>"
  by (rule usbcap.equality) (simp_all add: tool_accept_def Let_def)

lemma parse_loop_stopping: "parse_loop sink (c\<lparr>uc_stopping := b\<rparr>) = (parse_loop sink c)\<lparr>uc_stopping := b\<rparr>"
proof (induction sink c rule: parse_loop.induct)
  case (1 sink c)
  have up: "(c\<lparr>uc_stopping := b\<rparr>)\<lparr>uc_pbuf := p, uc_hdr_errors := h, uc_aligned := a\<rparr> = (c\<lparr>uc_pbuf := p, uc_hdr_errors := h, uc_aligned := a\<rparr>)\<lparr>uc_stopping := b\<rparr>"
    "(c\<lparr>uc_stopping := b\<rparr>)\<lparr>uc_pbuf := p, uc_aligned := a\<rparr> = (c\<lparr>uc_pbuf := p, uc_aligned := a\<rparr>)\<lparr>uc_stopping := b\<rparr>" for p h a
    by simp_all
  have scan: "tool_scan (c\<lparr>uc_stopping := b\<rparr>) = tool_scan c" by (simp add: tool_scan_def)
  show ?case
  proof (cases "tool_scan c")
    case None
    then show ?thesis by (simp add: parse_loop.simps [of sink c] parse_loop.simps [of sink "c\<lparr>uc_stopping := b\<rparr>"] scan)
  next
    case (Some i)
    then show ?thesis
      using 1(1) [OF Some refl] 1(2) [OF Some refl] accept_stopping [where c = "c\<lparr>uc_pbuf := drop i (uc_pbuf c), uc_aligned := True\<rparr>" and b = b]
      unfolding parse_loop.simps [of sink c] parse_loop.simps [of sink "c\<lparr>uc_stopping := b\<rparr>"] scan
      by (auto simp: Let_def up split: option.split)
  qed
qed

lemma parse_push_stopping: "parse_push sink (c\<lparr>uc_stopping := b\<rparr>) d = (parse_push sink c d)\<lparr>uc_stopping := b\<rparr>"
proof -
  have "parse_push sink (c\<lparr>uc_stopping := b\<rparr>) d = parse_loop sink (c\<lparr>uc_pbuf := uc_pbuf c @ d, uc_stopping := b\<rparr>)"
    unfolding parse_push_def by (rule arg_cong [where f = "parse_loop sink"]) simp
  then show ?thesis by (simp only: parse_loop_stopping parse_push_def)
qed

text \<open>The capture state after the data \<open>ds\<close>, whatever the flag \<open>stopping\<close> is.\<close>

definition parsed_from :: "(bytes \<Rightarrow> 'u \<Rightarrow> 'u) \<Rightarrow> 'u \<Rightarrow> bytes list \<Rightarrow> 'u usbcap \<Rightarrow> bool" where
  "parsed_from sink u ds c \<longleftrightarrow> (\<exists>b. c = (foldl (parse_push sink) (usbcap_start u) ds)\<lparr>uc_stopping := b\<rparr>)"

lemma parsed_from_start: "parsed_from sink u [] (usbcap_start u)"
  by (auto simp: parsed_from_def usbcap_start_def)

lemma parsed_from_stop: "parsed_from sink u ds c \<Longrightarrow> parsed_from sink u ds (c\<lparr>uc_stopping := b\<rparr>)"
  by (auto simp: parsed_from_def)

lemma parsed_from_xfer:
  assumes "parsed_from sink u (received sz es) c"
  shows "parsed_from sink u (received sz (es @ [(status, data, ok)])) (on_xfer sink ok status (take sz data) c)"
proof -
  have "parsed_from sink u (ds @ [d]) (parse_push sink c d)" if "parsed_from sink u ds c" for ds d
    using that by (auto simp: parsed_from_def parse_push_stopping)
  with assms show ?thesis by (auto simp: on_xfer_def received_def Let_def parsed_from_stop)
qed

interpretation usbcap_client: event_client "usbcap_cb null sz"
  "\<lambda>es. parsed_from (usbcap_write null) [] (received sz es)" for null sz
proof unfold_locales
  fix es c and e :: tool_event
  assume "parsed_from (usbcap_write null) [] (received sz es) c"
  then show "parsed_from (usbcap_write null) [] (received sz (es @ [e])) (usbcap_cb null sz e c)"
    using parsed_from_xfer by (cases e) (simp only: usbcap_cb_def split)
qed

interpretation fast_client: event_client "fast_cb sz"
  "\<lambda>es c. parsed_from fast_sink (stats_start, []) (received sz es) (fc_cap c)
     \<and> fc_xfer_count c = of_nat (length (filter (\<lambda>e. fst e \<noteq> XferNoDevice \<and> fst e \<noteq> XferCancelled) es))" for sz
proof unfold_locales
  fix es and c :: fast_cap and e :: tool_event
  obtain st d ok where e: "e = (st, d, ok)" by (cases e)
  assume "parsed_from fast_sink (stats_start, []) (received sz es) (fc_cap c)
     \<and> fc_xfer_count c = of_nat (length (filter (\<lambda>e. fst e \<noteq> XferNoDevice \<and> fst e \<noteq> XferCancelled) es))"
  then show "parsed_from fast_sink (stats_start, []) (received sz (es @ [e])) (fc_cap (fast_cb sz e c))
     \<and> fc_xfer_count (fast_cb sz e c) = of_nat (length (filter (\<lambda>e. fst e \<noteq> XferNoDevice \<and> fst e \<noteq> XferCancelled) (es @ [e])))"
    using parsed_from_xfer [of fast_sink "(stats_start, [])" sz es "fc_cap c" st d ok] by (auto simp: e fast_cb_def Let_def)
qed

section \<open>Properties\<close>

lemma clamp_bounds:
  "8 \<le> unat most \<Longrightarrow> 1 \<le> unat (to_urbs (clamp_pool most q)) \<and> unat (to_urbs (clamp_pool most q)) \<le> unat most"
  "4096 \<le> unat (to_urb_size (clamp_pool most q)) \<and> unat (to_urb_size (clamp_pool most q)) \<le> URB_SIZE_MAX"
  by (auto simp: clamp_pool_def Let_def URB_SIZE_MAX_def word_less_nat_alt word_le_nat_alt)

lemma received_length: "d \<in> set (received sz es) \<Longrightarrow> length d \<le> sz"
  by (auto simp: received_def)

text \<open>The packets of the plugin with the given sequence numbers.\<close>

definition packets :: "(u8 \<times> nat \<times> u32) list \<Rightarrow> bytes list" where
  "packets cs = map (\<lambda>(seq, cid, param). build_packet (cmd_init\<lparr>cm_seq := seq\<rparr>) cid param) cs"

lemma tool_packet: "cid < 256 \<Longrightarrow> tool_build_cmd seq (of_nat cid) param = build_packet (cmd_init\<lparr>cm_seq := ucast seq\<rparr>) cid param"
  by (rule tool_packets)

lemma cmd_ids: "UHSIF_CMD_ENABLE < 256" "UHSIF_CMD_RESET < 256" "UHSIF_CMD_SPEED < 256" "UHSIF_CMD_TEST < 256" "UHSIF_CMD_UPLOAD_PARAMS < 256"
  by (simp_all add: UHSIF_CMD_ENABLE_def UHSIF_CMD_RESET_def UHSIF_CMD_SPEED_def UHSIF_CMD_TEST_def UHSIF_CMD_UPLOAD_PARAMS_def)

lemma usbcap_write_file: "usbcap_write False = usbcap_sink"
  by (simp add: fun_eq_iff usbcap_write_def)

text \<open>What the capture state holds when it shows the data \<open>ds\<close>.\<close>

lemma parsed_from_usbcap:
  assumes "parsed_from usbcap_sink [] ds c"
  shows "\<exists>s. feed_chunks (stream_new recording []) ds = Some s \<and> uc_user c = filter (\<lambda>b. b \<noteq> []) (s_user s)
    \<and> uc_acks c = of_nat (count_list (s_user s) []) \<and> uc_blocks c = of_nat (length (uc_user c))
    \<and> uc_bytes_payload c = of_nat (length (concat (uc_user c)))"
proof -
  obtain b where c: "c = (foldl (parse_push usbcap_sink) (usbcap_start []) ds)\<lparr>uc_stopping := b\<rparr>" using assms by (auto simp: parsed_from_def)
  have sink: "fold usbcap_sink bs u = u @ bs" for bs u by (induction bs arbitrary: u) (simp_all add: usbcap_sink_def)
  have cc: "concat (filter (\<lambda>b. b \<noteq> []) bs) = concat bs" for bs :: "bytes list" by (induction bs) auto
  obtain s where "feed_chunks (stream_new recording []) ds = Some s" "s_user s = blocks_in (concat ds)" using plugin_blocks by blast
  then show ?thesis using parse_finds [of usbcap_sink "(usbcap_start [])\<lparr>uc_pbuf := concat ds\<rparr>"]
    unfolding c tool_run by (simp add: sink cc usbcap_start_def)
qed

lemma parsed_from_fast:
  assumes "parsed_from fast_sink (stats_start, []) ds c"
  shows "\<exists>s. feed_chunks (stream_new recording []) ds = Some s \<and> snd (uc_user c) = filter (\<lambda>b. b \<noteq> []) (s_user s)"
proof -
  obtain s where "feed_chunks (stream_new recording []) ds = Some s" "s_user s = blocks_in (concat ds)" using plugin_blocks by blast
  then show ?thesis using assms fast_payloads [of stats_start ds] by (auto simp: parsed_from_def)
qed

lemma usbcap_session_run:
  assumes "usbcap_session lib q d = (0, Some r)" and "\<not> to_null q"
  shows "parsed_from usbcap_sink [] (received (unat (to_urb_size q)) (tr_log r)) (tr_cap r)
    \<and> tr_sent r = packets [(0, UHSIF_CMD_ENABLE, 0), (1, UHSIF_CMD_RESET, 1), (2, UHSIF_CMD_SPEED, to_speed q), (3, UHSIF_CMD_RESET, 0),
        (4, UHSIF_CMD_ENABLE, 1), (5, UHSIF_CMD_ENABLE, 0)]"
proof -
  let ?sz = "unat (to_urb_size q)" and ?n = "unat (to_urbs q)"
  let ?cb = "usbcap_cb False ?sz" and ?ok = "usbcap_client.run_ok False ?sz" and ?b = "\<lambda>seq cid param. tool_build_cmd seq (of_nat cid) param"
  define r0 where "r0 = \<lparr>tr_dev = d, tr_cap = usbcap_start [] :: bytes list usbcap, tr_sent = [], tr_log = []\<rparr>"
  define r1 where "r1 = tool_cmd lib ?cb 4 UHSIF_CMD_ENABLE 1 (wait_window lib ?cb 0 (tool_cmd lib ?cb 3 UHSIF_CMD_RESET 0
    (tool_cmd lib ?cb 2 UHSIF_CMD_SPEED (to_speed q) (tool_cmd lib ?cb 1 UHSIF_CMD_RESET 1 (tool_cmd lib ?cb 0 UHSIF_CMD_ENABLE 0 r0)))))"
  define p1 where "p1 = (((([] @ [?b 0 UHSIF_CMD_ENABLE 0]) @ [?b 1 UHSIF_CMD_RESET 1]) @ [?b 2 UHSIF_CMD_SPEED (to_speed q)])
    @ [?b 3 UHSIF_CMD_RESET 0]) @ [?b 4 UHSIF_CMD_ENABLE 1]"
  obtain ok r2 where sub: "submit_pool lib ?sz 0 ?n r1 = (ok, r2)" by (cases "submit_pool lib ?sz 0 ?n r1")
  define r3 where "r3 = capture_rounds lib ?cb uc_stopping (tb_window lib 1 (tr_dev r2)) r2"
  have r: "r = wait_window lib ?cb 3 (cancel_pool lib ?n (wait_window lib ?cb 2 (tool_cmd lib ?cb 5 UHSIF_CMD_ENABLE 0
      (r3\<lparr>tr_cap := (tr_cap r3)\<lparr>uc_stopping := True\<rparr>\<rparr>))))"
    using assms sub [unfolded r1_def r0_def] by (simp add: usbcap_session_def Let_def r3_def split: if_splits)
  have "?ok [] r0" by (simp add: usbcap_client.run_ok_def r0_def parsed_from_start)
  then have "?ok p1 r1" unfolding r1_def p1_def by (intro usbcap_client.session_ok)
  then have "?ok p1 r3" using usbcap_client.submit_ok [of False ?sz p1 r1 lib ?sz 0 ?n] sub unfolding r3_def by (intro usbcap_client.session_ok) simp
  then have "?ok p1 (r3\<lparr>tr_cap := (tr_cap r3)\<lparr>uc_stopping := True\<rparr>\<rparr>)" by (simp add: usbcap_client.run_ok_def parsed_from_stop)
  then have "?ok (p1 @ [?b 5 UHSIF_CMD_ENABLE 0]) r" unfolding r by (intro usbcap_client.session_ok)
  then show ?thesis unfolding usbcap_client.run_ok_def by (simp add: p1_def packets_def tool_packet cmd_ids usbcap_write_file)
qed

lemma fast_session_run:
  assumes "fast_session lib q d = (0, Some r)"
  shows "parsed_from fast_sink (stats_start, []) (received (unat (to_urb_size q)) (tr_log r)) (fc_cap (tr_cap r))
    \<and> fc_xfer_count (tr_cap r) = of_nat (length (filter (\<lambda>e. fst e \<noteq> XferNoDevice \<and> fst e \<noteq> XferCancelled) (tr_log r)))
    \<and> tr_sent r = packets ([(0, UHSIF_CMD_ENABLE, 0), (1, UHSIF_CMD_RESET, 1), (2, UHSIF_CMD_SPEED, to_speed q), (3, UHSIF_CMD_RESET, 0)]
        @ (if to_blk_dwords q \<noteq> 0 then [(4, UHSIF_CMD_UPLOAD_PARAMS, to_blk_dwords q)] else [])
        @ [(5, if to_test q then UHSIF_CMD_TEST else UHSIF_CMD_ENABLE, 1), (6, if to_test q then UHSIF_CMD_TEST else UHSIF_CMD_ENABLE, 0)])"
proof -
  let ?sz = "unat (to_urb_size q)" and ?n = "unat (to_urbs q)" and ?st = "if to_test q then UHSIF_CMD_TEST else UHSIF_CMD_ENABLE"
  let ?cb = "fast_cb ?sz" and ?ok = "fast_client.run_ok ?sz" and ?b = "\<lambda>seq cid param. tool_build_cmd seq (of_nat cid) param"
  define r0 where "r0 = \<lparr>tr_dev = d, tr_cap = \<lparr>fc_cap = usbcap_start (stats_start, []), fc_xfer_count = 0, fc_xfer_bytes = 0, fc_xfer_short = 0\<rparr>,
    tr_sent = [], tr_log = []\<rparr>"
  define w where "w = wait_window lib ?cb 0 (tool_cmd lib ?cb 3 UHSIF_CMD_RESET 0
    (tool_cmd lib ?cb 2 UHSIF_CMD_SPEED (to_speed q) (tool_cmd lib ?cb 1 UHSIF_CMD_RESET 1 (tool_cmd lib ?cb 0 UHSIF_CMD_ENABLE 0 r0))))"
  define u where "u = (if to_blk_dwords q \<noteq> 0 then tool_cmd lib ?cb 4 UHSIF_CMD_UPLOAD_PARAMS (to_blk_dwords q) w else w)"
  define pw where "pw = ((([] @ [?b 0 UHSIF_CMD_ENABLE 0]) @ [?b 1 UHSIF_CMD_RESET 1]) @ [?b 2 UHSIF_CMD_SPEED (to_speed q)]) @ [?b 3 UHSIF_CMD_RESET 0]"
  define pu where "pu = (if to_blk_dwords q \<noteq> 0 then pw @ [?b 4 UHSIF_CMD_UPLOAD_PARAMS (to_blk_dwords q)] else pw)"
  obtain ok r2 where sub: "submit_pool lib ?sz 0 ?n (tool_cmd lib ?cb 5 ?st 1 u) = (ok, r2)" by (cases "submit_pool lib ?sz 0 ?n (tool_cmd lib ?cb 5 ?st 1 u)")
  define r3 where "r3 = capture_rounds lib ?cb fast_stopping (tb_window lib 1 (tr_dev r2)) r2"
  have r: "r = wait_window lib ?cb 3 (cancel_pool lib ?n (wait_window lib ?cb 2 (tool_cmd lib ?cb 6 ?st 0
      (r3\<lparr>tr_cap := (tr_cap r3)\<lparr>fc_cap := (fc_cap (tr_cap r3))\<lparr>uc_stopping := True\<rparr>\<rparr>\<rparr>))))"
    using assms sub unfolding fast_session_def Let_def r3_def u_def w_def r0_def by (simp only: split) (simp split: if_split_asm)
  have "?ok [] r0" by (simp add: fast_client.run_ok_def r0_def parsed_from_start)
  then have "?ok pw w" unfolding w_def pw_def by (intro fast_client.session_ok)
  then have "?ok pu u" unfolding u_def pu_def by (auto intro: fast_client.session_ok)
  then have "?ok (pu @ [?b 5 ?st 1]) (tool_cmd lib ?cb 5 ?st 1 u)" by (rule fast_client.cmd_ok)
  from fast_client.submit_ok [OF this, of lib ?sz 0 ?n] have "?ok (pu @ [?b 5 ?st 1]) r3" unfolding sub r3_def by (intro fast_client.session_ok) simp
  then have "?ok (pu @ [?b 5 ?st 1]) (r3\<lparr>tr_cap := (tr_cap r3)\<lparr>fc_cap := (fc_cap (tr_cap r3))\<lparr>uc_stopping := True\<rparr>\<rparr>\<rparr>)"
    by (simp add: fast_client.run_ok_def parsed_from_stop)
  then have "?ok ((pu @ [?b 5 ?st 1]) @ [?b 6 ?st 0]) r" unfolding r by (intro fast_client.session_ok)
  then show ?thesis by (simp add: fast_client.run_ok_def pu_def pw_def packets_def tool_packet cmd_ids)
qed

text \<open>
  C8. A whole run of the capture tool \<open>usbcap\<close> that ends normally, for any command line and any behaviour of
  the device: the pool has 1 to 32 transfers of 4 KiB to 4 MiB; the packets sent are the plugin's packets of
  the six commands; and from the bytes of all transfers that completed, with whatever status but \<open>CANCELLED\<close>
  and \<open>NO_DEVICE\<close>, before and after the capture loop, the tool hands to \<open>fwrite\<close> exactly the payloads that the
  plugin's stream parser hands to its data callback, piece by piece; its counters count these pieces, their
  bytes and the acknowledgements, and the parser's buffer is never overrun.
\<close>

theorem usbcap_program:
  assumes "usbcap_main lib argv d = (0, Some r)" and "q = usbcap_opts (drop 3 argv)" and "\<not> to_null q"
    and "ds = received (unat (to_urb_size q)) (tr_log r)"
  shows "1 \<le> unat (to_urbs q) \<and> unat (to_urbs q) \<le> 32 \<and> 4096 \<le> unat (to_urb_size q) \<and> unat (to_urb_size q) \<le> URB_SIZE_MAX
    \<and> tr_sent r = packets [(0, UHSIF_CMD_ENABLE, 0), (1, UHSIF_CMD_RESET, 1), (2, UHSIF_CMD_SPEED, to_speed q), (3, UHSIF_CMD_RESET, 0),
        (4, UHSIF_CMD_ENABLE, 1), (5, UHSIF_CMD_ENABLE, 0)]
    \<and> (\<exists>s. feed_chunks (stream_new recording []) ds = Some s \<and> uc_user (tr_cap r) = filter (\<lambda>b. b \<noteq> []) (s_user s)
         \<and> uc_acks (tr_cap r) = of_nat (count_list (s_user s) []) \<and> uc_blocks (tr_cap r) = of_nat (length (uc_user (tr_cap r)))
         \<and> uc_bytes_payload (tr_cap r) = of_nat (length (concat (uc_user (tr_cap r)))))
    \<and> (\<forall>k < length ds. length (uc_pbuf (foldl (parse_push usbcap_sink) (usbcap_start []) (take k ds))) + length (ds ! k) \<le> PBUF_SIZE)"
proof -
  obtain d1 where "usbcap_session lib q d1 = (0, Some r)"
    using assms(1,2) by (auto simp: usbcap_main_def Let_def split: prod.splits if_splits)
  note run = usbcap_session_run [OF this assms(3)]
  have b: "1 \<le> unat (to_urbs q) \<and> unat (to_urbs q) \<le> 32" "4096 \<le> unat (to_urb_size q) \<and> unat (to_urb_size q) \<le> URB_SIZE_MAX"
    unfolding assms(2) usbcap_opts_def using clamp_bounds(1) [of URBS_MAX] clamp_bounds(2) by (simp_all add: URBS_MAX_def)
  have "\<forall>d \<in> set ds. length d \<le> URB_SIZE_MAX" using received_length b(2) unfolding assms(4) by fastforce
  note fits = tool_buffer_fits [OF this]
  show ?thesis using b run parsed_from_usbcap [of ds "tr_cap r"] fits by (simp add: assms(4))
qed

text \<open>
  C20. A whole run of \<open>usbcap_fast\<close> that ends normally and writes a file with its writer thread: the packets sent are the plugin's
  packets of its commands, each transfer that completed is counted; and in every state its event thread and
  its writer can reach while they store the payloads, under every interleaving, with short writes and
  spurious wake-ups, the free stack stays within its 64 entries, the wait for a queue slot is never entered,
  every step of either thread decreases a bound on the steps left, and only the end, after \<open>pthread_join\<close>, leaves
  no step to make; there every buffer is back in the pool and the file, if no write fell short, holds the
  payloads the plugin's parser finds in the bytes received, in order.
\<close>

theorem fast_program:
  assumes "fast_main lib argv d = (0, Some r)" and "q = fast_opts (drop 3 argv)"
    and "fast_reach (snd (uc_user (fc_cap (tr_cap r)))) w" and "\<not> to_null q"
  shows "tr_sent r = packets ([(0, UHSIF_CMD_ENABLE, 0), (1, UHSIF_CMD_RESET, 1), (2, UHSIF_CMD_SPEED, to_speed q), (3, UHSIF_CMD_RESET, 0)]
        @ (if to_blk_dwords q \<noteq> 0 then [(4, UHSIF_CMD_UPLOAD_PARAMS, to_blk_dwords q)] else [])
        @ [(5, if to_test q then UHSIF_CMD_TEST else UHSIF_CMD_ENABLE, 1), (6, if to_test q then UHSIF_CMD_TEST else UHSIF_CMD_ENABLE, 0)])
    \<and> fc_xfer_count (tr_cap r) = of_nat (length (filter (\<lambda>e. fst e \<noteq> XferNoDevice \<and> fst e \<noteq> XferCancelled) (tr_log r)))
    \<and> length (fw_free w) \<le> 64 \<and> (\<forall>k. fw_prod w \<noteq> ENonfullSleep k)
    \<and> (\<forall>w'. fast_step w w' \<longrightarrow> fast_work w' < fast_work w) \<and> ((\<nexists>w'. fast_step w w') \<longrightarrow> fast_ended w)
    \<and> (fast_ended w \<longrightarrow> mset (fw_free w) = mset [0..<64] \<and> (\<not> fw_err w \<longrightarrow>
         (\<exists>s. feed_chunks (stream_new recording []) (received (unat (to_urb_size q)) (tr_log r)) = Some s \<and> fw_file w = concat (s_user s))))"
proof -
  obtain d1 where "fast_session lib q d1 = (0, Some r)"
    using assms(1,2) by (auto simp: fast_main_def Let_def split: prod.splits if_splits)
  note run = fast_session_run [OF this] and w = fast_writer_complete [OF assms(3)]
  have "concat (filter (\<lambda>b. b \<noteq> []) bs) = concat bs" for bs :: "bytes list" by (induction bs) auto
  then have "\<exists>s. feed_chunks (stream_new recording []) (received (unat (to_urb_size q)) (tr_log r)) = Some s
      \<and> concat (snd (uc_user (fc_cap (tr_cap r)))) = concat (s_user s)" using parsed_from_fast [OF conjunct1 [OF run]] by auto
  with run w show ?thesis by auto
qed

text \<open>A device that answers every command, accepts every transfer and sends one block in the capture loop.\<close>

definition demo_lib :: "unit tool_lib" where
  "demo_lib = \<lparr>tb_init = (\<lambda>d. (True, d)), tb_open = (\<lambda>d. (True, d)), tb_claim = (\<lambda>d. (True, d)), tb_fopen = (\<lambda>path d. (True, d)),
     tb_out = (\<lambda>pkt d. (0, 16, [], d)), tb_submit = (\<lambda>i sz d. (True, d)), tb_events = (\<lambda>d. ([(XferCompleted, demo_block, True)], d)),
     tb_cancel = (\<lambda>i d. d), tb_window = (\<lambda>i d. if i = 1 then 1 else 0)\<rparr>"

lemma demo_submit: "submit_pool demo_lib sz i n r = (True, r)"
  by (induction n arbitrary: i r) (simp_all add: demo_lib_def)

lemma demo_cmd: "tool_cmd demo_lib cb seq cid param r = r\<lparr>tr_sent := tr_sent r @ [tool_build_cmd seq (of_nat cid) param]\<rparr>"
  by (simp add: tool_cmd_def tool_send_cmd_def run_out_def dispatch_def demo_lib_def)

lemma demo_wait: "i \<noteq> 1 \<Longrightarrow> wait_window demo_lib cb i r = r" "tb_window demo_lib i d = (if i = 1 then 1 else 0)"
  by (simp_all add: wait_window_def demo_lib_def)

lemma demo_handle: "handle_events demo_lib cb r = r\<lparr>tr_cap := cb (XferCompleted, demo_block, True) (tr_cap r), tr_log := tr_log r @ [(XferCompleted, demo_block, True)]\<rparr>"
  by (simp add: handle_events_def dispatch_def demo_lib_def)

lemma demo_cancel: "cancel_pool demo_lib n r = r"
  by (simp add: cancel_pool_def demo_lib_def)

lemmas demo_simps = demo_submit demo_cmd demo_wait demo_handle demo_cancel

abbreviation demo_argv :: "string list" where
  "demo_argv \<equiv> [''usbcap'', ''1'', ''out.bin'']"

lemma demo_opts: "to_urb_size (usbcap_opts []) = 262144" "to_urb_size (fast_opts []) = 131072" "\<not> to_null (usbcap_opts [])"
  "\<not> to_null (fast_opts [])"
  by (simp_all add: usbcap_opts_def fast_opts_def clamp_pool_def URBS_MAX_def FAST_URBS_MAX_def URB_SIZE_MAX_def Let_def)

theorem usbcap_program_witness:
  "\<exists>r s. usbcap_main demo_lib demo_argv () = (0, Some r) \<and> received 262144 (tr_log r) = [demo_block]
    \<and> feed_chunks (stream_new recording []) [demo_block] = Some s \<and> uc_user (tr_cap r) = filter (\<lambda>b. b \<noteq> []) (s_user s)"
proof -
  have "tool_open demo_lib n p () = (True, ())" for n p by (simp add: tool_open_def demo_lib_def)
  then obtain r where r: "usbcap_main demo_lib demo_argv () = (0, Some r)" "tr_log r = [(XferCompleted, demo_block, True)]"
    by (simp add: usbcap_main_def usbcap_session_def Let_def demo_simps usbcap_start_def)
  have "received 262144 (tr_log r) = [demo_block]" by (simp add: r(2) received_def demo_block_def lens)
  with usbcap_program [OF r(1) refl _ refl] r(1) show ?thesis by (auto simp: demo_opts)
qed

theorem fast_program_witness:
  "\<exists>r w. fast_main demo_lib demo_argv () = (0, Some r) \<and> fast_ended w \<and> \<not> fw_err w \<and> fw_file w = [1, 2, 3, 4] \<and> mset (fw_free w) = mset [0..<64]
    \<and> (\<exists>s. feed_chunks (stream_new recording []) [demo_block] = Some s \<and> fw_file w = concat (s_user s))"
proof -
  have "tool_open demo_lib n p () = (True, ())" for n p by (simp add: tool_open_def demo_lib_def)
  then obtain r where r: "fast_main demo_lib demo_argv () = (0, Some r)" "tr_log r = [(XferCompleted, demo_block, True)]"
    by (simp add: fast_main_def fast_session_def Let_def demo_simps fast_stopping_def usbcap_start_def)
  then have rec: "received (unat (to_urb_size (fast_opts []))) (tr_log r) = [demo_block]" by (simp add: demo_opts received_def demo_block_def lens)
  obtain d1 where "fast_session demo_lib (fast_opts []) d1 = (0, Some r)" using r(1) by (auto simp: fast_main_def Let_def split: prod.splits if_splits)
  then have "parsed_from fast_sink (stats_start, []) [demo_block] (fc_cap (tr_cap r))" using fast_session_run rec by fastforce
  then have pay: "snd (uc_user (fc_cap (tr_cap r))) = [[1, 2, 3, 4]]" using demo_payloads by (auto simp: parsed_from_def)
  obtain w where w: "fast_reach [[1, 2, 3, 4]] w" "fast_ended w" "\<not> fw_err w" "fw_file w = [1, 2, 3, 4]"
    using demo_end schedule_reach [OF fast_reach.init] by blast
  from fast_program [OF r(1) refl, unfolded pay, OF w(1)] w r(1) rec demo_opts(4) show ?thesis by auto
qed

end
