(* ===== verification/Usb_Cmd.thy ===== *)
theory Usb_Cmd
  imports Tool_Sessions
begin

text \<open>
  The command tool \<open>tools/usb_cmd.c\<close>, from the command line to the packets on the bus, and \<open>strtoul\<close> and \<open>strtol\<close> with
  base 0, which this tool and \<open>tools/uhsif_bulk.c\<close> use for numbers. A synchronous transfer is a parameter. The
  printed lines are not modelled; the answer of the search for an acknowledgement, which is only printed, is
  part of the result.
\<close>

section \<open>Numbers of the C library\<close>

text \<open>A letter or a digit as the value it has in a base above it; 36 for any other character.\<close>

definition digit_val :: "char \<Rightarrow> nat" where
  "digit_val c =
     (let n = of_char c
      in if 48 \<le> n \<and> n \<le> 57 then n - 48 else if 97 \<le> n \<and> n \<le> 122 then n - 87 else if 65 \<le> n \<and> n \<le> 90 then n - 55 else 36)"

definition digits_from :: "nat \<Rightarrow> string \<Rightarrow> nat \<times> string" where
  "digits_from b s =
     (foldl (\<lambda>n c. n * b + digit_val c) 0 (takeWhile (\<lambda>c. digit_val c < b) s), dropWhile (\<lambda>c. digit_val c < b) s)"

text \<open>The base and the digits: \<open>0x\<close> before a hexadecimal digit, a leading 0, or neither. \<open>None\<close> without digits.\<close>

definition number0 :: "string \<Rightarrow> (nat \<times> string) option" where
  "number0 s =
     (case s of
        c # x # h # r \<Rightarrow>
          if c = CHR ''0'' \<and> (x = CHR ''x'' \<or> x = CHR ''X'') \<and> digit_val h < 16 then Some (digits_from 16 (h # r))
          else if c = CHR ''0'' then Some (digits_from 8 s)
          else if digit_val c < 10 then Some (digits_from 10 s) else None
      | c # r \<Rightarrow> if c = CHR ''0'' then Some (digits_from 8 s) else if digit_val c < 10 then Some (digits_from 10 s) else None
      | [] \<Rightarrow> None)"

text \<open>White space, a sign and the number: whether it is negative, its magnitude and the rest; \<open>None\<close> if nothing is converted.\<close>

definition signed0 :: "string \<Rightarrow> (bool \<times> nat \<times> string) option" where
  "signed0 s =
     (let s = dropWhile is_space s; neg = (take 1 s = ''-''); t = (if neg \<or> take 1 s = ''+'' then drop 1 s else s)
      in map_option (\<lambda>(n, r). (neg, n, r)) (number0 t))"

definition strtoul0 :: "string \<Rightarrow> u64" where
  "strtoul0 s =
     (case signed0 s of
        None \<Rightarrow> 0
      | Some (neg, n, r) \<Rightarrow> if 2 ^ 64 \<le> n then -1 else if neg then - of_nat n else of_nat n)"

text \<open>The value and where the conversion ends (\<open>end\<close>): the whole string if there is no number.\<close>

definition strtol0 :: "string \<Rightarrow> int \<times> string" where
  "strtol0 s =
     (case signed0 s of
        None \<Rightarrow> (0, s)
      | Some (neg, n, r) \<Rightarrow> (max (- (2 ^ 63)) (min (2 ^ 63 - 1) (if neg then - int n else int n)), r))"

section \<open>The tool\<close>

text \<open>\<open>(unsigned)strtoul(s, NULL, 0)\<close>.\<close>

definition unsigned_arg :: "string \<Rightarrow> u32" where
  "unsigned_arg s = ucast (strtoul0 s)"

definition speed_param :: "string \<Rightarrow> u32" where
  "speed_param p =
     (if p = ''ls'' then 0 else if p = ''fs'' then 1 else if p = ''hs'' then 2 else if p = ''auto'' then 3 else unsigned_arg p AND 3)"

text \<open>One command at the front of the arguments: its number, its parameter and the arguments left; \<open>None\<close> is a parse error.\<close>

definition next_cmd :: "string list \<Rightarrow> (u32 \<times> u32 \<times> string list) option" where
  "next_cmd args =
     (case args of
        name # v # rest \<Rightarrow>
          if name = ''raw'' then Some (unsigned_arg v, if rest = [] then 0 else unsigned_arg (hd rest), tl rest)
          else if name = ''reset'' then Some (0x01, unsigned_arg v AND 1, rest)
          else if name = ''enable'' then Some (0x02, unsigned_arg v AND 1, rest)
          else if name = ''speed'' then Some (0x03, speed_param v, rest)
          else if name = ''test'' then Some (0x04, unsigned_arg v AND 1, rest)
          else if name = ''upload'' then Some (0x20, unsigned_arg v AND 0xFFF, rest)
          else if name = ''mask'' then Some (0x21, unsigned_arg v AND 0xFFF, rest)
          else None
      | _ \<Rightarrow> None)"

record 'd cmd_lib =
  cl_open :: "'d \<Rightarrow> bool \<times> 'd"
  cl_in :: "nat \<Rightarrow> int \<Rightarrow> 'd \<Rightarrow> int \<times> bytes \<times> 'd"
  cl_out :: "bytes \<Rightarrow> 'd \<Rightarrow> int \<times> 'd"

text \<open>The first position with the magic number, if a whole header is there: the position and whether its CRC is right.\<close>

definition ack_header :: "bytes \<Rightarrow> nat \<Rightarrow> (nat \<times> bool) option" where
  "ack_header buf i =
     (let p = drop i buf; w0 = of_le32 p; w1 = of_le32 (drop 4 p); w2 = of_le32 (drop 8 p); w3 = of_le32 (drop 12 p)
      in if w0 AND 0xFFFF = 0x6CC6 then Some (i, drop_bit 16 w0 AND 0xFFFF = wide_crc16 w1 w2 w3) else None)"

definition find_ack :: "bytes \<Rightarrow> (nat \<times> bool) option" where
  "find_ack buf = map_option (\<lambda>i. the (ack_header buf i)) (List.find (\<lambda>i. ack_header buf i \<noteq> None) [0..<length buf - 15])"

definition ACK_BUF :: nat where "ACK_BUF = 65536"

text \<open>The wait for an acknowledgement, a read of 200 ms in each round.\<close>

fun ack_loop :: "'d cmd_lib \<Rightarrow> nat \<Rightarrow> bytes \<Rightarrow> 'd \<Rightarrow> (nat \<times> bool) option \<times> 'd" where
  "ack_loop lib 0 buf d = (None, d)"
| "ack_loop lib (Suc n) buf d =
     (let room = ACK_BUF - length buf; (r, data, d) = cl_in lib room 200 d; data = take room data
      in if r = 0 \<and> data \<noteq> []
         then (case find_ack (buf @ data) of Some a \<Rightarrow> (Some a, d) | None \<Rightarrow> ack_loop lib n (buf @ data) d)
         else ack_loop lib n buf d)"

definition ack_wait :: "'d cmd_lib \<Rightarrow> 'd \<Rightarrow> (nat \<times> bool) option \<times> 'd" where
  "ack_wait lib d = ack_loop lib (2000 div 200) [] d"

text \<open>The residual data: four reads, whatever they return.\<close>

fun drain_reads :: "'d cmd_lib \<Rightarrow> nat \<Rightarrow> 'd \<Rightarrow> 'd" where
  "drain_reads lib 0 d = d"
| "drain_reads lib (Suc n) d = drain_reads lib n (snd (snd (cl_in lib 4096 50 d)))"

lemma next_cmd_shorter: "next_cmd args = Some (cid, param, rest) \<Longrightarrow> length rest < length args"
  by (auto simp: next_cmd_def split: list.splits if_splits)

text \<open>The commands, with the return code so far; the packets sent, each with the answer found, are collected.\<close>

function cmd_loop :: "'d cmd_lib \<Rightarrow> bool \<Rightarrow> string list \<Rightarrow> u32 \<Rightarrow> int \<Rightarrow> (bytes \<times> (nat \<times> bool) option) list \<Rightarrow> 'd \<Rightarrow>
    int \<times> (bytes \<times> (nat \<times> bool) option) list \<times> 'd" where
  "cmd_loop lib noack args g_seq rc sent d =
     (if args = [] then (rc, sent, d)
      else case next_cmd args of
        None \<Rightarrow> (2, sent, d)
      | Some (cid, param, rest) \<Rightarrow>
          let buf = usb_cmd_build g_seq cid param; (r, d) = cl_out lib buf d; rc = (if r < 0 then 1 else rc);
              (a, d) = (if r < 0 \<or> noack then (None, d) else ack_wait lib d)
          in cmd_loop lib noack rest (g_seq + 1) rc (sent @ [(buf, a)]) d)"
  by pat_completeness auto
termination by (relation "measure (\<lambda>(lib, noack, args, g_seq, rc, sent, d). length args)") (auto dest: next_cmd_shorter)

declare cmd_loop.simps [simp del]

text \<open>\<open>main\<close>; \<open>args\<close> without the name of the program, and \<open>cl_open\<close> for the calls that open the device.\<close>

definition usb_cmd_main :: "'d cmd_lib \<Rightarrow> string list \<Rightarrow> 'd \<Rightarrow> int \<times> (bytes \<times> (nat \<times> bool) option) list \<times> 'd" where
  "usb_cmd_main lib args d =
     (let noack = (args \<noteq> [] \<and> hd args = ''--noack''); args = (if noack then tl args else args)
      in if length args < 2 then (1, [], d)
         else let (ok, d) = cl_open lib d
              in if ok then cmd_loop lib noack args 0 0 [] (drain_reads lib 4 d) else (1, [], d))"

section \<open>Printed numbers\<close>

lemma digit_val_dec: "0 \<le> d \<Longrightarrow> d < 10 \<Longrightarrow> digit_val (dec_digit d) = nat d"
proof -
  have "\<forall>d \<in> set [0..9]. digit_val (dec_digit d) = nat d" by code_simp
  then show "0 \<le> d \<Longrightarrow> d < 10 \<Longrightarrow> digit_val (dec_digit d) = nat d" by (simp del: atLeastAtMost_iff) simp
qed

lemma dec_digits_read:
  "0 \<le> n \<Longrightarrow> foldl (\<lambda>m c. m * 10 + digit_val c) 0 (dec_digits n) = nat n \<and> (\<forall>c \<in> set (dec_digits n). digit_val c < 10) \<and> dec_digits n \<noteq> []
     \<and> (0 < n \<longrightarrow> digit_val (hd (dec_digits n)) \<noteq> 0)"
proof (induction n rule: dec_digits.induct)
  case (1 n)
  show ?case
  proof (cases "n < 10")
    case True
    then show ?thesis using 1(2) by (simp add: dec_digits.simps [of n] digit_val_dec)
  next
    case False
    have ih: "foldl (\<lambda>m c. m * 10 + digit_val c) 0 (dec_digits (n div 10)) = nat (n div 10)" "\<forall>c \<in> set (dec_digits (n div 10)). digit_val c < 10"
      "dec_digits (n div 10) \<noteq> []" "digit_val (hd (dec_digits (n div 10))) \<noteq> 0" using 1 False by auto
    have "nat (n div 10) * 10 + nat (n mod 10) = nat (n div 10 * 10 + n mod 10)" using False by (simp only: nat_add_distrib nat_mult_distrib) simp
    then have "nat (n div 10) * 10 + nat (n mod 10) = nat n" by simp
    moreover have "nat (n mod 10) < 10" by (simp add: nat_less_iff)
    ultimately show ?thesis using ih False by (simp add: dec_digits.simps [of n] digit_val_dec)
  qed
qed

text \<open>What may follow a number: nothing, or a character that is neither a letter nor a digit.\<close>

definition ends_number :: "string \<Rightarrow> bool" where
  "ends_number r \<longleftrightarrow> r = [] \<or> digit_val (hd r) = 36"

lemma digits_from_dec:
  assumes "\<forall>c \<in> set ds. digit_val c < b" and "ends_number r" and "b \<le> 36"
  shows "digits_from b (ds @ r) = (foldl (\<lambda>n c. n * b + digit_val c) 0 ds, r)"
proof -
  have "takeWhile (\<lambda>c. digit_val c < b) r = []" "dropWhile (\<lambda>c. digit_val c < b) r = r"
    using assms(2,3) by (cases r; simp add: ends_number_def)+
  then show ?thesis using assms(1) by (simp add: digits_from_def takeWhile_append2 dropWhile_append2)
qed

lemma number0_dec:
  assumes "ends_number r"
  shows "number0 (dec_nat n @ r) = Some (n, r)"
proof (cases "n = 0")
  case True
  have "dec_digit 0 = CHR ''0''" by code_simp
  then have z: "dec_nat n = ''0''" "digit_val CHR ''0'' = 0" by (simp_all add: True dec_nat_def dec_int_def dec_digits.simps [of 0] digit_val_def)
  have d: "digits_from 8 (CHR ''0'' # r) = (0, r)" using digits_from_dec [of "''0''" 8 r] assms z(2) by simp
  have x: "digit_val CHR ''x'' = 33" "digit_val CHR ''X'' = 33" by (simp_all add: digit_val_def)
  show ?thesis
  proof (cases r)
    case (Cons c cs)
    then have "c \<noteq> CHR ''x''" "c \<noteq> CHR ''X''" using assms x by (auto simp: ends_number_def)
    with Cons z d show ?thesis by (cases cs) (simp_all add: number0_def True)
  qed (use z d in \<open>simp add: number0_def True\<close>)
next
  case False
  have read: "foldl (\<lambda>m c. m * 10 + digit_val c) 0 (dec_nat n) = n" "\<forall>c \<in> set (dec_nat n). digit_val c < 10" "dec_nat n \<noteq> []"
    "digit_val (hd (dec_nat n)) \<noteq> 0" using dec_digits_read [of "int n"] False by (simp_all add: dec_nat_def dec_int_def)
  then obtain c cs where c: "dec_nat n = c # cs" by (cases "dec_nat n") auto
  have d: "digits_from 10 (dec_nat n @ r) = (n, r)" using digits_from_dec [of "dec_nat n" 10 r] assms read by simp
  have "c \<noteq> CHR ''0''" "digit_val c < 10" using read c by (auto simp: digit_val_def)
  then show ?thesis using d c by (auto simp: number0_def split: list.split)
qed

lemma digit_not_space: "digit_val c < 10 \<Longrightarrow> \<not> is_space c \<and> c \<noteq> CHR ''-'' \<and> c \<noteq> CHR ''+''"
  by (auto simp: digit_val_def is_space_def Let_def split: if_splits)

lemma signed0_dec:
  assumes "ends_number r"
  shows "signed0 (dec_nat n @ r) = Some (False, n, r)"
proof -
  have read: "\<forall>c \<in> set (dec_nat n). digit_val c < 10" "dec_nat n \<noteq> []" using dec_digits_read [of "int n"] by (simp_all add: dec_nat_def dec_int_def)
  then obtain c cs where c: "dec_nat n = c # cs" by (cases "dec_nat n") auto
  then have "\<not> is_space c" "c \<noteq> CHR ''-''" "c \<noteq> CHR ''+''" using read digit_not_space [of c] by auto
  then show ?thesis using number0_dec [OF assms, of n] c by (simp add: signed0_def Let_def)
qed

lemma strtoul0_dec: "n < 2 ^ 64 \<Longrightarrow> strtoul0 (dec_nat n) = of_nat n"
  using signed0_dec [of "[]" n] by (simp add: strtoul0_def ends_number_def)

lemma strtol0_dec: "ends_number r \<Longrightarrow> n < 2 ^ 63 \<Longrightarrow> strtol0 (dec_nat n @ r) = (int n, r)"
  using signed0_dec [of r n] by (simp add: strtol0_def)

lemma unsigned_arg_dec: "n < 2 ^ 32 \<Longrightarrow> unsigned_arg (dec_nat n) = of_nat n"
  by (simp add: unsigned_arg_def strtoul0_dec unsigned_of_nat take_bit_nat_eq_self)

section \<open>Commands as text\<close>

datatype ucmd = URaw nat u32 | UReset bool | UEnable bool | USpeed nat | UTest bool | UUpload nat | UMask nat

fun cmd_words :: "ucmd \<Rightarrow> string list" where
  "cmd_words (URaw cid param) = [''raw'', dec_nat cid, dec_nat (unat param)]"
| "cmd_words (UReset b) = [''reset'', dec_nat (of_bool b)]"
| "cmd_words (UEnable b) = [''enable'', dec_nat (of_bool b)]"
| "cmd_words (USpeed k) = [''speed'', [''ls'', ''fs'', ''hs'', ''auto''] ! k]"
| "cmd_words (UTest b) = [''test'', dec_nat (of_bool b)]"
| "cmd_words (UUpload n) = [''upload'', dec_nat n]"
| "cmd_words (UMask n) = [''mask'', dec_nat n]"

fun cmd_meaning :: "ucmd \<Rightarrow> nat \<times> u32" where
  "cmd_meaning (URaw cid param) = (cid, param)"
| "cmd_meaning (UReset b) = (0x01, of_bool b)"
| "cmd_meaning (UEnable b) = (0x02, of_bool b)"
| "cmd_meaning (USpeed k) = (0x03, of_nat k)"
| "cmd_meaning (UTest b) = (0x04, of_bool b)"
| "cmd_meaning (UUpload n) = (0x20, of_nat n)"
| "cmd_meaning (UMask n) = (0x21, of_nat n)"

fun ucmd_ok :: "ucmd \<Rightarrow> bool" where
  "ucmd_ok (URaw cid param) \<longleftrightarrow> cid < 256"
| "ucmd_ok (USpeed k) \<longleftrightarrow> k < 4"
| "ucmd_ok (UUpload n) \<longleftrightarrow> n < 4096"
| "ucmd_ok (UMask n) \<longleftrightarrow> n < 4096"
| "ucmd_ok _ \<longleftrightarrow> True"

lemma mask12: "n < 4096 \<Longrightarrow> of_nat n AND 0xFFF = (of_nat n :: u32)"
proof -
  have m: "(0xFFF :: u32) = mask 12" by (simp add: mask_eq_exp_minus_1)
  show "n < 4096 \<Longrightarrow> of_nat n AND 0xFFF = (of_nat n :: u32)" unfolding m
    by (simp add: take_bit_eq_mask [symmetric] take_bit_of_nat take_bit_nat_eq_self)
qed

lemma next_cmd_words: "ucmd_ok c \<Longrightarrow> next_cmd (cmd_words c @ rest) = Some (of_nat (fst (cmd_meaning c)), snd (cmd_meaning c), rest)"
proof (cases c)
  case (URaw cid param)
  moreover have "unat param < 2 ^ LENGTH(32)" by (rule unsigned_less)
  ultimately show "ucmd_ok c \<Longrightarrow> next_cmd (cmd_words c @ rest) = Some (of_nat (fst (cmd_meaning c)), snd (cmd_meaning c), rest)"
    using unsigned_arg_dec [of cid] unsigned_arg_dec [of "unat param"] by (simp add: next_cmd_def)
next
  case (USpeed k)
  then show "ucmd_ok c \<Longrightarrow> next_cmd (cmd_words c @ rest) = Some (of_nat (fst (cmd_meaning c)), snd (cmd_meaning c), rest)"
    by (auto simp: next_cmd_def speed_param_def less_Suc_eq numeral_eq_Suc)
qed (use unsigned_arg_dec in \<open>auto simp: next_cmd_def mask12 of_bool_def\<close>)

lemma meaning_bound: "ucmd_ok c \<Longrightarrow> fst (cmd_meaning c) < 256"
  by (cases c) simp_all

text \<open>The packets of the commands, the sequence number of the first given.\<close>

fun ucmd_packets :: "u32 \<Rightarrow> ucmd list \<Rightarrow> bytes list" where
  "ucmd_packets seq [] = []"
| "ucmd_packets seq (c # cs) =
     build_packet (cmd_init\<lparr>cm_seq := ucast seq\<rparr>) (fst (cmd_meaning c)) (snd (cmd_meaning c)) # ucmd_packets (seq + 1) cs"

lemma cmd_loop_words:
  "\<forall>c \<in> set cs. ucmd_ok c \<Longrightarrow> cmd_loop lib noack (concat (map cmd_words cs)) seq rc sent d = (rc', sent', d') \<Longrightarrow> rc = 0 \<or> rc = 1 \<Longrightarrow>
     map fst sent' = map fst sent @ ucmd_packets seq cs \<and> (rc' = 0 \<or> rc' = 1) \<and> ((\<forall>p d. 0 \<le> fst (cl_out lib p d)) \<longrightarrow> rc' = rc)
       \<and> (noack \<longrightarrow> list_all (\<lambda>x. snd x = None) sent \<longrightarrow> list_all (\<lambda>x. snd x = None) sent')"
proof (induction cs arbitrary: seq rc sent d)
  case Nil
  then show ?case by (simp add: cmd_loop.simps)
next
  case (Cons c cs)
  let ?buf = "usb_cmd_build seq (of_nat (fst (cmd_meaning c))) (snd (cmd_meaning c))"
  obtain r d1 where o: "cl_out lib ?buf d = (r, d1)" by (cases "cl_out lib ?buf d")
  obtain a d2 where w: "(if r < 0 \<or> noack then (None, d1) else ack_wait lib d1) = (a, d2)" by (cases "if r < 0 \<or> noack then (None, d1) else ack_wait lib d1")
  let ?args = "cmd_words c @ concat (map cmd_words cs)"
  have ne: "?args \<noteq> []" by (cases c) simp_all
  have ok: "ucmd_ok c" using Cons.prems(1) by simp
  note nx = next_cmd_words [OF ok, of "concat (map cmd_words cs)"]
  have "cmd_loop lib noack ?args seq rc sent d = (rc', sent', d')" using Cons.prems(2) by simp
  then have "cmd_loop lib noack (concat (map cmd_words cs)) (seq + 1) (if r < 0 then 1 else rc) (sent @ [(?buf, a)]) d2 = (rc', sent', d')"
    unfolding cmd_loop.simps [of lib noack ?args] Let_def by (simp only: ne nx o w if_False option.case prod.case)
  moreover have "?buf = build_packet (cmd_init\<lparr>cm_seq := ucast seq\<rparr>) (fst (cmd_meaning c)) (snd (cmd_meaning c))"
    by (rule tool_packets(2) [OF meaning_bound [OF ok]])
  moreover have "(\<forall>p d. 0 \<le> fst (cl_out lib p d)) \<Longrightarrow> \<not> r < 0" using o by (metis fst_conv not_less)
  moreover have "noack \<Longrightarrow> a = None" using w by simp
  ultimately show ?case using Cons.IH [of "seq + 1" "if r < 0 then 1 else rc" "sent @ [(?buf, a)]" d2] Cons.prems(1,3)
    by (auto split: if_splits)
qed

text \<open>
  The tool sends what it is told: for the text of any list of commands, the packets written are the plugin's
  packets of these commands, numbered from 0, and with \<open>--noack\<close> nothing is awaited. The exit code is 0 whenever
  all packets could be written, whether an acknowledgement was found or not.
\<close>

theorem usb_cmd_sends:
  assumes "cs \<noteq> []" and "\<forall>c \<in> set cs. ucmd_ok c" and "fst (cl_open lib d)"
    and "usb_cmd_main lib ((if noack then [''--noack''] else []) @ concat (map cmd_words cs)) d = (rc, sent, d')"
  shows "map fst sent = ucmd_packets 0 cs \<and> (rc = 0 \<or> rc = 1) \<and> ((\<forall>p d. 0 \<le> fst (cl_out lib p d)) \<longrightarrow> rc = 0)
    \<and> (noack \<longrightarrow> list_all (\<lambda>x. snd x = None) sent)"
proof -
  obtain c cs' where cs: "cs = c # cs'" using assms(1) by (cases cs) auto
  have len: "2 \<le> length (concat (map cmd_words cs))" by (cases c) (simp_all add: cs)
  have hd: "hd (concat (map cmd_words cs)) \<noteq> ''--noack''" "concat (map cmd_words cs) \<noteq> []" by (cases c; simp add: cs)+
  obtain d1 where op: "cl_open lib d = (True, d1)" using assms(3) by (cases "cl_open lib d") simp
  have "cmd_loop lib noack (concat (map cmd_words cs)) 0 0 [] (drain_reads lib 4 d1) = (rc, sent, d')"
    using assms(4) len hd op by (cases noack) (simp_all add: usb_cmd_main_def Let_def)
  from cmd_loop_words [OF assms(2) this] show ?thesis by simp
qed

definition silent_lib :: "unit cmd_lib" where
  "silent_lib = \<lparr>cl_open = (\<lambda>d. (True, d)), cl_in = (\<lambda>n t d. (-7, [], d)), cl_out = (\<lambda>p d. (0, d))\<rparr>"

theorem usb_cmd_sends_witness:
  "\<exists>rc sent. usb_cmd_main silent_lib ([] @ concat (map cmd_words [USpeed 1, UEnable True])) () = (rc, sent, ())
    \<and> map fst sent = ucmd_packets 0 [USpeed 1, UEnable True] \<and> rc = 0"
proof -
  let ?m = "usb_cmd_main silent_lib ((if False then [''--noack''] else []) @ concat (map cmd_words [USpeed 1, UEnable True])) ()"
  obtain rc sent where m: "?m = (rc, sent, ())" by (cases ?m) auto
  have "\<forall>c \<in> set [USpeed 1, UEnable True]. ucmd_ok c" "fst (cl_open silent_lib ())" "\<forall>p d. 0 \<le> fst (cl_out silent_lib p d)"
    by (simp_all add: silent_lib_def)
  from usb_cmd_sends [OF _ this(1,2) m] this(3) m show ?thesis by auto
qed

end
