(* ===== verification/Uhsif_Bulk.thy ===== *)
theory Uhsif_Bulk
  imports Stream_Delivery Command Gen1_Usb
begin

text \<open>
  The bring-up tool of the bulk downlink, \<open>tools/uhsif_bulk.c\<close>: packet construction, the uplink parser
  with its checks, the command and counter queries, the payload patterns, the single-block flows, the
  verifier of the loopback runs and the window that limits the downlink. A synchronous USB transfer and
  the clock are the record \<open>bulk_lib\<close> over the state \<open>'d\<close> of the device. The bytes \<open>inbuf[0..inlen)\<close> are the
  list \<open>bk_inbuf\<close>. Counters are integers. The verifier thread is in \<open>Verify_Queue\<close>, the flows are in \<open>Bulk_Flows\<close> and
  \<open>Bulk_Rates\<close>, the main program is in \<open>Bulk_Main\<close>.
\<close>

section \<open>Definitions\<close>

definition CMD_BULK_SET_CFG :: nat where "CMD_BULK_SET_CFG = 0x22"
definition CMD_BULK_STATS :: nat where "CMD_BULK_STATS = 0x23"
definition CMD_ID_BULK_DATA :: u32 where "CMD_ID_BULK_DATA = 0x30"
definition BULK_MAX_WORDS :: int where "BULK_MAX_WORDS = 4092"
definition INBUF_SIZE :: nat where "INBUF_SIZE = 262144 * 2"
definition IN_TIMEOUT_MS :: int where "IN_TIMEOUT_MS = 500"

subsection \<open>Packets and patterns\<close>

definition bulk_build_cmd :: "u8 \<Rightarrow> nat \<Rightarrow> u32 \<Rightarrow> bytes" where
  "bulk_build_cmd seq cid param =
     (let w1 = push_bit 8 (ucast seq) OR of_nat cid; w3 = 0;
          w0 = push_bit 16 (ucast (uhsif_hdr_crc16 w1 param w3)) OR ucast UHSIF_CMD_MAGIC16
      in le32 w0 @ le32 w1 @ le32 param @ le32 w3)"

definition build_bulk :: "u8 \<Rightarrow> u8 \<Rightarrow> bool \<Rightarrow> bool \<Rightarrow> nat \<Rightarrow> bytes \<Rightarrow> bytes" where
  "build_bulk stream blk_seq fin ack_req len_words payload =
     (let w1 = push_bit 16 (ucast stream) OR push_bit 8 (ucast blk_seq) OR CMD_ID_BULK_DATA;
          w2 = (if ack_req then 2 else 0) OR (if fin then 1 else 0);
          w3 = of_nat len_words AND 0xfff;
          w0 = push_bit 16 (ucast (uhsif_hdr_crc16 w1 w2 w3)) OR ucast UHSIF_CMD_MAGIC16
      in le32 w0 @ le32 w1 @ le32 w2 @ le32 w3 @ take (4 * len_words) payload)"

definition prng_next :: "u32 \<Rightarrow> u32" where
  "prng_next x = (let x = x XOR push_bit 13 x; x = x XOR drop_bit 17 x in x XOR push_bit 5 x)"

text \<open>\<open>words\<close> words from index \<open>i\<close> on; the result is the words and the state of the generator.\<close>

fun fill_words :: "nat \<Rightarrow> nat \<Rightarrow> u32 \<Rightarrow> bool \<Rightarrow> u32 \<Rightarrow> u32 list \<times> u32" where
  "fill_words 0 i base prbs st = ([], st)"
| "fill_words (Suc n) i base prbs st =
     (let st = (if prbs then prng_next st else st); v = (if prbs then st else base + of_nat i);
          (vs, st) = fill_words n (i + 1) base prbs st
      in (v # vs, st))"

definition fill_pattern :: "nat \<Rightarrow> u32 \<Rightarrow> bool \<Rightarrow> u32 \<Rightarrow> bytes \<times> u32 \<times> u32" where
  "fill_pattern n base prbs st = (let (vs, st) = fill_words n 0 base prbs st in (concat (map le32 vs), sum_list vs, st))"

subsection \<open>Device and context\<close>

record 'd bulk_lib =
  bl_in :: "nat \<Rightarrow> int \<Rightarrow> 'd \<Rightarrow> int \<times> bytes \<times> 'd"
  bl_out :: "bytes \<Rightarrow> 'd \<Rightarrow> int \<times> int \<times> 'd"
  bl_now :: "'d \<Rightarrow> int \<times> 'd"

record 'd bulk_ctx =
  bk_dev :: 'd
  bk_seq :: u8
  bk_blk_seq :: u8
  bk_inbuf :: bytes
  bk_blocks :: int
  bk_acks :: int
  bk_errors :: int
  bk_echo_enable :: bool
  bk_echo_expect :: "bytes option"
  bk_echo_expect_words :: nat
  bk_echo_got_words :: nat
  bk_echo_mismatch :: int
  bk_last_ack_w2 :: u32
  bk_last_ack_w3 :: u32
  bk_want_idx :: int
  bk_want_found :: bool
  bk_want_val :: u32
  bk_conc_mode :: bool
  bk_conc_started :: bool
  bk_conc_expect :: u32
  bk_conc_counter_err :: int
  bk_upl_bytes :: int
  bk_prng :: u32

definition dev_poll_in :: "'d bulk_lib \<Rightarrow> int \<Rightarrow> 'd bulk_ctx \<Rightarrow> int \<times> 'd bulk_ctx" where
  "dev_poll_in lib timeout_ms c =
     (let c = (if INBUF_SIZE \<le> length (bk_inbuf c) then c\<lparr>bk_inbuf := []\<rparr> else c);
          room = INBUF_SIZE - length (bk_inbuf c); (r, data, d) = bl_in lib room timeout_ms (bk_dev c);
          data = take room data; c = c\<lparr>bk_dev := d\<rparr>
      in if r < 0 \<or> data = [] then (0, c) else (int (length data), c\<lparr>bk_inbuf := bk_inbuf c @ data\<rparr>))"

definition raw_write :: "'d bulk_lib \<Rightarrow> bytes \<Rightarrow> 'd bulk_ctx \<Rightarrow> int \<times> 'd bulk_ctx" where
  "raw_write lib data c =
     (let (r, n, d) = bl_out lib data (bk_dev c); c = c\<lparr>bk_dev := d\<rparr> in if r < 0 then (-1, c) else (n, c))"

subsection \<open>Uplink parser\<close>

definition conc_word :: "u32 \<Rightarrow> 'd bulk_ctx \<Rightarrow> 'd bulk_ctx" where
  "conc_word w c =
     (let c = (if \<not> bk_conc_started c then c\<lparr>bk_conc_started := True\<rparr>
               else if w \<noteq> bk_conc_expect c then c\<lparr>bk_conc_counter_err := bk_conc_counter_err c + 1\<rparr> else c)
      in c\<lparr>bk_conc_expect := w + 1, bk_upl_bytes := bk_upl_bytes c + 4\<rparr>)"

text \<open>One word compared with the expected echo \<open>e\<close>; nothing once all words expected have arrived.\<close>

definition echo_word :: "bytes \<Rightarrow> bytes \<Rightarrow> 'd bulk_ctx \<Rightarrow> 'd bulk_ctx" where
  "echo_word e w c =
     (if bk_echo_got_words c < bk_echo_expect_words c
      then let c = (if w \<noteq> take 4 (drop (4 * bk_echo_got_words c) e) then c\<lparr>bk_echo_mismatch := bk_echo_mismatch c + 1\<rparr> else c)
           in c\<lparr>bk_echo_got_words := bk_echo_got_words c + 1\<rparr>
      else c)"

definition bulk_block :: "u32 \<Rightarrow> u32 \<Rightarrow> nat \<Rightarrow> bytes \<Rightarrow> 'd bulk_ctx \<Rightarrow> 'd bulk_ctx" where
  "bulk_block w2 w3 plen p c =
     (if plen = 0
      then let c = c\<lparr>bk_acks := bk_acks c + 1, bk_last_ack_w2 := w2, bk_last_ack_w3 := w3\<rparr>
           in if uint (w3 AND 0xfff) = bk_want_idx c then c\<lparr>bk_want_found := True, bk_want_val := w2\<rparr> else c
      else let c = c\<lparr>bk_blocks := bk_blocks c + 1\<rparr>;
               c = (if bk_conc_mode c then fold (\<lambda>i. conc_word (of_le32 (drop (4 * i) p))) [0..<plen] c else c)
           in case bk_echo_expect c of
                Some e \<Rightarrow> if bk_echo_enable c then fold (\<lambda>i. echo_word e (take 4 (drop (4 * i) p))) [0..<plen] c else c
              | None \<Rightarrow> c)"

lemma conc_word_inbuf [simp]: "bk_inbuf (conc_word w c) = bk_inbuf c"
  by (simp add: conc_word_def Let_def)

lemma echo_word_inbuf [simp]: "bk_inbuf (echo_word e w c) = bk_inbuf c"
  by (simp add: echo_word_def Let_def)

lemma fold_inbuf: "(\<And>i c. bk_inbuf (f i c) = bk_inbuf c) \<Longrightarrow> bk_inbuf (fold f is c) = bk_inbuf c"
  by (induction "is" arbitrary: c) simp_all

lemma bulk_block_inbuf [simp]: "bk_inbuf (bulk_block w2 w3 n p c) = bk_inbuf c"
  by (auto simp: bulk_block_def Let_def fold_inbuf split: option.split)

function parse_blocks :: "'d bulk_ctx \<Rightarrow> 'd bulk_ctx" where
  "parse_blocks c =
     (if length (bk_inbuf c) < 16 then c
      else let p = bk_inbuf c; w0 = of_le32 p; w1 = of_le32 (drop 4 p); w2 = of_le32 (drop 8 p); w3 = of_le32 (drop 12 p)
           in if \<not> uhsif_blk_hdr_ok w0 w1 w2 w3 then parse_blocks (c\<lparr>bk_inbuf := tl p, bk_errors := bk_errors c + 1\<rparr>)
              else let plen = unat (uhsif_blk_payload_len p)
                   in if length p < 16 + 4 * plen then c
                      else parse_blocks ((bulk_block w2 w3 plen (drop 16 p) c)\<lparr>bk_inbuf := drop (16 + 4 * plen) p\<rparr>))"
  by pat_completeness auto
termination by (relation "measure (\<lambda>c. length (bk_inbuf c))") auto

declare parse_blocks.simps [simp del]

subsection \<open>Commands\<close>

definition bk_now :: "'d bulk_lib \<Rightarrow> 'd bulk_ctx \<Rightarrow> int \<times> 'd bulk_ctx" where
  "bk_now lib c = (let (t, d) = bl_now lib (bk_dev c) in (t, c\<lparr>bk_dev := d\<rparr>))"

definition poll_parse :: "'d bulk_lib \<Rightarrow> int \<Rightarrow> 'd bulk_ctx \<Rightarrow> 'd bulk_ctx" where
  "poll_parse lib ms c = (let (n, c) = dev_poll_in lib ms c in if 0 < n then parse_blocks c else c)"

partial_function (option) wait_loop :: "'d bulk_lib \<Rightarrow> ('d bulk_ctx \<Rightarrow> bool) \<Rightarrow> int \<Rightarrow> 'd bulk_ctx \<Rightarrow> (int \<times> 'd bulk_ctx) option" where
  "wait_loop lib fn deadline c =
     (if fn c then Some (0, c)
      else let left = deadline - fst (bk_now lib c); c = snd (bk_now lib c)
           in if left \<le> 0 then Some (-1, c)
              else wait_loop lib fn deadline (poll_parse lib (if IN_TIMEOUT_MS < left then IN_TIMEOUT_MS else left) c))"

definition wait_until :: "'d bulk_lib \<Rightarrow> ('d bulk_ctx \<Rightarrow> bool) \<Rightarrow> int \<Rightarrow> 'd bulk_ctx \<Rightarrow> (int \<times> 'd bulk_ctx) option" where
  "wait_until lib fn timeout_ms c = (let (now, c) = bk_now lib c in wait_loop lib fn (now + timeout_ms) c)"

definition want_acks :: "int \<Rightarrow> 'd bulk_ctx \<Rightarrow> bool" where "want_acks want c \<longleftrightarrow> want \<le> bk_acks c"

definition send_cmd_wait :: "'d bulk_lib \<Rightarrow> nat \<Rightarrow> u32 \<Rightarrow> int \<Rightarrow> 'd bulk_ctx \<Rightarrow> (int \<times> 'd bulk_ctx) option" where
  "send_cmd_wait lib cid param timeout_ms c =
     (let want = bk_acks c + 1; (n, c) = raw_write lib (bulk_build_cmd (bk_seq c) cid param) c
      in if n < 0 then Some (-1, c)
         else Option.bind (wait_until lib (want_acks want) timeout_ms (c\<lparr>bk_seq := bk_seq c + 1\<rparr>)) (\<lambda>(r, c).
              Some (if r < 0 then -1 else 0, c)))"

fun cmd_retry :: "'d bulk_lib \<Rightarrow> nat \<Rightarrow> u32 \<Rightarrow> nat \<Rightarrow> int \<Rightarrow> 'd bulk_ctx \<Rightarrow> (int \<times> 'd bulk_ctx) option" where
  "cmd_retry lib cid param 0 timeout_ms c = Some (-1, c)"
| "cmd_retry lib cid param (Suc tries) timeout_ms c =
     Option.bind (send_cmd_wait lib cid param timeout_ms c) (\<lambda>(r, c).
       if r = 0 then Some (0, c) else cmd_retry lib cid param tries timeout_ms c)"

partial_function (option) stat_loop :: "'d bulk_lib \<Rightarrow> int \<Rightarrow> 'd bulk_ctx \<Rightarrow> 'd bulk_ctx option" where
  "stat_loop lib deadline c =
     (if fst (bk_now lib c) < deadline \<and> \<not> bk_want_found c
      then stat_loop lib deadline (poll_parse lib 150 (snd (bk_now lib c)))
      else Some (snd (bk_now lib c)))"

definition get_stat :: "'d bulk_lib \<Rightarrow> int \<Rightarrow> 'd bulk_ctx \<Rightarrow> (u32 option \<times> 'd bulk_ctx) option" where
  "get_stat lib idx c =
     (let c = c\<lparr>bk_want_idx := idx, bk_want_found := False, bk_want_val := 0\<rparr>;
          (n, c) = raw_write lib (bulk_build_cmd (bk_seq c) CMD_BULK_STATS (of_int idx)) c
      in if n < 0 then Some (None, c)
         else let (now, c) = bk_now lib (c\<lparr>bk_seq := bk_seq c + 1\<rparr>)
              in Option.bind (stat_loop lib (now + 800) c) (\<lambda>c.
                 Some (if bk_want_found c then Some (bk_want_val c) else None, c)))"

subsection \<open>Flows\<close>

fun run_cmds :: "'d bulk_lib \<Rightarrow> (nat \<times> u32) list \<Rightarrow> 'd bulk_ctx \<Rightarrow> (int \<times> 'd bulk_ctx) option" where
  "run_cmds lib [] c = Some (0, c)"
| "run_cmds lib ((cid, param) # cmds) c =
     Option.bind (send_cmd_wait lib cid param 500 c) (\<lambda>(r, c). if r < 0 then Some (-1, c) else run_cmds lib cmds c)"

definition flow_probe :: "'d bulk_lib \<Rightarrow> 'd bulk_ctx \<Rightarrow> (int \<times> 'd bulk_ctx) option" where
  "flow_probe lib = run_cmds lib [(UHSIF_CMD_ENABLE, 0), (UHSIF_CMD_RESET, 1), (UHSIF_CMD_SPEED, 1), (UHSIF_CMD_RESET, 0)]"

partial_function (option) echo_loop :: "'d bulk_lib \<Rightarrow> int \<Rightarrow> 'd bulk_ctx \<Rightarrow> (bool \<times> 'd bulk_ctx) option" where
  "echo_loop lib deadline c =
     (if bk_echo_got_words c < bk_echo_expect_words c
      then if deadline < fst (bk_now lib c) then Some (False, snd (bk_now lib c))
           else echo_loop lib deadline (poll_parse lib 200 (snd (bk_now lib c)))
      else Some (True, c))"

text \<open>One block with its pattern; besides the result, the sum of the words.\<close>

definition flow_send :: "'d bulk_lib \<Rightarrow> int \<Rightarrow> bool \<Rightarrow> bool \<Rightarrow> 'd bulk_ctx \<Rightarrow> (int \<times> u32 \<times> 'd bulk_ctx) option" where
  "flow_send lib len_words prbs ack_req c =
     (if len_words < 1 \<or> BULK_MAX_WORDS < len_words then Some (-1, 0, c)
      else let n = nat len_words;
               (payload, psum, st) = fill_pattern n (0x1000 * ucast (bk_blk_seq c)) prbs (bk_prng c);
               c = c\<lparr>bk_prng := st\<rparr>;
               pkt = build_bulk 0 (bk_blk_seq c) False ack_req n payload;
               c = (if bk_echo_enable c
                    then c\<lparr>bk_echo_expect := Some payload, bk_echo_expect_words := n, bk_echo_got_words := 0, bk_echo_mismatch := 0\<rparr> else c);
               acks0 = bk_acks c;
               (r, c) = raw_write lib pkt c
           in if r < 0 then Some (-1, psum, c)
              else let c = c\<lparr>bk_blk_seq := bk_blk_seq c + 1\<rparr>
                   in if bk_echo_enable c
                      then let (now, c) = bk_now lib c
                           in Option.bind (echo_loop lib (now + 4000) c) (\<lambda>(got, c).
                              Some (if \<not> got then -1 else if bk_echo_mismatch c \<noteq> 0 then -1 else 0, psum, c\<lparr>bk_echo_expect := None\<rparr>))
                      else if ack_req
                      then Option.bind (wait_until lib (want_acks (acks0 + 1)) 1000 c) (\<lambda>(r, c). Some (if r < 0 then -1 else 0, psum, c))
                      else Some (0, psum, c))"

subsection \<open>Verifier\<close>

definition CARRY_CAP :: nat where "CARRY_CAP = 16 + 4092 * 4 + 16"
definition SCRATCH_SIZE :: nat where "SCRATCH_SIZE = CARRY_CAP + 262144"

record vfy_ctx =
  vf_blocks :: int
  vf_mism :: int
  vf_bad_hdr :: int
  vf_words :: int
  vf_carry :: bytes
  vf_t_started :: bool
  vf_t_expect :: u32

definition vfy_start :: vfy_ctx where
  "vfy_start = \<lparr>vf_blocks = 0, vf_mism = 0, vf_bad_hdr = 0, vf_words = 0, vf_carry = [], vf_t_started = False, vf_t_expect = 0\<rparr>"

definition vfy_word :: "u32 \<Rightarrow> vfy_ctx \<Rightarrow> vfy_ctx" where
  "vfy_word w v =
     (let v = (if \<not> vf_t_started v then v\<lparr>vf_t_started := True\<rparr>
               else if w \<noteq> vf_t_expect v then v\<lparr>vf_mism := vf_mism v + 1\<rparr> else v)
      in v\<lparr>vf_t_expect := w + 1\<rparr>)"

text \<open>The payload words of a block at the front of \<open>p\<close>.\<close>

definition block_words :: "nat \<Rightarrow> bytes \<Rightarrow> u32 list" where
  "block_words plen p = map (\<lambda>k. of_le32 (drop (16 + 4 * k) p)) [0..<plen]"

function vfy_loop :: "bytes \<Rightarrow> vfy_ctx \<Rightarrow> bytes \<times> vfy_ctx" where
  "vfy_loop p v =
     (if length p < 16 then (p, v)
      else if \<not> uhsif_blk_hdr_ok (of_le32 p) (of_le32 (drop 4 p)) (of_le32 (drop 8 p)) (of_le32 (drop 12 p))
      then vfy_loop (tl p) (v\<lparr>vf_bad_hdr := vf_bad_hdr v + 1\<rparr>)
      else let plen = unat (uhsif_blk_payload_len p)
           in if length p < 16 + plen * 4 then (p, v)
              else let v = fold vfy_word (block_words plen p) v
                   in vfy_loop (drop (16 + plen * 4) p) (v\<lparr>vf_blocks := vf_blocks v + 1, vf_words := vf_words v + int plen\<rparr>))"
  by pat_completeness auto
termination by (relation "measure (\<lambda>(p, v). length p)") auto

declare vfy_loop.simps [simp del]

definition vfy_process :: "vfy_ctx \<Rightarrow> bytes \<Rightarrow> vfy_ctx" where
  "vfy_process v buf = (let (rest, v) = vfy_loop (vf_carry v @ buf) (v\<lparr>vf_carry := []\<rparr>) in v\<lparr>vf_carry := take CARRY_CAP rest\<rparr>)"

subsection \<open>Downlink window\<close>

text \<open>
  Transfers are numbers; \<open>ro_held\<close> is the stack of those held back, last one first, \<open>ro_flying\<close> those submitted
  and \<open>ro_sent\<close> the buffers in the order of submission.
\<close>

record rate_out =
  ro_stop :: bool
  ro_done :: int
  ro_bytes :: int
  ro_errors :: int
  ro_refill :: bool
  ro_blocks_per_buf :: nat
  ro_blk_words :: nat
  ro_counter :: int
  ro_echoed :: "int option"
  ro_window :: int
  ro_submitted :: int
  ro_words_per_buf :: int
  ro_held :: "nat list"
  ro_flying :: "nat list"
  ro_bufs :: "nat \<Rightarrow> bytes"
  ro_sent :: "bytes list"

definition fill_buf :: "rate_out \<Rightarrow> bytes" where
  "fill_buf rs =
     concat (map (\<lambda>b. build_bulk 0 (of_int (ro_counter rs + int b)) False False (ro_blk_words rs)
         (fst (fill_pattern (ro_blk_words rs) (of_int (ro_counter rs + int b * int (ro_blk_words rs))) False 0)))
       [0..<ro_blocks_per_buf rs])"

definition rate_out_fill_buf :: "nat \<Rightarrow> rate_out \<Rightarrow> rate_out" where
  "rate_out_fill_buf tr rs =
     rs\<lparr>ro_bufs := (ro_bufs rs)(tr := fill_buf rs), ro_counter := ro_counter rs + int (ro_blk_words rs) * int (ro_blocks_per_buf rs)\<rparr>"

text \<open>\<open>ok\<close>: whether libusb takes the transfer.\<close>

definition submit_out :: "bool \<Rightarrow> nat \<Rightarrow> rate_out \<Rightarrow> rate_out" where
  "submit_out ok tr rs =
     (if ok then rs\<lparr>ro_flying := tr # ro_flying rs, ro_sent := ro_sent rs @ [ro_bufs rs tr]\<rparr> else rs\<lparr>ro_errors := ro_errors rs + 1\<rparr>)"

definition rate_out_submit :: "bool \<Rightarrow> nat \<Rightarrow> rate_out \<Rightarrow> rate_out" where
  "rate_out_submit ok tr rs =
     (let rs = (if ro_refill rs then rate_out_fill_buf tr rs else rs)
      in submit_out ok tr (rs\<lparr>ro_submitted := ro_submitted rs + ro_words_per_buf rs\<rparr>))"

definition rate_out_hold_or_submit :: "bool \<Rightarrow> nat \<Rightarrow> rate_out \<Rightarrow> rate_out" where
  "rate_out_hold_or_submit ok tr rs =
     (if (case ro_echoed rs of Some e \<Rightarrow> 0 < ro_window rs \<and> ro_window rs \<le> ro_submitted rs - e | None \<Rightarrow> False)
      then if length (ro_held rs) < 32 then rs\<lparr>ro_held := tr # ro_held rs\<rparr> else submit_out ok tr rs
      else rate_out_submit ok tr rs)"

function rate_out_release :: "(nat \<Rightarrow> bool) \<Rightarrow> rate_out \<Rightarrow> rate_out" where
  "rate_out_release ok rs =
     (case ro_held rs of
        [] \<Rightarrow> rs
      | tr # held \<Rightarrow>
          if ro_submitted rs - (case ro_echoed rs of Some e \<Rightarrow> e | None \<Rightarrow> 0) < ro_window rs
          then rate_out_release ok (rate_out_submit (ok tr) tr (rs\<lparr>ro_held := held\<rparr>)) else rs)"
  by pat_completeness auto
termination by (relation "measure (\<lambda>(ok, rs). length (ro_held rs))")
    (auto simp: rate_out_submit_def submit_out_def rate_out_fill_buf_def Let_def)

declare rate_out_release.simps [simp del]

text \<open>The completion of transfer \<open>tr\<close> with \<open>n\<close> bytes.\<close>

definition rate_out_cb :: "bool \<Rightarrow> nat \<Rightarrow> xfer_status \<Rightarrow> int \<Rightarrow> rate_out \<Rightarrow> rate_out" where
  "rate_out_cb ok tr status n rs =
     (let rs = rs\<lparr>ro_flying := remove1 tr (ro_flying rs)\<rparr>
      in if status = XferCancelled then rs\<lparr>ro_bytes := ro_bytes rs + n, ro_done := ro_done rs + 1\<rparr>
         else if status = XferTimedOut then if \<not> ro_stop rs then submit_out ok tr rs else rs
         else let rs = (if status = XferCompleted then rs\<lparr>ro_bytes := ro_bytes rs + n\<rparr> else rs\<lparr>ro_errors := ro_errors rs + 1\<rparr>)
              in if ro_stop rs then rs\<lparr>ro_done := ro_done rs + 1\<rparr> else rate_out_hold_or_submit ok tr rs)"


section \<open>Packets\<close>

text \<open>The tool builds the command packets of the plugin.\<close>

lemma bulk_build_cmd_plugin: "bulk_build_cmd seq cid param = build_packet (c\<lparr>cm_seq := seq\<rparr>) cid param"
  by (simp add: bulk_build_cmd_def build_packet_def)

section \<open>The verifier\<close>

text \<open>
  The payload words of the blocks in a byte sequence, the number of bytes skipped and the bytes left;
  only magic and CRC make a header.
\<close>

abbreviation front_ok :: "bytes \<Rightarrow> bool" where
  "front_ok p \<equiv> uhsif_blk_hdr_ok (of_le32 p) (of_le32 (drop 4 p)) (of_le32 (drop 8 p)) (of_le32 (drop 12 p))"

abbreviation front_len :: "bytes \<Rightarrow> nat" where
  "front_len p \<equiv> unat (uhsif_blk_payload_len p)"

function blocks_of :: "bytes \<Rightarrow> u32 list list \<times> nat \<times> bytes" where
  "blocks_of p =
     (if length p < 16 then ([], 0, p)
      else if \<not> front_ok p then (let (bs, n, r) = blocks_of (tl p) in (bs, n + 1, r))
      else if length p < 16 + 4 * front_len p then ([], 0, p)
      else let (bs, n, r) = blocks_of (drop (16 + 4 * front_len p) p) in (block_words (front_len p) p # bs, n, r))"
  by pat_completeness auto
termination by (relation "measure length") auto

declare blocks_of.simps [simp del]

lemma front_append: "16 \<le> length p \<Longrightarrow> front_ok (p @ d) = front_ok p" "16 \<le> length p \<Longrightarrow> front_len (p @ d) = front_len p"
  by (simp_all add: of_le32_append uhsif_blk_payload_len_def)

lemma block_words_append: "16 + 4 * n \<le> length p \<Longrightarrow> block_words n (p @ d) = block_words n p"
  by (auto simp: block_words_def of_le32_append)

lemma front_len_bound: "front_len p < 4096"
proof -
  have "uhsif_blk_payload_len p \<le> 0xfff" by (simp add: uhsif_blk_payload_len_def word_and_le1)
  then have "front_len p \<le> unat (0xfff :: u32)" by (simp only: word_le_nat_alt)
  then show ?thesis by simp
qed

lemma blocks_of_append:
  "blocks_of (p @ d) = (let (bs, n, r) = blocks_of p; (cs, m, q) = blocks_of (r @ d) in (bs @ cs, n + m, q))"
proof (induction p rule: blocks_of.induct)
  case (1 p)
  show ?case
  proof (cases "length p < 16 \<or> front_ok p \<and> length p < 16 + 4 * front_len p")
    case True
    then have "blocks_of p = ([], 0, p)" by (auto simp: blocks_of.simps [of p])
    then show ?thesis by (simp split: prod.split)
  next
    case long: False
    have o: "of_le32 (p @ d) = of_le32 p" "of_le32 (drop 4 p @ d) = of_le32 (drop 4 p)" "of_le32 (drop 8 p @ d) = of_le32 (drop 8 p)"
      "of_le32 (drop 12 p @ d) = of_le32 (drop 12 p)" using long by (auto simp: of_le32_append)
    show ?thesis
    proof (cases "front_ok p")
      case True
      then have "blocks_of (p @ d) = (let (bs, n, r) = blocks_of (drop (16 + 4 * front_len p) p @ d) in (block_words (front_len p) p # bs, n, r))"
        "blocks_of p = (let (bs, n, r) = blocks_of (drop (16 + 4 * front_len p) p) in (block_words (front_len p) p # bs, n, r))"
        using long by (simp_all add: blocks_of.simps [of "p @ d"] blocks_of.simps [of p] front_append o block_words_append)
      then show ?thesis using 1(2) True long by (simp split: prod.splits)
    next
      case False
      then have "blocks_of (p @ d) = (let (bs, n, r) = blocks_of (tl p @ d) in (bs, n + 1, r))" "blocks_of p = (let (bs, n, r) = blocks_of (tl p) in (bs, n + 1, r))"
        using long by (auto simp: blocks_of.simps [of "p @ d"] blocks_of.simps [of p] o tl_append split: list.split)
      then show ?thesis using 1(1) False long by (simp split: prod.splits)
    qed
  qed
qed

lemma blocks_of_rest: "length (snd (snd (blocks_of p))) < 16 + 4 * 4096"
proof (induction p rule: blocks_of.induct)
  case (1 p)
  then show ?case using front_len_bound [of p] by (auto simp: blocks_of.simps [of p] split: prod.splits)
qed


fun breaks :: "u32 list \<Rightarrow> nat" where
  "breaks (x # y # ws) = of_bool (y \<noteq> x + 1) + breaks (y # ws)"
| "breaks _ = 0"

lemma vfy_word_step:
  "vfy_word w v = v\<lparr>vf_mism := vf_mism v + of_bool (vf_t_started v \<and> w \<noteq> vf_t_expect v), vf_t_started := True, vf_t_expect := w + 1\<rparr>"
  by (rule vfy_ctx.equality) (auto simp: vfy_word_def Let_def)

lemma vfy_words_count:
  "fold vfy_word ws v = v\<lparr>vf_mism := vf_mism v + int (breaks (if vf_t_started v then (vf_t_expect v - 1) # ws else ws)),
     vf_t_started := vf_t_started v \<or> ws \<noteq> [], vf_t_expect := (if ws = [] then vf_t_expect v else last ws + 1)\<rparr>"
proof (induction ws arbitrary: v)
  case (Cons w ws)
  show ?case unfolding fold_simps(2) Cons by (rule vfy_ctx.equality) (auto simp: vfy_word_step)
qed (rule vfy_ctx.equality, auto)

text \<open>What the verifier counts over the payload words \<open>wss\<close> of some blocks.\<close>

definition vfy_counts :: "u32 list list \<Rightarrow> nat \<Rightarrow> vfy_ctx \<Rightarrow> vfy_ctx" where
  "vfy_counts wss bad v =
     (fold vfy_word (concat wss) v)\<lparr>vf_blocks := vf_blocks v + int (length wss), vf_words := vf_words v + int (length (concat wss)),
        vf_bad_hdr := vf_bad_hdr v + int bad\<rparr>"

lemma length_block_words [simp]: "length (block_words n p) = n"
  by (simp add: block_words_def)

lemma vfy_loop_counts: "vfy_loop p v = (snd (snd (blocks_of p)), vfy_counts (fst (blocks_of p)) (fst (snd (blocks_of p))) v)"
proof (induction p v rule: vfy_loop.induct)
  case (1 p v)
  show ?case
  proof (cases "length p < 16 \<or> front_ok p \<and> length p < 16 + 4 * front_len p")
    case True
    then have "blocks_of p = ([], 0, p)" "vfy_loop p v = (p, v)" by (auto simp: blocks_of.simps [of p] vfy_loop.simps [of p] Let_def mult.commute)
    then show ?thesis by (simp add: vfy_counts_def)
  next
    case long: False
    show ?thesis
    proof (cases "front_ok p")
      case True
      let ?n = "front_len p"
      let ?v = "(fold vfy_word (block_words ?n p) v)\<lparr>vf_blocks := vf_blocks v + 1, vf_words := vf_words v + int ?n\<rparr>"
      have l: "vfy_loop p v = vfy_loop (drop (16 + ?n * 4) p) ?v"
        using long True by (simp add: vfy_loop.simps [of p] Let_def mult.commute) (simp add: vfy_words_count)
      have "vf_blocks (fold vfy_word (block_words ?n p) v) = vf_blocks v" "vf_words (fold vfy_word (block_words ?n p) v) = vf_words v"
        by (simp_all add: vfy_words_count)
      then have "vfy_loop (drop (16 + ?n * 4) p) ?v = (snd (snd (blocks_of (drop (16 + ?n * 4) p))),
          vfy_counts (fst (blocks_of (drop (16 + ?n * 4) p))) (fst (snd (blocks_of (drop (16 + ?n * 4) p)))) ?v)"
        using 1(2) [OF _ _ refl _ refl] long True by (simp add: mult.commute)
      moreover have "blocks_of p = (let (bs, n, r) = blocks_of (drop (16 + ?n * 4) p) in (block_words ?n p # bs, n, r))"
        using long True by (simp add: blocks_of.simps [of p] mult.commute)
      moreover have "vfy_counts wss bad ?v = vfy_counts (block_words ?n p # wss) bad v" for wss bad
        by (simp add: vfy_counts_def) (simp add: vfy_words_count)
      ultimately show ?thesis using l by (simp split: prod.split)
    next
      case False
      then have "vfy_loop p v = vfy_loop (tl p) (v\<lparr>vf_bad_hdr := vf_bad_hdr v + 1\<rparr>)" using long by (simp add: vfy_loop.simps [of p])
      moreover have "blocks_of p = (let (bs, n, r) = blocks_of (tl p) in (bs, n + 1, r))" using long False by (simp add: blocks_of.simps [of p])
      moreover have "vfy_counts wss bad (v\<lparr>vf_bad_hdr := vf_bad_hdr v + 1\<rparr>) = vfy_counts wss (bad + 1) v" for wss bad
        by (simp add: vfy_counts_def) (simp add: vfy_words_count)
      ultimately show ?thesis using 1(1) long False by (simp split: prod.split)
    qed
  qed
qed


lemma blocks_of_idem: "blocks_of p = (bs, n, r) \<Longrightarrow> blocks_of r = ([], 0, r)"
  using blocks_of_append [of p "[]"] by (cases "blocks_of r") simp

lemma vfy_process_counts:
  "blocks_of (vf_carry v @ d) = (bs, n, r) \<Longrightarrow> vfy_process v d = (vfy_counts bs n v)\<lparr>vf_carry := r\<rparr>"
  using blocks_of_rest [of "vf_carry v @ d"]
  by (auto simp: vfy_process_def vfy_loop_counts CARRY_CAP_def vfy_counts_def vfy_words_count intro!: vfy_ctx.equality)

lemma vfy_counts_append: "(vfy_counts cs m ((vfy_counts bs n v)\<lparr>vf_carry := q\<rparr>))\<lparr>vf_carry := r\<rparr> = (vfy_counts (bs @ cs) (n + m) v)\<lparr>vf_carry := r\<rparr>"
proof -
  have "fold vfy_word ws (v\<lparr>vf_blocks := a, vf_words := b, vf_bad_hdr := c, vf_carry := q\<rparr>) =
      (fold vfy_word ws v)\<lparr>vf_blocks := a, vf_words := b, vf_bad_hdr := c, vf_carry := q\<rparr>" for ws v a b c
    by (rule vfy_ctx.equality) (simp_all add: vfy_words_count)
  then show ?thesis by (intro vfy_ctx.equality) (simp_all add: vfy_counts_def)
qed

definition vfy_settled :: "vfy_ctx \<Rightarrow> bool" where
  "vfy_settled v \<longleftrightarrow> blocks_of (vf_carry v) = ([], 0, vf_carry v)"

interpretation vfy_chunks: chunk_consumer vfy_settled vfy_process id
proof unfold_locales
  fix s :: vfy_ctx and a b :: bytes
  obtain bs n r where a: "blocks_of (vf_carry s @ a) = (bs, n, r)" by (cases "blocks_of (vf_carry s @ a)")
  note p = vfy_process_counts [OF a]
  show "vfy_settled (vfy_process s a)" using blocks_of_idem [OF a] by (simp add: p vfy_settled_def)
  show "vfy_settled s \<Longrightarrow> id (vfy_process s []) = id s"
    using vfy_process_counts [of s "[]" "[]" 0 "vf_carry s"] by (simp add: vfy_settled_def vfy_counts_def)
  obtain cs m q where b: "blocks_of (r @ b) = (cs, m, q)" by (cases "blocks_of (r @ b)")
  have "vf_carry (vfy_process s a) = r" by (simp add: p)
  with b have "vfy_process (vfy_process s a) b = (vfy_counts cs m (vfy_process s a))\<lparr>vf_carry := q\<rparr>" by (intro vfy_process_counts) simp
  moreover have "blocks_of (vf_carry s @ a @ b) = (bs @ cs, n + m, q)" using blocks_of_append [of "vf_carry s @ a" b] a b by simp
  ultimately show "id (vfy_process (vfy_process s a) b) = id (vfy_process s (a @ b))"
    by (simp add: p vfy_process_counts vfy_counts_append)
qed simp

text \<open>A whole run of the verifier.\<close>

lemma vfy_run:
  assumes "blocks_of (concat ds) = (bs, bad, left)"
  shows "vf_blocks (foldl vfy_process vfy_start ds) = int (length bs)" and "vf_words (foldl vfy_process vfy_start ds) = int (length (concat bs))"
    and "vf_bad_hdr (foldl vfy_process vfy_start ds) = int bad" and "vf_mism (foldl vfy_process vfy_start ds) = int (breaks (concat bs))"
    and "vf_carry (foldl vfy_process vfy_start ds) = left"
proof -
  have "vfy_settled vfy_start" by (simp add: vfy_settled_def vfy_start_def blocks_of.simps)
  then have r: "foldl vfy_process vfy_start ds = vfy_process vfy_start (concat ds)" using vfy_chunks.chunks_concat by fastforce
  have "vf_carry vfy_start = []" by (simp add: vfy_start_def)
  then have "foldl vfy_process vfy_start ds = (vfy_counts bs bad vfy_start)\<lparr>vf_carry := left\<rparr>"
    using vfy_process_counts [of vfy_start "concat ds" bs bad left] assms by (simp add: r)
  then show "vf_blocks (foldl vfy_process vfy_start ds) = int (length bs)" "vf_words (foldl vfy_process vfy_start ds) = int (length (concat bs))"
    "vf_bad_hdr (foldl vfy_process vfy_start ds) = int bad" "vf_mism (foldl vfy_process vfy_start ds) = int (breaks (concat bs))"
    "vf_carry (foldl vfy_process vfy_start ds) = left"
    by (simp_all add: vfy_counts_def vfy_words_count) (simp_all add: vfy_start_def)
qed

section \<open>Loopback\<close>

lemma fill_words_counter: "fst (fill_words n i base False st) = map (\<lambda>k. base + of_nat k) [i..<i + n]"
proof (induction n arbitrary: i)
  case (Suc n)
  have "[i..<i + Suc n] = i # [Suc i..<Suc i + n]" by (simp add: upt_conv_Cons del: upt_Suc)
  then show ?case using Suc [of "Suc i"] by (simp add: Let_def case_prod_beta del: upt_Suc)
qed simp

lemma fill_pattern_counter: "fst (fill_pattern n base False st) = concat (map (\<lambda>k. le32 (base + of_nat k)) [0..<n])"
  by (simp add: fill_pattern_def Let_def case_prod_beta fill_words_counter comp_def)

lemma length_fill: "length (fst (fill_pattern n base False st)) = 4 * n"
  by (simp add: fill_pattern_counter length_concat comp_def lens sum_list_triv)

lemma drop_words: "k \<le> n \<Longrightarrow> drop (4 * k) (concat (map (\<lambda>i. le32 (f i)) [0..<n])) = concat (map (\<lambda>i. le32 (f i)) [k..<n])"
proof (induction k)
  case (Suc k)
  let ?xs = "concat (map (\<lambda>i. le32 (f i)) [0..<n])"
  have "drop (4 * Suc k) ?xs = drop 4 (drop (4 * k) ?xs)" by simp
  also have "drop (4 * k) ?xs = le32 (f k) @ concat (map (\<lambda>i. le32 (f i)) [Suc k..<n])" using Suc by (simp add: upt_conv_Cons)
  also have "drop 4 \<dots> = concat (map (\<lambda>i. le32 (f i)) [Suc k..<n])" by (simp add: lens)
  finally show ?case .
qed simp

lemma breaks_counter: "breaks (map (\<lambda>i. a + of_nat i) [j..<n]) = 0"
proof (induction "n - j" arbitrary: j)
  case (Suc k)
  then have u: "[j..<n] = j # [Suc j..<n]" by (simp add: upt_conv_Cons)
  from Suc have "breaks (map (\<lambda>i. a + of_nat i) [Suc j..<n]) = 0" by simp
  then show ?case unfolding u by (cases "Suc j < n") (simp_all add: upt_conv_Cons)
qed simp

text \<open>The payload words of a buffer as the device reads them, block by block, and the buffers filled one after another.\<close>

definition sent_words :: "rate_out \<Rightarrow> bytes \<Rightarrow> u32 list" where
  "sent_words rs buf = concat (map (\<lambda>b. block_words (ro_blk_words rs) (drop (b * (16 + 4 * ro_blk_words rs)) buf)) [0..<ro_blocks_per_buf rs])"

fun fills :: "nat \<Rightarrow> nat \<Rightarrow> rate_out \<Rightarrow> bytes list" where
  "fills tr 0 rs = []"
| "fills tr (Suc k) rs = fill_buf rs # fills tr k (rate_out_fill_buf tr rs)"

lemma build_bulk_words:
  assumes "payload = concat (map (\<lambda>i. le32 (f i)) [0..<n])"
  shows "block_words n (build_bulk s q fin ack n payload @ r) = map f [0..<n]" and "length (build_bulk s q fin ack n payload) = 16 + 4 * n"
proof -
  have len: "length payload = 4 * n" by (simp add: assms length_concat comp_def lens sum_list_triv)
  obtain h where h: "build_bulk s q fin ack n payload = h @ payload" "length h = 16"
    using len by (simp add: build_bulk_def Let_def lens)
  show "length (build_bulk s q fin ack n payload) = 16 + 4 * n" using h len by simp
  have "of_le32 (drop (16 + 4 * k) (h @ payload @ r)) = f k" if "k < n" for k
  proof -
    have "drop (4 * k) payload = le32 (f k) @ concat (map (\<lambda>i. le32 (f i)) [Suc k..<n])"
      using drop_words [of k n f] that by (simp add: assms upt_conv_Cons)
    then have "drop (4 * k) (payload @ r) = le32 (f k) @ concat (map (\<lambda>i. le32 (f i)) [Suc k..<n]) @ r" using that len by simp
    then show ?thesis using h(2) by (simp add: codec)
  qed
  then show "block_words n (build_bulk s q fin ack n payload @ r) = map f [0..<n]" by (simp add: block_words_def h(1))
qed


lemma drop_blocks:
  assumes "\<And>b. length (g b) = n"
  shows "b < B \<Longrightarrow> drop (b * n) (concat (map g [0..<B])) = g b @ concat (map g [Suc b..<B])"
proof (induction b)
  case 0
  then show ?case by (simp add: upt_conv_Cons)
next
  case (Suc b)
  let ?xs = "concat (map g [0..<B])"
  have "drop (Suc b * n) ?xs = drop n (drop (b * n) ?xs)" by simp
  also have "drop (b * n) ?xs = g b @ concat (map g [Suc b..<B])" using Suc by simp
  finally show ?case using Suc.prems assms by (simp add: upt_conv_Cons)
qed

lemma concat_ranges: "concat (map (\<lambda>b. map (\<lambda>k. f (b * w + k)) [0..<w]) [0..<n]) = map f [0..<n * w]" for n w :: nat
proof (induction n)
  case (Suc n)
  have "[0..<Suc n * w] = [0..<n * w] @ map (\<lambda>k. n * w + k) [0..<w]" using upt_add_eq_append [of 0 "n * w" w] map_add_upt [of "n * w" w] by (simp add: add.commute)
  then show ?case by (simp add: Suc)
qed simp

lemma fill_buf_words: "sent_words rs (fill_buf rs) = map (\<lambda>i. of_int (ro_counter rs) + of_nat i) [0..<ro_blocks_per_buf rs * ro_blk_words rs]"
proof -
  let ?w = "ro_blk_words rs" and ?c = "ro_counter rs" and ?n = "ro_blocks_per_buf rs"
  define pay where "pay b = fst (fill_pattern ?w (of_int (?c + int b * int ?w)) False 0)" for b
  define g where "g b = build_bulk 0 (of_int (?c + int b)) False False ?w (pay b)" for b
  have p: "pay b = concat (map (\<lambda>k. le32 (of_int ?c + of_nat (b * ?w + k))) [0..<?w])" for b
    by (simp add: pay_def fill_pattern_counter add.assoc)
  have l: "length (g b) = 16 + 4 * ?w" and w: "block_words ?w (g b @ r) = map (\<lambda>k. of_int ?c + of_nat (b * ?w + k)) [0..<?w]" for b r
    unfolding g_def by (rule build_bulk_words [OF p])+
  have f: "fill_buf rs = concat (map g [0..<?n])" unfolding fill_buf_def g_def pay_def ..
  have "block_words ?w (drop (b * (16 + 4 * ?w)) (fill_buf rs)) = map (\<lambda>k. of_int ?c + of_nat (b * ?w + k)) [0..<?w]" if "b < ?n" for b
    unfolding f using drop_blocks [OF l that] w by simp
  then have "sent_words rs (fill_buf rs) = concat (map (\<lambda>b. map (\<lambda>k. of_int ?c + of_nat (b * ?w + k)) [0..<?w]) [0..<?n])"
    unfolding sent_words_def by (intro arg_cong [of _ _ concat] map_cong refl) simp
  then show ?thesis using concat_ranges [of "\<lambda>i. of_int ?c + of_nat i" ?w ?n] by (simp only: )
qed

lemma fills_words:
  "concat (map (sent_words rs) (fills tr k rs)) = map (\<lambda>i. of_int (ro_counter rs) + of_nat i) [0..<k * (ro_blocks_per_buf rs * ro_blk_words rs)]"
proof (induction k arbitrary: rs)
  case (Suc k)
  let ?n = "ro_blocks_per_buf rs * ro_blk_words rs" and ?rs = "rate_out_fill_buf tr rs"
  have s: "sent_words ?rs = sent_words rs" "ro_blocks_per_buf ?rs = ro_blocks_per_buf rs" "ro_blk_words ?rs = ro_blk_words rs"
    "ro_counter ?rs = ro_counter rs + int ?n"
    by (simp_all add: fun_eq_iff sent_words_def rate_out_fill_buf_def mult.commute)
  have "[0..<Suc k * ?n] = [0..<?n] @ map (\<lambda>i. ?n + i) [0..<k * ?n]" using upt_add_eq_append [of 0 ?n "k * ?n"] map_add_upt [of ?n "k * ?n"] by (simp add: add.commute)
  moreover have "map (\<lambda>i. of_int (ro_counter ?rs) + of_nat i) is = map (\<lambda>i. of_int (ro_counter rs) + of_nat (?n + i) :: u32) is" for "is"
    by (simp add: s(4) add.assoc)
  ultimately show ?case using Suc [of ?rs] by (simp only: fills.simps list.map concat.simps fill_buf_words s map_append map_map comp_def)
qed simp

section \<open>The window\<close>

text \<open>
  Steps of the event thread and of the progress callback, each taken as a whole: a transfer completes,
  more words are known to be echoed, held transfers are released.
\<close>

inductive window_step :: "rate_out \<Rightarrow> rate_out \<Rightarrow> bool" where
  complete: "tr \<in> set (ro_flying rs) \<Longrightarrow> window_step rs (rate_out_cb ok tr status n rs)"
| echoed: "ro_echoed rs = Some e \<Longrightarrow> e \<le> e' \<Longrightarrow> window_step rs (rs\<lparr>ro_echoed := Some e'\<rparr>)"
| release: "window_step rs (rate_out_release oks rs)"

text \<open>With at most 32 transfers the stack of held ones has room for each.\<close>

definition window_inv :: "rate_out \<Rightarrow> bool" where
  "window_inv rs \<longleftrightarrow> (\<exists>e. ro_echoed rs = Some e \<and> ro_submitted rs - e < ro_window rs + ro_words_per_buf rs) \<and> 0 < ro_window rs \<and> 0 \<le> ro_words_per_buf rs
     \<and> length (ro_held rs) + length (ro_flying rs) \<le> 32"

lemma submit_keeps:
  assumes "ro_echoed rs = Some e" and "ro_submitted rs - e < ro_window rs" and "0 < ro_window rs" and "0 \<le> ro_words_per_buf rs"
    and "length (ro_held rs) + length (ro_flying rs) < 32"
  shows "window_inv (rate_out_submit ok tr rs)"
  using assms by (auto simp: window_inv_def rate_out_submit_def submit_out_def rate_out_fill_buf_def Let_def)

lemma release_keeps: "window_inv rs \<Longrightarrow> window_inv (rate_out_release ok rs)"
proof (induction ok rs rule: rate_out_release.induct)
  case (1 ok rs)
  show ?case
  proof (cases "ro_held rs")
    case Nil
    then show ?thesis using 1(2) by (simp add: rate_out_release.simps [of ok rs])
  next
    case (Cons tr held)
    obtain e where e: "ro_echoed rs = Some e" using 1(2) by (auto simp: window_inv_def)
    show ?thesis
    proof (cases "ro_submitted rs - e < ro_window rs")
      case True
      then have "window_inv (rate_out_submit (ok tr) tr (rs\<lparr>ro_held := held\<rparr>))"
        using 1(2) Cons e by (intro submit_keeps [of _ e]) (auto simp: window_inv_def)
      then show ?thesis using 1(1) [OF Cons] Cons e True by (simp add: rate_out_release.simps [of ok rs])
    next
      case False
      then show ?thesis using 1(2) Cons e by (simp add: rate_out_release.simps [of ok rs])
    qed
  qed
qed

lemma hold_keeps:
  assumes "window_inv rs" and "length (ro_held rs) + length (ro_flying rs) < 32"
  shows "window_inv (rate_out_hold_or_submit ok tr rs)"
proof -
  obtain e where e: "ro_echoed rs = Some e" using assms(1) by (auto simp: window_inv_def)
  show ?thesis
  proof (cases "ro_window rs \<le> ro_submitted rs - e")
    case True
    then show ?thesis using assms e by (auto simp: window_inv_def rate_out_hold_or_submit_def)
  next
    case False
    then have "rate_out_hold_or_submit ok tr rs = rate_out_submit ok tr rs" using e by (simp add: rate_out_hold_or_submit_def)
    with False show ?thesis using assms e submit_keeps [of rs e ok tr] by (auto simp: window_inv_def)
  qed
qed

lemma window_step_inv: "window_step rs rs' \<Longrightarrow> window_inv rs \<Longrightarrow> window_inv rs'"
proof (induction rule: window_step.induct)
  case (complete tr rs ok status n)
  let ?rs = "rs\<lparr>ro_flying := remove1 tr (ro_flying rs)\<rparr>"
  have l: "length (remove1 tr (ro_flying rs)) < length (ro_flying rs)" using complete(1) length_pos_if_in_set [OF complete(1)] by (simp add: length_remove1)
  have i: "window_inv (?rs\<lparr>ro_bytes := b, ro_done := d\<rparr>)" "window_inv (?rs\<lparr>ro_errors := e, ro_done := d\<rparr>)" for b e d
    using complete(2) l by (auto simp: window_inv_def)
  have h: "window_inv (rate_out_hold_or_submit ok tr (?rs\<lparr>ro_bytes := b\<rparr>))" "window_inv (rate_out_hold_or_submit ok tr (?rs\<lparr>ro_errors := e\<rparr>))" for b e
    by (rule hold_keeps; use l complete(2) in \<open>auto simp: window_inv_def\<close>)+
  have t: "window_inv (submit_out ok tr ?rs)" "window_inv ?rs" using complete(2) l by (auto simp: window_inv_def submit_out_def)
  show ?case using i h t by (simp add: rate_out_cb_def Let_def)
next
  case (echoed rs e e')
  then show ?case by (auto simp: window_inv_def)
qed (rule release_keeps)

section \<open>Commands return\<close>

lemma fold_dev: "(\<And>i c. bk_dev (f i c) = bk_dev c) \<Longrightarrow> bk_dev (fold f is c) = bk_dev c"
  by (induction "is" arbitrary: c) simp_all

lemma bulk_block_dev: "bk_dev (bulk_block w2 w3 n p c) = bk_dev c"
  by (auto simp: bulk_block_def conc_word_def echo_word_def Let_def fold_dev split: option.split)

lemma parse_blocks_dev: "bk_dev (parse_blocks c) = bk_dev c"
proof (induction c rule: parse_blocks.induct)
  case (1 c)
  then show ?case by (simp add: parse_blocks.simps [of c] Let_def bulk_block_dev)
qed

text \<open>A clock that advances with every reading and is not turned back by a read from the device.\<close>

definition clock_runs :: "'d bulk_lib \<Rightarrow> bool" where
  "clock_runs lib \<longleftrightarrow> (\<forall>d. fst (bl_now lib d) < fst (bl_now lib (snd (bl_now lib d))))
     \<and> (\<forall>n t d. fst (bl_now lib d) \<le> fst (bl_now lib (snd (snd (bl_in lib n t d)))))"

lemma bk_now_parts: "fst (bk_now lib c) = fst (bl_now lib (bk_dev c))" "bk_dev (snd (bk_now lib c)) = snd (bl_now lib (bk_dev c))"
  "bk_acks (snd (bk_now lib c)) = bk_acks c"
  by (simp_all add: bk_now_def split_beta)

lemma poll_clock:
  assumes "clock_runs lib"
  shows "fst (bk_now lib c) \<le> fst (bk_now lib (poll_parse lib ms c))"
proof -
  define c0 where "c0 = (if INBUF_SIZE \<le> length (bk_inbuf c) then c\<lparr>bk_inbuf := []\<rparr> else c)"
  define x where "x = bl_in lib (INBUF_SIZE - length (bk_inbuf c0)) ms (bk_dev c0)"
  have "bk_dev (snd (dev_poll_in lib ms c)) = snd (snd x)"
    by (simp add: dev_poll_in_def Let_def split_beta flip: c0_def x_def)
  moreover have "bk_dev (poll_parse lib ms c) = bk_dev (snd (dev_poll_in lib ms c))"
    by (simp add: poll_parse_def split_beta parse_blocks_dev)
  moreover have "bk_dev c0 = bk_dev c" by (simp add: c0_def)
  ultimately show ?thesis using assms by (simp add: bk_now_parts clock_runs_def x_def)
qed

lemma wait_loop_returns:
  assumes "clock_runs lib"
  shows "\<exists>r c'. wait_loop lib fn deadline c = Some (r, c') \<and> (r = 0 \<and> fn c' \<or> r = -1)"
proof (induction "nat (deadline - fst (bk_now lib c))" arbitrary: c rule: less_induct)
  case less
  let ?left = "deadline - fst (bk_now lib c)" and ?c = "snd (bk_now lib c)"
  let ?next = "poll_parse lib (if IN_TIMEOUT_MS < ?left then IN_TIMEOUT_MS else ?left) ?c"
  have step: "wait_loop lib fn deadline c =
      (if fn c then Some (0, c) else if ?left \<le> 0 then Some (-1, ?c) else wait_loop lib fn deadline ?next)"
    by (subst wait_loop.simps) (simp add: Let_def)
  show ?case
  proof (cases "fn c \<or> ?left \<le> 0")
    case False
    have "fst (bk_now lib c) < fst (bk_now lib ?c)" using assms by (simp add: bk_now_parts clock_runs_def)
    also have "\<dots> \<le> fst (bk_now lib ?next)" by (rule poll_clock [OF assms])
    finally have "nat (deadline - fst (bk_now lib ?next)) < nat ?left" using False by linarith
    from less [OF this] show ?thesis using False step by simp
  qed (use step in auto)
qed

text \<open>A command query always returns, and reports success only if an acknowledgement arrived after it was sent.\<close>

lemma send_cmd_returns:
  assumes "clock_runs lib"
  obtains r c' where "send_cmd_wait lib cid param ms c = Some (r, c')" "r = 0 \<and> bk_acks c < bk_acks c' \<or> r = -1"
proof -
  obtain n c1 where w: "raw_write lib (bulk_build_cmd (bk_seq c) cid param) c = (n, c1)" by (cases "raw_write lib (bulk_build_cmd (bk_seq c) cid param) c")
  obtain now c2 where now: "bk_now lib (c1\<lparr>bk_seq := bk_seq c1 + 1\<rparr>) = (now, c2)" by (cases "bk_now lib (c1\<lparr>bk_seq := bk_seq c1 + 1\<rparr>)")
  from wait_loop_returns [OF assms, of "want_acks (bk_acks c + 1)" "now + ms" c2]
  obtain r c' where "wait_loop lib (want_acks (bk_acks c + 1)) (now + ms) c2 = Some (r, c')" "r = 0 \<and> want_acks (bk_acks c + 1) c' \<or> r = -1" by blast
  then show thesis using that [of "-1" c1] that [of r c']
    by (cases "n < 0") (auto simp: send_cmd_wait_def w wait_until_def now want_acks_def Let_def)
qed

section \<open>Properties\<close>


definition echo_chunks :: "bytes list" where
  "echo_chunks = [take 18 (blk_encode (0, 0, 0, [5, 0, 0, 0, 6, 0, 0, 0])), drop 18 (blk_encode (0, 0, 0, [5, 0, 0, 0, 6, 0, 0, 0]))]"


text \<open>
  The window of the downlink: with at most 32 transfers, the words handed to libusb and not yet known to be
  echoed stay below the window and one buffer, whatever completes, is echoed and is released in any order.
\<close>

theorem window_bounded:
  assumes "window_step\<^sup>*\<^sup>* rs rs'" and "window_inv rs"
  shows "\<exists>e. ro_echoed rs' = Some e \<and> ro_submitted rs' - e < ro_window rs' + ro_words_per_buf rs' \<and> length (ro_held rs') \<le> 32"
proof -
  have "window_inv rs'" using assms by (induction rule: rtranclp_induct) (auto intro: window_step_inv)
  then show ?thesis by (auto simp: window_inv_def)
qed

end
