(* ===== verification/Verify_Queue.thy ===== *)
theory Verify_Queue
  imports Uhsif_Bulk Ring
begin

text \<open>
  Verification on a second thread in \<open>tools/uhsif_bulk.c\<close>: the completion callback \<open>rate_in_cb\<close> of the event
  thread queues a received transfer (\<open>vfy_enqueue\<close>), \<open>vfy_thread\<close> checks it, releases held downlink transfers and
  submits it again, \<open>vfy_stop\<close> ends the thread. Steps are critical sections or the work between them and
  interleave freely; completions arrive in any order, submissions may fail, and the sleeping thread may
  wake spuriously. Transfers are numbers; \<open>vr_flying\<close> are those libusb holds, \<open>vr_buf\<close> is the buffer of each, as
  long as its \<open>actual_length\<close>. The index of an IN transfer and that of an OUT transfer are unrelated.
\<close>

section \<open>Definitions\<close>

definition VFY_QDEPTH :: nat where "VFY_QDEPTH = 32"

record rate_in =
  ri_stop :: bool
  ri_done :: int
  ri_bytes :: int
  ri_errors :: int
  ri_verify :: bool

datatype vfy_pc = VReady | VWait | VCheck nat | VProgress nat | VSubmit nat | VDone

record verify_run =
  vr_in :: rate_in
  vr_out :: rate_out
  vr_vfy :: vfy_ctx
  vr_q :: "nat ring"
  vr_stop :: bool
  vr_dropped :: int
  vr_buf :: "nat \<Rightarrow> bytes"
  vr_flying :: "nat list"
  vr_pc :: vfy_pc

definition wake_verifier :: "verify_run \<Rightarrow> verify_run" where
  "wake_verifier s = (if vr_pc s = VWait then s\<lparr>vr_pc := VReady\<rparr> else s)"

definition vfy_enqueue :: "nat \<Rightarrow> verify_run \<Rightarrow> bool \<times> verify_run" where
  "vfy_enqueue tr s =
     (if VFY_QDEPTH \<le> ring_count (vr_q s) then (False, s\<lparr>vr_dropped := vr_dropped s + 1\<rparr>)
      else (True, wake_verifier (s\<lparr>vr_q := ring_put VFY_QDEPTH tr (vr_q s)\<rparr>)))"

definition in_bytes :: "nat \<Rightarrow> verify_run \<Rightarrow> verify_run" where
  "in_bytes n s = s\<lparr>vr_in := (vr_in s)\<lparr>ri_bytes := ri_bytes (vr_in s) + int n\<rparr>\<rparr>"

definition in_done :: "verify_run \<Rightarrow> verify_run" where
  "in_done s = s\<lparr>vr_in := (vr_in s)\<lparr>ri_done := ri_done (vr_in s) + 1\<rparr>\<rparr>"

definition in_error :: "verify_run \<Rightarrow> verify_run" where
  "in_error s = s\<lparr>vr_in := (vr_in s)\<lparr>ri_errors := ri_errors (vr_in s) + 1\<rparr>\<rparr>"

text \<open>\<open>libusb_submit_transfer\<close> with its error counted; \<open>ok\<close> is what libusb answers.\<close>

definition submit_counted :: "bool \<Rightarrow> nat \<Rightarrow> verify_run \<Rightarrow> verify_run" where
  "submit_counted ok tr s = (if ok then s\<lparr>vr_flying := tr # vr_flying s\<rparr> else in_error s)"

text \<open>The completion of transfer \<open>tr\<close> with \<open>data\<close>.\<close>

definition rate_in_cb :: "bool \<Rightarrow> nat \<Rightarrow> xfer_status \<Rightarrow> bytes \<Rightarrow> verify_run \<Rightarrow> verify_run" where
  "rate_in_cb ok tr status data s =
     (let s = s\<lparr>vr_flying := remove1 tr (vr_flying s), vr_buf := (vr_buf s)(tr := data)\<rparr>
      in if status = XferCancelled then in_done (in_bytes (length data) s)
         else if status = XferTimedOut then if \<not> ri_stop (vr_in s) then submit_counted ok tr s else s
         else let s = (if status = XferCompleted then in_bytes (length data) s else in_error s)
              in if ri_stop (vr_in s) then in_done s
                 else if ri_verify (vr_in s)
                 then let (queued, s) = vfy_enqueue tr s in if queued then s else submit_counted ok tr (in_error s)
                 else submit_counted ok tr s)"

text \<open>One step of \<open>vfy_thread\<close>; \<open>ok\<close> and \<open>oks\<close> are the answers to the submissions it makes, none of them checked here.\<close>

definition vfy_thread :: "bool \<Rightarrow> (nat \<Rightarrow> bool) \<Rightarrow> verify_run \<Rightarrow> verify_run option" where
  "vfy_thread ok oks s =
     (case vr_pc s of
        VReady \<Rightarrow>
          if ring_count (vr_q s) = 0 \<and> \<not> vr_stop s then Some (s\<lparr>vr_pc := VWait\<rparr>)
          else if 0 < ring_count (vr_q s)
          then Some (s\<lparr>vr_q := ring_rest VFY_QDEPTH (vr_q s), vr_pc := VCheck (ring_front (vr_q s))\<rparr>)
          else Some (s\<lparr>vr_pc := VDone\<rparr>)
      | VCheck tr \<Rightarrow> Some (s\<lparr>vr_vfy := vfy_process (vr_vfy s) (vr_buf s tr), vr_pc := VProgress tr\<rparr>)
      | VProgress tr \<Rightarrow> Some (s\<lparr>vr_out := rate_out_release oks (vr_out s), vr_pc := VSubmit tr\<rparr>)
      | VSubmit tr \<Rightarrow> Some (s\<lparr>vr_flying := (if \<not> vr_stop s \<and> ok then tr # vr_flying s else vr_flying s), vr_pc := VReady\<rparr>)
      | VWait \<Rightarrow> None
      | VDone \<Rightarrow> None)"

text \<open>\<open>vfy_stop\<close> up to the join.\<close>

definition vfy_stop :: "verify_run \<Rightarrow> verify_run" where
  "vfy_stop s = wake_verifier (s\<lparr>vr_stop := True\<rparr>)"

text \<open>The state in which the flows start the verifier, the IN transfers \<open>trs\<close> submitted.\<close>

definition verify_init :: "rate_out \<Rightarrow> nat list \<Rightarrow> verify_run" where
  "verify_init out trs =
     \<lparr>vr_in = \<lparr>ri_stop = False, ri_done = 0, ri_bytes = 0, ri_errors = 0, ri_verify = True\<rparr>, vr_out = out, vr_vfy = vfy_start,
      vr_q = ring_empty 0, vr_stop = False, vr_dropped = 0, vr_buf = (\<lambda>_. []), vr_flying = trs, vr_pc = VReady\<rparr>"

text \<open>The data that a completion hands to the verifier.\<close>

definition to_verify :: "xfer_status \<Rightarrow> bytes \<Rightarrow> verify_run \<Rightarrow> bytes list" where
  "to_verify status data s = (if ri_stop (vr_in s) \<or> status = XferCancelled \<or> status = XferTimedOut then [] else [data])"

text \<open>
  Steps of the event thread other than the completion of an IN transfer: an OUT transfer completes, more
  words are known to be consumed, the window is released, \<open>rs_in.stop\<close> or \<open>rs_out.stop\<close> is set, and after
  \<open>rs_in.stop\<close> \<open>vfy_stop\<close> is called.
\<close>

inductive main_step :: "verify_run \<Rightarrow> verify_run \<Rightarrow> bool" where
  out_complete: "main_step s (s\<lparr>vr_out := rate_out_cb ok tr status n (vr_out s)\<rparr>)"
| consumed: "main_step s (s\<lparr>vr_out := (vr_out s)\<lparr>ro_echoed := e\<rparr>\<rparr>)"
| release: "main_step s (s\<lparr>vr_out := rate_out_release oks (vr_out s)\<rparr>)"
| stop_in: "main_step s (s\<lparr>vr_in := (vr_in s)\<lparr>ri_stop := True\<rparr>\<rparr>)"
| stop_out: "main_step s (s\<lparr>vr_out := (vr_out s)\<lparr>ro_stop := True\<rparr>\<rparr>)"
| stop_verifier: "ri_stop (vr_in s) \<Longrightarrow> main_step s (vfy_stop s)"

text \<open>Reachable states with the data of the completed transfers, in the order of completion.\<close>

inductive verify_reach :: "verify_run \<Rightarrow> bytes list \<Rightarrow> verify_run \<Rightarrow> bool" for s0 where
  init: "verify_reach s0 [] s0"
| complete: "verify_reach s0 ds s \<Longrightarrow> tr \<in> set (vr_flying s) \<Longrightarrow> length data \<le> 262144 \<Longrightarrow>
    verify_reach s0 (ds @ to_verify status data s) (rate_in_cb ok tr status data s)"
| main: "verify_reach s0 ds s \<Longrightarrow> main_step s s' \<Longrightarrow> verify_reach s0 ds s'"
| verifier: "verify_reach s0 ds s \<Longrightarrow> vfy_thread ok oks s = Some s' \<Longrightarrow> verify_reach s0 ds s'"
| spurious: "verify_reach s0 ds s \<Longrightarrow> verify_reach s0 ds (wake_verifier s)"

section \<open>Invariant\<close>

fun pc_owns :: "vfy_pc \<Rightarrow> nat list" where
  "pc_owns (VCheck tr) = [tr]"
| "pc_owns (VProgress tr) = [tr]"
| "pc_owns (VSubmit tr) = [tr]"
| "pc_owns _ = []"

fun pc_data :: "(nat \<Rightarrow> bytes) \<Rightarrow> vfy_pc \<Rightarrow> bytes list" where
  "pc_data m (VCheck tr) = [m tr]"
| "pc_data m _ = []"

abbreviation vr_items :: "verify_run \<Rightarrow> nat list" where
  "vr_items s \<equiv> ring_view VFY_QDEPTH (vr_q s)"

text \<open>A transfer is with libusb, in the queue, with the verifier, or no longer in use.\<close>

definition vr_owned :: "verify_run \<Rightarrow> nat list" where
  "vr_owned s = vr_flying s @ vr_items s @ pc_owns (vr_pc s)"

definition verifier_ok :: "verify_run \<Rightarrow> bool" where
  "verifier_ok s \<longleftrightarrow>
     (case vr_pc s of
        VWait \<Rightarrow> ring_count (vr_q s) = 0 \<and> \<not> vr_stop s
      | VDone \<Rightarrow> ring_count (vr_q s) = 0 \<and> vr_stop s
      | _ \<Rightarrow> True)"

definition vr_shape :: "verify_run \<Rightarrow> bool" where
  "vr_shape s \<longleftrightarrow> ring_inv VFY_QDEPTH (vr_q s) \<and> distinct (vr_owned s) \<and> length (vr_owned s) \<le> VFY_QDEPTH \<and> vr_dropped s = 0
     \<and> ri_verify (vr_in s) \<and> (vr_stop s \<longrightarrow> ri_stop (vr_in s)) \<and> verifier_ok s"

definition vr_inv :: "bytes list \<Rightarrow> verify_run \<Rightarrow> bool" where
  "vr_inv ds s \<longleftrightarrow> vr_shape s \<and> (\<forall>d \<in> set ds. length d \<le> 262144)
     \<and> (\<exists>ps. vr_vfy s = foldl vfy_process vfy_start ps \<and> ds = ps @ pc_data (vr_buf s) (vr_pc s) @ map (vr_buf s) (vr_items s))"

lemma vr_invD: "vr_inv ds s \<Longrightarrow> vr_shape s"
  by (simp add: vr_inv_def)

lemma vr_shapeD:
  assumes "vr_shape s"
  shows "ring_inv VFY_QDEPTH (vr_q s)" "distinct (vr_owned s)" "length (vr_owned s) \<le> VFY_QDEPTH" "verifier_ok s"
    "vr_stop s \<Longrightarrow> ri_stop (vr_in s)"
  using assms by (simp_all add: vr_shape_def)

text \<open>A step that only touches the downlink, the counters or the flags.\<close>

lemma vr_inv_cong:
  assumes "vr_inv ds s" and "vr_vfy v = vr_vfy s" "vr_q v = vr_q s" "vr_buf v = vr_buf s" "vr_pc v = vr_pc s" "vr_flying v = vr_flying s"
    "vr_dropped v = vr_dropped s" "ri_verify (vr_in v) = ri_verify (vr_in s)" "vr_stop v = vr_stop s" "ri_stop (vr_in s) \<Longrightarrow> ri_stop (vr_in v)"
  shows "vr_inv ds v"
proof -
  have "verifier_ok v" using vr_shapeD(4) [OF vr_invD [OF assms(1)]] assms(3,5,9) by (simp add: verifier_ok_def split: vfy_pc.splits)
  then show ?thesis using assms by (auto simp: vr_inv_def vr_shape_def vr_owned_def)
qed

lemma counter_fields [simp]:
  "vr_flying (in_bytes n s) = vr_flying s" "vr_flying (in_done s) = vr_flying s" "vr_flying (in_error s) = vr_flying s"
  "vr_q (in_bytes n s) = vr_q s" "vr_q (in_done s) = vr_q s" "vr_q (in_error s) = vr_q s"
  "vr_pc (in_bytes n s) = vr_pc s" "vr_pc (in_done s) = vr_pc s" "vr_pc (in_error s) = vr_pc s"
  "vr_buf (in_bytes n s) = vr_buf s" "vr_buf (in_done s) = vr_buf s" "vr_buf (in_error s) = vr_buf s"
  "vr_stop (in_bytes n s) = vr_stop s" "vr_stop (in_done s) = vr_stop s" "vr_stop (in_error s) = vr_stop s"
  "vr_vfy (in_bytes n s) = vr_vfy s" "vr_vfy (in_done s) = vr_vfy s" "vr_vfy (in_error s) = vr_vfy s"
  "vr_dropped (in_bytes n s) = vr_dropped s" "vr_dropped (in_done s) = vr_dropped s" "vr_dropped (in_error s) = vr_dropped s"
  "ri_stop (vr_in (in_bytes n s)) = ri_stop (vr_in s)" "ri_stop (vr_in (in_done s)) = ri_stop (vr_in s)" "ri_stop (vr_in (in_error s)) = ri_stop (vr_in s)"
  "ri_verify (vr_in (in_bytes n s)) = ri_verify (vr_in s)" "ri_verify (vr_in (in_done s)) = ri_verify (vr_in s)" "ri_verify (vr_in (in_error s)) = ri_verify (vr_in s)"
  by (simp_all add: in_bytes_def in_done_def in_error_def)

lemma counter_inv:
  assumes "vr_inv ds s"
  shows "vr_inv ds (in_bytes n s)" "vr_inv ds (in_done s)" "vr_inv ds (in_error s)"
  by (rule vr_inv_cong [OF assms]; simp)+

lemma wake_verifier_fields [simp]:
  "vr_flying (wake_verifier s) = vr_flying s" "vr_q (wake_verifier s) = vr_q s" "vr_buf (wake_verifier s) = vr_buf s"
  "vr_stop (wake_verifier s) = vr_stop s" "vr_vfy (wake_verifier s) = vr_vfy s" "vr_dropped (wake_verifier s) = vr_dropped s"
  "vr_in (wake_verifier s) = vr_in s" "pc_owns (vr_pc (wake_verifier s)) = pc_owns (vr_pc s)"
  "pc_data m (vr_pc (wake_verifier s)) = pc_data m (vr_pc s)" "vr_owned (wake_verifier s) = vr_owned s"
  by (simp_all add: wake_verifier_def vr_owned_def)

lemma verifier_ok_wake: "verifier_ok s \<Longrightarrow> verifier_ok (wake_verifier s)"
  by (cases "vr_pc s") (simp_all add: verifier_ok_def wake_verifier_def)

lemma wake_inv: "vr_inv ds s \<Longrightarrow> vr_inv ds (wake_verifier s)"
  by (simp add: vr_inv_def vr_shape_def verifier_ok_wake)

section \<open>The event thread\<close>

text \<open>A completed transfer is back with the program, and nothing in the queue refers to its buffer.\<close>

definition in_hand :: "nat \<Rightarrow> verify_run \<Rightarrow> bool" where
  "in_hand tr s \<longleftrightarrow> tr \<notin> set (vr_owned s) \<and> length (vr_owned s) < VFY_QDEPTH"

lemma in_hand_counters [simp]:
  "in_hand tr (in_bytes n s) = in_hand tr s" "in_hand tr (in_done s) = in_hand tr s" "in_hand tr (in_error s) = in_hand tr s"
  by (simp_all add: in_hand_def vr_owned_def)

lemma pc_data_other: "tr \<notin> set (pc_owns pc) \<Longrightarrow> pc_data (m(tr := d)) pc = pc_data m pc"
  by (cases pc) auto

lemma landed:
  assumes inv: "vr_inv ds s" and tr: "tr \<in> set (vr_flying s)"
    and v_def: "v = s\<lparr>vr_flying := remove1 tr (vr_flying s), vr_buf := (vr_buf s)(tr := d)\<rparr>"
  shows "vr_inv ds v" and "in_hand tr v"
proof -
  note sh = vr_shapeD [OF vr_invD [OF inv]]
  have dis: "distinct (vr_flying s)" "tr \<notin> set (vr_items s)" "tr \<notin> set (pc_owns (vr_pc s))" using sh(2) tr by (auto simp: vr_owned_def)
  have "length (remove1 tr (vr_flying s)) < length (vr_flying s)" using tr length_pos_if_in_set [OF tr] by (simp add: length_remove1)
  then have len: "length (vr_owned v) < length (vr_owned s)" by (simp add: vr_owned_def v_def)
  with dis sh(3) show "in_hand tr v" by (auto simp: in_hand_def vr_owned_def v_def)
  have "distinct (vr_owned v)" using sh(2) by (auto simp: vr_owned_def v_def distinct_remove1 dest: notin_set_remove1)
  moreover have "verifier_ok v" using sh(4) by (simp add: verifier_ok_def v_def split: vfy_pc.splits)
  moreover have "map (vr_buf v) (vr_items s) = map (vr_buf s) (vr_items s)" using dis(2) by (auto simp: v_def)
  ultimately show "vr_inv ds v" using inv len sh(3) pc_data_other [OF dis(3)] by (auto simp: vr_inv_def vr_shape_def v_def)
qed

lemma submit_inv: "vr_inv ds s \<Longrightarrow> in_hand tr s \<Longrightarrow> vr_inv ds (submit_counted ok tr s)"
  by (auto simp: submit_counted_def counter_inv vr_inv_def vr_shape_def in_hand_def vr_owned_def verifier_ok_def split: vfy_pc.splits)

text \<open>With a transfer in hand the queue has room, so nothing is dropped.\<close>

lemma enqueue_inv:
  assumes inv: "vr_inv ds s" and h: "in_hand tr s" and d: "length (vr_buf s tr) \<le> 262144" and st: "\<not> ri_stop (vr_in s)"
  shows "fst (vfy_enqueue tr s)" and "vr_inv (ds @ [vr_buf s tr]) (snd (vfy_enqueue tr s))"
proof -
  note sh = vr_shapeD [OF vr_invD [OF inv]]
  have room: "ring_count (vr_q s) < VFY_QDEPTH" using h by (simp add: in_hand_def vr_owned_def)
  then show "fst (vfy_enqueue tr s)" by (simp add: vfy_enqueue_def)
  let ?v = "s\<lparr>vr_q := ring_put VFY_QDEPTH tr (vr_q s)\<rparr>"
  have "length (vr_items s) < VFY_QDEPTH" using room by simp
  note put = ring.inv_put [OF sh(1) this] ring.view_put [OF sh(1) this]
  have "verifier_ok (wake_verifier ?v)" using sh(4,5) st by (cases "vr_pc s") (auto simp: verifier_ok_def wake_verifier_def)
  moreover have "distinct (vr_owned ?v)" "length (vr_owned ?v) \<le> VFY_QDEPTH" using sh(2) h put(2) by (auto simp: vr_owned_def in_hand_def)
  ultimately have "vr_inv (ds @ [vr_buf s tr]) (wake_verifier ?v)" using inv put d by (auto simp: vr_inv_def vr_shape_def)
  with room show "vr_inv (ds @ [vr_buf s tr]) (snd (vfy_enqueue tr s))" by (simp add: vfy_enqueue_def)
qed

lemma rate_in_cb_inv:
  assumes inv: "vr_inv ds s" and tr: "tr \<in> set (vr_flying s)" and len: "length data \<le> 262144"
  shows "vr_inv (ds @ to_verify status data s) (rate_in_cb ok tr status data s)"
proof -
  let ?v = "s\<lparr>vr_flying := remove1 tr (vr_flying s), vr_buf := (vr_buf s)(tr := data)\<rparr>"
  let ?u = "if status = XferCompleted then in_bytes (length data) ?v else in_error ?v"
  have v: "vr_inv ds ?v" "in_hand tr ?v" using landed [OF inv tr refl] by simp_all
  then have u: "vr_inv ds ?u" "in_hand tr ?u" "vr_buf ?u tr = data" "ri_stop (vr_in ?u) = ri_stop (vr_in s)" by (simp_all add: counter_inv)
  have ver: "ri_verify (vr_in ?u)" using vr_invD [OF u(1)] by (simp add: vr_shape_def)
  consider "status = XferCancelled" | "status = XferTimedOut" | "status \<noteq> XferCancelled" "status \<noteq> XferTimedOut" "ri_stop (vr_in s)"
    | "status \<noteq> XferCancelled" "status \<noteq> XferTimedOut" "\<not> ri_stop (vr_in s)" by blast
  then show ?thesis
  proof cases
    case 4
    then have q: "fst (vfy_enqueue tr ?u)" "vr_inv (ds @ [data]) (snd (vfy_enqueue tr ?u))"
      using enqueue_inv [OF u(1,2)] u(3,4) len by simp_all
    have "rate_in_cb ok tr status data s = snd (vfy_enqueue tr ?u)"
      using 4 ver u(4) q(1) unfolding rate_in_cb_def Let_def by (simp only: split_beta if_True if_False not_False_eq_True)
    with 4 q(2) show ?thesis by (simp add: to_verify_def)
  qed (use v u in \<open>auto simp: rate_in_cb_def Let_def to_verify_def counter_inv submit_inv\<close>)
qed

lemma main_step_inv: "main_step s s' \<Longrightarrow> vr_inv ds s \<Longrightarrow> vr_inv ds s'"
proof (induction rule: main_step.induct)
  case (stop_verifier s)
  have "verifier_ok (wake_verifier (s\<lparr>vr_stop := True\<rparr>))" using vr_shapeD(4) [OF vr_invD [OF stop_verifier(2)]]
    by (cases "vr_pc s") (simp_all add: verifier_ok_def wake_verifier_def)
  with stop_verifier show ?case by (auto simp: vfy_stop_def vr_inv_def vr_shape_def vr_owned_def)
qed (erule vr_inv_cong; simp)+

section \<open>The verifier thread\<close>

lemma verifier_inv:
  assumes inv: "vr_inv ds s" and st: "vfy_thread ok oks s = Some s'"
  shows "vr_inv ds s'"
proof (cases "vr_pc s")
  case VReady
  show ?thesis
  proof (cases "ring_count (vr_q s) = 0")
    case True
    with VReady st have s': "s' = s\<lparr>vr_pc := (if vr_stop s then VDone else VWait)\<rparr>" by (auto simp: vfy_thread_def split: if_splits)
    show ?thesis using inv VReady True unfolding s' by (auto simp: vr_inv_def vr_shape_def vr_owned_def verifier_ok_def)
  next
    case False
    with VReady st have s': "s' = s\<lparr>vr_q := ring_rest VFY_QDEPTH (vr_q s), vr_pc := VCheck (ring_front (vr_q s))\<rparr>"
      by (simp add: vfy_thread_def)
    have "vr_items s \<noteq> []" using False length_ring_view [of VFY_QDEPTH "vr_q s"] by fastforce
    note pop = ring.view_front [OF vr_shapeD(1) [OF vr_invD [OF inv]] this] ring.inv_rest [OF vr_shapeD(1) [OF vr_invD [OF inv]] this]
    show ?thesis using inv VReady pop(2) unfolding s' by (auto simp: vr_inv_def vr_shape_def vr_owned_def verifier_ok_def pop(1))
  qed
next
  case (VCheck tr)
  with st have s': "s' = s\<lparr>vr_vfy := vfy_process (vr_vfy s) (vr_buf s tr), vr_pc := VProgress tr\<rparr>" by (simp add: vfy_thread_def)
  obtain ps where ps: "vr_vfy s = foldl vfy_process vfy_start ps" "ds = ps @ vr_buf s tr # map (vr_buf s) (vr_items s)"
    using inv VCheck by (auto simp: vr_inv_def)
  have "vr_vfy s' = foldl vfy_process vfy_start (ps @ [vr_buf s tr])" "ds = (ps @ [vr_buf s tr]) @ map (vr_buf s) (vr_items s)"
    using ps by (simp_all add: s')
  with inv VCheck show ?thesis unfolding s' by (auto simp: vr_inv_def vr_shape_def vr_owned_def verifier_ok_def)
next
  case (VSubmit tr)
  with st inv show ?thesis by (auto simp: vfy_thread_def vr_inv_def vr_shape_def vr_owned_def verifier_ok_def split: if_splits)
qed (use st inv in \<open>auto simp: vfy_thread_def vr_inv_def vr_shape_def vr_owned_def verifier_ok_def\<close>)

lemma verify_init_inv: "distinct trs \<Longrightarrow> length trs \<le> VFY_QDEPTH \<Longrightarrow> vr_inv [] (verify_init out trs)"
  by (auto simp: verify_init_def vr_inv_def vr_shape_def vr_owned_def verifier_ok_def VFY_QDEPTH_def)

lemma verify_reach_inv: "verify_reach s0 ds s \<Longrightarrow> vr_inv [] s0 \<Longrightarrow> vr_inv ds s"
  by (induction rule: verify_reach.induct) (auto intro: rate_in_cb_inv main_step_inv verifier_inv wake_inv)

section \<open>The end of the thread\<close>

text \<open>A bound on the steps the verifier still makes, once nothing new is queued.\<close>

fun pc_work :: "vfy_pc \<Rightarrow> nat" where
  "pc_work VReady = 1"
| "pc_work (VCheck tr) = 4"
| "pc_work (VProgress tr) = 3"
| "pc_work (VSubmit tr) = 2"
| "pc_work _ = 0"

definition verify_work :: "verify_run \<Rightarrow> nat" where
  "verify_work s = 4 * ring_count (vr_q s) + pc_work (vr_pc s)"

lemma verifier_works:
  assumes "vr_shape s" and "vr_stop s \<or> ring_count (vr_q s) \<noteq> 0" and "vr_pc s \<noteq> VDone"
  shows "\<exists>s'. vfy_thread ok oks s = Some s' \<and> verify_work s' < verify_work s"
  using assms vr_shapeD(4) [OF assms(1)]
  by (cases "vr_pc s") (auto simp: vfy_thread_def verify_work_def verifier_ok_def ring_rest_def)

lemma stopped_not_waiting: "vr_shape s \<Longrightarrow> vr_stop s \<Longrightarrow> wake_verifier s = s"
  using vr_shapeD(4) [of s] by (auto simp: verifier_ok_def wake_verifier_def)

lemma stopped_events:
  assumes sh: "vr_shape s" and st: "vr_stop s"
  shows "main_step s s' \<Longrightarrow> verify_work s' = verify_work s" and "verify_work (rate_in_cb ok tr status data s) = verify_work s"
proof -
  have "s\<lparr>vr_stop := True\<rparr> = s" using st by (intro verify_run.equality) simp_all
  then have stop: "vfy_stop s = s" using stopped_not_waiting [OF sh st] by (simp add: vfy_stop_def)
  show "verify_work s' = verify_work s" if "main_step s s'"
    using that by cases (simp_all add: stop verify_work_def)
  have "ri_stop (vr_in s)" using sh st by (simp add: vr_shape_def)
  then show "verify_work (rate_in_cb ok tr status data s) = verify_work s"
    by (auto simp: rate_in_cb_def Let_def verify_work_def submit_counted_def)
qed

text \<open>What the verifier has counted when it has ended.\<close>

lemma verifier_result:
  assumes "vr_inv ds s" and "vr_pc s = VDone"
  shows "\<exists>bs bad left. blocks_of (concat ds) = (bs, bad, left) \<and> vf_blocks (vr_vfy s) = int (length bs)
    \<and> vf_words (vr_vfy s) = int (length (concat bs)) \<and> vf_bad_hdr (vr_vfy s) = int bad \<and> vf_mism (vr_vfy s) = int (breaks (concat bs))"
proof -
  have "vr_vfy s = foldl vfy_process vfy_start ds"
    using assms vr_shapeD(4) [OF vr_invD [OF assms(1)]] by (auto simp: vr_inv_def verifier_ok_def ring_view_def)
  then show ?thesis using vfy_run by (cases "blocks_of (concat ds)") auto
qed

section \<open>Property\<close>


text \<open>A run to the end: one transfer completes, both flags are set, the verifier runs until it ends.\<close>

definition demo_out :: rate_out where
  "demo_out = \<lparr>ro_stop = False, ro_done = 0, ro_bytes = 0, ro_errors = 0, ro_refill = True, ro_blocks_per_buf = 1, ro_blk_words = 2,
     ro_counter = 0, ro_echoed = None, ro_window = 0, ro_submitted = 0, ro_words_per_buf = 2, ro_held = [], ro_flying = [],
     ro_bufs = (\<lambda>_. []), ro_sent = []\<rparr>"

fun verifier_runs :: "nat \<Rightarrow> verify_run \<Rightarrow> verify_run option" where
  "verifier_runs 0 s = Some s"
| "verifier_runs (Suc n) s = Option.bind (vfy_thread True (\<lambda>_. True) s) (verifier_runs n)"

lemma verifier_runs_reach: "verify_reach s0 ds s \<Longrightarrow> verifier_runs n s = Some s' \<Longrightarrow> verify_reach s0 ds s'"
  by (induction n arbitrary: s) (auto simp: Option.bind_eq_Some_conv intro: verify_reach.verifier)

lemma demo_run:
  assumes "length d \<le> 262144"
  shows "\<exists>s. verify_reach (verify_init demo_out [0]) [d] s \<and> vr_pc s = VDone"
proof -
  let ?s0 = "verify_init demo_out [0]"
  let ?s1 = "rate_in_cb True 0 XferCompleted d ?s0"
  let ?s2 = "?s1\<lparr>vr_in := (vr_in ?s1)\<lparr>ri_stop := True\<rparr>\<rparr>"
  have "verify_reach ?s0 ([] @ to_verify XferCompleted d ?s0) ?s1"
    using assms by (intro verify_reach.complete verify_reach.init) (simp_all add: verify_init_def)
  then have "verify_reach ?s0 [d] ?s1" by (simp add: to_verify_def verify_init_def)
  then have "verify_reach ?s0 [d] ?s2" by (rule verify_reach.main) (rule main_step.stop_in)
  then have r: "verify_reach ?s0 [d] (vfy_stop ?s2)" by (rule verify_reach.main) (intro main_step.stop_verifier, simp)
  have q: "VFY_QDEPTH \<noteq> 0" by (simp add: VFY_QDEPTH_def)
  have "\<exists>s. verifier_runs 5 (vfy_stop ?s2) = Some s \<and> vr_pc s = VDone"
    by (simp add: q numeral_eq_Suc vfy_stop_def wake_verifier_def rate_in_cb_def in_bytes_def verify_init_def vfy_enqueue_def vfy_thread_def
        ring_put_def ring_rest_def ring_empty_def Let_def)
  then show ?thesis using verifier_runs_reach [OF r] by blast
qed


end
