(* ===== verification/Bulk_Flows.thy ===== *)
theory Bulk_Flows
  imports Usb_Cmd Verify_Queue "HOL-Library.Monad_Syntax"
begin

text \<open>
  The flows of \<open>tools/uhsif_bulk.c\<close> that use synchronous transfers, and the lists of lengths of its command
  line. The result \<open>None\<close> of a flow is a flow that does not return; the result code \<open>None\<close> in it is \<open>die\<close>,
  which exits with 1 at once. Sleeping, printing and
  the measured times are not modelled.
\<close>

section \<open>Lists of lengths\<close>

text \<open>C's conversion of \<open>long\<close> to \<open>int\<close>.\<close>

definition int_of_long :: "int \<Rightarrow> int" where
  "int_of_long v = sint (of_int v :: u32)"

definition is_separator :: "char \<Rightarrow> bool" where
  "is_separator c \<longleftrightarrow> c = CHR '','' \<or> c = CHR '' ''"

lemma length_digits_from: "digit_val c < b \<Longrightarrow> length (snd (digits_from b (c # cs))) \<le> length cs"
  by (simp add: digits_from_def length_dropWhile_le)

lemma number0_digits:
  assumes "number0 s = Some x"
  shows "\<exists>b c cs. x = digits_from b (c # cs) \<and> digit_val c < b \<and> length cs < length s"
proof -
  have z: "digit_val CHR ''0'' < 8" by (simp add: digit_val_def)
  obtain c r where s: "s = c # r" using assms by (cases s) (auto simp: number0_def)
  have "(\<exists>h t. r = CHR ''x'' # h # t \<and> digit_val h < 16 \<and> x = digits_from 16 (h # t)) \<or> (\<exists>h t. r = CHR ''X'' # h # t \<and> digit_val h < 16 \<and> x = digits_from 16 (h # t))
      \<or> (c = CHR ''0'' \<and> x = digits_from 8 s) \<or> (digit_val c < 10 \<and> x = digits_from 10 s)"
    using assms by (auto simp: number0_def s split: list.splits if_splits)
  then show ?thesis
  proof (elim disjE exE conjE)
    assume "c = CHR ''0''" "x = digits_from 8 s"
    then show ?thesis using z s by (intro exI [of _ 8] exI [of _ c] exI [of _ r]) simp
  next
    assume "digit_val c < 10" "x = digits_from 10 s"
    then show ?thesis using s by (intro exI [of _ 10] exI [of _ c] exI [of _ r]) simp
  next
    fix h t assume "r = CHR ''x'' # h # t" "digit_val h < 16" "x = digits_from 16 (h # t)"
    then show ?thesis using s by (intro exI [of _ 16] exI [of _ h] exI [of _ t]) simp
  next
    fix h t assume "r = CHR ''X'' # h # t" "digit_val h < 16" "x = digits_from 16 (h # t)"
    then show ?thesis using s by (intro exI [of _ 16] exI [of _ h] exI [of _ t]) simp
  qed
qed

lemma length_number0: "number0 s = Some x \<Longrightarrow> length (snd x) < length s"
  by (drule number0_digits) (auto intro: le_less_trans [OF length_digits_from])

lemma length_strtol0: "snd (strtol0 s) = s \<or> length (snd (strtol0 s)) < length s"
proof (cases "signed0 s")
  case (Some x)
  obtain neg n r where x: "x = (neg, n, r)" by (cases x)
  let ?s = "dropWhile is_space s"
  let ?t = "if take 1 ?s = ''-'' \<or> take 1 ?s = ''+'' then drop 1 ?s else ?s"
  have "number0 ?t = Some (n, r)" using Some by (auto simp: signed0_def Let_def x)
  from length_number0 [OF this] have "length r < length ?t" by simp
  moreover have "length ?t \<le> length s" using length_dropWhile_le [of is_space s] by (auto intro: le_trans [OF diff_le_self])
  ultimately show ?thesis using Some by (simp add: strtol0_def x)
qed (simp add: strtol0_def)

function parse_int_list :: "nat \<Rightarrow> string \<Rightarrow> int list" where
  "parse_int_list cap s =
     (if s = [] \<or> cap = 0 then []
      else let (v, e) = strtol0 s in if e = s then [] else int_of_long v # parse_int_list (cap - 1) (dropWhile is_separator e))"
  by pat_completeness auto
termination by (relation "measure fst") auto

declare parse_int_list.simps [simp del]

text \<open>The numbers from \<open>a\<close> to \<open>b\<close> in steps of \<open>st\<close>, at most \<open>cap\<close> of them.\<close>

fun steps_from :: "nat \<Rightarrow> int \<Rightarrow> int \<Rightarrow> int \<Rightarrow> int list" where
  "steps_from 0 st a b = []"
| "steps_from (Suc cap) st a b = (if a \<le> b then int_of_long a # steps_from cap st (a + st) b else [])"

text \<open>One item \<open>a\<close> or \<open>a-b\<close>: its ends and the rest; \<open>None\<close> when a number is missing, which ends the parse.\<close>

definition len_item :: "string \<Rightarrow> (int \<times> int \<times> string) option" where
  "len_item s =
     (let (a, e) = strtol0 s
      in if e = s then None
         else if take 1 e = ''-'' then let p = drop 1 e; (b, e) = strtol0 p in if e = p then None else Some (a, b, e)
         else Some (a, a, e))"

lemma len_item_shorter: "len_item s = Some (a, b, e) \<Longrightarrow> length e < length s"
  using length_strtol0 [of s] length_strtol0 [of "drop 1 (snd (strtol0 s))"]
  by (auto simp: len_item_def Let_def split: prod.splits if_splits)

function parse_len_spec :: "nat \<Rightarrow> int \<Rightarrow> string \<Rightarrow> int list" where
  "parse_len_spec cap st s =
     (if s = [] \<or> cap = 0 then []
      else case len_item s of
        None \<Rightarrow> []
      | Some (a, b, e) \<Rightarrow>
          let st = max 4 st; vs = steps_from cap st a b in vs @ parse_len_spec (cap - length vs) st (dropWhile is_separator e))"
  by pat_completeness auto
termination
  by (relation "measure (\<lambda>(cap, st, s). length s)") (auto dest!: len_item_shorter intro: le_less_trans [OF length_dropWhile_le])

declare parse_len_spec.simps [simp del]

section \<open>Flows\<close>

type_synonym 'd flow = "(int option \<times> 'd bulk_ctx) option"

subsection \<open>Draining\<close>

definition drain_read :: "'d bulk_lib \<Rightarrow> int \<Rightarrow> 'd bulk_ctx \<Rightarrow> bool \<times> 'd bulk_ctx" where
  "drain_read lib ms c = (let (r, data, d) = bl_in lib 4096 ms (bk_dev c) in (r < 0 \<or> take 4096 data = [], c\<lparr>bk_dev := d\<rparr>))"

fun drain_loop :: "'d bulk_lib \<Rightarrow> nat \<Rightarrow> 'd bulk_ctx \<Rightarrow> 'd bulk_ctx" where
  "drain_loop lib 0 c = c"
| "drain_loop lib (Suc n) c = (let (idle, c) = drain_read lib 30 c in if idle then c else drain_loop lib n c)"

definition dev_drain :: "'d bulk_lib \<Rightarrow> 'd bulk_ctx \<Rightarrow> 'd bulk_ctx" where
  "dev_drain lib c = (drain_loop lib 8 c)\<lparr>bk_inbuf := []\<rparr>"

text \<open>Until eight reads in a row bring nothing.\<close>

partial_function (option) deep_loop :: "'d bulk_lib \<Rightarrow> nat \<Rightarrow> 'd bulk_ctx \<Rightarrow> 'd bulk_ctx option" where
  "deep_loop lib idle c =
     (if idle < 8 then deep_loop lib (if fst (drain_read lib 50 c) then idle + 1 else 0) (snd (drain_read lib 50 c)) else Some c)"

definition dev_drain_deep :: "'d bulk_lib \<Rightarrow> 'd bulk_ctx \<Rightarrow> 'd bulk_ctx option" where
  "dev_drain_deep lib c = do { c \<leftarrow> deep_loop lib 0 c; Some (c\<lparr>bk_inbuf := []\<rparr>) }"

subsection \<open>Counters of the device\<close>

text \<open>\<open>get_stat\<close> into a variable with the value \<open>v\<close>, which a failure keeps.\<close>

definition stat_into :: "'d bulk_lib \<Rightarrow> int \<Rightarrow> u32 \<Rightarrow> 'd bulk_ctx \<Rightarrow> (u32 \<times> 'd bulk_ctx) option" where
  "stat_into lib idx v c = do { (x, c) \<leftarrow> get_stat lib idx c; Some (case x of Some y \<Rightarrow> y | None \<Rightarrow> v, c) }"

text \<open>The counters of \<open>idxs\<close>, 0 for those that cannot be read.\<close>

fun stats_read :: "'d bulk_lib \<Rightarrow> int list \<Rightarrow> 'd bulk_ctx \<Rightarrow> (u32 list \<times> 'd bulk_ctx) option" where
  "stats_read lib [] c = Some ([], c)"
| "stats_read lib (i # idxs) c = do { (v, c) \<leftarrow> stat_into lib i 0 c; (vs, c) \<leftarrow> stats_read lib idxs c; Some (v # vs, c) }"

text \<open>A command whose failure is fatal.\<close>

definition cmd_or_die :: "'d bulk_lib \<Rightarrow> nat \<Rightarrow> u32 \<Rightarrow> 'd bulk_ctx \<Rightarrow> ('d bulk_ctx \<Rightarrow> 'd flow) \<Rightarrow> 'd flow" where
  "cmd_or_die lib cid param c k = do { (r, c) \<leftarrow> send_cmd_wait lib cid param 500 c; if r < 0 then Some (None, c) else k c }"

definition cmds_or_die :: "'d bulk_lib \<Rightarrow> (nat \<times> u32) list \<Rightarrow> 'd bulk_ctx \<Rightarrow> ('d bulk_ctx \<Rightarrow> 'd flow) \<Rightarrow> 'd flow" where
  "cmds_or_die lib cmds c k = do { (r, c) \<leftarrow> run_cmds lib cmds c; if r < 0 then Some (None, c) else k c }"

subsection \<open>Checked blocks\<close>

text \<open>Whether the counters say that exactly the block sent was consumed: words, blocks and sum before and after.\<close>

definition one_block_ok :: "int \<Rightarrow> u32 \<Rightarrow> u32 list \<Rightarrow> u32 list \<Rightarrow> bool" where
  "one_block_ok len esum v0 v1 \<longleftrightarrow> sint (v1 ! 0 - v0 ! 0) = len \<and> sint (v1 ! 1 - v0 ! 1) = 1 \<and> v1 ! 2 - v0 ! 2 = esum"

fun flow_sweep :: "'d bulk_lib \<Rightarrow> int list \<Rightarrow> bool \<Rightarrow> bool \<Rightarrow> bool \<Rightarrow> int \<Rightarrow> 'd bulk_ctx \<Rightarrow> (int \<times> 'd bulk_ctx) option" where
  "flow_sweep lib [] prbs ack_req echo fails c = Some (fails, c)"
| "flow_sweep lib (len # lens) prbs ack_req echo fails c =
     (if echo
      then do { (r, esum, c) \<leftarrow> flow_send lib len prbs ack_req c; flow_sweep lib lens prbs ack_req echo (fails + of_bool (r \<noteq> 0)) c }
      else do {
        (v0, c) \<leftarrow> stats_read lib [0, 1, 5] c;
        (r, esum, c) \<leftarrow> flow_send lib len prbs ack_req c;
        if r \<noteq> 0 then flow_sweep lib lens prbs ack_req echo (fails + 1) c
        else do {
          (v1, c) \<leftarrow> stats_read lib [0, 1, 5, 6] c;
          flow_sweep lib lens prbs ack_req echo (fails + of_bool (\<not> one_block_ok len esum v0 v1)) c
        }
      })"

text \<open>The sweep repeated \<open>blocks_per\<close> times.\<close>

fun sweep_times :: "'d bulk_lib \<Rightarrow> nat \<Rightarrow> int list \<Rightarrow> bool \<Rightarrow> bool \<Rightarrow> bool \<Rightarrow> int \<Rightarrow> 'd bulk_ctx \<Rightarrow> (int \<times> 'd bulk_ctx) option" where
  "sweep_times lib 0 lens prbs ack_req echo fails c = Some (fails, c)"
| "sweep_times lib (Suc n) lens prbs ack_req echo fails c =
     do { (f, c) \<leftarrow> flow_sweep lib lens prbs ack_req echo 0 c; sweep_times lib n lens prbs ack_req echo (fails + f) c }"

text \<open>\<open>n\<close> blocks with \<open>poll\<close> after each: whether all could be sent, and the sum of those that were.\<close>

fun send_blocks :: "'d bulk_lib \<Rightarrow> ('d bulk_ctx \<Rightarrow> 'd bulk_ctx) \<Rightarrow> nat \<Rightarrow> int \<Rightarrow> bool \<Rightarrow> bool \<Rightarrow> u32 \<Rightarrow> 'd bulk_ctx \<Rightarrow>
    (bool \<times> u32 \<times> 'd bulk_ctx) option" where
  "send_blocks lib poll 0 len prbs ack_req tot c = Some (True, tot, c)"
| "send_blocks lib poll (Suc n) len prbs ack_req tot c =
     do { (r, esum, c) \<leftarrow> flow_send lib len prbs ack_req c;
          if r \<noteq> 0 then Some (False, tot, c) else send_blocks lib poll n len prbs ack_req (tot + esum) (poll c) }"

text \<open>The verdict on \<open>n\<close> blocks of \<open>len\<close> words.\<close>

definition blocks_ok :: "bool \<Rightarrow> int \<Rightarrow> int \<Rightarrow> u32 \<Rightarrow> u32 list \<Rightarrow> u32 list \<Rightarrow> bool" where
  "blocks_ok sent n len esum v0 v1 \<longleftrightarrow>
     sent \<and> v1 ! 0 - v0 ! 0 = of_int n * of_int len \<and> v1 ! 1 - v0 ! 1 = of_int n \<and> v1 ! 2 - v0 ! 2 = esum"

definition flow_stream :: "'d bulk_lib \<Rightarrow> int \<Rightarrow> int \<Rightarrow> bool \<Rightarrow> bool \<Rightarrow> 'd bulk_ctx \<Rightarrow> 'd flow" where
  "flow_stream lib n len prbs ack_req c = do {
     (v0, c) \<leftarrow> stats_read lib [0, 1, 5, 3] c;
     (sent, esum, c) \<leftarrow> send_blocks lib (\<lambda>c. c) (nat n) len prbs ack_req 0 c;
     (v1, c) \<leftarrow> stats_read lib [0, 1, 5, 3] c;
     Some (Some (if blocks_ok sent n len esum v0 v1 \<and> v1 ! 3 = v0 ! 3 then 0 else 1), c) }"

text \<open>Reading on until the deadline.\<close>

partial_function (option) read_until :: "'d bulk_lib \<Rightarrow> int \<Rightarrow> 'd bulk_ctx \<Rightarrow> 'd bulk_ctx option" where
  "read_until lib deadline c =
     (if fst (bk_now lib c) < deadline then read_until lib deadline (poll_parse lib 50 (snd (bk_now lib c))) else Some (snd (bk_now lib c)))"

text \<open>Downlink blocks while the device streams its counter; both directions are checked.\<close>

definition flow_concurrent :: "'d bulk_lib \<Rightarrow> int \<Rightarrow> int \<Rightarrow> bool \<Rightarrow> bool \<Rightarrow> 'd bulk_ctx \<Rightarrow> 'd flow" where
  "flow_concurrent lib n len prbs ack_req c = do {
     (v0, c) \<leftarrow> stats_read lib [0, 1, 5, 3] c;
     cmd_or_die lib UHSIF_CMD_TEST 1 c (\<lambda>c. do {
       (sent, esum, c) \<leftarrow> send_blocks lib (poll_parse lib 0) (nat n) len prbs ack_req 0 (c\<lparr>bk_conc_mode := True, bk_conc_started := False\<rparr>);
       c \<leftarrow> (let (now, c) = bk_now lib c in read_until lib (now + 400) c);
       (r, c) \<leftarrow> send_cmd_wait lib UHSIF_CMD_TEST 0 500 (c\<lparr>bk_conc_mode := False\<rparr>);
       (v1, c) \<leftarrow> stats_read lib [0, 1, 5, 3] c;
       Some (Some (if blocks_ok sent n len esum v0 v1 \<and> bk_conc_counter_err c = 0 then 0 else 1), c) }) }"

subsection \<open>Single commands\<close>

text \<open>The version in an acknowledgement: 2 when it is too old for the downlink.\<close>

definition flow_ver :: "'d bulk_lib \<Rightarrow> 'd bulk_ctx \<Rightarrow> 'd flow" where
  "flow_ver lib c = do {
     (r, c) \<leftarrow> send_cmd_wait lib UHSIF_CMD_RESET 0 2000 c;
     Some (Some (if r < 0 then 1 else if bk_last_ack_w2 c AND 0x1f < 3 then 2 else 0), c) }"

definition flow_diag :: "'d bulk_lib \<Rightarrow> int \<Rightarrow> bool \<Rightarrow> 'd bulk_ctx \<Rightarrow> 'd flow" where
  "flow_diag lib len prbs c = do {
     (r, esum, c) \<leftarrow> flow_send lib len prbs False c;
     (vs, c) \<leftarrow> stats_read lib [0, 1, 2, 3, 4, 5, 6, 7, 8, 9] c;
     Some (Some (if r \<noteq> 0 then 1 else 0), c) }"

text \<open>Echo switched on before \<open>send\<close> and \<open>sweep\<close>; only the last command may not fail.\<close>

definition echo_on :: "'d bulk_lib \<Rightarrow> 'd bulk_ctx \<Rightarrow> ('d bulk_ctx \<Rightarrow> 'd flow) \<Rightarrow> 'd flow" where
  "echo_on lib c k = do {
     (r, c) \<leftarrow> send_cmd_wait lib UHSIF_CMD_ENABLE 0 500 c;
     (r, c) \<leftarrow> send_cmd_wait lib UHSIF_CMD_RESET 1 500 c;
     (r, c) \<leftarrow> send_cmd_wait lib UHSIF_CMD_RESET 0 500 c;
     cmd_or_die lib CMD_BULK_SET_CFG (push_bit 20 1) c (\<lambda>c. k (c\<lparr>bk_echo_enable := True\<rparr>)) }"

section \<open>The flows return\<close>

named_theorems returns

definition returning :: "'a option \<Rightarrow> bool" where
  "returning m \<longleftrightarrow> m \<noteq> None"

lemma returning_iff: "returning m \<longleftrightarrow> (\<exists>x. m = Some x)"
  by (simp add: returning_def)

lemma returning_Some [simp]: "returning (Some x)"
  by (simp add: returning_def)

lemma bind_returns [returns]: "returning m \<Longrightarrow> (\<And>x. m = Some x \<Longrightarrow> returning (f x)) \<Longrightarrow> returning (m \<bind> f)"
  by (auto simp: returning_iff)

lemma clock_step:
  assumes "clock_runs lib"
  shows "fst (bk_now lib c) < fst (bk_now lib (poll_parse lib ms (snd (bk_now lib c))))"
proof -
  have "fst (bk_now lib c) < fst (bk_now lib (snd (bk_now lib c)))" using assms by (simp add: bk_now_parts clock_runs_def)
  then show ?thesis using poll_clock [OF assms] by (rule less_le_trans)
qed

lemma deadline_nearer:
  assumes "clock_runs lib" and "fst (bk_now lib c) < d"
  shows "nat (d - fst (bk_now lib (poll_parse lib ms (snd (bk_now lib c))))) < nat (d - fst (bk_now lib c))"
  using clock_step [OF assms(1), of c ms] assms(2) by linarith

lemma stat_loop_returns: "clock_runs lib \<Longrightarrow> returning (stat_loop lib deadline c)"
proof (induction "nat (deadline - fst (bk_now lib c))" arbitrary: c rule: less_induct)
  case less
  then show ?case using deadline_nearer [OF less(2), of c deadline 150] by (subst stat_loop.simps) simp
qed

lemma read_until_returns [returns]: "clock_runs lib \<Longrightarrow> returning (read_until lib deadline c)"
proof (induction "nat (deadline - fst (bk_now lib c))" arbitrary: c rule: less_induct)
  case less
  then show ?case using deadline_nearer [OF less(2), of c deadline 50] by (subst read_until.simps) simp
qed

lemma echo_loop_returns [returns]: "clock_runs lib \<Longrightarrow> returning (echo_loop lib deadline c)"
proof (induction "nat (deadline + 1 - fst (bk_now lib c))" arbitrary: c rule: less_induct)
  case less
  then show ?case using deadline_nearer [OF less(2), of c "deadline + 1" 200] by (subst echo_loop.simps) simp
qed

lemma send_cmd_returns' [returns]: "clock_runs lib \<Longrightarrow> returning (send_cmd_wait lib cid param ms c)"
  by (elim send_cmd_returns) (auto simp: returning_iff)

lemma wait_loop_returning: "clock_runs lib \<Longrightarrow> returning (wait_loop lib fn deadline c)"
  by (drule wait_loop_returns [of _ fn deadline c]) (auto simp: returning_iff)

lemma wait_until_returns [returns]: "clock_runs lib \<Longrightarrow> returning (wait_until lib fn ms c)"
  by (simp add: wait_until_def split_beta wait_loop_returning)

lemma cmd_retry_returns [returns]: "clock_runs lib \<Longrightarrow> returning (cmd_retry lib cid param n ms c)"
  by (induction n arbitrary: c) (auto intro!: returns split: prod.split)

lemma run_cmds_returns [returns]: "clock_runs lib \<Longrightarrow> returning (run_cmds lib cmds c)"
  by (induction cmds arbitrary: c) (auto intro!: returns split: prod.split)

lemma get_stat_returns [returns]: "clock_runs lib \<Longrightarrow> returning (get_stat lib idx c)"
  by (auto simp: get_stat_def Let_def intro!: returns stat_loop_returns split: prod.split)

lemma stat_into_returns [returns]: "clock_runs lib \<Longrightarrow> returning (stat_into lib idx v c)"
  by (auto simp: stat_into_def intro!: returns split: prod.split)

lemma stats_read_returns [returns]: "clock_runs lib \<Longrightarrow> returning (stats_read lib idxs c)"
  by (induction idxs arbitrary: c) (auto intro!: returns split: prod.split)

lemma flow_send_returns [returns]: "clock_runs lib \<Longrightarrow> returning (flow_send lib len prbs ack_req c)"
  by (auto simp: flow_send_def Let_def intro!: returns split: prod.split)

lemma flow_sweep_returns [returns]: "clock_runs lib \<Longrightarrow> returning (flow_sweep lib lens prbs ack_req echo fails c)"
  by (induction lens arbitrary: fails c) (auto intro!: returns split: prod.split)

lemma sweep_times_returns [returns]: "clock_runs lib \<Longrightarrow> returning (sweep_times lib n lens prbs ack_req echo fails c)"
  by (induction n arbitrary: fails c) (auto intro!: returns split: prod.split)

lemma send_blocks_returns [returns]: "clock_runs lib \<Longrightarrow> returning (send_blocks lib poll n len prbs ack_req tot c)"
  by (induction n arbitrary: tot c) (auto intro!: returns split: prod.split)

lemma cmd_or_die_returns [returns]: "clock_runs lib \<Longrightarrow> (\<And>c. returning (k c)) \<Longrightarrow> returning (cmd_or_die lib cid param c k)"
  by (auto simp: cmd_or_die_def intro!: returns split: prod.split)

lemma cmds_or_die_returns [returns]: "clock_runs lib \<Longrightarrow> (\<And>c. returning (k c)) \<Longrightarrow> returning (cmds_or_die lib cmds c k)"
  by (auto simp: cmds_or_die_def intro!: returns split: prod.split)

lemma flow_returns [returns]:
  assumes "clock_runs lib"
  shows "returning (flow_probe lib c)" "returning (flow_stream lib n len prbs ack_req c)" "returning (flow_concurrent lib n len prbs ack_req c)"
    "returning (flow_ver lib c)" "returning (flow_diag lib len prbs c)"
  using assms by (auto simp: flow_probe_def flow_stream_def flow_concurrent_def flow_ver_def flow_diag_def Let_def intro!: returns split: prod.split)

lemma echo_on_returns [returns]: "clock_runs lib \<Longrightarrow> (\<And>c. returning (k c)) \<Longrightarrow> returning (echo_on lib c k)"
  by (auto simp: echo_on_def intro!: returns split: prod.split)

text \<open>The deep drain ends once the device falls silent; \<open>q\<close> bounds what it can still send.\<close>

definition falls_silent :: "('d \<Rightarrow> nat) \<Rightarrow> 'd bulk_lib \<Rightarrow> bool" where
  "falls_silent q lib \<longleftrightarrow>
     (\<forall>d. let (r, data, d') = bl_in lib 4096 50 d in if r < 0 \<or> data = [] then q d' \<le> q d else q d' < q d)"

lemma deep_loop_returns: "falls_silent q lib \<Longrightarrow> returning (deep_loop lib idle c)"
proof (induction "(q (bk_dev c), 8 - idle)" arbitrary: c idle rule: wf_induct_rule [OF wf_lex_prod [OF wf_less_than wf_less_than]])
  case (1 c idle)
  obtain r data d' where i: "bl_in lib 4096 50 (bk_dev c) = (r, data, d')" by (cases "bl_in lib 4096 50 (bk_dev c)")
  have q: "if r < 0 \<or> data = [] then q d' \<le> q (bk_dev c) else q d' < q (bk_dev c)"
    using 1(2) i by (auto simp: falls_silent_def Let_def dest!: spec [of _ "bk_dev c"])
  show ?case
  proof (cases "idle < 8")
    case True
    then have "returning (deep_loop lib (if fst (drain_read lib 50 c) then idle + 1 else 0) (snd (drain_read lib 50 c)))"
      using q by (intro 1(1) [OF _ 1(2)]) (auto simp: drain_read_def i)
    then show ?thesis using True by (subst deep_loop.simps) simp
  qed (subst deep_loop.simps, simp)
qed

lemma dev_drain_deep_returns [returns]: "falls_silent q lib \<Longrightarrow> returning (dev_drain_deep lib c)"
  by (auto simp: dev_drain_deep_def intro!: bind_returns deep_loop_returns)

section \<open>Lists of lengths as text\<close>

lemma steps_from_length: "length (steps_from cap st a b) \<le> cap"
  by (induction cap arbitrary: a) simp_all

text \<open>The arrays of the program are not overrun, whatever the argument is.\<close>

lemma parse_int_list_length: "length (parse_int_list cap s) \<le> cap"
proof (induction cap s rule: parse_int_list.induct)
  case (1 cap s)
  then show ?case by (subst parse_int_list.simps) (fastforce split: prod.split)
qed

lemma parse_len_spec_length: "length (parse_len_spec cap st s) \<le> cap"
proof (induction cap st s rule: parse_len_spec.induct)
  case (1 cap st s)
  show ?case
  proof (cases "s = [] \<or> cap = 0 \<or> len_item s = None")
    case False
    then obtain a b e where i: "s \<noteq> []" "cap \<noteq> 0" "len_item s = Some (a, b, e)" by auto
    define vs where "vs = steps_from cap (max 4 st) a b"
    define rest where "rest = parse_len_spec (cap - length vs) (max 4 st) (dropWhile is_separator e)"
    have "length rest \<le> cap - length vs" unfolding rest_def vs_def using i by (intro 1 [of "(a, b, e)" a "(b, e)" b e]) simp_all
    moreover have "parse_len_spec cap st s = vs @ rest" using i by (simp add: parse_len_spec.simps [of cap st s] rest_def vs_def Let_def)
    moreover have "length vs \<le> cap" by (simp add: vs_def steps_from_length)
    ultimately show ?thesis by simp
  qed (auto simp: parse_len_spec.simps [of cap st s])
qed

text \<open>The numbers from \<open>a\<close> to \<open>b\<close> in steps.\<close>

definition len_range :: "int \<Rightarrow> int \<Rightarrow> int \<Rightarrow> int list" where
  "len_range st a b = map (\<lambda>k. a + int k * st) [0..<nat ((b - a) div st + 1)]"

lemma int_of_long_id: "- (2 ^ 31) \<le> v \<Longrightarrow> v < 2 ^ 31 \<Longrightarrow> int_of_long v = v"
  by (simp add: int_of_long_def signed_of_int signed_take_bit_int_eq_self)

lemma len_range_Cons:
  assumes "0 < st" and "a \<le> b"
  shows "len_range st a b = a # len_range st (a + st) b"
proof -
  have "b - a = b - (a + st) + 1 * st" by simp
  then have "(b - a) div st = (b - (a + st)) div st + 1" using assms(1) by (metis div_mult_self1 less_numeral_extra(3) add.commute)
  moreover have "0 \<le> (b - a) div st" using assms by (simp add: pos_imp_zdiv_nonneg_iff)
  ultimately have n: "nat ((b - a) div st + 1) = Suc (nat ((b - (a + st)) div st + 1))" by linarith
  show ?thesis unfolding len_range_def n by (simp add: upt_conv_Cons map_Suc_upt [symmetric] comp_def distrib_right add.assoc del: upt_Suc)
qed

lemma len_range_empty: "0 < st \<Longrightarrow> b < a \<Longrightarrow> len_range st a b = []"
  using pos_imp_zdiv_neg_iff [of st "b - a"] by (simp add: len_range_def)

lemma steps_from_range: "0 < st \<Longrightarrow> - (2 ^ 31) \<le> a \<Longrightarrow> b < 2 ^ 31 \<Longrightarrow> steps_from cap st a b = take cap (len_range st a b)"
proof (induction cap arbitrary: a)
  case (Suc cap)
  show ?case
  proof (cases "a \<le> b")
    case True
    then show ?thesis using Suc by (simp add: len_range_Cons int_of_long_id)
  qed (use Suc in \<open>simp add: len_range_empty\<close>)
qed simp

fun print_item :: "nat \<times> nat \<Rightarrow> string" where
  "print_item (a, b) = dec_nat a @ (if b = a then [] else CHR ''-'' # dec_nat b)"

fun print_lens :: "(nat \<times> nat) list \<Rightarrow> string" where
  "print_lens [] = []"
| "print_lens [x] = print_item x"
| "print_lens (x # xs) = print_item x @ CHR '','' # print_lens xs"

lemma dec_nat_front: obtains c cs where "dec_nat n = c # cs" "digit_val c < 10"
  using dec_digits_read [of "int n"] by (cases "dec_nat n") (auto simp: dec_nat_def dec_int_def)

lemma len_item_print:
  assumes "r = [] \<or> hd r = CHR '',''" and "a < 2 ^ 31" "b < 2 ^ 31"
  shows "len_item (print_item (a, b) @ r) = Some (int a, int b, r)"
proof -
  have e: "ends_number r" "take 1 r \<noteq> ''-''" "ends_number (CHR ''-'' # dec_nat b @ r)"
    using assms(1) by (cases r; auto simp: ends_number_def digit_val_def)+
  obtain c cs where c: "dec_nat a = c # cs" by (rule dec_nat_front)
  obtain d ds where d: "dec_nat b = d # ds" by (rule dec_nat_front)
  note a = strtol0_dec [OF e(1), of a] and ab = strtol0_dec [OF e(3), of a] and b = strtol0_dec [OF e(1), of b]
  show ?thesis
  proof (cases "a = b")
    case True
    then show ?thesis using a assms(2) e(2) c by (simp add: len_item_def)
  next
    case False
    then show ?thesis using ab b assms(2,3) c d by (simp add: len_item_def)
  qed
qed

lemma print_lens_front: "xs \<noteq> [] \<Longrightarrow> dropWhile is_separator (print_lens xs) = print_lens xs \<and> print_lens xs \<noteq> []"
proof (induction xs rule: print_lens.induct)
  case (2 x)
  obtain a b where x: "x = (a, b)" by (cases x)
  obtain c cs where "dec_nat a = c # cs" "digit_val c < 10" by (rule dec_nat_front)
  then show ?case using x by (auto simp: is_separator_def digit_val_def)
next
  case (3 x y xs)
  obtain a b where x: "x = (a, b)" by (cases x)
  obtain c cs where "dec_nat a = c # cs" "digit_val c < 10" by (rule dec_nat_front)
  then show ?case using x by (auto simp: is_separator_def digit_val_def)
qed simp

lemma parse_item:
  assumes "r = [] \<or> hd r = CHR '',''" and "a < 2 ^ 31" "b < 2 ^ 31" and "4 \<le> st"
  shows "parse_len_spec cap st (print_item (a, b) @ r) =
    take cap (len_range st (int a) (int b)) @ parse_len_spec (cap - length (len_range st (int a) (int b))) st (dropWhile is_separator r)"
proof -
  obtain c cs where c: "dec_nat a = c # cs" by (rule dec_nat_front)
  have s: "steps_from cap st (int a) (int b) = take cap (len_range st (int a) (int b))" using assms(2-4) by (intro steps_from_range) simp_all
  have m: "cap - min (length (len_range st (int a) (int b))) cap = cap - length (len_range st (int a) (int b))" by simp
  show ?thesis
    using c len_item_print [OF assms(1-3)] assms(4)
    by (cases "cap = 0") (simp_all add: parse_len_spec.simps [of _ _ "print_item (a, b) @ r"] parse_len_spec.simps [of 0] s m Let_def max_absorb2 del: print_item.simps, simp)
qed

text \<open>A printed list of ranges is read back, cut to the size of the array.\<close>

lemma parse_len_spec_print:
  assumes "4 \<le> st" and "\<forall>(a, b) \<in> set xs. a < 2 ^ 31 \<and> b < 2 ^ 31"
  shows "parse_len_spec cap st (print_lens xs) = take cap (concat (map (\<lambda>(a, b). len_range st (int a) (int b)) xs))"
  using assms(2)
proof (induction xs arbitrary: cap rule: print_lens.induct)
  case 1
  then show ?case by (simp add: parse_len_spec.simps)
next
  case (2 x)
  obtain a b where x: "x = (a, b)" by (cases x)
  then show ?case using parse_item [of "[]" a b st cap] 2 assms(1) by (simp add: parse_len_spec.simps [of _ _ "[]"] del: print_item.simps)
next
  case (3 x y xs)
  obtain a b where x: "x = (a, b)" by (cases x)
  have "dropWhile is_separator (CHR '','' # print_lens (y # xs)) = print_lens (y # xs)" using print_lens_front [of "y # xs"] by (simp add: is_separator_def)
  then show ?case using parse_item [of "CHR '','' # print_lens (y # xs)" a b st cap] 3 x assms(1)
    by (simp del: print_item.simps)
qed

end
