(* ===== verification/Bulk_Rates.thy ===== *)
theory Bulk_Rates
  imports Bulk_Flows
begin

text \<open>
  The flows of \<open>tools/uhsif_bulk.c\<close> that use asynchronous transfers: \<open>flow_rate_up\<close>, \<open>flow_rate_down\<close>,
  \<open>flow_rate_bidir\<close>, \<open>loop_once\<close> and \<open>flow_loop_sweep\<close>, with the callbacks and the verifier thread of
  \<open>Verify_Queue\<close>. libusb is the table \<open>async_lib\<close>: handling events yields a list of what happened, completions with
  their status and data and the steps of the verifier thread among them, in any order. The events handled inside a
  synchronous transfer are those of a call of their own after it; the transfer shares no data with the callbacks.
  The event thread sees the counters of the verifier between two transfers it checks. A log beside the state lists
  the data of the transfers completed until the flow stops the uplink. A buffer can always be allocated.
\<close>

section \<open>Definitions\<close>

subsection \<open>Events\<close>

text \<open>With the answers to the submissions made.\<close>

datatype bulk_event =
  InDone nat xfer_status bytes bool | OutDone nat xfer_status int bool | VerifierStep bool "nat \<Rightarrow> bool" | SpuriousWake

record 'd async_lib =
  al_thread :: "'d \<Rightarrow> bool"
  al_take_in :: "'d \<Rightarrow> nat \<Rightarrow> bool"
  al_take_out :: "'d \<Rightarrow> nat \<Rightarrow> bool"
  al_events :: "'d \<Rightarrow> bulk_event list \<times> 'd"
  al_cancel :: "nat \<Rightarrow> 'd \<Rightarrow> 'd"

text \<open>Only transfers libusb holds complete, with at most the bytes they have room for.\<close>

definition handle_event :: "nat \<Rightarrow> bulk_event \<Rightarrow> verify_run \<times> bytes list \<Rightarrow> verify_run \<times> bytes list" where
  "handle_event xsize e x =
     (case x of (s, l) \<Rightarrow>
        (case e of
           InDone tr status data ok \<Rightarrow>
             if tr \<in> set (vr_flying s)
             then (rate_in_cb ok tr status (take xsize data) s, l @ to_verify status (take xsize data) s) else (s, l)
         | OutDone tr status n ok \<Rightarrow>
             if tr \<in> set (ro_flying (vr_out s)) then (s\<lparr>vr_out := rate_out_cb ok tr status n (vr_out s)\<rparr>, l) else (s, l)
         | VerifierStep ok oks \<Rightarrow> (case vfy_thread ok oks s of Some s' \<Rightarrow> (s', l) | None \<Rightarrow> (s, l))
         | SpuriousWake \<Rightarrow> (wake_verifier s, l)))"

type_synonym 'd rated = "'d bulk_ctx \<times> verify_run \<times> bytes list"

definition bulk_events :: "'d async_lib \<Rightarrow> nat \<Rightarrow> 'd rated \<Rightarrow> 'd rated" where
  "bulk_events al xsize x =
     (case x of (c, s) \<Rightarrow> let (evs, d) = al_events al (bk_dev c) in (c\<lparr>bk_dev := d\<rparr>, fold (handle_event xsize) evs s))"

text \<open>Events while \<open>go\<close> and until the deadline.\<close>

partial_function (option) events_until :: "'d bulk_lib \<Rightarrow> 'd async_lib \<Rightarrow> nat \<Rightarrow> (verify_run \<Rightarrow> bool) \<Rightarrow> int \<Rightarrow> 'd rated \<Rightarrow> 'd rated option" where
  "events_until lib al xsize go deadline x =
     (if \<not> go (fst (snd x)) then Some x
      else if fst (bk_now lib (fst x)) < deadline
      then events_until lib al xsize go deadline (bulk_events al xsize (snd (bk_now lib (fst x)), snd x))
      else Some (snd (bk_now lib (fst x)), snd x))"

definition events_for :: "'d bulk_lib \<Rightarrow> 'd async_lib \<Rightarrow> nat \<Rightarrow> (verify_run \<Rightarrow> bool) \<Rightarrow> int \<Rightarrow> 'd rated \<Rightarrow> 'd rated option" where
  "events_for lib al xsize go ms x = (case x of (c, s, l) \<Rightarrow> let (now, c) = bk_now lib c in events_until lib al xsize go (now + ms) (c, s, l))"

definition cancel_all :: "'d async_lib \<Rightarrow> nat \<Rightarrow> 'd bulk_ctx \<Rightarrow> 'd bulk_ctx" where
  "cancel_all al depth c = c\<lparr>bk_dev := fold (al_cancel al) [0..<depth] (bk_dev c)\<rparr>"

text \<open>\<open>pthread_join\<close>: the verifier runs until it ends; a thread that sleeps for good never joins.\<close>

partial_function (option) join_verifier :: "(nat \<Rightarrow> bool) \<Rightarrow> verify_run \<Rightarrow> verify_run option" where
  "join_verifier oks s = (if vr_pc s = VDone then Some s else Option.bind (vfy_thread True oks s) (join_verifier oks))"

definition stop_in :: "verify_run \<Rightarrow> verify_run" where
  "stop_in s = s\<lparr>vr_in := (vr_in s)\<lparr>ri_stop := True\<rparr>\<rparr>"

definition stop_out :: "verify_run \<Rightarrow> verify_run" where
  "stop_out s = s\<lparr>vr_out := (vr_out s)\<lparr>ro_stop := True\<rparr>\<rparr>"

subsection \<open>Transfer pools\<close>

fun pool :: "(nat \<Rightarrow> 'a \<Rightarrow> bool \<times> 'a) \<Rightarrow> nat \<Rightarrow> nat \<Rightarrow> 'a \<Rightarrow> bool \<times> 'a" where
  "pool f i 0 x = (True, x)"
| "pool f i (Suc n) x = (let (ok, x) = f i x in if ok then pool f (i + 1) n x else (False, x))"

type_synonym 'd pools = "'d bulk_ctx \<times> nat list \<times> rate_out"

definition pool_in :: "'d async_lib \<Rightarrow> nat \<Rightarrow> 'd pools \<Rightarrow> bool \<times> 'd pools" where
  "pool_in al i x = (case x of (c, trs, rs) \<Rightarrow> if al_take_in al (bk_dev c) i then (True, c, i # trs, rs) else (False, x))"

definition pool_out :: "'d async_lib \<Rightarrow> nat \<Rightarrow> 'd pools \<Rightarrow> bool \<times> 'd pools" where
  "pool_out al i x = (case x of (c, trs, rs) \<Rightarrow> if al_take_out al (bk_dev c) i then (True, c, trs, submit_out True i rs) else (False, x))"

definition rate_out_init :: "bool \<Rightarrow> nat \<Rightarrow> nat \<Rightarrow> rate_out" where
  "rate_out_init refill blocks words =
     \<lparr>ro_stop = False, ro_done = 0, ro_bytes = 0, ro_errors = 0, ro_refill = refill, ro_blocks_per_buf = blocks, ro_blk_words = words,
      ro_counter = 0, ro_echoed = None, ro_window = 0, ro_submitted = 0, ro_words_per_buf = 0, ro_held = [], ro_flying = [],
      ro_bufs = (\<lambda>_. []), ro_sent = []\<rparr>"

text \<open>The state behind the callbacks, with the verifier thread or without it.\<close>

definition rate_run :: "bool \<Rightarrow> rate_out \<Rightarrow> nat list \<Rightarrow> verify_run" where
  "rate_run vfy_on rs trs =
     (let s = verify_init rs trs in if vfy_on then s else s\<lparr>vr_in := (vr_in s)\<lparr>ri_verify := False\<rparr>, vr_pc := VDone\<rparr>)"

definition in_out_ok :: "verify_run \<Rightarrow> bool" where
  "in_out_ok s \<longleftrightarrow> 0 < ro_bytes (vr_out s) \<and> 0 < ri_bytes (vr_in s) \<and> ri_errors (vr_in s) = 0 \<and> ro_errors (vr_out s) = 0"

definition vfy_clean :: "verify_run \<Rightarrow> bool" where
  "vfy_clean s \<longleftrightarrow> vf_mism (vr_vfy s) = 0 \<and> vf_bad_hdr (vr_vfy s) = 0 \<and> vr_dropped s = 0"

definition default_if :: "bool \<Rightarrow> int \<Rightarrow> int \<Rightarrow> int" where
  "default_if b v x = (if b then v else x)"

subsection \<open>One direction\<close>

definition flow_rate_up :: "'d bulk_lib \<Rightarrow> 'd async_lib \<Rightarrow> int \<Rightarrow> int \<Rightarrow> int \<Rightarrow> 'd bulk_ctx \<Rightarrow> 'd flow" where
  "flow_rate_up lib al seconds depth xsize c =
     (let seconds = default_if (seconds \<le> 0) 5 seconds; depth = default_if (depth \<le> 0) 8 depth;
          sz = nat (default_if (xsize < 16384) 262144 xsize)
      in cmds_or_die lib [(UHSIF_CMD_ENABLE, 0), (UHSIF_CMD_RESET, 1), (UHSIF_CMD_SPEED, 1), (UHSIF_CMD_RESET, 0), (UHSIF_CMD_UPLOAD_PARAMS, 4092)] c (\<lambda>c.
         cmd_or_die lib UHSIF_CMD_TEST 1 (dev_drain lib c) (\<lambda>c.
           let (ok, c, trs, rs) = pool (pool_in al) 0 (nat depth) (c, [], rate_out_init False 0 0)
           in if \<not> ok then Some (None, c)
              else do {
                (c, s, l) \<leftarrow> events_for lib al sz (\<lambda>_. True) (seconds * 1000) (c, rate_run False rs trs, []);
                (c, s, l) \<leftarrow> events_for lib al sz (\<lambda>s. ri_done (vr_in s) < depth) 1000 (cancel_all al (nat depth) c, stop_in s, l);
                (r, c) \<leftarrow> cmd_retry lib UHSIF_CMD_TEST 0 3 5000 c;
                (r, c) \<leftarrow> cmd_retry lib UHSIF_CMD_UPLOAD_PARAMS 4092 3 1000 c;
                Some (Some (if 0 < ri_bytes (vr_in s) \<and> ri_errors (vr_in s) = 0 then 0 else 1), c) })))"

text \<open>The template block, filled once for each block of a buffer, and a buffer made of it.\<close>

definition template_block :: "nat \<Rightarrow> bool \<Rightarrow> 'd bulk_ctx \<Rightarrow> bytes \<times> 'd bulk_ctx" where
  "template_block n prbs c =
     (let (p, st) = fold (\<lambda>b (p, st). let (p, sum, st) = fill_pattern 4092 (0x10000000 + of_nat b * 0x100000) prbs st in (p, st))
        [0..<n] ([], bk_prng c)
      in (p, c\<lparr>bk_prng := st\<rparr>))"

definition template_buf :: "bytes \<Rightarrow> nat \<Rightarrow> nat \<Rightarrow> bytes" where
  "template_buf p n i = concat (map (\<lambda>b. build_bulk 0 (of_nat (i * 7 + b)) False False 4092 p) [0..<n])"

definition blocks_per_buf :: "int \<Rightarrow> nat" where
  "blocks_per_buf xsize = max 1 (nat (default_if (xsize < 16384) (16384 * 16) xsize div 16384))"

text \<open>The two counters, read up to three times.\<close>

fun two_stats :: "'d bulk_lib \<Rightarrow> nat \<Rightarrow> 'd bulk_ctx \<Rightarrow> 'd bulk_ctx option" where
  "two_stats lib 0 c = Some c"
| "two_stats lib (Suc n) c = do {
     (x, c) \<leftarrow> get_stat lib 0 c;
     if x = None then two_stats lib n c
     else do { (x, c) \<leftarrow> get_stat lib 1 c; if x = None then two_stats lib n c else Some c } }"

definition flow_rate_down :: "'d bulk_lib \<Rightarrow> 'd async_lib \<Rightarrow> int \<Rightarrow> int \<Rightarrow> int \<Rightarrow> bool \<Rightarrow> 'd bulk_ctx \<Rightarrow> 'd flow" where
  "flow_rate_down lib al seconds depth xsize prbs c =
     (let seconds = default_if (seconds \<le> 0) 5 seconds; depth = default_if (depth \<le> 0) 8 depth; n = blocks_per_buf xsize
      in cmds_or_die lib [(UHSIF_CMD_ENABLE, 0), (UHSIF_CMD_RESET, 1), (UHSIF_CMD_RESET, 0)] c (\<lambda>c. do {
           (v0, c) \<leftarrow> stats_read lib [0, 1] (dev_drain lib c);
           let (p, c) = template_block n prbs c;
           let f = (\<lambda>i (c, trs, rs). pool_out al i (c, trs, rs\<lparr>ro_bufs := (ro_bufs rs)(i := template_buf p n i)\<rparr>));
           let (ok, c, trs, rs) = pool f 0 (nat depth) (c, [], rate_out_init False 0 0);
           if \<not> ok then Some (None, c)
           else do {
             (c, s, l) \<leftarrow> events_for lib al 0 (\<lambda>_. True) (seconds * 1000) (c, rate_run False rs trs, []);
             (c, s, l) \<leftarrow> events_for lib al 0 (\<lambda>s. ro_done (vr_out s) < depth) 2000 (cancel_all al (nat depth) c, stop_out s, l);
             c \<leftarrow> two_stats lib 3 c;
             Some (Some (if 0 < ro_bytes (vr_out s) \<and> ro_errors (vr_out s) = 0 then 0 else 1), c) } }))"

subsection \<open>Both directions\<close>

text \<open>A buffer of \<open>n\<close> blocks of \<open>w\<close> words each, numbered from the index of the transfer; \<open>base\<close> is the first word of a block.\<close>

definition fill_plain :: "(nat \<Rightarrow> u32) \<Rightarrow> nat \<Rightarrow> nat \<Rightarrow> bool \<Rightarrow> nat \<Rightarrow> 'd bulk_ctx \<Rightarrow> bytes \<times> 'd bulk_ctx" where
  "fill_plain base n w prbs i c =
     (let (buf, st) = fold (\<lambda>b (buf, st).
            let (p, sum, st) = fill_pattern w (base (i * 7 + b)) prbs st
            in (buf @ build_bulk 0 (of_nat (i * 7 + b)) False False w p, st)) [0..<n] ([], bk_prng c)
      in (buf, c\<lparr>bk_prng := st\<rparr>))"

text \<open>The IN and the OUT transfer with index \<open>i\<close>.\<close>

definition pool_both :: "'d async_lib \<Rightarrow> nat \<Rightarrow> bool \<Rightarrow> nat \<Rightarrow> 'd pools \<Rightarrow> bool \<times> 'd pools" where
  "pool_both al n prbs i x =
     (let (ok, c, trs, rs) = pool_in al i x
      in if \<not> ok then (False, c, trs, rs)
         else let (c, rs) = (if ro_refill rs then (c, rate_out_fill_buf i rs)
                             else let (buf, c) = fill_plain (\<lambda>k. push_bit 20 (ucast (of_nat k :: u8))) n 4092 prbs i c in (c, rs\<lparr>ro_bufs := (ro_bufs rs)(i := buf)\<rparr>))
              in pool_out al i (c, trs, rs))"

text \<open>One counter, read up to \<open>n\<close> times.\<close>

fun stat_tries :: "'d bulk_lib \<Rightarrow> nat \<Rightarrow> 'd bulk_ctx \<Rightarrow> 'd bulk_ctx option" where
  "stat_tries lib 0 c = Some c"
| "stat_tries lib (Suc n) c = do { (x, c) \<leftarrow> get_stat lib 0 c; if x = None then stat_tries lib n c else Some c }"

text \<open>\<open>vfy_stop\<close> with its join, when there is a verifier.\<close>

definition end_verifier :: "'d async_lib \<Rightarrow> bool \<Rightarrow> 'd rated \<Rightarrow> 'd rated option" where
  "end_verifier al vfy_on x =
     (case x of (c, s, l) \<Rightarrow> if vfy_on then map_option (\<lambda>s. (c, s, l)) (join_verifier (al_take_out al (bk_dev c)) (vfy_stop s)) else Some (c, s, l))"

definition flow_rate_bidir :: "'d bulk_lib \<Rightarrow> 'd async_lib \<Rightarrow> int \<Rightarrow> int \<Rightarrow> int \<Rightarrow> bool \<Rightarrow> bool \<Rightarrow> bool \<Rightarrow> 'd bulk_ctx \<Rightarrow> 'd flow" where
  "flow_rate_bidir lib al seconds depth xsize prbs echo verify c =
     (let seconds = default_if (seconds \<le> 0) 5 seconds; depth = default_if (depth \<le> 0) 8 depth; n = blocks_per_buf xsize;
          sz = nat (default_if (xsize < 16384) (16384 * 16) xsize)
      in cmds_or_die lib [(UHSIF_CMD_ENABLE, 0), (UHSIF_CMD_RESET, 1), (UHSIF_CMD_RESET, 0), (UHSIF_CMD_UPLOAD_PARAMS, 4092)] c (\<lambda>c. do {
           c \<leftarrow> stat_tries lib 3 (dev_drain lib c);
           cmd_or_die lib (if echo then CMD_BULK_SET_CFG else UHSIF_CMD_TEST) (if echo then push_bit 20 1 else 1) c (\<lambda>c.
             let vfy_on = (verify \<and> \<not> prbs \<and> al_thread al (bk_dev c));
                 (ok, c, trs, rs) = pool (pool_both al n prbs) 0 (nat depth) (c, [], rate_out_init (echo \<and> vfy_on) n 4092)
             in if \<not> ok then Some (None, c)
                else do {
                  (c, s, l) \<leftarrow> events_for lib al sz (\<lambda>_. True) (seconds * 1000) (c, rate_run vfy_on rs trs, []);
                  (c, s, l) \<leftarrow> end_verifier al vfy_on (c, stop_out (stop_in s), l);
                  (c, s, l) \<leftarrow> events_for lib al sz (\<lambda>s. ri_done (vr_in s) < depth \<or> ro_done (vr_out s) < depth) 2000 (cancel_all al (nat depth) c, s, l);
                  (r, c) \<leftarrow> (if echo then cmd_retry lib CMD_BULK_SET_CFG 0 3 1000 c else cmd_retry lib UHSIF_CMD_TEST 0 3 5000 c);
                  (r, c) \<leftarrow> cmd_retry lib UHSIF_CMD_UPLOAD_PARAMS 4092 3 1000 c;
                  c \<leftarrow> stat_tries lib 3 c;
                  Some (Some (if in_out_ok s \<and> (vfy_on \<longrightarrow> vfy_clean s) then 0 else 1), c) }) }))"

subsection \<open>One length of the loopback sweep\<close>

record loop_stat =
  lt_words :: int
  lt_bytes :: int
  lt_vfy_blocks :: int
  lt_vfy_words :: int
  lt_vfy_mism :: int
  lt_vfy_hdr :: int
  lt_vfy_drop :: int
  lt_expected_words :: int
  lt_errors_in :: int
  lt_errors_out :: int
  lt_ran :: bool

definition loop_stat_init :: "nat \<Rightarrow> loop_stat" where
  "loop_stat_init words =
     \<lparr>lt_words = int words, lt_bytes = int words * 4, lt_vfy_blocks = 0, lt_vfy_words = 0, lt_vfy_mism = 0, lt_vfy_hdr = 0, lt_vfy_drop = 0,
      lt_expected_words = 0, lt_errors_in = 0, lt_errors_out = 0, lt_ran = False\<rparr>"

text \<open>The OUT transfer may be held back, and libusb may refuse it.\<close>

definition pool_loop :: "'d async_lib \<Rightarrow> nat \<Rightarrow> nat \<Rightarrow> 'd pools \<Rightarrow> bool \<times> 'd pools" where
  "pool_loop al words i x =
     (let (ok, c, trs, rs) = pool_in al i x
      in if \<not> ok then (False, c, trs, rs)
         else let (c, rs) = (if ro_refill rs then (c, rs)
                             else let (buf, c) = fill_plain (\<lambda>k. push_bit 20 (of_nat k)) 1 words False i c in (c, rs\<lparr>ro_bufs := (ro_bufs rs)(i := buf)\<rparr>))
              in (True, c, trs, rate_out_hold_or_submit (al_take_out al (bk_dev c) i) i rs))"

text \<open>One round of the loop: events, the counter of consumed words at most every millisecond, held transfers.\<close>

definition consumed_poll :: "'d bulk_lib \<Rightarrow> 'd async_lib \<Rightarrow> u32 \<Rightarrow> int \<times> 'd rated \<Rightarrow> (int \<times> 'd rated) option" where
  "consumed_poll lib al w0 x =
     (case x of (last_poll, c, s, l) \<Rightarrow>
        if 0 < ro_window (vr_out s)
        then let (now, c) = bk_now lib c
             in if 1 \<le> now - last_poll
                then do {
                  (v, c) \<leftarrow> get_stat lib 0 c;
                  let (c, s, l) = bulk_events al 262144 (c, s, l);
                  let s = (case v of Some w \<Rightarrow> s\<lparr>vr_out := (vr_out s)\<lparr>ro_echoed := Some (uint (w - w0))\<rparr>\<rparr> | None \<Rightarrow> s);
                  let (now, c) = bk_now lib c;
                  Some (now, c, s, l) }
                else Some (last_poll, c, s, l)
        else Some (last_poll, c, s, l))"

definition release_held :: "'d async_lib \<Rightarrow> 'd rated \<Rightarrow> 'd rated" where
  "release_held al x = (case x of (c, s, l) \<Rightarrow> (c, s\<lparr>vr_out := rate_out_release (al_take_out al (bk_dev c)) (vr_out s)\<rparr>, l))"

partial_function (option) loop_rounds :: "'d bulk_lib \<Rightarrow> 'd async_lib \<Rightarrow> u32 \<Rightarrow> int \<Rightarrow> int \<times> 'd rated \<Rightarrow> 'd rated option" where
  "loop_rounds lib al w0 deadline x =
     (if fst (bk_now lib (fst (snd x))) < deadline
      then Option.bind (consumed_poll lib al w0 (fst x, bulk_events al 262144 (snd (bk_now lib (fst (snd x))), snd (snd x))))
             (\<lambda>y. loop_rounds lib al w0 deadline (fst y, release_held al (snd y)))
      else Some (snd (bk_now lib (fst (snd x))), snd (snd x)))"

definition loop_result :: "bool \<Rightarrow> verify_run \<Rightarrow> loop_stat \<Rightarrow> loop_stat" where
  "loop_result vfy_on s st =
     (let st = st\<lparr>lt_errors_in := ri_errors (vr_in s), lt_errors_out := ro_errors (vr_out s)\<rparr>
      in if vfy_on
         then st\<lparr>lt_vfy_blocks := vf_blocks (vr_vfy s), lt_vfy_words := vf_words (vr_vfy s), lt_vfy_mism := vf_mism (vr_vfy s),
                 lt_vfy_hdr := vf_bad_hdr (vr_vfy s), lt_vfy_drop := vr_dropped s\<rparr>
         else st)"

definition loop_verdict :: "bool \<Rightarrow> verify_run \<Rightarrow> loop_stat \<Rightarrow> int" where
  "loop_verdict vfy_on s st =
     (if in_out_ok s \<and> (vfy_on \<longrightarrow> vfy_clean s \<and> vf_words (vr_vfy s) = lt_expected_words st) then 0 else 1)"

text \<open>The downlink state at the start of a run.\<close>

definition loop_out :: "bool \<Rightarrow> bool \<Rightarrow> int \<Rightarrow> nat \<Rightarrow> rate_out" where
  "loop_out vfy_on verify window words =
     (rate_out_init vfy_on 1 words)
       \<lparr>ro_words_per_buf := int words, ro_echoed := (if verify \<and> 0 < window then Some 0 else None),
        ro_window := (if verify \<and> 0 < window then window else 0)\<rparr>"

text \<open>From the first submission to the last event: the state of the callbacks, with the number of words expected.\<close>

definition loop_transfers :: "'d bulk_lib \<Rightarrow> 'd async_lib \<Rightarrow> bool \<Rightarrow> u32 \<Rightarrow> int \<Rightarrow> int \<Rightarrow> 'd rated \<Rightarrow> (int \<times> 'd rated) option" where
  "loop_transfers lib al vfy_on w0 ms depth x = do {
     let (c, s, l) = x;
     let (now, c) = bk_now lib c;
     (c, s, l) \<leftarrow> loop_rounds lib al w0 (now + ms) (0, c, s, l);
     (c, s, l) \<leftarrow> events_for lib al 262144 (\<lambda>s. ro_done (vr_out s) + int (length (ro_held (vr_out s))) < depth) 3000 (c, stop_out s, l);
     (v, c) \<leftarrow> get_stat lib 0 c;
     let (c, s, l) = bulk_events al 262144 (c, s, l);
     let expected = (case v of Some w1 \<Rightarrow> uint (w1 - w0) | None \<Rightarrow> ro_submitted (vr_out s));
     (c, s, l) \<leftarrow> (if vfy_on then events_for lib al 262144 (\<lambda>s. vf_words (vr_vfy s) < expected) 10000 (c, s, l) else Some (c, s, l));
     (c, s, l) \<leftarrow> end_verifier al vfy_on (c, stop_in s, l);
     (c, s, l) \<leftarrow> events_for lib al 262144 (\<lambda>_. True) 1000 (cancel_all al (nat depth) c, s, l);
     Some (expected, c, s, l) }"

text \<open>The run of a length once the device is set up, and the clean-up after it.\<close>

definition loop_run :: "'d bulk_lib \<Rightarrow> 'd async_lib \<Rightarrow> nat \<Rightarrow> int \<Rightarrow> int \<Rightarrow> int \<Rightarrow> bool \<Rightarrow> u32 \<times> 'd bulk_ctx \<Rightarrow> (int option \<times> loop_stat \<times> bytes list \<times> 'd bulk_ctx) option" where
  "loop_run lib al words ms depth window verify x = do {
     let (w0, c) = x;
     let vfy_on = (verify \<and> al_thread al (bk_dev c));
     let (ok, c, trs, rs) = pool (pool_loop al words) 0 (nat depth) (c, [], loop_out vfy_on verify window words);
     if \<not> ok then Some (None, loop_stat_init words, [], c)
     else do {
       (expected, c, s, l) \<leftarrow> loop_transfers lib al vfy_on w0 ms depth (c, rate_run vfy_on rs trs, []);
       (r, c) \<leftarrow> cmd_retry lib CMD_BULK_SET_CFG 0 3 1000 c;
       (r, c) \<leftarrow> cmd_retry lib UHSIF_CMD_UPLOAD_PARAMS 4092 3 1000 c;
       c \<leftarrow> dev_drain_deep lib c;
       let st = loop_result vfy_on s ((loop_stat_init words)\<lparr>lt_ran := True, lt_expected_words := expected\<rparr>);
       Some (Some (loop_verdict vfy_on s st), st, l, c) } }"

definition loop_once :: "'d bulk_lib \<Rightarrow> 'd async_lib \<Rightarrow> nat \<Rightarrow> int \<Rightarrow> int \<Rightarrow> int \<Rightarrow> bool \<Rightarrow> 'd bulk_ctx \<Rightarrow> (int option \<times> loop_stat \<times> bytes list \<times> 'd bulk_ctx) option" where
  "loop_once lib al words ms depth window verify c = do {
     (r, c) \<leftarrow> run_cmds lib [(UHSIF_CMD_ENABLE, 0), (UHSIF_CMD_RESET, 1), (UHSIF_CMD_RESET, 0)] c;
     if r < 0 then Some (Some (-1), loop_stat_init words, [], c)
     else do {
       (r, c) \<leftarrow> cmd_retry lib UHSIF_CMD_UPLOAD_PARAMS 3072 3 1000 c;
       (r, c) \<leftarrow> send_cmd_wait lib CMD_BULK_SET_CFG (push_bit 20 1) 500 c;
       if r < 0 then Some (Some (-1), loop_stat_init words, [], c)
       else do {
         c \<leftarrow> dev_drain_deep lib c;
         x \<leftarrow> stat_into lib 0 0 c;
         loop_run lib al words (default_if (ms \<le> 0) 200 ms) (default_if (depth \<le> 0) 8 depth) window verify x } } }"

text \<open>The lengths one after another; how many failed. A run that dies ends the program.\<close>

fun sweep_lens :: "'d bulk_lib \<Rightarrow> 'd async_lib \<Rightarrow> int list \<Rightarrow> int \<Rightarrow> int \<Rightarrow> int \<Rightarrow> int \<Rightarrow> 'd bulk_ctx \<Rightarrow> 'd flow" where
  "sweep_lens lib al [] ms depth window fails c = Some (Some fails, c)"
| "sweep_lens lib al (len # lens) ms depth window fails c =
     (if len < 16 \<or> 16368 < len \<or> len mod 4 \<noteq> 0 then sweep_lens lib al lens ms depth window (fails + 1) c
      else do {
        (rc, st, l, c) \<leftarrow> loop_once lib al (nat (len div 4)) ms depth window True c;
        (case rc of None \<Rightarrow> Some (None, c)
         | Some r \<Rightarrow> sweep_lens lib al lens ms depth window (fails + of_bool (r \<noteq> 0)) c) })"

definition flow_loop_sweep :: "'d bulk_lib \<Rightarrow> 'd async_lib \<Rightarrow> int list \<Rightarrow> int \<Rightarrow> int \<Rightarrow> int \<Rightarrow> 'd bulk_ctx \<Rightarrow> 'd flow" where
  "flow_loop_sweep lib al lens ms depth window c =
     map_option (\<lambda>(r, c). (map_option (\<lambda>fails. if fails = 0 then 0 else 1) r, c)) (sweep_lens lib al lens ms depth window 0 c)"

section \<open>The verifier within the flows\<close>

text \<open>The state behind the callbacks is one of the interleavings of \<open>Verify_Queue\<close>, and the log is its input.\<close>

definition rated_reach :: "verify_run \<Rightarrow> 'd rated \<Rightarrow> bool" where
  "rated_reach s0 x \<longleftrightarrow> verify_reach s0 (snd (snd x)) (fst (snd x))"

definition rated_done :: "'d rated \<Rightarrow> bool" where
  "rated_done x \<longleftrightarrow> vr_pc (fst (snd x)) = VDone"

lemma handle_event_reach:
  "sz \<le> 262144 \<Longrightarrow> verify_reach s0 (snd x) (fst x) \<Longrightarrow> verify_reach s0 (snd (handle_event sz e x)) (fst (handle_event sz e x))"
  by (auto simp: handle_event_def split_beta split: bulk_event.split option.split
      intro: verify_reach.complete verify_reach.main [OF _ main_step.out_complete] verify_reach.verifier verify_reach.spurious)

lemma handle_event_done: "vr_pc (fst x) = VDone \<Longrightarrow> vr_pc (fst (handle_event sz e x)) = VDone"
  by (auto simp: handle_event_def split_beta rate_in_cb_def submit_counted_def vfy_enqueue_def vfy_thread_def wake_verifier_def Let_def
      split: bulk_event.split)

lemma fold_reach: "sz \<le> 262144 \<Longrightarrow> verify_reach s0 (snd x) (fst x) \<Longrightarrow> verify_reach s0 (snd (fold (handle_event sz) evs x)) (fst (fold (handle_event sz) evs x))"
  by (induction evs arbitrary: x) (simp_all add: handle_event_reach)

lemma fold_done: "vr_pc (fst x) = VDone \<Longrightarrow> vr_pc (fst (fold (handle_event sz) evs x)) = VDone"
  by (induction evs arbitrary: x) (simp_all add: handle_event_done)

text \<open>What the loops keep, if handling events does.\<close>

definition kept :: "nat \<Rightarrow> (verify_run \<times> bytes list \<Rightarrow> bool) \<Rightarrow> bool" where
  "kept sz P \<longleftrightarrow> (\<forall>e x. P x \<longrightarrow> P (handle_event sz e x))"

lemma kept_reach: "sz \<le> 262144 \<Longrightarrow> kept sz (\<lambda>x. verify_reach s0 (snd x) (fst x))"
  by (simp add: kept_def handle_event_reach)

lemma kept_done: "kept sz (\<lambda>x. vr_pc (fst x) = VDone)"
  by (simp add: kept_def handle_event_done)

lemma kept_handle: "kept sz P \<Longrightarrow> P x \<Longrightarrow> P (handle_event sz e x)"
  unfolding kept_def by blast

lemma fold_kept: "kept sz P \<Longrightarrow> P x \<Longrightarrow> P (fold (handle_event sz) evs x)"
  by (induction evs arbitrary: x) (simp_all only: fold_simps kept_handle)

lemma bulk_events_kept: "kept sz P \<Longrightarrow> P (snd x) \<Longrightarrow> P (snd (bulk_events al sz x))"
  by (simp only: bulk_events_def split_beta Let_def snd_conv fold_kept)

lemma events_until_kept:
  assumes "events_until lib al sz go deadline x = Some y" and "kept sz P" and "P (snd x)"
  shows "P (snd y)"
proof -
  have "kept sz P \<longrightarrow> P (snd x) \<longrightarrow> P (snd y)"
  proof (rule events_until.raw_induct [of "\<lambda>lib al sz go deadline x y. kept sz P \<longrightarrow> P (snd x) \<longrightarrow> P (snd y)" "(((((lib, al), sz), go), deadline), x)" y,
        unfolded prod.case, OF _ assms(1)])
    fix w lib al sz go deadline x y
    assume ih: "\<And>lib al sz go deadline x y. w lib al sz go deadline x = Some y \<Longrightarrow> kept sz P \<longrightarrow> P (snd x) \<longrightarrow> P (snd y)"
      and y: "(if \<not> go (fst (snd x)) then Some x
        else if fst (bk_now lib (fst x)) < deadline then w lib al sz go deadline (bulk_events al sz (snd (bk_now lib (fst x)), snd x))
        else Some (snd (bk_now lib (fst x)), snd x)) = Some y"
    show "kept sz P \<longrightarrow> P (snd x) \<longrightarrow> P (snd y)"
      using y ih bulk_events_kept [of sz P "(snd (bk_now lib (fst x)), snd x)" al] by (auto simp del: split_paired_All split: if_splits)
  qed
  with assms(2,3) show ?thesis by blast
qed

lemma events_for_kept: "events_for lib al sz go ms x = Some y \<Longrightarrow> kept sz P \<Longrightarrow> P (snd x) \<Longrightarrow> P (snd y)"
  unfolding events_for_def split_beta Let_def by (drule events_until_kept) simp_all

lemma join_reach:
  assumes "join_verifier oks s = Some s'"
  shows "vr_pc s' = VDone" and "verify_reach s0 ds s \<Longrightarrow> verify_reach s0 ds s'"
proof -
  have "vr_pc s' = VDone \<and> (verify_reach s0 ds s \<longrightarrow> verify_reach s0 ds s')"
  proof (rule join_verifier.raw_induct [of "\<lambda>oks s s'. vr_pc s' = VDone \<and> (verify_reach s0 ds s \<longrightarrow> verify_reach s0 ds s')", OF _ assms])
    fix w oks s s'
    assume ih: "\<And>oks s s'. w oks s = Some s' \<Longrightarrow> vr_pc s' = VDone \<and> (verify_reach s0 ds s \<longrightarrow> verify_reach s0 ds s')"
      and s: "(if vr_pc s = VDone then Some s else Option.bind (vfy_thread True oks s) (w oks)) = Some s'"
    show "vr_pc s' = VDone \<and> (verify_reach s0 ds s \<longrightarrow> verify_reach s0 ds s')"
    proof (cases "vr_pc s = VDone")
      case False
      then obtain t where t: "vfy_thread True oks s = Some t" "w oks t = Some s'" using s by (auto simp: Option.bind_eq_Some_conv)
      then show ?thesis using ih [OF t(2)] verify_reach.verifier [of s0 ds s] by blast
    qed (use s in simp)
  qed
  then show "vr_pc s' = VDone" "verify_reach s0 ds s \<Longrightarrow> verify_reach s0 ds s'" by blast+
qed

text \<open>The rounds of a loopback run.\<close>

lemma consumed_poll_reach:
  assumes "consumed_poll lib al w0 x = Some y" and "rated_reach s0 (snd x)"
  shows "rated_reach s0 (snd y)"
proof -
  obtain lp c s l where x: "x = (lp, c, s, l)" by (cases x)
  have k: "verify_reach s0 (snd (snd (bulk_events al 262144 z))) (fst (snd (bulk_events al 262144 z)))" if "verify_reach s0 (snd (snd z)) (fst (snd z))" for z :: "'a rated"
    using bulk_events_kept [OF kept_reach, of 262144 s0 z al] that by simp
  show ?thesis
  proof (cases "0 < ro_window (vr_out s) \<and> 1 \<le> fst (bk_now lib c) - lp")
    case True
    then obtain v c1 where v: "get_stat lib 0 (snd (bk_now lib c)) = Some (v, c1)" using assms(1) by (auto simp: x consumed_poll_def split_beta Option.bind_eq_Some_conv)
    obtain c2 s2 l2 where e: "bulk_events al 262144 (c1, s, l) = (c2, s2, l2)" by (cases "bulk_events al 262144 (c1, s, l)")
    have "verify_reach s0 l2 s2" using k [of "(c1, s, l)"] assms(2) by (simp add: e x rated_reach_def)
    then show ?thesis using assms(1) True verify_reach.main [OF _ main_step.consumed]
      by (auto simp: x consumed_poll_def split_beta v e rated_reach_def split: option.splits)
  qed (use assms in \<open>auto simp: x consumed_poll_def split_beta rated_reach_def split: if_splits\<close>)
qed

lemma release_held_reach: "rated_reach s0 x \<Longrightarrow> rated_reach s0 (release_held al x)"
  by (auto simp: release_held_def rated_reach_def split_beta intro: verify_reach.main [OF _ main_step.release])

lemma loop_rounds_reach:
  assumes "loop_rounds lib al w0 deadline x = Some y" and "rated_reach s0 (snd x)"
  shows "rated_reach s0 y"
proof -
  have "rated_reach s0 (snd x) \<longrightarrow> rated_reach s0 y"
  proof (rule loop_rounds.raw_induct [of "\<lambda>lib al w0 deadline x y. rated_reach s0 (snd x) \<longrightarrow> rated_reach s0 y" "((((lib, al), w0), deadline), x)" y,
        unfolded prod.case, OF _ assms(1)], rule impI)
    fix w lib al w0 deadline x y
    assume ih: "\<And>lib al w0 deadline x y. w lib al w0 deadline x = Some y \<Longrightarrow> rated_reach s0 (snd x) \<longrightarrow> rated_reach s0 y"
      and y: "(if fst (bk_now lib (fst (snd x))) < deadline
        then Option.bind (consumed_poll lib al w0 (fst x, bulk_events al 262144 (snd (bk_now lib (fst (snd x))), snd (snd x))))
               (\<lambda>y. w lib al w0 deadline (fst y, release_held al (snd y)))
        else Some (snd (bk_now lib (fst (snd x))), snd (snd x))) = Some y"
      and x: "rated_reach s0 (snd x)"
    let ?e = "bulk_events al 262144 (snd (bk_now lib (fst (snd x))), snd (snd x))"
    have e: "rated_reach s0 ?e" using bulk_events_kept [OF kept_reach, of 262144 s0 "(snd (bk_now lib (fst (snd x))), snd (snd x))" al] x
      by (simp add: rated_reach_def)
    show "rated_reach s0 y"
    proof (cases "fst (bk_now lib (fst (snd x))) < deadline")
      case True
      then obtain z where z: "consumed_poll lib al w0 (fst x, ?e) = Some z" "w lib al w0 deadline (fst z, release_held al (snd z)) = Some y"
        using y by (auto simp: Option.bind_eq_Some_conv)
      have "rated_reach s0 (snd z)" using consumed_poll_reach [OF z(1)] e by simp
      then show ?thesis using ih [OF z(2)] by (simp add: release_held_reach)
    qed (use x y in \<open>auto simp: rated_reach_def\<close>)
  qed
  with assms(2) show ?thesis by blast
qed

lemma stop_reach:
  "verify_reach s0 l s \<Longrightarrow> verify_reach s0 l (stop_in s)" "verify_reach s0 l s \<Longrightarrow> verify_reach s0 l (stop_out s)"
  unfolding stop_in_def stop_out_def by (auto intro: verify_reach.main main_step.stop_in main_step.stop_out)

lemma end_verifier_reach:
  assumes "end_verifier al True (c, stop_in s, l) = Some y" and "verify_reach s0 l s"
  shows "rated_reach s0 y" and "rated_done y"
proof -
  obtain t where t: "join_verifier (al_take_out al (bk_dev c)) (vfy_stop (stop_in s)) = Some t" "y = (c, t, l)"
    using assms(1) by (auto simp: end_verifier_def)
  have "verify_reach s0 l (vfy_stop (stop_in s))"
    using stop_reach(1) [OF assms(2)] by (rule verify_reach.main) (intro main_step.stop_verifier, simp add: stop_in_def)
  then show "rated_reach s0 y" "rated_done y" using join_reach [OF t(1)] by (auto simp: rated_reach_def rated_done_def t(2))
qed

lemma loop_transfers_reach:
  assumes "loop_transfers lib al True w0 ms depth (c, s0, []) = Some (expected, y)"
  shows "rated_reach s0 y" and "rated_done y"
proof -
  note kr = kept_reach [of 262144 s0, simplified]
  obtain x1 x2 v x4 e x5 where
    1: "loop_rounds lib al w0 (fst (bk_now lib c) + ms) (0, snd (bk_now lib c), s0, []) = Some x1"
    and 2: "events_for lib al 262144 (\<lambda>s. ro_done (vr_out s) + int (length (ro_held (vr_out s))) < depth) 3000
      (fst x1, stop_out (fst (snd x1)), snd (snd x1)) = Some x2"
    and 3: "get_stat lib 0 (fst x2) = Some v"
    and 4: "events_for lib al 262144 (\<lambda>s. vf_words (vr_vfy s) < e) 10000 (bulk_events al 262144 (snd v, snd x2)) = Some x4"
    and 5: "end_verifier al True (fst x4, stop_in (fst (snd x4)), snd (snd x4)) = Some x5"
    and 6: "events_for lib al 262144 (\<lambda>_. True) 1000 (cancel_all al (nat depth) (fst x5), snd x5) = Some y"
    using assms unfolding loop_transfers_def
    by (simp del: split_paired_Ex split_paired_All add: split_beta Let_def Option.bind_eq_Some_conv) blast
  have "rated_reach s0 x1" using loop_rounds_reach [OF 1] verify_reach.init [of s0] by (simp add: rated_reach_def)
  then have "verify_reach s0 (snd (snd x1)) (stop_out (fst (snd x1)))" by (simp add: rated_reach_def stop_reach)
  then have "verify_reach s0 (snd (snd x2)) (fst (snd x2))" using events_for_kept [OF 2 kr] by simp
  then have "verify_reach s0 (snd (snd (bulk_events al 262144 (snd v, snd x2)))) (fst (snd (bulk_events al 262144 (snd v, snd x2))))"
    using bulk_events_kept [OF kr, of "(snd v, snd x2)" al] by simp
  then have "verify_reach s0 (snd (snd x4)) (fst (snd x4))" using events_for_kept [OF 4 kr] by simp
  from end_verifier_reach [OF 5 this] have e: "rated_reach s0 x5" "rated_done x5" .
  show "rated_reach s0 y" using events_for_kept [OF 6 kr] e(1) by (simp add: rated_reach_def)
  show "rated_done y" using events_for_kept [OF 6 kept_done] e(2) by (simp add: rated_done_def)
qed

lemma pool_loop_trs: "pool (pool_loop al words) i n (c, trs, rs) = (True, c', trs', rs') \<Longrightarrow> trs' = rev [i..<i + n] @ trs"
proof (induction n arbitrary: i c trs rs)
  case (Suc n)
  obtain ok c1 trs1 rs1 where 1: "pool_loop al words i (c, trs, rs) = (ok, c1, trs1, rs1)" by (cases "pool_loop al words i (c, trs, rs)")
  with Suc(2) have ok: "ok" and "pool (pool_loop al words) (i + 1) n (c1, trs1, rs1) = (True, c', trs', rs')" by (auto split: if_splits)
  from Suc(1) [OF this(2)] have "trs' = rev [i + 1..<i + 1 + n] @ trs1" .
  moreover have "trs1 = i # trs" using 1 ok by (auto simp: pool_loop_def pool_in_def Let_def split_beta split: if_splits)
  ultimately show ?case by (simp add: upt_conv_Cons del: upt_Suc)
qed simp

section \<open>The flows return\<close>

text \<open>A clock that neither a written packet nor the handling of events turns back.\<close>

definition clock_async :: "'d bulk_lib \<Rightarrow> 'd async_lib \<Rightarrow> bool" where
  "clock_async lib al \<longleftrightarrow> clock_runs lib \<and> (\<forall>p d. fst (bl_now lib d) \<le> fst (bl_now lib (snd (snd (bl_out lib p d)))))
     \<and> (\<forall>d. fst (bl_now lib d) \<le> fst (bl_now lib (snd (al_events al d))))"

abbreviation time_at :: "'d bulk_lib \<Rightarrow> 'd bulk_ctx \<Rightarrow> int" where
  "time_at lib c \<equiv> fst (bk_now lib c)"

lemma clock_asyncD: "clock_async lib al \<Longrightarrow> clock_runs lib"
  by (simp add: clock_async_def)

lemma bulk_time_now: "clock_runs lib \<Longrightarrow> time_at lib c < time_at lib (snd (bk_now lib c))"
  by (simp add: bk_now_parts clock_runs_def)

lemma time_dev: "bk_dev c = bk_dev c' \<Longrightarrow> time_at lib c = time_at lib c'"
  by (simp add: bk_now_parts)

lemma time_events: "clock_async lib al \<Longrightarrow> time_at lib (fst x) \<le> time_at lib (fst (bulk_events al sz x))"
  by (simp add: bulk_events_def split_beta Let_def bk_now_parts clock_async_def)

lemma events_until_returns: "clock_async lib al \<Longrightarrow> returning (events_until lib al sz go deadline x)"
proof (induction "nat (deadline - time_at lib (fst x))" arbitrary: x rule: less_induct)
  case less
  let ?x = "bulk_events al sz (snd (bk_now lib (fst x)), snd x)"
  have "time_at lib (fst x) < time_at lib (fst ?x)"
    using bulk_time_now [OF clock_asyncD [OF less(2)], of "fst x"] time_events [OF less(2), of "(snd (bk_now lib (fst x)), snd x)" sz] by simp
  then have "time_at lib (fst x) < deadline \<Longrightarrow> returning (events_until lib al sz go deadline ?x)" by (intro less(1) [OF _ less(2)]) linarith
  then show ?case by (subst events_until.simps) simp
qed

lemma events_for_returns [returns]: "clock_async lib al \<Longrightarrow> returning (events_for lib al sz go ms x)"
  by (simp add: events_for_def split_beta Let_def events_until_returns)

lemma stat_loop_time:
  assumes "stat_loop lib deadline c = Some c'" and "clock_runs lib"
  shows "time_at lib c \<le> time_at lib c'"
proof -
  have "clock_runs lib \<longrightarrow> time_at lib c \<le> time_at lib c'"
  proof (rule stat_loop.raw_induct [of "\<lambda>lib deadline c c'. clock_runs lib \<longrightarrow> time_at lib c \<le> time_at lib c'", OF _ assms(1)], rule impI)
    fix w lib deadline c c'
    assume ih: "\<And>lib deadline c c'. w lib deadline c = Some c' \<Longrightarrow> clock_runs lib \<longrightarrow> time_at lib c \<le> time_at lib c'"
      and c: "(if time_at lib c < deadline \<and> \<not> bk_want_found c then w lib deadline (poll_parse lib 150 (snd (bk_now lib c))) else Some (snd (bk_now lib c))) = Some c'"
      and lib: "clock_runs lib"
    show "time_at lib c \<le> time_at lib c'"
    proof (cases "time_at lib c < deadline \<and> \<not> bk_want_found c")
      case True
      then have "w lib deadline (poll_parse lib 150 (snd (bk_now lib c))) = Some c'" using c by simp
      then have "time_at lib (poll_parse lib 150 (snd (bk_now lib c))) \<le> time_at lib c'" using ih lib by blast
      then show ?thesis using clock_step [OF lib, of c 150] by linarith
    next
      case False
      then have "c' = snd (bk_now lib c)" using c by auto
      then show ?thesis using bulk_time_now [OF lib, of c] by simp
    qed
  qed
  with assms(2) show ?thesis by blast
qed

lemma get_stat_time:
  assumes "get_stat lib idx c = Some (v, c')" and "clock_async lib al"
  shows "time_at lib c \<le> time_at lib c'"
proof -
  let ?c = "c\<lparr>bk_want_idx := idx, bk_want_found := False, bk_want_val := 0\<rparr>"
  let ?pkt = "bulk_build_cmd (bk_seq c) CMD_BULK_STATS (of_int idx)"
  obtain n c1 where w: "raw_write lib ?pkt ?c = (n, c1)" by (cases "raw_write lib ?pkt ?c")
  have "bk_dev c1 = snd (snd (bl_out lib ?pkt (bk_dev c)))" using w by (auto simp: raw_write_def split_beta Let_def split: if_splits)
  then have 1: "time_at lib c \<le> time_at lib c1" using assms(2) by (simp add: bk_now_parts clock_async_def)
  have 2: "time_at lib c1 = time_at lib (c1\<lparr>bk_seq := bk_seq c1 + 1\<rparr>)" by (simp add: bk_now_parts)
  note lib = clock_asyncD [OF assms(2)]
  show ?thesis
  proof (cases "n < 0")
    case True
    then show ?thesis using assms(1) w 1 by (simp add: get_stat_def Let_def)
  next
    case False
    then have "stat_loop lib (fst (bk_now lib (c1\<lparr>bk_seq := bk_seq c1 + 1\<rparr>)) + 800) (snd (bk_now lib (c1\<lparr>bk_seq := bk_seq c1 + 1\<rparr>))) = Some c'"
      using assms(1) w by (auto simp: get_stat_def Let_def split_beta Option.bind_eq_Some_conv)
    then show ?thesis using stat_loop_time lib 1 2 bulk_time_now [OF lib, of "c1\<lparr>bk_seq := bk_seq c1 + 1\<rparr>"] by fastforce
  qed
qed

lemma consumed_poll_time:
  assumes "consumed_poll lib al w0 x = Some y" and "clock_async lib al"
  shows "time_at lib (fst (snd x)) \<le> time_at lib (fst (snd y))"
proof -
  obtain lp c s l where x: "x = (lp, c, s, l)" by (cases x)
  note lib = clock_asyncD [OF assms(2)]
  show ?thesis
  proof (cases "0 < ro_window (vr_out s) \<and> 1 \<le> time_at lib c - lp")
    case True
    then obtain v c1 where v: "get_stat lib 0 (snd (bk_now lib c)) = Some (v, c1)"
      using assms(1) by (auto simp: x consumed_poll_def split_beta Option.bind_eq_Some_conv)
    let ?e = "bulk_events al 262144 (c1, s, l)"
    have "fst (snd y) = snd (bk_now lib (fst ?e))"
      using assms(1) True by (auto simp: x consumed_poll_def split_beta v)
    moreover have "time_at lib c < time_at lib (snd (bk_now lib c))" "time_at lib (fst ?e) < time_at lib (snd (bk_now lib (fst ?e)))" by (rule bulk_time_now [OF lib])+
    moreover have "time_at lib c1 \<le> time_at lib (fst ?e)" using time_events [OF assms(2), of "(c1, s, l)"] by simp
    ultimately show ?thesis using get_stat_time [OF v assms(2)] by (simp add: x)
  next
    case False
    then show ?thesis using assms(1) bulk_time_now [OF lib, of c] by (auto simp: x consumed_poll_def split_beta split: if_splits)
  qed
qed

lemma consumed_poll_returns [returns]: "clock_async lib al \<Longrightarrow> returning (consumed_poll lib al w0 x)"
  by (auto simp: consumed_poll_def Let_def split_beta dest!: clock_asyncD intro!: returns)

lemma loop_rounds_returns [returns]: "clock_async lib al \<Longrightarrow> returning (loop_rounds lib al w0 deadline x)"
proof (induction "nat (deadline - time_at lib (fst (snd x)))" arbitrary: x rule: less_induct)
  case less
  note lib = clock_asyncD [OF less(2)]
  let ?c = "snd (bk_now lib (fst (snd x)))"
  let ?e = "bulk_events al 262144 (?c, snd (snd x))"
  obtain y where y: "consumed_poll lib al w0 (fst x, ?e) = Some y" using consumed_poll_returns [OF less(2), of w0 "(fst x, ?e)"] by (auto simp: returning_iff)
  have "time_at lib (fst (snd x)) < time_at lib ?c" by (rule bulk_time_now [OF lib])
  also have "\<dots> \<le> time_at lib (fst ?e)" using time_events [OF less(2), of "(?c, snd (snd x))"] by simp
  also have "\<dots> \<le> time_at lib (fst (snd y))" using consumed_poll_time [OF y less(2)] by simp
  also have "\<dots> = time_at lib (fst (release_held al (snd y)))" by (simp add: release_held_def split_beta)
  finally have t: "time_at lib (fst (snd x)) < time_at lib (fst (release_held al (snd y)))" .
  then have "time_at lib (fst (snd x)) < deadline \<Longrightarrow> returning (loop_rounds lib al w0 deadline (fst y, release_held al (snd y)))"
    by (intro less(1) [OF _ less(2)]) simp
  then show ?case by (subst loop_rounds.simps) (simp add: y)
qed

lemma vfy_thread_stop: "vfy_thread ok oks s = Some s' \<Longrightarrow> vr_stop s' = vr_stop s"
  by (auto simp: vfy_thread_def split: vfy_pc.splits if_splits)

lemma join_returns: "vr_inv ds s \<Longrightarrow> vr_stop s \<Longrightarrow> returning (join_verifier oks s)"
proof (induction "verify_work s" arbitrary: s rule: less_induct)
  case less
  show ?case
  proof (cases "vr_pc s = VDone")
    case False
    then obtain t where t: "vfy_thread True oks s = Some t" "verify_work t < verify_work s" using verifier_works [OF vr_invD [OF less(2)]] less(3) by blast
    have "returning (join_verifier oks t)" using t less(3) by (intro less(1) verifier_inv [OF less(2)]) (auto dest: vfy_thread_stop)
    then show ?thesis using False t by (subst join_verifier.simps) simp
  qed (subst join_verifier.simps, simp)
qed

lemma end_verifier_returns: "(vfy_on \<Longrightarrow> vr_inv ds s) \<Longrightarrow> ri_stop (vr_in s) \<Longrightarrow> returning (end_verifier al vfy_on (c, s, l))"
proof (cases vfy_on)
  case True
  assume "vfy_on \<Longrightarrow> vr_inv ds s" and st: "ri_stop (vr_in s)"
  then have "vr_inv ds (vfy_stop s)" using True main_step_inv main_step.stop_verifier by blast
  moreover have "vr_stop (vfy_stop s)" by (simp add: vfy_stop_def)
  ultimately show ?thesis using join_returns True by (fastforce simp: end_verifier_def returning_iff)
qed (simp add: end_verifier_def)

lemma rate_run_inv: "vfy_on \<Longrightarrow> distinct trs \<Longrightarrow> length trs \<le> 32 \<Longrightarrow> vr_inv [] (rate_run vfy_on rs trs)"
  by (simp add: rate_run_def verify_init_inv VFY_QDEPTH_def)

lemma loop_transfers_returns:
  assumes "clock_async lib al" and "vfy_on \<Longrightarrow> vr_inv [] s0"
  shows "returning (loop_transfers lib al vfy_on w0 ms depth (c, s0, []))"
proof -
  note kr = kept_reach [of 262144 s0, simplified] and lib = clock_asyncD [OF assms(1)]
  have ev: "verify_reach s0 (snd (snd y)) (fst (snd y))"
    if "events_for lib al 262144 go ms x = Some y" "verify_reach s0 (snd (snd x)) (fst (snd x))" for go ms x y
    using events_for_kept [OF that(1) kr] that(2) by simp
  have stop: "returning (end_verifier al vfy_on (c, stop_in s, l))" if "verify_reach s0 l s" for c s l
    using verify_reach_inv [OF stop_reach(1) [OF that]] assms(2) by (intro end_verifier_returns [of _ l]) (auto simp: stop_in_def)
  have be: "verify_reach s0 (snd (snd (bulk_events al 262144 x))) (fst (snd (bulk_events al 262144 x)))"
    if "verify_reach s0 (snd (snd x)) (fst (snd x))" for x :: "'a rated" using bulk_events_kept [OF kr, of x al] that by simp
  obtain c1 s1 l1 where 1: "loop_rounds lib al w0 (time_at lib c + ms) (0, snd (bk_now lib c), s0, []) = Some (c1, s1, l1)"
    using loop_rounds_returns [OF assms(1), of w0 "time_at lib c + ms" "(0, snd (bk_now lib c), s0, [])"] by (auto simp: returning_iff)
  have r1: "verify_reach s0 l1 (stop_out s1)" using loop_rounds_reach [OF 1] verify_reach.init [of s0] by (simp add: rated_reach_def stop_reach)
  let ?go2 = "\<lambda>s. ro_done (vr_out s) + int (length (ro_held (vr_out s))) < depth" and ?x1 = "(c1, stop_out s1, l1)"
  obtain c2 s2 l2 where 2: "events_for lib al 262144 ?go2 3000 ?x1 = Some (c2, s2, l2)"
    using events_for_returns [OF assms(1), of 262144 ?go2 3000 ?x1] unfolding returning_iff by (auto simp: split_paired_Ex)
  obtain v c3 where 3: "get_stat lib 0 c2 = Some (v, c3)" using get_stat_returns [OF lib, of 0 c2] by (auto simp: returning_iff)
  obtain c4 s4 l4 where b: "bulk_events al 262144 (c3, s2, l2) = (c4, s4, l4)" by (cases "bulk_events al 262144 (c3, s2, l2)")
  define e where "e = (case v of Some w1 \<Rightarrow> uint (w1 - w0) | None \<Rightarrow> ro_submitted (vr_out s4))"
  have r4: "verify_reach s0 l4 s4" using ev [OF 2] r1 be [of "(c3, s2, l2)"] b by simp
  obtain c5 s5 l5 where 4: "(if vfy_on then events_for lib al 262144 (\<lambda>s. vf_words (vr_vfy s) < e) 10000 (c4, s4, l4) else Some (c4, s4, l4)) = Some (c5, s5, l5)"
    using events_for_returns [OF assms(1), of 262144 "\<lambda>s. vf_words (vr_vfy s) < e" 10000 "(c4, s4, l4)"] unfolding returning_iff by (cases vfy_on) auto
  have r5: "verify_reach s0 l5 s5" using 4 ev [of _ 10000 "(c4, s4, l4)" "(c5, s5, l5)"] r4 by (simp split: if_splits)
  obtain c6 s6 l6 where 5: "end_verifier al vfy_on (c5, stop_in s5, l5) = Some (c6, s6, l6)" using stop [OF r5, of c5] by (auto simp: returning_iff)
  obtain c7 s7 l7 where 6: "events_for lib al 262144 (\<lambda>_. True) 1000 (cancel_all al (nat depth) c6, s6, l6) = Some (c7, s7, l7)"
    using events_for_returns [OF assms(1), of 262144 "\<lambda>_. True" 1000 "(cancel_all al (nat depth) c6, s6, l6)"] by (auto simp: returning_iff)
  have "loop_transfers lib al vfy_on w0 ms depth (c, s0, []) = Some (e, c7, s7, l7)"
    using 4 5 unfolding loop_transfers_def e_def by (cases vfy_on) (auto simp: split_beta [of _ "bk_now lib c"] Let_def 1 2 3 b 6)
  then show ?thesis by simp
qed

lemma pool_both_trs: "pool (pool_both al k prbs) i n (c, trs, rs) = (True, c', trs', rs') \<Longrightarrow> trs' = rev [i..<i + n] @ trs"
proof (induction n arbitrary: i c trs rs)
  case (Suc n)
  obtain ok c1 trs1 rs1 where 1: "pool_both al k prbs i (c, trs, rs) = (ok, c1, trs1, rs1)" by (cases "pool_both al k prbs i (c, trs, rs)")
  with Suc(2) have ok: "ok" and "pool (pool_both al k prbs) (i + 1) n (c1, trs1, rs1) = (True, c', trs', rs')" by (auto split: if_splits)
  from Suc(1) [OF this(2)] have "trs' = rev [i + 1..<i + 1 + n] @ trs1" .
  moreover have "trs1 = i # trs" using 1 ok by (auto simp: pool_both_def pool_in_def pool_out_def Let_def split_beta split: if_splits)
  ultimately show ?case by (simp add: upt_conv_Cons del: upt_Suc)
qed simp

lemma loop_run_returns:
  assumes "clock_async lib al" and "falls_silent q lib" and "depth \<le> 32"
  shows "returning (loop_run lib al words ms depth window verify x)"
proof -
  note lib = clock_asyncD [OF assms(1)]
  have inv: "vr_inv [] (rate_run True rs trs)" if "pool (pool_loop al words) 0 (nat depth) (c, [], rs0) = (True, c', trs, rs)" for c rs0 c' trs rs
    using pool_loop_trs [OF that] assms(3) by (intro rate_run_inv) auto
  show ?thesis
    unfolding loop_run_def Let_def
    by (auto split: prod.split intro!: bind_returns cmd_retry_returns dev_drain_deep_returns [OF assms(2)] loop_transfers_returns [OF assms(1)] lib) (erule inv)
qed

lemma loop_once_returns:
  assumes "clock_async lib al" and "falls_silent q lib" and "depth \<le> 32"
  shows "returning (loop_once lib al words ms depth window verify c)"
proof -
  note lib = clock_asyncD [OF assms(1)] and run = loop_run_returns [OF assms(1,2)]
  have "default_if (depth \<le> 0) 8 depth \<le> 32" using assms(3) by (simp add: default_if_def)
  then show ?thesis
    unfolding loop_once_def
    by (auto split: prod.split intro!: bind_returns run_cmds_returns cmd_retry_returns send_cmd_returns' stat_into_returns dev_drain_deep_returns [OF assms(2)] run lib)
qed

lemma sweep_lens_returns:
  assumes "clock_async lib al" and "falls_silent q lib" and "depth \<le> 32"
  shows "returning (sweep_lens lib al lens ms depth window fails c)"
  by (induction lens arbitrary: fails c) (auto intro!: bind_returns loop_once_returns assms split: option.split)

lemma flow_loop_sweep_returns [returns]:
  "clock_async lib al \<Longrightarrow> falls_silent q lib \<Longrightarrow> depth \<le> 32 \<Longrightarrow> returning (flow_loop_sweep lib al lens ms depth window c)"
  using sweep_lens_returns by (fastforce simp: flow_loop_sweep_def returning_iff)

lemma two_stats_returns [returns]: "clock_runs lib \<Longrightarrow> returning (two_stats lib n c)"
  by (induction n arbitrary: c) (auto intro!: returns split: prod.split)

lemma stat_tries_returns [returns]: "clock_runs lib \<Longrightarrow> returning (stat_tries lib n c)"
  by (induction n arbitrary: c) (auto intro!: returns split: prod.split)

lemma one_way_returns [returns]:
  assumes "clock_async lib al"
  shows "returning (flow_rate_up lib al seconds depth xsize c)" "returning (flow_rate_down lib al seconds depth xsize prbs c)"
  using assms clock_asyncD [OF assms] by (auto simp: flow_rate_up_def flow_rate_down_def Let_def intro!: returns split: prod.split)

lemma events_stop_inv:
  assumes "events_for lib al sz go ms (c, s0, []) = Some (c', s, l)" and "sz \<le> 262144" and "vr_inv [] s0"
  shows "vr_inv l (stop_out (stop_in s))"
proof -
  have "verify_reach s0 l s" using events_for_kept [OF assms(1) kept_reach [OF assms(2), of s0]] verify_reach.init [of s0] by simp
  then show ?thesis by (intro verify_reach_inv [OF _ assms(3)] stop_reach)
qed

text \<open>With verification the transfers must not be larger than the scratch buffer of the verifier allows.\<close>

lemma flow_rate_bidir_returns [returns]:
  assumes "clock_async lib al" and "verify \<Longrightarrow> depth \<le> 32 \<and> xsize \<le> 262144"
  shows "returning (flow_rate_bidir lib al seconds depth xsize prbs echo verify c)"
proof -
  note lib = clock_asyncD [OF assms(1)]
  let ?d = "default_if (depth \<le> 0) 8 depth" and ?sz = "nat (default_if (xsize < 16384) 262144 xsize)"
  have stop: "returning (end_verifier al vfy_on (c2, stop_out (stop_in s), l))"
    if "pool (pool_both al n prbs) 0 (nat ?d) (c, [], rs0) = (True, c', trs, rs)"
      "events_for lib al ?sz go ms (c', rate_run vfy_on rs trs, []) = Some (c2, s, l)" "vfy_on \<Longrightarrow> verify" for c rs0 c' trs rs n go ms c2 s l vfy_on
  proof (rule end_verifier_returns [of _ l])
    assume on: vfy_on
    with that(3) assms(2) have v: "depth \<le> 32" "xsize \<le> 262144" by simp_all
    have "vr_inv [] (rate_run vfy_on rs trs)" using pool_both_trs [OF that(1)] v(1) on by (intro rate_run_inv) (auto simp: default_if_def)
    moreover have "?sz \<le> 262144" using v(2) by (simp add: default_if_def nat_le_iff)
    ultimately show "vr_inv l (stop_out (stop_in s))" using events_stop_inv [OF that(2)] by blast
  qed (simp add: stop_out_def stop_in_def)
  show ?thesis
    unfolding flow_rate_bidir_def Let_def
    by (auto split: prod.split intro!: cmds_or_die_returns cmd_or_die_returns bind_returns stat_tries_returns events_for_returns [OF assms(1)] cmd_retry_returns lib)
      (rule stop, assumption, assumption, simp)+
qed

section \<open>The verdict\<close>

text \<open>What the answer, the report and the log of a run have to do with each other.\<close>

definition loop_sound :: "int option \<Rightarrow> loop_stat \<Rightarrow> bytes list \<Rightarrow> bool" where
  "loop_sound rc st l \<longleftrightarrow> (rc = Some 0 \<longrightarrow> lt_ran st)
    \<and> (lt_ran st \<longrightarrow> (\<exists>bs bad left. blocks_of (concat l) = (bs, bad, left)
         \<and> lt_vfy_blocks st = int (length bs) \<and> lt_vfy_words st = int (length (concat bs)) \<and> lt_vfy_hdr st = int bad
         \<and> lt_vfy_mism st = int (breaks (concat bs)) \<and> lt_vfy_drop st = 0
         \<and> (rc = Some 0 \<longrightarrow> bad = 0 \<and> breaks (concat bs) = 0 \<and> int (length (concat bs)) = lt_expected_words st
              \<and> lt_errors_in st = 0 \<and> lt_errors_out st = 0)))"

lemma loop_sound_early: "rc \<noteq> Some 0 \<Longrightarrow> loop_sound rc (loop_stat_init words) []"
  by (simp add: loop_sound_def loop_stat_init_def)

lemma loop_run_sound:
  assumes r: "loop_run lib al words ms depth window True x = Some (rc, st, l, c')" and "\<forall>d. al_thread al d" and "depth \<le> 32"
  shows "loop_sound rc st l"
proof -
  obtain w0 c where x: "x = (w0, c)" by (cases x)
  obtain ok c1 trs rs where p: "pool (pool_loop al words) 0 (nat depth) (c, [], loop_out True True window words) = (ok, c1, trs, rs)"
    by (cases "pool (pool_loop al words) 0 (nat depth) (c, [], loop_out True True window words)")
  note r = r [unfolded loop_run_def x Let_def prod.case]
  show ?thesis
  proof (cases ok)
    case False
    then show ?thesis using r p assms(2) by (auto simp: loop_sound_early)
  next
    case True
    obtain e c2 s where t: "loop_transfers lib al True w0 ms depth (c1, verify_init rs trs, []) = Some (e, c2, s, l)"
      and st: "st = loop_result True s ((loop_stat_init words)\<lparr>lt_ran := True, lt_expected_words := e\<rparr>)" and rc: "rc = Some (loop_verdict True s st)"
      using r p assms(2) True by (auto simp: rate_run_def Option.bind_eq_Some_conv)
    have "vr_inv [] (verify_init rs trs)" using pool_loop_trs [OF p [unfolded eqTrueI [OF True]]] assms(3) by (intro verify_init_inv) (auto simp: VFY_QDEPTH_def)
    moreover have "verify_reach (verify_init rs trs) l s" "vr_pc s = VDone" using loop_transfers_reach [OF t] by (simp_all add: rated_reach_def rated_done_def)
    ultimately have inv: "vr_inv l s" "vr_pc s = VDone" using verify_reach_inv by blast+
    have "vr_dropped s = 0" using vr_invD [OF inv(1)] by (simp add: vr_shape_def)
    with verifier_result [OF inv] show ?thesis
      by (auto simp: st rc loop_sound_def loop_result_def loop_verdict_def in_out_ok_def vfy_clean_def)
  qed
qed

lemma loop_once_sound:
  assumes "loop_once lib al words ms depth window True c = Some (rc, st, l, c')" and "\<forall>d. al_thread al d" and "depth \<le> 32"
  shows "loop_sound rc st l"
proof -
  have "default_if (depth \<le> 0) 8 depth \<le> 32" using assms(3) by (simp add: default_if_def)
  with assms(1) show ?thesis
    by (auto simp: loop_once_def Option.bind_eq_Some_conv loop_sound_early split: if_splits dest: loop_run_sound [OF _ assms(2)])
qed

section \<open>A run that passes\<close>

text \<open>
  A device that acknowledges every command, whose clock advances by 100 ms with each reading: the OUT transfer completes, its
  four words come back in one IN transfer, the verifier checks them, and the device counts them as consumed.
\<close>

type_synonym sweep_dev = "int \<times> u32 \<times> bulk_event list list"

definition sweep_lib :: "sweep_dev bulk_lib" where
  "sweep_lib = \<lparr>bl_in = (\<lambda>n ms (t, v, q). if ms = 50 then (-1, [], (t, v, q)) else (0, blk_header 0 v 0 0, (t, v, q))),
     bl_out = (\<lambda>p (t, v, q). (0, int (length p), (t, v, q))), bl_now = (\<lambda>(t, v, q). (t, (100 + t, v, q)))\<rparr>"

definition sweep_al :: "sweep_dev async_lib" where
  "sweep_al = \<lparr>al_thread = (\<lambda>_. True), al_take_in = (\<lambda>_ _. True), al_take_out = (\<lambda>_ _. True),
     al_events = (\<lambda>(t, v, q). case q of [] \<Rightarrow> ([], (t, v, q)) | b # q \<Rightarrow> (b, (t, 4, q))), al_cancel = (\<lambda>_ d. d)\<rparr>"

definition sweep_echo :: bytes where
  "sweep_echo = blk_header 0 0 0 4 @ concat (map (\<lambda>i. le32 (of_nat i)) [0..<4])"

definition sweep_events :: "bulk_event list list" where
  "sweep_events =
     [[OutDone 0 XferCompleted 32 True, InDone 0 XferCompleted sweep_echo True, VerifierStep True (\<lambda>_. True),
        VerifierStep True (\<lambda>_. True), VerifierStep True (\<lambda>_. True), VerifierStep True (\<lambda>_. True)],
      [OutDone 0 XferCompleted 32 True]]"

definition sweep_at :: "sweep_dev bulk_ctx \<Rightarrow> sweep_dev \<Rightarrow> bool" where
  "sweep_at c d \<longleftrightarrow> bk_dev c = d \<and> bk_inbuf c = []"

lemma sweep_clock: "clock_async sweep_lib sweep_al" "falls_silent (\<lambda>_. 0) sweep_lib" "al_thread sweep_al d"
  by (auto simp: clock_async_def clock_runs_def falls_silent_def sweep_lib_def sweep_al_def Let_def split: list.split)

lemma sweep_now: "sweep_at c (t, v, q) \<Longrightarrow> bk_now sweep_lib c = (t, c\<lparr>bk_dev := (100 + t, v, q)\<rparr>)"
  by (simp add: sweep_at_def bk_now_def sweep_lib_def)

lemma sweep_now_at: "sweep_at c (t, v, q) \<Longrightarrow> sweep_at (c\<lparr>bk_dev := d\<rparr>) d"
  by (simp add: sweep_at_def)

lemma sweep_write: "sweep_at c (t, v, q) \<Longrightarrow> raw_write sweep_lib p c = (int (length p), c)"
  by (simp add: sweep_at_def raw_write_def sweep_lib_def)

lemma ack_w3: "blk_w3 0 0 = 0"
  by (simp add: blk_w3_def)

lemma sweep_parse:
  assumes "bk_inbuf c = blk_header 0 v 0 0"
  shows "parse_blocks c = (bulk_block v 0 0 [] c)\<lparr>bk_inbuf := []\<rparr>"
proof -
  let ?h = "blk_header 0 v 0 0"
  have l: "length ?h = 16" by (simp add: blk_header_def Let_def)
  have w: "of_le32 (drop 4 ?h) = 0" "of_le32 (drop 8 ?h) = v" "of_le32 (drop 12 ?h) = 0" "uhsif_blk_hdr_ok (of_le32 ?h) 0 v 0"
    using blk_header_words [of 0 v 0 0 "[]"] blk_header_ok [of 0 v 0 0 "[]"] by (simp_all add: ack_w3)
  have n: "uhsif_blk_payload_len ?h = 0" by (simp add: uhsif_blk_payload_len_def w)
  show ?thesis by (subst parse_blocks.simps) (simp add: assms l w n Let_def parse_blocks.simps)
qed

lemma sweep_poll:
  assumes "sweep_at c (t, v, q)" and "ms \<noteq> 50"
  shows "sweep_at (poll_parse sweep_lib ms c) (t, v, q)" and "bk_acks (poll_parse sweep_lib ms c) = bk_acks c + 1"
    and "bk_want_idx c = 0 \<Longrightarrow> bk_want_found (poll_parse sweep_lib ms c) \<and> bk_want_val (poll_parse sweep_lib ms c) = v"
proof -
  let ?c = "c\<lparr>bk_inbuf := blk_header 0 v 0 0\<rparr>"
  have l: "length (blk_header 0 v 0 0) = 16" by (simp add: blk_header_def Let_def)
  have ne: "blk_header 0 v 0 0 \<noteq> []" using l by force
  have "dev_poll_in sweep_lib ms c = (16, ?c)"
    using assms l ne by (auto simp: sweep_at_def dev_poll_in_def sweep_lib_def INBUF_SIZE_def)
  then have "poll_parse sweep_lib ms c = (bulk_block v 0 0 [] ?c)\<lparr>bk_inbuf := []\<rparr>"
    by (simp add: poll_parse_def sweep_parse)
  then show "sweep_at (poll_parse sweep_lib ms c) (t, v, q)" "bk_acks (poll_parse sweep_lib ms c) = bk_acks c + 1"
    "bk_want_idx c = 0 \<Longrightarrow> bk_want_found (poll_parse sweep_lib ms c) \<and> bk_want_val (poll_parse sweep_lib ms c) = v"
    using assms(1) by (simp_all add: sweep_at_def bulk_block_def bulk_block_dev Let_def)
qed

lemma sweep_cmd:
  assumes "sweep_at c (t, v, q)" and "150 < ms"
  shows "\<exists>c'. send_cmd_wait sweep_lib cid p ms c = Some (0, c') \<and> sweep_at c' (200 + t, v, q)"
proof -
  let ?c = "c\<lparr>bk_seq := bk_seq c + 1, bk_dev := (100 + t, v, q)\<rparr>" and ?d = "c\<lparr>bk_seq := bk_seq c + 1, bk_dev := (200 + t, v, q)\<rparr>"
  have a: "sweep_at (c\<lparr>bk_seq := bk_seq c + 1\<rparr>) (t, v, q)" "sweep_at ?c (100 + t, v, q)" "sweep_at ?d (200 + t, v, q)"
    using assms(1) by (simp_all add: sweep_at_def)
  define c' where "c' = poll_parse sweep_lib (if IN_TIMEOUT_MS < ms - 100 then IN_TIMEOUT_MS else ms - 100) ?d"
  have p: "sweep_at c' (200 + t, v, q)" "bk_acks c' = bk_acks c + 1"
    unfolding c'_def using sweep_poll [OF a(3)] assms(2) by (simp_all add: IN_TIMEOUT_MS_def)
  have "wait_loop sweep_lib (want_acks (bk_acks c + 1)) (t + ms) ?c = wait_loop sweep_lib (want_acks (bk_acks c + 1)) (t + ms) c'"
    using sweep_now [OF a(2)] assms(2) by (subst wait_loop.simps) (simp add: want_acks_def c'_def Let_def)
  also have "\<dots> = Some (0, c')" by (subst wait_loop.simps) (simp add: want_acks_def p)
  finally show ?thesis using sweep_write [OF assms(1)] sweep_now [OF a(1)] p by (simp add: send_cmd_wait_def wait_until_def Let_def)
qed

lemma sweep_stat:
  assumes "sweep_at c (t, v, q)"
  shows "\<exists>c'. get_stat sweep_lib 0 c = Some (Some v, c') \<and> sweep_at c' (300 + t, v, q)"
proof -
  define c0 where "c0 = c\<lparr>bk_want_idx := 0, bk_want_found := False, bk_want_val := 0, bk_seq := bk_seq c + 1\<rparr>"
  have a: "sweep_at (c\<lparr>bk_want_idx := 0, bk_want_found := False, bk_want_val := 0\<rparr>) (t, v, q)" "sweep_at c0 (t, v, q)"
    "sweep_at (c0\<lparr>bk_dev := (100 + t, v, q)\<rparr>) (100 + t, v, q)" "sweep_at (c0\<lparr>bk_dev := (200 + t, v, q)\<rparr>) (200 + t, v, q)"
    using assms by (simp_all add: sweep_at_def c0_def)
  define c1 where "c1 = poll_parse sweep_lib 150 (c0\<lparr>bk_dev := (200 + t, v, q)\<rparr>)"
  have p: "sweep_at c1 (200 + t, v, q)" "bk_want_found c1" "bk_want_val c1 = v"
    unfolding c1_def using sweep_poll [OF a(4), of 150] by (simp_all add: c0_def)
  have "stat_loop sweep_lib (t + 800) (c0\<lparr>bk_dev := (100 + t, v, q)\<rparr>) = stat_loop sweep_lib (t + 800) c1"
    using sweep_now [OF a(3)] by (subst stat_loop.simps) (simp add: c1_def c0_def)
  also have "\<dots> = Some (c1\<lparr>bk_dev := (300 + t, v, q)\<rparr>)" using sweep_now [OF p(1)] by (subst stat_loop.simps) (simp add: p)
  finally have "get_stat sweep_lib 0 c = Some (Some v, c1\<lparr>bk_dev := (300 + t, v, q)\<rparr>)"
    using sweep_write [OF a(1)] sweep_now [OF a(2)] p by (simp add: get_stat_def c0_def Let_def)
  then show ?thesis using p(1) by (simp add: sweep_at_def)
qed

lemma sweep_drain: "sweep_at c (t, v, q) \<Longrightarrow> dev_drain_deep sweep_lib c = Some c"
proof -
  assume c: "sweep_at c (t, v, q)"
  then have "drain_read sweep_lib 50 c = (True, c)" by (simp add: drain_read_def sweep_lib_def sweep_at_def)
  then have "deep_loop sweep_lib 0 c = Some c" by (simp add: deep_loop.simps)
  then show ?thesis using c by (simp add: dev_drain_deep_def sweep_at_def)
qed

lemma sweep_cmds:
  "sweep_at c (t, v, q) \<Longrightarrow> \<exists>c'. run_cmds sweep_lib [(a, x), (b, y), (d, z)] c = Some (0, c') \<and> sweep_at c' (600 + t, v, q)"
proof -
  assume c: "sweep_at c (t, v, q)"
  obtain c1 where 1: "send_cmd_wait sweep_lib a x 500 c = Some (0, c1)" "sweep_at c1 (200 + t, v, q)" using sweep_cmd [OF c, of 500] by auto
  obtain c2 where 2: "send_cmd_wait sweep_lib b y 500 c1 = Some (0, c2)" "sweep_at c2 (200 + (200 + t), v, q)" using sweep_cmd [OF 1(2), of 500] by auto
  obtain c3 where 3: "send_cmd_wait sweep_lib d z 500 c2 = Some (0, c3)" "sweep_at c3 (200 + (200 + (200 + t)), v, q)" using sweep_cmd [OF 2(2), of 500] by auto
  then show ?thesis using 1(1) 2(1) by simp
qed

lemma sweep_retry: "sweep_at c (t, v, q) \<Longrightarrow> 150 < ms \<Longrightarrow> \<exists>c'. cmd_retry sweep_lib cid p 3 ms c = Some (0, c') \<and> sweep_at c' (200 + t, v, q)"
  using sweep_cmd [of c t v q ms cid p] by (auto simp: numeral_eq_Suc)


lemma sweep_idle:
  "sweep_at c (t, v, []) \<Longrightarrow> \<exists>t' c'. events_until sweep_lib sweep_al sz go deadline (c, x) = Some (c', x) \<and> sweep_at c' (t', v, [])"
proof (induction "nat (deadline - t)" arbitrary: c t rule: less_induct)
  case less
  let ?c = "c\<lparr>bk_dev := (100 + t, v, [])\<rparr>"
  have c: "sweep_at ?c (100 + t, v, [])" using less(2) by (simp add: sweep_at_def)
  have e: "bulk_events sweep_al sz (?c, x) = (?c, x)" by (simp add: bulk_events_def sweep_al_def)
  show ?case
  proof (cases "t < deadline")
    case True
    with less(1) [OF _ c] obtain t' c' where "events_until sweep_lib sweep_al sz go deadline (?c, x) = Some (c', x)" "sweep_at c' (t', v, [])" by auto
    then show ?thesis using less(2) True by (subst events_until.simps) (auto simp: sweep_now sweep_at_def e)
  next
    case False
    then show ?thesis using less(2) c by (subst events_until.simps) (auto simp: sweep_now sweep_at_def)
  qed
qed

lemma sweep_events_idle:
  assumes "sweep_at c (t, v, [])"
  shows "\<exists>t' c'. events_for sweep_lib sweep_al sz go ms (c, x) = Some (c', x) \<and> sweep_at c' (t', v, [])"
  using sweep_idle [OF sweep_now_at [OF assms, of "(100 + t, v, [])"]] sweep_now [OF assms] by (auto simp: events_for_def)

lemma sweep_echo_facts: "length sweep_echo = 32" "blocks_of sweep_echo = ([[0, 1, 2, 3]], 0, [])"
proof -
  have h: "length (blk_header 0 0 0 4) = 16" by (simp add: blk_header_def Let_def)
  then show l: "length sweep_echo = 32" by (simp add: sweep_echo_def numeral_eq_Suc)
  have f: "front_ok sweep_echo" "front_len sweep_echo = 4"
    unfolding sweep_echo_def using blk_header_ok [of 0 0 0 4] blk_header_accessors(1) [of 4 0 0 0] by (simp_all add: h blk_header_words)
  have w: "block_words 4 sweep_echo = [0, 1, 2, 3]" by (simp add: block_words_def sweep_echo_def h upt_rec)
  show "blocks_of sweep_echo = ([[0, 1, 2, 3]], 0, [])" using f l w by (simp add: blocks_of.simps [of sweep_echo] blocks_of.simps [of "[]"])
qed

lemma sweep_verified:
  "vf_words (vfy_process vfy_start sweep_echo) = 4" "vf_mism (vfy_process vfy_start sweep_echo) = 0" "vf_bad_hdr (vfy_process vfy_start sweep_echo) = 0"
  using vfy_run [of "[sweep_echo]", simplified, OF sweep_echo_facts(2)] by simp_all

definition sweep_start :: verify_run where
  "sweep_start = verify_init (rate_out_hold_or_submit True 0 (loop_out True True 0 4)) [0]"

lemma sweep_pool: "pool (pool_loop sweep_al 4) 0 1 (c, [], loop_out True True 0 4) = (True, c, [0], rate_out_hold_or_submit True 0 (loop_out True True 0 4))"
  by (simp add: pool_loop_def pool_in_def sweep_al_def loop_out_def rate_out_init_def)

definition sweep_mid :: "verify_run \<times> bytes list" where
  "sweep_mid = fold (handle_event 262144) (hd sweep_events) (sweep_start, [])"

lemma sweep_mid_facts:
  "snd sweep_mid = [sweep_echo]" "vr_pc (fst sweep_mid) = VReady" "ring_count (vr_q (fst sweep_mid)) = 0" "vr_vfy (fst sweep_mid) = vfy_process vfy_start sweep_echo"
  "vr_dropped (fst sweep_mid) = 0" "ri_bytes (vr_in (fst sweep_mid)) = 32" "ri_errors (vr_in (fst sweep_mid)) = 0"
  "ro_flying (vr_out (fst sweep_mid)) = [0]" "ro_bytes (vr_out (fst sweep_mid)) = 32" "ro_errors (vr_out (fst sweep_mid)) = 0" "ro_done (vr_out (fst sweep_mid)) = 0"
  "ro_held (vr_out (fst sweep_mid)) = []" "ro_window (vr_out (fst sweep_mid)) = 0" "vr_stop (fst sweep_mid) = False"
  by (simp_all add: sweep_mid_def sweep_events_def sweep_start_def sweep_echo_facts verify_init_def handle_event_def rate_out_hold_or_submit_def loop_out_def rate_out_init_def
      rate_out_submit_def submit_out_def rate_out_fill_buf_def rate_out_cb_def rate_in_cb_def in_bytes_def to_verify_def vfy_enqueue_def VFY_QDEPTH_def wake_verifier_def
      vfy_thread_def ring_put_def ring_rest_def ring_front_def ring_empty_def rate_out_release.simps Let_def)


definition sweep_end :: verify_run where
  "sweep_end = (fst (handle_event 262144 (OutDone 0 XferCompleted 32 True) (stop_out (fst sweep_mid), [])))"

lemma sweep_end_facts:
  "vr_pc sweep_end = VReady" "ring_count (vr_q sweep_end) = 0" "vr_vfy sweep_end = vfy_process vfy_start sweep_echo"
  "vr_dropped sweep_end = 0" "ri_bytes (vr_in sweep_end) = 32" "ri_errors (vr_in sweep_end) = 0"
  "ro_bytes (vr_out sweep_end) = 64" "ro_errors (vr_out sweep_end) = 0" "ro_done (vr_out sweep_end) = 1" "ro_held (vr_out sweep_end) = []"
  by (simp_all add: sweep_end_def handle_event_def stop_out_def rate_out_cb_def sweep_mid_facts Let_def)

lemma loop_rounds_unfold:
  "\<not> time_at lib c < deadline \<Longrightarrow> loop_rounds lib al w0 deadline (i, c, x) = Some (snd (bk_now lib c), x)"
  "time_at lib c < deadline \<Longrightarrow> consumed_poll lib al w0 (i, bulk_events al 262144 (snd (bk_now lib c), x)) = Some y \<Longrightarrow>
     loop_rounds lib al w0 deadline (i, c, x) = loop_rounds lib al w0 deadline (fst y, release_held al (snd y))"
  by (subst loop_rounds.simps, simp)+

lemma events_until_unfold:
  "\<not> go (fst x) \<Longrightarrow> events_until lib al sz go deadline (c, x) = Some (c, x)"
  "go (fst x) \<Longrightarrow> time_at lib c < deadline \<Longrightarrow>
     events_until lib al sz go deadline (c, x) = events_until lib al sz go deadline (bulk_events al sz (snd (bk_now lib c), x))"
  by (subst events_until.simps, simp)+

lemma sweep_transfers:
  assumes "sweep_at c (t, v, sweep_events)" and "v = 0"
  shows "\<exists>s c' t'. loop_transfers sweep_lib sweep_al True 0 150 1 (c, sweep_start, []) = Some (4, c', s, [sweep_echo]) \<and> sweep_at c' (t', 4, [])
    \<and> loop_verdict True s ((loop_stat_init 4)\<lparr>lt_ran := True, lt_expected_words := 4\<rparr>) = 0
    \<and> vf_words (vr_vfy s) = 4"
proof -
  let ?b1 = "hd sweep_events" and ?b2 = "[OutDone 0 XferCompleted 32 True]"
  have ev: "al_events sweep_al (k, v, sweep_events) = (?b1, (k, 4, [?b2]))" for k by (simp add: sweep_al_def sweep_events_def)
  have c: "sweep_at (c\<lparr>bk_dev := (k + t, u, q)\<rparr>) (k + t, u, q)" for k u q using assms(1) by (simp add: sweep_at_def)
  obtain s1 where m: "sweep_mid = (s1, [sweep_echo])" using sweep_mid_facts(1) by (metis prod.collapse)
  note mid = sweep_mid_facts [unfolded m, simplified]
  have b1: "bulk_events sweep_al 262144 (c\<lparr>bk_dev := (200 + t, v, sweep_events)\<rparr>, sweep_start, []) = (c\<lparr>bk_dev := (200 + t, 4, [?b2])\<rparr>, s1, [sweep_echo])"
    using m by (simp add: bulk_events_def ev sweep_mid_def)
  have r: "release_held sweep_al (d, s1, l) = (d, s1, l)" for d l
    using mid by (simp add: release_held_def rate_out_release.simps)
  have p: "consumed_poll sweep_lib sweep_al 0 (i, d, s1, l) = Some (i, d, s1, l)" for i d l using mid by (simp add: consumed_poll_def)
  have 1: "loop_rounds sweep_lib sweep_al 0 (t + 150) (0, c\<lparr>bk_dev := (100 + t, v, sweep_events)\<rparr>, sweep_start, []) =
      Some (c\<lparr>bk_dev := (300 + t, 4, [?b2])\<rparr>, s1, [sweep_echo])"
  proof -
    have "loop_rounds sweep_lib sweep_al 0 (t + 150) (0, c\<lparr>bk_dev := (100 + t, v, sweep_events)\<rparr>, sweep_start, []) =
        loop_rounds sweep_lib sweep_al 0 (t + 150) (0, c\<lparr>bk_dev := (200 + t, 4, [?b2])\<rparr>, s1, [sweep_echo])"
      by (subst loop_rounds_unfold(2) [where y = "(0, c\<lparr>bk_dev := (200 + t, 4, [?b2])\<rparr>, s1, [sweep_echo])"]) (simp_all add: sweep_now [OF c] b1 p r)
    also have "\<dots> = Some (c\<lparr>bk_dev := (300 + t, 4, [?b2])\<rparr>, s1, [sweep_echo])"
      by (subst loop_rounds_unfold(1)) (simp_all add: sweep_now [OF c])
    finally show ?thesis .
  qed
  let ?go = "\<lambda>s. ro_done (vr_out s) + int (length (ro_held (vr_out s))) < 1"
  let ?c = "\<lambda>k q. c\<lparr>bk_dev := (k + t, 4, q)\<rparr>"
  have b2: "bulk_events sweep_al 262144 (?c k [?b2], stop_out s1, [sweep_echo]) = (?c k [], sweep_end, [sweep_echo])" for k
    by (simp add: bulk_events_def sweep_al_def sweep_end_def m handle_event_def)
  have "?go (stop_out s1)" "\<not> ?go sweep_end" using mid sweep_end_facts by (simp_all add: stop_out_def)
  then have "events_until sweep_lib sweep_al 262144 ?go (300 + t + 3000) (?c 400 [?b2], stop_out s1, [sweep_echo]) = Some (?c 500 [], sweep_end, [sweep_echo])"
    by (subst events_until_unfold(2)) (simp_all add: sweep_now [OF c] b2 events_until_unfold(1))
  then have 2: "events_for sweep_lib sweep_al 262144 ?go 3000 (?c 300 [?b2], stop_out s1, [sweep_echo]) = Some (?c 500 [], sweep_end, [sweep_echo])"
    by (simp add: events_for_def sweep_now [OF c])
  obtain c3 where 3: "get_stat sweep_lib 0 (?c 500 []) = Some (Some 4, c3)" "sweep_at c3 (300 + (500 + t), 4, [])" using sweep_stat [OF c] by blast
  have i: "bulk_events sweep_al 262144 (c3, x) = (c3, x)" for x using 3(2) by (simp add: bulk_events_def sweep_al_def sweep_at_def)
  have w: "vf_words (vr_vfy sweep_end) = 4" by (simp add: sweep_end_facts sweep_verified)
  define c4 where "c4 = c3\<lparr>bk_dev := (100 + (300 + (500 + t)), 4, [])\<rparr>"
  have 4: "events_for sweep_lib sweep_al 262144 (\<lambda>s. vf_words (vr_vfy s) < 4) 10000 (c3, sweep_end, [sweep_echo]) = Some (c4, sweep_end, [sweep_echo])"
    by (simp add: events_for_def sweep_now [OF 3(2)] events_until_unfold(1) w c4_def)
  define z where "z = (vfy_stop (stop_in sweep_end))\<lparr>vr_pc := VDone\<rparr>"
  have "vfy_thread True oks (vfy_stop (stop_in sweep_end)) = Some z" "vr_pc (vfy_stop (stop_in sweep_end)) \<noteq> VDone" for oks
    by (simp_all add: vfy_thread_def z_def vfy_stop_def stop_in_def wake_verifier_def sweep_end_facts)
  then have j: "join_verifier oks (vfy_stop (stop_in sweep_end)) = Some z" for oks
    by (subst join_verifier.simps) (simp add: join_verifier.simps [of _ z], simp add: z_def)
  have 5: "end_verifier sweep_al True (c4, stop_in sweep_end, [sweep_echo]) = Some (c4, z, [sweep_echo])" by (simp add: end_verifier_def j)
  have "sweep_at (cancel_all sweep_al 1 c4) (100 + (300 + (500 + t)), 4, [])" using 3(2) by (simp add: sweep_at_def c4_def cancel_all_def sweep_al_def)
  from sweep_events_idle [OF this] obtain t' c6
    where 6: "events_for sweep_lib sweep_al 262144 (\<lambda>_. True) 1000 (cancel_all sweep_al 1 c4, z, [sweep_echo]) = Some (c6, z, [sweep_echo])" "sweep_at c6 (t', 4, [])" by blast
  have zf: "vr_vfy z = vr_vfy sweep_end" "vr_in z = (vr_in sweep_end)\<lparr>ri_stop := True\<rparr>" "vr_out z = vr_out sweep_end" "vr_dropped z = vr_dropped sweep_end"
    by (simp_all add: z_def vfy_stop_def stop_in_def wake_verifier_def)
  have "sweep_at c (0 + t, v, sweep_events)" using assms(1) by simp
  then have n: "bk_now sweep_lib c = (t, c\<lparr>bk_dev := (100 + t, v, sweep_events)\<rparr>)" using sweep_now by fastforce
  have "loop_transfers sweep_lib sweep_al True 0 150 1 (c, sweep_start, []) = Some (4, c6, z, [sweep_echo])"
    by (simp add: loop_transfers_def n 1 2 3 i 4 5 6(1) [unfolded One_nat_def])
  moreover have "loop_verdict True z ((loop_stat_init 4)\<lparr>lt_ran := True, lt_expected_words := 4\<rparr>) = 0" "vf_words (vr_vfy z) = 4"
    by (simp_all add: loop_verdict_def in_out_ok_def vfy_clean_def zf sweep_end_facts sweep_verified)
  ultimately show ?thesis using 6(2) by blast
qed

definition sweep_ctx :: "sweep_dev bulk_ctx" where
  "sweep_ctx =
     \<lparr>bk_dev = (0, 0, sweep_events), bk_seq = 0, bk_blk_seq = 0, bk_inbuf = [], bk_blocks = 0, bk_acks = 0, bk_errors = 0, bk_echo_enable = False,
      bk_echo_expect = None, bk_echo_expect_words = 0, bk_echo_got_words = 0, bk_echo_mismatch = 0, bk_last_ack_w2 = 0, bk_last_ack_w3 = 0,
      bk_want_idx = 0, bk_want_found = False, bk_want_val = 0, bk_conc_mode = False, bk_conc_started = False, bk_conc_expect = 0,
      bk_conc_counter_err = 0, bk_upl_bytes = 0, bk_prng = 0x12345678\<rparr>"

lemma sweep_passes:
  "\<exists>st c'. loop_once sweep_lib sweep_al 4 150 1 0 True sweep_ctx = Some (Some 0, st, [sweep_echo], c') \<and> lt_ran st \<and> lt_expected_words st = 4"
proof -
  have "sweep_at sweep_ctx (0, 0, sweep_events)" by (simp add: sweep_at_def sweep_ctx_def)
  from sweep_cmds [OF this] obtain c1 where
    1: "run_cmds sweep_lib [(UHSIF_CMD_ENABLE, 0), (UHSIF_CMD_RESET, 1), (UHSIF_CMD_RESET, 0)] sweep_ctx = Some (0, c1)" "sweep_at c1 (600 + 0, 0, sweep_events)" by blast
  obtain c2 where 2: "cmd_retry sweep_lib UHSIF_CMD_UPLOAD_PARAMS 3072 3 1000 c1 = Some (0, c2)" "sweep_at c2 (200 + (600 + 0), 0, sweep_events)"
    using sweep_retry [OF 1(2), of 1000] by auto
  obtain c3 where 3: "send_cmd_wait sweep_lib CMD_BULK_SET_CFG (push_bit 20 1) 500 c2 = Some (0, c3)" "sweep_at c3 (200 + (200 + (600 + 0)), 0, sweep_events)"
    using sweep_cmd [OF 2(2), of 500] by auto
  obtain c4 where 4: "get_stat sweep_lib 0 c3 = Some (Some 0, c4)" "sweep_at c4 (300 + (200 + (200 + (600 + 0))), 0, sweep_events)"
    using sweep_stat [OF 3(2)] by blast
  obtain s c5 t' where 5: "loop_transfers sweep_lib sweep_al True 0 150 1 (c4, sweep_start, []) = Some (4, c5, s, [sweep_echo])" "sweep_at c5 (t', 4, [])"
    "loop_verdict True s ((loop_stat_init 4)\<lparr>lt_ran := True, lt_expected_words := 4\<rparr>) = 0" using sweep_transfers [OF 4(2) refl] by blast
  obtain c6 where 6: "cmd_retry sweep_lib CMD_BULK_SET_CFG 0 3 1000 c5 = Some (0, c6)" "sweep_at c6 (200 + t', 4, [])"
    using sweep_retry [OF 5(2), of 1000] by auto
  obtain c7 where 7: "cmd_retry sweep_lib UHSIF_CMD_UPLOAD_PARAMS 4092 3 1000 c6 = Some (0, c7)" "sweep_at c7 (200 + (200 + t'), 4, [])"
    using sweep_retry [OF 6(2), of 1000] by auto
  let ?st = "loop_result True s ((loop_stat_init 4)\<lparr>lt_ran := True, lt_expected_words := 4\<rparr>)"
  have v: "loop_verdict True s ?st = 0" using 5(3) by (simp add: loop_verdict_def loop_result_def)
  have t: "al_thread sweep_al d" for d by (simp add: sweep_al_def)
  have "loop_run sweep_lib sweep_al 4 150 1 0 True (0, c4) = Some (Some 0, ?st, [sweep_echo], c7)"
    using 5(1) by (simp add: loop_run_def t sweep_pool [simplified] rate_run_def sweep_start_def 6 7 sweep_drain [OF 7(2)] v)
  moreover have "loop_once sweep_lib sweep_al 4 150 1 0 True sweep_ctx = loop_run sweep_lib sweep_al 4 150 1 0 True (0, c4)"
    using 1 2 3 4 sweep_drain [OF 3(2)] by (simp add: loop_once_def stat_into_def default_if_def)
  ultimately show ?thesis by (simp add: loop_result_def)
qed

section \<open>Property\<close>



end
