(* ===== verification/Bulk_Main.thy ===== *)
theory Bulk_Main
  imports Bulk_Rates
begin

text \<open>
  \<open>main\<close> of \<open>tools/uhsif_bulk.c\<close>: the options \<open>getopt_long\<close> finds, given as a list of option letters with
  their arguments, the device opened and set up, the flow chosen, the clean-up. The exit code is the result; \<open>die\<close>
  exits with 1 before the clean-up. Usage and reports are not printed.
\<close>

section \<open>Definitions\<close>

subsection \<open>Options\<close>

record bulk_opts =
  bo_flow :: "string option"
  bo_id :: int
  bo_param :: int
  bo_len :: int
  bo_stats :: int
  bo_blocks_per :: int
  bo_prbs :: bool
  bo_echo :: bool
  bo_ack_req :: bool
  bo_ack_en :: bool
  bo_push_lead :: int
  bo_stop_lead :: int
  bo_rd_cap :: int
  bo_seconds :: int
  bo_depth :: int
  bo_xfer :: int
  bo_verify :: bool
  bo_loop_ms :: int
  bo_loop_desc :: bool
  bo_loop_window :: int
  bo_loop_step :: int
  bo_loop_lens :: "string option"
  bo_recover :: bool
  bo_lens :: "int list"

definition bulk_opts_init :: bulk_opts where
  "bulk_opts_init =
     \<lparr>bo_flow = None, bo_id = 0, bo_param = 0, bo_len = 64, bo_stats = -1, bo_blocks_per = 1, bo_prbs = False, bo_echo = False, bo_ack_req = False,
      bo_ack_en = False, bo_push_lead = 0, bo_stop_lead = 0, bo_rd_cap = 0, bo_seconds = 5, bo_depth = 8, bo_xfer = 262144, bo_verify = False,
      bo_loop_ms = 200, bo_loop_desc = False, bo_loop_window = 0, bo_loop_step = 4, bo_loop_lens = None, bo_recover = False, bo_lens = []\<rparr>"

definition int_arg :: "string \<Rightarrow> int" where
  "int_arg s = int_of_long (fst (strtol0 s))"

definition clamp_arg :: "int \<Rightarrow> string \<Rightarrow> int" where
  "clamp_arg hi s = (let v = int_arg s; v = (if v < 0 then 0 else v) in if hi < v then hi else v)"

definition flow_unless :: "string \<Rightarrow> bulk_opts \<Rightarrow> bulk_opts" where
  "flow_unless f q = (if bo_flow q = None then q\<lparr>bo_flow := Some f\<rparr> else q)"

text \<open>One option; \<open>None\<close> for a letter that is none.\<close>

definition bulk_opt :: "char \<Rightarrow> string \<Rightarrow> bulk_opts \<Rightarrow> bulk_opts option" where
  "bulk_opt k a q =
     (let flow = (\<lambda>f. Some (q\<lparr>bo_flow := Some f\<rparr>))
      in if k = CHR ''p'' then flow ''probe''
         else if k = CHR ''c'' then Some (q\<lparr>bo_flow := Some ''cmd'', bo_id := int_arg a\<rparr>)
         else if k = CHR ''C'' then Some (q\<lparr>bo_param := int_arg a\<rparr>)
         else if k = CHR ''V'' then flow ''ver''
         else if k = CHR ''s'' then Some (q\<lparr>bo_flow := Some ''stats'', bo_stats := int_arg a\<rparr>)
         else if k = CHR ''S'' then Some (flow_unless ''send'' (q\<lparr>bo_len := int_arg a\<rparr>))
         else if k = CHR ''D'' then Some (flow_unless ''diag'' (q\<lparr>bo_len := int_arg a\<rparr>))
         else if k = CHR ''M'' then flow ''stream''
         else if k = CHR ''U'' then flow ''concurrent''
         else if k = CHR ''Y'' then flow ''rate-up''
         else if k = CHR ''W'' then flow ''rate-down''
         else if k = CHR ''X'' then flow ''rate-concurrent''
         else if k = CHR ''Q'' then flow ''rate-loop''
         else if k = CHR ''9'' then Some (q\<lparr>bo_verify := True\<rparr>)
         else if k = CHR ''8'' then flow ''loop-sweep''
         else if k = CHR ''7'' then Some (q\<lparr>bo_loop_lens := Some a\<rparr>)
         else if k = CHR ''6'' then Some (q\<lparr>bo_loop_ms := int_arg a\<rparr>)
         else if k = CHR ''5'' then Some (q\<lparr>bo_loop_desc := True\<rparr>)
         else if k = CHR ''4'' then Some (q\<lparr>bo_loop_window := int_arg a\<rparr>)
         else if k = CHR ''3'' then Some (q\<lparr>bo_loop_step := int_arg a\<rparr>)
         else if k = CHR ''Z'' then Some (q\<lparr>bo_seconds := int_arg a\<rparr>)
         else if k = CHR ''1'' then Some (q\<lparr>bo_depth := int_arg a\<rparr>)
         else if k = CHR ''2'' then Some (q\<lparr>bo_xfer := int_arg a\<rparr>)
         else if k = CHR ''w'' then flow ''sweep''
         else if k = CHR ''b'' then Some (q\<lparr>bo_blocks_per := int_arg a\<rparr>)
         else if k = CHR ''l'' then Some (q\<lparr>bo_lens := parse_int_list 64 a\<rparr>)
         else if k = CHR ''P'' then Some (q\<lparr>bo_prbs := (a = ''prbs'')\<rparr>)
         else if k = CHR ''e'' then Some (q\<lparr>bo_echo := True\<rparr>)
         else if k = CHR ''a'' then Some (q\<lparr>bo_ack_req := True\<rparr>)
         else if k = CHR ''A'' then Some (q\<lparr>bo_ack_en := True\<rparr>)
         else if k = CHR ''L'' then Some (q\<lparr>bo_push_lead := clamp_arg 3 a\<rparr>)
         else if k = CHR ''T'' then Some (q\<lparr>bo_stop_lead := clamp_arg 15 a\<rparr>)
         else if k = CHR ''R'' then Some (q\<lparr>bo_rd_cap := clamp_arg 15 a\<rparr>)
         else if k = CHR ''r'' then Some (q\<lparr>bo_recover := True\<rparr>)
         else if k = CHR ''g'' \<or> k = CHR ''q'' then Some q
         else None)"

fun bulk_args :: "(char \<times> string) list \<Rightarrow> bulk_opts \<Rightarrow> bulk_opts option" where
  "bulk_args [] q = Some q"
| "bulk_args ((k, a) # rest) q = Option.bind (bulk_opt k a q) (bulk_args rest)"

subsection \<open>Device\<close>

record 'd open_lib =
  ol_init :: "'d \<Rightarrow> bool \<times> 'd"
  ol_open :: "'d \<Rightarrow> bool \<times> 'd"
  ol_get_config :: "'d \<Rightarrow> int option \<times> 'd"
  ol_set_config :: "int \<Rightarrow> 'd \<Rightarrow> 'd"
  ol_driver_active :: "'d \<Rightarrow> bool \<times> 'd"
  ol_detach :: "'d \<Rightarrow> 'd"
  ol_claim :: "'d \<Rightarrow> bool \<times> 'd"
  ol_reset :: "'d \<Rightarrow> 'd"
  ol_release :: "'d \<Rightarrow> 'd"
  ol_close :: "'d \<Rightarrow> 'd"

text \<open>The configuration is only set when it is not yet 1.\<close>

definition bulk_dev_open :: "'d open_lib \<Rightarrow> 'd \<Rightarrow> bool \<times> 'd" where
  "bulk_dev_open ol d =
     (let (ok, d) = ol_init ol d
      in if \<not> ok then (False, d)
         else let (ok, d) = ol_open ol d
         in if \<not> ok then (False, d)
         else let (cfg, d) = ol_get_config ol d;
                  d = (case cfg of Some n \<Rightarrow> if n \<noteq> 1 then ol_set_config ol 1 d else d | None \<Rightarrow> d);
                  (active, d) = ol_driver_active ol d;
                  d = (if active then ol_detach ol d else d)
              in ol_claim ol d)"

definition bulk_ctx_init :: "'d \<Rightarrow> 'd bulk_ctx" where
  "bulk_ctx_init d =
     \<lparr>bk_dev = d, bk_seq = 0, bk_blk_seq = 0, bk_inbuf = [], bk_blocks = 0, bk_acks = 0, bk_errors = 0, bk_echo_enable = False,
      bk_echo_expect = None, bk_echo_expect_words = 0, bk_echo_got_words = 0, bk_echo_mismatch = 0, bk_last_ack_w2 = 0, bk_last_ack_w3 = 0,
      bk_want_idx = 0, bk_want_found = False, bk_want_val = 0, bk_conc_mode = False, bk_conc_started = False, bk_conc_expect = 0,
      bk_conc_counter_err = 0, bk_upl_bytes = 0, bk_prng = 0x12345678\<rparr>"

subsection \<open>Dispatch\<close>

definition default_lens :: "int list" where
  "default_lens = [1, 2, 3, 4, 5, 15, 16, 17, 255, 256, 257, 511, 512, 513, 1023, 1024, 1025, 1535, 1536, 1537, 4091, 4092]"

definition bulk_cfg_used :: "bulk_opts \<Rightarrow> bool" where
  "bulk_cfg_used q \<longleftrightarrow> bo_ack_en q \<or> bo_push_lead q \<noteq> 0 \<or> bo_stop_lead q \<noteq> 0 \<or> bo_rd_cap q \<noteq> 0"

definition bulk_cfg :: "bulk_opts \<Rightarrow> u32" where
  "bulk_cfg q = (if bo_ack_en q then 1 else 0) OR push_bit 1 (of_int (bo_push_lead q)) OR push_bit 4 (of_int (bo_stop_lead q))
     OR push_bit 16 (of_int (bo_rd_cap q))"

definition with_echo :: "'d bulk_lib \<Rightarrow> bool \<Rightarrow> 'd bulk_ctx \<Rightarrow> ('d bulk_ctx \<Rightarrow> 'd flow) \<Rightarrow> 'd flow" where
  "with_echo lib echo c k = (if echo then echo_on lib c k else k c)"

definition loop_lens :: "bulk_opts \<Rightarrow> int list" where
  "loop_lens q =
     (let lens = (case bo_loop_lens q of Some spec \<Rightarrow> parse_len_spec 8192 (bo_loop_step q) spec | None \<Rightarrow> [])
      in if bo_loop_desc q then rev lens else lens)"

definition bulk_flow :: "'d bulk_lib \<Rightarrow> 'd async_lib \<Rightarrow> bulk_opts \<Rightarrow> string \<Rightarrow> 'd bulk_ctx \<Rightarrow> 'd flow" where
  "bulk_flow lib al q f c =
     (if f = ''probe'' then do { (r, c) \<leftarrow> flow_probe lib c; Some (Some (if r = 0 then 0 else 1), c) }
      else if f = ''cmd''
      then do { (r, c) \<leftarrow> send_cmd_wait lib (nat (bo_id q mod 256)) (of_int (bo_param q)) 2000 c; Some (Some (if r = 0 then 0 else 1), c) }
      else if f = ''ver'' then flow_ver lib c
      else if f = ''stats'' then do { (v, c) \<leftarrow> get_stat lib (bo_stats q) c; Some (Some (if v = None then 1 else 0), c) }
      else if f = ''rate-up'' then flow_rate_up lib al (bo_seconds q) (bo_depth q) (bo_xfer q) c
      else if f = ''rate-down'' then flow_rate_down lib al (bo_seconds q) (bo_depth q) (bo_xfer q) (bo_prbs q) c
      else if f = ''rate-concurrent'' then flow_rate_bidir lib al (bo_seconds q) (bo_depth q) (bo_xfer q) (bo_prbs q) False (bo_verify q) c
      else if f = ''loop-sweep''
      then if loop_lens q = [] then Some (None, c) else flow_loop_sweep lib al (loop_lens q) (bo_loop_ms q) (bo_depth q) (bo_loop_window q) c
      else if f = ''rate-loop'' then flow_rate_bidir lib al (bo_seconds q) (bo_depth q) (bo_xfer q) (bo_prbs q) True (bo_verify q) c
      else if f = ''diag'' then flow_diag lib (bo_len q) (bo_prbs q) c
      else if f = ''stream'' then flow_stream lib (bo_blocks_per q) (bo_len q) (bo_prbs q) (bo_ack_req q) c
      else if f = ''concurrent'' then flow_concurrent lib (bo_blocks_per q) (bo_len q) (bo_prbs q) (bo_ack_req q) c
      else if f = ''send''
      then with_echo lib (bo_echo q) c (\<lambda>c. do {
        (r, esum, c) \<leftarrow> flow_send lib (bo_len q) (bo_prbs q) (bo_ack_req q) c; Some (Some (if r = 0 then 0 else 1), c) })
      else if f = ''sweep''
      then let lens = (if bo_lens q = [] then default_lens else bo_lens q)
           in with_echo lib (bo_echo q) c (\<lambda>c. do {
             (fails, c) \<leftarrow> sweep_times lib (nat (bo_blocks_per q)) lens (bo_prbs q) (bo_ack_req q) (bo_echo q) 0 c;
             Some (Some (if fails \<noteq> 0 then 1 else 0), c) })
      else Some (Some 0, c))"

text \<open>The clean-up.\<close>

definition bulk_close :: "'d bulk_lib \<Rightarrow> 'd open_lib \<Rightarrow> bulk_opts \<Rightarrow> 'd bulk_ctx \<Rightarrow> 'd option" where
  "bulk_close lib ol q c = do {
     (r, c) \<leftarrow> (if bulk_cfg_used q \<or> bo_echo q then send_cmd_wait lib CMD_BULK_SET_CFG 0 500 c else Some (0, c));
     let d = (if bo_recover q then ol_reset ol (bk_dev c) else bk_dev c);
     Some (ol_close ol (ol_release ol d)) }"

definition bulk_main :: "'d bulk_lib \<Rightarrow> 'd async_lib \<Rightarrow> 'd open_lib \<Rightarrow> (char \<times> string) list \<Rightarrow> 'd \<Rightarrow> (int \<times> 'd) option" where
  "bulk_main lib al ol args d =
     (case bulk_args args bulk_opts_init of
        None \<Rightarrow> Some (2, d)
      | Some q \<Rightarrow>
          (case bo_flow q of
             None \<Rightarrow> Some (2, d)
           | Some f \<Rightarrow>
               let (ok, d) = bulk_dev_open ol d
               in if \<not> ok then Some (1, d)
                  else let c = dev_drain lib (bulk_ctx_init d); flow = bulk_flow lib al q f
                       in do {
                         (rc, c) \<leftarrow> (if bulk_cfg_used q then cmd_or_die lib CMD_BULK_SET_CFG (bulk_cfg q) c flow else flow c);
                         (case rc of
                            None \<Rightarrow> Some (1, bk_dev c)
                          | Some rc \<Rightarrow> do { d \<leftarrow> bulk_close lib ol q c; Some (rc, d) }) }))"

section \<open>The program ends\<close>

lemma with_echo_returns [returns]: "clock_runs lib \<Longrightarrow> (\<And>c. returning (k c)) \<Longrightarrow> returning (with_echo lib echo c k)"
  by (simp add: with_echo_def echo_on_returns)

lemma returning_if: "(b \<Longrightarrow> returning x) \<Longrightarrow> (\<not> b \<Longrightarrow> returning y) \<Longrightarrow> returning (if b then x else y)"
  by simp

lemma returning_prod: "(\<And>a b. returning (f a b)) \<Longrightarrow> returning (case x of (a, b) \<Rightarrow> f a b)"
  by (simp split: prod.split)

lemma bulk_flow_returns:
  assumes "clock_async lib al" and "falls_silent m lib" and "f = ''loop-sweep'' \<or> bo_verify q \<longrightarrow> bo_depth q \<le> 32"
    and "bo_verify q \<longrightarrow> bo_xfer q \<le> 262144"
  shows "returning (bulk_flow lib al q f c)"
proof -
  note lib = clock_asyncD [OF assms(1)]
  have sweep: "f = ''loop-sweep'' \<Longrightarrow> bo_depth q \<le> 32" and bidir: "bo_verify q \<Longrightarrow> bo_depth q \<le> 32 \<and> bo_xfer q \<le> 262144"
    using assms(3,4) by blast+
  show ?thesis
    unfolding bulk_flow_def Let_def
    by (intro returning_if returning_prod bind_returns returning_Some with_echo_returns lib get_stat_returns send_cmd_returns' flow_send_returns
        sweep_times_returns flow_returns one_way_returns [OF assms(1)] flow_rate_bidir_returns [OF assms(1) bidir]
        flow_loop_sweep_returns [OF assms(1,2) sweep]; assumption)
qed

lemma bulk_close_returns: "clock_runs lib \<Longrightarrow> returning (bulk_close lib ol q c)"
  by (auto simp: bulk_close_def Let_def intro!: returns split: prod.split)

text \<open>
  The tool always ends: whatever the options and the device, once a silent device stays silent, if the transfers of a
  verified run are at most 32 of at most 256 KiB, the limits of the verifier.
\<close>

theorem bulk_main_ends:
  assumes "clock_async lib al" and "falls_silent m lib"
    and "\<And>q. bulk_args args bulk_opts_init = Some q \<Longrightarrow>
      (bo_flow q = Some ''loop-sweep'' \<or> bo_verify q \<longrightarrow> bo_depth q \<le> 32) \<and> (bo_verify q \<longrightarrow> bo_xfer q \<le> 262144)"
  shows "\<exists>rc d'. bulk_main lib al ol args d = Some (rc, d')"
proof -
  note lib = clock_asyncD [OF assms(1)]
  have "returning (bulk_main lib al ol args d)"
    unfolding bulk_main_def Let_def
    by (auto split: option.split prod.split intro!: bind_returns cmd_or_die_returns lib bulk_close_returns bulk_flow_returns [OF assms(1,2)] dest: assms(3))
  then show ?thesis by (auto simp: returning_iff)
qed

end
