(* ===== verification/Spec2Isabelle.thy ===== *)
theory Spec2Isabelle
  imports Stream_Delivery Packet_Time Rawq Pcapng_Writer Gen2_Theorems Live_Session Main_Program Usb_Cmd Bulk_Main
begin

text \<open>
  Verification of \<open>usb_sniffer.extcap\<close>, the Wireshark capture plugin for two generations of a USB
  sniffer.

  \<^bold>\<open>The program.\<close> \<open>main.c\<close> parses the command line (\<open>extcap.c\<close>), answers Wireshark's queries or looks at
  the bus (\<open>device.c\<close>) and runs one of two capture engines or a maintenance command.

  \<^item> Second generation. The transport (\<open>transport.c\<close>, with the backends \<open>transport_libusb.c\<close> for the device
    and \<open>transport_replay.c\<close> for a recorded stream) delivers pieces of a byte stream to \<open>feed_cb\<close> of \<open>main.c\<close>.
    During the command phase they go straight into the block parser \<open>stream.c\<close>, which checks the block
    headers (\<open>uhsif.h\<close>) and calls back with payloads, acknowledgements and losses of synchronisation; in
    the data phase they pass through the raw queue of \<open>main.c\<close> to a worker thread that feeds the same
    parser. The acknowledgements end the waiting of the command layer \<open>cmd.c\<close>; the payloads go to the
    frame parser \<open>packet.c\<close>, which reconstructs frames, times and bus events, and writes records through
    \<open>pcapng.c\<close>, whose own writer thread moves chunks to the file.
  \<^item> First generation. \<open>gen1/usb.c\<close> runs the transfer pool, \<open>gen1/capture.c\<close> is an older frame parser with its
    own block writer, \<open>gen1/fpga.c\<close> and \<open>gen1/fx2lp.c\<close> program the FPGA and the microcontroller.

  \<^bold>\<open>The theories.\<close> A C struct is a record with the names of its fields, an operation a function on it
  with the name of the C function (\<open>g1_\<close> in front for \<open>gen1/capture.c\<close>, where the names of \<open>packet.c\<close> recur);
  machine integers are words; a computation that may end the process or not return is a value of \<open>'a io\<close>
  (theory \<open>Os_Common\<close>). Threads are step relations.

  \<^item> \<open>Prelude\<close>, \<open>Chunking\<close>, \<open>Ring\<close>, \<open>Os_Common\<close>: integer types, buffers and encodings; the contract of a
    consumer that does not depend on how its input is cut (\<open>chunk_consumer\<close>); the bounded queue (\<open>fifo\<close>); errors
    that end the process, \<open>os_rand16\<close>, \<open>os_memmem\<close>.
  \<^item> \<open>Uhsif\<close>, \<open>Block_Stream\<close>, \<open>Stream_Delivery\<close>: \<open>uhsif.h\<close> and \<open>stream.c\<close>. The parser with its linear buffer
    refines the machine \<open>carver\<close> over the pending bytes (\<open>abs_stream\<close>); feeding is total, independent of the
    chunks and delivers every block; the header check rejects odd and burst errors.
  \<^item> \<open>Packet\<close>, \<open>Packet_Bounds\<close>, \<open>Packet_Time\<close>, \<open>Packet_Frames\<close>, \<open>Packet_Sessions\<close>: \<open>packet.c\<close>. Array bounds on
    arbitrary input, sorted timestamps, the records of a sequence of frames, the trigger gate, the capture
    limit, folding and damaged headers.
  \<^item> \<open>Pcapng_Format\<close>, \<open>Pcapng_Writer\<close>: \<open>pcapng.c\<close>. Block assembly with a reader for the round trip; the write
    queue as interleaved steps of two threads, lossless and free of deadlock.
  \<^item> \<open>Rawq\<close>: the raw queue of \<open>main.c\<close>, conserving, without lost wake-ups, drained by \<open>rawq_stop\<close>.
  \<^item> \<open>Command\<close>, \<open>Transport\<close>, \<open>Gen2_Session\<close>, \<open>Gen2_Theorems\<close>, \<open>Replay_Session\<close>: \<open>cmd.c\<close>, \<open>transport.c\<close>,
    \<open>transport_replay.c\<close> and \<open>run_capture_gen2\<close>. The command protocol over any transport, and a whole
    replay session from the recorded bytes to the pcapng file.
  \<^item> \<open>Libusb\<close>, \<open>Live_Session\<close>: \<open>transport_libusb.c\<close> with a heap of buffers: the pool of IN transfers is
    memory safe and lossless, what closing frees, leaks and still feeds; and a live session conserves
    the bytes of the device.
  \<^item> \<open>Gen1_Capture\<close>, \<open>Gen1_Agree\<close>, \<open>Gen1_Safety\<close>: \<open>gen1/capture.c\<close>, its bounds, its agreement with \<open>packet.c\<close>
    and the differences.
  \<^item> \<open>Gen1_Usb\<close>, \<open>Fx2lp\<close>, \<open>Gen1_Session\<close>: \<open>gen1/usb.c\<close>, \<open>gen1/fx2lp.c\<close>, the writer and session of
    \<open>gen1/capture.c\<close> and the maintenance commands of \<open>main.c\<close>.
  \<^item> \<open>Jtag\<close>, \<open>Tap\<close>, \<open>Fpga\<close>, \<open>Fpga_Theorems\<close>: \<open>gen1/fpga.c\<close> over batched JTAG clocks, specified by the TAP
    controller of IEEE 1149.1; the JED parser; flash programming with verification.
  \<^item> \<open>Extcap\<close>, \<open>Device\<close>, \<open>Main_Program\<close>: \<open>extcap.c\<close>, \<open>device.c\<close> and the dispatch of \<open>main.c\<close>.
  \<^item> \<open>Usbcap\<close>, \<open>Fast_Writer\<close>, \<open>Tool_Sessions\<close>, \<open>Usb_Cmd\<close>: the stand-alone tools \<open>usbcap.c\<close>, \<open>usbcap_fast.c\<close> and
    \<open>usb_cmd.c\<close>, each with its own copy of the protocol, from the command line to the end of \<open>main\<close>. Their
    packets are the plugin's, the capture tools store the payloads the plugin's parser finds, the writer
    thread of \<open>usbcap_fast.c\<close> stores them under every interleaving and always ends; the frame statistics are
    exact on whole frames only.
  \<^item> \<open>Uhsif_Bulk\<close>, \<open>Verify_Queue\<close>, \<open>Bulk_Flows\<close>, \<open>Bulk_Rates\<close>, \<open>Bulk_Main\<close>: \<open>uhsif_bulk.c\<close>, the bring-up tool of the
    bulk downlink. The loopback verifier is exact, its thread loses nothing, the window of the downlink
    holds, a loopback run passes only if it should, lists of lengths are read back, and every flow returns.

  \<^bold>\<open>Interfaces.\<close> \<open>chunk_consumer\<close> holds for the stream parser, for \<open>packet_feed\<close>, for
  \<open>g1_capture_callback\<close> and for the parsers of the tools; \<open>fifo\<close> for the index arithmetic that the queues of the plugin and of the tools use;
  \<open>event_client\<close> for the capture tools, whose callbacks are only called from libusb; \<open>scan_port\<close> for the JTAG
  operations; \<open>command_port\<close>, on which the command layer relies, for sessions over any transport;
  \<open>byte_source\<close>, a transport that delivers what its device sent, for the replay backend and, where libusb
  keeps the documented behaviour \<open>usb_stream\<close>, for the libusb backend.

  \<^bold>\<open>Loops.\<close> Loops with a variant are functions with a termination proof. \<open>stream_feed\<close>, \<open>cmd_wait\<close>,
  \<open>poll_busy\<close>, \<open>event_loop\<close> and the waiting loops of \<open>uhsif_bulk.c\<close>, which end only if their environment behaves, are partial functions; that
  they return is proved: for every input of \<open>stream_feed\<close>, for an advancing clock, after finitely many
  busy answers, at the end of the recording and after a signal. The fixed bounds of the code (50 scans
  of the bus, 50 rounds of events) are kept. Two numbers are parameters: \<open>la_interrupts\<close>, how often in a
  row libusb reports an interrupted call, and \<open>la_window\<close>, the rounds the clock allows the link probe;
  \<open>tb_window\<close> is the same for the waiting loops of the capture tools.

  \<^bold>\<open>Parameters.\<close> libusb and the device (\<open>usb_bus\<close>, \<open>libusb_api\<close>, \<open>jtag_usb\<close>), the clock, \<open>fwrite\<close>, the file
  contents, the schedule of the threads and the compiler's date. Properties that need something of them
  have it as hypothesis.

  \<^bold>\<open>Not modelled.\<close> Log lines and progress output; sleeping; failure of \<open>os_alloc\<close>, which ends the process;
  installation of the signal handler and redirection of the log. The operating-system parts of
  \<open>os_common.c\<close> are calls of the C library. Of the tools, the printed reports with their measured times and
  rates, the injected stall of \<open>usbcap_fast.c\<close>, and \<open>getopt_long\<close>, whose answers are an argument of \<open>bulk_main\<close>.
  The Python test scripts.
\<close>

end
